(* ===== verification/Uv_Prelude.thy ===== *)
theory Uv_Prelude
  imports Main "HOL-Library.Word" "HOL-Library.Monad_Syntax"
begin

text \<open>
  Vocabulary shared by all components: C's pointers and integer widths, the collections of
  rewrite rules the component theories fill, and generic lemmas on lists and options.

  A pointer is a natural number and \<open>NULL\<close> is 0. A heap of C objects is a total function from
  pointers to the object's fields; a read through \<open>NULL\<close> is a failure, written as \<open>None\<close>
  wherever the code could perform one.
\<close>

section \<open>C's types\<close>

type_synonym ptr = nat

abbreviation (input) NULL :: ptr where
  "NULL \<equiv> 0"

type_synonym u8 = "8 word"
type_synonym u16 = "16 word"
type_synonym u32 = "32 word"
type_synonym u64 = "64 word"

section \<open>Collections of rewrite rules\<close>

named_theorems store_simps \<open>reads after writes in an object store\<close>
named_theorems ring_laws \<open>effect of the queue macros on the rings of a store\<close>
named_theorems flag_simps \<open>tests and updates of handle flags\<close>

section \<open>Options\<close>

lemma bind_eq_Some_iff [simp]:
  "(Option.bind m f = Some y) \<longleftrightarrow> (\<exists>x. m = Some x \<and> f x = Some y)"
  by (cases m) auto

lemma Some_exI [intro]: "m = Some x \<Longrightarrow> \<exists>y. m = Some y"
  by blast

section \<open>Lists\<close>

lemma distinct_nth_inj:
  "distinct xs \<Longrightarrow> i < length xs \<Longrightarrow> j < length xs \<Longrightarrow> xs ! i = xs ! j \<longleftrightarrow> i = j"
  by (rule nth_eq_iff_index_eq)

lemma last_in_Cons: "last (x # xs) \<in> insert x (set xs)"
  by (cases xs rule: rev_cases) auto

lemma last_Cons_snoc [simp]: "last (x # ys @ [z]) = z"
  by simp

lemma in_set_split: "x \<in> set xs \<Longrightarrow> \<exists>ys zs. xs = ys @ x # zs"
  by (rule split_list)

lemma remove1_split:
  "x \<notin> set ys \<Longrightarrow> remove1 x (ys @ x # zs) = ys @ zs"
  by (simp add: remove1_append)

section \<open>Strings and printed numbers\<close>

text \<open>The digits \<open>printf\<close> writes for \<open>%d\<close>, \<open>%u\<close> and \<open>%x\<close>.\<close>

definition digit_char :: "nat \<Rightarrow> char" where
  "digit_char d = char_of (if d < 10 then 48 + d else 87 + d)"

fun show_digits :: "nat \<Rightarrow> nat \<Rightarrow> string" where
  "show_digits b n =
     (if n < b \<or> b < 2 then [digit_char n]
      else show_digits b (n div b) @ [digit_char (n mod b)])"

declare show_digits.simps [simp del]

definition show_int :: "int \<Rightarrow> string" where
  "show_int i = (if i < 0 then CHR ''-'' # show_digits 10 (nat (- i)) else show_digits 10 (nat i))"

lemma show_digits_small: "n < b \<Longrightarrow> show_digits b n = [digit_char n]"
  by (simp add: show_digits.simps)

lemma show_digits_step:
  "b \<le> n \<Longrightarrow> 2 \<le> b \<Longrightarrow> show_digits b n = show_digits b (n div b) @ [digit_char (n mod b)]"
  by (simp add: show_digits.simps[of b n])

lemma length_show_digits_le: "2 \<le> b \<Longrightarrow> n < b ^ Suc k \<Longrightarrow> length (show_digits b n) \<le> Suc k"
proof (induction k arbitrary: n)
  case 0
  then show ?case by (simp add: show_digits_small)
next
  case (Suc k)
  show ?case
  proof (cases "n < b")
    case True
    then show ?thesis by (simp add: show_digits_small)
  next
    case False
    have "n div b < b ^ Suc k"
      using Suc.prems by (simp add: less_mult_imp_div_less mult.commute)
    with Suc.IH Suc.prems(1) False show ?thesis by (simp add: show_digits_step)
  qed
qed

lemma length_show_digits_ge: "2 \<le> b \<Longrightarrow> b ^ k \<le> n \<Longrightarrow> Suc k \<le> length (show_digits b n)"
proof (induction k arbitrary: n)
  case 0
  show ?case by (cases "n < b") (use 0 in \<open>simp_all add: show_digits_small show_digits_step\<close>)
next
  case (Suc k)
  have "b \<le> n" using Suc.prems by (metis one_le_power le_trans mult.right_neutral
      mult_le_mono2 power_Suc one_le_numeral)
  moreover have "b ^ k \<le> n div b"
    using Suc.prems by (simp add: less_eq_div_iff_mult_less_eq mult.commute)
  ultimately show ?case using Suc.IH Suc.prems(1) by (simp add: show_digits_step)
qed

end
