(* ===== verification/Uv_Queue.thy ===== *)
theory Uv_Queue
  imports Uv_Prelude "HOL-Library.While_Combinator"
begin

text \<open>
  \<open>queue.h\<close>: the intrusive circular doubly linked list. A \<open>QUEUE\<close> is an array of two
  pointers, \<open>next\<close> and \<open>prev\<close>; the store below holds both fields of every node, heads
  included. Each macro is the sequence of assignments of its C body, in that order, so that an
  aliasing of its arguments has in the model the effect it has in the code.

  The abstraction is a \<^emph>\<open>ring\<close>: \<open>qring s h xs\<close> says that following \<open>next\<close> from the head \<open>h\<close>
  visits exactly \<open>xs\<close> and comes back, and that every \<open>prev\<close> is the inverse of its \<open>next\<close>.
\<close>

section \<open>The store and its macros\<close>

record qstore =
  qnext :: "ptr \<Rightarrow> ptr"
  qprev :: "ptr \<Rightarrow> ptr"

definition set_next :: "ptr \<Rightarrow> ptr \<Rightarrow> qstore \<Rightarrow> qstore" where
  "set_next q v s = s\<lparr>qnext := (qnext s)(q := v)\<rparr>"

definition set_prev :: "ptr \<Rightarrow> ptr \<Rightarrow> qstore \<Rightarrow> qstore" where
  "set_prev q v s = s\<lparr>qprev := (qprev s)(q := v)\<rparr>"

lemma set_next_sel [simp, store_simps]:
  "qnext (set_next q v s) = (qnext s)(q := v)"
  "qprev (set_next q v s) = qprev s"
  by (simp_all add: set_next_def)

lemma set_prev_sel [simp, store_simps]:
  "qprev (set_prev q v s) = (qprev s)(q := v)"
  "qnext (set_prev q v s) = qnext s"
  by (simp_all add: set_prev_def)

definition QUEUE_EMPTY :: "ptr \<Rightarrow> qstore \<Rightarrow> bool" where
  "QUEUE_EMPTY q s \<longleftrightarrow> q = qnext s q"

definition QUEUE_HEAD :: "ptr \<Rightarrow> qstore \<Rightarrow> ptr" where
  "QUEUE_HEAD q s = qnext s q"

definition QUEUE_INIT :: "ptr \<Rightarrow> qstore \<Rightarrow> qstore" where
  "QUEUE_INIT q s =
     (let s1 = set_next q q s
      in set_prev q q s1)"

definition QUEUE_ADD :: "ptr \<Rightarrow> ptr \<Rightarrow> qstore \<Rightarrow> qstore" where
  "QUEUE_ADD h n s =
     (let s1 = set_next (qprev s h) (qnext s n) s;
          s2 = set_prev (qnext s1 n) (qprev s1 h) s1;
          s3 = set_prev h (qprev s2 n) s2
      in set_next (qprev s3 h) h s3)"

definition QUEUE_SPLIT :: "ptr \<Rightarrow> ptr \<Rightarrow> ptr \<Rightarrow> qstore \<Rightarrow> qstore" where
  "QUEUE_SPLIT h q n s =
     (let s1 = set_prev n (qprev s h) s;
          s2 = set_next (qprev s1 n) n s1;
          s3 = set_next n q s2;
          s4 = set_prev h (qprev s3 q) s3;
          s5 = set_next (qprev s4 h) h s4
      in set_prev q n s5)"

definition QUEUE_MOVE :: "ptr \<Rightarrow> ptr \<Rightarrow> qstore \<Rightarrow> qstore" where
  "QUEUE_MOVE h n s =
     (if QUEUE_EMPTY h s then QUEUE_INIT n s
      else QUEUE_SPLIT h (QUEUE_HEAD h s) n s)"

definition QUEUE_INSERT_HEAD :: "ptr \<Rightarrow> ptr \<Rightarrow> qstore \<Rightarrow> qstore" where
  "QUEUE_INSERT_HEAD h q s =
     (let s1 = set_next q (qnext s h) s;
          s2 = set_prev q h s1;
          s3 = set_prev (qnext s2 q) q s2
      in set_next h q s3)"

definition QUEUE_INSERT_TAIL :: "ptr \<Rightarrow> ptr \<Rightarrow> qstore \<Rightarrow> qstore" where
  "QUEUE_INSERT_TAIL h q s =
     (let s1 = set_next q h s;
          s2 = set_prev q (qprev s1 h) s1;
          s3 = set_next (qprev s2 q) q s2
      in set_prev h q s3)"

definition QUEUE_REMOVE :: "ptr \<Rightarrow> qstore \<Rightarrow> qstore" where
  "QUEUE_REMOVE q s =
     (let s1 = set_next (qprev s q) (qnext s q) s
      in set_prev (qnext s1 q) (qprev s1 q) s1)"

text \<open>
  \<open>QUEUE_FOREACH (q, h)\<close> with a body that does not change the queue: the nodes the loop
  variable takes. On a store that is not a ring the loop may run forever, so the result is an
  option; \<open>None\<close> is a loop that does not end.
\<close>

partial_function (option) foreach_from :: "ptr \<Rightarrow> ptr \<Rightarrow> qstore \<Rightarrow> ptr list option" where
  "foreach_from q h s =
     (if q = h then Some []
      else Option.bind (foreach_from (qnext s q) h s) (\<lambda>qs. Some (q # qs)))"

definition QUEUE_FOREACH :: "ptr \<Rightarrow> qstore \<Rightarrow> ptr list option" where
  "QUEUE_FOREACH h s = foreach_from (qnext s h) h s"

section \<open>Rings\<close>

text \<open>A segment: from \<open>a\<close>, through \<open>xs\<close>, to \<open>b\<close>, with both links of every edge.\<close>

fun qseg :: "qstore \<Rightarrow> ptr \<Rightarrow> ptr list \<Rightarrow> ptr \<Rightarrow> bool" where
  "qseg s a [] b \<longleftrightarrow> qnext s a = b \<and> qprev s b = a"
| "qseg s a (x # xs) b \<longleftrightarrow> qnext s a = x \<and> qprev s x = a \<and> qseg s x xs b"

definition qring :: "qstore \<Rightarrow> ptr \<Rightarrow> ptr list \<Rightarrow> bool" where
  "qring s h xs \<longleftrightarrow> qseg s h xs h \<and> distinct (h # xs)"

lemma qseg_append [simp]:
  "qseg s a (xs @ y # ys) b \<longleftrightarrow> qseg s a xs y \<and> qseg s y ys b"
  by (induction xs arbitrary: a) auto

lemma qseg_last: "qseg s a xs b \<Longrightarrow> qprev s b = last (a # xs)"
  by (induction xs arbitrary: a) auto

lemma qseg_first: "qseg s a xs b \<Longrightarrow> qnext s a = hd (xs @ [b])"
  by (cases xs) auto

text \<open>A segment only depends on \<open>next\<close> of its start and inner nodes and on \<open>prev\<close> of its
  inner nodes and end.\<close>

lemma qseg_cong:
  assumes "\<And>x. x \<in> insert a (set xs) \<Longrightarrow> qnext s' x = qnext s x"
    and "\<And>x. x \<in> insert b (set xs) \<Longrightarrow> qprev s' x = qprev s x"
  shows "qseg s' a xs b = qseg s a xs b"
  using assms by (induction xs arbitrary: a) auto

lemma qring_cong:
  assumes "\<And>x. x \<in> insert h (set xs) \<Longrightarrow> qnext s' x = qnext s x"
    and "\<And>x. x \<in> insert h (set xs) \<Longrightarrow> qprev s' x = qprev s x"
  shows "qring s' h xs = qring s h xs"
  unfolding qring_def using qseg_cong[of h xs s' s h] assms by auto

lemma qring_distinct: "qring s h xs \<Longrightarrow> distinct (h # xs)"
  by (simp add: qring_def)

lemma qring_empty_iff: "qring s h xs \<Longrightarrow> QUEUE_EMPTY h s \<longleftrightarrow> xs = []"
  by (cases xs) (auto simp: qring_def QUEUE_EMPTY_def)

lemma qring_head: "qring s h (x # xs) \<Longrightarrow> QUEUE_HEAD h s = x"
  by (simp add: qring_def QUEUE_HEAD_def)

lemma qring_unique: "qring s h xs \<Longrightarrow> qring s h ys \<Longrightarrow> xs = ys"
proof -
  have seg: "qseg s a xs h \<Longrightarrow> qseg s a ys h \<Longrightarrow> h \<notin> set xs \<Longrightarrow> h \<notin> set ys \<Longrightarrow> xs = ys" for a
  proof (induction xs arbitrary: a ys)
    case Nil
    then show ?case by (cases ys) auto
  next
    case (Cons x xs)
    then show ?case by (cases ys) auto
  qed
  assume "qring s h xs" "qring s h ys"
  then show ?thesis using seg by (auto simp: qring_def)
qed


section \<open>What the macros do to rings\<close>

lemma qring_INIT [ring_laws]: "qring (QUEUE_INIT h s) h []"
  by (simp add: qring_def QUEUE_INIT_def Let_def)

lemma qring_INIT_frame:
  "h \<notin> insert g (set ys) \<Longrightarrow> qring (QUEUE_INIT h s) g ys = qring s g ys"
  by (rule qring_cong) (auto simp: QUEUE_INIT_def Let_def)

lemma qring_INSERT_TAIL [ring_laws]:
  assumes "qring s h xs" "q \<notin> insert h (set xs)"
  shows "qring (QUEUE_INSERT_TAIL h q s) h (xs @ [q])"
proof (cases xs rule: rev_cases)
  case Nil
  with assms show ?thesis
    by (simp add: qring_def QUEUE_INSERT_TAIL_def Let_def)
next
  case (snoc ys z)
  let ?t = "QUEUE_INSERT_TAIL h q s"
  from assms snoc have seg: "qseg s h ys z" and z: "qnext s z = h" "qprev s h = z"
    and d: "distinct (h # ys @ [z, q])"
    by (auto simp: qring_def)
  from z d have t: "qnext ?t = (qnext s)(q := h, z := q)" "qprev ?t = (qprev s)(q := z, h := q)"
    by (auto simp: QUEUE_INSERT_TAIL_def Let_def fun_eq_iff)
  have "qseg ?t h ys z = qseg s h ys z"
    using d by (intro qseg_cong) (auto simp: t)
  with seg d snoc show ?thesis by (auto simp: qring_def t)
qed

lemma qring_INSERT_HEAD [ring_laws]:
  assumes "qring s h xs" "q \<notin> insert h (set xs)"
  shows "qring (QUEUE_INSERT_HEAD h q s) h (q # xs)"
proof (cases xs)
  case Nil
  with assms show ?thesis
    by (auto simp: qring_def QUEUE_INSERT_HEAD_def Let_def)
next
  case (Cons z ys)
  let ?t = "QUEUE_INSERT_HEAD h q s"
  from assms Cons have seg: "qseg s z ys h" and z: "qnext s h = z" "qprev s z = h"
    and d: "distinct (h # q # z # ys)"
    by (auto simp: qring_def)
  from z d have t: "qnext ?t = (qnext s)(q := z, h := q)" "qprev ?t = (qprev s)(q := h, z := q)"
    by (auto simp: QUEUE_INSERT_HEAD_def Let_def fun_eq_iff)
  have "qseg ?t z ys h = qseg s z ys h"
    using d by (intro qseg_cong) (auto simp: t)
  with seg d Cons show ?thesis by (auto simp: qring_def t)
qed

lemma qseg_REMOVE:
  assumes "qseg s a (xs @ q # ys) b" "distinct (xs @ q # ys)" "q \<noteq> a" "q \<noteq> b"
    "a \<notin> set xs \<union> set ys" "b \<notin> set xs \<union> set ys"
  shows "qseg (QUEUE_REMOVE q s) a (xs @ ys) b"
proof -
  let ?t = "QUEUE_REMOVE q s" and ?p = "last (a # xs)" and ?n = "hd (ys @ [b])"
  from assms(1) have s1: "qseg s a xs q" and s2: "qseg s q ys b" by simp_all
  have pq: "qprev s q = ?p" and nq: "qnext s q = ?n"
    using qseg_last[OF s1] qseg_first[OF s2] by simp_all
  have p: "?p \<in> insert a (set xs)" by (cases xs rule: rev_cases) auto
  have n: "?n \<in> insert b (set ys)" by (cases ys) auto
  have p_ys: "?p \<notin> set ys" using p assms(2,5) by (auto simp del: last.simps)
  have t: "qnext ?t = (qnext s)(?p := ?n)" "qprev ?t = (qprev s)(?n := ?p)"
    using pq nq p assms(2,3) by (auto simp: QUEUE_REMOVE_def Let_def)
  have left: "qseg ?t a xs c \<longleftrightarrow> qnext ?t ?p = c \<and> qprev ?t c = ?p" for c
  proof (cases xs rule: rev_cases)
    case Nil then show ?thesis by simp
  next
    case (snoc zs z)
    have "qseg ?t a zs z = qseg s a zs z"
      using snoc n assms(2-6) by (intro qseg_cong) (auto simp: t)
    with s1 snoc show ?thesis by simp
  qed
  show ?thesis
  proof (cases ys)
    case Nil
    then show ?thesis using left[of b] by (simp add: t)
  next
    case (Cons z zs)
    have "qseg ?t z zs b = qseg s z zs b"
      using Cons p_ys assms(2-6) by (intro qseg_cong) (auto simp: t simp del: last.simps)
    with s2 Cons left[of z] show ?thesis by (auto simp: t)
  qed
qed

lemma qring_REMOVE [ring_laws]:
  assumes "qring s h (xs @ q # ys)"
  shows "qring (QUEUE_REMOVE q s) h (xs @ ys)"
  using assms qseg_REMOVE[of s h xs q ys h] by (auto simp: qring_def)

text \<open>A removed node keeps its own two links; only its neighbours change.\<close>

lemma QUEUE_REMOVE_frame:
  assumes "qring s h xs" "q \<in> set xs" "x \<notin> insert h (set xs)"
  shows "qnext (QUEUE_REMOVE q s) x = qnext s x" "qprev (QUEUE_REMOVE q s) x = qprev s x"
proof -
  from assms(2) obtain ys zs where xs: "xs = ys @ q # zs" by (auto dest: split_list)
  from assms(1) have s1: "qseg s h ys q" and s2: "qseg s q zs h" by (simp_all add: qring_def xs)
  have "qprev s q \<in> insert h (set xs)" "qnext s q \<in> insert h (set xs)"
    using qseg_last[OF s1] qseg_first[OF s2]
    by (cases ys rule: rev_cases; cases zs; auto simp: xs)+
  with assms(2,3) qring_distinct[OF assms(1)]
  show "qnext (QUEUE_REMOVE q s) x = qnext s x" "qprev (QUEUE_REMOVE q s) x = qprev s x"
    by (auto simp: QUEUE_REMOVE_def Let_def)
qed

lemma qring_INSERT_TAIL_frame:
  assumes "qring s h xs" "insert g (set ys) \<inter> insert q (insert h (set xs)) = {}"
  shows "qring (QUEUE_INSERT_TAIL h q s) g ys = qring s g ys"
proof -
  have "qprev s h \<in> insert h (set xs)"
    using assms(1) qseg_last[of s h xs h] last_in_Cons[of h xs] by (simp only: qring_def)
  then show ?thesis
    using assms(2) by (intro qring_cong) (auto simp: QUEUE_INSERT_TAIL_def Let_def)
qed

lemma qring_REMOVE_frame:
  assumes "qring s h xs" "q \<in> set xs" "insert g (set ys) \<inter> insert h (set xs) = {}"
  shows "qring (QUEUE_REMOVE q s) g ys = qring s g ys"
  by (intro qring_cong QUEUE_REMOVE_frame[OF assms(1,2)]) (use assms(3) in auto)

text \<open>\<open>QUEUE_SPLIT\<close> cuts a ring at the node \<open>q\<close>: what precedes it stays with \<open>h\<close>, \<open>q\<close> and
  what follows it goes to the new head \<open>n\<close>.\<close>

lemma qring_SPLIT [ring_laws]:
  assumes "qring s h (xs @ q # ys)" "n \<notin> insert h (set (xs @ q # ys))"
  shows "qring (QUEUE_SPLIT h q n s) n (q # ys)" "qring (QUEUE_SPLIT h q n s) h xs"
proof -
  let ?t = "QUEUE_SPLIT h q n s" and ?p = "last (h # xs)" and ?l = "last (q # ys)"
  from assms(1) have s1: "qseg s h xs q" and s2: "qseg s q ys h"
    and d: "distinct (h # xs @ q # ys)" by (auto simp: qring_def)
  have pq: "qprev s q = ?p" and ph: "qprev s h = ?l"
    using qseg_last[OF s1] qseg_last[OF s2] by simp_all
  have p: "?p \<in> insert h (set xs)" and l: "?l \<in> insert q (set ys)"
    by (rule last_in_Cons)+
  have pn: "?p \<notin> insert n (insert q (set ys))" and ln: "?l \<notin> insert n (insert h (set xs))"
    using p l d assms(2) by (auto simp del: last.simps)
  have t: "qnext ?t = (qnext s)(?l := n, n := q, ?p := h)"
    "qprev ?t = (qprev s)(n := ?l, h := ?p, q := n)"
    using pq ph pn ln d assms(2)
    by (auto simp: QUEUE_SPLIT_def Let_def simp del: last.simps intro!: ext)
  have "qseg ?t q ys n"
  proof (cases ys rule: rev_cases)
    case Nil
    then show ?thesis using pn d assms(2) by (auto simp: t)
  next
    case (snoc zs z)
    have "qseg ?t q zs z = qseg s q zs z"
      using snoc d assms(2) pn by (intro qseg_cong) (auto simp: t simp del: last.simps)
    with s2 snoc pn d assms(2) show ?thesis by (auto simp: t simp del: last.simps)
  qed
  moreover have "qseg ?t h xs h"
  proof (cases xs rule: rev_cases)
    case Nil
    then show ?thesis using ln d by (auto simp: t)
  next
    case (snoc zs z)
    have "qseg ?t h zs z = qseg s h zs z"
      using snoc d assms(2) ln by (intro qseg_cong) (auto simp: t simp del: last.simps)
    with s1 snoc ln d assms(2) show ?thesis by (auto simp: t simp del: last.simps)
  qed
  moreover have "qnext ?t n = q" "qprev ?t q = n"
    using pn d assms(2) by (auto simp: t simp del: last.simps)
  ultimately show "qring ?t n (q # ys)" "qring ?t h xs"
    using d assms(2) by (auto simp: qring_def)
qed

lemma qring_MOVE [ring_laws]:
  assumes "qring s h xs" "n \<notin> insert h (set xs)"
  shows "qring (QUEUE_MOVE h n s) n xs" "qring (QUEUE_MOVE h n s) h []"
proof -
  have "qring (QUEUE_MOVE h n s) n xs \<and> qring (QUEUE_MOVE h n s) h []"
  proof (cases xs)
    case Nil
    with assms qring_empty_iff[OF assms(1)] qring_INIT_frame[of n h "[]" s]
    show ?thesis by (simp add: QUEUE_MOVE_def qring_INIT)
  next
    case (Cons q ys)
    with assms qring_empty_iff[OF assms(1)] qring_head[of s h q ys]
      qring_SPLIT[of s h "[]" q ys n]
    show ?thesis by (simp add: QUEUE_MOVE_def)
  qed
  then show "qring (QUEUE_MOVE h n s) n xs" "qring (QUEUE_MOVE h n s) h []" by auto
qed

text \<open>\<open>QUEUE_ADD\<close> appends the ring of \<open>n\<close> to the ring of \<open>h\<close>.\<close>

lemma qring_ADD [ring_laws]:
  assumes "qring s h xs" "qring s n ys" "insert h (set xs) \<inter> insert n (set ys) = {}"
  shows "qring (QUEUE_ADD h n s) h (xs @ ys)"
proof -
  let ?t = "QUEUE_ADD h n s" and ?p = "last (h # xs)"
  have p: "?p \<in> insert h (set xs)" by (rule last_in_Cons)
  have s1: "qseg s h xs h" and d1: "distinct (h # xs)" and s2: "qseg s n ys n"
    and d2: "distinct (n # ys)"
    using assms by (auto simp: qring_def)
  have ph: "qprev s h = ?p" using qseg_last[OF s1] by simp
  show ?thesis
  proof (cases ys)
    case Nil
    with s2 have nn: "qnext s n = n" "qprev s n = n" by simp_all
    have t: "qnext ?t = (qnext s)(?p := h)" "qprev ?t = (qprev s)(n := ?p, h := ?p)"
      using nn ph p assms(3)
      by (auto simp: QUEUE_ADD_def Let_def simp del: last.simps intro!: ext)
    have nx: "qnext s ?p = h"
      using s1 by (cases xs rule: rev_cases) auto
    have "qring ?t h xs = qring s h xs"
      using nx ph assms(3) by (intro qring_cong) (auto simp: t simp del: last.simps)
    with assms(1) Nil show ?thesis by simp
  next
    case (Cons z zs)
    let ?l = "last (z # zs)"
    have l: "?l \<in> set ys" using last_in_Cons[of z zs] by (simp only: Cons list.set)
    from s2 Cons have nz: "qnext s n = z" "qprev s z = n" and s3: "qseg s z zs n" by simp_all
    have pn: "qprev s n = ?l" using qseg_last[OF s3] by simp
    have pz: "?p \<notin> insert n (set ys)" and lz: "?l \<notin> insert n (insert h (set xs))"
      using p l assms(3) d2 by (auto simp del: last.simps)
    have zx: "z \<notin> insert n (insert h (set xs))" using Cons assms(3) d2 by auto
    have t: "qnext ?t = (qnext s)(?p := z, ?l := h)" "qprev ?t = (qprev s)(z := ?p, h := ?l)"
      using nz pn ph pz lz zx assms(3)
      by (auto simp: QUEUE_ADD_def Let_def simp del: last.simps intro!: ext)
    have "qseg ?t z zs h"
    proof (cases zs rule: rev_cases)
      case Nil
      then show ?thesis by (simp add: t)
    next
      case (snoc ws w)
      have "qseg ?t z ws w = qseg s z ws w"
        using snoc Cons d2 pz assms(3) by (intro qseg_cong) (auto simp: t simp del: last.simps)
      with s3 snoc Cons d2 pz assms(3) show ?thesis by (auto simp: t simp del: last.simps)
    qed
    moreover have "qseg ?t h xs z"
    proof (cases xs rule: rev_cases)
      case Nil
      then show ?thesis using lz zx by (simp add: t last_ConsL del: last.simps)
    next
      case (snoc ws w)
      have "qseg ?t h ws w = qseg s h ws w"
        using snoc Cons d1 lz zx assms(3) by (intro qseg_cong) (auto simp: t simp del: last.simps)
      with s1 snoc Cons lz zx show ?thesis by (auto simp: t simp del: last.simps)
    qed
    ultimately show ?thesis using Cons d1 d2 assms(3) by (auto simp: qring_def)
  qed
qed

lemma foreach_qseg:
  "qseg s a (q # qs) h \<Longrightarrow> h \<notin> set (q # qs) \<Longrightarrow> foreach_from q h s = Some (q # qs)"
proof (induction qs arbitrary: a q)
  case Nil
  then show ?case
    by (simp add: foreach_from.simps[of q h s] foreach_from.simps[of h h s])
next
  case (Cons r rs)
  then have "foreach_from r h s = Some (r # rs)" by auto
  with Cons.prems show ?case by (simp add: foreach_from.simps[of q h s])
qed

lemma QUEUE_FOREACH_ring:
  assumes "qring s h xs"
  shows "QUEUE_FOREACH h s = Some xs"
proof (cases xs)
  case Nil
  with assms show ?thesis
    by (simp add: QUEUE_FOREACH_def qring_def foreach_from.simps[of h h s])
next
  case (Cons y ys)
  with assms foreach_qseg[of s h y ys h] show ?thesis
    by (auto simp: QUEUE_FOREACH_def qring_def)
qed

section \<open>The interface the queue's clients use\<close>

text \<open>
  What \<open>uv_walk\<close>, \<open>uv__work_done\<close>, the request list and the thread pool rely on: a store with
  rings, the macros they call and the laws of these macros, framing included. The state may be
  larger than the store (a whole loop), which is why the type of states is a parameter.
\<close>

locale ring_queue =
  fixes ring :: "'s \<Rightarrow> ptr \<Rightarrow> ptr list \<Rightarrow> bool"
    and init :: "ptr \<Rightarrow> 's \<Rightarrow> 's"
    and enq :: "ptr \<Rightarrow> ptr \<Rightarrow> 's \<Rightarrow> 's"
    and unlink :: "ptr \<Rightarrow> 's \<Rightarrow> 's"
    and move :: "ptr \<Rightarrow> ptr \<Rightarrow> 's \<Rightarrow> 's"
    and is_empty :: "ptr \<Rightarrow> 's \<Rightarrow> bool"
    and first :: "ptr \<Rightarrow> 's \<Rightarrow> ptr"
  assumes ring_distinct: "ring s h xs \<Longrightarrow> distinct (h # xs)"
    and ring_init: "ring (init h s) h []"
    and ring_enq: "ring s h xs \<Longrightarrow> q \<notin> insert h (set xs) \<Longrightarrow> ring (enq h q s) h (xs @ [q])"
    and ring_unlink: "ring s h (xs @ q # ys) \<Longrightarrow> ring (unlink q s) h (xs @ ys)"
    and ring_move: "ring s h xs \<Longrightarrow> n \<notin> insert h (set xs) \<Longrightarrow> ring (move h n s) n xs"
    and ring_move_src: "ring s h xs \<Longrightarrow> n \<notin> insert h (set xs) \<Longrightarrow> ring (move h n s) h []"
    and ring_is_empty: "ring s h xs \<Longrightarrow> is_empty h s \<longleftrightarrow> xs = []"
    and ring_first: "ring s h (x # xs) \<Longrightarrow> first h s = x"
    and ring_enq_frame: "ring s h xs \<Longrightarrow> insert g (set ys) \<inter> insert q (insert h (set xs)) = {} \<Longrightarrow>
          ring s g ys \<Longrightarrow> ring (enq h q s) g ys"
    and ring_unlink_frame: "ring s h xs \<Longrightarrow> q \<in> set xs \<Longrightarrow>
          insert g (set ys) \<inter> insert h (set xs) = {} \<Longrightarrow> ring s g ys \<Longrightarrow> ring (unlink q s) g ys"
begin

lemma unlink_first: "ring s h (x # xs) \<Longrightarrow> ring (unlink x s) h xs"
  using ring_unlink[of s h "[]" x xs] by simp

lemma unlink_remove1:
  assumes "ring s h xs" "q \<in> set xs"
  shows "ring (unlink q s) h (remove1 q xs)"
proof -
  from assms(2) obtain ys zs where "xs = ys @ q # zs" "q \<notin> set ys"
    by (blast dest: split_list_first)
  with ring_unlink[of s h ys q zs] assms(1) show ?thesis by (simp add: remove1_split)
qed

text \<open>
  The drain loop of the clients: take the first node off the ring \<open>h\<close>, then run a body. If the
  body leaves the rest of the ring alone, the loop ends, having run the body on every node of
  the ring in order, and leaves the ring empty.
\<close>

lemma drain_loop:
  assumes "ring s h xs" "I xs s"
    and "\<And>q qs s. ring s h (q # qs) \<Longrightarrow> I (q # qs) s \<Longrightarrow>
           ring (body q (unlink q s)) h qs \<and> I qs (body q (unlink q s))"
  shows "while_option (\<lambda>s. \<not> is_empty h s) (\<lambda>s. body (first h s) (unlink (first h s) s)) s
           = Some (fold (\<lambda>q s. body q (unlink q s)) xs s)"
    and "ring (fold (\<lambda>q s. body q (unlink q s)) xs s) h []"
    and "I [] (fold (\<lambda>q s. body q (unlink q s)) xs s)"
proof -
  let ?b = "\<lambda>q s. body q (unlink q s)"
  have "while_option (\<lambda>s. \<not> is_empty h s) (\<lambda>s. ?b (first h s) s) s = Some (fold ?b xs s)
      \<and> ring (fold ?b xs s) h [] \<and> I [] (fold ?b xs s)"
    using assms(1,2)
  proof (induction xs arbitrary: s)
    case Nil
    then show ?case using ring_is_empty[of s h "[]"] by (simp add: while_option_unfold)
  next
    case (Cons q qs)
    from assms(3)[OF Cons.prems] have "ring (?b q s) h qs" "I qs (?b q s)" by simp_all
    with Cons.IH[of "?b q s"] Cons.prems ring_is_empty[of s h "q # qs"] ring_first[of s h q qs]
    show ?case by (subst while_option_unfold) simp
  qed
  then show "while_option (\<lambda>s. \<not> is_empty h s) (\<lambda>s. ?b (first h s) s) s = Some (fold ?b xs s)"
    and "ring (fold ?b xs s) h []" and "I [] (fold ?b xs s)" by auto
qed

text \<open>
  The rotating drain of \<open>uv_walk\<close>: the queue \<open>h\<close> is moved to a local head \<open>n\<close>, then every node
  is put back before the callback runs.
\<close>

lemma rotate_ring:
  assumes "ring s n (q # qs)" "ring s h done" "insert n (set (q # qs)) \<inter> insert h (set done) = {}"
  shows "ring (enq h q (unlink q s)) n qs" "ring (enq h q (unlink q s)) h (done @ [q])"
proof -
  have n: "ring (unlink q s) n qs" by (rule unlink_first[OF assms(1)])
  have h: "ring (unlink q s) h done"
    using assms(3) by (intro ring_unlink_frame[OF assms(1) _ _ assms(2)]) auto
  have d: "q \<notin> insert h (set done)" and dn: "distinct (n # q # qs)"
    using assms(3) ring_distinct[OF assms(1)] by auto
  show "ring (enq h q (unlink q s)) h (done @ [q])" by (rule ring_enq[OF h d])
  show "ring (enq h q (unlink q s)) n qs"
    using assms(3) dn by (intro ring_enq_frame[OF h _ n]) auto
qed

end

interpretation uvq: ring_queue qring QUEUE_INIT QUEUE_INSERT_TAIL QUEUE_REMOVE QUEUE_MOVE
  QUEUE_EMPTY QUEUE_HEAD
proof
  fix s h xs q ys
  show "qring s h (xs @ q # ys) \<Longrightarrow> qring (QUEUE_REMOVE q s) h (xs @ ys)"
    by (rule qring_REMOVE)
qed (auto intro: ring_laws qring_empty_iff qring_head dest: qring_distinct
  simp: qring_INSERT_TAIL_frame qring_REMOVE_frame qring_empty_iff)

section \<open>Families of disjoint rings\<close>

text \<open>
  The program keeps many queues in one store. Its abstract state is a partial map from the heads
  to the lists of their members; the rings of two heads share no node.
\<close>

type_synonym qfamily = "ptr \<Rightarrow> ptr list option"

definition represents :: "qstore \<Rightarrow> qfamily \<Rightarrow> bool" where
  "represents s A \<longleftrightarrow>
     (\<forall>h xs. A h = Some xs \<longrightarrow> qring s h xs) \<and>
     (\<forall>h g xs ys. A h = Some xs \<longrightarrow> A g = Some ys \<longrightarrow> h \<noteq> g \<longrightarrow>
        insert h (set xs) \<inter> insert g (set ys) = {})"

definition unused :: "qfamily \<Rightarrow> ptr \<Rightarrow> bool" where
  "unused A q \<longleftrightarrow> (\<forall>h xs. A h = Some xs \<longrightarrow> q \<notin> insert h (set xs))"

datatype qop = OpInit ptr | OpInsertHead ptr ptr | OpInsertTail ptr ptr | OpRemove ptr
  | OpMove ptr ptr | OpAdd ptr ptr | OpSplit ptr ptr ptr

fun run_qop :: "qop \<Rightarrow> qstore \<Rightarrow> qstore" where
  "run_qop (OpInit h) = QUEUE_INIT h"
| "run_qop (OpInsertHead h q) = QUEUE_INSERT_HEAD h q"
| "run_qop (OpInsertTail h q) = QUEUE_INSERT_TAIL h q"
| "run_qop (OpRemove q) = QUEUE_REMOVE q"
| "run_qop (OpMove h n) = QUEUE_MOVE h n"
| "run_qop (OpAdd h n) = QUEUE_ADD h n"
| "run_qop (OpSplit h q n) = QUEUE_SPLIT h q n"

text \<open>What each macro promises its caller: the family before and after, for arguments the
  caller may pass.\<close>

inductive qspec :: "qfamily \<Rightarrow> qop \<Rightarrow> qfamily \<Rightarrow> bool" where
  spec_init: "unused A h \<Longrightarrow> qspec A (OpInit h) (A(h \<mapsto> []))"
| spec_head: "A h = Some xs \<Longrightarrow> unused A q \<Longrightarrow> qspec A (OpInsertHead h q) (A(h \<mapsto> q # xs))"
| spec_tail: "A h = Some xs \<Longrightarrow> unused A q \<Longrightarrow> qspec A (OpInsertTail h q) (A(h \<mapsto> xs @ [q]))"
| spec_remove: "A h = Some xs \<Longrightarrow> q \<in> set xs \<Longrightarrow> qspec A (OpRemove q) (A(h \<mapsto> remove1 q xs))"
| spec_move: "A h = Some xs \<Longrightarrow> unused A n \<Longrightarrow> qspec A (OpMove h n) (A(h \<mapsto> [], n \<mapsto> xs))"
| spec_add: "A h = Some xs \<Longrightarrow> A n = Some ys \<Longrightarrow> h \<noteq> n \<Longrightarrow>
    qspec A (OpAdd h n) (A(n := None, h \<mapsto> xs @ ys))"
| spec_split: "A h = Some (xs @ q # ys) \<Longrightarrow> unused A n \<Longrightarrow>
    qspec A (OpSplit h q n) (A(h \<mapsto> xs, n \<mapsto> q # ys))"

inductive_cases qspecE: "qspec A op B"

lemma qring_closed:
  assumes "qring s h xs" "x \<in> insert h (set xs)"
  shows "qnext s x \<in> insert h (set xs)" "qprev s x \<in> insert h (set xs)"
proof -
  have "x \<in> insert a (set xs) \<Longrightarrow> qseg s a xs b \<Longrightarrow> qnext s x \<in> insert b (set xs)" for a b
    by (induction xs arbitrary: a) auto
  moreover have "x \<in> insert b (set xs) \<Longrightarrow> qseg s a xs b \<Longrightarrow> qprev s x \<in> insert a (set xs)" for a b
    by (induction xs arbitrary: a) auto
  ultimately show "qnext s x \<in> insert h (set xs)" "qprev s x \<in> insert h (set xs)"
    using assms by (auto simp: qring_def)
qed

definition same_off :: "ptr set \<Rightarrow> qstore \<Rightarrow> qstore \<Rightarrow> bool" where
  "same_off W s t \<longleftrightarrow> (\<forall>x. x \<notin> W \<longrightarrow> qnext t x = qnext s x \<and> qprev t x = qprev s x)"

lemma qring_same_off:
  "same_off W s t \<Longrightarrow> insert g (set ys) \<inter> W = {} \<Longrightarrow> qring t g ys = qring s g ys"
  by (intro qring_cong) (auto simp: same_off_def)

lemma same_off_sets [simp]:
  "q \<in> W \<Longrightarrow> same_off W s (set_next q v t) \<longleftrightarrow> same_off W s t"
  "q \<in> W \<Longrightarrow> same_off W s (set_prev q v t) \<longleftrightarrow> same_off W s t"
  by (auto simp: same_off_def)

text \<open>The macros write only to the rings they are given and to the new node.\<close>

lemma same_off_refl [simp]: "same_off W s s"
  by (simp add: same_off_def)

lemma macros_same_off:
  "same_off {h} s (QUEUE_INIT h s)"
  "qring s h xs \<Longrightarrow> same_off (insert q (insert h (set xs))) s (QUEUE_INSERT_HEAD h q s)"
  "qring s h xs \<Longrightarrow> same_off (insert q (insert h (set xs))) s (QUEUE_INSERT_TAIL h q s)"
  "qring s h xs \<Longrightarrow> q \<in> set xs \<Longrightarrow> same_off (insert h (set xs)) s (QUEUE_REMOVE q s)"
  "qring s h xs \<Longrightarrow> q \<in> set xs \<Longrightarrow> same_off (insert n (insert h (set xs))) s (QUEUE_SPLIT h q n s)"
  "qring s h xs \<Longrightarrow> same_off (insert n (insert h (set xs))) s (QUEUE_MOVE h n s)"
  "qring s h xs \<Longrightarrow> qring s n ys \<Longrightarrow>
     same_off (insert h (set xs) \<union> insert n (set ys)) s (QUEUE_ADD h n s)"
proof -
  show "same_off {h} s (QUEUE_INIT h s)" by (simp add: QUEUE_INIT_def Let_def)
  show "same_off (insert q (insert h (set xs))) s (QUEUE_INSERT_HEAD h q s)" if "qring s h xs"
    using qring_closed[OF that, of h] by (auto simp: QUEUE_INSERT_HEAD_def Let_def)
  show "same_off (insert q (insert h (set xs))) s (QUEUE_INSERT_TAIL h q s)" if "qring s h xs"
    using qring_closed[OF that, of h] by (auto simp: QUEUE_INSERT_TAIL_def Let_def)
  show "same_off (insert h (set xs)) s (QUEUE_REMOVE q s)" if "qring s h xs" "q \<in> set xs"
    using qring_closed[OF that(1), of q] that(2) by (auto simp: QUEUE_REMOVE_def Let_def)
  show sp: "same_off (insert n (insert h (set xs))) s (QUEUE_SPLIT h q n s)"
    if "qring s h xs" "q \<in> set xs" for q
    using qring_closed[OF that(1), of h] qring_closed[OF that(1), of q] that(2)
    by (auto simp: QUEUE_SPLIT_def Let_def)
  show "same_off (insert n (insert h (set xs))) s (QUEUE_MOVE h n s)" if r: "qring s h xs"
  proof (cases xs)
    case Nil
    then show ?thesis using qring_empty_iff[OF r] by (simp add: QUEUE_MOVE_def QUEUE_INIT_def Let_def)
  next
    case (Cons y ys)
    then show ?thesis using qring_empty_iff[OF r] qring_head[of s h y ys] r sp[OF r, of y]
      by (simp add: QUEUE_MOVE_def)
  qed
  show "same_off (insert h (set xs) \<union> insert n (set ys)) s (QUEUE_ADD h n s)"
    if "qring s h xs" "qring s n ys"
    using qring_closed[OF that(1), of h] qring_closed[OF that(2), of n]
    by (auto simp: QUEUE_ADD_def Let_def)
qed

text \<open>A family in which the rings of some heads were changed.\<close>

lemma represents_update:
  assumes rep: "represents s A" and off: "same_off W s t"
    and W: "\<And>g ys. B g = Some ys \<Longrightarrow> g \<notin> D \<Longrightarrow> A g = Some ys \<and> insert g (set ys) \<inter> W = {}"
    and new: "\<And>g ys. B g = Some ys \<Longrightarrow> g \<in> D \<Longrightarrow> qring t g ys \<and> insert g (set ys) \<subseteq> W"
    and dis: "\<And>g k ys zs. B g = Some ys \<Longrightarrow> B k = Some zs \<Longrightarrow> g \<in> D \<Longrightarrow> k \<in> D \<Longrightarrow> g \<noteq> k \<Longrightarrow>
       insert g (set ys) \<inter> insert k (set zs) = {}"
  shows "represents t B"
  unfolding represents_def
proof (intro conjI allI impI)
  fix h xs assume B: "B h = Some xs"
  show "qring t h xs"
  proof (cases "h \<in> D")
    case True then show ?thesis using new[OF B] by simp
  next
    case False
    then show ?thesis using W[OF B] rep qring_same_off[OF off, of h xs] by (simp add: represents_def)
  qed
next
  fix h g xs ys assume B: "B h = Some xs" "B g = Some ys" "h \<noteq> g"
  show "insert h (set xs) \<inter> insert g (set ys) = {}"
    using W[OF B(1)] W[OF B(2)] new[OF B(1)] new[OF B(2)] dis[OF B(1,2)] B(3) rep
    by (cases "h \<in> D"; cases "g \<in> D") (unfold represents_def, blast+)
qed

lemma representsD:
  "represents s A \<Longrightarrow> A h = Some xs \<Longrightarrow> qring s h xs"
  "represents s A \<Longrightarrow> A h = Some xs \<Longrightarrow> A g = Some ys \<Longrightarrow> h \<noteq> g \<Longrightarrow>
     insert h (set xs) \<inter> insert g (set ys) = {}"
  by (auto simp: represents_def)

lemma represents_one:
  assumes rep: "represents s A" and off: "same_off (insert q (insert h (set xs))) s t"
    and A: "A h = Some xs" and q: "q \<in> insert h (set xs) \<or> unused A q"
    and ring: "qring t h ys" and sub: "set ys \<subseteq> insert q (set xs)"
  shows "represents t (A(h \<mapsto> ys))"
proof (rule represents_update[OF rep off, where D = "{h}"])
  fix g zs assume g: "(A(h \<mapsto> ys)) g = Some zs"
  show "A g = Some zs \<and> insert g (set zs) \<inter> insert q (insert h (set xs)) = {}" if "g \<notin> {h}"
  proof -
    from g that have Ag: "A g = Some zs" "h \<noteq> g" by auto
    have d: "insert g (set zs) \<inter> insert h (set xs) = {}"
      using representsD(2)[OF rep A Ag(1) Ag(2)] by blast
    moreover have "q \<notin> insert g (set zs)"
      using q d Ag(1) unfolding unused_def by blast
    ultimately show ?thesis using Ag by blast
  qed
  show "qring t g zs \<and> insert g (set zs) \<subseteq> insert q (insert h (set xs))" if "g \<in> {h}"
    using g that ring sub by auto
qed simp

lemma represents_two:
  assumes rep: "represents s A" and off: "same_off (insert n (insert h (set xs))) s t"
    and A: "A h = Some xs" and n: "unused A n" and xs: "xs = ys @ zs"
    and ring: "qring t h ys" "qring t n zs"
  shows "represents t (A(h \<mapsto> ys, n \<mapsto> zs))"
proof (rule represents_update[OF rep off, where D = "{h, n}"])
  have hn: "h \<noteq> n" and nx: "n \<notin> set xs" using n A by (auto simp: unused_def)
  fix g ws assume g: "(A(h \<mapsto> ys, n \<mapsto> zs)) g = Some ws"
  show "A g = Some ws \<and> insert g (set ws) \<inter> insert n (insert h (set xs)) = {}" if "g \<notin> {h, n}"
  proof -
    from g that have Ag: "A g = Some ws" "h \<noteq> g" by auto
    have "n \<notin> insert g (set ws)" using n Ag(1) unfolding unused_def by blast
    then show ?thesis using Ag representsD(2)[OF rep A Ag(1) Ag(2)] by blast
  qed
  show "qring t g ws \<and> insert g (set ws) \<subseteq> insert n (insert h (set xs))" if "g \<in> {h, n}"
    using g that ring hn xs by (auto split: if_splits)
  fix k vs assume k: "(A(h \<mapsto> ys, n \<mapsto> zs)) k = Some vs" "g \<in> {h, n}" "k \<in> {h, n}" "g \<noteq> k"
  have "distinct (h # ys @ zs)" using qring_distinct[OF representsD(1)[OF rep A]] xs by simp
  then show "insert g (set ws) \<inter> insert k (set vs) = {}"
    using g k hn nx xs by (auto split: if_splits)
qed

lemma qspec_step:
  assumes "represents s A" "qspec A op B"
  shows "represents (run_qop op s) B"
  using assms(2)
proof cases
  case (spec_init h)
  have "represents (QUEUE_INIT h s) B"
    using spec_init
    by (intro represents_update[OF assms(1) macros_same_off(1), where D = "{h}"])
       (auto simp: qring_INIT unused_def split: if_splits)
  then show ?thesis using spec_init by simp
next
  case (spec_head h xs q)
  then have r: "qring s h xs" "q \<notin> insert h (set xs)"
    using representsD(1)[OF assms(1)] by (auto simp: unused_def)
  show ?thesis using spec_head(1,2)
    represents_one[OF assms(1) macros_same_off(2)[OF r(1)] spec_head(3) _ qring_INSERT_HEAD[OF r]]
    spec_head(4) by auto
next
  case (spec_tail h xs q)
  then have r: "qring s h xs" "q \<notin> insert h (set xs)"
    using representsD(1)[OF assms(1)] by (auto simp: unused_def)
  show ?thesis using spec_tail(1,2)
    represents_one[OF assms(1) macros_same_off(3)[OF r(1)] spec_tail(3) _ qring_INSERT_TAIL[OF r]]
    spec_tail(4) by auto
next
  case (spec_remove h xs q)
  have r: "qring s h xs" using representsD(1)[OF assms(1) spec_remove(3)] .
  have off: "same_off (insert h (insert h (set xs))) s (QUEUE_REMOVE q s)"
    using macros_same_off(4)[OF r spec_remove(4)] by simp
  show ?thesis using spec_remove(1,2)
    represents_one[OF assms(1) off spec_remove(3) _ uvq.unlink_remove1[OF r spec_remove(4)]]
    set_remove1_subset[of q xs] by auto
next
  case (spec_move h xs n)
  then have r: "qring s h xs" "n \<notin> insert h (set xs)"
    using representsD(1)[OF assms(1)] by (auto simp: unused_def)
  show ?thesis using spec_move(1,2)
    represents_two[OF assms(1) macros_same_off(6)[OF r(1)] spec_move(3,4) _ qring_MOVE(2)[OF r]
      qring_MOVE(1)[OF r]] by simp
next
  case (spec_add h xs n ys)
  have r: "qring s h xs" "qring s n ys" and d: "insert h (set xs) \<inter> insert n (set ys) = {}"
    using representsD(1)[OF assms(1)] representsD(2)[OF assms(1) spec_add(3-5)] spec_add(3,4) by auto
  have "represents (QUEUE_ADD h n s) (A(n := None, h \<mapsto> xs @ ys))"
  proof (rule represents_update[OF assms(1) macros_same_off(7)[OF r], where D = "{h}"])
    fix g zs assume g: "(A(n := None, h \<mapsto> xs @ ys)) g = Some zs"
    show "A g = Some zs \<and> insert g (set zs) \<inter> (insert h (set xs) \<union> insert n (set ys)) = {}" if "g \<notin> {h}"
    proof -
      from g that have Ag: "A g = Some zs" "h \<noteq> g" "n \<noteq> g" by (auto split: if_splits)
      then show ?thesis using representsD(2)[OF assms(1) spec_add(3) Ag(1) Ag(2)]
        representsD(2)[OF assms(1) spec_add(4) Ag(1) Ag(3)] by blast
    qed
    show "qring (QUEUE_ADD h n s) g zs \<and> insert g (set zs) \<subseteq> insert h (set xs) \<union> insert n (set ys)"
      if "g \<in> {h}" using g that qring_ADD[OF r d] by auto
  qed simp
  then show ?thesis using spec_add by simp
next
  case (spec_split h xs q ys n)
  have r: "qring s h (xs @ q # ys)" "n \<notin> insert h (set (xs @ q # ys))"
    using representsD(1)[OF assms(1) spec_split(3)] spec_split(3,4) unfolding unused_def by blast+
  have off: "same_off (insert n (insert h (set (xs @ q # ys)))) s (QUEUE_SPLIT h q n s)"
    by (rule macros_same_off(5)[OF r(1)]) simp
  show ?thesis using spec_split(1,2)
    represents_two[OF assms(1) off spec_split(3,4) _ qring_SPLIT(2)[OF r] qring_SPLIT(1)[OF r]] by simp
qed

text \<open>A run: macros in any order, each within its contract.\<close>

inductive qspecs :: "qfamily \<Rightarrow> qop list \<Rightarrow> qfamily \<Rightarrow> bool" where
  specs_nil: "qspecs A [] A"
| specs_cons: "qspec A op B \<Longrightarrow> qspecs B ops C \<Longrightarrow> qspecs A (op # ops) C"

section \<open>Properties\<close>

text \<open>
  C9: any sequence of queue macros, each called within its contract, takes a store that
  represents a family of disjoint lists to a store that represents the family the list
  operations give: the macros implement lists, for all queues of the program at once, and none
  of them disturbs a queue it is not given.
\<close>

theorem queue_macros_refine_lists:
  assumes "qspecs A ops B" "represents s A"
  shows "represents (fold run_qop ops s) B"
  using assms by (induction arbitrary: s) (auto intro: qspec_step)

theorem queue_macros_refine_lists_witness:
  "represents (fold run_qop [OpInit 10, OpInsertTail 10 5, OpInsertHead 10 4, OpMove 10 20, OpRemove 5]
      \<lparr>qnext = \<lambda>_. 0, qprev = \<lambda>_. 0\<rparr>) [10 \<mapsto> [], 20 \<mapsto> [4]]"
proof (rule queue_macros_refine_lists)
  let ?A = "Map.empty :: qfamily"
  have "qspec ?A (OpInit 10) [10 \<mapsto> []]"
    using spec_init[of ?A 10] by (simp add: unused_def)
  moreover have "qspec [10 \<mapsto> []] (OpInsertTail 10 5) [10 \<mapsto> [5]]"
    using spec_tail[of "[10 \<mapsto> []]" 10 "[]" 5] by (simp add: unused_def)
  moreover have "qspec [10 \<mapsto> [5]] (OpInsertHead 10 4) [10 \<mapsto> [4, 5]]"
    using spec_head[of "[10 \<mapsto> [5]]" 10 "[5]" 4] by (simp add: unused_def)
  moreover have "qspec [10 \<mapsto> [4, 5]] (OpMove 10 20) [10 \<mapsto> [], 20 \<mapsto> [4, 5]]"
    using spec_move[of "[10 \<mapsto> [4, 5]]" 10 "[4, 5]" 20] by (simp add: unused_def)
  moreover have "qspec [10 \<mapsto> [], 20 \<mapsto> [4, 5]] (OpRemove 5) [10 \<mapsto> [], 20 \<mapsto> [4]]"
    using spec_remove[of "[10 \<mapsto> [], 20 \<mapsto> [4, 5]]" 20 "[4, 5]" 5] by simp
  ultimately show "qspecs ?A [OpInit 10, OpInsertTail 10 5, OpInsertHead 10 4, OpMove 10 20, OpRemove 5]
      [10 \<mapsto> [], 20 \<mapsto> [4]]"
    by (blast intro: specs_cons specs_nil)
qed (simp add: represents_def)

text \<open>
  On a well-formed queue the loop \<open>QUEUE_FOREACH\<close> ends, and visits every member once, in
  order; a queue is empty exactly when \<open>QUEUE_EMPTY\<close> says so.
\<close>

theorem QUEUE_FOREACH_visits_members:
  assumes "represents s A" "A h = Some xs"
  shows "QUEUE_FOREACH h s = Some xs \<and> distinct xs \<and> (QUEUE_EMPTY h s \<longleftrightarrow> xs = [])"
  using QUEUE_FOREACH_ring[OF representsD(1)[OF assms]] qring_distinct[OF representsD(1)[OF assms]]
    qring_empty_iff[OF representsD(1)[OF assms]] by simp

theorem QUEUE_FOREACH_visits_members_witness:
  "QUEUE_FOREACH 1 \<lparr>qnext = (\<lambda>_. 0)(1 := 5, 5 := 1), qprev = (\<lambda>_. 0)(1 := 5, 5 := 1)\<rparr> = Some [5]"
  using QUEUE_FOREACH_visits_members[of
      "\<lparr>qnext = (\<lambda>_. 0)(1 := 5, 5 := 1), qprev = (\<lambda>_. 0)(1 := 5, 5 := 1)\<rparr>" "[1 \<mapsto> [5]]" 1 "[5]"]
  by (auto simp: represents_def qring_def)

end
