(* ===== verification/Uv_Heap.thy ===== *)
theory Uv_Heap
  imports Uv_Prelude "HOL-Library.Multiset"
begin

text \<open>
  \<open>heap-inl.h\<close>: a binary min heap of nodes linked by \<open>left\<close>, \<open>right\<close> and \<open>parent\<close>
  pointers. The model keeps the pointers: every operation is the C function over a store of
  nodes, with the assignments in the code's order, a \<open>struct heap_node**\<close> as a slot, and
  \<open>None\<close> for a walk through a \<open>NULL\<close> link or a loop that does not end.

  The abstraction is the list of the nodes in breadth-first order (\<open>heap_rep\<close>): node \<open>i\<close> has
  the children \<open>2 i + 1\<close> and \<open>2 i + 2\<close>. The operations are shown to be the array operations
  of a binary heap on that list, and those to keep the heap order.
\<close>

section \<open>Nodes, slots and the heap\<close>

record hnode =
  left :: ptr
  right :: ptr
  parent :: ptr

record hheap =
  hmin :: ptr
  nelts :: nat
  hnodes :: "ptr \<Rightarrow> hnode"

type_synonym compare_fn = "ptr \<Rightarrow> ptr \<Rightarrow> bool"

definition upd_node :: "ptr \<Rightarrow> (hnode \<Rightarrow> hnode) \<Rightarrow> hheap \<Rightarrow> hheap" where
  "upd_node p f h = h\<lparr>hnodes := (hnodes h)(p := f (hnodes h p))\<rparr>"

lemma upd_node_sel [simp, store_simps]:
  "hnodes (upd_node p f h) = (hnodes h)(p := f (hnodes h p))"
  "hmin (upd_node p f h) = hmin h"
  "nelts (upd_node p f h) = nelts h"
  by (simp_all add: upd_node_def)

text \<open>A value of type \<open>struct heap_node**\<close>: the address of one of the three kinds of link the
  code walks and assigns.\<close>

datatype slot = MinSlot | LeftSlot ptr | RightSlot ptr

fun read_slot :: "hheap \<Rightarrow> slot \<Rightarrow> ptr" where
  "read_slot h MinSlot = hmin h"
| "read_slot h (LeftSlot p) = left (hnodes h p)"
| "read_slot h (RightSlot p) = right (hnodes h p)"

fun write_slot :: "slot \<Rightarrow> ptr \<Rightarrow> hheap \<Rightarrow> hheap" where
  "write_slot MinSlot v h = h\<lparr>hmin := v\<rparr>"
| "write_slot (LeftSlot p) v h = upd_node p (\<lambda>n. n\<lparr>left := v\<rparr>) h"
| "write_slot (RightSlot p) v h = upd_node p (\<lambda>n. n\<lparr>right := v\<rparr>) h"

section \<open>The operations\<close>

definition heap_init :: "hheap \<Rightarrow> hheap" where
  "heap_init h = h\<lparr>hmin := NULL, nelts := 0\<rparr>"

definition heap_min :: "hheap \<Rightarrow> ptr" where
  "heap_min h = hmin h"

text \<open>\<open>if (q != NULL) q->parent = v\<close>, which the code writes for every child it moves.\<close>

definition link_parent :: "ptr \<Rightarrow> ptr \<Rightarrow> hheap \<Rightarrow> hheap" where
  "link_parent q v h = (if q \<noteq> NULL then upd_node q (\<lambda>n. n\<lparr>parent := v\<rparr>) h else h)"

text \<open>The last statement of a swap and of a replacement: the link to \<open>old\<close> in its former
  parent \<open>gp\<close>, or in the heap itself, is set to \<open>new\<close>.\<close>

definition relink :: "ptr \<Rightarrow> ptr \<Rightarrow> ptr \<Rightarrow> hheap \<Rightarrow> hheap" where
  "relink gp old new h =
     (if gp = NULL then h\<lparr>hmin := new\<rparr>
      else if left (hnodes h gp) = old then upd_node gp (\<lambda>n. n\<lparr>left := new\<rparr>) h
      else upd_node gp (\<lambda>n. n\<lparr>right := new\<rparr>) h)"

lemma link_parent_sel [simp, store_simps]:
  "left (hnodes (link_parent q v h) x) = left (hnodes h x)"
  "right (hnodes (link_parent q v h) x) = right (hnodes h x)"
  "parent (hnodes (link_parent q v h) x) =
     (if x = q \<and> q \<noteq> NULL then v else parent (hnodes h x))"
  "hmin (link_parent q v h) = hmin h" "nelts (link_parent q v h) = nelts h"
  by (simp_all add: link_parent_def)

lemma relink_sel [simp, store_simps]:
  "left (hnodes (relink gp old new h) x) =
     (if x = gp \<and> gp \<noteq> NULL \<and> left (hnodes h x) = old then new else left (hnodes h x))"
  "right (hnodes (relink gp old new h) x) =
     (if x = gp \<and> gp \<noteq> NULL \<and> left (hnodes h x) \<noteq> old then new else right (hnodes h x))"
  "parent (hnodes (relink gp old new h) x) = parent (hnodes h x)"
  "hmin (relink gp old new h) = (if gp = NULL then new else hmin h)"
  "nelts (relink gp old new h) = nelts h"
  by (auto simp: relink_def)

definition heap_node_swap :: "ptr \<Rightarrow> ptr \<Rightarrow> hheap \<Rightarrow> hheap" where
  "heap_node_swap p c h =
     (let t = hnodes h p;
          h1 = upd_node p (\<lambda>_. hnodes h c) h;
          h2 = upd_node c (\<lambda>_. t) h1;
          h3 = upd_node p (\<lambda>n. n\<lparr>parent := c\<rparr>) h2;
          is_left = (left (hnodes h3 c) = c);
          h4 = (if is_left then upd_node c (\<lambda>n. n\<lparr>left := p\<rparr>) h3
                else upd_node c (\<lambda>n. n\<lparr>right := p\<rparr>) h3);
          sibling = (if is_left then right (hnodes h4 c) else left (hnodes h4 c));
          h5 = link_parent sibling c h4;
          h6 = link_parent (left (hnodes h5 p)) p h5;
          h7 = link_parent (right (hnodes h6 p)) p h6
      in relink (parent (hnodes h7 c)) p c h7)"

text \<open>The path from the root to position \<open>n\<close> (counted from 1), lowest step first:
  \<open>path\<close> and \<open>n\<close> are C's 32-bit \<open>unsigned int\<close>.\<close>

fun path_loop :: "nat \<Rightarrow> nat \<Rightarrow> nat \<Rightarrow> nat \<times> nat" where
  "path_loop path k n =
     (if 2 \<le> n then path_loop ((path * 2) mod 2 ^ 32 + n mod 2) (k + 1) (n div 2)
      else (path, k))"

declare path_loop.simps [simp del]

text \<open>The walk along the path: \<open>parent = child; child = &(*child)->right\<close> or \<open>->left\<close>. A
  step from a \<open>NULL\<close> node is undefined in C, and \<open>None\<close> here.\<close>

fun walk :: "hheap \<Rightarrow> nat \<Rightarrow> nat \<Rightarrow> slot \<Rightarrow> slot \<Rightarrow> (slot \<times> slot) option" where
  "walk h path 0 pr ch = Some (pr, ch)"
| "walk h path (Suc k) pr ch =
     (let p = read_slot h ch
      in if p = NULL then None
         else walk h (path div 2) k ch (if path mod 2 = 1 then RightSlot p else LeftSlot p))"

partial_function (option) sift_up :: "compare_fn \<Rightarrow> ptr \<Rightarrow> hheap \<Rightarrow> hheap option" where
  "sift_up lt x h =
     (let p = parent (hnodes h x)
      in if p \<noteq> NULL \<and> lt x p then sift_up lt x (heap_node_swap p x h) else Some h)"

definition smallest_of :: "compare_fn \<Rightarrow> ptr \<Rightarrow> hheap \<Rightarrow> ptr" where
  "smallest_of lt x h =
     (let l = left (hnodes h x); r = right (hnodes h x);
          s1 = (if l \<noteq> NULL \<and> lt l x then l else x)
      in if r \<noteq> NULL \<and> lt r s1 then r else s1)"

partial_function (option) sift_down :: "compare_fn \<Rightarrow> ptr \<Rightarrow> hheap \<Rightarrow> hheap option" where
  "sift_down lt x h =
     (let s = smallest_of lt x h
      in if s = x then Some h else sift_down lt x (heap_node_swap x s h))"

definition heap_insert :: "compare_fn \<Rightarrow> ptr \<Rightarrow> hheap \<Rightarrow> hheap option" where
  "heap_insert lt newnode h =
     (let h1 = upd_node newnode (\<lambda>_. \<lparr>left = NULL, right = NULL, parent = NULL\<rparr>) h;
          (path, k) = path_loop 0 0 ((1 + nelts h1) mod 2 ^ 32)
      in case walk h1 path k MinSlot MinSlot of
           None \<Rightarrow> None
         | Some (pr, ch) \<Rightarrow>
             (let h2 = upd_node newnode (\<lambda>n. n\<lparr>parent := read_slot h1 pr\<rparr>) h1;
                  h3 = write_slot ch newnode h2;
                  h4 = h3\<lparr>nelts := (nelts h3 + 1) mod 2 ^ 32\<rparr>
              in sift_up lt newnode h4))"

text \<open>The relinking of \<open>heap_remove\<close>: \<open>child\<close> takes the place of \<open>node\<close>.\<close>

definition heap_replace :: "ptr \<Rightarrow> ptr \<Rightarrow> hheap \<Rightarrow> hheap" where
  "heap_replace node child h =
     (let h1 = upd_node child (\<lambda>n. n\<lparr>left := left (hnodes h node)\<rparr>) h;
          h2 = upd_node child (\<lambda>n. n\<lparr>right := right (hnodes h1 node)\<rparr>) h1;
          h3 = upd_node child (\<lambda>n. n\<lparr>parent := parent (hnodes h2 node)\<rparr>) h2;
          h4 = link_parent (left (hnodes h3 child)) child h3;
          h5 = link_parent (right (hnodes h4 child)) child h4
      in relink (parent (hnodes h5 node)) node child h5)"

definition heap_remove :: "compare_fn \<Rightarrow> ptr \<Rightarrow> hheap \<Rightarrow> hheap option" where
  "heap_remove lt node h =
     (if nelts h = 0 then Some h
      else
        (let (path, k) = path_loop 0 0 (nelts h)
         in case walk h path k MinSlot MinSlot of
              None \<Rightarrow> None
            | Some (_, mx) \<Rightarrow>
                (let h1 = h\<lparr>nelts := nelts h - 1\<rparr>;
                     child = read_slot h1 mx;
                     h2 = write_slot mx NULL h1
                 in if child = node
                    then Some (if child = hmin h2 then h2\<lparr>hmin := NULL\<rparr> else h2)
                    else if child = NULL \<or> node = NULL then None
                    else Option.bind (sift_down lt child (heap_replace node child h2))
                           (sift_up lt child))))"

definition heap_dequeue :: "compare_fn \<Rightarrow> hheap \<Rightarrow> hheap option" where
  "heap_dequeue lt h = heap_remove lt (hmin h) h"

section \<open>The list of nodes in breadth-first order\<close>

definition at :: "ptr list \<Rightarrow> nat \<Rightarrow> ptr" where
  "at xs i = (if i < length xs then xs ! i else NULL)"

definition par :: "nat \<Rightarrow> nat" where
  "par i = (i - 1) div 2"

definition node_at :: "ptr list \<Rightarrow> nat \<Rightarrow> hnode" where
  "node_at xs i =
     \<lparr>left = at xs (2 * i + 1), right = at xs (2 * i + 2),
      parent = (if i = 0 then NULL else at xs (par i))\<rparr>"

definition heap_rep :: "hheap \<Rightarrow> ptr list \<Rightarrow> bool" where
  "heap_rep h xs \<longleftrightarrow>
     distinct xs \<and> NULL \<notin> set xs \<and> nelts h = length xs \<and> length xs < 2 ^ 32 \<and>
     hmin h = at xs 0 \<and> (\<forall>i < length xs. hnodes h (xs ! i) = node_at xs i)"

definition swap_at :: "nat \<Rightarrow> nat \<Rightarrow> 'a list \<Rightarrow> 'a list" where
  "swap_at i j xs = xs[i := xs ! j, j := xs ! i]"

lemma heap_rep_distinct: "heap_rep h xs \<Longrightarrow> distinct xs"
  and heap_rep_NULL: "heap_rep h xs \<Longrightarrow> NULL \<notin> set xs"
  and heap_rep_nelts: "heap_rep h xs \<Longrightarrow> nelts h = length xs"
  and heap_rep_bound: "heap_rep h xs \<Longrightarrow> length xs < 2 ^ 32"
  and heap_rep_min: "heap_rep h xs \<Longrightarrow> hmin h = at xs 0"
  and heap_rep_node: "heap_rep h xs \<Longrightarrow> i < length xs \<Longrightarrow> hnodes h (xs ! i) = node_at xs i"
  by (simp_all add: heap_rep_def)

lemma at_in: "i < length xs \<Longrightarrow> at xs i = xs ! i"
  by (simp add: at_def)

lemma at_NULL_iff: "NULL \<notin> set xs \<Longrightarrow> at xs i = NULL \<longleftrightarrow> length xs \<le> i"
  by (metis at_def not_le nth_mem)

lemma at_eq_nth:
  assumes "distinct xs" "NULL \<notin> set xs" "k < length xs"
  shows "at xs m = xs ! k \<longleftrightarrow> m = k"
  using assms by (auto simp: at_def nth_eq_iff_index_eq in_set_conv_nth)

lemma nth_eq_at:
  assumes "distinct xs" "NULL \<notin> set xs" "k < length xs"
  shows "xs ! k = at xs m \<longleftrightarrow> m = k"
  using at_eq_nth[OF assms, of m] by auto

lemma length_swap_at [simp]: "length (swap_at i j xs) = length xs"
  by (simp add: swap_at_def)

lemma swap_at_nth:
  "i < length xs \<Longrightarrow> j < length xs \<Longrightarrow> k < length xs \<Longrightarrow>
   swap_at i j xs ! k = (if k = j then xs ! i else if k = i then xs ! j else xs ! k)"
  by (simp add: swap_at_def nth_list_update)

lemma swap_at_at:
  "i < length xs \<Longrightarrow> j < length xs \<Longrightarrow>
   at (swap_at i j xs) k = (if k = j then xs ! i else if k = i then xs ! j else at xs k)"
  by (simp add: at_def swap_at_nth)

lemma mset_swap_at: "i < length xs \<Longrightarrow> j < length xs \<Longrightarrow> mset (swap_at i j xs) = mset xs"
  by (simp add: swap_at_def mset_swap)

lemma set_swap_at: "i < length xs \<Longrightarrow> j < length xs \<Longrightarrow> set (swap_at i j xs) = set xs"
  by (metis mset_swap_at set_mset_mset)

lemma distinct_swap_at: "i < length xs \<Longrightarrow> j < length xs \<Longrightarrow> distinct (swap_at i j xs) = distinct xs"
  by (metis mset_swap_at mset_eq_imp_distinct_iff)

lemma par_less: "0 < i \<Longrightarrow> par i < i"
  by (auto simp: par_def)

lemma par_child: "0 < j \<Longrightarrow> par j = i \<longleftrightarrow> j = 2 * i + 1 \<or> j = 2 * i + 2"
  by (auto simp: par_def)

section \<open>The pointer operations are the array operations\<close>

subsection \<open>Swapping a child with its parent\<close>

text \<open>What the assignments of \<open>heap_node_swap\<close> leave in every node, for a parent \<open>p\<close> and a child
  \<open>c\<close> whose neighbours are distinct nodes.\<close>

lemma heap_node_swap_fields:
  fixes h :: hheap and p c :: ptr
  defines "h' \<equiv> heap_node_swap p c h"
    and "lp \<equiv> left (hnodes h p)" and "rp \<equiv> right (hnodes h p)" and "gp \<equiv> parent (hnodes h p)"
    and "lc \<equiv> left (hnodes h c)" and "rc \<equiv> right (hnodes h c)"
  defines "sib \<equiv> (if lp = c then rp else lp)"
  assumes ne: "p \<noteq> c" "p \<noteq> NULL" "c \<noteq> NULL" and ch: "lp = c \<or> rp = c" "lp \<noteq> rp"
    and pc: "lp \<noteq> p" "rp \<noteq> p" "lc \<noteq> p" "lc \<noteq> c" "rc \<noteq> p" "rc \<noteq> c" "gp \<noteq> p" "gp \<noteq> c"
    and sb: "sib \<noteq> NULL \<longrightarrow> sib \<noteq> lc \<and> sib \<noteq> rc \<and> sib \<noteq> gp"
    and lr: "lc \<noteq> NULL \<longrightarrow> lc \<noteq> rc"
    and gl: "gp \<noteq> NULL \<longrightarrow> lc \<noteq> gp \<and> rc \<noteq> gp"
  shows "left (hnodes h' x) = (if x = c then (if lp = c then p else lp) else if x = p then lc
           else if x = gp \<and> gp \<noteq> NULL \<and> left (hnodes h x) = p then c else left (hnodes h x))"
    and "right (hnodes h' x) = (if x = c then (if lp = c then rp else p) else if x = p then rc
           else if x = gp \<and> gp \<noteq> NULL \<and> left (hnodes h x) \<noteq> p then c else right (hnodes h x))"
    and "parent (hnodes h' x) = (if x = c then gp else if x = p then c
           else if x = sib \<and> sib \<noteq> NULL then c
           else if (x = lc \<and> lc \<noteq> NULL) \<or> (x = rc \<and> rc \<noteq> NULL) then p else parent (hnodes h x))"
    and "hmin h' = (if gp = NULL then c else hmin h)" and "nelts h' = nelts h"
proof -
  define h3 where "h3 = upd_node p (\<lambda>n. n\<lparr>parent := c\<rparr>)
    (upd_node c (\<lambda>_. hnodes h p) (upd_node p (\<lambda>_. hnodes h c) h))"
  define h4 where "h4 = (if left (hnodes h3 c) = c then upd_node c (\<lambda>n. n\<lparr>left := p\<rparr>) h3
    else upd_node c (\<lambda>n. n\<lparr>right := p\<rparr>) h3)"
  define h5 where "h5 = link_parent sib c h4"
  define h6 where "h6 = link_parent (left (hnodes h5 p)) p h5"
  define h7 where "h7 = link_parent (right (hnodes h6 p)) p h6"
  have n3: "hnodes h3 = (hnodes h)(c := hnodes h p, p := (hnodes h c)\<lparr>parent := c\<rparr>)"
    using ne by (auto simp: h3_def)
  then have lc3: "left (hnodes h3 c) = lp" using ne by (simp add: lp_def)
  have l4: "left (hnodes h4 x) = (if x = c then (if lp = c then p else lp)
      else if x = p then lc else left (hnodes h x))" for x
    using ne by (simp add: h4_def lc3 n3 lp_def lc_def)
  have r4: "right (hnodes h4 x) = (if x = c then (if lp = c then rp else p)
      else if x = p then rc else right (hnodes h x))" for x
    using ne by (simp add: h4_def lc3 n3 rp_def rc_def lp_def)
  have p4: "parent (hnodes h4 x) = (if x = c then gp else if x = p then c
      else parent (hnodes h x))" for x
    using ne by (simp add: h4_def lc3 n3 gp_def)
  have sib4: "(if left (hnodes h3 c) = c then right (hnodes h4 c) else left (hnodes h4 c)) = sib"
    by (simp add: lc3 l4 r4 sib_def)
  have l7: "left (hnodes h7 x) = left (hnodes h4 x)" "right (hnodes h7 x) = right (hnodes h4 x)" for x
    by (simp_all add: h7_def h6_def h5_def)
  have lr7: "left (hnodes h5 p) = lc" "right (hnodes h6 p) = rc"
    using ne by (simp_all add: h6_def h5_def l4 r4)
  have h7e: "h7 = link_parent rc p h6" and h6e: "h6 = link_parent lc p h5"
    by (simp only: h7_def lr7, simp only: h6_def lr7)
  have p7: "parent (hnodes h7 x) = (if (x = lc \<and> lc \<noteq> NULL) \<or> (x = rc \<and> rc \<noteq> NULL) then p
      else if x = sib \<and> sib \<noteq> NULL then c else parent (hnodes h4 x))" for x
    by (simp add: h7e h6e h5_def)
  have sc: "sib \<noteq> c" "sib \<noteq> p" using ch pc by (auto simp: sib_def)
  have gp7: "parent (hnodes h7 c) = gp" using sc pc by (simp add: p7 p4)
  have h'_eq: "h' = relink gp p c h7"
    unfolding h'_def heap_node_swap_def Let_def
    by (simp only: h3_def[symmetric] h4_def[symmetric] sib4 h5_def[symmetric] h6_def[symmetric]
        h7_def[symmetric] gp7)
  have m7: "hmin h7 = hmin h" "nelts h7 = nelts h"
    by (simp_all add: h7_def h6_def h5_def h4_def h3_def)
  show "left (hnodes h' x) = (if x = c then (if lp = c then p else lp) else if x = p then lc
      else if x = gp \<and> gp \<noteq> NULL \<and> left (hnodes h x) = p then c else left (hnodes h x))"
    using pc ne by (auto simp: h'_eq l7 l4)
  show "right (hnodes h' x) = (if x = c then (if lp = c then rp else p) else if x = p then rc
      else if x = gp \<and> gp \<noteq> NULL \<and> left (hnodes h x) \<noteq> p then c else right (hnodes h x))"
    using pc ne by (auto simp: h'_eq l7 l4 r4)
  show "parent (hnodes h' x) = (if x = c then gp else if x = p then c
      else if x = sib \<and> sib \<noteq> NULL then c
      else if (x = lc \<and> lc \<noteq> NULL) \<or> (x = rc \<and> rc \<noteq> NULL) then p else parent (hnodes h x))"
    using pc sb sc by (auto simp: h'_eq p7 p4)
  show "hmin h' = (if gp = NULL then c else hmin h)" "nelts h' = nelts h"
    by (simp_all add: h'_eq m7)
qed

lemma at_eq_at:
  assumes "distinct xs" "NULL \<notin> set xs"
  shows "at xs a = at xs b \<longleftrightarrow> a = b \<or> (length xs \<le> a \<and> length xs \<le> b)"
  using assms by (auto simp: at_def nth_eq_iff_index_eq in_set_conv_nth)

lemma node_eqI:
  "left m = left n \<Longrightarrow> right m = right n \<Longrightarrow> parent m = parent n \<Longrightarrow> m = (n::hnode)"
  by simp

lemma node_at_sel [simp]:
  "left (node_at xs i) = at xs (2 * i + 1)" "right (node_at xs i) = at xs (2 * i + 2)"
  "parent (node_at xs i) = (if i = 0 then NULL else at xs (par i))"
  by (simp_all add: node_at_def)

text \<open>The index of a node's parent; \<open>n\<close>, which is no index, for the root.\<close>

definition par_ix :: "nat \<Rightarrow> nat \<Rightarrow> nat" where
  "par_ix n i = (if i = 0 then n else par i)"

lemma at_par_ix: "at xs (par_ix (length xs) i) = (if i = 0 then NULL else at xs (par i))"
  by (simp add: par_ix_def at_def)

lemma par_ix_cases:
  "(i = 0 \<and> par_ix n i = n) \<or>
   (0 < i \<and> par_ix n i < i \<and> (i = 2 * par_ix n i + 1 \<or> i = 2 * par_ix n i + 2))"
  by (auto simp: par_ix_def par_def)

lemma heap_node_swap_rep_fields:
  assumes rep: "heap_rep h xs" and j: "j < length xs" "j = 2 * i + 1 \<or> j = 2 * i + 2"
  defines "sj \<equiv> (if j = 2 * i + 1 then 2 * i + 2 else 2 * i + 1)"
    and "gi \<equiv> par_ix (length xs) i"
    and "h' \<equiv> heap_node_swap (at xs i) (at xs j) h"
  shows "left (hnodes h' x) = (if x = at xs j then (if j = 2 * i + 1 then at xs i else at xs (2 * i + 1))
           else if x = at xs i then at xs (2 * j + 1)
           else if x = at xs gi \<and> 0 < i \<and> left (hnodes h x) = at xs i then at xs j
           else left (hnodes h x))"
    and "right (hnodes h' x) = (if x = at xs j then (if j = 2 * i + 1 then at xs (2 * i + 2) else at xs i)
           else if x = at xs i then at xs (2 * j + 2)
           else if x = at xs gi \<and> 0 < i \<and> left (hnodes h x) \<noteq> at xs i then at xs j
           else right (hnodes h x))"
    and "parent (hnodes h' x) = (if x = at xs j then at xs gi else if x = at xs i then at xs j
           else if x = at xs sj \<and> sj < length xs then at xs j
           else if (x = at xs (2 * j + 1) \<and> 2 * j + 1 < length xs) \<or>
             (x = at xs (2 * j + 2) \<and> 2 * j + 2 < length xs) then at xs i
           else parent (hnodes h x))"
    and "hmin h' = (if i = 0 then at xs j else hmin h)" and "nelts h' = nelts h"
proof -
  note E = at_eq_at[OF heap_rep_distinct[OF rep] heap_rep_NULL[OF rep]]
    at_NULL_iff[OF heap_rep_NULL[OF rep]]
  have i: "i < j" "i < length xs" using j by auto
  have "hnodes h (at xs i) = node_at xs i" "hnodes h (at xs j) = node_at xs j"
    using heap_rep_node[OF rep] i j by (simp_all add: at_in)
  then have N: "left (hnodes h (at xs i)) = at xs (2 * i + 1)" "right (hnodes h (at xs i)) = at xs (2 * i + 2)"
      "parent (hnodes h (at xs i)) = at xs gi"
      "left (hnodes h (at xs j)) = at xs (2 * j + 1)" "right (hnodes h (at xs j)) = at xs (2 * j + 2)"
    by (simp_all only: node_at_sel gi_def at_par_ix)
  have sib: "(if at xs (2 * i + 1) = at xs j then at xs (2 * i + 2) else at xs (2 * i + 1)) = at xs sj"
    using j i by (auto simp: E sj_def)
  have g: "(i = 0 \<and> gi = length xs) \<or> (0 < i \<and> gi < i \<and> (i = 2 * gi + 1 \<or> i = 2 * gi + 2))"
    unfolding gi_def by (rule par_ix_cases)
  have s: "(j = 2 * i + 1 \<and> sj = 2 * i + 2) \<or> (j = 2 * i + 2 \<and> sj = 2 * i + 1)"
    using j by (auto simp: sj_def)
  have P: "at xs i \<noteq> at xs j" "at xs i \<noteq> NULL" "at xs j \<noteq> NULL"
    "at xs (2 * i + 1) = at xs j \<or> at xs (2 * i + 2) = at xs j" "at xs (2 * i + 1) \<noteq> at xs (2 * i + 2)"
    "at xs (2 * i + 1) \<noteq> at xs i" "at xs (2 * i + 2) \<noteq> at xs i"
    "at xs (2 * j + 1) \<noteq> at xs i" "at xs (2 * j + 1) \<noteq> at xs j"
    "at xs (2 * j + 2) \<noteq> at xs i" "at xs (2 * j + 2) \<noteq> at xs j"
    "at xs gi \<noteq> at xs i" "at xs gi \<noteq> at xs j"
    using i j g by (auto simp: E)
  have Q: "at xs sj \<noteq> NULL \<longrightarrow>
      at xs sj \<noteq> at xs (2 * j + 1) \<and> at xs sj \<noteq> at xs (2 * j + 2) \<and> at xs sj \<noteq> at xs gi"
    "at xs (2 * j + 1) \<noteq> NULL \<longrightarrow> at xs (2 * j + 1) \<noteq> at xs (2 * j + 2)"
    "at xs gi \<noteq> NULL \<longrightarrow> at xs (2 * j + 1) \<noteq> at xs gi \<and> at xs (2 * j + 2) \<noteq> at xs gi"
    using s g i j by (auto simp: E)
  note F = heap_node_swap_fields[where h = h and p = "at xs i" and c = "at xs j", unfolded N sib, OF P Q,
      folded h'_def]
  have g0: "at xs gi = NULL \<longleftrightarrow> i = 0" using g i by (auto simp: E)
  have lj: "at xs (2 * i + 1) = at xs j \<longleftrightarrow> j = 2 * i + 1" using i j by (auto simp: E)
  show "left (hnodes h' x) = (if x = at xs j then (if j = 2 * i + 1 then at xs i else at xs (2 * i + 1))
       else if x = at xs i then at xs (2 * j + 1)
       else if x = at xs gi \<and> 0 < i \<and> left (hnodes h x) = at xs i then at xs j
       else left (hnodes h x))"
    by (simp only: F(1) g0 lj neq0_conv)
  show "right (hnodes h' x) = (if x = at xs j then (if j = 2 * i + 1 then at xs (2 * i + 2) else at xs i)
       else if x = at xs i then at xs (2 * j + 2)
       else if x = at xs gi \<and> 0 < i \<and> left (hnodes h x) \<noteq> at xs i then at xs j
       else right (hnodes h x))"
    by (simp only: F(2) g0 lj neq0_conv)
  show "parent (hnodes h' x) = (if x = at xs j then at xs gi else if x = at xs i then at xs j
       else if x = at xs sj \<and> sj < length xs then at xs j
       else if (x = at xs (2 * j + 1) \<and> 2 * j + 1 < length xs) \<or>
         (x = at xs (2 * j + 2) \<and> 2 * j + 2 < length xs) then at xs i
       else parent (hnodes h x))"
    by (simp only: F(3) E not_le)
  show "hmin h' = (if i = 0 then at xs j else hmin h)" "nelts h' = nelts h"
    by (simp_all only: F(4,5) g0)
qed

lemma heap_rep_swap:
  assumes rep: "heap_rep h xs" and j: "0 < j" "j < length xs"
  shows "heap_rep (heap_node_swap (xs ! par j) (xs ! j) h) (swap_at (par j) j xs)"
proof -
  define i where "i = par j"
  define h' where "h' = heap_node_swap (at xs i) (at xs j) h"
  define ys where "ys = swap_at i j xs"
  have ji: "j = 2 * i + 1 \<or> j = 2 * i + 2" using j par_child[of j i] by (simp add: i_def)
  have i: "i < j" "i < length xs" using j par_less[of j] by (simp_all add: i_def)
  note E = at_eq_at[OF heap_rep_distinct[OF rep] heap_rep_NULL[OF rep]]
    at_NULL_iff[OF heap_rep_NULL[OF rep]]
  note F = heap_node_swap_rep_fields[OF rep j(2) ji, folded h'_def]
  have Y: "at ys k = (if k = j then at xs i else if k = i then at xs j else at xs k)" for k
    using i j by (simp add: ys_def swap_at_at at_in)
  have N: "left (hnodes h (at xs k)) = at xs (2 * k + 1)" "right (hnodes h (at xs k)) = at xs (2 * k + 2)"
    "parent (hnodes h (at xs k)) = at xs (par_ix (length xs) k)" if "k < length xs" for k
    using heap_rep_node[OF rep that] that by (simp_all add: at_in at_par_ix)
  have "left (hnodes h' (at ys k)) = at ys (2 * k + 1)
      \<and> right (hnodes h' (at ys k)) = at ys (2 * k + 2)
      \<and> parent (hnodes h' (at ys k)) = at ys (par_ix (length ys) k)" if k: "k < length xs" for k
  proof -
    have ly: "length ys = length xs" by (simp add: ys_def)
    note G = par_ix_cases[of i "length xs"] par_ix_cases[of k "length xs"]
    consider "k = i" | "k = j" | "k \<noteq> i" "k \<noteq> j" by blast
    then show ?thesis
    proof cases
      case 1
      then show ?thesis using ji i j G by (auto simp: Y F N E ly)
    next
      case 2
      then show ?thesis using ji i j G by (auto simp: Y F N E ly)
    next
      case 3
      then have x: "at ys k = at xs k" "at xs k \<noteq> at xs i" "at xs k \<noteq> at xs j"
        using k by (simp_all add: Y E)
      have pk: "par_ix (length xs) k = i \<longleftrightarrow> k = (if j = 2 * i + 1 then 2 * i + 2 else 2 * i + 1)"
        "par_ix (length xs) k = j \<longleftrightarrow> k = 2 * j + 1 \<or> k = 2 * j + 2"
        using 3 k i j ji par_ix_cases[of k "length xs"] by auto
      have gk: "at xs k = at xs (par_ix (length xs) i) \<and> 0 < i \<longleftrightarrow> i = 2 * k + 1 \<or> i = 2 * k + 2"
        using k i par_ix_cases[of i "length xs"] by (auto simp: E)
      have jk: "2 * k + 1 \<noteq> j" "2 * k + 2 \<noteq> j" using 3 ji by auto
      have ik: "at xs (2 * k + 1) = at xs i \<longleftrightarrow> i = 2 * k + 1" using i by (auto simp: E)
      have "left (hnodes h' (at ys k)) = at ys (2 * k + 1)"
        using 3 gk jk ik x(2,3) by (auto simp add: x(1) F(1) N(1)[OF k] Y)
      moreover have "right (hnodes h' (at ys k)) = at ys (2 * k + 2)"
        using 3 gk jk ik x(2,3) by (auto simp add: x(1) F(2) N(1,2)[OF k] Y)
      moreover have "parent (hnodes h' (at ys k)) = at ys (par_ix (length ys) k)"
        using 3 k ji x(2,3) pk N(3)[OF k] by (auto simp add: x(1) F(3) Y ly E)
      ultimately show ?thesis by blast
    qed
  qed
  then have "hnodes h' (ys ! k) = node_at ys k" if "k < length xs" for k
    using that by (intro node_eqI) (simp_all add: ys_def at_in at_par_ix[symmetric])
  moreover have "hmin h' = at ys 0"
    using heap_rep_min[OF rep] i by (simp add: F Y)
  ultimately have "heap_rep h' ys"
    using rep i j unfolding heap_rep_def
    by (simp add: F(5) ys_def distinct_swap_at set_swap_at)
  then show ?thesis using i j by (simp add: h'_def ys_def i_def at_in)
qed

subsection \<open>Paths and walks\<close>

text \<open>
  The path holds the bits of \<open>n\<close> below its leading 1, the highest first to be read. No bit is
  lost in 32 bits, because the path is shorter than \<open>n\<close>.
\<close>

lemma path_loop_spec:
  "p < 2 ^ k \<Longrightarrow> 1 \<le> n \<Longrightarrow> 2 ^ k * n < 2 ^ 32 \<Longrightarrow>
   \<exists>K path. path_loop p k n = (path, k + K) \<and> n div 2 ^ K = 1 \<and> path div 2 ^ K = p \<and>
     (\<forall>j < K. path div 2 ^ j mod 2 = n div 2 ^ (K - 1 - j) mod 2)"
proof (induction p k n rule: path_loop.induct)
  case (1 p k n)
  show ?case
  proof (cases "2 \<le> n")
    case False
    with 1(3) have "n = 1" by simp
    then show ?thesis by (intro exI[of _ 0] exI[of _ p]) (simp add: path_loop.simps)
  next
    case True
    have small: "p * 2 < 2 ^ 32"
    proof -
      have "2 ^ k * 2 \<le> 2 ^ k * n" using True by (intro mult_le_mono2)
      with 1(2,4) show ?thesis by linarith
    qed
    let ?p = "(p * 2) mod 2 ^ 32 + n mod 2"
    have p': "?p = 2 * p + n mod 2" using small by simp
    have "2 ^ (k + 1) * (n div 2) \<le> 2 ^ k * n"
    proof -
      have "2 * (n div 2) \<le> n" by simp
      then have "2 ^ k * (2 * (n div 2)) \<le> 2 ^ k * n" by (rule mult_le_mono2)
      then show ?thesis by (simp add: mult.commute mult.left_commute)
    qed
    with 1(4) have "2 ^ (k + 1) * (n div 2) < 2 ^ 32" by linarith
    moreover have "?p < 2 ^ (k + 1)"
    proof -
      have "n mod 2 < 2" by simp
      with 1(2) show ?thesis unfolding p' power_add power_one_right by linarith
    qed
    moreover have "1 \<le> n div 2" using True by simp
    ultimately obtain K path where IH: "path_loop ?p (k + 1) (n div 2) = (path, k + 1 + K)"
      "n div 2 div 2 ^ K = 1" "path div 2 ^ K = ?p"
      "\<forall>j < K. path div 2 ^ j mod 2 = n div 2 div 2 ^ (K - 1 - j) mod 2"
      using 1(1)[OF True] by blast
    have "path div 2 ^ j mod 2 = n div 2 ^ (Suc K - 1 - j) mod 2" if j: "j < Suc K" for j
    proof (cases "j = K")
      case True
      then show ?thesis using IH(3) p' by simp
    next
      case False
      with j have jK: "j < K" by simp
      have e: "Suc K - 1 - j = Suc (K - 1 - j)" using jK by simp
      have "path div 2 ^ j mod 2 = n div 2 div 2 ^ (K - 1 - j) mod 2" using IH(4) jK by blast
      also have "\<dots> = n div 2 ^ (Suc K - 1 - j) mod 2"
        unfolding e by (simp add: div_mult2_eq)
      finally show ?thesis .
    qed
    moreover have "path div 2 ^ Suc K = p"
    proof -
      have "path div 2 ^ Suc K = path div 2 ^ K div 2" by (simp only: power_Suc2 div_mult2_eq)
      then show ?thesis using IH(3) p' by simp
    qed
    moreover have "n div 2 ^ Suc K = 1" using IH(2) by (simp add: div_mult2_eq)
    moreover have "path_loop p k n = (path, k + Suc K)"
      using True IH(1) by (simp add: path_loop.simps[of p k n])
    ultimately show ?thesis by blast
  qed
qed

lemma par_double: "1 \<le> m \<Longrightarrow> b < 2 \<Longrightarrow> par (2 * m + b - 1) = m - 1"
  by (cases "b = 0") (auto simp: par_def)

text \<open>The link that leads to index \<open>i\<close>.\<close>

definition slot_at :: "ptr list \<Rightarrow> nat \<Rightarrow> slot" where
  "slot_at xs i =
     (if i = 0 then MinSlot
      else if odd i then LeftSlot (at xs (par i)) else RightSlot (at xs (par i)))"

lemma read_slot_at:
  assumes "heap_rep h xs" "i \<le> length xs"
  shows "read_slot h (slot_at xs i) = at xs i"
proof (cases "i = 0")
  case True
  then show ?thesis using heap_rep_min[OF assms(1)] by (simp add: slot_at_def)
next
  case False
  then have "par i < length xs" using assms(2) par_less[of i] by simp
  then have "hnodes h (at xs (par i)) = node_at xs (par i)"
    using heap_rep_node[OF assms(1)] by (simp add: at_in)
  moreover have "odd i \<Longrightarrow> 2 * par i + 1 = i" "even i \<Longrightarrow> 2 * par i + 2 = i"
    using False by (auto simp: par_def)
  ultimately show ?thesis using False by (auto simp: slot_at_def)
qed

lemma walk_spec:
  assumes rep: "heap_rep h xs" and n: "1 \<le> n" "n \<le> length xs + 1"
  shows "n div 2 ^ k \<ge> 1 \<Longrightarrow> (\<forall>j < k. path div 2 ^ j mod 2 = n div 2 ^ (k - 1 - j) mod 2) \<Longrightarrow>
    walk h path k pr (slot_at xs (n div 2 ^ k - 1)) =
      Some (if k = 0 then pr else slot_at xs (n div 2 - 1), slot_at xs (n - 1))"
proof (induction k arbitrary: path pr)
  case 0
  then show ?case by simp
next
  case (Suc k)
  let ?m = "n div 2 ^ Suc k" and ?m' = "n div 2 ^ k"
  have m: "?m = ?m' div 2" by (simp only: power_Suc2 div_mult2_eq)
  have bit: "path mod 2 = ?m' mod 2" using Suc.prems(2)[rule_format, of 0] by simp
  have m': "?m' = 2 * ?m + path mod 2" by (simp only: m bit mult_div_mod_eq)
  have "?m \<le> n div 2" by (simp add: div_mult2_eq div_le_dividend)
  then have lt: "?m - 1 < length xs" using n Suc.prems(1) by auto
  then have nz: "at xs (?m - 1) \<noteq> NULL" using at_NULL_iff[OF heap_rep_NULL[OF rep]] by (metis not_le)
  have rs: "read_slot h (slot_at xs (?m - 1)) = at xs (?m - 1)"
    using lt by (intro read_slot_at[OF rep]) simp
  have "par (?m' - 1) = ?m - 1"
    using par_double[of ?m "path mod 2"] Suc.prems(1) m' by (metis mod_less_divisor zero_less_numeral)
  then have next_slot: "(if path mod 2 = 1 then RightSlot (at xs (?m - 1)) else LeftSlot (at xs (?m - 1)))
      = slot_at xs (?m' - 1)"
    using Suc.prems(1) m' by (auto simp: slot_at_def split: if_splits; presburger)
  have bits: "\<forall>j < k. path div 2 div 2 ^ j mod 2 = n div 2 ^ (k - 1 - j) mod 2"
  proof (intro allI impI)
    fix j assume "j < k"
    then show "path div 2 div 2 ^ j mod 2 = n div 2 ^ (k - 1 - j) mod 2"
      using Suc.prems(2)[rule_format, of "Suc j"] by (simp add: div_mult2_eq)
  qed
  have "1 \<le> ?m'" using Suc.prems(1) m' by linarith
  note IH = Suc.IH[OF this bits, of "slot_at xs (?m - 1)"]
  have "walk h path (Suc k) pr (slot_at xs (?m - 1)) =
      walk h (path div 2) k (slot_at xs (?m - 1)) (slot_at xs (?m' - 1))"
    by (simp only: walk.simps Let_def rs nz next_slot if_False)
  then show ?case by (simp only: IH) simp
qed

end
