(* ===== verification/Uv_Heap_Order.thy ===== *)
theory Uv_Heap_Order
  imports Uv_Heap
begin

text \<open>
  The operations of \<open>heap-inl.h\<close> on the breadth-first list, and the order they keep. Inserting
  appends the node and moves it towards the root; removing puts the last node in the place of
  the removed one and moves it down, then up. Under a strict weak order both keep the order of
  a min heap, and the root is a least node.
\<close>

section \<open>Linking the new node, unlinking the last one, replacing a node\<close>

lemma at_snoc: "at (xs @ [x]) i = (if i = length xs then x else at xs i)"
  by (auto simp: at_def nth_append)

lemma at_butlast: "at (butlast xs) i = (if i = length xs - 1 then NULL else at xs i)"
  by (auto simp: at_def nth_butlast)

lemma at_update: "i < length xs \<Longrightarrow> at (xs[i := v]) k = (if k = i then v else at xs k)"
  by (auto simp: at_def)

text \<open>The walk with the path of a valid index reaches the link of that index.\<close>

lemma walk_path:
  assumes rep: "heap_rep h xs" and n: "1 \<le> n" "n \<le> length xs + 1" "n < 2 ^ 32"
    and pl: "path_loop 0 0 n = (path, k)"
  shows "walk h path k MinSlot MinSlot =
    Some (if n = 1 then MinSlot else slot_at xs (n div 2 - 1), slot_at xs (n - 1))"
proof -
  obtain K path' where K: "path_loop 0 0 n = (path', 0 + K)" "n div 2 ^ K = 1"
    "\<forall>j < K. path' div 2 ^ j mod 2 = n div 2 ^ (K - 1 - j) mod 2"
    using path_loop_spec[of 0 0 n] n by auto
  from pl K have k: "path = path'" "k = K" by auto
  have "K = 0 \<longleftrightarrow> n = 1"
  proof
    assume "n = 1"
    show "K = 0"
    proof (rule ccontr)
      assume "K \<noteq> 0"
      then have "1 < (2::nat) ^ K" by (intro one_less_power) auto
      with K(2) \<open>n = 1\<close> show False by simp
    qed
  qed (use K(2) in simp)
  moreover have "slot_at xs (n div 2 ^ K - 1) = MinSlot" by (simp add: K slot_at_def)
  ultimately show ?thesis
    using walk_spec[OF rep n(1,2), of K path MinSlot] K k by simp
qed

text \<open>Nodes outside the heap may be written freely.\<close>

lemma heap_rep_upd_other:
  "heap_rep h xs \<Longrightarrow> x \<notin> set xs \<Longrightarrow> heap_rep (upd_node x f h) xs"
  unfolding heap_rep_def by (auto simp: in_set_conv_nth)

lemma slot_at_cases:
  "(i = 0 \<and> slot_at xs i = MinSlot) \<or>
   (\<exists>p. p < i \<and> par i = p \<and> i = 2 * p + 1 \<and> slot_at xs i = LeftSlot (at xs p)) \<or>
   (\<exists>p. p < i \<and> par i = p \<and> i = 2 * p + 2 \<and> slot_at xs i = RightSlot (at xs p))"
proof (cases "i = 0")
  case False
  then show ?thesis
    using par_less[of i] par_child[of i "par i"] by (auto simp: slot_at_def; presburger)
qed (simp add: slot_at_def)

text \<open>Writing a link changes that link and nothing else.\<close>

lemma write_slot_heap:
  assumes "heap_rep h xs"
  shows "hmin (write_slot (slot_at xs i) v h) = (if i = 0 then v else at xs 0)"
    and "nelts (write_slot (slot_at xs i) v h) = length xs"
  using slot_at_cases[of i xs] heap_rep_min[OF assms] heap_rep_nelts[OF assms] by auto

lemma write_slot_fields:
  assumes rep: "heap_rep h xs" and i: "i \<le> length xs" and k: "k < length xs"
  shows "left (hnodes (write_slot (slot_at xs i) v h) (at xs k)) =
      (if i = 2 * k + 1 then v else at xs (2 * k + 1))" (is ?L)
    and "right (hnodes (write_slot (slot_at xs i) v h) (at xs k)) =
      (if i = 2 * k + 2 then v else at xs (2 * k + 2))" (is ?R)
    and "parent (hnodes (write_slot (slot_at xs i) v h) (at xs k)) = at xs (par_ix (length xs) k)" (is ?P)
proof -
  note E = at_eq_at[OF heap_rep_distinct[OF rep] heap_rep_NULL[OF rep]]
  have N: "hnodes h (at xs m) = node_at xs m" if "m < length xs" for m
    using heap_rep_node[OF rep that] that by (simp add: at_in)
  consider "i = 0" "slot_at xs i = MinSlot"
    | p where "p < i" "i = 2 * p + 1" "slot_at xs i = LeftSlot (at xs p)"
    | p where "p < i" "i = 2 * p + 2" "slot_at xs i = RightSlot (at xs p)"
    using slot_at_cases[of i xs] by blast
  then have "?L \<and> ?R \<and> ?P"
  proof cases
    case 1
    then show ?thesis using k by (simp add: N at_par_ix)
  next
    case (2 p)
    then show ?thesis using i k by (auto simp: N E at_par_ix)
  next
    case (3 p)
    then show ?thesis using i k by (auto simp: N E at_par_ix)
  qed
  then show ?L ?R ?P by blast+
qed

lemma at_beyond: "length xs \<le> i \<Longrightarrow> at xs i = NULL"
  by (simp add: at_def)

lemma heap_repI:
  assumes "distinct ys" "NULL \<notin> set ys" "nelts h = length ys" "length ys < 2 ^ 32"
    and "hmin h = at ys 0"
    and "\<And>k. k < length ys \<Longrightarrow> left (hnodes h (at ys k)) = at ys (2 * k + 1)"
    and "\<And>k. k < length ys \<Longrightarrow> right (hnodes h (at ys k)) = at ys (2 * k + 2)"
    and "\<And>k. k < length ys \<Longrightarrow> parent (hnodes h (at ys k)) = at ys (par_ix (length ys) k)"
  shows "heap_rep h ys"
  using assms unfolding heap_rep_def
  by (auto intro!: node_eqI simp: at_in at_par_ix[symmetric])

text \<open>\<open>heap_insert\<close> links the node as the last one.\<close>

lemma heap_rep_link:
  assumes rep: "heap_rep h xs" and x: "x \<notin> set xs" "x \<noteq> NULL" "length xs + 1 < 2 ^ 32"
    and fresh: "hnodes h x = \<lparr>left = NULL, right = NULL, parent = at xs (par_ix (length xs) (length xs))\<rparr>"
  shows "heap_rep ((write_slot (slot_at xs (length xs)) x h)\<lparr>nelts := length xs + 1\<rparr>) (xs @ [x])"
proof -
  let ?n = "length xs" and ?h = "write_slot (slot_at xs (length xs)) x h"
  note W = write_slot_fields[OF rep order_refl, where v = x] and H = write_slot_heap[OF rep]
  have x_notin: "x \<noteq> at xs k" for k using x by (auto simp: at_def)
  have xn: "hnodes ?h x = hnodes h x"
    using slot_at_cases[of ?n xs] x_notin by (auto simp: eq_commute[of "at xs _" x])
  have gp: "at (xs @ [x]) (par_ix (Suc ?n) k) = at xs (par_ix ?n k)" if "k \<le> ?n" for k
    using par_ix_cases[of k ?n] par_ix_cases[of k "Suc ?n"] that
    by (auto simp: at_snoc at_beyond par_ix_def)
  show ?thesis
  proof (rule heap_repI)
    fix k assume "k < length (xs @ [x])"
    then consider "k < ?n" | "k = ?n" by fastforce
    then have "left (hnodes ?h (at (xs @ [x]) k)) = at (xs @ [x]) (2 * k + 1) \<and>
      right (hnodes ?h (at (xs @ [x]) k)) = at (xs @ [x]) (2 * k + 2) \<and>
      parent (hnodes ?h (at (xs @ [x]) k)) = at xs (par_ix ?n k)"
    proof cases
      case 1
      then show ?thesis using W[OF 1] by (auto simp: at_snoc)
    next
      case 2
      then show ?thesis using xn fresh by (simp add: at_snoc at_beyond)
    qed
    with \<open>k < length (xs @ [x])\<close>
    show "left (hnodes (?h\<lparr>nelts := ?n + 1\<rparr>) (at (xs @ [x]) k)) = at (xs @ [x]) (2 * k + 1)"
      "right (hnodes (?h\<lparr>nelts := ?n + 1\<rparr>) (at (xs @ [x]) k)) = at (xs @ [x]) (2 * k + 2)"
      "parent (hnodes (?h\<lparr>nelts := ?n + 1\<rparr>) (at (xs @ [x]) k))
        = at (xs @ [x]) (par_ix (length (xs @ [x])) k)"
      using gp[of k] by simp_all
  qed (use rep x H in \<open>auto simp: heap_rep_def at_snoc\<close>)
qed

text \<open>\<open>heap_remove\<close> first unlinks the last node.\<close>

lemma heap_rep_unlink:
  assumes rep: "heap_rep h xs" and ne: "xs \<noteq> []"
  shows "heap_rep ((write_slot (slot_at xs (length xs - 1)) NULL h)\<lparr>nelts := length xs - 1\<rparr>)
    (butlast xs)"
proof -
  let ?n = "length xs" and ?h = "write_slot (slot_at xs (length xs - 1)) NULL h"
  have le: "?n - 1 \<le> ?n" by simp
  note W = write_slot_fields[OF rep le, where v = NULL] and H = write_slot_heap[OF rep]
  have gp: "at (butlast xs) (par_ix (?n - 1) k) = at xs (par_ix ?n k)" if "k < ?n - 1" for k
    using par_ix_cases[of k ?n] that by (auto simp: at_butlast at_beyond par_ix_def)
  show ?thesis
  proof (rule heap_repI)
    fix k assume k: "k < length (butlast xs)"
    then have kn: "k < ?n" by simp
    from k W[OF kn] gp[of k]
    show "left (hnodes (?h\<lparr>nelts := ?n - 1\<rparr>) (at (butlast xs) k)) = at (butlast xs) (2 * k + 1)"
      "right (hnodes (?h\<lparr>nelts := ?n - 1\<rparr>) (at (butlast xs) k)) = at (butlast xs) (2 * k + 2)"
      "parent (hnodes (?h\<lparr>nelts := ?n - 1\<rparr>) (at (butlast xs) k))
        = at (butlast xs) (par_ix (length (butlast xs)) k)"
      by (auto simp: at_butlast)
  qed (use rep H ne in \<open>auto simp: heap_rep_def at_butlast distinct_butlast dest: in_set_butlastD\<close>)
qed

lemma heap_replace_fields:
  assumes "node \<noteq> child" "child \<noteq> NULL"
    and "left (hnodes h node) \<noteq> node" "right (hnodes h node) \<noteq> node"
    and "left (hnodes h node) \<noteq> child" "right (hnodes h node) \<noteq> child"
    and "parent (hnodes h node) \<noteq> child"
  shows "left (hnodes (heap_replace node child h) x) =
      (if x = child then left (hnodes h node)
       else if x = parent (hnodes h node) \<and> x \<noteq> NULL \<and> left (hnodes h x) = node then child
       else left (hnodes h x))"
    and "right (hnodes (heap_replace node child h) x) =
      (if x = child then right (hnodes h node)
       else if x = parent (hnodes h node) \<and> x \<noteq> NULL \<and> left (hnodes h x) \<noteq> node then child
       else right (hnodes h x))"
    and "parent (hnodes (heap_replace node child h) x) =
      (if x = child then parent (hnodes h node)
       else if (x = left (hnodes h node) \<or> x = right (hnodes h node)) \<and> x \<noteq> NULL then child
       else parent (hnodes h x))"
    and "hmin (heap_replace node child h) =
      (if parent (hnodes h node) = NULL then child else hmin h)"
    and "nelts (heap_replace node child h) = nelts h"
  using assms by (auto simp: heap_replace_def Let_def)

lemma heap_rep_replace:
  assumes rep: "heap_rep h ys" and i: "i < length ys" and c: "c \<notin> set ys" "c \<noteq> NULL"
  shows "heap_rep (heap_replace (ys ! i) c h) (ys[i := c])"
proof -
  define gi where "gi = par_ix (length ys) i"
  note E = at_eq_at[OF heap_rep_distinct[OF rep] heap_rep_NULL[OF rep]]
    at_NULL_iff[OF heap_rep_NULL[OF rep]]
  have N: "left (hnodes h (at ys k)) = at ys (2 * k + 1)" "right (hnodes h (at ys k)) = at ys (2 * k + 2)"
    "parent (hnodes h (at ys k)) = at ys (par_ix (length ys) k)" if "k < length ys" for k
    using heap_rep_node[OF rep that] that by (simp_all add: at_in at_par_ix)
  have nc: "at ys k \<noteq> c" for k using c by (auto simp: at_def)
  have A: "at ys i \<noteq> c" "c \<noteq> NULL" "left (hnodes h (at ys i)) \<noteq> at ys i"
    "right (hnodes h (at ys i)) \<noteq> at ys i" "left (hnodes h (at ys i)) \<noteq> c"
    "right (hnodes h (at ys i)) \<noteq> c" "parent (hnodes h (at ys i)) \<noteq> c"
    using nc c i by (auto simp: N E)
  note F = heap_replace_fields[OF A, unfolded N[OF i]]
  have g: "(i = 0 \<and> gi = length ys) \<or> (0 < i \<and> gi < i \<and> (i = 2 * gi + 1 \<or> i = 2 * gi + 2))"
    unfolding gi_def by (rule par_ix_cases)
  have gl: "length ys \<le> par_ix (length ys) i \<longleftrightarrow> i = 0" using g i by (auto simp: gi_def)
  have Y: "at (ys[i := c]) k = (if k = i then c else at ys k)" for k
    by (rule at_update[OF i])
  have "heap_rep (heap_replace (at ys i) c h) (ys[i := c])"
  proof (rule heap_repI)
    show "distinct (ys[i := c])" using heap_rep_distinct[OF rep] c by (simp add: distinct_list_update)
    show "NULL \<notin> set (ys[i := c])" using heap_rep_NULL[OF rep] c by (auto dest: set_update_subset_insert[THEN subsetD])
    show "nelts (heap_replace (at ys i) c h) = length (ys[i := c])"
      using heap_rep_nelts[OF rep] by (simp add: F)
    show "length (ys[i := c]) < 2 ^ 32" using heap_rep_bound[OF rep] by simp
    show "hmin (heap_replace (at ys i) c h) = at (ys[i := c]) 0"
      using heap_rep_min[OF rep] gl by (simp add: F Y E)
  next
    fix k assume k: "k < length (ys[i := c])"
    then have kn: "k < length ys" by simp
    have pk: "par_ix (length ys) k = i \<longleftrightarrow> k = 2 * i + 1 \<or> k = 2 * i + 2"
      using par_ix_cases[of k "length ys"] i kn by auto
    have gk: "at ys k = at ys gi \<and> at ys k \<noteq> NULL \<longleftrightarrow> i = 2 * k + 1 \<or> i = 2 * k + 2"
      using g kn by (auto simp: E)
    have ik: "at ys (2 * k + 1) = at ys i \<longleftrightarrow> i = 2 * k + 1" using i by (auto simp: E)
    show "left (hnodes (heap_replace (at ys i) c h) (at (ys[i := c]) k)) = at (ys[i := c]) (2 * k + 1)"
      using gk ik nc by (auto simp: Y F N[OF kn] gi_def)
    show "right (hnodes (heap_replace (at ys i) c h) (at (ys[i := c]) k)) = at (ys[i := c]) (2 * k + 2)"
      using gk ik nc by (auto simp: Y F N[OF kn] gi_def)
    show "parent (hnodes (heap_replace (at ys i) c h) (at (ys[i := c]) k))
        = at (ys[i := c]) (par_ix (length (ys[i := c])) k)"
      using pk nc kn par_ix_cases[of i "length ys"] by (auto simp: Y F N[OF kn] E)
  qed
  then show ?thesis using i by (simp add: at_in)
qed

section \<open>The two loops\<close>

text \<open>The loops of \<open>heap_insert\<close> and \<open>heap_remove\<close> on the list: the position of the moving
  node follows its parent, or the smallest of its children.\<close>

function up :: "compare_fn \<Rightarrow> ptr list \<Rightarrow> nat \<Rightarrow> ptr list" where
  "up lt xs i =
     (if 0 < i \<and> lt (at xs i) (at xs (par i)) then up lt (swap_at (par i) i xs) (par i) else xs)"
  by pat_completeness auto
termination
  by (relation "measure (\<lambda>(lt, xs, i). i)") (auto simp: par_less)

declare up.simps [simp del]

definition small_ix :: "compare_fn \<Rightarrow> ptr list \<Rightarrow> nat \<Rightarrow> nat" where
  "small_ix lt xs i =
     (let s1 = (if 2 * i + 1 < length xs \<and> lt (at xs (2 * i + 1)) (at xs i) then 2 * i + 1 else i)
      in if 2 * i + 2 < length xs \<and> lt (at xs (2 * i + 2)) (at xs s1) then 2 * i + 2 else s1)"

lemma small_ix_cases:
  "small_ix lt xs i = i \<or> (small_ix lt xs i < length xs \<and> par (small_ix lt xs i) = i \<and>
     i < small_ix lt xs i)"
  by (auto simp: small_ix_def Let_def par_def)

function down :: "compare_fn \<Rightarrow> ptr list \<Rightarrow> nat \<Rightarrow> ptr list \<times> nat" where
  "down lt xs i =
     (let s = small_ix lt xs i in if s = i then (xs, i) else down lt (swap_at i s xs) s)"
  by pat_completeness auto
termination
proof (relation "measure (\<lambda>(lt, xs, i). length xs - i)")
  fix lt xs i s
  assume "s = small_ix lt xs i" "s \<noteq> i"
  with small_ix_cases[of lt xs i]
  show "((lt, swap_at i s xs, s), lt, xs, i) \<in> measure (\<lambda>(lt, xs, i). length xs - i)" by auto
qed simp

declare down.simps [simp del]

lemma up_mset: "i < length xs \<Longrightarrow> mset (up lt xs i) = mset xs"
proof (induction lt xs i rule: up.induct)
  case (1 lt xs i)
  then show ?case
    using par_less[of i] by (auto simp add: up.simps[of lt xs i] mset_swap_at)
qed

lemma down_mset: "i < length xs \<Longrightarrow>
  mset (fst (down lt xs i)) = mset xs \<and> snd (down lt xs i) < length xs"
proof (induction lt xs i rule: down.induct)
  case (1 lt xs i)
  then show ?case
    using small_ix_cases[of lt xs i] by (auto simp add: down.simps[of lt xs i] Let_def mset_swap_at)
qed

text \<open>The pointer loops end, and do what the list loops do.\<close>

lemma sift_up_rep:
  "heap_rep h xs \<Longrightarrow> i < length xs \<Longrightarrow>
   \<exists>h'. sift_up lt (at xs i) h = Some h' \<and> heap_rep h' (up lt xs i)"
proof (induction lt xs i arbitrary: h rule: up.induct)
  case (1 lt xs i)
  note rep = 1(2) and i = 1(3)
  have p: "parent (hnodes h (at xs i)) = (if i = 0 then NULL else at xs (par i))"
    using heap_rep_node[OF rep i] i by (simp add: at_in)
  have nz: "0 < i \<Longrightarrow> at xs (par i) \<noteq> NULL"
    using par_less[of i] i at_NULL_iff[OF heap_rep_NULL[OF rep], of "par i"] by simp
  show ?case
  proof (cases "0 < i \<and> lt (at xs i) (at xs (par i))")
    case False
    then have "sift_up lt (at xs i) h = Some h" by (subst sift_up.simps) (auto simp: p)
    with False rep show ?thesis by (auto simp add: up.simps[of lt xs i])
  next
    case True
    let ?h = "heap_node_swap (at xs (par i)) (at xs i) h" and ?ys = "swap_at (par i) i xs"
    have pi: "par i < length xs" "par i < i" using True par_less[of i] i by simp_all
    have "heap_rep ?h ?ys" using heap_rep_swap[OF rep _ i] True pi i by (simp add: at_in)
    moreover have "at ?ys (par i) = at xs i" using pi i by (simp add: at_in swap_at_nth)
    ultimately obtain h' where "sift_up lt (at xs i) ?h = Some h'" "heap_rep h' (up lt ?ys (par i))"
      using 1(1)[OF True, of ?h] pi by auto
    moreover have "sift_up lt (at xs i) h = sift_up lt (at xs i) ?h"
      using True nz by (subst sift_up.simps) (simp add: p)
    ultimately show ?thesis using True by (simp add: up.simps[of lt xs i])
  qed
qed

lemma smallest_of_rep:
  assumes rep: "heap_rep h xs" and i: "i < length xs"
  shows "smallest_of lt (at xs i) h = at xs (small_ix lt xs i)"
proof -
  have nz: "0 < at xs m \<longleftrightarrow> m < length xs" for m
    using at_NULL_iff[OF heap_rep_NULL[OF rep], of m] by linarith
  show ?thesis
    using heap_rep_node[OF rep i] i
    by (auto simp add: smallest_of_def small_ix_def at_in[OF i, symmetric] Let_def nz)
qed

lemma sift_down_rep:
  "heap_rep h xs \<Longrightarrow> i < length xs \<Longrightarrow>
   \<exists>h'. sift_down lt (at xs i) h = Some h' \<and> heap_rep h' (fst (down lt xs i)) \<and>
     at (fst (down lt xs i)) (snd (down lt xs i)) = at xs i"
proof (induction lt xs i arbitrary: h rule: down.induct)
  case (1 lt xs i)
  note rep = 1(2) and i = 1(3)
  let ?s = "small_ix lt xs i"
  have s: "smallest_of lt (at xs i) h = at xs ?s" by (rule smallest_of_rep[OF rep i])
  have si: "at xs ?s = at xs i \<longleftrightarrow> ?s = i"
    using at_eq_at[OF heap_rep_distinct[OF rep] heap_rep_NULL[OF rep]] i by auto
  show ?case
  proof (cases "?s = i")
    case True
    then have "sift_down lt (at xs i) h = Some h" by (subst sift_down.simps) (simp add: s)
    with True rep show ?thesis by (simp add: down.simps[of lt xs i])
  next
    case False
    with small_ix_cases[of lt xs i] have ps: "?s < length xs" "par ?s = i" "i < ?s" by auto
    let ?h = "heap_node_swap (at xs i) (at xs ?s) h" and ?ys = "swap_at i ?s xs"
    have "heap_rep ?h ?ys" using heap_rep_swap[OF rep _ ps(1)] ps i by (simp add: at_in)
    moreover have "at ?ys ?s = at xs i" using ps i by (simp add: at_in swap_at_nth)
    ultimately obtain h' where "sift_down lt (at xs i) ?h = Some h'"
      "heap_rep h' (fst (down lt ?ys ?s))"
      "at (fst (down lt ?ys ?s)) (snd (down lt ?ys ?s)) = at xs i"
      using 1(1)[OF refl False, of ?h] ps by auto
    moreover have "sift_down lt (at xs i) h = sift_down lt (at xs i) ?h"
      using False si by (subst sift_down.simps) (simp add: s)
    ultimately show ?thesis using False by (simp add: down.simps[of lt xs i] Let_def)
  qed
qed

section \<open>The order of the heap\<close>

text \<open>No node is less than its parent.\<close>

definition ordered_at :: "compare_fn \<Rightarrow> ptr list \<Rightarrow> nat \<Rightarrow> bool" where
  "ordered_at lt xs k \<longleftrightarrow> \<not> lt (at xs k) (at xs (par k))"

definition heap_ordered :: "compare_fn \<Rightarrow> ptr list \<Rightarrow> bool" where
  "heap_ordered lt xs \<longleftrightarrow> (\<forall>k. 0 < k \<and> k < length xs \<longrightarrow> ordered_at lt xs k)"

text \<open>The children of \<open>i\<close> may stay under the parent of \<open>i\<close>.\<close>

definition skips :: "compare_fn \<Rightarrow> ptr list \<Rightarrow> nat \<Rightarrow> bool" where
  "skips lt xs i \<longleftrightarrow>
     (\<forall>k. 0 < i \<and> 0 < k \<and> k < length xs \<and> par k = i \<longrightarrow> \<not> lt (at xs k) (at xs (par i)))"

text \<open>What a comparison function of the heap has to be: a strict weak order.\<close>

locale heap_order =
  fixes lt :: compare_fn
  assumes asym: "lt a b \<Longrightarrow> \<not> lt b a"
    and negtrans: "lt a c \<Longrightarrow> lt a b \<or> lt b c"
begin

lemma trans: "lt a b \<Longrightarrow> lt b c \<Longrightarrow> lt a c"
  using asym negtrans by blast

lemma up_ordered:
  "i < length xs \<Longrightarrow> skips lt xs i \<Longrightarrow>
   (\<forall>k. 0 < k \<and> k < length xs \<and> k \<noteq> i \<longrightarrow> ordered_at lt xs k) \<Longrightarrow>
   heap_ordered lt (up lt xs i)"
proof (induction i arbitrary: xs rule: less_induct)
  case (less i)
  note i = less.prems(1) and sk = less.prems(2) and ord = less.prems(3)
  show ?case
  proof (cases "0 < i \<and> lt (at xs i) (at xs (par i))")
    case False
    then have "up lt xs i = xs" by (auto simp: up.simps[of lt xs i])
    with False ord show ?thesis by (auto simp: heap_ordered_def ordered_at_def)
  next
    case True
    define p where "p = par i"
    define ys where "ys = swap_at p i xs"
    have p: "p < i" "p < length xs" using True par_less[of i] i by (simp_all add: p_def)
    have Y: "at ys k = (if k = i then at xs p else if k = p then at xs i else at xs k)" for k
      using p i by (simp add: ys_def swap_at_at at_in)
    have ly: "length ys = length xs" by (simp add: ys_def)
    have "ordered_at lt ys k" if k: "0 < k" "k < length ys" "k \<noteq> p" for k
    proof -
      from k have ox: "k \<noteq> i \<Longrightarrow> \<not> lt (at xs k) (at xs (par k))"
        using ord by (simp add: ordered_at_def ys_def)
      consider "k = i" | "k \<noteq> i" "par k = i" | "k \<noteq> i" "par k = p" | "k \<noteq> i" "par k \<noteq> i" "par k \<noteq> p"
        by blast
      then show ?thesis
      proof cases
        case 1
        then show ?thesis using True asym p by (auto simp: ordered_at_def Y p_def[symmetric])
      next
        case 2
        then have "\<not> lt (at xs k) (at xs p)" using sk k True by (simp add: skips_def ly p_def)
        with 2 k show ?thesis by (simp add: ordered_at_def Y)
      next
        case 3
        then show ?thesis using ox True trans p k by (auto simp: ordered_at_def Y p_def)
      next
        case 4
        then show ?thesis using ox k by (simp add: ordered_at_def Y)
      qed
    qed
    moreover have "skips lt ys p"
      unfolding skips_def
    proof (intro allI impI)
      fix k assume k: "0 < p \<and> 0 < k \<and> k < length ys \<and> par k = p"
      then have pp: "par p < p" by (simp add: par_less)
      have op: "\<not> lt (at xs p) (at xs (par p))" using ord k p by (auto simp: ordered_at_def)
      moreover have "k \<noteq> i \<Longrightarrow> \<not> lt (at xs k) (at xs p)"
        using ord k by (auto simp: ordered_at_def ys_def)
      moreover have "k \<noteq> p" using k par_less[of k] by auto
      ultimately show "\<not> lt (at ys k) (at ys (par p))"
        using pp p negtrans by (auto simp: Y)
    qed
    ultimately have "heap_ordered lt (up lt ys p)"
      using less.IH[of p ys] p by (simp add: ys_def)
    with True show ?thesis by (simp add: up.simps[of lt xs i] ys_def p_def)
  qed
qed

lemma small_ix_least:
  assumes "0 < k" "k < length xs" "par k = i"
  shows "\<not> lt (at xs k) (at xs (small_ix lt xs i))"
    and "small_ix lt xs i \<noteq> i \<Longrightarrow> lt (at xs (small_ix lt xs i)) (at xs i)"
proof -
  from assms have "k = 2 * i + 1 \<or> k = 2 * i + 2" by (simp add: par_child)
  then show "\<not> lt (at xs k) (at xs (small_ix lt xs i))"
    using assms(2) asym[of "at xs (2 * i + 1)" "at xs (2 * i + 1)"]
      asym[of "at xs (2 * i + 2)" "at xs (2 * i + 2)"] asym[of "at xs (2 * i + 1)" "at xs (2 * i + 2)"]
      trans[of "at xs (2 * i + 1)" "at xs (2 * i + 2)" "at xs i"]
    by (auto simp: small_ix_def Let_def)
  show "small_ix lt xs i \<noteq> i \<Longrightarrow> lt (at xs (small_ix lt xs i)) (at xs i)"
    using trans[of "at xs (2 * i + 2)" "at xs (2 * i + 1)" "at xs i"]
    by (auto simp: small_ix_def Let_def split: if_splits)
qed

lemma down_ordered:
  "i < length xs \<Longrightarrow> skips lt xs i \<Longrightarrow>
   (\<forall>k. 0 < k \<and> k < length xs \<and> k \<noteq> i \<and> par k \<noteq> i \<longrightarrow> ordered_at lt xs k) \<Longrightarrow>
   down lt xs i = (ys, j) \<Longrightarrow>
   skips lt ys j \<and> (\<forall>k. 0 < k \<and> k < length ys \<and> k \<noteq> j \<longrightarrow> ordered_at lt ys k)"
proof (induction "length xs - i" arbitrary: xs i rule: less_induct)
  case less
  note i = less.prems(1) and sk = less.prems(2) and ord = less.prems(3)
  define s where "s = small_ix lt xs i"
  show ?case
  proof (cases "s = i")
    case True
    then have "ys = xs" "j = i" using less.prems(4) by (simp_all add: down.simps[of lt xs i] s_def)
    moreover have "ordered_at lt xs k" if "0 < k" "k < length xs" "k \<noteq> i" for k
      using ord that small_ix_least(1)[of k xs i] True by (auto simp: ordered_at_def s_def)
    ultimately show ?thesis using sk by blast
  next
    case False
    have s: "s < length xs" "par s = i" "i < s"
      using small_ix_cases[of lt xs i] False by (auto simp: s_def)
    define zs where "zs = swap_at i s xs"
    have Z: "at zs k = (if k = s then at xs i else if k = i then at xs s else at xs k)" for k
      using s i by (simp add: zs_def swap_at_at at_in)
    have lz: "length zs = length xs" by (simp add: zs_def)
    have "skips lt zs s"
      unfolding skips_def
    proof (intro allI impI)
      fix k assume k: "0 < s \<and> 0 < k \<and> k < length zs \<and> par k = s"
      then have "k \<noteq> i" "k \<noteq> s" "par k \<noteq> i" using s par_less[of k] by auto
      with ord k have "\<not> lt (at xs k) (at xs s)" by (auto simp: ordered_at_def zs_def)
      with \<open>k \<noteq> i\<close> \<open>k \<noteq> s\<close> s show "\<not> lt (at zs k) (at zs (par s))" by (simp add: Z)
    qed
    moreover have "ordered_at lt zs k" if k: "0 < k" "k < length zs" "k \<noteq> s" "par k \<noteq> s" for k
    proof (cases "k = i")
      case True
      then have "par i \<noteq> i" "par i \<noteq> s" using k par_less[of i] s by auto
      moreover have "\<not> lt (at xs s) (at xs (par i))" using sk True k s by (simp add: skips_def)
      ultimately show ?thesis using True s by (simp add: ordered_at_def Z)
    next
      case False
      then show ?thesis
        using ord k small_ix_least(1)[of k xs i, folded s_def] by (auto simp: ordered_at_def Z lz)
    qed
    moreover have "down lt zs s = (ys, j)"
      using less.prems(4) False by (simp add: down.simps[of lt xs i] s_def zs_def Let_def)
    moreover have "length zs - s < length xs - i" "s < length zs" using s i by (auto simp: zs_def)
    ultimately show ?thesis using less.hyps[of zs s] by blast
  qed
qed

lemma heap_ordered_root:
  "heap_ordered lt xs \<Longrightarrow> i < length xs \<Longrightarrow> \<not> lt (at xs i) (at xs 0)"
proof (induction i rule: less_induct)
  case (less i)
  show ?case
  proof (cases "i = 0")
    case True
    then show ?thesis using asym by auto
  next
    case False
    then have "\<not> lt (at xs i) (at xs (par i))" "\<not> lt (at xs (par i)) (at xs 0)"
      using less par_less[of i] by (auto simp: heap_ordered_def ordered_at_def)
    then show ?thesis using negtrans by blast
  qed
qed

text \<open>Replacing one node leaves every other node in order.\<close>

lemma replace_skips:
  assumes "heap_ordered lt xs" "i < length xs"
  shows "skips lt (xs[i := c]) i"
    and "\<forall>k. 0 < k \<and> k < length (xs[i := c]) \<and> k \<noteq> i \<and> par k \<noteq> i \<longrightarrow> ordered_at lt (xs[i := c]) k"
proof -
  have U: "at (xs[i := c]) k = (if k = i then c else at xs k)" for k by (rule at_update[OF assms(2)])
  show "skips lt (xs[i := c]) i"
    unfolding skips_def
  proof (intro allI impI)
    fix k assume k: "0 < i \<and> 0 < k \<and> k < length (xs[i := c]) \<and> par k = i"
    then have "\<not> lt (at xs k) (at xs i)" "\<not> lt (at xs i) (at xs (par i))" "k \<noteq> i" "par i \<noteq> i"
      using assms par_less[of k] par_less[of i] by (auto simp: heap_ordered_def ordered_at_def)
    then show "\<not> lt (at (xs[i := c]) k) (at (xs[i := c]) (par i))" using negtrans by (auto simp: U)
  qed
  show "\<forall>k. 0 < k \<and> k < length (xs[i := c]) \<and> k \<noteq> i \<and> par k \<noteq> i \<longrightarrow> ordered_at lt (xs[i := c]) k"
    using assms(1) by (auto simp: heap_ordered_def ordered_at_def U)
qed

lemma snoc_skips:
  assumes "heap_ordered lt xs"
  shows "skips lt (xs @ [x]) (length xs)"
    and "\<forall>k. 0 < k \<and> k < length (xs @ [x]) \<and> k \<noteq> length xs \<longrightarrow> ordered_at lt (xs @ [x]) k"
proof -
  show "skips lt (xs @ [x]) (length xs)"
    unfolding skips_def by (auto dest: par_less)
  show "\<forall>k. 0 < k \<and> k < length (xs @ [x]) \<and> k \<noteq> length xs \<longrightarrow> ordered_at lt (xs @ [x]) k"
  proof (intro allI impI)
    fix k assume k: "0 < k \<and> k < length (xs @ [x]) \<and> k \<noteq> length xs"
    then have "k < length xs" "par k < length xs" using par_less[of k] by auto
    with assms k show "ordered_at lt (xs @ [x]) k"
      by (auto simp: heap_ordered_def ordered_at_def at_snoc)
  qed
qed

lemma butlast_ordered: "heap_ordered lt xs \<Longrightarrow> heap_ordered lt (butlast xs)"
  unfolding heap_ordered_def ordered_at_def
proof (intro allI impI)
  fix k assume o: "\<forall>k. 0 < k \<and> k < length xs \<longrightarrow> \<not> lt (at xs k) (at xs (par k))"
    and k: "0 < k \<and> k < length (butlast xs)"
  then have "par k < length xs - 1" using par_less[of k] by simp
  with o k show "\<not> lt (at (butlast xs) k) (at (butlast xs) (par k))" by (auto simp: at_butlast)
qed

end

section \<open>Inserting and removing\<close>

lemma heap_insert_run:
  assumes rep: "heap_rep h xs" and x: "x \<notin> set xs" "x \<noteq> NULL" and n: "length xs + 1 < 2 ^ 32"
  shows "\<exists>h'. heap_insert lt x h = Some h' \<and> heap_rep h' (up lt (xs @ [x]) (length xs))"
proof -
  let ?n = "length xs"
  let ?h1 = "upd_node x (\<lambda>_. \<lparr>left = NULL, right = NULL, parent = NULL\<rparr>) h"
  obtain path k where pl: "path_loop 0 0 (?n + 1) = (path, k)" by fastforce
  have rep1: "heap_rep ?h1 xs" by (rule heap_rep_upd_other[OF rep x(1)])
  let ?pr = "if ?n + 1 = 1 then MinSlot else slot_at xs ((?n + 1) div 2 - 1)"
  have w: "walk ?h1 path k MinSlot MinSlot = Some (?pr, slot_at xs ?n)"
    using walk_path[OF rep1 _ _ n pl] by simp
  have pr: "read_slot ?h1 ?pr = at xs (par_ix ?n ?n)"
  proof (cases "?n = 0")
    case True
    then show ?thesis using heap_rep_min[OF rep1] by (simp add: par_ix_def)
  next
    case False
    then have "(?n + 1) div 2 - 1 = par ?n" "par ?n < ?n" using par_less[of ?n] by (auto simp: par_def)
    with False show ?thesis using read_slot_at[OF rep1, of "par ?n"] by (simp add: par_ix_def)
  qed
  let ?h2 = "upd_node x (\<lambda>n. n\<lparr>parent := read_slot ?h1 ?pr\<rparr>) ?h1"
  have rep2: "heap_rep ?h2 xs" by (rule heap_rep_upd_other[OF rep1 x(1)])
  have fresh: "hnodes ?h2 x = \<lparr>left = NULL, right = NULL, parent = at xs (par_ix ?n ?n)\<rparr>"
    by (simp only: pr) simp
  let ?h4 = "(write_slot (slot_at xs ?n) x ?h2)\<lparr>nelts := ?n + 1\<rparr>"
  have rep4: "heap_rep ?h4 (xs @ [x])" by (rule heap_rep_link[OF rep2 x n fresh])
  have nn: "nelts (write_slot (slot_at xs ?n) x ?h2) = ?n" by (rule write_slot_heap(2)[OF rep2])
  have "heap_insert lt x h = sift_up lt x ?h4"
    using pl w n heap_rep_nelts[OF rep1] nn by (simp add: heap_insert_def Let_def)
  moreover have "at (xs @ [x]) ?n = x" by (simp add: at_snoc)
  ultimately show ?thesis using sift_up_rep[OF rep4, of ?n lt] by simp
qed

lemma heap_remove_run:
  assumes rep: "heap_rep h xs" and i: "i < length xs"
  shows "\<exists>h'. heap_remove lt (xs ! i) h = Some h' \<and>
    heap_rep h' (if i = length xs - 1 then butlast xs
      else let (ys, j) = down lt ((butlast xs)[i := last xs]) i in up lt ys j)"
proof -
  let ?n = "length xs"
  have ne: "xs \<noteq> []" using i by auto
  obtain path k where pl: "path_loop 0 0 ?n = (path, k)" by fastforce
  let ?pr = "if ?n = 1 then MinSlot else slot_at xs (?n div 2 - 1)"
  have w: "walk h path k MinSlot MinSlot = Some (?pr, slot_at xs (?n - 1))"
    using walk_path[OF rep _ _ heap_rep_bound[OF rep] pl] ne by (cases xs) auto
  have child: "read_slot h (slot_at xs (?n - 1)) = last xs"
    using read_slot_at[OF rep, of "?n - 1"] ne by (simp add: at_in last_conv_nth)
  have rs: "read_slot (h\<lparr>nelts := m\<rparr>) s = read_slot h s" for m s by (cases s) simp_all
  have ws: "write_slot s v (h\<lparr>nelts := m\<rparr>) = (write_slot s v h)\<lparr>nelts := m\<rparr>" for m s v
    by (cases s) (simp_all add: upd_node_def)
  let ?h2 = "(write_slot (slot_at xs (?n - 1)) NULL h)\<lparr>nelts := ?n - 1\<rparr>"
  have rep2: "heap_rep ?h2 (butlast xs)" by (rule heap_rep_unlink[OF rep ne])
  have eq: "heap_remove lt (xs ! i) h =
      (if last xs = xs ! i then Some (if last xs = hmin ?h2 then ?h2\<lparr>hmin := NULL\<rparr> else ?h2)
       else if last xs = NULL \<or> xs ! i = NULL then None
       else Option.bind (sift_down lt (last xs) (heap_replace (xs ! i) (last xs) ?h2)) (sift_up lt (last xs)))"
    using heap_rep_nelts[OF rep] ne pl w child
    by (simp add: heap_remove_def Let_def rs ws)
  have last_i: "last xs = xs ! i \<longleftrightarrow> i = ?n - 1"
    using i ne heap_rep_distinct[OF rep] by (auto simp add: last_conv_nth nth_eq_iff_index_eq)
  have bl: "butlast xs @ [last xs] = xs" using ne by simp
  have l_notin: "last xs \<notin> set (butlast xs)"
  proof -
    have "distinct (butlast xs @ [last xs])" using heap_rep_distinct[OF rep] bl by simp
    then have "set (butlast xs) \<inter> set [last xs] = {}" by (simp only: distinct_append)
    then show ?thesis by simp
  qed
  have l_nz: "last xs \<noteq> NULL" using heap_rep_NULL[OF rep] ne by (metis last_in_set)
  show ?thesis
  proof (cases "i = ?n - 1")
    case True
    have "last xs \<noteq> hmin ?h2"
      using heap_rep_min[OF rep2] l_notin l_nz by (auto simp: at_def)
    with True last_i eq rep2 show ?thesis by simp
  next
    case False
    then have ib: "i < length (butlast xs)" using i by simp
    then have xi: "xs ! i = butlast xs ! i" by (simp add: nth_butlast)
    have nz: "xs ! i \<noteq> NULL" using heap_rep_NULL[OF rep] i by (metis nth_mem)
    let ?ys = "(butlast xs)[i := last xs]" and ?h3 = "heap_replace (xs ! i) (last xs) ?h2"
    have rep3: "heap_rep ?h3 ?ys" unfolding xi by (rule heap_rep_replace[OF rep2 ib l_notin l_nz])
    have at3: "at ?ys i = last xs" using ib by (simp add: at_def)
    obtain zs j where d: "down lt ?ys i = (zs, j)" by fastforce
    obtain h4 where h4: "sift_down lt (last xs) ?h3 = Some h4" "heap_rep h4 zs" "at zs j = last xs"
      using sift_down_rep[OF rep3, of i lt] ib at3 d by auto
    have j: "j < length zs" using down_mset[of i ?ys lt] ib d by (auto dest: mset_eq_length)
    obtain h5 where "sift_up lt (last xs) h4 = Some h5" "heap_rep h5 (up lt zs j)"
      using sift_up_rep[OF h4(2) j, of lt] h4(3) by auto
    then show ?thesis using False last_i eq l_nz nz h4(1) d by auto
  qed
qed

section \<open>The contract of the heap\<close>

text \<open>\<open>heap_holds lt h S\<close>: the heap is well formed and ordered, and its nodes are \<open>S\<close>.\<close>

definition heap_holds :: "compare_fn \<Rightarrow> hheap \<Rightarrow> ptr set \<Rightarrow> bool" where
  "heap_holds lt h S \<longleftrightarrow> (\<exists>xs. heap_rep h xs \<and> heap_ordered lt xs \<and> set xs = S)"

lemma set_butlast_distinct:
  "distinct xs \<Longrightarrow> xs \<noteq> [] \<Longrightarrow> set (butlast xs) = set xs - {last xs}"
  by (cases xs rule: rev_cases) auto

lemma heap_insert_holds:
  assumes "heap_order lt" "heap_holds lt h S" "x \<notin> S" "x \<noteq> NULL" "card S + 1 < 2 ^ 32"
  shows "\<exists>h'. heap_insert lt x h = Some h' \<and> heap_holds lt h' (insert x S)"
proof -
  from assms(2) obtain xs where xs: "heap_rep h xs" "heap_ordered lt xs" "set xs = S"
    by (auto simp: heap_holds_def)
  have n: "length xs + 1 < 2 ^ 32"
    using assms(5) xs(3) distinct_card[OF heap_rep_distinct[OF xs(1)]] by simp
  obtain h' where h': "heap_insert lt x h = Some h'" "heap_rep h' (up lt (xs @ [x]) (length xs))"
    using heap_insert_run[OF xs(1) _ assms(4) n] assms(3) xs(3) by blast
  have "heap_ordered lt (up lt (xs @ [x]) (length xs))"
    by (rule heap_order.up_ordered[OF assms(1) _ heap_order.snoc_skips[OF assms(1) xs(2)]]) simp
  moreover have "set (up lt (xs @ [x]) (length xs)) = insert x S"
    using mset_eq_setD[OF up_mset[of "length xs" "xs @ [x]" lt]] xs(3) by simp
  ultimately show ?thesis using h' by (auto simp: heap_holds_def)
qed

lemma heap_remove_holds:
  assumes ord: "heap_order lt" and "heap_holds lt h S" "x \<in> S"
  shows "\<exists>h'. heap_remove lt x h = Some h' \<and> heap_holds lt h' (S - {x})"
proof -
  from assms(2) obtain xs where xs: "heap_rep h xs" "heap_ordered lt xs" "set xs = S"
    by (auto simp: heap_holds_def)
  from assms(3) xs(3) obtain i where i: "i < length xs" "x = xs ! i"
    by (auto simp: in_set_conv_nth)
  have d: "distinct xs" by (rule heap_rep_distinct[OF xs(1)])
  have ne: "xs \<noteq> []" using i by auto
  obtain h' where h': "heap_remove lt x h = Some h'" "heap_rep h'
      (if i = length xs - 1 then butlast xs
       else let (ys, j) = down lt ((butlast xs)[i := last xs]) i in up lt ys j)"
    using heap_remove_run[OF xs(1) i(1)] i(2) by blast
  show ?thesis
  proof (cases "i = length xs - 1")
    case True
    have "set (butlast xs) = S - {x}"
      using d i True ne xs(3) by (simp add: last_conv_nth set_butlast_distinct)
    then show ?thesis
      using h' True heap_order.butlast_ordered[OF ord xs(2)] by (auto simp: heap_holds_def)
  next
    case False
    then have ib: "i < length (butlast xs)" using i by simp
    let ?bs = "butlast xs" and ?l = "last xs"
    obtain ys j where dn: "down lt (?bs[i := ?l]) i = (ys, j)" by fastforce
    have dm: "mset ys = mset (?bs[i := ?l])" "j < length ys"
      using down_mset[of i "?bs[i := ?l]" lt] ib dn by (auto dest: mset_eq_length)
    have sk: "skips lt ys j \<and> (\<forall>k. 0 < k \<and> k < length ys \<and> k \<noteq> j \<longrightarrow> ordered_at lt ys k)"
      using heap_order.down_ordered[OF ord _ _ _ dn] ib
        heap_order.replace_skips[OF ord heap_order.butlast_ordered[OF ord xs(2)] ib, of ?l] by simp
    then have "heap_ordered lt (up lt ys j)"
      using heap_order.up_ordered[OF ord dm(2)] by blast
    moreover have "set (up lt ys j) = S - {x}"
    proof -
      have "mset (up lt ys j) = add_mset ?l (mset ?bs - {# ?bs ! i #})"
        using up_mset[OF dm(2), of lt] dm(1) ib by (simp add: mset_update)
      also have "?bs ! i = x" using ib i by (simp add: nth_butlast)
      also have "add_mset ?l (mset ?bs - {# x #}) = mset xs - {# x #}"
      proof -
        have "x \<in> set ?bs" using ib i(2) nth_mem[OF ib] by (simp add: nth_butlast)
        then have "x \<in># mset ?bs" by simp
        moreover have "mset xs = add_mset ?l (mset ?bs)"
          using ne by (cases xs rule: rev_cases) auto
        ultimately show ?thesis by simp
      qed
      also have "\<dots> = mset (remove1 x xs)" by simp
      finally have "set (up lt ys j) = set (remove1 x xs)" by (rule mset_eq_setD)
      then show ?thesis using set_remove1_eq[OF d] xs(3) by simp
    qed
    ultimately show ?thesis using h' False dn by (auto simp: heap_holds_def)
  qed
qed

lemma heap_min_holds:
  assumes "heap_order lt" "heap_holds lt h S"
  shows "heap_min h = NULL \<longleftrightarrow> S = {}"
    and "S \<noteq> {} \<Longrightarrow> heap_min h \<in> S \<and> (\<forall>y \<in> S. \<not> lt y (heap_min h))"
proof -
  from assms(2) obtain xs where xs: "heap_rep h xs" "heap_ordered lt xs" "set xs = S"
    by (auto simp: heap_holds_def)
  have m: "heap_min h = at xs 0" using heap_rep_min[OF xs(1)] by (simp add: heap_min_def)
  show "heap_min h = NULL \<longleftrightarrow> S = {}"
    using m xs(3) at_NULL_iff[OF heap_rep_NULL[OF xs(1)], of 0] by auto
  show "heap_min h \<in> S \<and> (\<forall>y \<in> S. \<not> lt y (heap_min h))" if "S \<noteq> {}"
  proof -
    have "0 < length xs" using that xs(3) by auto
    moreover have "\<not> lt y (at xs 0)" if "y \<in> S" for y
      using heap_order.heap_ordered_root[OF assms(1) xs(2)] that xs(3)
      by (auto simp: in_set_conv_nth at_in)
    ultimately show ?thesis using m xs(3) by (auto simp: at_in)
  qed
qed

lemma heap_holds_finite: "heap_holds lt h S \<Longrightarrow> finite S \<and> NULL \<notin> S"
  by (auto simp: heap_holds_def heap_rep_def)

lemma heap_holds_cong:
  assumes "heap_holds lt h S" "\<forall>a \<in> S. \<forall>b \<in> S. lt' a b = lt a b"
  shows "heap_holds lt' h S"
proof -
  from assms(1) obtain xs where xs: "heap_rep h xs" "heap_ordered lt xs" "set xs = S"
    by (auto simp: heap_holds_def)
  have "at xs k \<in> S" if "k < length xs" for k using that xs(3) by (auto simp: at_in)
  moreover have "par k < length xs" if "0 < k" "k < length xs" for k
    using that par_less[of k] by simp
  ultimately have "heap_ordered lt' xs"
    using xs(2) assms(2) by (simp add: heap_ordered_def ordered_at_def)
  with xs show ?thesis by (auto simp: heap_holds_def)
qed

text \<open>
  The interface its clients, the timers, use: a finite set of nodes, with insertion, removal of
  any member and a least member. The comparison function reads memory outside the heap (a timer's
  due time), so the contract says for which changes of that memory it survives.
\<close>

locale min_heap =
  fixes holds :: "compare_fn \<Rightarrow> 'q \<Rightarrow> ptr set \<Rightarrow> bool"
    and init :: "'q \<Rightarrow> 'q"
    and ins :: "compare_fn \<Rightarrow> ptr \<Rightarrow> 'q \<Rightarrow> 'q option"
    and del :: "compare_fn \<Rightarrow> ptr \<Rightarrow> 'q \<Rightarrow> 'q option"
    and least :: "'q \<Rightarrow> ptr"
  assumes holds_init: "holds lt (init q) {}"
    and holds_finite: "holds lt q S \<Longrightarrow> finite S \<and> NULL \<notin> S"
    and holds_ins: "heap_order lt \<Longrightarrow> holds lt q S \<Longrightarrow> x \<notin> S \<Longrightarrow> x \<noteq> NULL \<Longrightarrow> card S + 1 < 2 ^ 32 \<Longrightarrow>
          \<exists>q'. ins lt x q = Some q' \<and> holds lt q' (insert x S)"
    and holds_del: "heap_order lt \<Longrightarrow> holds lt q S \<Longrightarrow> x \<in> S \<Longrightarrow>
          \<exists>q'. del lt x q = Some q' \<and> holds lt q' (S - {x})"
    and least_NULL: "heap_order lt \<Longrightarrow> holds lt q S \<Longrightarrow> least q = NULL \<longleftrightarrow> S = {}"
    and least_least: "heap_order lt \<Longrightarrow> holds lt q S \<Longrightarrow> S \<noteq> {} \<Longrightarrow>
          least q \<in> S \<and> (\<forall>y \<in> S. \<not> lt y (least q))"
    and holds_cong: "holds lt q S \<Longrightarrow> (\<forall>a \<in> S. \<forall>b \<in> S. lt' a b = lt a b) \<Longrightarrow> holds lt' q S"
begin

text \<open>Taking the least member leaves members that are not less: the order in which a client
  that repeats it sees the nodes is sorted.\<close>

lemma pop_least:
  assumes "heap_order lt" "holds lt q S" "S \<noteq> {}"
  shows "\<exists>q'. del lt (least q) q = Some q' \<and> holds lt q' (S - {least q}) \<and>
    (\<forall>y \<in> S - {least q}. \<not> lt y (least q))"
  using holds_del[OF assms(1,2), of "least q"] least_least[OF assms] by blast

text \<open>Where ties cannot happen the least member is determined by the set.\<close>

lemma least_unique:
  assumes "heap_order lt" "holds lt q S" "x \<in> S" "\<forall>y \<in> S. y \<noteq> x \<longrightarrow> lt x y"
  shows "least q = x"
  using least_least[OF assms(1,2)] assms(3,4) by blast

text \<open>Moving a member: out, its memory rewritten, in again.\<close>

lemma del_ins:
  assumes "heap_order lt" "heap_order lt'" "holds lt q S" "x \<in> S" "card S < 2 ^ 32"
    and "\<forall>a \<in> S - {x}. \<forall>b \<in> S - {x}. lt' a b = lt a b"
  shows "\<exists>q' q''. del lt x q = Some q' \<and> ins lt' x q' = Some q'' \<and> holds lt' q'' S"
proof -
  obtain q' where q': "del lt x q = Some q'" "holds lt q' (S - {x})"
    using holds_del[OF assms(1,3,4)] by blast
  have f: "finite S" "x \<noteq> NULL" using holds_finite[OF assms(3)] assms(4) by metis+
  have h': "holds lt' q' (S - {x})" by (rule holds_cong[OF q'(2) assms(6)])
  have "card (S - {x}) + 1 < 2 ^ 32" using f assms(4,5) by (simp add: card_Suc_Diff1)
  then obtain q'' where "ins lt' x q' = Some q''" "holds lt' q'' (insert x (S - {x}))"
    using holds_ins[OF assms(2) h' _ f(2)] by blast
  with q' assms(4) show ?thesis by (auto simp: insert_absorb)
qed

end

interpretation uvh: min_heap heap_holds heap_init heap_insert heap_remove heap_min
proof
  show "heap_holds lt (heap_init q) {}" for lt q
    by (auto simp: heap_holds_def heap_rep_def heap_init_def at_def heap_ordered_def intro!: exI[of _ "[]"])
qed (auto dest: heap_holds_finite intro: heap_insert_holds heap_remove_holds heap_holds_cong
  simp: heap_min_holds)

section \<open>Emptying the heap\<close>

text \<open>The nodes in the order in which repeated \<open>heap_dequeue\<close> removes them.\<close>

partial_function (option) dequeue_all :: "compare_fn \<Rightarrow> hheap \<Rightarrow> ptr list option" where
  "dequeue_all lt h =
     (if heap_min h = NULL then Some []
      else Option.bind (heap_dequeue lt h)
             (\<lambda>h'. Option.bind (dequeue_all lt h') (\<lambda>xs. Some (heap_min h # xs))))"

lemma dequeue_all_sorted:
  assumes "heap_order lt" "heap_holds lt h S"
  shows "\<exists>xs. dequeue_all lt h = Some xs \<and> set xs = S \<and> distinct xs \<and>
    sorted_wrt (\<lambda>a b. \<not> lt b a) xs"
  using assms(2)
proof (induction "card S" arbitrary: h S)
  case 0
  then have "S = {}" using uvh.holds_finite by (metis card_0_eq)
  with 0 show ?case
    using uvh.least_NULL[OF assms(1) 0(2)] by (simp add: dequeue_all.simps[of lt h])
next
  case (Suc n)
  have fin: "finite S" using uvh.holds_finite[OF Suc.prems] by simp
  have ne: "S \<noteq> {}" using Suc.hyps(2) by auto
  let ?m = "heap_min h"
  have m: "?m \<noteq> NULL" "?m \<in> S"
    using uvh.least_NULL[OF assms(1) Suc.prems] uvh.least_least[OF assms(1) Suc.prems] ne by auto
  obtain h' where h': "heap_remove lt ?m h = Some h'" "heap_holds lt h' (S - {?m})"
      "\<forall>y \<in> S - {?m}. \<not> lt y ?m"
    using uvh.pop_least[OF assms(1) Suc.prems ne] by blast
  have "n = card (S - {?m})" using Suc.hyps(2) m fin by simp
  from Suc.hyps(1)[OF this h'(2)] obtain xs where "dequeue_all lt h' = Some xs"
      "set xs = S - {?m}" "distinct xs" "sorted_wrt (\<lambda>a b. \<not> lt b a) xs" by blast
  moreover have "heap_dequeue lt h = Some h'"
    using h'(1) by (simp add: heap_dequeue_def heap_min_def)
  ultimately show ?case
    using m h'(3) by (intro exI[of _ "?m # xs"]) (auto simp: dequeue_all.simps[of lt h])
qed

section \<open>Properties\<close>

text \<open>
  C8: inserting a node that is not in the heap ends without walking through a \<open>NULL\<close> link, and
  gives a well-formed heap in heap order whose nodes are the old ones and the new one, as long
  as the 32-bit counter does not wrap.
\<close>

theorem heap_insert_correct:
  assumes "heap_order lt" "heap_holds lt h S" "x \<notin> S" "x \<noteq> NULL" "card S + 1 < 2 ^ 32"
  shows "\<exists>h'. heap_insert lt x h = Some h' \<and> heap_holds lt h' (insert x S) \<and>
    heap_min h' \<noteq> NULL \<and> (\<forall>y \<in> insert x S. \<not> lt y (heap_min h'))"
  using uvh.holds_ins[OF assms] uvh.least_NULL[OF assms(1), of _ "insert x S"]
    uvh.least_least[OF assms(1), of _ "insert x S"] by blast

lemma heap_order_nat: "heap_order ((<) :: nat \<Rightarrow> nat \<Rightarrow> bool)"
  by unfold_locales auto

theorem heap_insert_correct_witness:
  "\<exists>h'. heap_insert (<) 7 (heap_init \<lparr>hmin = 3, nelts = 4, hnodes = \<lambda>_. \<lparr>left = 0, right = 0, parent = 0\<rparr>\<rparr>)
      = Some h' \<and> heap_holds (<) h' {7} \<and> heap_min h' \<noteq> NULL \<and> (\<forall>y \<in> {7}. \<not> y < heap_min h')"
  using heap_insert_correct[OF heap_order_nat uvh.holds_init[of "(<)"
      "\<lparr>hmin = 3, nelts = 4, hnodes = \<lambda>_. \<lparr>left = 0, right = 0, parent = 0\<rparr>\<rparr>"], of 7] by simp

text \<open>
  C7: removing any node of the heap ends without walking through a \<open>NULL\<close> link and gives a
  well-formed heap in heap order with exactly the other nodes: also when the node that takes the
  place of the removed one has to move up, into another subtree's order.
\<close>

theorem heap_remove_correct:
  assumes "heap_order lt" "heap_holds lt h S" "x \<in> S"
  shows "\<exists>h'. heap_remove lt x h = Some h' \<and> heap_holds lt h' (S - {x}) \<and>
    (heap_min h' = NULL \<longleftrightarrow> S = {x})"
  using uvh.holds_del[OF assms] uvh.least_NULL[OF assms(1), of _ "S - {x}"] assms(3) by blast

definition one_node_heap :: hheap where
  "one_node_heap = \<lparr>hmin = 7, nelts = 1, hnodes = \<lambda>_. \<lparr>left = 0, right = 0, parent = 0\<rparr>\<rparr>"

lemma one_node_heap_holds: "heap_holds (<) one_node_heap {7}"
  by (auto simp: heap_holds_def heap_rep_def one_node_heap_def at_def node_at_def
      heap_ordered_def intro!: exI[of _ "[7]"])

theorem heap_remove_correct_witness:
  "\<exists>h'. heap_remove (<) 7 one_node_heap = Some h' \<and> heap_holds (<) h' {} \<and> heap_min h' = NULL"
  using heap_remove_correct[OF heap_order_nat one_node_heap_holds, of 7] by simp

text \<open>
  C30: a client that dequeues until the heap is empty sees every node once, in an order in which
  no node is less than one it comes after, and it does get to the end.
\<close>

theorem heap_dequeue_sorts:
  assumes "heap_order lt" "heap_holds lt h S"
  shows "\<exists>xs. dequeue_all lt h = Some xs \<and> set xs = S \<and> distinct xs \<and>
    sorted_wrt (\<lambda>a b. \<not> lt b a) xs"
  by (rule dequeue_all_sorted[OF assms])

theorem heap_dequeue_sorts_witness:
  "\<exists>xs. dequeue_all (<) one_node_heap = Some xs \<and> set xs = {7} \<and> distinct xs \<and>
    sorted_wrt (\<lambda>a b. \<not> b < a) xs"
  using heap_dequeue_sorts[OF heap_order_nat one_node_heap_holds] .

end
