(* ===== verification/Uv_Errno.thy ===== *)
theory Uv_Errno
  imports Uv_Prelude
begin

text \<open>
  Error numbers. \<open>include/uv-errno.h\<close> gives every libuv error a negative number, \<open>UV_ERRNO_MAP\<close>
  of \<open>include/uv.h\<close> its name and message, \<open>src/uv-common.c\<close> prints them, \<open>src/win/error.c\<close>,
  \<open>src/win/winsock.c\<close> and \<open>src/win/getaddrinfo.c\<close> translate the numbers of the system.

  The numbers are those of the Windows build, the platform PortMapping runs on. The numbers of
  the Windows SDK (\<open>ERROR_ACCESS_DENIED\<close>, \<open>WSAEINVAL\<close>, ...) are not in the repository: a
  definition that uses them takes the function \<open>num\<close> from their names to their numbers.
\<close>

section \<open>The numbers\<close>

definition UV_E2BIG :: int where "UV_E2BIG = -4093"
definition UV_EACCES :: int where "UV_EACCES = -4092"
definition UV_EADDRINUSE :: int where "UV_EADDRINUSE = -4091"
definition UV_EADDRNOTAVAIL :: int where "UV_EADDRNOTAVAIL = -4090"
definition UV_EAFNOSUPPORT :: int where "UV_EAFNOSUPPORT = -4089"
definition UV_EAGAIN :: int where "UV_EAGAIN = -4088"
definition UV_EAI_ADDRFAMILY :: int where "UV_EAI_ADDRFAMILY = -3000"
definition UV_EAI_AGAIN :: int where "UV_EAI_AGAIN = -3001"
definition UV_EAI_BADFLAGS :: int where "UV_EAI_BADFLAGS = -3002"
definition UV_EAI_BADHINTS :: int where "UV_EAI_BADHINTS = -3013"
definition UV_EAI_CANCELED :: int where "UV_EAI_CANCELED = -3003"
definition UV_EAI_FAIL :: int where "UV_EAI_FAIL = -3004"
definition UV_EAI_FAMILY :: int where "UV_EAI_FAMILY = -3005"
definition UV_EAI_MEMORY :: int where "UV_EAI_MEMORY = -3006"
definition UV_EAI_NODATA :: int where "UV_EAI_NODATA = -3007"
definition UV_EAI_NONAME :: int where "UV_EAI_NONAME = -3008"
definition UV_EAI_OVERFLOW :: int where "UV_EAI_OVERFLOW = -3009"
definition UV_EAI_PROTOCOL :: int where "UV_EAI_PROTOCOL = -3014"
definition UV_EAI_SERVICE :: int where "UV_EAI_SERVICE = -3010"
definition UV_EAI_SOCKTYPE :: int where "UV_EAI_SOCKTYPE = -3011"
definition UV_EALREADY :: int where "UV_EALREADY = -4084"
definition UV_EBADF :: int where "UV_EBADF = -4083"
definition UV_EBUSY :: int where "UV_EBUSY = -4082"
definition UV_ECANCELED :: int where "UV_ECANCELED = -4081"
definition UV_ECHARSET :: int where "UV_ECHARSET = -4080"
definition UV_ECONNABORTED :: int where "UV_ECONNABORTED = -4079"
definition UV_ECONNREFUSED :: int where "UV_ECONNREFUSED = -4078"
definition UV_ECONNRESET :: int where "UV_ECONNRESET = -4077"
definition UV_EDESTADDRREQ :: int where "UV_EDESTADDRREQ = -4076"
definition UV_EEXIST :: int where "UV_EEXIST = -4075"
definition UV_EFAULT :: int where "UV_EFAULT = -4074"
definition UV_EFBIG :: int where "UV_EFBIG = -4036"
definition UV_EHOSTUNREACH :: int where "UV_EHOSTUNREACH = -4073"
definition UV_EINTR :: int where "UV_EINTR = -4072"
definition UV_EINVAL :: int where "UV_EINVAL = -4071"
definition UV_EIO :: int where "UV_EIO = -4070"
definition UV_EISCONN :: int where "UV_EISCONN = -4069"
definition UV_EISDIR :: int where "UV_EISDIR = -4068"
definition UV_ELOOP :: int where "UV_ELOOP = -4067"
definition UV_EMFILE :: int where "UV_EMFILE = -4066"
definition UV_EMSGSIZE :: int where "UV_EMSGSIZE = -4065"
definition UV_ENAMETOOLONG :: int where "UV_ENAMETOOLONG = -4064"
definition UV_ENETDOWN :: int where "UV_ENETDOWN = -4063"
definition UV_ENETUNREACH :: int where "UV_ENETUNREACH = -4062"
definition UV_ENFILE :: int where "UV_ENFILE = -4061"
definition UV_ENOBUFS :: int where "UV_ENOBUFS = -4060"
definition UV_ENODEV :: int where "UV_ENODEV = -4059"
definition UV_ENOENT :: int where "UV_ENOENT = -4058"
definition UV_ENOMEM :: int where "UV_ENOMEM = -4057"
definition UV_ENONET :: int where "UV_ENONET = -4056"
definition UV_ENOPROTOOPT :: int where "UV_ENOPROTOOPT = -4035"
definition UV_ENOSPC :: int where "UV_ENOSPC = -4055"
definition UV_ENOSYS :: int where "UV_ENOSYS = -4054"
definition UV_ENOTCONN :: int where "UV_ENOTCONN = -4053"
definition UV_ENOTDIR :: int where "UV_ENOTDIR = -4052"
definition UV_ENOTEMPTY :: int where "UV_ENOTEMPTY = -4051"
definition UV_ENOTSOCK :: int where "UV_ENOTSOCK = -4050"
definition UV_ENOTSUP :: int where "UV_ENOTSUP = -4049"
definition UV_EPERM :: int where "UV_EPERM = -4048"
definition UV_EPIPE :: int where "UV_EPIPE = -4047"
definition UV_EPROTO :: int where "UV_EPROTO = -4046"
definition UV_EPROTONOSUPPORT :: int where "UV_EPROTONOSUPPORT = -4045"
definition UV_EPROTOTYPE :: int where "UV_EPROTOTYPE = -4044"
definition UV_ERANGE :: int where "UV_ERANGE = -4034"
definition UV_EROFS :: int where "UV_EROFS = -4043"
definition UV_ESHUTDOWN :: int where "UV_ESHUTDOWN = -4042"
definition UV_ESPIPE :: int where "UV_ESPIPE = -4041"
definition UV_ESRCH :: int where "UV_ESRCH = -4040"
definition UV_ETIMEDOUT :: int where "UV_ETIMEDOUT = -4039"
definition UV_ETXTBSY :: int where "UV_ETXTBSY = -4038"
definition UV_EXDEV :: int where "UV_EXDEV = -4037"
definition UV_UNKNOWN :: int where "UV_UNKNOWN = -4094"
definition UV_EOF :: int where "UV_EOF = -4095"
definition UV_ENXIO :: int where "UV_ENXIO = -4033"
definition UV_EMLINK :: int where "UV_EMLINK = -4032"
definition UV_EHOSTDOWN :: int where "UV_EHOSTDOWN = -4031"

lemmas uv_code_defs =
  UV_E2BIG_def UV_EACCES_def UV_EADDRINUSE_def UV_EADDRNOTAVAIL_def UV_EAFNOSUPPORT_def
  UV_EAGAIN_def UV_EAI_ADDRFAMILY_def UV_EAI_AGAIN_def UV_EAI_BADFLAGS_def UV_EAI_BADHINTS_def
  UV_EAI_CANCELED_def UV_EAI_FAIL_def UV_EAI_FAMILY_def UV_EAI_MEMORY_def UV_EAI_NODATA_def
  UV_EAI_NONAME_def UV_EAI_OVERFLOW_def UV_EAI_PROTOCOL_def UV_EAI_SERVICE_def
  UV_EAI_SOCKTYPE_def UV_EALREADY_def UV_EBADF_def UV_EBUSY_def UV_ECANCELED_def
  UV_ECHARSET_def UV_ECONNABORTED_def UV_ECONNREFUSED_def UV_ECONNRESET_def UV_EDESTADDRREQ_def
  UV_EEXIST_def UV_EFAULT_def UV_EFBIG_def UV_EHOSTUNREACH_def UV_EINTR_def UV_EINVAL_def
  UV_EIO_def UV_EISCONN_def UV_EISDIR_def UV_ELOOP_def UV_EMFILE_def UV_EMSGSIZE_def
  UV_ENAMETOOLONG_def UV_ENETDOWN_def UV_ENETUNREACH_def UV_ENFILE_def UV_ENOBUFS_def
  UV_ENODEV_def UV_ENOENT_def UV_ENOMEM_def UV_ENONET_def UV_ENOPROTOOPT_def UV_ENOSPC_def
  UV_ENOSYS_def UV_ENOTCONN_def UV_ENOTDIR_def UV_ENOTEMPTY_def UV_ENOTSOCK_def UV_ENOTSUP_def
  UV_EPERM_def UV_EPIPE_def UV_EPROTO_def UV_EPROTONOSUPPORT_def UV_EPROTOTYPE_def
  UV_ERANGE_def UV_EROFS_def UV_ESHUTDOWN_def UV_ESPIPE_def UV_ESRCH_def UV_ETIMEDOUT_def
  UV_ETXTBSY_def UV_EXDEV_def UV_UNKNOWN_def UV_EOF_def UV_ENXIO_def UV_EMLINK_def
  UV_EHOSTDOWN_def

section \<open>Errors as values\<close>

text \<open>The errors the modelled functions return themselves, and an error number passed on from the
  system or a callee. \<open>0\<close> is \<open>OK\<close>.\<close>

datatype uv_error = EINVAL | ENOSPC | EAFNOSUPPORT | EBUSY | ENOBUFS | END_OF_FILE | ENOMEM
  | ECANCELED | EADDRINUSE | EISCONN | EAGAIN | EALREADY | EBADF | ENOSYS | ENOTSUP | ENOTCONN
  | EPIPE | ENOENT | EMFILE | ENAMETOOLONG | ENOTSOCK | ECONNRESET | SysError int

datatype rc = OK | Fail uv_error

fun error_code :: "uv_error \<Rightarrow> int" where
  "error_code EINVAL = UV_EINVAL"
| "error_code ENOSPC = UV_ENOSPC"
| "error_code EAFNOSUPPORT = UV_EAFNOSUPPORT"
| "error_code EBUSY = UV_EBUSY"
| "error_code ENOBUFS = UV_ENOBUFS"
| "error_code END_OF_FILE = UV_EOF"
| "error_code ENOMEM = UV_ENOMEM"
| "error_code ECANCELED = UV_ECANCELED"
| "error_code EADDRINUSE = UV_EADDRINUSE"
| "error_code EISCONN = UV_EISCONN"
| "error_code EAGAIN = UV_EAGAIN"
| "error_code EALREADY = UV_EALREADY"
| "error_code EBADF = UV_EBADF"
| "error_code ENOSYS = UV_ENOSYS"
| "error_code ENOTSUP = UV_ENOTSUP"
| "error_code ENOTCONN = UV_ENOTCONN"
| "error_code EPIPE = UV_EPIPE"
| "error_code ENOENT = UV_ENOENT"
| "error_code EMFILE = UV_EMFILE"
| "error_code ENAMETOOLONG = UV_ENAMETOOLONG"
| "error_code ENOTSOCK = UV_ENOTSOCK"
| "error_code ECONNRESET = UV_ECONNRESET"
| "error_code (SysError n) = n"

fun rc_code :: "rc \<Rightarrow> int" where
  "rc_code OK = 0"
| "rc_code (Fail e) = error_code e"

section \<open>Names and messages\<close>

text \<open>\<open>UV_ERRNO_MAP\<close>: number, name, message.\<close>

definition uv_errno_map :: "(int \<times> string \<times> string) list" where
  "uv_errno_map = [(UV_E2BIG, ''E2BIG'', ''argument list too long''),
    (UV_EACCES, ''EACCES'', ''permission denied''),
    (UV_EADDRINUSE, ''EADDRINUSE'', ''address already in use''),
    (UV_EADDRNOTAVAIL, ''EADDRNOTAVAIL'', ''address not available''),
    (UV_EAFNOSUPPORT, ''EAFNOSUPPORT'', ''address family not supported''),
    (UV_EAGAIN, ''EAGAIN'', ''resource temporarily unavailable''),
    (UV_EAI_ADDRFAMILY, ''EAI_ADDRFAMILY'', ''address family not supported''),
    (UV_EAI_AGAIN, ''EAI_AGAIN'', ''temporary failure''),
    (UV_EAI_BADFLAGS, ''EAI_BADFLAGS'', ''bad ai_flags value''),
    (UV_EAI_BADHINTS, ''EAI_BADHINTS'', ''invalid value for hints''),
    (UV_EAI_CANCELED, ''EAI_CANCELED'', ''request canceled''),
    (UV_EAI_FAIL, ''EAI_FAIL'', ''permanent failure''),
    (UV_EAI_FAMILY, ''EAI_FAMILY'', ''ai_family not supported''),
    (UV_EAI_MEMORY, ''EAI_MEMORY'', ''out of memory''),
    (UV_EAI_NODATA, ''EAI_NODATA'', ''no address''),
    (UV_EAI_NONAME, ''EAI_NONAME'', ''unknown node or service''),
    (UV_EAI_OVERFLOW, ''EAI_OVERFLOW'', ''argument buffer overflow''),
    (UV_EAI_PROTOCOL, ''EAI_PROTOCOL'', ''resolved protocol is unknown''),
    (UV_EAI_SERVICE, ''EAI_SERVICE'', ''service not available for socket type''),
    (UV_EAI_SOCKTYPE, ''EAI_SOCKTYPE'', ''socket type not supported''),
    (UV_EALREADY, ''EALREADY'', ''connection already in progress''),
    (UV_EBADF, ''EBADF'', ''bad file descriptor''),
    (UV_EBUSY, ''EBUSY'', ''resource busy or locked''),
    (UV_ECANCELED, ''ECANCELED'', ''operation canceled''),
    (UV_ECHARSET, ''ECHARSET'', ''invalid Unicode character''),
    (UV_ECONNABORTED, ''ECONNABORTED'', ''software caused connection abort''),
    (UV_ECONNREFUSED, ''ECONNREFUSED'', ''connection refused''),
    (UV_ECONNRESET, ''ECONNRESET'', ''connection reset by peer''),
    (UV_EDESTADDRREQ, ''EDESTADDRREQ'', ''destination address required''),
    (UV_EEXIST, ''EEXIST'', ''file already exists''),
    (UV_EFAULT, ''EFAULT'', ''bad address in system call argument''),
    (UV_EFBIG, ''EFBIG'', ''file too large''),
    (UV_EHOSTUNREACH, ''EHOSTUNREACH'', ''host is unreachable''),
    (UV_EINTR, ''EINTR'', ''interrupted system call''),
    (UV_EINVAL, ''EINVAL'', ''invalid argument''),
    (UV_EIO, ''EIO'', ''i/o error''),
    (UV_EISCONN, ''EISCONN'', ''socket is already connected''),
    (UV_EISDIR, ''EISDIR'', ''illegal operation on a directory''),
    (UV_ELOOP, ''ELOOP'', ''too many symbolic links encountered''),
    (UV_EMFILE, ''EMFILE'', ''too many open files''),
    (UV_EMSGSIZE, ''EMSGSIZE'', ''message too long''),
    (UV_ENAMETOOLONG, ''ENAMETOOLONG'', ''name too long''),
    (UV_ENETDOWN, ''ENETDOWN'', ''network is down''),
    (UV_ENETUNREACH, ''ENETUNREACH'', ''network is unreachable''),
    (UV_ENFILE, ''ENFILE'', ''file table overflow''),
    (UV_ENOBUFS, ''ENOBUFS'', ''no buffer space available''),
    (UV_ENODEV, ''ENODEV'', ''no such device''),
    (UV_ENOENT, ''ENOENT'', ''no such file or directory''),
    (UV_ENOMEM, ''ENOMEM'', ''not enough memory''),
    (UV_ENONET, ''ENONET'', ''machine is not on the network''),
    (UV_ENOPROTOOPT, ''ENOPROTOOPT'', ''protocol not available''),
    (UV_ENOSPC, ''ENOSPC'', ''no space left on device''),
    (UV_ENOSYS, ''ENOSYS'', ''function not implemented''),
    (UV_ENOTCONN, ''ENOTCONN'', ''socket is not connected''),
    (UV_ENOTDIR, ''ENOTDIR'', ''not a directory''),
    (UV_ENOTEMPTY, ''ENOTEMPTY'', ''directory not empty''),
    (UV_ENOTSOCK, ''ENOTSOCK'', ''socket operation on non-socket''),
    (UV_ENOTSUP, ''ENOTSUP'', ''operation not supported on socket''),
    (UV_EPERM, ''EPERM'', ''operation not permitted''),
    (UV_EPIPE, ''EPIPE'', ''broken pipe''),
    (UV_EPROTO, ''EPROTO'', ''protocol error''),
    (UV_EPROTONOSUPPORT, ''EPROTONOSUPPORT'', ''protocol not supported''),
    (UV_EPROTOTYPE, ''EPROTOTYPE'', ''protocol wrong type for socket''),
    (UV_ERANGE, ''ERANGE'', ''result too large''),
    (UV_EROFS, ''EROFS'', ''read-only file system''),
    (UV_ESHUTDOWN, ''ESHUTDOWN'', ''cannot send after transport endpoint shutdown''),
    (UV_ESPIPE, ''ESPIPE'', ''invalid seek''),
    (UV_ESRCH, ''ESRCH'', ''no such process''),
    (UV_ETIMEDOUT, ''ETIMEDOUT'', ''connection timed out''),
    (UV_ETXTBSY, ''ETXTBSY'', ''text file is busy''),
    (UV_EXDEV, ''EXDEV'', ''cross-device link not permitted''),
    (UV_UNKNOWN, ''UNKNOWN'', ''unknown error''),
    (UV_EOF, ''EOF'', ''end of file''),
    (UV_ENXIO, ''ENXIO'', ''no such device or address''),
    (UV_EMLINK, ''EMLINK'', ''too many links''),
    (UV_EHOSTDOWN, ''EHOSTDOWN'', ''host is down'')]"

text \<open>\<open>uv__unknown_err_code\<close>: \<open>snprintf\<close> into a buffer of 32 bytes keeps 31 characters. \<open>ok\<close>
  tells whether the copy could be allocated.\<close>

definition uv__unknown_err_code :: "bool \<Rightarrow> int \<Rightarrow> string" where
  "uv__unknown_err_code ok err =
     (let buf = take 31 (''Unknown system error '' @ show_int err)
      in if ok then buf else ''Unknown system error'')"

definition uv_err_name :: "bool \<Rightarrow> int \<Rightarrow> string" where
  "uv_err_name ok err =
     (case map_of uv_errno_map err of
        Some (name, _) \<Rightarrow> name
      | None \<Rightarrow> uv__unknown_err_code ok err)"

definition uv_strerror :: "bool \<Rightarrow> int \<Rightarrow> string" where
  "uv_strerror ok err =
     (case map_of uv_errno_map err of
        Some (_, msg) \<Rightarrow> msg
      | None \<Rightarrow> uv__unknown_err_code ok err)"

section \<open>Errors of the system\<close>

text \<open>The names of the SDK start with \<open>ERROR_\<close> or \<open>WSA\<close>: \<open>ERROR_NOACCESS\<close> is
  \<open>ERROR ''NOACCESS''\<close>, \<open>WSAEACCES\<close> is \<open>WSA ''EACCES''\<close>.\<close>

datatype sysname = ERROR string | WSA string

type_synonym sysnum = "sysname \<Rightarrow> int"

text \<open>The cases of the switch of \<open>uv_translate_sys_error\<close>, in its order.\<close>

definition sys_error_map :: "(sysname \<times> int) list" where
  "sys_error_map = [(ERROR ''NOACCESS'', UV_EACCES),
    (WSA ''EACCES'', UV_EACCES),
    (ERROR ''ADDRESS_ALREADY_ASSOCIATED'', UV_EADDRINUSE),
    (WSA ''EADDRINUSE'', UV_EADDRINUSE),
    (WSA ''EADDRNOTAVAIL'', UV_EADDRNOTAVAIL),
    (WSA ''EAFNOSUPPORT'', UV_EAFNOSUPPORT),
    (WSA ''EWOULDBLOCK'', UV_EAGAIN),
    (WSA ''EALREADY'', UV_EALREADY),
    (ERROR ''INVALID_FLAGS'', UV_EBADF),
    (ERROR ''INVALID_HANDLE'', UV_EBADF),
    (ERROR ''LOCK_VIOLATION'', UV_EBUSY),
    (ERROR ''PIPE_BUSY'', UV_EBUSY),
    (ERROR ''SHARING_VIOLATION'', UV_EBUSY),
    (ERROR ''OPERATION_ABORTED'', UV_ECANCELED),
    (WSA ''EINTR'', UV_ECANCELED),
    (ERROR ''NO_UNICODE_TRANSLATION'', UV_ECHARSET),
    (ERROR ''CONNECTION_ABORTED'', UV_ECONNABORTED),
    (WSA ''ECONNABORTED'', UV_ECONNABORTED),
    (ERROR ''CONNECTION_REFUSED'', UV_ECONNREFUSED),
    (WSA ''ECONNREFUSED'', UV_ECONNREFUSED),
    (ERROR ''NETNAME_DELETED'', UV_ECONNRESET),
    (WSA ''ECONNRESET'', UV_ECONNRESET),
    (ERROR ''ALREADY_EXISTS'', UV_EEXIST),
    (ERROR ''FILE_EXISTS'', UV_EEXIST),
    (ERROR ''BUFFER_OVERFLOW'', UV_EFAULT),
    (WSA ''EFAULT'', UV_EFAULT),
    (ERROR ''HOST_UNREACHABLE'', UV_EHOSTUNREACH),
    (WSA ''EHOSTUNREACH'', UV_EHOSTUNREACH),
    (ERROR ''INSUFFICIENT_BUFFER'', UV_EINVAL),
    (ERROR ''INVALID_DATA'', UV_EINVAL),
    (ERROR ''INVALID_PARAMETER'', UV_EINVAL),
    (ERROR ''SYMLINK_NOT_SUPPORTED'', UV_EINVAL),
    (WSA ''EINVAL'', UV_EINVAL),
    (WSA ''EPFNOSUPPORT'', UV_EINVAL),
    (WSA ''ESOCKTNOSUPPORT'', UV_EINVAL),
    (ERROR ''BEGINNING_OF_MEDIA'', UV_EIO),
    (ERROR ''BUS_RESET'', UV_EIO),
    (ERROR ''CRC'', UV_EIO),
    (ERROR ''DEVICE_DOOR_OPEN'', UV_EIO),
    (ERROR ''DEVICE_REQUIRES_CLEANING'', UV_EIO),
    (ERROR ''DISK_CORRUPT'', UV_EIO),
    (ERROR ''EOM_OVERFLOW'', UV_EIO),
    (ERROR ''FILEMARK_DETECTED'', UV_EIO),
    (ERROR ''GEN_FAILURE'', UV_EIO),
    (ERROR ''INVALID_BLOCK_LENGTH'', UV_EIO),
    (ERROR ''IO_DEVICE'', UV_EIO),
    (ERROR ''NO_DATA_DETECTED'', UV_EIO),
    (ERROR ''NO_SIGNAL_SENT'', UV_EIO),
    (ERROR ''OPEN_FAILED'', UV_EIO),
    (ERROR ''SETMARK_DETECTED'', UV_EIO),
    (ERROR ''SIGNAL_REFUSED'', UV_EIO),
    (WSA ''EISCONN'', UV_EISCONN),
    (ERROR ''CANT_RESOLVE_FILENAME'', UV_ELOOP),
    (ERROR ''TOO_MANY_OPEN_FILES'', UV_EMFILE),
    (WSA ''EMFILE'', UV_EMFILE),
    (WSA ''EMSGSIZE'', UV_EMSGSIZE),
    (ERROR ''FILENAME_EXCED_RANGE'', UV_ENAMETOOLONG),
    (ERROR ''NETWORK_UNREACHABLE'', UV_ENETUNREACH),
    (WSA ''ENETUNREACH'', UV_ENETUNREACH),
    (WSA ''ENOBUFS'', UV_ENOBUFS),
    (ERROR ''BAD_PATHNAME'', UV_ENOENT),
    (ERROR ''DIRECTORY'', UV_ENOENT),
    (ERROR ''FILE_NOT_FOUND'', UV_ENOENT),
    (ERROR ''INVALID_NAME'', UV_ENOENT),
    (ERROR ''INVALID_DRIVE'', UV_ENOENT),
    (ERROR ''INVALID_REPARSE_DATA'', UV_ENOENT),
    (ERROR ''MOD_NOT_FOUND'', UV_ENOENT),
    (ERROR ''PATH_NOT_FOUND'', UV_ENOENT),
    (WSA ''HOST_NOT_FOUND'', UV_ENOENT),
    (WSA ''NO_DATA'', UV_ENOENT),
    (ERROR ''NOT_ENOUGH_MEMORY'', UV_ENOMEM),
    (ERROR ''OUTOFMEMORY'', UV_ENOMEM),
    (ERROR ''CANNOT_MAKE'', UV_ENOSPC),
    (ERROR ''DISK_FULL'', UV_ENOSPC),
    (ERROR ''EA_TABLE_FULL'', UV_ENOSPC),
    (ERROR ''END_OF_MEDIA'', UV_ENOSPC),
    (ERROR ''HANDLE_DISK_FULL'', UV_ENOSPC),
    (ERROR ''NOT_CONNECTED'', UV_ENOTCONN),
    (WSA ''ENOTCONN'', UV_ENOTCONN),
    (ERROR ''DIR_NOT_EMPTY'', UV_ENOTEMPTY),
    (WSA ''ENOTSOCK'', UV_ENOTSOCK),
    (ERROR ''NOT_SUPPORTED'', UV_ENOTSUP),
    (ERROR ''BROKEN_PIPE'', UV_EOF),
    (ERROR ''ACCESS_DENIED'', UV_EPERM),
    (ERROR ''PRIVILEGE_NOT_HELD'', UV_EPERM),
    (ERROR ''BAD_PIPE'', UV_EPIPE),
    (ERROR ''NO_DATA'', UV_EPIPE),
    (ERROR ''PIPE_NOT_CONNECTED'', UV_EPIPE),
    (WSA ''ESHUTDOWN'', UV_EPIPE),
    (WSA ''EPROTONOSUPPORT'', UV_EPROTONOSUPPORT),
    (ERROR ''WRITE_PROTECT'', UV_EROFS),
    (ERROR ''SEM_TIMEOUT'', UV_ETIMEDOUT),
    (WSA ''ETIMEDOUT'', UV_ETIMEDOUT),
    (ERROR ''NOT_SAME_DEVICE'', UV_EXDEV),
    (ERROR ''INVALID_FUNCTION'', UV_EISDIR),
    (ERROR ''META_EXPANSION_TOO_LONG'', UV_E2BIG)]"

definition uv_translate_sys_error :: "sysnum \<Rightarrow> int \<Rightarrow> int" where
  "uv_translate_sys_error num sys_errno =
     (if sys_errno \<le> 0 then sys_errno
      else case find (\<lambda>(label, _). num label = sys_errno) sys_error_map of
             Some (_, code) \<Rightarrow> code
           | None \<Rightarrow> UV_UNKNOWN)"

definition uv__getaddrinfo_translate_error :: "sysnum \<Rightarrow> int \<Rightarrow> int" where
  "uv__getaddrinfo_translate_error num sys_err =
     (if sys_err = 0 then 0

      else if sys_err = num (WSA ''TRY_AGAIN'') then UV_EAI_AGAIN
      else if sys_err = num (WSA ''EINVAL'') then UV_EAI_BADFLAGS
      else if sys_err = num (WSA ''NO_RECOVERY'') then UV_EAI_FAIL
      else if sys_err = num (WSA ''EAFNOSUPPORT'') then UV_EAI_FAMILY
      else if sys_err = num (WSA ''_NOT_ENOUGH_MEMORY'') then UV_EAI_MEMORY
      else if sys_err = num (WSA ''HOST_NOT_FOUND'') then UV_EAI_NONAME
      else if sys_err = num (WSA ''TYPE_NOT_FOUND'') then UV_EAI_SERVICE
      else if sys_err = num (WSA ''ESOCKTNOSUPPORT'') then UV_EAI_SOCKTYPE
      else uv_translate_sys_error num sys_err)"

section \<open>Statuses of the NT kernel\<close>

unbundle bit_operations_syntax

type_synonym ntstatus = "32 word"

definition FACILITY_NTWIN32 :: ntstatus where
  "FACILITY_NTWIN32 = 0x7"

text \<open>The groups of cases of \<open>uv_ntstatus_to_winsock_error\<close> with the names of the results;
  the numbers are those of \<open>src/win/winapi.h\<close>.\<close>

definition ntstatus_map :: "(ntstatus list \<times> sysname) list" where
  "ntstatus_map = [([0x00000000], ERROR ''SUCCESS''),
    ([0x00000103], ERROR ''IO_PENDING''),
    ([0xC0000008, 0xC0000024], WSA ''ENOTSOCK''),
    ([0xC000009A, 0xC0000007, 0xC000012D, 0xC00000A1, 0xC0000017, 0xC0000044, 0xC0000097, 0xC000013D], WSA ''ENOBUFS''),
    ([0xC0000209, 0xC0000043, 0xC000020A], WSA ''EADDRINUSE''),
    ([0xC000013F, 0xC00000B5, 0x00000102], WSA ''ETIMEDOUT''),
    ([0xC0000237], WSA ''EDISCON''),
    ([0xC000013C, 0xC000020D, 0xC000013E, 0xC000020C, 0xC000023F, 0xC000A012], WSA ''ECONNRESET''),
    ([0xC000013B, 0xC000020F, 0xC0000241], WSA ''ECONNABORTED''),
    ([0xC00000BE, 0xC000023C, 0xC000023E], WSA ''ENETUNREACH''),
    ([0xC000023D], WSA ''EHOSTUNREACH''),
    ([0xC0000120, 0xC0000240], WSA ''EINTR''),
    ([0x80000005, 0xC0000206], WSA ''EMSGSIZE''),
    ([0xC0000023, 0xC0000005], WSA ''EFAULT''),
    ([0xC00000A3, 0xC00000D0], WSA ''EWOULDBLOCK''),
    ([0xC00000C3, 0xC00000BF, 0xC000000E, 0xC000000F, 0xC000003A, 0xC0000034, 0xC00000C4], WSA ''ENETDOWN''),
    ([0xC0000140], WSA ''ENOTCONN''),
    ([0xC00000BC, 0xC0000236], WSA ''ECONNREFUSED''),
    ([0xC00000B0], WSA ''ESHUTDOWN''),
    ([0xC0000018, 0xC0000141, 0xC0000207], WSA ''EADDRNOTAVAIL''),
    ([0xC00000BB, 0xC0000002], WSA ''EOPNOTSUPP''),
    ([0xC0000022], WSA ''EACCES'')]"

text \<open>\<open>severity\<close> is \<open>ERROR_SEVERITY_ERROR | ERROR_SEVERITY_WARNING\<close> of the SDK.\<close>

definition uv_ntstatus_to_winsock_error :: "sysnum \<Rightarrow> ntstatus \<Rightarrow> ntstatus \<Rightarrow> int" where
  "uv_ntstatus_to_winsock_error num severity status =
     (case find (\<lambda>(labels, _). status \<in> set labels) ntstatus_map of
        Some (_, err) \<Rightarrow> num err
      | None \<Rightarrow>
          (if status AND push_bit 16 FACILITY_NTWIN32 = push_bit 16 FACILITY_NTWIN32 \<and>
              status AND severity \<noteq> 0
           then uint (status AND 0xFFFF)
           else num (WSA ''EINVAL'')))"

text \<open>\<open>NTSTATUS_FROM_WIN32\<close>, with which \<open>SET_REQ_ERROR\<close> stores an error in a request.\<close>

definition NTSTATUS_FROM_WIN32 :: "ntstatus \<Rightarrow> ntstatus \<Rightarrow> ntstatus" where
  "NTSTATUS_FROM_WIN32 warning err =
     (if sint err \<le> 0 then err
      else (err AND 0x0000FFFF) OR push_bit 16 FACILITY_NTWIN32 OR warning)"

section \<open>The tables\<close>

lemma uv_errno_map_distinct: "distinct (map fst uv_errno_map)"
  by (simp add: uv_errno_map_def uv_code_defs)

lemma uv_errno_names_distinct: "distinct (map (\<lambda>(_, name, _). name) uv_errno_map)"
  by code_simp

lemma uv_errno_negative: "(code, info) \<in> set uv_errno_map \<Longrightarrow> code < 0"
proof -
  have "\<forall>e \<in> set uv_errno_map. fst e < 0"
    by (simp add: uv_errno_map_def uv_code_defs)
  then show "(code, info) \<in> set uv_errno_map \<Longrightarrow> code < 0" by fastforce
qed

lemma sys_error_map_codes: "snd ` set sys_error_map \<subseteq> fst ` set uv_errno_map"
  by (simp add: sys_error_map_def uv_errno_map_def)

lemma map_of_uv_errno: "(code, info) \<in> set uv_errno_map \<Longrightarrow> map_of uv_errno_map code = Some info"
  by (simp add: uv_errno_map_distinct)

lemma find_distinct:
  "distinct (map (f \<circ> fst) xs) \<Longrightarrow> (l, v) \<in> set xs \<Longrightarrow>
   find (\<lambda>(l', _). f l' = f l) xs = Some (l, v)"
proof (induction xs)
  case (Cons x xs)
  have "f (fst x) \<noteq> f l" if "(l, v) \<in> set xs"
    using Cons.prems(1) that by (force simp: image_iff)
  with Cons show ?case by (cases x) auto
qed simp

lemma translate_is_code:
  assumes "0 < n"
  shows "\<exists>info. (uv_translate_sys_error num n, info) \<in> set uv_errno_map"
proof (cases "find (\<lambda>(label, _). num label = n) sys_error_map")
  case None
  have "UV_UNKNOWN \<in> fst ` set uv_errno_map" by (simp add: uv_errno_map_def)
  then have "\<exists>info. (UV_UNKNOWN, info) \<in> set uv_errno_map" by force
  with None show ?thesis using assms by (simp add: uv_translate_sys_error_def)
next
  case (Some e)
  then have "e \<in> set sys_error_map" by (auto simp: find_Some_iff dest: nth_mem)
  then have "snd e \<in> fst ` set uv_errno_map" using sys_error_map_codes by blast
  then obtain info where "(snd e, info) \<in> set uv_errno_map" by (auto simp: image_iff)
  moreover have "uv_translate_sys_error num n = snd e"
    using Some assms by (simp add: uv_translate_sys_error_def case_prod_beta)
  ultimately show ?thesis by metis
qed

text \<open>A numbering of the SDK's names, to instantiate \<open>num\<close>: any numbering a C compiler accepts
  as labels of the switch will do.\<close>

fun sample_num :: sysnum where
  "sample_num (ERROR s) = int (2 * foldl (\<lambda>n c. 2 * n + of_char c) 0 s + 1)"
| "sample_num (WSA s) = int (2 * foldl (\<lambda>n c. 2 * n + of_char c) 0 s + 2)"

lemma sample_num_distinct: "distinct (map (sample_num \<circ> fst) sys_error_map)"
proof -
  have "distinct (map (\<lambda>(l, _). sample_num l) sys_error_map)"
    by (simp add: sys_error_map_def)
  moreover have "map (\<lambda>(l, _). sample_num l) sys_error_map = map (sample_num \<circ> fst) sys_error_map"
    by (simp add: case_prod_beta comp_def)
  ultimately show ?thesis by simp
qed

lemma sample_num_pos: "0 < sample_num l"
  by (cases l) simp_all

section \<open>Properties\<close>

text \<open>
  Every error of \<open>UV_ERRNO_MAP\<close> is printed with its own name and message, and no two errors
  share a number or a name: the name identifies the error.
\<close>

theorem uv_err_name_strerror:
  assumes "(code, name, msg) \<in> set uv_errno_map"
  shows "uv_err_name ok code = name \<and> uv_strerror ok code = msg \<and> code < 0 \<and>
    (\<forall>(code', name', _) \<in> set uv_errno_map. (name' = name) = (code' = code))"
proof -
  have "name' = name \<longleftrightarrow> code' = code" if "(code', name', msg') \<in> set uv_errno_map" for code' name' msg'
    using that assms map_of_uv_errno[OF that] map_of_uv_errno[OF assms] uv_errno_names_distinct
    by (auto simp: distinct_map inj_on_def)
  then show ?thesis
    using map_of_uv_errno[OF assms] uv_errno_negative[OF assms]
    by (auto simp: uv_err_name_def uv_strerror_def)
qed

theorem uv_err_name_strerror_witness:
  "uv_err_name True UV_ECANCELED = ''ECANCELED'' \<and> uv_strerror True UV_ECANCELED = ''operation canceled''"
  using uv_err_name_strerror[of UV_ECANCELED "''ECANCELED''" "''operation canceled''" True]
  by (simp add: uv_errno_map_def)

text \<open>
  The message for a number that is no libuv error. The buffer of 32 bytes holds the whole
  number unless that is a sign and ten digits: from -1000000000 down to the least \<open>int\<close>, the
  last digit is cut off, and the message shows the number divided by ten.
\<close>

theorem unknown_err_code_message:
  assumes "- (2 ^ 31) \<le> err" "err < 2 ^ 31"
  shows "uv__unknown_err_code True err = ''Unknown system error '' @
    (if - 1000000000 < err then show_int err else show_int (- (- err div 10)))"
proof (cases "- 1000000000 < err")
  case True
  have "length (show_digits 10 (nat err)) \<le> Suc 9"
    using assms by (intro length_show_digits_le) auto
  moreover have "length (show_digits 10 (nat (- err))) \<le> Suc 8"
    using True by (intro length_show_digits_le) auto
  ultimately have "length (show_int err) \<le> 10" by (simp add: show_int_def)
  with True show ?thesis by (simp add: uv__unknown_err_code_def)
next
  case False
  let ?n = "nat (- err)"
  have d: "show_digits 10 ?n = show_digits 10 (?n div 10) @ [digit_char (?n mod 10)]"
    using False by (intro show_digits_step) auto
  have q: "nat (- err div 10) = ?n div 10" using False by (simp add: nat_div_distrib)
  have "length (show_digits 10 (?n div 10)) \<le> Suc 8"
    using assms False by (intro length_show_digits_le) auto
  moreover have "Suc 8 \<le> length (show_digits 10 (?n div 10))"
  proof (rule length_show_digits_ge)
    have "1000000000 \<le> ?n" using False by simp
    then show "10 ^ 8 \<le> ?n div 10" by simp
  qed simp
  ultimately have len: "length (show_digits 10 (?n div 10)) = 9" by simp
  have neg: "err < 0" "0 < - err div 10" using False by auto
  then have "show_int err = CHR ''-'' # show_digits 10 (?n div 10) @ [digit_char (?n mod 10)]"
    "show_int (- (- err div 10)) = CHR ''-'' # show_digits 10 (?n div 10)"
    using d q by (simp_all add: show_int_def)
  with False len show ?thesis by (simp add: uv__unknown_err_code_def)
qed

theorem unknown_err_code_message_witness:
  "uv__unknown_err_code True (- 1000000007) = uv__unknown_err_code True (- 1000000000)"
  using unknown_err_code_message[of "- 1000000007"] unknown_err_code_message[of "- 1000000000"]
  by simp

text \<open>
  \<open>uv_translate_sys_error\<close> leaves numbers that are not positive alone, maps every number of
  the system to a number of \<open>UV_ERRNO_MAP\<close>, so to a negative one, and so is idempotent; with
  labels a compiler accepts (different numbers) each case of the switch is taken.
\<close>

theorem translate_sys_error_total:
  assumes "distinct (map (num \<circ> fst) sys_error_map)" "\<forall>l. 0 < num l"
  shows "(n \<le> 0 \<longrightarrow> uv_translate_sys_error num n = n) \<and>
    (0 < n \<longrightarrow> uv_translate_sys_error num n \<in> fst ` set uv_errno_map \<and>
       uv_translate_sys_error num n < 0) \<and>
    uv_translate_sys_error num (uv_translate_sys_error num n) = uv_translate_sys_error num n \<and>
    (\<forall>(label, code) \<in> set sys_error_map. uv_translate_sys_error num (num label) = code)"
proof -
  have case_taken: "uv_translate_sys_error num (num l) = c" if "(l, c) \<in> set sys_error_map" for l c
    using find_distinct[OF assms(1) that] assms(2)[rule_format, of l] by (simp add: uv_translate_sys_error_def)
  have id: "uv_translate_sys_error num m = m" if "m \<le> 0" for m
    using that by (simp add: uv_translate_sys_error_def)
  show ?thesis
  proof (cases "0 < n")
    case True
    obtain info where i: "(uv_translate_sys_error num n, info) \<in> set uv_errno_map"
      using translate_is_code[OF True] by blast
    with uv_errno_negative[OF i] id case_taken show ?thesis by (force simp: True)
  next
    case False
    with id case_taken show ?thesis by auto
  qed
qed

theorem translate_sys_error_total_witness:
  "uv_translate_sys_error sample_num (sample_num (WSA ''ECONNRESET'')) = UV_ECONNRESET \<and>
   uv_translate_sys_error sample_num (- 5) = - 5"
  using translate_sys_error_total[OF sample_num_distinct, of "- 5"] sample_num_pos
  by (auto simp: sys_error_map_def)

lemma from_win32_high:
  "((e AND 0xFFFF) OR push_bit 16 FACILITY_NTWIN32 OR 0x80000000) AND 0xFFFF0000 = (0x80070000 :: ntstatus)"
  by (simp add: word_ao_dist and.assoc FACILITY_NTWIN32_def)

lemma ntstatus_map_high:
  "(labels, err) \<in> set ntstatus_map \<Longrightarrow> s \<in> set labels \<Longrightarrow> s AND 0xFFFF0000 \<noteq> 0x80070000"
proof -
  have "\<forall>g \<in> set ntstatus_map. \<forall>s \<in> set (fst g). s AND 0xFFFF0000 \<noteq> 0x80070000"
    by (simp add: ntstatus_map_def)
  then show "(labels, err) \<in> set ntstatus_map \<Longrightarrow> s \<in> set labels \<Longrightarrow> s AND 0xFFFF0000 \<noteq> 0x80070000"
    by fastforce
qed

text \<open>
  An error number stored in a request with \<open>NTSTATUS_FROM_WIN32\<close> is read back unchanged by
  \<open>uv_ntstatus_to_winsock_error\<close>: the stored status is none of the statuses with a case of
  their own.
\<close>

theorem ntstatus_round_trip:
  assumes "warning = 0x80000000" "severity = 0xC0000000" "0 < e" "e < 2 ^ 16"
  shows "uv_ntstatus_to_winsock_error num severity (NTSTATUS_FROM_WIN32 warning (word_of_int e)) = e"
proof -
  let ?e = "word_of_int e :: ntstatus"
  let ?s = "(?e AND 0xFFFF) OR push_bit 16 FACILITY_NTWIN32 OR 0x80000000"
  have u: "uint ?e = e" using assms(3,4) by (simp add: uint_word_of_int)
  have "sint ?e = e"
    using u assms(3,4) by (simp add: sint_uint signed_take_bit_int_eq_self)
  then have s: "NTSTATUS_FROM_WIN32 warning ?e = ?s"
    using assms by (simp add: NTSTATUS_FROM_WIN32_def)
  have none: "find (\<lambda>(labels, _). ?s \<in> set labels) ntstatus_map = None"
    using ntstatus_map_high[where s = ?s] from_win32_high[of ?e] by (auto simp: find_None_iff)
  have low: "?s AND 0xFFFF = ?e AND 0xFFFF"
    by (simp add: word_ao_dist and.assoc FACILITY_NTWIN32_def)
  have fac: "?s AND push_bit 16 FACILITY_NTWIN32 = push_bit 16 FACILITY_NTWIN32"
    by (simp add: word_ao_dist and.assoc FACILITY_NTWIN32_def)
  have sev: "?s AND 0xC0000000 = 0x80000000"
    by (simp add: word_ao_dist and.assoc FACILITY_NTWIN32_def)
  have "?e AND 0xFFFF = take_bit 16 ?e" by (simp add: take_bit_eq_mask mask_numeral)
  then have "uint (?e AND 0xFFFF) = e"
    using u assms(3,4) by (simp add: unsigned_take_bit_eq take_bit_int_eq_self)
  then show ?thesis
    using s none low fac sev assms(2) by (simp add: uv_ntstatus_to_winsock_error_def)
qed

theorem ntstatus_round_trip_witness:
  "uv_ntstatus_to_winsock_error sample_num 0xC0000000 (NTSTATUS_FROM_WIN32 0x80000000 (word_of_int 10054)) = 10054"
  using ntstatus_round_trip[of "0x80000000" "0xC0000000" 10054] by simp

end
