(* ===== verification/Uv_Inet.thy ===== *)
theory Uv_Inet
  imports Uv_Errno
begin

text \<open>
  \<open>src/inet.c\<close>: printing and parsing of IPv4 and IPv6 addresses, and the socket address
  helpers of \<open>src/uv-common.c\<close> on top of them (\<open>uv_ip4_addr\<close>, \<open>uv_ip6_addr\<close>, \<open>uv_ip4_name\<close>,
  \<open>uv_ip6_name\<close>). An address is its list of bytes in network order; a C string is the list of
  its characters before the terminating \<open>NUL\<close>. The destination buffer of a function that fails
  is not written, so a result is an error or the buffer's new content.
\<close>

unbundle bit_operations_syntax

section \<open>Printing\<close>

definition UV__INET_ADDRSTRLEN :: nat where
  "UV__INET_ADDRSTRLEN = 16"

definition UV__INET6_ADDRSTRLEN :: nat where
  "UV__INET6_ADDRSTRLEN = 46"

text \<open>\<open>snprintf\<close> with \<open>%u.%u.%u.%u\<close>: what it stores in \<open>tmp\<close>, and the length it returns.\<close>

definition format_ip4 :: "u8 list \<Rightarrow> string" where
  "format_ip4 src =
     show_digits 10 (unat (src ! 0)) @ ''.'' @ show_digits 10 (unat (src ! 1)) @ ''.'' @
     show_digits 10 (unat (src ! 2)) @ ''.'' @ show_digits 10 (unat (src ! 3))"

definition inet_ntop4 :: "u8 list \<Rightarrow> nat \<Rightarrow> uv_error + string" where
  "inet_ntop4 src sz =
     (let tmp = take (UV__INET_ADDRSTRLEN - 1) (format_ip4 src);
          l = length (format_ip4 src)
      in if l = 0 \<or> sz \<le> l then Inl ENOSPC else Inr (take (sz - 1) tmp))"

text \<open>The 16-bit groups of an IPv6 address: \<open>words[i / 2] |= src[i] << ((1 - i % 2) << 3)\<close>.\<close>

definition ip6_words :: "u8 list \<Rightarrow> u32 list" where
  "ip6_words src =
     map (\<lambda>i. push_bit 8 (ucast (src ! (2 * i))) OR ucast (src ! (2 * i + 1))) [0..<8]"

record zero_run =
  base :: int
  len :: int

definition longer_run :: "zero_run \<Rightarrow> zero_run \<Rightarrow> zero_run" where
  "longer_run best cur = (if base best = -1 \<or> len best < len cur then cur else best)"

text \<open>The loop over the words: the longest run of zeros seen, and the current one.\<close>

fun scan_runs :: "int \<Rightarrow> u32 list \<Rightarrow> zero_run \<Rightarrow> zero_run \<Rightarrow> zero_run \<times> zero_run" where
  "scan_runs i [] best cur = (best, cur)"
| "scan_runs i (w # ws) best cur =
     (if w = 0 then
        (if base cur = -1 then scan_runs (i + 1) ws best \<lparr>base = i, len = 1\<rparr>
         else scan_runs (i + 1) ws best (cur\<lparr>len := len cur + 1\<rparr>))
      else if base cur \<noteq> -1 then
        scan_runs (i + 1) ws (longer_run best cur) (cur\<lparr>base := -1\<rparr>)
      else scan_runs (i + 1) ws best cur)"

definition best_run :: "u32 list \<Rightarrow> zero_run" where
  "best_run ws =
     (let (best, cur) = scan_runs 0 ws \<lparr>base = -1, len = 0\<rparr> \<lparr>base = -1, len = 0\<rparr>;
          best = (if base cur \<noteq> -1 then longer_run best cur else best)
      in if base best \<noteq> -1 \<and> len best < 2 then best\<lparr>base := -1\<rparr> else best)"

definition in_run :: "zero_run \<Rightarrow> nat \<Rightarrow> bool" where
  "in_run best i \<longleftrightarrow> base best \<noteq> -1 \<and> base best \<le> int i \<and> int i < base best + len best"

text \<open>\<open>Is this address an encapsulated IPv4?\<close>\<close>

definition is_v4_tail :: "u32 list \<Rightarrow> zero_run \<Rightarrow> nat \<Rightarrow> bool" where
  "is_v4_tail ws best i \<longleftrightarrow> i = 6 \<and> base best = 0 \<and>
     (len best = 6 \<or> (len best = 7 \<and> ws ! 7 \<noteq> 0x0001) \<or> (len best = 5 \<and> ws ! 5 = 0xffff))"

text \<open>The formatting loop. \<open>tp\<close> is the text in \<open>tmp\<close> so far; the embedded IPv4 address ends it
  (\<open>break\<close>).\<close>

fun ntop6_loop :: "u8 list \<Rightarrow> u32 list \<Rightarrow> zero_run \<Rightarrow> nat list \<Rightarrow> string \<Rightarrow> uv_error + string" where
  "ntop6_loop src ws best [] tp = Inr tp"
| "ntop6_loop src ws best (i # is) tp =
     (if in_run best i then
        ntop6_loop src ws best is (if int i = base best then tp @ '':'' else tp)
      else
        (let tp1 = (if i \<noteq> 0 then tp @ '':'' else tp)
         in if is_v4_tail ws best i then
              (case inet_ntop4 (drop 12 src) (UV__INET6_ADDRSTRLEN - length tp1) of
                 Inl err \<Rightarrow> Inl err
               | Inr s \<Rightarrow> Inr (tp1 @ s))
            else ntop6_loop src ws best is (tp1 @ show_digits 16 (unat (ws ! i)))))"

definition inet_ntop6 :: "u8 list \<Rightarrow> nat \<Rightarrow> uv_error + string" where
  "inet_ntop6 src sz =
     (let ws = ip6_words src; best = best_run ws
      in case ntop6_loop src ws best [0..<8] [] of
           Inl err \<Rightarrow> Inl err
         | Inr tp \<Rightarrow>
             (let tp1 = (if base best \<noteq> -1 \<and> base best + len best = 8 then tp @ '':'' else tp)
              in if sz < length tp1 + 1 then Inl ENOSPC else Inr tp1))"

datatype af = AF_INET | AF_INET6 | AF_OTHER

definition uv_inet_ntop :: "af \<Rightarrow> u8 list \<Rightarrow> nat \<Rightarrow> uv_error + string" where
  "uv_inet_ntop af src sz =
     (case af of AF_INET \<Rightarrow> inet_ntop4 src sz
      | AF_INET6 \<Rightarrow> inet_ntop6 src sz
      | AF_OTHER \<Rightarrow> Inl EAFNOSUPPORT)"

section \<open>Parsing\<close>

text \<open>\<open>strchr\<close>: the index of the first occurrence.\<close>

fun strchr :: "string \<Rightarrow> char \<Rightarrow> nat option" where
  "strchr [] c = None"
| "strchr (x # xs) c = (if x = c then Some 0 else map_option Suc (strchr xs c))"

definition digits :: string where
  "digits = ''0123456789''"

definition xdigits_l :: string where
  "xdigits_l = ''0123456789abcdef''"

definition xdigits_u :: string where
  "xdigits_u = ''0123456789ABCDEF''"

text \<open>The loop of \<open>inet_pton4\<close>. \<open>tmp\<close> holds the bytes up to \<open>*tp\<close>, its last element.\<close>

fun pton4_loop :: "string \<Rightarrow> bool \<Rightarrow> nat \<Rightarrow> u8 list \<Rightarrow> uv_error + u8 list" where
  "pton4_loop [] saw_digit octets tmp = (if octets < 4 then Inl EINVAL else Inr tmp)"
| "pton4_loop (ch # src) saw_digit octets tmp =
     (case strchr digits ch of
        Some pch \<Rightarrow>
          (let nw = unat (last tmp) * 10 + pch
           in if saw_digit \<and> last tmp = 0 then Inl EINVAL
              else if 255 < nw then Inl EINVAL
              else if \<not> saw_digit \<and> 4 < octets + 1 then Inl EINVAL
              else pton4_loop src True (if saw_digit then octets else octets + 1)
                     (butlast tmp @ [of_nat nw]))
      | None \<Rightarrow>
          (if ch = CHR ''.'' \<and> saw_digit then
             (if octets = 4 then Inl EINVAL else pton4_loop src False octets (tmp @ [0]))
           else Inl EINVAL))"

definition inet_pton4 :: "string \<Rightarrow> uv_error + u8 list" where
  "inet_pton4 src = pton4_loop src False 0 [0]"

text \<open>\<open>*tp++ = val >> 8; *tp++ = val\<close>\<close>

definition put_word :: "u8 list \<Rightarrow> u32 \<Rightarrow> u8 list" where
  "put_word tmp val = tmp @ [ucast (drop_bit 8 val), ucast val]"

definition xdigit :: "char \<Rightarrow> nat option" where
  "xdigit ch =
     (case strchr xdigits_l ch of
        Some d \<Rightarrow> Some d
      | None \<Rightarrow> strchr xdigits_u ch)"

text \<open>The loop of \<open>inet_pton6\<close>: the bytes before \<open>tp\<close>, \<open>colonp\<close> as an index into them, the
  current token, the number of hex digits seen and their value. The result is that state at the
  end of the loop, without the token.\<close>

type_synonym pton6_state = "u8 list \<times> nat option \<times> nat \<times> u32"

fun pton6_loop :: "string \<Rightarrow> u8 list \<Rightarrow> nat option \<Rightarrow> string \<Rightarrow> nat \<Rightarrow> u32
    \<Rightarrow> uv_error + pton6_state" where
  "pton6_loop [] tmp colonp curtok seen val = Inr (tmp, colonp, seen, val)"
| "pton6_loop (ch # src) tmp colonp curtok seen val =
     (case xdigit ch of
        Some d \<Rightarrow>
          (if 4 < seen + 1 then Inl EINVAL
           else pton6_loop src tmp colonp curtok (seen + 1) (push_bit 4 val OR of_nat d))
      | None \<Rightarrow>
          if ch = CHR '':'' then
            (if seen = 0 then
               (if colonp \<noteq> None then Inl EINVAL
                else pton6_loop src tmp (Some (length tmp)) src seen val)
             else if src = [] then Inl EINVAL
             else if 16 < length tmp + 2 then Inl EINVAL
             else pton6_loop src (put_word tmp val) colonp src 0 0)
          else if ch = CHR ''.'' \<and> length tmp + 4 \<le> 16 then
            (case inet_pton4 curtok of
               Inr bytes \<Rightarrow> Inr (tmp @ bytes, colonp, 0, val)
             | Inl _ \<Rightarrow> Inl EINVAL)
          else Inl EINVAL)"

text \<open>The shift by hand: \<open>for (i = 1; i <= n; i++) { endp[-i] = colonp[n-i]; colonp[n-i] = 0; }\<close>\<close>

fun shift_loop :: "nat list \<Rightarrow> nat \<Rightarrow> nat \<Rightarrow> u8 list \<Rightarrow> u8 list" where
  "shift_loop [] c n buf = buf"
| "shift_loop (i # is) c n buf =
     shift_loop is c n ((buf[16 - i := buf ! (c + (n - i))])[c + (n - i) := 0])"

text \<open>After the loop: the last group is stored, the bytes after \<open>::\<close> move to the end.\<close>

definition pton6_finish :: "pton6_state \<Rightarrow> uv_error + u8 list" where
  "pton6_finish st =
     (let (tmp, colonp, seen, val) = st
      in if seen \<noteq> 0 \<and> 16 < length tmp + 2 then Inl EINVAL
         else
           (let tmp = (if seen \<noteq> 0 then put_word tmp val else tmp)
            in case colonp of
                 Some c \<Rightarrow>
                   if length tmp = 16 then Inl EINVAL
                   else Inr (shift_loop [1..<length tmp - c + 1] c (length tmp - c)
                               (tmp @ replicate (16 - length tmp) 0))
               | None \<Rightarrow> if length tmp \<noteq> 16 then Inl EINVAL else Inr tmp))"

definition inet_pton6 :: "string \<Rightarrow> uv_error + u8 list" where
  "inet_pton6 src =
     (if take 1 src = '':'' \<and> take 1 (tl src) \<noteq> '':'' then Inl EINVAL
      else
        (let src = (if take 1 src = '':'' then tl src else src)
         in case pton6_loop src [] None src 0 0 of
              Inl err \<Rightarrow> Inl err
            | Inr st \<Rightarrow> pton6_finish st))"

text \<open>A zone (\<open>%...\<close>) is cut off an IPv6 address. \<open>NULL\<close> for either pointer is \<open>None\<close>; the
  destination is a pointer the caller passes.\<close>

definition uv_inet_pton :: "af \<Rightarrow> string option \<Rightarrow> bool \<Rightarrow> uv_error + u8 list" where
  "uv_inet_pton af src dst_is_null =
     (case src of
        None \<Rightarrow> Inl EINVAL
      | Some src \<Rightarrow>
          if dst_is_null then Inl EINVAL
          else case af of
            AF_INET \<Rightarrow> inet_pton4 src
          | AF_INET6 \<Rightarrow>
              (case strchr src (CHR ''%'') of
                 Some p \<Rightarrow>
                   if UV__INET6_ADDRSTRLEN - 1 < p then Inl EINVAL
                   else inet_pton6 (take p src)
               | None \<Rightarrow> inet_pton6 src)
          | AF_OTHER \<Rightarrow> Inl EAFNOSUPPORT)"

section \<open>Socket addresses\<close>

record sockaddr =
  family :: af
  port :: u16
  addr :: "u8 list"
  scope_id :: u32

text \<open>\<open>htons\<close> on the little-endian machines the program runs on.\<close>

definition htons :: "u16 \<Rightarrow> u16" where
  "htons p = push_bit 8 p OR drop_bit 8 p"

text \<open>The structure is cleared and its family and port set before the address is parsed, so a
  failing call leaves those. The result is the error code with the structure.\<close>

definition uv_ip4_addr :: "string \<Rightarrow> int \<Rightarrow> rc \<times> sockaddr" where
  "uv_ip4_addr ip p =
     (let a = \<lparr>family = AF_INET, port = htons (word_of_int p), addr = replicate 4 0, scope_id = 0\<rparr>
      in case uv_inet_pton AF_INET (Some ip) False of
           Inl e \<Rightarrow> (Fail e, a)
         | Inr bytes \<Rightarrow> (OK, a\<lparr>addr := bytes\<rparr>))"

text \<open>\<open>scope\<close> is \<open>atoi\<close> on Windows and \<open>if_nametoindex\<close> elsewhere.\<close>

definition uv_ip6_addr :: "(string \<Rightarrow> u32) \<Rightarrow> string \<Rightarrow> int \<Rightarrow> rc \<times> sockaddr" where
  "uv_ip6_addr scope ip p =
     (let a = \<lparr>family = AF_INET6, port = htons (word_of_int p), addr = replicate 16 0, scope_id = 0\<rparr>;
          (ip, a) =
            (case strchr ip (CHR ''%'') of
               Some z \<Rightarrow>
                 (let address_part_size = (if 40 \<le> z then 40 - 1 else z)
                  in (take address_part_size ip, a\<lparr>scope_id := scope (drop (z + 1) ip)\<rparr>))
             | None \<Rightarrow> (ip, a))
      in case uv_inet_pton AF_INET6 (Some ip) False of
           Inl e \<Rightarrow> (Fail e, a)
         | Inr bytes \<Rightarrow> (OK, a\<lparr>addr := bytes\<rparr>))"

definition uv_ip4_name :: "sockaddr \<Rightarrow> nat \<Rightarrow> uv_error + string" where
  "uv_ip4_name src sz = uv_inet_ntop AF_INET (addr src) sz"

definition uv_ip6_name :: "sockaddr \<Rightarrow> nat \<Rightarrow> uv_error + string" where
  "uv_ip6_name src sz = uv_inet_ntop AF_INET6 (addr src) sz"

end
