(* ===== verification/Uv_Inet_Roundtrip.thy ===== *)
theory Uv_Inet_Roundtrip
  imports Uv_Inet
begin

text \<open>
  What \<open>Uv_Inet\<close> prints it parses: the steps of the two parsers on digits, groups and separators,
  the longest run of zeros that \<open>inet_ntop6\<close> abbreviates, the printed form for every place of that
  run and for embedded IPv4 addresses, and the sizes of what is parsed. The last section states
  the contract of the address helpers as a locale and interprets it for both families.
\<close>

unbundle bit_operations_syntax

section \<open>Digits\<close>

lemma strchr_digit [simp]: "d < 10 \<Longrightarrow> strchr digits (digit_char d) = Some d"
proof -
  have "\<forall>d \<in> set [0..<10]. strchr digits (digit_char d) = Some d" by code_simp
  then show "d < 10 \<Longrightarrow> strchr digits (digit_char d) = Some d" by simp
qed

lemma xdigit_digit [simp]: "d < 16 \<Longrightarrow> xdigit (digit_char d) = Some d"
proof -
  have "\<forall>d \<in> set [0..<16]. xdigit (digit_char d) = Some d" by code_simp
  then show "d < 16 \<Longrightarrow> xdigit (digit_char d) = Some d" by simp
qed

lemma xdigit_punctuation [simp]: "xdigit (CHR '':'') = None" "xdigit (CHR ''.'') = None"
  "strchr digits (CHR ''.'') = None"
  by code_simp+

lemma digit_char_colon [simp]: "d < 16 \<Longrightarrow> digit_char d \<noteq> CHR '':''"
  by (metis xdigit_digit xdigit_punctuation(1) option.distinct(1))

lemma digit_char_dot [simp]: "d < 16 \<Longrightarrow> digit_char d \<noteq> CHR ''.''"
  by (metis xdigit_digit xdigit_punctuation(2) option.distinct(1))

lemma show_digits_ne [simp]: "show_digits b n \<noteq> []"
  by (subst show_digits.simps) simp

section \<open>IPv4\<close>

lemma pton4_first:
  "d < 10 \<Longrightarrow> k < 4 \<Longrightarrow>
   pton4_loop (digit_char d # r) False k (t @ [0]) = pton4_loop r True (Suc k) (t @ [of_nat d])"
  by simp

lemma pton4_next:
  assumes "d < 10" "0 < m" "m * 10 + d < 256"
  shows "pton4_loop (digit_char d # r) True k (t @ [of_nat m]) =
    pton4_loop r True k (t @ [of_nat (m * 10 + d)])"
proof -
  have u: "unat (of_nat m :: u8) = m" using assms by (simp add: unat_of_nat take_bit_nat_eq_self)
  then have "(of_nat m :: u8) \<noteq> 0" using assms(2) by (metis unat_0 less_irrefl)
  with u assms show ?thesis by simp
qed

lemma pton4_octet:
  assumes "n < 256" "k < 4"
  shows "pton4_loop (show_digits 10 n @ r) False k (t @ [0]) =
    pton4_loop r True (Suc k) (t @ [of_nat n])"
proof -
  consider "n < 10" | "10 \<le> n" "n < 100" | "100 \<le> n" by linarith
  then show ?thesis
  proof cases
    case 1
    then show ?thesis using assms(2) pton4_first by (simp add: show_digits_small)
  next
    case 2
    then have "n div 10 < 10" by simp
    with 2 assms show ?thesis
      using pton4_next[of "n mod 10" "n div 10" r "Suc k" t] pton4_first[of "n div 10" k _ t]
      by (simp add: show_digits_small show_digits_step)
  next
    case 3
    let ?a = "n div 10 div 10" and ?b = "n div 10 mod 10" and ?c = "n mod 10"
    have n: "?a < 10" "0 < ?a" "?a * 10 + ?b = n div 10" "n div 10 * 10 + ?c = n" "10 \<le> n div 10"
      "0 < n div 10" using 3 assms(1) by auto
    have s: "show_digits 10 n = [digit_char ?a, digit_char ?b, digit_char ?c]"
      using 3 n(1,5) by (simp add: show_digits_step show_digits_small)
    have "?a * 10 + ?b < 256" "n div 10 * 10 + ?c < 256" using n(3,4) assms(1) by linarith+
    then show ?thesis
      using pton4_next[of ?b ?a "digit_char ?c # r" "Suc k" t] pton4_next[of ?c "n div 10" r "Suc k" t]
        pton4_first[OF n(1) assms(2), of "digit_char ?b # digit_char ?c # r" t] n
      by (simp only: s append_Cons append_Nil) simp
  qed
qed

lemma pton4_dot: "k < 4 \<Longrightarrow> pton4_loop (CHR ''.'' # r) True k t = pton4_loop r False k (t @ [0])"
  by simp

lemma unat_u8_less [simp]: "unat (b :: u8) < 256"
proof -
  have "unat b < 2 ^ LENGTH(8)" by (rule unsigned_less)
  then show ?thesis by simp
qed

lemma inet_pton4_format:
  assumes "length bs = 4"
  shows "inet_pton4 (format_ip4 bs) = Inr bs"
proof -
  from assms obtain a b c d where bs: "bs = [a, b, c, d]"
    by (auto simp: length_Suc_conv eval_nat_numeral)
  have "pton4_loop (show_digits 10 (unat a) @ CHR ''.'' # show_digits 10 (unat b) @ CHR ''.'' #
      show_digits 10 (unat c) @ CHR ''.'' # show_digits 10 (unat d) @ []) False 0 ([] @ [0]) = Inr [a, b, c, d]"
    by (subst pton4_octet, simp, simp, subst pton4_dot, simp)+ (subst pton4_octet, simp, simp, simp)
  then show ?thesis by (simp add: inet_pton4_def format_ip4_def bs)
qed

lemma length_format_ip4: "0 < length (format_ip4 bs) \<and> length (format_ip4 bs) \<le> 15"
proof -
  have "length (show_digits 10 (unat (b :: u8))) \<le> Suc 2" for b
    by (rule length_show_digits_le) (use unat_u8_less[of b] in \<open>simp_all del: unat_u8_less\<close>)
  then have "length (show_digits 10 (unat (bs ! i))) \<le> 3" for i by (simp add: eval_nat_numeral)
  from this[of 0] this[of 1] this[of 2] this[of 3] show ?thesis by (simp add: format_ip4_def)
qed

lemma inet_ntop4_eq:
  "inet_ntop4 bs n = (if length (format_ip4 bs) < n then Inr (format_ip4 bs) else Inl ENOSPC)"
  using length_format_ip4[of bs]
  by (auto simp: inet_ntop4_def UV__INET_ADDRSTRLEN_def)

section \<open>IPv6: groups\<close>

abbreviation (input) hex :: "u32 \<Rightarrow> string" where
  "hex w \<equiv> show_digits 16 (unat w)"

lemma not_bit_small:
  assumes "d < (16::nat)" "4 \<le> n"
  shows "\<not> bit d n"
proof -
  have "(2::nat) ^ 4 \<le> 2 ^ n" using assms(2) by (rule power_increasing) simp
  then have "d div 2 ^ n = 0" using assms(1) by simp
  then show ?thesis by (simp add: bit_iff_odd)
qed

lemma push_or_digit:
  assumes "unat v < 2 ^ 12" "d < 16"
  shows "unat (push_bit 4 v OR of_nat d :: u32) = unat v * 16 + d"
proof -
  have p: "unat (push_bit 4 v :: u32) = unat v * 16"
    using assms(1) by (simp add: push_bit_eq_mult unat_mult_lem[THEN iffD1])
  have o: "push_bit 4 v OR of_nat d = (push_bit 4 v + of_nat d :: u32)"
    using not_bit_small[OF assms(2)]
    by (intro disjunctive_add[symmetric]) (auto simp: bit_simps)
  show ?thesis
    unfolding o using assms p
    by (subst unat_add_lem[THEN iffD1]) (simp_all add: unat_of_nat take_bit_nat_eq_self)
qed

lemma pton6_digits:
  assumes "\<forall>d \<in> set ds. d < 16" "length ds + s \<le> 4" "unat v < 16 ^ s"
  shows "\<exists>v'. pton6_loop (map digit_char ds @ r) t c cur s v = pton6_loop r t c cur (s + length ds) v' \<and>
    unat v' = foldl (\<lambda>n d. n * 16 + d) (unat v) ds"
  using assms
proof (induction ds arbitrary: s v)
  case Nil
  then show ?case by auto
next
  case (Cons d ds)
  let ?v = "push_bit 4 v OR of_nat d :: u32"
  have "unat v < 2 ^ 12"
  proof -
    have "s \<le> 3" using Cons.prems(2) by simp
    then have "(16::nat) ^ s \<le> 16 ^ 3" by (rule power_increasing) simp
    with Cons.prems(3) show ?thesis by simp
  qed
  then have v: "unat ?v = unat v * 16 + d" using Cons.prems(1) by (intro push_or_digit) auto
  then have "unat ?v < 16 ^ (s + 1)" using Cons.prems(1,3) by simp
  with Cons.IH[of "s + 1" ?v] Cons.prems v show ?case by simp
qed

lemma show_digits_foldl:
  "2 \<le> b \<Longrightarrow> \<exists>ds. show_digits b n = map digit_char ds \<and> (\<forall>d \<in> set ds. d < b) \<and>
    foldl (\<lambda>n d. n * b + d) 0 ds = n"
proof (induction b n rule: show_digits.induct)
  case (1 b n)
  show ?case
  proof (cases "n < b \<or> b < 2")
    case True
    then have "n < b" using 1(2) by auto
    then show ?thesis by (intro exI[of _ "[n]"]) (simp add: show_digits_small)
  next
    case False
    with 1 obtain ds where "show_digits b (n div b) = map digit_char ds" "\<forall>d \<in> set ds. d < b"
      "foldl (\<lambda>n d. n * b + d) 0 ds = n div b" by auto
    with False show ?thesis
      by (intro exI[of _ "ds @ [n mod b]"]) (simp add: show_digits_step)
  qed
qed

lemma pton6_group:
  assumes "unat w < 2 ^ 16"
  shows "pton6_loop (hex w @ r) t c cur 0 0 = pton6_loop r t c cur (length (hex w)) w"
proof -
  obtain ds where ds: "hex w = map digit_char ds" "\<forall>d \<in> set ds. d < 16"
      "foldl (\<lambda>n d. n * 16 + d) 0 ds = unat w"
    using show_digits_foldl[of 16 "unat w"] by auto
  have "length (hex w) \<le> Suc 3" by (rule length_show_digits_le) (use assms in simp_all)
  then have "length ds + 0 \<le> 4" using ds(1) by simp
  from pton6_digits[OF ds(2) this, of 0 r t c cur] ds(3) obtain v where
    v: "pton6_loop (map digit_char ds @ r) t c cur 0 0 = pton6_loop r t c cur (0 + length ds) v"
      "unat v = unat w" by auto
  from v(2) have "v = w" by (simp only: word_unat_eq_iff)
  with v(1) ds(1) show ?thesis by simp
qed

abbreviation (input) word_of :: "u8 \<Rightarrow> u8 \<Rightarrow> u32" where
  "word_of a b \<equiv> push_bit 8 (ucast a) OR ucast b"

lemma word_of_bytes [simp]:
  "(ucast (drop_bit 8 (word_of a b)) :: u8) = a" "(ucast (word_of a b) :: u8) = b"
  by (intro bit_word_eqI; auto simp: bit_simps dest: bit_imp_le_length)+

lemma word_of_less: "unat (word_of a b) < 2 ^ 16"
proof -
  let ?w = "word_of a b"
  have lt: "n < 16" if "bit ?w n" for n
    using that bit_imp_le_length[of a "n - 8"] bit_imp_le_length[of b n]
    by (auto simp: bit_simps)
  have w: "take_bit 16 ?w = ?w"
    by (rule bit_word_eqI) (use lt in \<open>auto simp only: bit_take_bit_iff\<close>)
  have "unat (take_bit 16 ?w) = take_bit 16 (unat ?w)" by (rule unsigned_take_bit_eq)
  then show ?thesis using take_bit_nat_less_exp[of 16 "unat ?w"] by (simp only: w)
qed

lemma put_word_of [simp]: "put_word t (word_of a b) = t @ [a, b]"
  by (simp only: put_word_def word_of_bytes)

lemma word_of_0: "word_of a b = 0 \<longleftrightarrow> a = 0 \<and> b = 0"
proof
  assume "word_of a b = 0"
  then show "a = 0 \<and> b = 0" using word_of_bytes[of a b] by (metis drop_bit_of_0 unsigned_0)
qed simp

section \<open>IPv6: the longest run of zeros\<close>

definition zeros :: "u32 list \<Rightarrow> int \<Rightarrow> int \<Rightarrow> bool" where
  "zeros ws b n \<longleftrightarrow> 0 \<le> b \<and> 0 < n \<and> b + n \<le> int (length ws) \<and>
     (\<forall>i. b \<le> int i \<and> int i < b + n \<longrightarrow> ws ! i = 0)"

definition starts_run :: "u32 list \<Rightarrow> int \<Rightarrow> bool" where
  "starts_run ws b \<longleftrightarrow> b = 0 \<or> ws ! nat (b - 1) \<noteq> 0"

text \<open>After \<open>i\<close> words: \<open>best\<close> and \<open>cur\<close> are runs of zeros if they are set, \<open>cur\<close> ends at \<open>i\<close>
  and cannot be extended to the left, and every run in the first \<open>i\<close> words is no longer than
  \<open>best\<close> or a part of \<open>cur\<close>.\<close>

definition scan_inv :: "u32 list \<Rightarrow> int \<Rightarrow> zero_run \<Rightarrow> zero_run \<Rightarrow> bool" where
  "scan_inv ws i best cur \<longleftrightarrow>
     (base best \<noteq> -1 \<longrightarrow> zeros ws (base best) (len best)) \<and>
     (base cur \<noteq> -1 \<longrightarrow> zeros ws (base cur) (len cur) \<and> base cur + len cur = i) \<and>
     starts_run ws (if base cur = -1 then i else base cur) \<and>
     (\<forall>b n. zeros ws b n \<and> b + n \<le> i \<longrightarrow>
        (base best \<noteq> -1 \<and> n \<le> len best) \<or> (base cur \<noteq> -1 \<and> base cur \<le> b))"

lemma zeros_at: "zeros ws b n \<Longrightarrow> b \<le> i \<Longrightarrow> i < b + n \<Longrightarrow> ws ! nat i = 0"
  unfolding zeros_def by (metis int_nat_eq order_trans)

lemma zeros_shorter: "zeros ws b n \<Longrightarrow> 0 < m \<Longrightarrow> m \<le> n \<Longrightarrow> zeros ws b m"
  by (auto simp: zeros_def)

lemma zeros_snoc:
  "zeros ws b n \<Longrightarrow> ws ! nat (b + n) = 0 \<Longrightarrow> b + n < int (length ws) \<Longrightarrow> zeros ws b (n + 1)"
  unfolding zeros_def
  by (smt (verit, best) nat_int)

lemma starts_runD:
  assumes "starts_run ws c" "zeros ws b n" "c < b + n"
  shows "c \<le> b"
proof (rule ccontr)
  assume "\<not> c \<le> b"
  moreover have "0 \<le> b" using assms(2) by (simp add: zeros_def)
  ultimately show False
    using assms(1,3) zeros_at[OF assms(2), of "c - 1"] by (auto simp: starts_run_def)
qed

lemma scan_step_zero:
  assumes inv: "scan_inv ws i best cur" and i: "0 \<le> i" "i < int (length ws)" and w: "ws ! nat i = 0"
  shows "scan_inv ws (i + 1) best
    (if base cur = -1 then \<lparr>base = i, len = 1\<rparr> else cur\<lparr>len := len cur + 1\<rparr>)"
proof -
  let ?c = "if base cur = -1 then \<lparr>base = i, len = 1\<rparr> else cur\<lparr>len := len cur + 1\<rparr>"
  let ?b = "if base cur = -1 then i else base cur"
  have s: "starts_run ws ?b" using inv by (simp add: scan_inv_def)
  have z1: "zeros ws i 1" using i w by (auto simp: zeros_def)
  have zc: "zeros ws (base ?c) (len ?c) \<and> base ?c + len ?c = i + 1"
    using inv z1 zeros_snoc[of ws "base cur" "len cur"] i w by (auto simp: scan_inv_def)
  have max: "(base best \<noteq> -1 \<and> n \<le> len best) \<or> base ?c \<le> b" if "zeros ws b n" "b + n \<le> i + 1" for b n
  proof (cases "b + n = i + 1")
    case True
    have "?b < b + n" using True inv i by (auto simp: scan_inv_def zeros_def)
    from starts_runD[OF s that(1) this] show ?thesis by (simp split: if_splits)
  next
    case False
    then have "b + n \<le> i" using that(2) by simp
    then show ?thesis using inv that(1) by (auto simp: scan_inv_def)
  qed
  have b0: "base ?c \<noteq> -1" using i by simp
  show ?thesis unfolding scan_inv_def using s zc max b0 inv by (auto simp: scan_inv_def)
qed

lemma scan_step_nonzero:
  assumes inv: "scan_inv ws i best cur" and i: "0 \<le> i" and w: "ws ! nat i \<noteq> 0"
  shows "scan_inv ws (i + 1) (if base cur = -1 then best else longer_run best cur) (cur\<lparr>base := -1\<rparr>)"
proof -
  define B where "B = (if base cur = -1 then best else longer_run best cur)"
  have "base B \<noteq> -1 \<longrightarrow> zeros ws (base B) (len B)"
    using inv by (auto simp: scan_inv_def longer_run_def B_def)
  moreover have "starts_run ws (i + 1)" using w by (simp add: starts_run_def)
  moreover have "base B \<noteq> -1 \<and> n \<le> len B" if z: "zeros ws b n" "b + n \<le> i + 1" for b n
  proof -
    have "b + n \<noteq> i + 1"
      using zeros_at[OF z(1), of i] w z by (auto simp: zeros_def)
    then have "b + n \<le> i" using z(2) by simp
    then have "(base best \<noteq> -1 \<and> n \<le> len best) \<or> (base cur \<noteq> -1 \<and> base cur \<le> b)"
      using inv z(1) by (auto simp: scan_inv_def)
    moreover have "base cur \<noteq> -1 \<Longrightarrow> base cur + len cur = i" using inv by (auto simp: scan_inv_def)
    ultimately show ?thesis using \<open>b + n \<le> i\<close> by (auto simp: longer_run_def B_def)
  qed
  ultimately have "scan_inv ws (i + 1) B (cur\<lparr>base := -1\<rparr>)" by (auto simp: scan_inv_def)
  then show ?thesis by (simp only: B_def)
qed

lemma scan_runs_inv:
  assumes "scan_inv (pre @ ws) (int (length pre)) best cur"
    and "scan_runs (int (length pre)) ws best cur = (best', cur')"
  shows "scan_inv (pre @ ws) (int (length (pre @ ws))) best' cur'"
  using assms
proof (induction ws arbitrary: pre best cur)
  case Nil
  then show ?case by simp
next
  case (Cons w ws)
  have n: "nat (int (length pre)) = length pre" "(pre @ w # ws) ! length pre = w" by simp_all
  note IH = Cons.IH[of "pre @ [w]"]
  show ?case
  proof (cases "w = 0")
    case True
    from scan_step_zero[OF Cons.prems(1)] True
    have "scan_inv (pre @ w # ws) (int (length pre) + 1) best
        (if base cur = -1 then \<lparr>base = int (length pre), len = 1\<rparr> else cur\<lparr>len := len cur + 1\<rparr>)"
      by simp
    then show ?thesis using IH Cons.prems(2) True by (auto simp: add.commute split: if_splits)
  next
    case False
    from scan_step_nonzero[OF Cons.prems(1)] False
    have s: "scan_inv (pre @ w # ws) (int (length pre) + 1)
        (if base cur = -1 then best else longer_run best cur) (cur\<lparr>base := -1\<rparr>)" by simp
    show ?thesis
    proof (cases "base cur = -1")
      case True
      then obtain l where "cur = \<lparr>base = -1, len = l\<rparr>" by (cases cur) simp
      then show ?thesis using s IH[of best cur] Cons.prems(2) False by (simp add: add.commute)
    next
      case cur: False
      then show ?thesis using s IH Cons.prems(2) False by (simp add: add.commute)
    qed
  qed
qed

lemma best_run_spec:
  assumes "best = best_run ws"
  shows "base best = -1 \<and> (\<forall>b n. zeros ws b n \<longrightarrow> n < 2) \<or>
    zeros ws (base best) (len best) \<and> 2 \<le> len best \<and> (\<forall>b n. zeros ws b n \<longrightarrow> n \<le> len best)"
proof -
  obtain b c where bc: "scan_runs 0 ws \<lparr>base = -1, len = 0\<rparr> \<lparr>base = -1, len = 0\<rparr> = (b, c)" by fastforce
  have "scan_inv ws 0 \<lparr>base = -1, len = 0\<rparr> \<lparr>base = -1, len = 0\<rparr>"
    by (auto simp: scan_inv_def starts_run_def zeros_def)
  from scan_runs_inv[of "[]" ws _ _ b c] this bc have inv: "scan_inv ws (int (length ws)) b c" by simp
  let ?b = "if base c \<noteq> -1 then longer_run b c else b"
  have z: "base ?b \<noteq> -1 \<longrightarrow> zeros ws (base ?b) (len ?b)"
    using inv by (auto simp: scan_inv_def longer_run_def)
  have m: "base ?b \<noteq> -1 \<and> n \<le> len ?b" if "zeros ws k n" for k n
  proof -
    have "k + n \<le> int (length ws)" using that by (simp add: zeros_def)
    then have "(base b \<noteq> -1 \<and> n \<le> len b) \<or> (base c \<noteq> -1 \<and> base c \<le> k)"
      and "base c \<noteq> -1 \<Longrightarrow> base c + len c = int (length ws)"
      using inv that by (auto simp: scan_inv_def)
    then show ?thesis using \<open>k + n \<le> int (length ws)\<close> by (auto simp: longer_run_def)
  qed
  have "best = (if base ?b \<noteq> -1 \<and> len ?b < 2 then ?b\<lparr>base := -1\<rparr> else ?b)"
    using assms bc by (simp add: best_run_def Let_def)
  with z m show ?thesis by (smt (verit) zero_run.select_convs zero_run.update_convs zero_run.surjective)
qed


section \<open>IPv6: what is printed parses\<close>

lemma hex_ne_colon [simp]: "take 1 (hex w @ r) \<noteq> '':''"
proof -
  obtain ds where ds: "hex w = map digit_char ds" "\<forall>d \<in> set ds. d < 16"
    using show_digits_foldl[of 16 "unat w"] by auto
  show ?thesis
  proof (cases ds)
    case Nil
    with ds(1) show ?thesis by simp
  next
    case (Cons d ds')
    with ds show ?thesis by simp
  qed
qed

lemma pton6_colon:
  assumes "r \<noteq> []" "length t + 2 \<le> 16" "0 < s"
  shows "pton6_loop (CHR '':'' # r) t c cur s v = pton6_loop r (put_word t v) c r 0 0"
  using assms by simp

lemma pton6_double_colon:
  "pton6_loop (CHR '':'' # r) t None cur 0 v = pton6_loop r t (Some (length t)) r 0 v"
  by simp

lemma pton6_v4:
  assumes "length bs = 4" "length t + 4 \<le> 16"
  shows "\<exists>v. pton6_loop (format_ip4 bs) t c (format_ip4 bs) 0 0 = Inr (t @ bs, c, 0, v)"
proof -
  let ?n = "unat (bs ! 0)"
  define r where "r = show_digits 10 (unat (bs ! 1)) @ ''.'' @
     show_digits 10 (unat (bs ! 2)) @ ''.'' @ show_digits 10 (unat (bs ! 3))"
  obtain ds where ds: "show_digits 10 ?n = map digit_char ds" "\<forall>d \<in> set ds. d < 10"
    using show_digits_foldl[of 10 ?n] by auto
  have "length (show_digits 10 ?n) \<le> Suc 2"
    by (rule length_show_digits_le) (use unat_u8_less[of "bs ! 0"] in \<open>simp_all del: unat_u8_less\<close>)
  then have "length ds + 0 \<le> 4" "\<forall>d \<in> set ds. d < 16" using ds by auto
  from pton6_digits[OF this(2,1), of 0 "''.'' @ r" t c "format_ip4 bs"] obtain v where
    "pton6_loop (map digit_char ds @ ''.'' @ r) t c (format_ip4 bs) 0 0 =
     pton6_loop (''.'' @ r) t c (format_ip4 bs) (0 + length ds) v" by auto
  moreover have "format_ip4 bs = map digit_char ds @ ''.'' @ r"
    by (simp add: format_ip4_def r_def ds(1))
  ultimately show ?thesis using assms inet_pton4_format[OF assms(1)] by simp
qed

definition bytes_of :: "u32 list \<Rightarrow> u8 list" where
  "bytes_of ws = concat (map (put_word []) ws)"

lemma ip6_words_bytes:
  assumes "length src = 16"
  shows "bytes_of (ip6_words src) = src" "length (ip6_words src) = 8"
    "\<forall>w \<in> set (ip6_words src). unat w < 2 ^ 16" "drop 12 src = bytes_of (drop 6 (ip6_words src))"
proof -
  obtain a0 a1 a2 a3 a4 a5 a6 a7 a8 a9 a10 a11 a12 a13 a14 a15 where
    s: "src = [a0, a1, a2, a3, a4, a5, a6, a7, a8, a9, a10, a11, a12, a13, a14, a15]"
    using assms by (auto simp: length_Suc_conv eval_nat_numeral)
  have w: "ip6_words src = [word_of a0 a1, word_of a2 a3, word_of a4 a5, word_of a6 a7,
      word_of a8 a9, word_of a10 a11, word_of a12 a13, word_of a14 a15]"
    by (simp add: ip6_words_def s upt_rec)
  show "bytes_of (ip6_words src) = src" "drop 12 src = bytes_of (drop 6 (ip6_words src))"
    by (simp_all only: w) (simp_all add: bytes_of_def s del: ucast_drop_bit_eq)
  show "length (ip6_words src) = 8" by (simp add: w)
  show "\<forall>w \<in> set (ip6_words src). unat w < 2 ^ 16"
    unfolding w using word_of_less by simp
qed


lemma pton6_group_end:
  assumes "unat w < 2 ^ 16"
  shows "pton6_loop (hex w) t c cur 0 0 = Inr (t, c, length (hex w), w)"
  using pton6_group[OF assms, of "[]"] by simp

lemma pton6_nil: "pton6_loop [] t c cur s v = Inr (t, c, s, v)"
  by simp

lemmas parse_ip6 = pton6_group pton6_group_end pton6_colon pton6_double_colon pton6_nil
  put_word_def bytes_of_def


lemma replicate_numeral_Cons: "replicate (numeral k) x = x # replicate (pred_numeral k) x"
  by (simp add: numeral_eq_Suc)

lemma upt_0_8: "[0..<8] = [0, 1, 2, 3, 4, 5, 6, 7 :: nat]"
  by (simp add: upt_rec)

text \<open>What the loop does with each index, for a run at a concrete place.\<close>

definition prints_back :: "u8 list \<Rightarrow> u32 list \<Rightarrow> zero_run \<Rightarrow> bool" where
  "prints_back src ws best \<longleftrightarrow>
     (\<exists>tp. ntop6_loop src ws best [0..<8] [] = Inr tp \<and>
        length tp \<le> 44 \<and>
        inet_pton6 (if base best \<noteq> -1 \<and> base best + len best = 8 then tp @ '':'' else tp)
          = Inr (bytes_of ws))"

lemma length_hex: "unat w < 2 ^ 16 \<Longrightarrow> length (hex w) \<le> 4"
  using length_show_digits_le[of 16 "unat w" 3] by simp

lemmas ntop6_eval = prints_back_def upt_0_8 in_run_def is_v4_tail_def inet_pton6_def pton6_finish_def Let_def parse_ip6
  hex_ne_colon[simplified] upt_rec replicate_numeral_Cons show_digits_small[of 0]

lemma prints_back_none:
  assumes "\<forall>w \<in> {w0, w1, w2, w3, w4, w5, w6, w7}. unat w < 2 ^ 16" "base best = -1"
  shows "prints_back src [w0, w1, w2, w3, w4, w5, w6, w7] best"
proof -
  have "\<forall>w \<in> {w0, w1, w2, w3, w4, w5, w6, w7}. length (hex w) \<le> 4" using assms(1) length_hex by blast
  then show ?thesis using assms by (simp add: ntop6_eval del: pton6_loop.simps)
qed

lemma zeros_ix:
  assumes "zeros [w0, w1, w2, w3, w4, w5, w6, w7] b n"
  shows "\<forall>i \<in> {0..<8}. b \<le> int i \<and> int i < b + n \<longrightarrow> [w0, w1, w2, w3, w4, w5, w6, w7] ! i = 0"
  using assms by (auto simp: zeros_def)

lemmas ix_simps = atLeast0LessThan lessThan_nat_numeral lessThan_Suc

lemma prints_back_1:
  assumes "\<forall>w \<in> {w0, w1, w2, w3, w4, w5, w6, w7}. unat w < 2 ^ 16" "base best = 1"
    "zeros [w0, w1, w2, w3, w4, w5, w6, w7] 1 (len best)" "2 \<le> len best"
  shows "prints_back src [w0, w1, w2, w3, w4, w5, w6, w7] best"
proof -
  note z = zeros_ix[OF assms(3)]
  have l: "\<forall>w \<in> {w0, w1, w2, w3, w4, w5, w6, w7}. length (hex w) \<le> 4"
    using assms(1) length_hex by blast
  have "len best \<in> {2, 3, 4, 5, 6, 7}" using assms(3,4) by (auto simp: zeros_def)
  then show ?thesis
    using z l assms(1,2)
    by (elim insertE emptyE) (simp_all add: ntop6_eval ix_simps del: pton6_loop.simps)
qed

lemma prints_back_2:
  assumes "\<forall>w \<in> {w0, w1, w2, w3, w4, w5, w6, w7}. unat w < 2 ^ 16" "base best = 2"
    "zeros [w0, w1, w2, w3, w4, w5, w6, w7] 2 (len best)" "2 \<le> len best"
  shows "prints_back src [w0, w1, w2, w3, w4, w5, w6, w7] best"
proof -
  note z = zeros_ix[OF assms(3)]
  have l: "\<forall>w \<in> {w0, w1, w2, w3, w4, w5, w6, w7}. length (hex w) \<le> 4"
    using assms(1) length_hex by blast
  have "len best \<in> {2, 3, 4, 5, 6}" using assms(3,4) by (auto simp: zeros_def)
  then show ?thesis
    using z l assms(1,2)
    by (elim insertE emptyE) (simp_all add: ntop6_eval ix_simps del: pton6_loop.simps)
qed

lemma prints_back_3:
  assumes "\<forall>w \<in> {w0, w1, w2, w3, w4, w5, w6, w7}. unat w < 2 ^ 16" "base best = 3"
    "zeros [w0, w1, w2, w3, w4, w5, w6, w7] 3 (len best)" "2 \<le> len best"
  shows "prints_back src [w0, w1, w2, w3, w4, w5, w6, w7] best"
proof -
  note z = zeros_ix[OF assms(3)]
  have l: "\<forall>w \<in> {w0, w1, w2, w3, w4, w5, w6, w7}. length (hex w) \<le> 4"
    using assms(1) length_hex by blast
  have "len best \<in> {2, 3, 4, 5}" using assms(3,4) by (auto simp: zeros_def)
  then show ?thesis
    using z l assms(1,2)
    by (elim insertE emptyE) (simp_all add: ntop6_eval ix_simps del: pton6_loop.simps)
qed

lemma prints_back_4:
  assumes "\<forall>w \<in> {w0, w1, w2, w3, w4, w5, w6, w7}. unat w < 2 ^ 16" "base best = 4"
    "zeros [w0, w1, w2, w3, w4, w5, w6, w7] 4 (len best)" "2 \<le> len best"
  shows "prints_back src [w0, w1, w2, w3, w4, w5, w6, w7] best"
proof -
  note z = zeros_ix[OF assms(3)]
  have l: "\<forall>w \<in> {w0, w1, w2, w3, w4, w5, w6, w7}. length (hex w) \<le> 4"
    using assms(1) length_hex by blast
  have "len best \<in> {2, 3, 4}" using assms(3,4) by (auto simp: zeros_def)
  then show ?thesis
    using z l assms(1,2)
    by (elim insertE emptyE) (simp_all add: ntop6_eval ix_simps del: pton6_loop.simps)
qed

lemma prints_back_5:
  assumes "\<forall>w \<in> {w0, w1, w2, w3, w4, w5, w6, w7}. unat w < 2 ^ 16" "base best = 5"
    "zeros [w0, w1, w2, w3, w4, w5, w6, w7] 5 (len best)" "2 \<le> len best"
  shows "prints_back src [w0, w1, w2, w3, w4, w5, w6, w7] best"
proof -
  note z = zeros_ix[OF assms(3)]
  have l: "\<forall>w \<in> {w0, w1, w2, w3, w4, w5, w6, w7}. length (hex w) \<le> 4"
    using assms(1) length_hex by blast
  have "len best \<in> {2, 3}" using assms(3,4) by (auto simp: zeros_def)
  then show ?thesis
    using z l assms(1,2)
    by (elim insertE emptyE) (simp_all add: ntop6_eval ix_simps del: pton6_loop.simps)
qed

lemma prints_back_6:
  assumes "\<forall>w \<in> {w0, w1, w2, w3, w4, w5, w6, w7}. unat w < 2 ^ 16" "base best = 6"
    "zeros [w0, w1, w2, w3, w4, w5, w6, w7] 6 (len best)" "2 \<le> len best"
  shows "prints_back src [w0, w1, w2, w3, w4, w5, w6, w7] best"
proof -
  note z = zeros_ix[OF assms(3)]
  have l: "\<forall>w \<in> {w0, w1, w2, w3, w4, w5, w6, w7}. length (hex w) \<le> 4"
    using assms(1) length_hex by blast
  have "len best \<in> {2}" using assms(3,4) by (auto simp: zeros_def)
  then show ?thesis
    using z l assms(1,2)
    by (elim insertE emptyE) (simp_all add: ntop6_eval ix_simps del: pton6_loop.simps)
qed

lemma prints_back_0:
  assumes "\<forall>w \<in> {w0, w1, w2, w3, w4, w5, w6, w7}. unat w < 2 ^ 16" "base best = 0"
    "zeros [w0, w1, w2, w3, w4, w5, w6, w7] 0 (len best)" "2 \<le> len best"
    "is_v4_tail [w0, w1, w2, w3, w4, w5, w6, w7] best 6 \<longrightarrow> len best = 7"
  shows "prints_back src [w0, w1, w2, w3, w4, w5, w6, w7] best"
proof -
  note z = zeros_ix[OF assms(3)]
  have l: "\<forall>w \<in> {w0, w1, w2, w3, w4, w5, w6, w7}. length (hex w) \<le> 4"
    using assms(1) length_hex by blast
  have v: "\<not> is_v4_tail ws best i" if "i \<noteq> 6" for ws i using that by (simp add: is_v4_tail_def)
  have v4: "len best \<noteq> 7 \<Longrightarrow> \<not> is_v4_tail [w0, w1, w2, w3, w4, w5, w6, w7] best i" for i
    using assms(5) v[of i] by (cases "i = 6") auto
  have "len best \<le> 8" using assms(3) by (simp add: zeros_def)
  moreover have "len best \<noteq> 6" using assms(2,5) by (auto simp: is_v4_tail_def)
  ultimately have "len best = 7 \<or> len best \<in> {2, 3, 4, 5, 8}" using assms(4) by auto
  then show ?thesis
  proof
    assume "len best = 7"
    then show ?thesis
      using z l assms(1,2) v
      by (simp add: ntop6_eval ix_simps del: pton6_loop.simps is_v4_tail_def)
  next
    assume "len best \<in> {2, 3, 4, 5, 8}"
    then show ?thesis
      using z l assms(1,2) v4
      by (elim insertE emptyE) (simp_all add: ntop6_eval ix_simps del: pton6_loop.simps is_v4_tail_def)
  qed
qed

lemma prints_back_v4:
  assumes w: "\<forall>w \<in> {w0, w1, w2, w3, w4, w5, w6, w7}. unat w < 2 ^ 16"
    and best: "base best = 0" "zeros [w0, w1, w2, w3, w4, w5, w6, w7] 0 (len best)" "2 \<le> len best"
    and v4: "is_v4_tail [w0, w1, w2, w3, w4, w5, w6, w7] best 6"
    and src: "length (drop 12 src) = 4" "drop 12 src = bytes_of [w6, w7]"
    and run7: "len best \<noteq> 7"
  shows "prints_back src [w0, w1, w2, w3, w4, w5, w6, w7] best"
proof -
  note z = zeros_ix[OF best(2)]
  let ?ws = "[w0, w1, w2, w3, w4, w5, w6, w7]"
  define bs F where "bs = drop 12 src" and "F = format_ip4 bs"
  have bs: "length bs = 4" "bytes_of [w6, w7] = bs" using src by (simp_all add: bs_def)
  have F: "length F \<le> 15" "F \<noteq> []" using length_format_ip4[of bs] by (auto simp: F_def)
  have fits: "inet_ntop4 (drop 12 src) (46 - n) = Inr F" if "n \<le> 20" for n
  proof -
    have "length F < 46 - n" using F(1) that by linarith
    then show ?thesis by (simp add: inet_ntop4_eq F_def bs_def)
  qed
  have other: "\<not> is_v4_tail ?ws best i" if "i \<noteq> 6" for i using that by (simp add: is_v4_tail_def)
  from v4 run7 consider (six) "len best = 6" | (five) "len best = 5" by (auto simp: is_v4_tail_def)
  then show ?thesis
  proof cases
    case six
    have l: "ntop6_loop src ?ws best [0..<8] [] = Inr (''::'' @ F)"
      using six best(1) v4 fits[of 2] by (simp add: upt_0_8 in_run_def UV__INET6_ADDRSTRLEN_def)
    obtain v where "pton6_loop F [] (Some 0) F 0 0 = Inr (bs, Some 0, 0, v)"
      using pton6_v4[OF bs(1), of "[]" "Some 0"] by (auto simp: F_def)
    then have "inet_pton6 (''::'' @ F) = Inr (shift_loop [1..<5] 0 4 (bs @ replicate 12 0))"
      using bs(1) by (simp add: inet_pton6_def pton6_finish_def pton6_double_colon del: pton6_loop.simps)
    moreover have "shift_loop [1..<5] 0 4 (bs @ replicate 12 0) = replicate 12 0 @ bs"
      using bs(1) by (auto simp: length_Suc_conv eval_nat_numeral upt_rec)
    moreover have "replicate 12 0 @ bs = bytes_of ?ws"
      using z six best(1) bs(2) by (simp add: bytes_of_def put_word_def ix_simps replicate_numeral_Cons)
    ultimately show ?thesis using l F(1) six best(1) by (simp add: prints_back_def)
  next
    case five
    have len: "length (hex w5) \<le> 4" using w length_hex by blast
    have l: "ntop6_loop src ?ws best [0..<8] [] = Inr (''::'' @ hex w5 @ '':'' @ F)"
      using five best(1) v4 other fits[of "length (hex w5) + 3"] len
      by (simp add: upt_0_8 in_run_def UV__INET6_ADDRSTRLEN_def)
    let ?t = "put_word [] w5"
    obtain v where "pton6_loop F ?t (Some 0) F 0 0 = Inr (?t @ bs, Some 0, 0, v)"
      using pton6_v4[OF bs(1), of ?t "Some 0"] by (auto simp: put_word_def F_def)
    then have "inet_pton6 (''::'' @ hex w5 @ '':'' @ F) =
        Inr (shift_loop [1..<7] 0 6 (?t @ bs @ replicate 10 0))"
      using bs(1) w F(2)
      by (simp add: inet_pton6_def pton6_finish_def pton6_group pton6_colon pton6_double_colon put_word_def
          del: pton6_loop.simps)
    moreover have "shift_loop [1..<7] 0 6 (?t @ bs @ replicate 10 0) = replicate 10 0 @ ?t @ bs"
      using bs(1) by (auto simp: length_Suc_conv eval_nat_numeral upt_rec put_word_def)
    moreover have "replicate 10 0 @ ?t @ bs = bytes_of ?ws"
      using z five best(1) bs(2) by (simp add: bytes_of_def put_word_def ix_simps replicate_numeral_Cons)
    ultimately show ?thesis using l F(1) len five best(1) by (simp add: prints_back_def)
  qed
qed

lemma ntop6_prints_back:
  assumes "length src = 16"
  shows "prints_back src (ip6_words src) (best_run (ip6_words src))"
proof -
  let ?ws = "ip6_words src" and ?b = "best_run (ip6_words src)"
  obtain w0 w1 w2 w3 w4 w5 w6 w7 where ws: "?ws = [w0, w1, w2, w3, w4, w5, w6, w7]"
    using ip6_words_bytes(2)[OF assms] by (auto simp: length_Suc_conv eval_nat_numeral)
  have w: "\<forall>w \<in> {w0, w1, w2, w3, w4, w5, w6, w7}. unat w < 2 ^ 16"
    using ip6_words_bytes(3)[OF assms] ws by simp
  have src: "length (drop 12 src) = 4" using assms by simp
  have src2: "drop 12 src = bytes_of [w6, w7]"
    using ip6_words_bytes(4)[OF assms] ws by simp
  show ?thesis
  proof (cases "base ?b = -1")
    case True
    then show ?thesis using prints_back_none[OF w] ws by simp
  next
    case False
    then have z: "zeros ?ws (base ?b) (len ?b)" "2 \<le> len ?b"
      using best_run_spec[of ?b ?ws] by auto
    then have "base ?b \<in> {0, 1, 2, 3, 4, 5, 6}" by (auto simp: zeros_def ws)
    then consider "base ?b = 0" | "base ?b = 1" | "base ?b = 2" | "base ?b = 3" | "base ?b = 4"
      | "base ?b = 5" | "base ?b = 6" by auto
    then show ?thesis
    proof cases
      case 1
      then show ?thesis
        using z prints_back_0[OF w, of ?b src] prints_back_v4[OF w, of ?b src] src src2
        unfolding ws by (cases "is_v4_tail ?ws ?b 6 \<and> len ?b \<noteq> 7") (auto simp: ws)
    qed (use z prints_back_1[OF w, of ?b src] prints_back_2[OF w, of ?b src]
        prints_back_3[OF w, of ?b src] prints_back_4[OF w, of ?b src] prints_back_5[OF w, of ?b src]
        prints_back_6[OF w, of ?b src] in \<open>simp_all add: ws\<close>)
  qed
qed

lemma inet_ntop6_pton6:
  assumes "length src = 16"
  shows "\<exists>s. length s \<le> 45 \<and> inet_pton6 s = Inr src \<and>
    (\<forall>n. inet_ntop6 src n = (if length s < n then Inr s else Inl ENOSPC))"
proof -
  let ?ws = "ip6_words src" and ?b = "best_run (ip6_words src)"
  obtain tp where tp: "ntop6_loop src ?ws ?b [0..<8] [] = Inr tp" "length tp \<le> 44"
      "inet_pton6 (if base ?b \<noteq> -1 \<and> base ?b + len ?b = 8 then tp @ '':'' else tp) = Inr (bytes_of ?ws)"
    using ntop6_prints_back[OF assms] by (auto simp: prints_back_def)
  define s where "s = (if base ?b \<noteq> -1 \<and> base ?b + len ?b = 8 then tp @ '':'' else tp)"
  have "length s \<le> 45" using tp(2) by (simp add: s_def)
  moreover have "inet_ntop6 src n = (if n < length s + 1 then Inl ENOSPC else Inr s)" for n
    by (simp only: inet_ntop6_def Let_def tp(1) sum.case s_def[symmetric])
  then have "inet_ntop6 src n = (if length s < n then Inr s else Inl ENOSPC)" for n by simp
  moreover have "inet_pton6 s = Inr src" using tp(3) ip6_words_bytes(1)[OF assms] by (simp only: s_def)
  ultimately show ?thesis by blast
qed


section \<open>What is parsed fits the destination\<close>

lemma pton4_loop_length:
  "pton4_loop src saw k tmp = Inr bs \<Longrightarrow> length tmp = (if saw then k else k + 1) \<Longrightarrow>
   (if saw then 0 < k \<and> k \<le> 4 else k < 4) \<Longrightarrow> length bs = 4"
proof (induction src saw k tmp rule: pton4_loop.induct)
  case (1 saw k tmp)
  then show ?case by (auto split: if_splits)
next
  case (2 ch src saw k tmp)
  have "tmp \<noteq> []" using 2(4,5) by (cases tmp) (auto split: if_splits)
  then show ?case using 2 by (auto simp: Let_def split: option.splits if_splits)
qed

lemma inet_pton4_length: "inet_pton4 s = Inr bs \<Longrightarrow> length bs = 4"
  using pton4_loop_length[of s False 0 "[0]" bs] by (simp add: inet_pton4_def)

lemma length_put_word [simp]: "length (put_word t w) = length t + 2"
  by (simp add: put_word_def)

lemma pton6_loop_length:
  "pton6_loop src tmp c cur s v = Inr (tmp', c', s', v') \<Longrightarrow> length tmp \<le> 16 \<Longrightarrow>
   (\<forall>i. c = Some i \<longrightarrow> i \<le> length tmp) \<Longrightarrow>
   length tmp' \<le> 16 \<and> (\<forall>i. c' = Some i \<longrightarrow> i \<le> length tmp')"
proof (induction src tmp c cur s v rule: pton6_loop.induct)
  case (2 ch src tmp c cur s v)
  then show ?case
    by (cases c) (auto split: option.splits if_splits sum.splits dest: inet_pton4_length)
qed auto

lemma length_shift_loop [simp]: "length (shift_loop is c n buf) = length buf"
  by (induction "is" c n buf rule: shift_loop.induct) auto

lemma inet_pton6_loop:
  assumes "inet_pton6 s = Inr bs" and "s' = (if take 1 s = '':'' then tl s else s)"
  obtains st where "pton6_loop s' [] None s' 0 0 = Inr st" "pton6_finish st = Inr bs"
proof (cases "pton6_loop s' [] None s' 0 0")
  case (Inl e)
  then show ?thesis using assms by (simp add: inet_pton6_def Let_def split: if_splits)
next
  case (Inr r)
  then show ?thesis using that assms by (simp add: inet_pton6_def Let_def split: if_splits)
qed

lemma inet_pton6_length:
  assumes "inet_pton6 s = Inr bs"
  shows "length bs = 16"
proof -
  define s' where "s' = (if take 1 s = '':'' then tl s else s)"
  obtain tmp c n v where l: "pton6_loop s' [] None s' 0 0 = Inr (tmp, c, n, v)"
      and f: "pton6_finish (tmp, c, n, v) = Inr bs"
    using inet_pton6_loop[OF assms s'_def] by (metis prod_cases4)
  have "length tmp \<le> 16" using pton6_loop_length[OF l] by simp
  then show ?thesis
    using f by (auto simp: pton6_finish_def Let_def split: if_splits option.splits)
qed

section \<open>No zone in what is printed\<close>

lemma pton4_loop_no_zone: "pton4_loop src saw k tmp = Inr bs \<Longrightarrow> CHR ''%'' \<notin> set src"
proof (induction src saw k tmp rule: pton4_loop.induct)
  case (2 ch src saw k tmp)
  have "strchr digits (CHR ''%'') = None" by code_simp
  with 2 show ?case by (auto simp: Let_def split: option.splits if_splits)
qed simp

lemma pton6_loop_no_zone:
  "pton6_loop src tmp c cur s v = Inr r \<Longrightarrow> set src \<subseteq> set cur \<Longrightarrow> CHR ''%'' \<notin> set src"
proof (induction src tmp c cur s v rule: pton6_loop.induct)
  case (2 ch src tmp c cur s v)
  have "xdigit (CHR ''%'') = None" by code_simp
  with 2 show ?case
    by (auto simp: inet_pton4_def split: option.splits if_splits sum.splits dest!: pton4_loop_no_zone)
qed simp

lemma inet_pton6_no_zone:
  assumes "inet_pton6 s = Inr bs"
  shows "CHR ''%'' \<notin> set s"
proof -
  define s' where "s' = (if take 1 s = '':'' then tl s else s)"
  obtain r where "pton6_loop s' [] None s' 0 0 = Inr r"
    using inet_pton6_loop[OF assms s'_def] by blast
  then have "CHR ''%'' \<notin> set s'" by (rule pton6_loop_no_zone) simp
  then show ?thesis by (cases s) (auto simp: s'_def split: if_splits)
qed

lemma strchr_None: "strchr s c = None \<longleftrightarrow> c \<notin> set s"
  by (induction s) auto

section \<open>The interface of the address helpers\<close>

text \<open>Printing and parsing of addresses of \<open>n\<close> bytes; a buffer of \<open>room\<close> bytes is always enough.\<close>

locale address_codec =
  fixes n room :: nat
    and print :: "u8 list \<Rightarrow> nat \<Rightarrow> uv_error + string"
    and parse :: "string \<Rightarrow> uv_error + u8 list"
  assumes print_parse: "length a = n \<Longrightarrow> \<exists>s. length s < room \<and> parse s = Inr a \<and>
      (\<forall>k. print a k = (if length s < k then Inr s else Inl ENOSPC))"
    and parse_length: "parse s = Inr a \<Longrightarrow> length a = n"
begin

lemma print_total: "length a = n \<Longrightarrow> room \<le> k \<Longrightarrow> \<exists>s. print a k = Inr s \<and> parse s = Inr a"
  using print_parse[of a] by fastforce

lemma print_back:
  assumes "length a = n" "print a k = Inr s"
  shows "parse s = Inr a \<and> length s < k"
proof -
  obtain s' where "parse s' = Inr a" "print a k = (if length s' < k then Inr s' else Inl ENOSPC)"
    using print_parse[OF assms(1)] by blast
  with assms(2) show ?thesis by (simp split: if_splits)
qed

lemma print_injective:
  "length a = n \<Longrightarrow> length b = n \<Longrightarrow> print a k = Inr s \<Longrightarrow> print b k' = Inr s \<Longrightarrow> a = b"
  using print_back[of a k s] print_back[of b k' s] by simp

lemma print_error:
  assumes "length a = n" "print a k = Inl e"
  shows "e = ENOSPC \<and> k < room"
proof -
  obtain s' where "length s' < room" "print a k = (if length s' < k then Inr s' else Inl ENOSPC)"
    using print_parse[OF assms(1)] by blast
  with assms(2) show ?thesis by (simp split: if_splits)
qed

text \<open>Every text that parses has a printed form with the same meaning.\<close>

lemma normalise: "parse s = Inr a \<Longrightarrow> \<exists>s'. print a room = Inr s' \<and> parse s' = Inr a"
  using print_total[of a room] parse_length by blast

end

interpretation ip4: address_codec 4 16 inet_ntop4 inet_pton4
proof
  fix a :: "u8 list" assume "length a = 4"
  then show "\<exists>s. length s < 16 \<and> inet_pton4 s = Inr a \<and>
      (\<forall>k. inet_ntop4 a k = (if length s < k then Inr s else Inl ENOSPC))"
    using length_format_ip4[of a] by (intro exI[of _ "format_ip4 a"]) (simp add: inet_pton4_format inet_ntop4_eq)
qed (rule inet_pton4_length)

interpretation ip6: address_codec 16 46 inet_ntop6 inet_pton6
proof
  fix a :: "u8 list" assume "length a = 16"
  then obtain s where "length s \<le> 45" "inet_pton6 s = Inr a"
      "\<forall>n. inet_ntop6 a n = (if length s < n then Inr s else Inl ENOSPC)"
    using inet_ntop6_pton6 by blast
  then show "\<exists>s. length s < 46 \<and> inet_pton6 s = Inr a \<and>
      (\<forall>k. inet_ntop6 a k = (if length s < k then Inr s else Inl ENOSPC))"
    by (intro exI[of _ s]) simp
qed (rule inet_pton6_length)

section \<open>Properties\<close>

text \<open>
  C19: an IPv4 socket address is printed into any buffer of 16 bytes, and parsing the text gives
  the address back.
\<close>

theorem ip4_round_trip:
  assumes "length (addr a) = 4" "16 \<le> n"
  shows "\<exists>s. uv_ip4_name a n = Inr s \<and>
    uv_ip4_addr s p = (OK, \<lparr>family = AF_INET, port = htons (word_of_int p), addr = addr a, scope_id = 0\<rparr>)"
  using ip4.print_total[OF assms]
  by (auto simp: uv_ip4_name_def uv_inet_ntop_def uv_ip4_addr_def uv_inet_pton_def)

theorem ip4_round_trip_witness:
  "\<exists>s. uv_ip4_name \<lparr>family = AF_INET, port = 0, addr = [127, 0, 0, 1], scope_id = 0\<rparr> 16 = Inr s \<and>
    uv_ip4_addr s 80 = (OK, \<lparr>family = AF_INET, port = htons (word_of_int 80), addr = [127, 0, 0, 1], scope_id = 0\<rparr>)"
  using ip4_round_trip[of "\<lparr>family = AF_INET, port = 0, addr = [127, 0, 0, 1], scope_id = 0\<rparr>" 16 80]
  by simp

text \<open>
  C18: an IPv6 socket address is printed into any buffer of 46 bytes, whatever runs of zeros it
  has and also with an embedded IPv4 address, and parsing the text gives the 16 bytes back.
\<close>

theorem ip6_round_trip:
  assumes "length (addr a) = 16" "46 \<le> n"
  shows "\<exists>s. uv_ip6_name a n = Inr s \<and>
    uv_ip6_addr scope s p = (OK, \<lparr>family = AF_INET6, port = htons (word_of_int p), addr = addr a, scope_id = 0\<rparr>)"
proof -
  obtain s where s: "inet_ntop6 (addr a) n = Inr s" "inet_pton6 s = Inr (addr a)"
    using ip6.print_total[OF assms] by blast
  then have "strchr s (CHR ''%'') = None" using inet_pton6_no_zone by (simp add: strchr_None)
  with s show ?thesis
    by (simp add: uv_ip6_name_def uv_inet_ntop_def uv_ip6_addr_def uv_inet_pton_def)
qed

theorem ip6_round_trip_witness:
  "\<exists>s. uv_ip6_name \<lparr>family = AF_INET6, port = 0, addr = replicate 15 0 @ [1], scope_id = 0\<rparr> 46 = Inr s \<and>
    uv_ip6_addr (\<lambda>_. 0) s 80 = (OK, \<lparr>family = AF_INET6, port = htons (word_of_int 80), addr = replicate 15 0 @ [1], scope_id = 0\<rparr>)"
  using ip6_round_trip[of "\<lparr>family = AF_INET6, port = 0, addr = replicate 15 0 @ [1], scope_id = 0\<rparr>" 46 "\<lambda>_. 0" 80]
  by simp

text \<open>
  A text that parses gives exactly the bytes the destination has room for, 4 or 16: no
  input makes \<open>uv_inet_pton\<close> write more, or leave a part of the destination unset.
\<close>

theorem uv_inet_pton_fills_destination:
  assumes "uv_inet_pton af src null = Inr bytes"
  shows "(af = AF_INET \<and> length bytes = 4) \<or> (af = AF_INET6 \<and> length bytes = 16)"
  using assms ip4.parse_length ip6.parse_length
  by (auto simp: uv_inet_pton_def split: option.splits if_splits af.splits)

theorem uv_inet_pton_fills_destination_witness:
  "\<exists>bytes. uv_inet_pton AF_INET6 (Some ''::ffff:10.0.0.1%eth0'') False = Inr bytes \<and> length bytes = 16"
proof -
  have "uv_inet_pton AF_INET6 (Some ''::ffff:10.0.0.1%eth0'') False
      = Inr [0, 0, 0, 0, 0, 0, 0, 0, 0, 0, 255, 255, 10, 0, 0, 1]" by code_simp
  with uv_inet_pton_fills_destination[OF this] show ?thesis by simp
qed

text \<open>
  \<open>uv_ip6_addr\<close> copies the part before a zone into a buffer of 40 bytes and cuts it there.
  An address of the longest form with a zone, which \<open>uv_inet_pton\<close> accepts, is then taken for
  another address: the last digit of its IPv4 part is lost, and the call reports success.
\<close>

theorem uv_ip6_addr_truncates:
  "uv_inet_pton AF_INET6 (Some ''0000:0000:0000:0000:0000:ffff:1.2.33.100%1'') False =
     Inr [0, 0, 0, 0, 0, 0, 0, 0, 0, 0, 255, 255, 1, 2, 33, 100] \<and>
   fst (uv_ip6_addr scope ''0000:0000:0000:0000:0000:ffff:1.2.33.100%1'' p) = OK \<and>
   addr (snd (uv_ip6_addr scope ''0000:0000:0000:0000:0000:ffff:1.2.33.100%1'' p)) =
     [0, 0, 0, 0, 0, 0, 0, 0, 0, 0, 255, 255, 1, 2, 33, 10]"
proof -
  have a: "uv_inet_pton AF_INET6 (Some ''0000:0000:0000:0000:0000:ffff:1.2.33.100%1'') False =
     Inr [0, 0, 0, 0, 0, 0, 0, 0, 0, 0, 255, 255, 1, 2, 33, 100]" by code_simp
  have b: "uv_inet_pton AF_INET6 (Some ''0000:0000:0000:0000:0000:ffff:1.2.33.10'') False =
     Inr [0, 0, 0, 0, 0, 0, 0, 0, 0, 0, 255, 255, 1, 2, 33, 10]" by code_simp
  show ?thesis using a b by (simp add: uv_ip6_addr_def)
qed

end
