(* ===== verification/Uv_Handle.thy ===== *)
theory Uv_Handle
  imports Uv_Queue Uv_Errno
begin

text \<open>
  Handles and the count of active ones: the macros of \<open>src/uv-common.h\<close>, which both platforms
  use with different flag values, and \<open>uv_ref\<close>, \<open>uv_unref\<close>, \<open>uv_has_ref\<close> and \<open>uv_walk\<close> of
  \<open>src/uv-common.c\<close>.

  The state holds the handles of one loop by address. A handle has the fields of
  \<open>uv_handle_t\<close> and of the handle types modelled (timer, prepare, check, idle, async), on both
  platforms; the loop's record is extended by the platforms. Callbacks are addresses. An
  \<open>assert\<close> that fails is \<open>None\<close>.
\<close>

unbundle bit_operations_syntax

section \<open>Flags\<close>

datatype platform = Unix | Windows

fun UV__HANDLE_INTERNAL :: "platform \<Rightarrow> u32" where
  "UV__HANDLE_INTERNAL Unix = 0x8000"
| "UV__HANDLE_INTERNAL Windows = 0x80"

fun UV__HANDLE_ACTIVE :: "platform \<Rightarrow> u32" where
  "UV__HANDLE_ACTIVE Unix = 0x4000"
| "UV__HANDLE_ACTIVE Windows = 0x40"

fun UV__HANDLE_REF :: "platform \<Rightarrow> u32" where
  "UV__HANDLE_REF Unix = 0x2000"
| "UV__HANDLE_REF Windows = 0x20"

fun UV__HANDLE_CLOSING :: "platform \<Rightarrow> u32" where
  "UV__HANDLE_CLOSING Unix = 0"
| "UV__HANDLE_CLOSING Windows = 0x01"

text \<open>\<open>UV_CLOSING\<close> and \<open>UV_CLOSED\<close> of Unix; \<open>UV_HANDLE_CLOSED\<close> of Windows has the same value.\<close>

definition UV_CLOSING :: u32 where "UV_CLOSING = 0x01"
definition UV_CLOSED :: u32 where "UV_CLOSED = 0x02"

text \<open>\<open>(flags & f) != 0\<close>\<close>

definition has_flag :: "u32 \<Rightarrow> u32 \<Rightarrow> bool" where
  "has_flag flags f \<longleftrightarrow> flags AND f \<noteq> 0"

lemma has_flag_or [flag_simps]: "has_flag (f OR c) d \<longleftrightarrow> has_flag f d \<or> has_flag c d"
  by (simp add: has_flag_def word_ao_dist or_eq_0_iff)

lemma has_flag_clear:
  assumes "d AND c = 0"
  shows "has_flag (f AND NOT c) d = has_flag f d"
proof -
  have "\<not> (bit d n \<and> bit c n)" for n
    using arg_cong[OF assms, of "\<lambda>x. bit x n"] by (simp add: bit_and_iff)
  then have "f AND NOT c AND d = f AND d"
    by (intro bit_word_eqI) (auto simp: bit_and_iff bit_not_iff)
  then show ?thesis by (simp add: has_flag_def and.assoc)
qed

lemma has_flag_cleared [flag_simps]: "\<not> has_flag (f AND NOT c) c"
  by (simp add: has_flag_def and.assoc)

lemma has_flag_clear_platform [flag_simps]:
  "has_flag (f AND NOT (UV__HANDLE_ACTIVE pf)) (UV__HANDLE_REF pf) = has_flag f (UV__HANDLE_REF pf)"
  "has_flag (f AND NOT (UV__HANDLE_ACTIVE pf)) (UV__HANDLE_CLOSING pf) = has_flag f (UV__HANDLE_CLOSING pf)"
  "has_flag (f AND NOT (UV__HANDLE_ACTIVE pf)) (UV__HANDLE_INTERNAL pf) = has_flag f (UV__HANDLE_INTERNAL pf)"
  "has_flag (f AND NOT (UV__HANDLE_ACTIVE pf)) UV_CLOSING = has_flag f UV_CLOSING"
  "has_flag (f AND NOT (UV__HANDLE_ACTIVE pf)) UV_CLOSED = has_flag f UV_CLOSED"
  "has_flag (f AND NOT (UV__HANDLE_REF pf)) (UV__HANDLE_ACTIVE pf) = has_flag f (UV__HANDLE_ACTIVE pf)"
  "has_flag (f AND NOT (UV__HANDLE_REF pf)) (UV__HANDLE_CLOSING pf) = has_flag f (UV__HANDLE_CLOSING pf)"
  "has_flag (f AND NOT (UV__HANDLE_REF pf)) (UV__HANDLE_INTERNAL pf) = has_flag f (UV__HANDLE_INTERNAL pf)"
  "has_flag (f AND NOT (UV__HANDLE_REF pf)) UV_CLOSING = has_flag f UV_CLOSING"
  "has_flag (f AND NOT (UV__HANDLE_REF pf)) UV_CLOSED = has_flag f UV_CLOSED"
  by (rule has_flag_clear, cases pf, simp_all add: UV_CLOSING_def UV_CLOSED_def)+

lemma has_flag_const [flag_simps]:
  "has_flag (UV__HANDLE_ACTIVE pf) (UV__HANDLE_ACTIVE pf)" "\<not> has_flag (UV__HANDLE_ACTIVE pf) (UV__HANDLE_REF pf)"
  "\<not> has_flag (UV__HANDLE_ACTIVE pf) (UV__HANDLE_CLOSING pf)" "\<not> has_flag (UV__HANDLE_ACTIVE pf) UV_CLOSING"
  "\<not> has_flag (UV__HANDLE_ACTIVE pf) UV_CLOSED" "\<not> has_flag (UV__HANDLE_ACTIVE pf) (UV__HANDLE_INTERNAL pf)"
  "has_flag (UV__HANDLE_REF pf) (UV__HANDLE_REF pf)" "\<not> has_flag (UV__HANDLE_REF pf) (UV__HANDLE_ACTIVE pf)"
  "\<not> has_flag (UV__HANDLE_REF pf) (UV__HANDLE_CLOSING pf)" "\<not> has_flag (UV__HANDLE_REF pf) UV_CLOSING"
  "\<not> has_flag (UV__HANDLE_REF pf) UV_CLOSED" "\<not> has_flag (UV__HANDLE_REF pf) (UV__HANDLE_INTERNAL pf)"
  "\<not> has_flag UV_CLOSING (UV__HANDLE_ACTIVE pf)" "\<not> has_flag UV_CLOSING (UV__HANDLE_REF pf)"
  "has_flag UV_CLOSING UV_CLOSING" "\<not> has_flag UV_CLOSING UV_CLOSED" "\<not> has_flag UV_CLOSING (UV__HANDLE_INTERNAL pf)"
  "\<not> has_flag UV_CLOSED (UV__HANDLE_ACTIVE pf)" "\<not> has_flag UV_CLOSED (UV__HANDLE_REF pf)"
  "\<not> has_flag UV_CLOSED (UV__HANDLE_CLOSING pf)" "\<not> has_flag UV_CLOSED (UV__HANDLE_INTERNAL pf)"
  "has_flag UV_CLOSED UV_CLOSED" "\<not> has_flag UV_CLOSED UV_CLOSING" "\<not> has_flag f 0" "\<not> has_flag 0 f"
  "\<not> has_flag UV_CLOSING (UV__HANDLE_CLOSING Unix)"
  by (cases pf; simp add: has_flag_def UV_CLOSING_def UV_CLOSED_def)+

section \<open>Handles and the loop\<close>

datatype handle_type = UV_UNKNOWN_HANDLE | UV_ASYNC | UV_CHECK | UV_FS_EVENT | UV_FS_POLL
  | UV_HANDLE | UV_IDLE | UV_NAMED_PIPE | UV_POLL | UV_PREPARE | UV_PROCESS | UV_STREAM | UV_TCP
  | UV_TIMER | UV_TTY | UV_UDP | UV_SIGNAL | UV_FILE

record handle =
  htype :: handle_type
  flags :: u32
  close_cb :: ptr
  next_closing :: ptr
  timer_cb :: ptr
  timeout :: u64
  repeat :: u64
  start_id :: u64
  watcher_cb :: ptr
  watcher_next :: ptr
  watcher_prev :: ptr
  endgame_next :: ptr

record core =
  handles :: "ptr \<Rightarrow> handle"
  handle_q :: qstore
  active_reqs :: qstore
  active_handles :: u32

text \<open>The addresses of the heads \<open>loop->handle_queue\<close> and \<open>loop->active_reqs\<close>, and of the local
  queue head of a function that drains a queue.\<close>

definition HEAD :: ptr where "HEAD = 1"
definition LOCAL :: ptr where "LOCAL = 2"

definition upd_handle :: "ptr \<Rightarrow> (handle \<Rightarrow> handle) \<Rightarrow> 'a core_scheme \<Rightarrow> 'a core_scheme" where
  "upd_handle h f s = s\<lparr>handles := (handles s)(h := f (handles s h))\<rparr>"

abbreviation hflags :: "'a core_scheme \<Rightarrow> ptr \<Rightarrow> u32" where
  "hflags s h \<equiv> flags (handles s h)"

definition set_flags :: "ptr \<Rightarrow> u32 \<Rightarrow> 'a core_scheme \<Rightarrow> 'a core_scheme" where
  "set_flags h f = upd_handle h (\<lambda>x. x\<lparr>flags := f\<rparr>)"

lemma upd_handle_sel [simp, store_simps]:
  "handles (upd_handle h f s) = (handles s)(h := f (handles s h))"
  "handle_q (upd_handle h f s) = handle_q s"
  "active_reqs (upd_handle h f s) = active_reqs s"
  "active_handles (upd_handle h f s) = active_handles s"
  "core.more (upd_handle h f s) = core.more s"
  by (simp_all add: upd_handle_def)

lemma set_flags_sel [simp, store_simps]:
  "handles (set_flags h f s) = (handles s)(h := (handles s h)\<lparr>flags := f\<rparr>)"
  "handle_q (set_flags h f s) = handle_q s"
  "active_reqs (set_flags h f s) = active_reqs s"
  "active_handles (set_flags h f s) = active_handles s"
  "core.more (set_flags h f s) = core.more s"
  by (simp_all add: set_flags_def)

section \<open>The macros\<close>

definition uv__has_active_reqs :: "'a core_scheme \<Rightarrow> bool" where
  "uv__has_active_reqs s \<longleftrightarrow> \<not> QUEUE_EMPTY HEAD (active_reqs s)"

definition uv__req_register :: "ptr \<Rightarrow> 'a core_scheme \<Rightarrow> 'a core_scheme" where
  "uv__req_register req s = s\<lparr>active_reqs := QUEUE_INSERT_TAIL HEAD req (active_reqs s)\<rparr>"

definition uv__req_unregister :: "ptr \<Rightarrow> 'a core_scheme \<Rightarrow> 'a core_scheme option" where
  "uv__req_unregister req s =
     (if \<not> uv__has_active_reqs s then None
      else Some (s\<lparr>active_reqs := QUEUE_REMOVE req (active_reqs s)\<rparr>))"

definition uv__has_active_handles :: "'a core_scheme \<Rightarrow> bool" where
  "uv__has_active_handles s \<longleftrightarrow> 0 < active_handles s"

definition uv__active_handle_add :: "'a core_scheme \<Rightarrow> 'a core_scheme" where
  "uv__active_handle_add s = s\<lparr>active_handles := active_handles s + 1\<rparr>"

definition uv__active_handle_rm :: "'a core_scheme \<Rightarrow> 'a core_scheme" where
  "uv__active_handle_rm s = s\<lparr>active_handles := active_handles s - 1\<rparr>"

definition uv__is_active :: "platform \<Rightarrow> ptr \<Rightarrow> 'a core_scheme \<Rightarrow> bool" where
  "uv__is_active pf h s \<longleftrightarrow> has_flag (hflags s h) (UV__HANDLE_ACTIVE pf)"

definition uv__is_closing :: "ptr \<Rightarrow> 'a core_scheme \<Rightarrow> bool" where
  "uv__is_closing h s \<longleftrightarrow> has_flag (hflags s h) (UV_CLOSING OR UV_CLOSED)"

definition uv__handle_start :: "platform \<Rightarrow> ptr \<Rightarrow> 'a core_scheme \<Rightarrow> 'a core_scheme option" where
  "uv__handle_start pf h s =
     (if has_flag (hflags s h) (UV__HANDLE_CLOSING pf) then None
      else if has_flag (hflags s h) (UV__HANDLE_ACTIVE pf) then Some s
      else
        (let s1 = set_flags h (hflags s h OR UV__HANDLE_ACTIVE pf) s
         in Some (if has_flag (hflags s1 h) (UV__HANDLE_REF pf) then uv__active_handle_add s1 else s1)))"

definition uv__handle_stop :: "platform \<Rightarrow> ptr \<Rightarrow> 'a core_scheme \<Rightarrow> 'a core_scheme option" where
  "uv__handle_stop pf h s =
     (if has_flag (hflags s h) (UV__HANDLE_CLOSING pf) then None
      else if \<not> has_flag (hflags s h) (UV__HANDLE_ACTIVE pf) then Some s
      else
        (let s1 = set_flags h (hflags s h AND NOT (UV__HANDLE_ACTIVE pf)) s
         in Some (if has_flag (hflags s1 h) (UV__HANDLE_REF pf) then uv__active_handle_rm s1 else s1)))"

definition uv__handle_ref :: "platform \<Rightarrow> ptr \<Rightarrow> 'a core_scheme \<Rightarrow> 'a core_scheme" where
  "uv__handle_ref pf h s =
     (if has_flag (hflags s h) (UV__HANDLE_REF pf) then s
      else
        (let s1 = set_flags h (hflags s h OR UV__HANDLE_REF pf) s
         in if has_flag (hflags s1 h) (UV__HANDLE_CLOSING pf) then s1
            else if has_flag (hflags s1 h) (UV__HANDLE_ACTIVE pf) then uv__active_handle_add s1
            else s1))"

definition uv__handle_unref :: "platform \<Rightarrow> ptr \<Rightarrow> 'a core_scheme \<Rightarrow> 'a core_scheme" where
  "uv__handle_unref pf h s =
     (if \<not> has_flag (hflags s h) (UV__HANDLE_REF pf) then s
      else
        (let s1 = set_flags h (hflags s h AND NOT (UV__HANDLE_REF pf)) s
         in if has_flag (hflags s1 h) (UV__HANDLE_CLOSING pf) then s1
            else if has_flag (hflags s1 h) (UV__HANDLE_ACTIVE pf) then uv__active_handle_rm s1
            else s1))"

definition uv__has_ref :: "platform \<Rightarrow> ptr \<Rightarrow> 'a core_scheme \<Rightarrow> bool" where
  "uv__has_ref pf h s \<longleftrightarrow> has_flag (hflags s h) (UV__HANDLE_REF pf)"

text \<open>On Unix the platform part clears \<open>next_closing\<close>; on Windows it sets the union's
  descriptor, which no modelled type uses.\<close>

definition uv__handle_init :: "platform \<Rightarrow> ptr \<Rightarrow> handle_type \<Rightarrow> 'a core_scheme \<Rightarrow> 'a core_scheme" where
  "uv__handle_init pf h t s =
     (let s1 = upd_handle h (\<lambda>x. x\<lparr>htype := t, flags := UV__HANDLE_REF pf\<rparr>) s;
          s2 = s1\<lparr>handle_q := QUEUE_INSERT_TAIL HEAD h (handle_q s1)\<rparr>
      in if pf = Unix then upd_handle h (\<lambda>x. x\<lparr>next_closing := NULL\<rparr>) s2 else s2)"

section \<open>The functions of \<open>uv-common.c\<close>\<close>

definition uv_ref :: "platform \<Rightarrow> ptr \<Rightarrow> 'a core_scheme \<Rightarrow> 'a core_scheme" where
  "uv_ref pf h s = uv__handle_ref pf h s"

definition uv_unref :: "platform \<Rightarrow> ptr \<Rightarrow> 'a core_scheme \<Rightarrow> 'a core_scheme" where
  "uv_unref pf h s = uv__handle_unref pf h s"

definition uv_has_ref :: "platform \<Rightarrow> ptr \<Rightarrow> 'a core_scheme \<Rightarrow> bool" where
  "uv_has_ref pf h s = uv__has_ref pf h s"

text \<open>The callback takes the handle; its argument \<open>arg\<close> is a part of the function.\<close>

partial_function (option) walk_handles ::
    "platform \<Rightarrow> (ptr \<Rightarrow> 'a core_scheme \<Rightarrow> 'a core_scheme option) \<Rightarrow> 'a core_scheme \<Rightarrow> 'a core_scheme option" where
  "walk_handles pf walk_cb s =
     (if QUEUE_EMPTY LOCAL (handle_q s) then Some s
      else
        (let h = QUEUE_HEAD LOCAL (handle_q s);
             s1 = s\<lparr>handle_q := QUEUE_REMOVE h (handle_q s)\<rparr>;
             s2 = s1\<lparr>handle_q := QUEUE_INSERT_TAIL HEAD h (handle_q s1)\<rparr>
         in if has_flag (hflags s2 h) (UV__HANDLE_INTERNAL pf) then walk_handles pf walk_cb s2
            else Option.bind (walk_cb h s2) (walk_handles pf walk_cb)))"

definition uv_walk ::
    "platform \<Rightarrow> (ptr \<Rightarrow> 'a core_scheme \<Rightarrow> 'a core_scheme option) \<Rightarrow> 'a core_scheme \<Rightarrow> 'a core_scheme option" where
  "uv_walk pf walk_cb s = walk_handles pf walk_cb (s\<lparr>handle_q := QUEUE_MOVE HEAD LOCAL (handle_q s)\<rparr>)"


section \<open>The count of active handles\<close>

text \<open>The handles the count is to include: active and referenced ones, and on Windows every
  handle that is closing.\<close>

definition counted :: "platform \<Rightarrow> u32 \<Rightarrow> bool" where
  "counted pf f \<longleftrightarrow> has_flag f (UV__HANDLE_CLOSING pf) \<or>
     (has_flag f (UV__HANDLE_ACTIVE pf) \<and> has_flag f (UV__HANDLE_REF pf))"

definition core_ok :: "platform \<Rightarrow> ptr list \<Rightarrow> 'a core_scheme \<Rightarrow> bool" where
  "core_ok pf hs s \<longleftrightarrow> qring (handle_q s) HEAD hs \<and>
     active_handles s = of_nat (length (filter (\<lambda>h. counted pf (hflags s h)) hs))"

lemma core_ok_ring: "core_ok pf hs s \<Longrightarrow> qring (handle_q s) HEAD hs"
  and core_ok_distinct: "core_ok pf hs s \<Longrightarrow> distinct (HEAD # hs)"
  by (auto simp: core_ok_def dest: qring_distinct)

lemma filter_count_change:
  assumes "distinct hs" "h \<in> set hs" "\<And>x. x \<in> set hs \<Longrightarrow> x \<noteq> h \<Longrightarrow> Q x = P x"
  shows "of_nat (length (filter Q hs)) + (if P h then 1 else 0) =
    (of_nat (length (filter P hs)) + (if Q h then 1 else 0) :: u32)"
proof -
  from assms(2) obtain ys zs where hs: "hs = ys @ h # zs" by (auto dest: split_list)
  have "filter Q ys = filter P ys" "filter Q zs = filter P zs"
    using assms(1,3) hs by (auto intro!: filter_cong)
  then show ?thesis by (simp add: hs)
qed

lemma core_ok_flags:
  assumes "core_ok pf hs s" "h \<in> set hs" "handle_q s' = handle_q s"
    and "\<And>x. x \<noteq> h \<Longrightarrow> hflags s' x = hflags s x"
    and "active_handles s' + (if counted pf (hflags s h) then 1 else 0) =
      active_handles s + (if counted pf (hflags s' h) then 1 else 0)"
  shows "core_ok pf hs s'"
proof -
  have "distinct hs" using core_ok_distinct[OF assms(1)] by simp
  from filter_count_change[OF this assms(2), of "\<lambda>h. counted pf (hflags s' h)" "\<lambda>h. counted pf (hflags s h)",
      THEN sym] assms
  show ?thesis by (auto simp: core_ok_def split: if_splits)
qed

lemma uv__handle_start_ok:
  assumes "core_ok pf hs s" "h \<in> set hs" "uv__handle_start pf h s = Some s'"
  shows "core_ok pf hs s'" "uv__is_active pf h s'" "handle_q s' = handle_q s"
    "active_reqs s' = active_reqs s" "core.more s' = core.more s"
    "handles s' = (handles s)(h := (handles s h)\<lparr>flags := hflags s h OR UV__HANDLE_ACTIVE pf\<rparr>)
       \<or> uv__is_active pf h s \<and> s' = s"
proof -
  note d = uv__handle_start_def Let_def uv__active_handle_add_def counted_def uv__is_active_def
  show "core_ok pf hs s'"
    by (rule core_ok_flags[OF assms(1,2)])
       (use assms(3) in \<open>auto simp: d flag_simps split: if_splits\<close>)
  show "uv__is_active pf h s'" "handle_q s' = handle_q s" "active_reqs s' = active_reqs s"
    "core.more s' = core.more s"
    "handles s' = (handles s)(h := (handles s h)\<lparr>flags := hflags s h OR UV__HANDLE_ACTIVE pf\<rparr>)
       \<or> uv__is_active pf h s \<and> s' = s"
    using assms(3) by (auto simp: d flag_simps split: if_splits)
qed

lemma uv__handle_stop_ok:
  assumes "core_ok pf hs s" "h \<in> set hs" "uv__handle_stop pf h s = Some s'"
  shows "core_ok pf hs s'" "\<not> uv__is_active pf h s'" "handle_q s' = handle_q s"
    "active_reqs s' = active_reqs s" "core.more s' = core.more s"
    "handles s' = (handles s)(h := (handles s h)\<lparr>flags := hflags s h AND NOT (UV__HANDLE_ACTIVE pf)\<rparr>)
       \<or> \<not> uv__is_active pf h s \<and> s' = s"
proof -
  note d = uv__handle_stop_def Let_def uv__active_handle_rm_def counted_def uv__is_active_def
  show "core_ok pf hs s'"
    by (rule core_ok_flags[OF assms(1,2)])
       (use assms(3) in \<open>auto simp: d flag_simps split: if_splits\<close>)
  show "\<not> uv__is_active pf h s'" "handle_q s' = handle_q s" "active_reqs s' = active_reqs s"
    "core.more s' = core.more s"
    "handles s' = (handles s)(h := (handles s h)\<lparr>flags := hflags s h AND NOT (UV__HANDLE_ACTIVE pf)\<rparr>)
       \<or> \<not> uv__is_active pf h s \<and> s' = s"
    using assms(3) by (auto simp: d flag_simps split: if_splits)
qed

lemma uv__handle_ref_ok:
  assumes "core_ok pf hs s" "h \<in> set hs"
  shows "core_ok pf hs (uv__handle_ref pf h s)"
  by (rule core_ok_flags[OF assms])
     (auto simp: uv__handle_ref_def Let_def uv__active_handle_add_def counted_def flag_simps)

lemma uv__handle_unref_ok:
  assumes "core_ok pf hs s" "h \<in> set hs"
  shows "core_ok pf hs (uv__handle_unref pf h s)"
  by (rule core_ok_flags[OF assms])
     (auto simp: uv__handle_unref_def Let_def uv__active_handle_rm_def counted_def flag_simps)

lemma uv__handle_init_ok:
  assumes "core_ok pf hs s" "h \<notin> insert HEAD (set hs)"
  shows "core_ok pf (hs @ [h]) (uv__handle_init pf h t s)"
proof -
  let ?s = "uv__handle_init pf h t s"
  have "handle_q ?s = QUEUE_INSERT_TAIL HEAD h (handle_q s)"
    by (simp add: uv__handle_init_def Let_def)
  then have "qring (handle_q ?s) HEAD (hs @ [h])"
    using qring_INSERT_TAIL[OF core_ok_ring[OF assms(1)] assms(2)] by simp
  moreover have f: "hflags ?s x = (if x = h then UV__HANDLE_REF pf else hflags s x)" for x
    by (simp add: uv__handle_init_def Let_def)
  have "filter (\<lambda>x. counted pf (hflags ?s x)) hs = filter (\<lambda>x. counted pf (hflags s x)) hs"
    using assms(2) by (intro filter_cong) (auto simp: f)
  moreover have "\<not> counted pf (hflags ?s h)" by (simp add: f counted_def flag_simps)
  moreover have "active_handles ?s = active_handles s" by (simp add: uv__handle_init_def Let_def)
  ultimately show ?thesis using assms(1) by (simp add: core_ok_def)
qed

text \<open>\<open>uv__has_active_handles\<close> means what it says while there are fewer than $2^{32}$ handles.\<close>

lemma has_active_handles_iff:
  assumes "core_ok pf hs s" "length hs < 2 ^ 32"
  shows "uv__has_active_handles s \<longleftrightarrow> (\<exists>h \<in> set hs. counted pf (hflags s h))"
proof -
  let ?n = "length (filter (\<lambda>h. counted pf (hflags s h)) hs)"
  have n: "?n < 2 ^ 32" using assms(2) le_less_trans[OF length_filter_le] by blast
  then have "unat (of_nat ?n :: u32) = ?n" by (simp add: unat_of_nat take_bit_nat_eq_self)
  then have "(0 < (of_nat ?n :: u32)) = (0 < ?n)" by (simp add: word_less_nat_alt)
  also have "(0 < ?n) = (\<exists>h \<in> set hs. counted pf (hflags s h))" by (simp add: filter_empty_conv)
  finally show ?thesis using assms(1) by (simp add: uv__has_active_handles_def core_ok_def)
qed


section \<open>Walking the handles\<close>

text \<open>What \<open>uv_walk\<close> is to do: every handle goes back into the loop's queue, then the callback
  sees it unless it is internal.\<close>

definition put_back :: "ptr \<Rightarrow> 'a core_scheme \<Rightarrow> 'a core_scheme" where
  "put_back h s = s\<lparr>handle_q := QUEUE_INSERT_TAIL HEAD h (QUEUE_REMOVE h (handle_q s))\<rparr>"

fun visit_all :: "platform \<Rightarrow> (ptr \<Rightarrow> 'a core_scheme \<Rightarrow> 'a core_scheme option) \<Rightarrow> ptr list
    \<Rightarrow> 'a core_scheme \<Rightarrow> 'a core_scheme option" where
  "visit_all pf cb [] s = Some s"
| "visit_all pf cb (h # hs) s =
     (if has_flag (hflags (put_back h s) h) (UV__HANDLE_INTERNAL pf)
      then visit_all pf cb hs (put_back h s)
      else Option.bind (cb h (put_back h s)) (visit_all pf cb hs))"

text \<open>What a callback may do to the queue of handles: leave the handles not visited yet where
  they are, and append handles it initialises.\<close>

definition walk_safe :: "(ptr \<Rightarrow> 'a core_scheme \<Rightarrow> 'a core_scheme option) \<Rightarrow> bool" where
  "walk_safe cb \<longleftrightarrow> (\<forall>h s ls ds. qring (handle_q s) LOCAL ls \<longrightarrow> qring (handle_q s) HEAD ds \<longrightarrow>
     insert LOCAL (set ls) \<inter> insert HEAD (set ds) = {} \<longrightarrow>
     (\<exists>s' new. cb h s = Some s' \<and> qring (handle_q s') LOCAL ls \<and> qring (handle_q s') HEAD (ds @ new) \<and>
        insert LOCAL (set ls) \<inter> insert HEAD (set (ds @ new)) = {}))"

lemma walk_handles_visits:
  assumes cb: "walk_safe cb"
    and "qring (handle_q s) LOCAL ls" "qring (handle_q s) HEAD ds"
      "insert LOCAL (set ls) \<inter> insert HEAD (set ds) = {}"
  shows "\<exists>s' new. walk_handles pf cb s = Some s' \<and> visit_all pf cb ls s = Some s' \<and>
    qring (handle_q s') HEAD (ds @ new) \<and> set ls \<subseteq> set new"
  using assms(2-)
proof (induction ls arbitrary: s ds)
  case Nil
  then have "QUEUE_EMPTY LOCAL (handle_q s)" using uvq.ring_is_empty by blast
  then have "walk_handles pf cb s = Some s" by (subst walk_handles.simps) simp
  with Nil show ?case by (intro exI[of _ s] exI[of _ "[]"]) simp
next
  case (Cons h ls)
  have ne: "\<not> QUEUE_EMPTY LOCAL (handle_q s)" "QUEUE_HEAD LOCAL (handle_q s) = h"
    using uvq.ring_is_empty[OF Cons.prems(1)] uvq.ring_first[OF Cons.prems(1)] by auto
  let ?s = "put_back h s"
  have r: "qring (handle_q ?s) LOCAL ls" "qring (handle_q ?s) HEAD (ds @ [h])"
    using uvq.rotate_ring[OF Cons.prems] by (simp_all add: put_back_def)
  have d: "insert LOCAL (set ls) \<inter> insert HEAD (set (ds @ [h])) = {}"
    using Cons.prems(3) uvq.ring_distinct[OF Cons.prems(1)] by auto
  have w: "walk_handles pf cb s =
      (if has_flag (hflags ?s h) (UV__HANDLE_INTERNAL pf) then walk_handles pf cb ?s
       else Option.bind (cb h ?s) (walk_handles pf cb))"
    using ne by (subst walk_handles.simps) (simp add: Let_def put_back_def)
  show ?case
  proof (cases "has_flag (hflags ?s h) (UV__HANDLE_INTERNAL pf)")
    case True
    obtain s' new where "walk_handles pf cb ?s = Some s'" "visit_all pf cb ls ?s = Some s'"
        "qring (handle_q s') HEAD ((ds @ [h]) @ new)" "set ls \<subseteq> set new"
      using Cons.IH[OF r d] by blast
    then show ?thesis using w True by (intro exI[of _ s'] exI[of _ "h # new"]) auto
  next
    case False
    obtain s1 new1 where s1: "cb h ?s = Some s1" "qring (handle_q s1) LOCAL ls"
        "qring (handle_q s1) HEAD ((ds @ [h]) @ new1)"
        "insert LOCAL (set ls) \<inter> insert HEAD (set ((ds @ [h]) @ new1)) = {}"
      using cb r d unfolding walk_safe_def by blast
    obtain s' new where "walk_handles pf cb s1 = Some s'" "visit_all pf cb ls s1 = Some s'"
        "qring (handle_q s') HEAD (((ds @ [h]) @ new1) @ new)" "set ls \<subseteq> set new"
      using Cons.IH[OF s1(2-4)] by blast
    then show ?thesis using w False s1(1) by (intro exI[of _ s'] exI[of _ "h # new1 @ new"]) auto
  qed
qed

section \<open>Properties\<close>

text \<open>The calls a program makes on the handles of a loop.\<close>

datatype handle_op = HInit ptr handle_type | HStart ptr | HStop ptr | HRef ptr | HUnref ptr

fun run_hop :: "platform \<Rightarrow> handle_op \<Rightarrow> 'a core_scheme \<Rightarrow> 'a core_scheme option" where
  "run_hop pf (HInit h t) s = Some (uv__handle_init pf h t s)"
| "run_hop pf (HStart h) s = uv__handle_start pf h s"
| "run_hop pf (HStop h) s = uv__handle_stop pf h s"
| "run_hop pf (HRef h) s = Some (uv_ref pf h s)"
| "run_hop pf (HUnref h) s = Some (uv_unref pf h s)"

inductive hrun :: "platform \<Rightarrow> ptr list \<Rightarrow> 'a core_scheme \<Rightarrow> handle_op list \<Rightarrow> ptr list \<Rightarrow> 'a core_scheme \<Rightarrow> bool" where
  hrun_nil: "hrun pf hs s [] hs s"
| hrun_init: "h \<notin> insert HEAD (set hs) \<Longrightarrow> hrun pf (hs @ [h]) (uv__handle_init pf h t s) ops hs' s' \<Longrightarrow>
    hrun pf hs s (HInit h t # ops) hs' s'"
| hrun_op: "op \<in> {HStart h, HStop h, HRef h, HUnref h} \<Longrightarrow> h \<in> set hs \<Longrightarrow> run_hop pf op s = Some s1 \<Longrightarrow>
    hrun pf hs s1 ops hs' s' \<Longrightarrow> hrun pf hs s (op # ops) hs' s'"

lemma run_hop_ok:
  assumes "core_ok pf hs s" "op \<in> {HStart h, HStop h, HRef h, HUnref h}" "h \<in> set hs"
    "run_hop pf op s = Some s'"
  shows "core_ok pf hs s'"
  using assms uv__handle_start_ok(1)[OF assms(1,3)] uv__handle_stop_ok(1)[OF assms(1,3)]
    uv__handle_ref_ok[OF assms(1,3)] uv__handle_unref_ok[OF assms(1,3)]
  by (auto simp: uv_ref_def uv_unref_def)

text \<open>
  C27: on both platforms, after any sequence of initialising, starting, stopping, referencing
  and unreferencing handles, repeated calls included, the 32-bit counter \<open>active_handles\<close> is the
  number of handles that are active and referenced (or closing, on Windows), and so the loop
  has active handles exactly if there is such a handle.
\<close>

theorem active_handles_counts:
  assumes "hrun pf hs s ops hs' s'" "core_ok pf hs s" "length hs' < 2 ^ 32"
  shows "active_handles s' = of_nat (length (filter (\<lambda>h. counted pf (hflags s' h)) hs')) \<and>
    (uv__has_active_handles s' \<longleftrightarrow> (\<exists>h \<in> set hs'. counted pf (hflags s' h)))"
proof -
  have "core_ok pf hs' s'"
    using assms(1,2) by (induction rule: hrun.induct) (auto intro: uv__handle_init_ok run_hop_ok)
  then show ?thesis using has_active_handles_iff[OF _ assms(3)] by (auto simp: core_ok_def)
qed

definition empty_core :: core where
  "empty_core = \<lparr>handles = \<lambda>_. \<lparr>htype = UV_UNKNOWN_HANDLE, flags = 0, close_cb = 0, next_closing = 0,
      timer_cb = 0, timeout = 0, repeat = 0, start_id = 0, watcher_cb = 0, watcher_next = 0,
      watcher_prev = 0, endgame_next = 0\<rparr>,
    handle_q = QUEUE_INIT HEAD \<lparr>qnext = \<lambda>_. 0, qprev = \<lambda>_. 0\<rparr>,
    active_reqs = QUEUE_INIT HEAD \<lparr>qnext = \<lambda>_. 0, qprev = \<lambda>_. 0\<rparr>, active_handles = 0\<rparr>"

lemma empty_core_ok: "core_ok pf [] empty_core"
  by (simp add: core_ok_def empty_core_def qring_INIT)

theorem active_handles_counts_witness:
  "\<exists>s'. hrun Unix [] empty_core [HInit 9 UV_TIMER, HStart 9, HStart 9] [9] s' \<and>
    active_handles s' = 1 \<and> uv__has_active_handles s'"
proof -
  let ?s = "uv__handle_init Unix 9 UV_TIMER empty_core"
  define s1 where "s1 = the (uv__handle_start Unix 9 ?s)"
  have f: "hflags ?s 9 = 0x2000" by (simp add: uv__handle_init_def Let_def)
  then have s1: "uv__handle_start Unix 9 ?s = Some s1"
    by (simp add: s1_def uv__handle_start_def has_flag_def)
  have f1: "hflags s1 9 = 0x6000"
    using f by (simp add: s1_def uv__handle_start_def has_flag_def Let_def uv__active_handle_add_def)
  have s11: "uv__handle_start Unix 9 s1 = Some s1" using f1 by (simp add: uv__handle_start_def has_flag_def)
  have run: "hrun Unix [] empty_core [HInit 9 UV_TIMER, HStart 9, HStart 9] [9] s1"
  proof (rule hrun_init)
    have r1: "hrun Unix [9] s1 [HStart 9] [9] s1"
      by (rule hrun_op[where h = 9, OF _ _ _ hrun_nil]) (use s11 in simp_all)
    have "hrun Unix [9] ?s [HStart 9, HStart 9] [9] s1"
      by (rule hrun_op[where h = 9, OF _ _ _ r1]) (use s1 in simp_all)
    then show "hrun Unix ([] @ [9]) ?s [HStart 9, HStart 9] [9] s1" by simp
  qed (simp add: HEAD_def)
  from active_handles_counts[OF run empty_core_ok] run f1 show ?thesis
    by (auto simp: counted_def has_flag_def)
qed

text \<open>
  \<open>uv_walk\<close> ends and calls the callback once for every handle of the loop that is not
  internal, in the order of the queue, although every handle is moved while it runs; handles
  the callback initialises stay in the queue and are not visited.
\<close>

theorem uv_walk_visits_each_handle:
  assumes "walk_safe cb" "qring (handle_q s) HEAD hs" "LOCAL \<notin> set hs"
  shows "\<exists>s' new. uv_walk pf cb s = Some s' \<and>
    visit_all pf cb hs (s\<lparr>handle_q := QUEUE_MOVE HEAD LOCAL (handle_q s)\<rparr>) = Some s' \<and>
    qring (handle_q s') HEAD new \<and> set hs \<subseteq> set new"
proof -
  let ?s = "s\<lparr>handle_q := QUEUE_MOVE HEAD LOCAL (handle_q s)\<rparr>"
  have n: "LOCAL \<notin> insert HEAD (set hs)" using assms(3) by (simp add: HEAD_def LOCAL_def)
  have "qring (handle_q ?s) LOCAL hs" "qring (handle_q ?s) HEAD []"
    using qring_MOVE[OF assms(2) n] by simp_all
  moreover have "insert LOCAL (set hs) \<inter> insert HEAD (set []) = {}"
    using qring_distinct[OF assms(2)] by (auto simp: HEAD_def LOCAL_def)
  ultimately show ?thesis
    using walk_handles_visits[OF assms(1), of ?s hs "[]" pf] by (auto simp: uv_walk_def)
qed

theorem uv_walk_visits_each_handle_witness:
  "\<exists>s'. uv_walk Windows (\<lambda>h s. Some (uv_unref Windows h s)) (uv__handle_init Windows 9 UV_TCP empty_core) = Some s' \<and>
    \<not> uv_has_ref Windows 9 s'"
proof -
  have hq: "handle_q (uv_unref Windows h s) = handle_q s" for h and s :: core
    by (simp add: uv_unref_def uv__handle_unref_def Let_def uv__active_handle_rm_def)
  have safe: "walk_safe (\<lambda>h (s :: core). Some (uv_unref Windows h s))"
    unfolding walk_safe_def by (auto simp: hq intro!: exI[of _ "[]"])
  have ring: "qring (handle_q (uv__handle_init Windows 9 UV_TCP empty_core)) HEAD [9]"
    using core_ok_ring[OF uv__handle_init_ok[OF empty_core_ok]] by (simp add: HEAD_def)
  from uv_walk_visits_each_handle[OF safe ring, of Windows] show ?thesis
    by (auto simp: LOCAL_def put_back_def uv__handle_init_def has_flag_def uv_unref_def
        uv__handle_unref_def uv_has_ref_def uv__has_ref_def Let_def uv__active_handle_rm_def
        split: if_splits)
qed

end
