(* ===== verification/Uv_Timer.thy ===== *)
theory Uv_Timer
  imports Uv_Handle Uv_Heap_Order
begin

text \<open>
  \<open>src/unix/timer.c\<close>: timers on the loop's heap. The record of the Unix loop is declared here;
  the node of a timer in the heap has the timer's address. A callback is an address, and
  \<open>call f h\<close> is what the program's function at \<open>f\<close> does with the handle \<open>h\<close>.
\<close>

unbundle bit_operations_syntax

section \<open>The loop\<close>

record uvloop = core +
  time :: u64
  timer_counter :: u64
  timer_heap :: hheap
  stop_flag :: u32
  closing_handles :: ptr
  watcher_q :: qstore

type_synonym 'a callbacks = "ptr \<Rightarrow> ptr \<Rightarrow> 'a uvloop_scheme \<Rightarrow> 'a uvloop_scheme option"

abbreviation timer_timeout :: "'a core_scheme \<Rightarrow> ptr \<Rightarrow> u64" where
  "timer_timeout s h \<equiv> timeout (handles s h)"

abbreviation timer_start_id :: "'a core_scheme \<Rightarrow> ptr \<Rightarrow> u64" where
  "timer_start_id s h \<equiv> start_id (handles s h)"

section \<open>The operations\<close>

definition timer_less_than :: "'a core_scheme \<Rightarrow> ptr \<Rightarrow> ptr \<Rightarrow> bool" where
  "timer_less_than s a b =
     (if timer_timeout s a < timer_timeout s b then True
      else if timer_timeout s b < timer_timeout s a then False
      else if timer_start_id s a < timer_start_id s b then True
      else if timer_start_id s b < timer_start_id s a then False
      else False)"

definition uv_timer_init :: "ptr \<Rightarrow> 'a uvloop_scheme \<Rightarrow> rc \<times> 'a uvloop_scheme" where
  "uv_timer_init h s =
     (let s1 = uv__handle_init Unix h UV_TIMER s;
          s2 = upd_handle h (\<lambda>x. x\<lparr>timer_cb := NULL\<rparr>) s1
      in (OK, upd_handle h (\<lambda>x. x\<lparr>repeat := 0\<rparr>) s2))"

definition uv_timer_stop :: "ptr \<Rightarrow> 'a uvloop_scheme \<Rightarrow> (rc \<times> 'a uvloop_scheme) option" where
  "uv_timer_stop h s =
     (if \<not> uv__is_active Unix h s then Some (OK, s)
      else
        Option.bind (heap_remove (timer_less_than s) h (timer_heap s)) (\<lambda>q.
        Option.bind (uv__handle_stop Unix h (s\<lparr>timer_heap := q\<rparr>)) (\<lambda>s1.
        Some (OK, s1))))"

definition clamped_timeout :: "u64 \<Rightarrow> u64 \<Rightarrow> u64" where
  "clamped_timeout now t = (let c = now + t in if c < t then - 1 else c)"

definition uv_timer_start ::
    "ptr \<Rightarrow> ptr \<Rightarrow> u64 \<Rightarrow> u64 \<Rightarrow> 'a uvloop_scheme \<Rightarrow> (rc \<times> 'a uvloop_scheme) option" where
  "uv_timer_start h cb t rep s =
     (if cb = NULL then Some (Fail EINVAL, s)
      else
        Option.bind (if uv__is_active Unix h s then uv_timer_stop h s else Some (OK, s)) (\<lambda>(_, s1).
        let s2 = upd_handle h (\<lambda>x. x\<lparr>timer_cb := cb\<rparr>) s1;
            s3 = upd_handle h (\<lambda>x. x\<lparr>timeout := clamped_timeout (time s1) t\<rparr>) s2;
            s4 = upd_handle h (\<lambda>x. x\<lparr>repeat := rep\<rparr>) s3;
            s5 = upd_handle h (\<lambda>x. x\<lparr>start_id := timer_counter s4\<rparr>) s4;
            s6 = s5\<lparr>timer_counter := timer_counter s5 + 1\<rparr>
        in Option.bind (heap_insert (timer_less_than s6) h (timer_heap s6)) (\<lambda>q.
           Option.bind (uv__handle_start Unix h (s6\<lparr>timer_heap := q\<rparr>)) (\<lambda>s7.
           Some (OK, s7)))))"

definition uv_timer_again :: "ptr \<Rightarrow> 'a uvloop_scheme \<Rightarrow> (rc \<times> 'a uvloop_scheme) option" where
  "uv_timer_again h s =
     (if timer_cb (handles s h) = NULL then Some (Fail EINVAL, s)
      else if repeat (handles s h) \<noteq> 0 then
        Option.bind (uv_timer_stop h s) (\<lambda>(_, s1).
        Option.bind (uv_timer_start h (timer_cb (handles s1 h)) (repeat (handles s1 h))
                       (repeat (handles s1 h)) s1) (\<lambda>(_, s2).
        Some (OK, s2)))
      else Some (OK, s))"

definition uv_timer_set_repeat :: "ptr \<Rightarrow> u64 \<Rightarrow> 'a uvloop_scheme \<Rightarrow> 'a uvloop_scheme" where
  "uv_timer_set_repeat h rep s = upd_handle h (\<lambda>x. x\<lparr>repeat := rep\<rparr>) s"

definition uv_timer_get_repeat :: "ptr \<Rightarrow> 'a uvloop_scheme \<Rightarrow> u64" where
  "uv_timer_get_repeat h s = repeat (handles s h)"

definition INT_MAX :: int where "INT_MAX = 2147483647"

definition uv__next_timeout :: "'a uvloop_scheme \<Rightarrow> int" where
  "uv__next_timeout s =
     (let h = heap_min (timer_heap s)
      in if h = NULL then -1
         else if timer_timeout s h \<le> time s then 0
         else
           (let diff = timer_timeout s h - time s
            in if INT_MAX < uint diff then INT_MAX else uint diff))"

text \<open>One turn of the loop of \<open>uv__run_timers\<close> stops the least timer if it is due, restarts it
  if it repeats and calls its callback.\<close>

partial_function (option) uv__run_timers ::
    "'a callbacks \<Rightarrow> 'a uvloop_scheme \<Rightarrow> 'a uvloop_scheme option" where
  "uv__run_timers call s =
     (let h = heap_min (timer_heap s)
      in if h = NULL then Some s
         else if time s < timer_timeout s h then Some s
         else
           Option.bind (uv_timer_stop h s) (\<lambda>(_, s1).
           Option.bind (uv_timer_again h s1) (\<lambda>(_, s2).
           Option.bind (if timer_cb (handles s2 h) = NULL then None
                        else call (timer_cb (handles s2 h)) h s2)
             (uv__run_timers call))))"

definition uv__timer_close :: "ptr \<Rightarrow> 'a uvloop_scheme \<Rightarrow> 'a uvloop_scheme option" where
  "uv__timer_close h s = Option.bind (uv_timer_stop h s) (\<lambda>(_, s1). Some s1)"

section \<open>The order of timers\<close>

lemma timer_less_than_iff:
  "timer_less_than s a b \<longleftrightarrow> timer_timeout s a < timer_timeout s b \<or>
     (timer_timeout s a = timer_timeout s b \<and> timer_start_id s a < timer_start_id s b)"
  by (auto simp: timer_less_than_def)

interpretation timer_order: heap_order "timer_less_than s" for s
  by unfold_locales (auto simp: timer_less_than_iff)

lemma heap_order_timers: "heap_order (timer_less_than s)"
  by (rule timer_order.heap_order_axioms)

lemma timer_less_than_cong:
  "timer_timeout s' a = timer_timeout s a \<Longrightarrow> timer_start_id s' a = timer_start_id s a \<Longrightarrow>
   timer_timeout s' b = timer_timeout s b \<Longrightarrow> timer_start_id s' b = timer_start_id s b \<Longrightarrow>
   timer_less_than s' a b = timer_less_than s a b"
  by (simp add: timer_less_than_def)

section \<open>The invariant\<close>

definition is_timer :: "'a core_scheme \<Rightarrow> ptr \<Rightarrow> bool" where
  "is_timer s h \<longleftrightarrow> htype (handles s h) = UV_TIMER"

definition active_timers :: "ptr list \<Rightarrow> 'a core_scheme \<Rightarrow> ptr set" where
  "active_timers hs s = {h \<in> set hs. is_timer s h \<and> uv__is_active Unix h s}"

text \<open>The heap holds exactly the active timers of the loop, in the order of their due times, and
  each of them has a callback.\<close>

definition timers_ok :: "ptr list \<Rightarrow> 'a uvloop_scheme \<Rightarrow> bool" where
  "timers_ok hs s \<longleftrightarrow> core_ok Unix hs s \<and> NULL \<notin> set hs \<and> length hs < 2 ^ 32 \<and>
     heap_holds (timer_less_than s) (timer_heap s) (active_timers hs s) \<and>
     (\<forall>h \<in> active_timers hs s. timer_cb (handles s h) \<noteq> NULL)"

lemma timers_okD:
  assumes "timers_ok hs s"
  shows "core_ok Unix hs s" "NULL \<notin> set hs" "length hs < 2 ^ 32" "distinct hs"
    "heap_holds (timer_less_than s) (timer_heap s) (active_timers hs s)"
    "h \<in> active_timers hs s \<Longrightarrow> timer_cb (handles s h) \<noteq> NULL"
  using assms core_ok_distinct[of Unix hs s] by (auto simp: timers_ok_def)

lemma uvloop_more:
  assumes "core.more s = core.more t"
  shows "time s = time t" "timer_counter s = timer_counter t" "timer_heap s = timer_heap t"
    "stop_flag s = stop_flag t" "closing_handles s = closing_handles t" "watcher_q s = watcher_q t"
    "uvloop.more s = uvloop.more t"
  using assms by (cases s; cases t; simp)+

lemma uvloop_upd_handle [simp]:
  "time (upd_handle h f s) = time s" "timer_counter (upd_handle h f s) = timer_counter s"
  "timer_heap (upd_handle h f s) = timer_heap s" "stop_flag (upd_handle h f s) = stop_flag s"
  "closing_handles (upd_handle h f s) = closing_handles s" "watcher_q (upd_handle h f s) = watcher_q s"
  "uvloop.more (upd_handle h f s) = uvloop.more s"
  by (simp_all add: upd_handle_def)

lemma card_active_timers: "card (active_timers hs s) \<le> length hs"
proof -
  have "card (active_timers hs s) \<le> card (set hs)" by (rule card_mono) (auto simp: active_timers_def)
  then show ?thesis using card_length[of hs] by simp
qed

lemma unix_start_total: "\<exists>s'. uv__handle_start Unix h s = Some s'"
  and unix_stop_total: "\<exists>s'. uv__handle_stop Unix h s = Some s'"
  by (simp_all add: uv__handle_start_def uv__handle_stop_def flag_simps Let_def)

section \<open>Stopping\<close>

text \<open>What stopping leaves alone.\<close>

definition only_flags :: "ptr \<Rightarrow> 'a core_scheme \<Rightarrow> 'a core_scheme \<Rightarrow> bool" where
  "only_flags h s s' \<longleftrightarrow> (\<exists>f. handles s' = (handles s)(h := (handles s h)\<lparr>flags := f\<rparr>))"

lemma only_flags_fields:
  assumes "only_flags h s s'"
  shows "timer_timeout s' x = timer_timeout s x" "timer_start_id s' x = timer_start_id s x"
    "timer_cb (handles s' x) = timer_cb (handles s x)" "repeat (handles s' x) = repeat (handles s x)"
    "is_timer s' x = is_timer s x" "x \<noteq> h \<Longrightarrow> handles s' x = handles s x"
  using assms by (auto simp: only_flags_def is_timer_def split: if_splits)

lemma only_flags_less: "only_flags h s s' \<Longrightarrow> timer_less_than s' a b = timer_less_than s a b"
  by (intro timer_less_than_cong) (simp_all add: only_flags_fields)

lemma only_flags_refl: "only_flags h s s"
  by (auto simp: only_flags_def intro!: exI[of _ "flags (handles s h)"])

lemma uv_timer_stop_ok:
  assumes ok: "timers_ok hs s" and h: "h \<in> set hs" "is_timer s h"
  shows "\<exists>s'. uv_timer_stop h s = Some (OK, s') \<and> timers_ok hs s' \<and>
    active_timers hs s' = active_timers hs s - {h} \<and> only_flags h s s' \<and> \<not> uv__is_active Unix h s' \<and>
    time s' = time s \<and> timer_counter s' = timer_counter s \<and> uvloop.more s' = uvloop.more s"
proof (cases "uv__is_active Unix h s")
  case False
  then have "h \<notin> active_timers hs s" by (simp add: active_timers_def)
  with False ok show ?thesis by (intro exI[of _ s]) (auto simp: uv_timer_stop_def only_flags_refl)
next
  case True
  let ?T = "active_timers hs s"
  have T: "h \<in> ?T" using True h by (simp add: active_timers_def)
  note d = timers_okD[OF ok]
  obtain q where q: "heap_remove (timer_less_than s) h (timer_heap s) = Some q"
      "heap_holds (timer_less_than s) q (?T - {h})"
    using uvh.holds_del[OF heap_order_timers d(5) T] by blast
  let ?s = "s\<lparr>timer_heap := q\<rparr>"
  obtain s' where s': "uv__handle_stop Unix h ?s = Some s'" using unix_stop_total by blast
  have core: "core_ok Unix hs ?s" using d(1) by (simp add: core_ok_def)
  note st = uv__handle_stop_ok[OF core h(1) s']
  have m: "time s' = time s" "timer_counter s' = timer_counter s" "timer_heap s' = q"
    "uvloop.more s' = uvloop.more s"
    using uvloop_more[OF st(5)] by simp_all
  have of: "only_flags h s s'"
    using st(6) only_flags_refl[of h s] by (auto simp: only_flags_def)
  have act: "uv__is_active Unix x s' \<longleftrightarrow> x \<noteq> h \<and> uv__is_active Unix x s" for x
    using st(2) only_flags_fields(6)[OF of, of x] by (cases "x = h") (auto simp: uv__is_active_def)
  have T': "active_timers hs s' = ?T - {h}"
    by (auto simp: active_timers_def act only_flags_fields(5)[OF of])
  have "heap_holds (timer_less_than s') q (?T - {h})"
    using q(2) uvh.holds_cong only_flags_less[OF of] by blast
  then have "timers_ok hs s'"
    using st(1) d by (auto simp: timers_ok_def T' m(3) only_flags_fields[OF of])
  with True q(1) s' m of T' st(2) show ?thesis by (intro exI[of _ s']) (simp add: uv_timer_stop_def)
qed


section \<open>Starting\<close>

text \<open>The due time as a number: the sum, or the greatest 64-bit number if the sum has no room.\<close>

lemma clamped_timeout_value:
  "unat (clamped_timeout now t) = min (unat now + unat t) (2 ^ 64 - 1)"
proof (cases "unat now + unat t < 2 ^ 64")
  case True
  then have "unat (now + t) = unat now + unat t" by (subst unat_add_lem[THEN iffD1]) simp_all
  with True show ?thesis by (simp add: clamped_timeout_def Let_def word_less_nat_alt)
next
  case False
  have b: "unat now < 2 ^ 64" "unat t < 2 ^ 64"
    using unsigned_less[of now] unsigned_less[of t] by simp_all
  have "unat (now + t) = (unat now + unat t) mod 2 ^ 64" by (simp add: unat_word_ariths)
  also have "\<dots> = unat now + unat t - 2 ^ 64"
    using False b by (subst mod_if) (simp add: mod_if)
  finally have "now + t < t" using False b by (simp add: word_less_nat_alt)
  moreover have "unat (- 1 :: u64) = 2 ^ 64 - 1"
    by (simp only: unsigned_minus_1_eq_mask) (simp add: mask_eq_exp_minus_1)
  ultimately show ?thesis using False by (simp add: clamped_timeout_def Let_def)
qed

definition started :: "ptr \<Rightarrow> ptr \<Rightarrow> u64 \<Rightarrow> u64 \<Rightarrow> 'a uvloop_scheme \<Rightarrow> 'a uvloop_scheme \<Rightarrow> bool" where
  "started h cb t rep s s' \<longleftrightarrow>
     timer_cb (handles s' h) = cb \<and> timer_timeout s' h = clamped_timeout (time s) t \<and>
     repeat (handles s' h) = rep \<and> timer_start_id s' h = timer_counter s \<and>
     is_timer s' h = is_timer s h \<and> uv__is_active Unix h s' \<and>
     (\<forall>x. x \<noteq> h \<longrightarrow> handles s' x = handles s x) \<and>
     time s' = time s \<and> timer_counter s' = timer_counter s + 1 \<and> uvloop.more s' = uvloop.more s"

lemma uv_timer_start_ok:
  assumes ok: "timers_ok hs s" and h: "h \<in> set hs" "is_timer s h" and cb: "cb \<noteq> NULL"
  shows "\<exists>s'. uv_timer_start h cb t rep s = Some (OK, s') \<and> timers_ok hs s' \<and>
    active_timers hs s' = insert h (active_timers hs s) \<and> started h cb t rep s s'"
proof -
  obtain s1 where s1: "(if uv__is_active Unix h s then uv_timer_stop h s else Some (OK, s)) = Some (OK, s1)"
      "timers_ok hs s1" "active_timers hs s1 = active_timers hs s - {h}" "only_flags h s s1"
      "\<not> uv__is_active Unix h s1" "time s1 = time s" "timer_counter s1 = timer_counter s"
      "uvloop.more s1 = uvloop.more s"
    using uv_timer_stop_ok[OF ok h] ok only_flags_refl[of h s]
    by (cases "uv__is_active Unix h s") (auto simp: active_timers_def)
  note d = timers_okD[OF s1(2)]
  define f where "f = (\<lambda>x :: handle. x\<lparr>timer_cb := cb, timeout := clamped_timeout (time s1) t, repeat := rep,
      start_id := timer_counter s1\<rparr>)"
  define s6 where "s6 = (upd_handle h f s1)\<lparr>timer_counter := timer_counter s1 + 1\<rparr>"
  have h6: "handles s6 = (handles s1)(h := f (handles s1 h))" "active_handles s6 = active_handles s1"
    "handle_q s6 = handle_q s1" "timer_heap s6 = timer_heap s1" "time s6 = time s1"
    "timer_counter s6 = timer_counter s1 + 1" "uvloop.more s6 = uvloop.more s1"
    by (simp_all add: s6_def)
  have fl: "hflags s6 x = hflags s1 x" for x by (simp add: h6 f_def)
  let ?T = "active_timers hs s - {h}"
  have "heap_holds (timer_less_than s6) (timer_heap s1) ?T"
  proof (rule uvh.holds_cong[OF d(5)[unfolded s1(3)]])
    show "\<forall>a \<in> ?T. \<forall>b \<in> ?T. timer_less_than s6 a b = timer_less_than s1 a b"
      by (intro ballI timer_less_than_cong) (auto simp: h6)
  qed
  moreover have "card ?T + 1 < 2 ^ 32"
  proof -
    have T: "finite ?T" "insert h ?T \<subseteq> set hs" using h(1) by (auto simp: active_timers_def)
    then have "card (insert h ?T) \<le> length hs"
      by (metis List.finite_set card_length card_mono le_trans)
    moreover have "card (insert h ?T) = card ?T + 1" using card_insert_disjoint[OF T(1), of h] by simp
    ultimately show ?thesis using d(3) by linarith
  qed
  moreover have "h \<noteq> NULL" using d(2) h(1) by metis
  ultimately obtain q where q: "heap_insert (timer_less_than s6) h (timer_heap s6) = Some q"
      "heap_holds (timer_less_than s6) q (insert h ?T)"
    using uvh.holds_ins[OF heap_order_timers, of s6 "timer_heap s1" ?T h] h6(4) by auto
  let ?s = "s6\<lparr>timer_heap := q\<rparr>"
  obtain s' where s': "uv__handle_start Unix h ?s = Some s'" using unix_start_total by blast
  have core: "core_ok Unix hs ?s" using d(1) by (simp add: core_ok_def h6(2,3) fl)
  note st = uv__handle_start_ok[OF core h(1) s']
  have m: "time s' = time s" "timer_counter s' = timer_counter s + 1" "timer_heap s' = q"
    "uvloop.more s' = uvloop.more s"
    using uvloop_more[OF st(5)] by (simp_all add: h6 s1(6-8))
  have of: "only_flags h ?s s'"
    using st(6) only_flags_refl[of h ?s] by (auto simp: only_flags_def)
  note same = only_flags_fields[OF of]
  have other: "handles s' x = handles s x" if "x \<noteq> h" for x
    using same(6)[OF that] only_flags_fields(6)[OF s1(4) that] that by (simp add: h6)
  have tm: "is_timer s' x = is_timer s x" for x
    using same(5)[of x] only_flags_fields(5)[OF s1(4), of x] by (auto simp: is_timer_def h6 f_def)
  have act: "uv__is_active Unix x s' \<longleftrightarrow> x = h \<or> uv__is_active Unix x s" for x
    using st(2) other[of x] by (cases "x = h") (auto simp: uv__is_active_def)
  have T': "active_timers hs s' = insert h (active_timers hs s)"
    using h by (auto simp: active_timers_def act tm)
  have T'': "active_timers hs s' = insert h ?T" unfolding T' by blast
  have hold: "heap_holds (timer_less_than s') q (insert h ?T)"
  proof (rule uvh.holds_cong[OF q(2)])
    show "\<forall>a \<in> insert h ?T. \<forall>b \<in> insert h ?T. timer_less_than s' a b = timer_less_than s6 a b"
      by (intro ballI timer_less_than_cong) (auto simp: same)
  qed
  have at_h: "timer_cb (handles s' h) = cb" "timer_timeout s' h = clamped_timeout (time s) t"
    "repeat (handles s' h) = rep" "timer_start_id s' h = timer_counter s"
    by (simp_all only: same) (simp_all add: h6 f_def s1(6,7))
  have "timer_cb (handles s' x) \<noteq> NULL" if "x \<in> insert h ?T" for x
    using that d(6)[of x] cb at_h(1) same(3)[of x] by (cases "x = h") (auto simp: h6 s1(3))
  with hold have "timers_ok hs s'"
    using st(1) d(2,3) unfolding timers_ok_def T'' m(3) by blast
  moreover have "started h cb t rep s s'"
    unfolding started_def using st(2) at_h other tm m(1,2,4) by blast
  moreover have "uv_timer_start h cb t rep s = Some (OK, s')"
  proof -
    have "s6 = upd_handle h (\<lambda>x. x\<lparr>start_id := timer_counter s1\<rparr>)
        (upd_handle h (\<lambda>x. x\<lparr>repeat := rep\<rparr>)
        (upd_handle h (\<lambda>x. x\<lparr>timeout := clamped_timeout (time s1) t\<rparr>)
        (upd_handle h (\<lambda>x. x\<lparr>timer_cb := cb\<rparr>) s1)))\<lparr>timer_counter := timer_counter s1 + 1\<rparr>"
      by (simp add: s6_def f_def upd_handle_def)
    then show ?thesis using cb s1(1) q(1) s' by (simp add: uv_timer_start_def Let_def)
  qed
  ultimately show ?thesis using T' by blast
qed


section \<open>Running\<close>

definition due_timers :: "ptr list \<Rightarrow> 'a uvloop_scheme \<Rightarrow> ptr set" where
  "due_timers hs s = {h \<in> active_timers hs s. timer_timeout s h \<le> time s}"

lemma heap_min_timers:
  assumes "timers_ok hs s"
  shows "heap_min (timer_heap s) = NULL \<longleftrightarrow> active_timers hs s = {}"
    and "active_timers hs s \<noteq> {} \<Longrightarrow> heap_min (timer_heap s) \<in> active_timers hs s \<and>
      (\<forall>y \<in> active_timers hs s. \<not> timer_less_than s y (heap_min (timer_heap s)))"
  using uvh.least_NULL[OF heap_order_timers timers_okD(5)[OF assms]]
    uvh.least_least[OF heap_order_timers timers_okD(5)[OF assms]] by auto

lemma least_timeout:
  "timers_ok hs s \<Longrightarrow> y \<in> active_timers hs s \<Longrightarrow>
   timer_timeout s (heap_min (timer_heap s)) \<le> timer_timeout s y"
  using heap_min_timers(2)[of hs s] by (fastforce simp: timer_less_than_iff not_less)

text \<open>The loop of \<open>uv__run_timers\<close> goes on exactly while some timer is due.\<close>

lemma due_timers_empty_iff:
  assumes "timers_ok hs s"
  shows "due_timers hs s = {} \<longleftrightarrow>
    heap_min (timer_heap s) = NULL \<or> time s < timer_timeout s (heap_min (timer_heap s))"
proof (cases "active_timers hs s = {}")
  case True
  then show ?thesis using heap_min_timers(1)[OF assms] by (simp add: due_timers_def)
next
  case False
  note m = heap_min_timers(1)[OF assms] heap_min_timers(2)[OF assms False]
  show ?thesis
  proof
    assume "due_timers hs s = {}"
    then show "heap_min (timer_heap s) = NULL \<or> time s < timer_timeout s (heap_min (timer_heap s))"
      using m(2) by (auto simp: due_timers_def not_le)
  next
    assume "heap_min (timer_heap s) = NULL \<or> time s < timer_timeout s (heap_min (timer_heap s))"
    then have "time s < timer_timeout s (heap_min (timer_heap s))" using m(1) False by simp
    then show "due_timers hs s = {}"
      using least_timeout[OF assms] by (force simp: due_timers_def not_le intro: less_le_trans)
  qed
qed

definition restart_timer :: "ptr \<Rightarrow> 'a uvloop_scheme \<Rightarrow> 'a uvloop_scheme option" where
  "restart_timer h s = Option.bind (uv_timer_stop h s) (\<lambda>(_, s1).
     Option.bind (uv_timer_again h s1) (\<lambda>(_, s2). Some s2))"

lemma restart_timer_ok:
  assumes ok: "timers_ok hs s" and due: "h \<in> due_timers hs s" and t: "time s \<noteq> -1"
  shows "\<exists>s'. restart_timer h s = Some s' \<and> timers_ok hs s' \<and> time s' = time s \<and>
    due_timers hs s' = due_timers hs s - {h} \<and> timer_cb (handles s' h) = timer_cb (handles s h) \<and>
    (\<forall>x. x \<noteq> h \<longrightarrow> handles s' x = handles s x) \<and> uvloop.more s' = uvloop.more s \<and>
    active_timers hs s' = (if repeat (handles s h) = 0 then active_timers hs s - {h} else active_timers hs s)"
proof -
  from due have h: "h \<in> set hs" "is_timer s h" "h \<in> active_timers hs s"
    by (auto simp: due_timers_def active_timers_def)
  obtain s1 where s1: "uv_timer_stop h s = Some (OK, s1)" "timers_ok hs s1"
      "active_timers hs s1 = active_timers hs s - {h}" "only_flags h s s1" "\<not> uv__is_active Unix h s1"
      "time s1 = time s" "uvloop.more s1 = uvloop.more s"
    using uv_timer_stop_ok[OF ok h(1,2)] by blast
  note f1 = only_flags_fields[OF s1(4)]
  have due1: "due_timers hs s1 = due_timers hs s - {h}"
    by (auto simp: due_timers_def s1(3,6) f1(1))
  have cb: "timer_cb (handles s1 h) \<noteq> NULL" using timers_okD(6)[OF ok h(3)] f1(3) by simp
  show ?thesis
  proof (cases "repeat (handles s h) = 0")
    case True
    then have "uv_timer_again h s1 = Some (OK, s1)" using cb f1(4) by (simp add: uv_timer_again_def)
    then show ?thesis using s1 due1 f1(3,6) True by (simp add: restart_timer_def)
  next
    case False
    let ?r = "repeat (handles s h)" and ?c = "timer_cb (handles s h)"
    obtain s2 where s2: "uv_timer_start h ?c ?r ?r s1 = Some (OK, s2)" "timers_ok hs s2"
        "active_timers hs s2 = insert h (active_timers hs s1)" "started h ?c ?r ?r s1 s2"
      using uv_timer_start_ok[OF s1(2) h(1)] f1(5) h(2) cb f1(3) by metis
    have again: "uv_timer_again h s1 = Some (OK, s2)"
      using cb False s1(5) s2(1) f1(3,4) by (simp add: uv_timer_again_def uv_timer_stop_def)
    have to: "timer_timeout s2 h = clamped_timeout (time s) ?r" using s2(4) s1(6) by (simp add: started_def)
    have "unat (time s) < 2 ^ 64 - 1"
    proof -
      have "unat (time s) \<noteq> 2 ^ 64 - 1"
      proof
        assume "unat (time s) = 2 ^ 64 - 1"
        then have "unat (time s) = unat (- 1 :: u64)"
          by (simp only: unsigned_minus_1_eq_mask) (simp add: mask_eq_exp_minus_1)
        then show False using t by (simp only: word_unat_eq_iff)
      qed
      moreover have "unat (time s) < 2 ^ LENGTH(64)" by (rule unsigned_less)
      ultimately show ?thesis by simp
    qed
    moreover have "0 < unat ?r" using False by (simp add: unat_gt_0)
    ultimately have "unat (time s) < unat (clamped_timeout (time s) ?r)" by (simp add: clamped_timeout_value)
    then have nd: "time s < timer_timeout s2 h" by (simp add: to word_less_nat_alt)
    have o: "handles s2 x = handles s1 x" if "x \<noteq> h" for x using s2(4) that by (simp add: started_def)
    have tm: "time s2 = time s" "uvloop.more s2 = uvloop.more s"
      using s2(4) s1(6,7) by (simp_all add: started_def)
    have "due_timers hs s2 = due_timers hs s - {h}"
    proof (rule set_eqI)
      fix x show "x \<in> due_timers hs s2 \<longleftrightarrow> x \<in> due_timers hs s - {h}"
        using nd o[of x] f1(6)[of x] h(3)
        by (cases "x = h") (auto simp: due_timers_def tm s2(3) s1(3))
    qed
    moreover have "active_timers hs s2 = active_timers hs s" using s2(3) s1(3) h(3) by auto
    ultimately show ?thesis
      using s1(1) again s2(2,4) False tm o f1(6) by (simp add: restart_timer_def started_def)
  qed
qed

lemma run_timers_unfold:
  assumes ok: "timers_ok hs s" and t: "time s \<noteq> -1"
  shows "uv__run_timers call s =
    (if due_timers hs s = {} then Some s
     else Option.bind (restart_timer (heap_min (timer_heap s)) s)
       (\<lambda>s2. Option.bind (call (timer_cb (handles s (heap_min (timer_heap s)))) (heap_min (timer_heap s)) s2)
          (uv__run_timers call)))"
proof (cases "due_timers hs s = {}")
  case True
  then have e: "heap_min (timer_heap s) = NULL \<or> time s < timer_timeout s (heap_min (timer_heap s))"
    using due_timers_empty_iff[OF ok] by blast
  have "uv__run_timers call s = Some s"
    by (subst uv__run_timers.simps, unfold Let_def) (use e in auto)
  with True show ?thesis by simp
next
  case False
  let ?h = "heap_min (timer_heap s)"
  have "\<not> (?h = NULL \<or> time s < timer_timeout s ?h)"
    using due_timers_empty_iff[OF ok] False by blast
  then have h: "\<not> (?h = NULL)" "\<not> time s < timer_timeout s ?h" by simp_all
  have ne: "active_timers hs s \<noteq> {}" using h(1) heap_min_timers(1)[OF ok] by metis
  have "?h \<in> active_timers hs s" using heap_min_timers(2)[OF ok ne] by (rule conjunct1)
  then have due: "?h \<in> due_timers hs s" and cb: "timer_cb (handles s ?h) \<noteq> NULL"
    using h(2) timers_okD(6)[OF ok] by (auto simp: due_timers_def not_less)
  obtain s2 where s2: "restart_timer ?h s = Some s2" "timer_cb (handles s2 ?h) = timer_cb (handles s ?h)"
    using restart_timer_ok[OF ok due t] by blast
  obtain r1 s1 r2 where "uv_timer_stop ?h s = Some (r1, s1)" "uv_timer_again ?h s1 = Some (r2, s2)"
    using s2(1) by (auto simp: restart_timer_def)
  then have "uv__run_timers call s =
      Option.bind (call (timer_cb (handles s2 ?h)) ?h s2) (uv__run_timers call)"
    by (subst uv__run_timers.simps, unfold Let_def) (use h cb s2(2) in simp)
  with False s2 show ?thesis by simp
qed


text \<open>What a timer callback may do: whatever keeps the invariant, does not change the loop's time
  and does not make a further timer due.\<close>

definition timer_safe :: "'a callbacks \<Rightarrow> bool" where
  "timer_safe call \<longleftrightarrow> (\<forall>f h hs s. timers_ok hs s \<longrightarrow> h \<in> set hs \<longrightarrow>
     (\<exists>hs' s'. call f h s = Some s' \<and> timers_ok hs' s' \<and> set hs \<subseteq> set hs' \<and> time s' = time s \<and>
        due_timers hs' s' \<subseteq> due_timers hs s))"

lemma due_timers_finite: "finite (due_timers hs s)"
  by (rule finite_subset[of _ "set hs"]) (auto simp: due_timers_def active_timers_def)

lemma heap_min_due:
  assumes "timers_ok hs s" "due_timers hs s \<noteq> {}"
  shows "heap_min (timer_heap s) \<in> due_timers hs s"
proof -
  have ne: "active_timers hs s \<noteq> {}" using assms(2) by (auto simp: due_timers_def)
  have "\<not> time s < timer_timeout s (heap_min (timer_heap s))"
    using assms due_timers_empty_iff[OF assms(1)] by blast
  then show ?thesis using heap_min_timers(2)[OF assms(1) ne] by (simp add: due_timers_def not_less)
qed

lemma run_timers_ends:
  assumes safe: "timer_safe call" and "timers_ok hs s" "time s \<noteq> -1"
  shows "\<exists>hs' s'. uv__run_timers call s = Some s' \<and> timers_ok hs' s' \<and> set hs \<subseteq> set hs' \<and>
    time s' = time s \<and> due_timers hs' s' = {}"
  using assms(2,3)
proof (induction "card (due_timers hs s)" arbitrary: hs s rule: less_induct)
  case less
  let ?h = "heap_min (timer_heap s)"
  show ?case
  proof (cases "due_timers hs s = {}")
    case True
    then show ?thesis using run_timers_unfold[OF less.prems, of call] less.prems(1) by auto
  next
    case False
    note due = heap_min_due[OF less.prems(1) False]
    obtain s2 where s2: "restart_timer ?h s = Some s2" "timers_ok hs s2" "time s2 = time s"
        "due_timers hs s2 = due_timers hs s - {?h}"
      using restart_timer_ok[OF less.prems(1) due less.prems(2)] by blast
    have "?h \<in> set hs" using due by (simp add: due_timers_def active_timers_def)
    then obtain hs3 s3 where s3: "call (timer_cb (handles s ?h)) ?h s2 = Some s3" "timers_ok hs3 s3"
        "set hs \<subseteq> set hs3" "time s3 = time s2" "due_timers hs3 s3 \<subseteq> due_timers hs s2"
      using safe s2(2) unfolding timer_safe_def by blast
    have "card (due_timers hs3 s3) \<le> card (due_timers hs s - {?h})"
      using s3(5) s2(4) due_timers_finite by (metis card_mono finite_Diff)
    also have "\<dots> < card (due_timers hs s)" using due due_timers_finite by (metis card_Diff1_less)
    finally obtain hs' s' where "uv__run_timers call s3 = Some s'" "timers_ok hs' s'" "set hs3 \<subseteq> set hs'"
        "time s' = time s3" "due_timers hs' s' = {}"
      using less.hyps[OF _ s3(2)] less.prems(2) s2(3) s3(4) by metis
    moreover have "uv__run_timers call s = uv__run_timers call s3"
      using run_timers_unfold[OF less.prems, of call] False s2(1) s3(1) by simp
    ultimately show ?thesis using s2(3) s3(3,4) by (intro exI[of _ hs'] exI[of _ s']) auto
  qed
qed


lemma log_call_fields [simp]:
  "timers_ok hs (s\<lparr>uvloop.more := l\<rparr>) = timers_ok hs s"
  "due_timers hs (s\<lparr>uvloop.more := l\<rparr>) = due_timers hs s"
  "timer_less_than (s\<lparr>uvloop.more := l\<rparr>) = timer_less_than s"
  by (simp_all add: timers_ok_def core_ok_def due_timers_def active_timers_def is_timer_def
      uv__is_active_def timer_less_than_def[abs_def])


section \<open>Properties\<close>

text \<open>
  C21: starting a timer without a callback is \<open>UV_EINVAL\<close> and changes nothing. Otherwise it
  succeeds, whether the timer was active or not: the timer is active, it is due after the
  timeout or, where that sum does not fit 64 bits, at the greatest time there is, no other
  handle changes, and the heap stays ordered and holds exactly the active timers.
\<close>

theorem uv_timer_start_schedules:
  assumes "timers_ok hs s" "h \<in> set hs" "is_timer s h"
  shows "uv_timer_start h NULL t rep s = Some (Fail EINVAL, s) \<and>
    (cb \<noteq> NULL \<longrightarrow> (\<exists>s'. uv_timer_start h cb t rep s = Some (OK, s') \<and> timers_ok hs s' \<and>
       active_timers hs s' = insert h (active_timers hs s) \<and>
       unat (timer_timeout s' h) = min (unat (time s) + unat t) (2 ^ 64 - 1) \<and>
       (\<forall>x. x \<noteq> h \<longrightarrow> handles s' x = handles s x)))"
proof -
  have "\<exists>s'. uv_timer_start h cb t rep s = Some (OK, s') \<and> timers_ok hs s' \<and>
       active_timers hs s' = insert h (active_timers hs s) \<and>
       unat (timer_timeout s' h) = min (unat (time s) + unat t) (2 ^ 64 - 1) \<and>
       (\<forall>x. x \<noteq> h \<longrightarrow> handles s' x = handles s x)" if "cb \<noteq> NULL"
    using uv_timer_start_ok[OF assms that, of t rep] clamped_timeout_value by (auto simp: started_def)
  then show ?thesis by (simp add: uv_timer_start_def)
qed

definition empty_loop :: uvloop where
  "empty_loop = core.extend empty_core (uvloop.fields 1000 0
     (heap_init \<lparr>hmin = 0, nelts = 0, hnodes = \<lambda>_. \<lparr>left = 0, right = 0, parent = 0\<rparr>\<rparr>) 0 NULL
     (QUEUE_INIT HEAD \<lparr>qnext = \<lambda>_. 0, qprev = \<lambda>_. 0\<rparr>))"

lemma empty_loop_fields:
  "handles empty_loop = handles empty_core" "handle_q empty_loop = handle_q empty_core"
  "active_handles empty_loop = 0" "time empty_loop = 1000" "timer_counter empty_loop = 0"
  "timer_heap empty_loop = heap_init \<lparr>hmin = 0, nelts = 0, hnodes = \<lambda>_. \<lparr>left = 0, right = 0, parent = 0\<rparr>\<rparr>"
  by (simp_all add: empty_loop_def empty_core_def core.defs uvloop.defs)

lemma empty_loop_ok: "timers_ok [] empty_loop"
  using empty_core_ok[of Unix] uvh.holds_init[of "timer_less_than empty_loop"]
  by (simp add: timers_ok_def core_ok_def empty_loop_fields active_timers_def)

lemma uv_timer_init_ok:
  assumes ok: "timers_ok hs s" and h: "h \<notin> insert HEAD (set hs)" "h \<noteq> NULL" "length hs + 1 < 2 ^ 32"
  shows "timers_ok (hs @ [h]) (snd (uv_timer_init h s))" "is_timer (snd (uv_timer_init h s)) h"
    "active_timers (hs @ [h]) (snd (uv_timer_init h s)) = active_timers hs s"
    "time (snd (uv_timer_init h s)) = time s"
    "x \<noteq> h \<Longrightarrow> handles (snd (uv_timer_init h s)) x = handles s x"
proof -
  define s' where "s' = snd (uv_timer_init h s)"
  define s1 where "s1 = uv__handle_init Unix h UV_TIMER s"
  note d = timers_okD[OF ok]
  have core: "core_ok Unix (hs @ [h]) s1" unfolding s1_def by (rule uv__handle_init_ok[OF d(1) h(1)])
  have s': "handle_q s' = handle_q s1" "active_handles s' = active_handles s1"
      "time s' = time s" "timer_heap s' = timer_heap s"
      and hd: "handles s' h = (handles s h)\<lparr>htype := UV_TIMER, flags := UV__HANDLE_REF Unix,
        next_closing := NULL, timer_cb := NULL, repeat := 0\<rparr>"
      and other: "x \<noteq> h \<Longrightarrow> handles s' x = handles s x" for x
    by (simp_all add: s'_def s1_def uv_timer_init_def uv__handle_init_def Let_def)
  have "hflags s' x = hflags s1 x" for x
    by (cases "x = h") (simp_all add: hd other s1_def uv__handle_init_def Let_def)
  then have core': "core_ok Unix (hs @ [h]) s'" using core s'(1,2) by (simp add: core_ok_def)
  have "\<not> uv__is_active Unix h s'" by (simp add: uv__is_active_def hd flag_simps has_flag_def)
  moreover have "uv__is_active Unix x s' = uv__is_active Unix x s" "is_timer s' x = is_timer s x"
    if "x \<noteq> h" for x using other[OF that] by (simp_all add: uv__is_active_def is_timer_def)
  moreover have "x \<in> set hs \<Longrightarrow> x \<noteq> h" for x using h(1) by auto
  ultimately have T: "active_timers (hs @ [h]) s' = active_timers hs s"
    unfolding active_timers_def by (intro set_eqI) (metis (no_types, lifting) mem_Collect_eq
      rotate1.simps(2) set_ConsD set_rotate1 list.set_intros(2))
  have o: "handles s' a = handles s a" if "a \<in> active_timers hs s" for a
    using that h(1) by (intro other) (auto simp: active_timers_def)
  have "heap_holds (timer_less_than s') (timer_heap s) (active_timers hs s)"
    by (rule uvh.holds_cong[OF d(5)]) (intro ballI timer_less_than_cong; simp add: o)
  with core' d h(2,3) o show "timers_ok (hs @ [h]) s'"
    unfolding timers_ok_def T s'(4) by simp
  show "is_timer s' h" by (simp add: is_timer_def hd)
  show "active_timers (hs @ [h]) s' = active_timers hs s" by (rule T)
  show "time s' = time s" by (rule s'(3))
  show "x \<noteq> h \<Longrightarrow> handles s' x = handles s x" by (rule other)
qed

text \<open>A loop with one idle timer, and the same loop when it has been started.\<close>

definition one_timer_loop :: uvloop where
  "one_timer_loop = snd (uv_timer_init 9 empty_loop)"

lemma one_timer_loop_ok: "timers_ok [9] one_timer_loop" "is_timer one_timer_loop 9"
    "time one_timer_loop = 1000" "active_timers [9] one_timer_loop = {}"
  using uv_timer_init_ok[OF empty_loop_ok, of 9]
  by (simp_all add: one_timer_loop_def HEAD_def empty_loop_fields active_timers_def)

theorem uv_timer_start_schedules_witness:
  "\<exists>s'. uv_timer_start 9 4 (- 1) 5 one_timer_loop = Some (OK, s') \<and>
    unat (timer_timeout s' 9) = 2 ^ 64 - 1 \<and> active_timers [9] s' = {9}"
proof -
  have "unat (- 1 :: u64) = 2 ^ 64 - 1"
    by (simp only: unsigned_minus_1_eq_mask) (simp add: mask_eq_exp_minus_1)
  then show ?thesis
    using uv_timer_start_schedules[OF one_timer_loop_ok(1) _ one_timer_loop_ok(2), of "- 1" 5 4]
    by (auto simp: one_timer_loop_ok(3,4))
qed

text \<open>
  The time the loop may wait is \<open>-1\<close> if no timer is active, \<open>0\<close> if a timer is due, and
  otherwise the time until the first of them is due, cut to \<open>INT_MAX\<close>: it is always an \<open>int\<close>
  of the code, and no timer is due before that time is over.
\<close>

theorem next_timeout_value:
  assumes "timers_ok hs s"
  shows "uv__next_timeout s =
      (if active_timers hs s = {} then -1 else if due_timers hs s \<noteq> {} then 0
       else min INT_MAX (Min ((\<lambda>h. uint (timer_timeout s h) - uint (time s)) ` active_timers hs s))) \<and>
    -1 \<le> uv__next_timeout s \<and> uv__next_timeout s \<le> INT_MAX"
proof (cases "active_timers hs s = {}")
  case True
  then show ?thesis using heap_min_timers(1)[OF assms] by (simp add: uv__next_timeout_def INT_MAX_def)
next
  case False
  let ?h = "heap_min (timer_heap s)"
  note m = heap_min_timers(1)[OF assms] heap_min_timers(2)[OF assms False]
  show ?thesis
  proof (cases "timer_timeout s ?h \<le> time s")
    case True
    then have "due_timers hs s \<noteq> {}" using m(2) by (auto simp: due_timers_def)
    with True False show ?thesis by (simp add: uv__next_timeout_def Let_def m(1) INT_MAX_def)
  next
    case notdue: False
    then have "due_timers hs s = {}" using due_timers_empty_iff[OF assms] by (simp add: not_le)
    moreover have "uint (timer_timeout s ?h - time s) = uint (timer_timeout s ?h) - uint (time s)"
      using notdue uint_minus_simple_alt[of "time s" "timer_timeout s ?h"] less_imp_le by (metis not_le)
    moreover have "Min ((\<lambda>h. uint (timer_timeout s h) - uint (time s)) ` active_timers hs s)
        = uint (timer_timeout s ?h) - uint (time s)"
    proof (rule Min_eqI)
      show "finite ((\<lambda>h. uint (timer_timeout s h) - uint (time s)) ` active_timers hs s)"
        by (simp add: active_timers_def)
    qed (use m(2) least_timeout[OF assms] in \<open>auto simp: word_le_def\<close>)
    moreover have "0 \<le> uint (timer_timeout s ?h) - uint (time s)"
      using notdue by (simp add: word_le_def)
    ultimately show ?thesis
      using False notdue by (simp add: uv__next_timeout_def Let_def m(1) INT_MAX_def)
  qed
qed

definition started_loop :: "u64 \<Rightarrow> uvloop" where
  "started_loop t = snd (the (uv_timer_start 9 4 t 0 one_timer_loop))"

lemma started_loop_ok:
  "timers_ok [9] (started_loop t)" "active_timers [9] (started_loop t) = {9}"
  "timer_timeout (started_loop t) 9 = clamped_timeout 1000 t" "time (started_loop t) = 1000"
  using uv_timer_start_ok[OF one_timer_loop_ok(1) _ one_timer_loop_ok(2), of 4 t 0]
  by (auto simp: started_loop_def started_def one_timer_loop_ok(3,4))

theorem next_timeout_value_witness:
  "uv__next_timeout (started_loop 50) = 50 \<and> uv__next_timeout one_timer_loop = -1"
  using next_timeout_value[OF started_loop_ok(1)[of 50]] next_timeout_value[OF one_timer_loop_ok(1)]
  by (simp only: one_timer_loop_ok(4) started_loop_ok due_timers_def)
    (simp add: started_loop_ok clamped_timeout_def INT_MAX_def)

text \<open>
  C29: \<open>uv__run_timers\<close> comes back, with the heap intact and no timer due any more, for all
  callbacks that return, keep the invariant and make no timer due: repeating timers are
  restarted after now even where now plus the interval overflows. (Without the restriction on
  the callbacks it need not come back: a callback that restarts its timer with timeout 0 is
  called for ever.) The one time excluded is the greatest there is, when a restarted timer is
  due at once.
\<close>

theorem run_timers_terminates:
  assumes "timer_safe call" "timers_ok hs s" "time s \<noteq> -1"
  shows "\<exists>hs' s'. uv__run_timers call s = Some s' \<and> timers_ok hs' s' \<and> set hs \<subseteq> set hs' \<and>
    time s' = time s \<and> due_timers hs' s' = {}"
  by (rule run_timers_ends[OF assms])


theorem run_timers_terminates_witness:
  "\<exists>hs' s'. uv__run_timers (\<lambda>f h s. Some s) (started_loop 0) = Some s' \<and> timers_ok hs' s' \<and> 9 \<in> set hs' \<and>
    due_timers hs' s' = {}"
proof -
  have safe: "timer_safe (\<lambda>f h s :: uvloop. Some s)" by (auto simp: timer_safe_def)
  show ?thesis using run_timers_terminates[OF safe started_loop_ok(1)[of 0]] by (auto simp: started_loop_ok)
qed





end
