(* ===== verification/Uv_Watcher.thy ===== *)
theory Uv_Watcher
  imports Uv_Timer "HOL-Library.Sublist"
begin

text \<open>
  Prepare, check and idle handles, which libuv calls the loop watchers: \<open>src/unix/loop-watcher.c\<close>,
  where they are nodes of a queue of the loop that a run moves to a local head, and
  \<open>src/win/loop-watcher.c\<close>, where they are a doubly linked list of the loop with a pointer to the
  one that is called next. The macro \<open>UV_LOOP_WATCHER_DEFINE\<close> is a family of functions indexed by
  \<open>watcher\<close>. Both are shown to implement one machine on two lists: the watchers that were called in
  this run or started since, and those that are still to be called.
\<close>

unbundle bit_operations_syntax

section \<open>Unix\<close>

datatype watcher = Prepare | Check | Idle

fun watcher_type :: "watcher \<Rightarrow> handle_type" where
  "watcher_type Prepare = UV_PREPARE"
| "watcher_type Check = UV_CHECK"
| "watcher_type Idle = UV_IDLE"

text \<open>The addresses of the queue heads \<open>loop->prepare_handles\<close>, ...; a node is at the address of
  its handle.\<close>

fun handles_of :: "watcher \<Rightarrow> ptr" where
  "handles_of Prepare = 3"
| "handles_of Check = 4"
| "handles_of Idle = 5"

definition uv_watcher_init :: "watcher \<Rightarrow> ptr \<Rightarrow> 'a uvloop_scheme \<Rightarrow> rc \<times> 'a uvloop_scheme" where
  "uv_watcher_init w h s =
     (let s1 = uv__handle_init Unix h (watcher_type w) s
      in (OK, upd_handle h (\<lambda>x. x\<lparr>watcher_cb := NULL\<rparr>) s1))"

definition uv_watcher_start ::
    "watcher \<Rightarrow> ptr \<Rightarrow> ptr \<Rightarrow> 'a uvloop_scheme \<Rightarrow> (rc \<times> 'a uvloop_scheme) option" where
  "uv_watcher_start w h cb s =
     (if uv__is_active Unix h s then Some (OK, s)
      else if cb = NULL then Some (Fail EINVAL, s)
      else
        (let s1 = s\<lparr>watcher_q := QUEUE_INSERT_HEAD (handles_of w) h (watcher_q s)\<rparr>;
             s2 = upd_handle h (\<lambda>x. x\<lparr>watcher_cb := cb\<rparr>) s1
         in Option.bind (uv__handle_start Unix h s2) (\<lambda>s3. Some (OK, s3))))"

definition uv_watcher_stop ::
    "watcher \<Rightarrow> ptr \<Rightarrow> 'a uvloop_scheme \<Rightarrow> (rc \<times> 'a uvloop_scheme) option" where
  "uv_watcher_stop w h s =
     (if \<not> uv__is_active Unix h s then Some (OK, s)
      else
        (let s1 = s\<lparr>watcher_q := QUEUE_REMOVE h (watcher_q s)\<rparr>
         in Option.bind (uv__handle_stop Unix h s1) (\<lambda>s2. Some (OK, s2))))"

partial_function (option) run_watchers ::
    "watcher \<Rightarrow> 'a callbacks \<Rightarrow> 'a uvloop_scheme \<Rightarrow> 'a uvloop_scheme option" where
  "run_watchers w call s =
     (if QUEUE_EMPTY LOCAL (watcher_q s) then Some s
      else
        (let h = QUEUE_HEAD LOCAL (watcher_q s);
             s1 = s\<lparr>watcher_q := QUEUE_REMOVE h (watcher_q s)\<rparr>;
             s2 = s1\<lparr>watcher_q := QUEUE_INSERT_TAIL (handles_of w) h (watcher_q s1)\<rparr>
         in Option.bind (if watcher_cb (handles s2 h) = NULL then None
                         else call (watcher_cb (handles s2 h)) h s2)
              (run_watchers w call)))"

definition uv__run_watcher ::
    "watcher \<Rightarrow> 'a callbacks \<Rightarrow> 'a uvloop_scheme \<Rightarrow> 'a uvloop_scheme option" where
  "uv__run_watcher w call s =
     run_watchers w call (s\<lparr>watcher_q := QUEUE_MOVE (handles_of w) LOCAL (watcher_q s)\<rparr>)"

definition uv__watcher_close :: "watcher \<Rightarrow> ptr \<Rightarrow> 'a uvloop_scheme \<Rightarrow> 'a uvloop_scheme option" where
  "uv__watcher_close w h s = Option.bind (uv_watcher_stop w h s) (\<lambda>(_, s1). Some s1)"

section \<open>Windows\<close>

text \<open>\<open>head_handle w\<close> is \<open>loop->prepare_handles\<close>, ..., \<open>next_handle w\<close> is
  \<open>loop->next_prepare_handle\<close>, ...; an access through \<open>NULL\<close> is a failure.\<close>

record winloop = core +
  head_handle :: "watcher \<Rightarrow> ptr"
  next_handle :: "watcher \<Rightarrow> ptr"

type_synonym 'a win_callbacks = "ptr \<Rightarrow> ptr \<Rightarrow> 'a winloop_scheme \<Rightarrow> 'a winloop_scheme option"

definition win_watcher_init :: "watcher \<Rightarrow> ptr \<Rightarrow> 'a winloop_scheme \<Rightarrow> rc \<times> 'a winloop_scheme" where
  "win_watcher_init w h s = (OK, uv__handle_init Windows h (watcher_type w) s)"

definition win_watcher_start ::
    "watcher \<Rightarrow> ptr \<Rightarrow> ptr \<Rightarrow> 'a winloop_scheme \<Rightarrow> (rc \<times> 'a winloop_scheme) option" where
  "win_watcher_start w h cb s =
     (if htype (handles s h) \<noteq> watcher_type w then None
      else if uv__is_active Windows h s then Some (OK, s)
      else if cb = NULL then Some (Fail EINVAL, s)
      else
        (let old_head = head_handle s w;
             s1 = upd_handle h (\<lambda>x. x\<lparr>watcher_next := old_head\<rparr>) s;
             s2 = upd_handle h (\<lambda>x. x\<lparr>watcher_prev := NULL\<rparr>) s1;
             s3 = (if old_head \<noteq> NULL then upd_handle old_head (\<lambda>x. x\<lparr>watcher_prev := h\<rparr>) s2 else s2);
             s4 = s3\<lparr>head_handle := (head_handle s3)(w := h)\<rparr>;
             s5 = upd_handle h (\<lambda>x. x\<lparr>watcher_cb := cb\<rparr>) s4
         in Option.bind (uv__handle_start Windows h s5) (\<lambda>s6. Some (OK, s6))))"

definition win_watcher_stop ::
    "watcher \<Rightarrow> ptr \<Rightarrow> 'a winloop_scheme \<Rightarrow> (rc \<times> 'a winloop_scheme) option" where
  "win_watcher_stop w h s =
     (if htype (handles s h) \<noteq> watcher_type w then None
      else if \<not> uv__is_active Windows h s then Some (OK, s)
      else
        (let s1 = (if head_handle s w = h
                   then s\<lparr>head_handle := (head_handle s)(w := watcher_next (handles s h))\<rparr> else s);
             s2 = (if next_handle s1 w = h
                   then s1\<lparr>next_handle := (next_handle s1)(w := watcher_next (handles s1 h))\<rparr> else s1);
             p = watcher_prev (handles s2 h);
             s3 = (if p \<noteq> NULL
                   then upd_handle p (\<lambda>x. x\<lparr>watcher_next := watcher_next (handles s2 h)\<rparr>) s2 else s2);
             n = watcher_next (handles s3 h);
             s4 = (if n \<noteq> NULL
                   then upd_handle n (\<lambda>x. x\<lparr>watcher_prev := watcher_prev (handles s3 h)\<rparr>) s3 else s3)
         in Option.bind (uv__handle_stop Windows h s4) (\<lambda>s5. Some (OK, s5))))"

partial_function (option) invoke_watchers ::
    "watcher \<Rightarrow> 'a win_callbacks \<Rightarrow> 'a winloop_scheme \<Rightarrow> 'a winloop_scheme option" where
  "invoke_watchers w call s =
     (if next_handle s w = NULL then Some s
      else
        (let h = next_handle s w;
             s1 = s\<lparr>next_handle := (next_handle s)(w := watcher_next (handles s h))\<rparr>
         in Option.bind (if watcher_cb (handles s1 h) = NULL then None
                         else call (watcher_cb (handles s1 h)) h s1)
              (invoke_watchers w call)))"

definition uv_watcher_invoke ::
    "watcher \<Rightarrow> 'a win_callbacks \<Rightarrow> 'a winloop_scheme \<Rightarrow> 'a winloop_scheme option" where
  "uv_watcher_invoke w call s =
     invoke_watchers w call (s\<lparr>next_handle := (next_handle s)(w := head_handle s w)\<rparr>)"

section \<open>The machine both implement\<close>

record watch =
  past :: "ptr list"
  ahead :: "ptr list"
  cb_of :: "ptr \<Rightarrow> ptr"
  called :: "ptr list"

definition started :: "watch \<Rightarrow> ptr set" where
  "started a = set (past a) \<union> set (ahead a)"

definition watch_start :: "ptr \<Rightarrow> ptr \<Rightarrow> watch \<Rightarrow> watch" where
  "watch_start h cb a =
     (if h \<in> started a \<or> cb = NULL then a else a\<lparr>past := h # past a, cb_of := (cb_of a)(h := cb)\<rparr>)"

definition watch_stop :: "ptr \<Rightarrow> watch \<Rightarrow> watch" where
  "watch_stop h a = a\<lparr>past := remove1 h (past a), ahead := remove1 h (ahead a)\<rparr>"

definition watch_take :: "watch \<Rightarrow> watch" where
  "watch_take a = a\<lparr>past := past a @ [hd (ahead a)], ahead := tl (ahead a)\<rparr>"

definition watch_begin :: "watch \<Rightarrow> watch" where
  "watch_begin a = a\<lparr>past := [], ahead := past a\<rparr>"

definition watch_note :: "ptr \<Rightarrow> watch \<Rightarrow> watch" where
  "watch_note h a = a\<lparr>called := called a @ [h]\<rparr>"

text \<open>What a callback does with the watchers of its kind: the script of the callback \<open>cb\<close> for the
  handle \<open>h\<close>.\<close>

datatype wop = WStart ptr ptr | WStop ptr

type_synonym script = "ptr \<Rightarrow> ptr \<Rightarrow> wop list"

fun watch_op :: "wop \<Rightarrow> watch \<Rightarrow> watch" where
  "watch_op (WStart h cb) a = watch_start h cb a"
| "watch_op (WStop h) a = watch_stop h a"

definition watch_call :: "script \<Rightarrow> ptr \<Rightarrow> watch \<Rightarrow> watch" where
  "watch_call prog h a = fold watch_op (prog (cb_of a h) h) (watch_note h a)"

definition watch_turn :: "script \<Rightarrow> watch \<Rightarrow> watch" where
  "watch_turn prog a = watch_call prog (hd (ahead a)) (watch_take a)"

lemma length_ahead_op: "length (ahead (watch_op op a)) \<le> length (ahead a)"
  by (cases op) (simp_all add: watch_start_def watch_stop_def length_remove1)

lemma length_ahead_ops: "length (ahead (fold watch_op ops a)) \<le> length (ahead a)"
  by (induction ops arbitrary: a) (simp_all, meson le_trans length_ahead_op)

lemma length_ahead_turn: "ahead a \<noteq> [] \<Longrightarrow> length (ahead (watch_turn prog a)) < length (ahead a)"
  using length_ahead_ops[of "prog (cb_of (watch_take a) (hd (ahead a))) (hd (ahead a))" "watch_note (hd (ahead a)) (watch_take a)"]
  by (cases "ahead a") (auto simp: watch_turn_def watch_call_def watch_note_def watch_take_def)

function watch_run :: "script \<Rightarrow> watch \<Rightarrow> watch" where
  "watch_run prog a = (if ahead a = [] then a else watch_run prog (watch_turn prog a))"
  by pat_completeness auto
termination
  by (relation "measure (\<lambda>(prog, a). length (ahead a))") (auto simp: length_ahead_turn)

declare watch_run.simps [simp del]

text \<open>The lists share no watcher, and what is started has a callback.\<close>

definition watch_ok :: "ptr set \<Rightarrow> watch \<Rightarrow> bool" where
  "watch_ok K a \<longleftrightarrow> distinct (past a @ ahead a) \<and> started a \<subseteq> K \<and> (\<forall>h \<in> started a. cb_of a h \<noteq> NULL)"

fun op_on :: "ptr set \<Rightarrow> wop \<Rightarrow> bool" where
  "op_on K (WStart h cb) \<longleftrightarrow> h \<in> K"
| "op_on K (WStop h) \<longleftrightarrow> h \<in> K"

definition script_on :: "ptr set \<Rightarrow> script \<Rightarrow> bool" where
  "script_on K prog \<longleftrightarrow> (\<forall>cb h. \<forall>op \<in> set (prog cb h). op_on K op)"

lemma watch_ok_op:
  assumes "watch_ok K a" "op_on K op"
  shows "watch_ok K (watch_op op a)"
proof (cases op)
  case (WStop h)
  have d: "distinct (past a)" "distinct (ahead a)" using assms(1) by (auto simp: watch_ok_def)
  show ?thesis using assms(1) WStop
    by (auto simp: watch_ok_def watch_stop_def started_def set_remove1_eq[OF d(1)] set_remove1_eq[OF d(2)])
       (metis Un_iff less_numeral_extra(3))+
qed (use assms in \<open>auto simp: watch_ok_def watch_start_def started_def\<close>)

lemma watch_ok_ops: "watch_ok K a \<Longrightarrow> \<forall>op \<in> set ops. op_on K op \<Longrightarrow> watch_ok K (fold watch_op ops a)"
  by (induction ops arbitrary: a) (simp_all add: watch_ok_op)

lemma watch_ok_take: "watch_ok K a \<Longrightarrow> ahead a = h # t \<Longrightarrow> watch_ok K (watch_take a)"
  by (auto simp: watch_ok_def watch_take_def started_def)

section \<open>What a run of callbacks does\<close>

fun run_ops :: "(ptr \<Rightarrow> ptr \<Rightarrow> 's \<Rightarrow> (rc \<times> 's) option) \<Rightarrow> (ptr \<Rightarrow> 's \<Rightarrow> (rc \<times> 's) option) \<Rightarrow>
    wop list \<Rightarrow> 's \<Rightarrow> 's option" where
  "run_ops start stop [] s = Some s"
| "run_ops start stop (WStart h cb # ops) s =
     Option.bind (start h cb s) (\<lambda>(_, s1). run_ops start stop ops s1)"
| "run_ops start stop (WStop h # ops) s =
     Option.bind (stop h s) (\<lambda>(_, s1). run_ops start stop ops s1)"

text \<open>
  The contract of a platform: \<open>holds K a s\<close> says that the state \<open>s\<close> implements \<open>a\<close> in the middle
  of a run, for the watchers \<open>K\<close> of one kind that have been initialised.
\<close>

locale watcher_impl =
  fixes holds :: "ptr set \<Rightarrow> watch \<Rightarrow> 's \<Rightarrow> bool"
    and start :: "ptr \<Rightarrow> ptr \<Rightarrow> 's \<Rightarrow> (rc \<times> 's) option"
    and stop :: "ptr \<Rightarrow> 's \<Rightarrow> (rc \<times> 's) option"
    and at_end :: "'s \<Rightarrow> bool"
    and first :: "'s \<Rightarrow> ptr"
    and advance :: "'s \<Rightarrow> 's"
    and callback :: "'s \<Rightarrow> ptr \<Rightarrow> ptr"
    and noted :: "ptr \<Rightarrow> 's \<Rightarrow> 's"
    and run :: "(ptr \<Rightarrow> ptr \<Rightarrow> 's \<Rightarrow> 's option) \<Rightarrow> 's \<Rightarrow> 's option"
  assumes holds_ok: "holds K a s \<Longrightarrow> watch_ok K a"
    and holds_start: "holds K a s \<Longrightarrow> h \<in> K \<Longrightarrow> \<exists>r s'. start h cb s = Some (r, s') \<and> holds K (watch_start h cb a) s'"
    and holds_stop: "holds K a s \<Longrightarrow> h \<in> K \<Longrightarrow> \<exists>r s'. stop h s = Some (r, s') \<and> holds K (watch_stop h a) s'"
    and holds_end: "holds K a s \<Longrightarrow> at_end s \<longleftrightarrow> ahead a = []"
    and holds_first: "holds K a s \<Longrightarrow> ahead a = h # t \<Longrightarrow> first s = h"
    and holds_advance: "holds K a s \<Longrightarrow> ahead a \<noteq> [] \<Longrightarrow> holds K (watch_take a) (advance s)"
    and holds_callback: "holds K a s \<Longrightarrow> h \<in> K \<Longrightarrow> callback s h = cb_of a h"
    and holds_noted: "holds K a s \<Longrightarrow> holds K (watch_note h a) (noted h s)"
    and run_unfold: "run call s = (if at_end s then Some s
      else Option.bind (if callback (advance s) (first s) = NULL then None
                        else call (callback (advance s) (first s)) (first s) (advance s)) (run call))"
begin

lemma holds_ops:
  "holds K a s \<Longrightarrow> \<forall>op \<in> set ops. op_on K op \<Longrightarrow>
   \<exists>s'. run_ops start stop ops s = Some s' \<and> holds K (fold watch_op ops a) s'"
proof (induction ops arbitrary: a s)
  case (Cons op ops)
  have "\<exists>r s1. (case op of WStart h cb \<Rightarrow> start h cb s | WStop h \<Rightarrow> stop h s) = Some (r, s1) \<and> holds K (watch_op op a) s1"
    using Cons.prems holds_start holds_stop by (cases op) auto
  then obtain r s1 where s1: "(case op of WStart h cb \<Rightarrow> start h cb s | WStop h \<Rightarrow> stop h s) = Some (r, s1)"
      "holds K (watch_op op a) s1" by blast
  from Cons.IH[OF s1(2)] Cons.prems(2) obtain s' where
    "run_ops start stop ops s1 = Some s'" "holds K (fold watch_op ops (watch_op op a)) s'" by auto
  with s1 show ?case by (cases op) auto
qed simp

lemma holds_run:
  assumes "script_on K prog"
  shows "holds K a s \<Longrightarrow>
    \<exists>s'. run (\<lambda>cb h s. run_ops start stop (prog cb h) (noted h s)) s = Some s' \<and> holds K (watch_run prog a) s'"
proof (induction "length (ahead a)" arbitrary: a s rule: less_induct)
  case less
  show ?case
  proof (cases "ahead a")
    case Nil
    then show ?thesis
      using holds_end[OF less.prems] less.prems run_unfold[of _ s] by (simp add: watch_run.simps[of prog a])
  next
    case (Cons h t)
    have hK: "h \<in> K" "cb_of a h \<noteq> NULL"
      using holds_ok[OF less.prems] Cons by (auto simp: watch_ok_def started_def)
    let ?t = "watch_take a" and ?s = "advance s"
    have adv: "holds K ?t ?s" using holds_advance[OF less.prems] Cons by simp
    have cb: "callback ?s h = cb_of a h" "cb_of ?t h = cb_of a h"
      using holds_callback[OF adv hK(1)] by (simp_all add: watch_take_def)
    have "\<forall>op \<in> set (prog (cb_of a h) h). op_on K op" using assms by (simp add: script_on_def)
    from holds_ops[OF holds_noted[OF adv] this, of h] obtain s1 where
      s1: "run_ops start stop (prog (cb_of a h) h) (noted h ?s) = Some s1" "holds K (watch_turn prog a) s1"
      using Cons cb(2) by (auto simp: watch_turn_def watch_call_def)
    have "length (ahead (watch_turn prog a)) < length (ahead a)"
      by (rule length_ahead_turn) (simp add: Cons)
    from less.hyps[OF this s1(2)] obtain s' where
      s': "run (\<lambda>cb h s. run_ops start stop (prog cb h) (noted h s)) s1 = Some s'"
        "holds K (watch_run prog (watch_turn prog a)) s'" by blast
    show ?thesis
      using s' s1(1) cb(1) hK(2) Cons holds_end[OF less.prems] holds_first[OF less.prems Cons]
      by (subst run_unfold) (simp add: watch_run.simps[of prog a])
  qed
qed

end

section \<open>Unix implements it\<close>

text \<open>A loop that records which handles were called.\<close>

record watch_loop = uvloop +
  calls :: "ptr list"

definition note_call :: "ptr \<Rightarrow> 'a watch_loop_scheme \<Rightarrow> 'a watch_loop_scheme" where
  "note_call h s = s\<lparr>calls := calls s @ [h]\<rparr>"

definition script_call :: "watcher \<Rightarrow> script \<Rightarrow> ptr \<Rightarrow> ptr \<Rightarrow> 'a watch_loop_scheme \<Rightarrow> 'a watch_loop_scheme option" where
  "script_call w prog cb h s = run_ops (uv_watcher_start w) (uv_watcher_stop w) (prog cb h) (note_call h s)"

definition queue_holds :: "watcher \<Rightarrow> ptr set \<Rightarrow> watch \<Rightarrow> 'a watch_loop_scheme \<Rightarrow> bool" where
  "queue_holds w K a s \<longleftrightarrow> watch_ok K a \<and> {LOCAL, handles_of w} \<inter> K = {} \<and>
     qring (watcher_q s) (handles_of w) (past a) \<and> qring (watcher_q s) LOCAL (ahead a) \<and> calls s = called a \<and>
     (\<forall>h \<in> K. (uv__is_active Unix h s \<longleftrightarrow> h \<in> started a) \<and> watcher_cb (handles s h) = cb_of a h)"

lemma heads_distinct [simp]: "handles_of w \<noteq> LOCAL" "LOCAL \<noteq> handles_of w"
  by (cases w; simp add: LOCAL_def)+

lemma qring_INSERT_HEAD_frame:
  assumes "qring s h xs" "insert g (set ys) \<inter> insert q (insert h (set xs)) = {}"
  shows "qring (QUEUE_INSERT_HEAD h q s) g ys = qring s g ys"
proof -
  have "qnext s h \<in> insert h (set xs)"
    using assms(1) by (cases xs) (auto simp: qring_def)
  then show ?thesis
    using assms(2) by (intro qring_cong) (auto simp: QUEUE_INSERT_HEAD_def Let_def)
qed

lemma handle_start_frame:
  assumes "\<not> has_flag (hflags s h) (UV__HANDLE_CLOSING pf)"
  shows "\<exists>s' f. uv__handle_start pf h s = Some s' \<and> core.more s' = core.more s \<and>
    handles s' = (handles s)(h := (handles s h)\<lparr>flags := f\<rparr>) \<and> has_flag f (UV__HANDLE_ACTIVE pf) \<and>
    \<not> has_flag f (UV__HANDLE_CLOSING pf)"
  using assms
  by (auto simp: uv__handle_start_def Let_def uv__active_handle_add_def flag_simps intro!: exI)

lemma handle_stop_frame:
  assumes "\<not> has_flag (hflags s h) (UV__HANDLE_CLOSING pf)"
  shows "\<exists>s' f. uv__handle_stop pf h s = Some s' \<and> core.more s' = core.more s \<and>
    handles s' = (handles s)(h := (handles s h)\<lparr>flags := f\<rparr>) \<and> \<not> has_flag f (UV__HANDLE_ACTIVE pf) \<and>
    \<not> has_flag f (UV__HANDLE_CLOSING pf)"
  using assms
  by (auto simp: uv__handle_stop_def Let_def uv__active_handle_rm_def flag_simps intro!: exI)

lemma watch_loop_more:
  assumes "core.more s = core.more t"
  shows "watcher_q s = watcher_q t" "calls s = calls t"
  using assms by (cases s; cases t; simp)+

lemma queue_holds_start:
  assumes "queue_holds w K a s" "h \<in> K"
  shows "\<exists>r s'. uv_watcher_start w h cb s = Some (r, s') \<and> queue_holds w K (watch_start h cb a) s'"
proof (cases "h \<in> started a \<or> cb = NULL")
  case True
  then show ?thesis using assms by (auto simp: queue_holds_def uv_watcher_start_def watch_start_def)
next
  case False
  let ?s = "upd_handle h (\<lambda>x. x\<lparr>watcher_cb := cb\<rparr>) (s\<lparr>watcher_q := QUEUE_INSERT_HEAD (handles_of w) h (watcher_q s)\<rparr>)"
  obtain s' f where s': "uv__handle_start Unix h ?s = Some s'" "core.more s' = core.more ?s"
      "handles s' = (handles ?s)(h := (handles ?s h)\<lparr>flags := f\<rparr>)" "has_flag f (UV__HANDLE_ACTIVE Unix)"
    using handle_start_frame[of ?s h Unix] by (auto simp: flag_simps)
  have m: "watcher_q s' = QUEUE_INSERT_HEAD (handles_of w) h (watcher_q s)" "calls s' = calls s"
    using watch_loop_more[OF s'(2)] by (simp_all add: upd_handle_def)
  have r: "qring (watcher_q s) (handles_of w) (past a)" "qring (watcher_q s) LOCAL (ahead a)"
    and ok: "watch_ok K a" "{LOCAL, handles_of w} \<inter> K = {}" using assms(1) by (auto simp: queue_holds_def)
  have d: "h \<notin> insert (handles_of w) (set (past a))" "insert LOCAL (set (ahead a)) \<inter> insert h (insert (handles_of w) (set (past a))) = {}"
    using ok False assms(2) by (auto simp: watch_ok_def started_def)
  have "queue_holds w K (watch_start h cb a) s'"
    using assms False d(1) qring_INSERT_HEAD[OF r(1) d(1)] r(2) qring_INSERT_HEAD_frame[OF r(1) d(2)] s'(3,4)
      watch_ok_op[OF ok(1), of "WStart h cb"]
    by (auto simp: queue_holds_def watch_start_def m started_def uv__is_active_def)
  with s'(1) False assms show ?thesis
    by (intro exI[of _ OK] exI[of _ s']) (simp add: uv_watcher_start_def queue_holds_def)
qed

lemma remove_from_one:
  assumes "qring s h xs" "qring s g ys" "insert h (set xs) \<inter> insert g (set ys) = {}" "q \<in> set xs \<union> set ys"
  shows "qring (QUEUE_REMOVE q s) h (remove1 q xs)" "qring (QUEUE_REMOVE q s) g (remove1 q ys)"
  using assms uvq.unlink_remove1[OF assms(1), of q] uvq.unlink_remove1[OF assms(2), of q]
    qring_REMOVE_frame[OF assms(1), of q g ys] qring_REMOVE_frame[OF assms(2), of q h xs]
  by (cases "q \<in> set xs"; fastforce simp: remove1_idem)+

lemma queue_holds_stop:
  assumes "queue_holds w K a s" "h \<in> K"
  shows "\<exists>r s'. uv_watcher_stop w h s = Some (r, s') \<and> queue_holds w K (watch_stop h a) s'"
proof (cases "h \<in> started a")
  case False
  then have "watch_stop h a = a" by (simp add: watch_stop_def started_def remove1_idem)
  with False show ?thesis using assms by (auto simp: queue_holds_def uv_watcher_stop_def)
next
  case True
  let ?s = "s\<lparr>watcher_q := QUEUE_REMOVE h (watcher_q s)\<rparr>"
  obtain s' f where s': "uv__handle_stop Unix h ?s = Some s'" "core.more s' = core.more ?s"
      "handles s' = (handles ?s)(h := (handles ?s h)\<lparr>flags := f\<rparr>)" "\<not> has_flag f (UV__HANDLE_ACTIVE Unix)"
    using handle_stop_frame[of ?s h Unix] by (auto simp: flag_simps)
  have m: "watcher_q s' = QUEUE_REMOVE h (watcher_q s)" "calls s' = calls s"
    using watch_loop_more[OF s'(2)] by simp_all
  have r: "qring (watcher_q s) (handles_of w) (past a)" "qring (watcher_q s) LOCAL (ahead a)"
    and ok: "watch_ok K a" "{LOCAL, handles_of w} \<inter> K = {}" using assms(1) by (auto simp: queue_holds_def)
  have d: "insert (handles_of w) (set (past a)) \<inter> insert LOCAL (set (ahead a)) = {}" "h \<in> set (past a) \<union> set (ahead a)"
    "distinct (past a)" "distinct (ahead a)"
    using ok True by (auto simp: watch_ok_def started_def)
  have st: "started (watch_stop h a) = started a - {h}"
    using set_remove1_eq[OF d(3)] set_remove1_eq[OF d(4)] by (auto simp: started_def watch_stop_def)
  have "queue_holds w K (watch_stop h a) s'"
    using assms remove_from_one[OF r d(1,2)] watch_ok_op[OF ok(1), of "WStop h"] s'(3,4)
    by (auto simp: queue_holds_def m st uv__is_active_def) (auto simp: watch_stop_def)
  with s'(1) True assms show ?thesis
    by (intro exI[of _ OK] exI[of _ s']) (simp add: uv_watcher_stop_def queue_holds_def)
qed

definition queue_advance :: "watcher \<Rightarrow> 'a watch_loop_scheme \<Rightarrow> 'a watch_loop_scheme" where
  "queue_advance w s = s\<lparr>watcher_q := QUEUE_INSERT_TAIL (handles_of w) (QUEUE_HEAD LOCAL (watcher_q s))
     (QUEUE_REMOVE (QUEUE_HEAD LOCAL (watcher_q s)) (watcher_q s))\<rparr>"

lemma queue_holds_advance:
  assumes "queue_holds w K a s" "ahead a \<noteq> []"
  shows "queue_holds w K (watch_take a) (queue_advance w s)"
proof -
  from assms(2) obtain h t where t: "ahead a = h # t" by (cases "ahead a") auto
  have r: "qring (watcher_q s) LOCAL (h # t)" "qring (watcher_q s) (handles_of w) (past a)"
    and ok: "watch_ok K a" "{LOCAL, handles_of w} \<inter> K = {}" using assms(1) t by (auto simp: queue_holds_def)
  have d: "insert LOCAL (set (h # t)) \<inter> insert (handles_of w) (set (past a)) = {}"
    using ok t by (auto simp: watch_ok_def started_def)
  have "started (watch_take a) = started a" using t by (auto simp: started_def watch_take_def)
  then show ?thesis
    using assms uvq.rotate_ring[OF r d] uvq.ring_first[OF r(1)] watch_ok_take[OF ok(1) t] t
    by (simp add: queue_holds_def queue_advance_def uv__is_active_def) (simp add: watch_take_def)
qed

interpretation unix_watchers: watcher_impl "queue_holds w" "uv_watcher_start w" "uv_watcher_stop w"
  "\<lambda>s. QUEUE_EMPTY LOCAL (watcher_q s)" "\<lambda>s. QUEUE_HEAD LOCAL (watcher_q s)" "queue_advance w"
  "\<lambda>s h. watcher_cb (handles s h)" note_call "run_watchers w" for w
proof
  fix K :: "ptr set" and a and s :: "'b watch_loop_scheme" and h cb :: ptr
  assume s: "queue_holds w K a s"
  show "watch_ok K a" using s by (simp add: queue_holds_def)
  show "QUEUE_EMPTY LOCAL (watcher_q s) \<longleftrightarrow> ahead a = []"
    using s uvq.ring_is_empty by (auto simp: queue_holds_def)
  show "QUEUE_HEAD LOCAL (watcher_q s) = h" if "ahead a = h # t" for t
    using s that uvq.ring_first by (auto simp: queue_holds_def)
  show "queue_holds w K (watch_note h a) (note_call h s)"
    using s by (auto simp: queue_holds_def watch_note_def note_call_def watch_ok_def started_def uv__is_active_def)
  show "queue_holds w K (watch_take a) (queue_advance w s)" if "ahead a \<noteq> []"
    using s that by (rule queue_holds_advance)
  assume h: "h \<in> K"
  show "watcher_cb (handles s h) = cb_of a h" using s h by (simp add: queue_holds_def)
  show "\<exists>r s'. uv_watcher_start w h cb s = Some (r, s') \<and> queue_holds w K (watch_start h cb a) s'"
    using s h by (rule queue_holds_start)
  show "\<exists>r s'. uv_watcher_stop w h s = Some (r, s') \<and> queue_holds w K (watch_stop h a) s'"
    using s h by (rule queue_holds_stop)
qed (subst run_watchers.simps, simp add: queue_advance_def Let_def)

section \<open>Windows implements it\<close>

record win_watch_loop = winloop +
  win_calls :: "ptr list"

definition win_note_call :: "ptr \<Rightarrow> 'a win_watch_loop_scheme \<Rightarrow> 'a win_watch_loop_scheme" where
  "win_note_call h s = s\<lparr>win_calls := win_calls s @ [h]\<rparr>"

definition win_script_call ::
    "watcher \<Rightarrow> script \<Rightarrow> ptr \<Rightarrow> ptr \<Rightarrow> 'a win_watch_loop_scheme \<Rightarrow> 'a win_watch_loop_scheme option" where
  "win_script_call w prog cb h s = run_ops (win_watcher_start w) (win_watcher_stop w) (prog cb h) (win_note_call h s)"

text \<open>The list that starts at \<open>x\<close>, its first \<open>prev\<close> being \<open>p\<close>.\<close>

fun linked :: "(ptr \<Rightarrow> handle) \<Rightarrow> ptr \<Rightarrow> ptr list \<Rightarrow> ptr \<Rightarrow> bool" where
  "linked hs p [] x \<longleftrightarrow> x = NULL"
| "linked hs p (y # ys) x \<longleftrightarrow> x = y \<and> y \<noteq> NULL \<and> watcher_prev (hs y) = p \<and> linked hs y ys (watcher_next (hs y))"

definition first_of :: "ptr list \<Rightarrow> ptr" where
  "first_of xs = (case xs of [] \<Rightarrow> NULL | x # _ \<Rightarrow> x)"

lemma linked_cong:
  "(\<And>y. y \<in> set ys \<Longrightarrow> watcher_next (hs' y) = watcher_next (hs y) \<and> watcher_prev (hs' y) = watcher_prev (hs y)) \<Longrightarrow>
   linked hs' p ys x = linked hs p ys x"
  by (induction ys arbitrary: p x) auto

lemma linked_head: "linked hs p ys x \<Longrightarrow> x = first_of ys"
  by (cases ys) (simp_all add: first_of_def)

lemma linked_links:
  "linked hs p (ys @ h # zs) x \<Longrightarrow> watcher_next (hs h) = first_of zs \<and> watcher_prev (hs h) = last (p # ys)"
proof (induction ys arbitrary: p x)
  case Nil
  then show ?case using linked_head[of hs h zs "watcher_next (hs h)"] by simp
next
  case (Cons y ys)
  from Cons.IH[of y "watcher_next (hs y)"] Cons.prems show ?case by simp
qed

lemma linked_not_NULL: "linked hs p ys x \<Longrightarrow> NULL \<notin> set ys"
  by (induction ys arbitrary: p x) auto

lemma linked_insert:
  assumes "linked hs NULL ys x" "h \<notin> set ys" "h \<noteq> NULL" "distinct ys"
    "watcher_next (hs' h) = x" "watcher_prev (hs' h) = NULL"
    "\<And>y. y \<in> set ys \<Longrightarrow> watcher_next (hs' y) = watcher_next (hs y) \<and>
      watcher_prev (hs' y) = (if y = x then h else watcher_prev (hs y))"
  shows "linked hs' NULL (h # ys) h"
proof (cases ys)
  case (Cons y zs)
  have "linked hs' y zs (watcher_next (hs y)) = linked hs y zs (watcher_next (hs y))"
    using assms(1,4,7) Cons by (intro linked_cong) auto
  then show ?thesis using assms Cons by auto
qed (use assms in simp)

lemma linked_remove:
  assumes "linked hs p (ys @ h # zs) x" "distinct (ys @ h # zs)" "p \<notin> set (ys @ h # zs)"
    "\<And>y. y \<in> set ys \<union> set zs \<Longrightarrow>
      watcher_next (hs' y) = (if y = watcher_prev (hs h) then watcher_next (hs h) else watcher_next (hs y)) \<and>
      watcher_prev (hs' y) = (if y = watcher_next (hs h) then watcher_prev (hs h) else watcher_prev (hs y))"
  shows "linked hs' p (ys @ zs) (if x = h then watcher_next (hs h) else x)"
  using assms
proof (induction ys arbitrary: p x)
  case Nil
  then have x: "x = h" "watcher_prev (hs h) = p" "linked hs h zs (watcher_next (hs h))" by auto
  show ?case
  proof (cases zs)
    case (Cons z ws)
    have "linked hs' z ws (watcher_next (hs z)) = linked hs z ws (watcher_next (hs z))"
      using Nil.prems Cons x by (intro linked_cong) auto
    then show ?thesis using Nil.prems Cons x by auto
  qed (use x in simp)
next
  case (Cons y ys)
  note l = linked_links[OF Cons.prems(1)]
  have nn: "NULL \<notin> set (y # ys @ h # zs)" using linked_not_NULL[OF Cons.prems(1)] by simp
  have y: "y \<noteq> watcher_next (hs h)"
    using l nn Cons.prems(2) by (cases zs) (auto simp: first_of_def)
  have hd: "watcher_next (hs y) = first_of (ys @ h # zs)" using Cons.prems(1) linked_head by auto
  have e: "y = watcher_prev (hs h) \<longleftrightarrow> watcher_next (hs y) = h"
  proof (cases ys)
    case Nil
    then show ?thesis using l hd by (simp add: first_of_def)
  next
    case (Cons z ws)
    have "watcher_prev (hs h) \<in> set ys" "watcher_next (hs y) \<in> set ys"
      using l hd Cons by (simp_all add: first_of_def)
    then show ?thesis using Cons.prems(2) by auto
  qed
  have "linked hs' y (ys @ zs) (if watcher_next (hs y) = h then watcher_next (hs h) else watcher_next (hs y))"
    using Cons.prems by (intro Cons.IH) auto
  then show ?case using Cons.prems y e by auto
qed

definition list_holds :: "watcher \<Rightarrow> ptr set \<Rightarrow> watch \<Rightarrow> 'a win_watch_loop_scheme \<Rightarrow> bool" where
  "list_holds w K a s \<longleftrightarrow> watch_ok K a \<and> NULL \<notin> K \<and>
     linked (handles s) NULL (past a @ ahead a) (head_handle s w) \<and> next_handle s w = first_of (ahead a) \<and>
     win_calls s = called a \<and>
     (\<forall>h \<in> K. htype (handles s h) = watcher_type w \<and> \<not> has_flag (hflags s h) (UV__HANDLE_CLOSING Windows) \<and>
        (uv__is_active Windows h s \<longleftrightarrow> h \<in> started a) \<and> watcher_cb (handles s h) = cb_of a h)"

lemma win_watch_loop_more:
  assumes "core.more s = core.more t"
  shows "head_handle s = head_handle t" "next_handle s = next_handle t" "win_calls s = win_calls t"
  using assms by (cases s; cases t; simp)+

lemma win_upd_handle [simp]:
  "head_handle (upd_handle h f s) = head_handle s" "next_handle (upd_handle h f s) = next_handle s"
  "win_calls (upd_handle h f t) = win_calls t"
  by (simp_all add: upd_handle_def)

lemma list_holds_start:
  assumes "list_holds w K a s" "h \<in> K"
  shows "\<exists>r s'. win_watcher_start w h cb s = Some (r, s') \<and> list_holds w K (watch_start h cb a) s'"
proof (cases "h \<in> started a \<or> cb = NULL")
  case True
  then show ?thesis using assms by (auto simp: list_holds_def win_watcher_start_def watch_start_def)
next
  case False
  let ?o = "head_handle s w"
  let ?s2 = "upd_handle h (\<lambda>x. x\<lparr>watcher_prev := NULL\<rparr>) (upd_handle h (\<lambda>x. x\<lparr>watcher_next := ?o\<rparr>) s)"
  let ?s3 = "if ?o \<noteq> NULL then upd_handle ?o (\<lambda>x. x\<lparr>watcher_prev := h\<rparr>) ?s2 else ?s2"
  let ?s = "upd_handle h (\<lambda>x. x\<lparr>watcher_cb := cb\<rparr>) (?s3\<lparr>head_handle := (head_handle ?s3)(w := h)\<rparr>)"
  have ok: "watch_ok K a" and l: "linked (handles s) NULL (past a @ ahead a) ?o" using assms(1) by (auto simp: list_holds_def)
  have h: "h \<notin> set (past a @ ahead a)" "h \<noteq> NULL" "distinct (past a @ ahead a)"
    using False ok assms by (auto simp: started_def watch_ok_def list_holds_def)
  have o: "?o \<noteq> h" using linked_head[OF l] h by (cases "past a @ ahead a") (auto simp: first_of_def)
  have "\<not> has_flag (hflags ?s h) (UV__HANDLE_CLOSING Windows)"
    using assms o by (auto simp: list_holds_def)
  from handle_start_frame[OF this] obtain s' f where s': "uv__handle_start Windows h ?s = Some s'"
      "core.more s' = core.more ?s" "handles s' = (handles ?s)(h := (handles ?s h)\<lparr>flags := f\<rparr>)"
      "has_flag f (UV__HANDLE_ACTIVE Windows)" "\<not> has_flag f (UV__HANDLE_CLOSING Windows)" by blast
  have m: "head_handle s' = (head_handle s)(w := h)" "next_handle s' = next_handle s" "win_calls s' = win_calls s"
    using win_watch_loop_more[OF s'(2)] by (simp_all split: if_splits)
  have hs: "handles s' y =
      (if y = h then (handles s h)\<lparr>watcher_next := ?o, watcher_prev := NULL, watcher_cb := cb, flags := f\<rparr>
       else if y = ?o \<and> ?o \<noteq> NULL then (handles s y)\<lparr>watcher_prev := h\<rparr> else handles s y)" for y
    using o by (auto simp: s'(3))
  have "linked (handles s') NULL (h # past a @ ahead a) h"
    using linked_not_NULL[OF l] h(1) by (intro linked_insert[OF l h(1,2,3)]) (auto simp: hs)
  then have "list_holds w K (watch_start h cb a) s'"
    using assms False watch_ok_op[OF ok, of "WStart h cb"] s'(4,5)
    by (auto simp: list_holds_def watch_start_def m started_def uv__is_active_def hs)
  with s'(1) False assms show ?thesis
    by (intro exI[of _ OK] exI[of _ s']) (auto simp: win_watcher_start_def list_holds_def Let_def split: if_splits)
qed

lemma list_holds_stop:
  assumes "list_holds w K a s" "h \<in> K"
  shows "\<exists>r s'. win_watcher_stop w h s = Some (r, s') \<and> list_holds w K (watch_stop h a) s'"
proof (cases "h \<in> started a")
  case False
  then have "watch_stop h a = a" by (simp add: watch_stop_def started_def remove1_idem)
  with False show ?thesis using assms by (auto simp: list_holds_def win_watcher_stop_def)
next
  case True
  let ?n = "watcher_next (handles s h)" and ?p = "watcher_prev (handles s h)"
  let ?s1 = "if head_handle s w = h then s\<lparr>head_handle := (head_handle s)(w := ?n)\<rparr> else s"
  let ?s2 = "if next_handle s w = h then ?s1\<lparr>next_handle := (next_handle s)(w := ?n)\<rparr> else ?s1"
  let ?s3 = "if ?p \<noteq> NULL then upd_handle ?p (\<lambda>x. x\<lparr>watcher_next := ?n\<rparr>) ?s2 else ?s2"
  let ?s = "if ?n \<noteq> NULL then upd_handle ?n (\<lambda>x. x\<lparr>watcher_prev := ?p\<rparr>) ?s3 else ?s3"
  have ok: "watch_ok K a" and l: "linked (handles s) NULL (past a @ ahead a) (head_handle s w)"
    using assms(1) by (auto simp: list_holds_def)
  have d: "distinct (past a @ ahead a)" "h \<in> set (past a @ ahead a)"
    using ok True by (auto simp: watch_ok_def started_def)
  obtain ys zs where yz: "past a @ ahead a = ys @ h # zs" using in_set_split[OF d(2)] by blast
  have nn: "NULL \<notin> set (ys @ h # zs)" using linked_not_NULL[OF l] yz by simp
  have links: "?n = first_of zs" "?p = last (NULL # ys)" using linked_links[of "handles s" NULL ys h zs] l yz by auto
  have pn: "?p \<noteq> h" "?n \<noteq> h"
    using links d(1) yz nn by (cases ys rule: rev_cases; cases zs; auto simp: first_of_def)+
  have "remove1 h (past a @ ahead a) = remove1 h (past a) @ remove1 h (ahead a)"
    using d(1) by (auto simp: remove1_append remove1_idem disjoint_iff)
  then have rest: "remove1 h (past a) @ remove1 h (ahead a) = ys @ zs"
    using yz d(1) remove1_split[of h ys zs] by simp
  have nx: "first_of (remove1 h (ahead a)) = (if first_of (ahead a) = h then ?n else first_of (ahead a))"
  proof (cases "ahead a")
    case (Cons x t)
    have "?n = first_of t" if "x = h"
    proof -
      have "past a @ h # t = ys @ h # zs" using yz Cons that by simp
      moreover have "h \<notin> set (past a) \<union> set t" using d(1) Cons that by auto
      ultimately have "t = zs" by (metis (no_types, lifting) Un_iff append_Cons_eq_iff d(1) distinct.simps(2) distinct_append yz)
      then show ?thesis using links by simp
    qed
    then show ?thesis using Cons by (auto simp: first_of_def)
  qed (use nn in \<open>auto simp: first_of_def\<close>)
  have "\<not> has_flag (hflags ?s h) (UV__HANDLE_CLOSING Windows)" using assms pn by (auto simp: list_holds_def)
  from handle_stop_frame[OF this] obtain s' f where s': "uv__handle_stop Windows h ?s = Some s'"
      "core.more s' = core.more ?s" "handles s' = (handles ?s)(h := (handles ?s h)\<lparr>flags := f\<rparr>)"
      "\<not> has_flag f (UV__HANDLE_ACTIVE Windows)" "\<not> has_flag f (UV__HANDLE_CLOSING Windows)" by blast
  have m: "head_handle s' w = (if head_handle s w = h then ?n else head_handle s w)"
      "next_handle s' w = first_of (remove1 h (ahead a))" "win_calls s' = win_calls s"
    using win_watch_loop_more[OF s'(2)] assms(1) nx by (auto simp: list_holds_def)
  have hs: "handles s' y = (if y = h then (handles s h)\<lparr>flags := f\<rparr>
      else (handles s y)\<lparr>watcher_next := if y = ?p \<and> ?p \<noteq> NULL then ?n else watcher_next (handles s y),
        watcher_prev := if y = ?n \<and> ?n \<noteq> NULL then ?p else watcher_prev (handles s y)\<rparr>)" for y
    using pn by (auto simp: s'(3))
  have "linked (handles s') NULL (ys @ zs) (head_handle s' w)"
    unfolding m(1) using l d(1) nn unfolding yz
    by (intro linked_remove) (auto simp: hs)
  then have lk: "linked (handles s') NULL (past (watch_stop h a) @ ahead (watch_stop h a)) (head_handle s' w)"
    using rest by (simp add: watch_stop_def)
  have st: "started (watch_stop h a) = started a - {h}"
    using d(1) by (auto simp: started_def watch_stop_def set_remove1_eq)
  have "list_holds w K (watch_stop h a) s'"
    using assms lk watch_ok_op[OF ok, of "WStop h"] s'(4,5) m(2,3)
    by (auto simp: list_holds_def st uv__is_active_def hs) (auto simp: watch_stop_def)
  with s'(1) True assms show ?thesis
    by (intro exI[of _ OK] exI[of _ s']) (auto simp: win_watcher_stop_def list_holds_def Let_def split: if_splits)
qed

definition list_advance :: "watcher \<Rightarrow> 'a win_watch_loop_scheme \<Rightarrow> 'a win_watch_loop_scheme" where
  "list_advance w s = s\<lparr>next_handle := (next_handle s)(w := watcher_next (handles s (next_handle s w)))\<rparr>"

lemma list_holds_advance:
  assumes "list_holds w K a s" "ahead a \<noteq> []"
  shows "list_holds w K (watch_take a) (list_advance w s)"
proof -
  from assms(2) obtain h t where t: "ahead a = h # t" by (cases "ahead a") auto
  have ok: "watch_ok K a" and l: "linked (handles s) NULL (past a @ h # t) (head_handle s w)"
    and n: "next_handle s w = h" using assms(1) t by (auto simp: list_holds_def first_of_def)
  have "watcher_next (handles s h) = first_of t" using linked_links[OF l] by simp
  moreover have "started (watch_take a) = started a" using t by (auto simp: started_def watch_take_def)
  ultimately show ?thesis
    using assms watch_ok_take[OF ok t] t n l
    by (simp add: list_holds_def list_advance_def uv__is_active_def) (simp add: watch_take_def)
qed

interpretation win_watchers: watcher_impl "list_holds w" "win_watcher_start w" "win_watcher_stop w"
  "\<lambda>s. next_handle s w = NULL" "\<lambda>s. next_handle s w" "list_advance w"
  "\<lambda>s h. watcher_cb (handles s h)" win_note_call "invoke_watchers w" for w
proof
  fix K :: "ptr set" and a and s :: "'b win_watch_loop_scheme" and h cb :: ptr
  assume s: "list_holds w K a s"
  show "watch_ok K a" using s by (simp add: list_holds_def)
  have "NULL \<notin> set (ahead a)" using s by (auto simp: list_holds_def watch_ok_def started_def)
  then show "next_handle s w = NULL \<longleftrightarrow> ahead a = []"
    using s by (cases "ahead a") (auto simp: list_holds_def first_of_def)
  show "next_handle s w = h" if "ahead a = h # t" for t
    using s that by (auto simp: list_holds_def first_of_def)
  show "list_holds w K (watch_note h a) (win_note_call h s)"
    using s by (auto simp: list_holds_def watch_note_def win_note_call_def watch_ok_def started_def uv__is_active_def)
  show "list_holds w K (watch_take a) (list_advance w s)" if "ahead a \<noteq> []"
    using s that by (rule list_holds_advance)
  assume h: "h \<in> K"
  show "watcher_cb (handles s h) = cb_of a h" using s h by (simp add: list_holds_def)
  show "\<exists>r s'. win_watcher_start w h cb s = Some (r, s') \<and> list_holds w K (watch_start h cb a) s'"
    using s h by (rule list_holds_start)
  show "\<exists>r s'. win_watcher_stop w h s = Some (r, s') \<and> list_holds w K (watch_stop h a) s'"
    using s h by (rule list_holds_stop)
qed (subst invoke_watchers.simps, simp add: list_advance_def Let_def)

section \<open>What a run calls\<close>

definition never_stopped :: "script \<Rightarrow> ptr \<Rightarrow> bool" where
  "never_stopped prog h \<longleftrightarrow> (\<forall>cb g. WStop h \<notin> set (prog cb g))"

lemma subseq_remove1: "subseq (remove1 x xs) xs"
  by (induction xs) auto

lemma watch_op_ahead:
  "subseq (ahead (watch_op op a)) (ahead a)" "called (watch_op op a) = called a"
  "h \<in> set (ahead a) \<Longrightarrow> op \<noteq> WStop h \<Longrightarrow> h \<in> set (ahead (watch_op op a))"
  by (cases op; auto simp: watch_start_def watch_stop_def subseq_remove1)+

lemma watch_ops_ahead:
  "subseq (ahead (fold watch_op ops a)) (ahead a) \<and> called (fold watch_op ops a) = called a \<and>
    (\<forall>h \<in> set (ahead a). WStop h \<notin> set ops \<longrightarrow> h \<in> set (ahead (fold watch_op ops a)))"
proof (induction ops arbitrary: a)
  case (Cons op ops)
  show ?case
    using Cons[of "watch_op op a"] watch_op_ahead(1,2)[of op a] watch_op_ahead(3)[of _ a op] subseq_order.order_trans
    by auto
qed simp

lemma watch_run_calls:
  "\<exists>ys. called (watch_run prog a) = called a @ ys \<and> subseq ys (ahead a) \<and> ahead (watch_run prog a) = [] \<and>
    (\<forall>h \<in> set (ahead a). never_stopped prog h \<longrightarrow> h \<in> set ys)"
proof (induction "length (ahead a)" arbitrary: a rule: less_induct)
  case less
  show ?case
  proof (cases "ahead a")
    case Nil
    then show ?thesis by (simp add: watch_run.simps[of prog a])
  next
    case (Cons h t)
    let ?b = "watch_turn prog a"
    have b: "subseq (ahead ?b) t" "called ?b = called a @ [h]"
        "\<And>x. x \<in> set t \<Longrightarrow> never_stopped prog x \<Longrightarrow> x \<in> set (ahead ?b)"
      using watch_ops_ahead[of "prog (cb_of (watch_take a) h) h" "watch_note h (watch_take a)"] Cons
      by (auto simp: watch_turn_def watch_call_def watch_note_def watch_take_def never_stopped_def)
    have "length (ahead ?b) < length (ahead a)" by (rule length_ahead_turn) (simp add: Cons)
    from less.hyps[OF this] obtain ys where ys: "called (watch_run prog ?b) = called ?b @ ys"
      "subseq ys (ahead ?b)" "ahead (watch_run prog ?b) = []" "\<forall>h \<in> set (ahead ?b). never_stopped prog h \<longrightarrow> h \<in> set ys"
      by blast
    have "subseq (h # ys) (ahead a)" using ys(2) b(1) Cons subseq_order.order_trans by simp
    with ys b Cons show ?thesis by (intro exI[of _ "h # ys"]) (auto simp: watch_run.simps[of prog a])
  qed
qed

text \<open>The calls recorded before a run make no difference to it.\<close>

definition after :: "ptr list \<Rightarrow> watch \<Rightarrow> watch" where
  "after l a = a\<lparr>called := l @ called a\<rparr>"

lemma after_fields [simp]:
  "past (after l a) = past a" "ahead (after l a) = ahead a" "cb_of (after l a) = cb_of a"
  "called (after l a) = l @ called a"
  by (simp_all add: after_def)

lemma after_ops: "fold watch_op ops (after l a) = after l (fold watch_op ops a)"
proof (induction ops arbitrary: a)
  case (Cons op ops)
  have "watch_op op (after l a) = after l (watch_op op a)"
    by (cases op) (simp_all add: watch_start_def watch_stop_def started_def after_def)
  then show ?case using Cons by simp
qed simp

lemma after_turn: "watch_turn prog (after l a) = after l (watch_turn prog a)"
proof -
  have "watch_note h (watch_take (after l a)) = after l (watch_note h (watch_take a))" for h
    by (simp add: watch_note_def watch_take_def after_def)
  moreover have "cb_of (watch_take (after l a)) = cb_of (watch_take a)" by (simp add: watch_take_def)
  ultimately show ?thesis by (simp add: watch_turn_def watch_call_def after_ops)
qed

lemma after_run: "watch_run prog (after l a) = after l (watch_run prog a)"
proof (induction "length (ahead a)" arbitrary: a rule: less_induct)
  case less
  then show ?case
    using length_ahead_turn[of a prog]
    by (cases "ahead a = []") (simp_all add: watch_run.simps[of prog a] watch_run.simps[of prog "after l a"] after_turn)
qed

text \<open>The states between runs.\<close>

definition queue_rests :: "watcher \<Rightarrow> ptr set \<Rightarrow> ptr list \<Rightarrow> (ptr \<Rightarrow> ptr) \<Rightarrow> 'a watch_loop_scheme \<Rightarrow> bool" where
  "queue_rests w K xs cbs s \<longleftrightarrow> distinct xs \<and> set xs \<subseteq> K \<and> {LOCAL, handles_of w} \<inter> K = {} \<and>
     qring (watcher_q s) (handles_of w) xs \<and>
     (\<forall>h \<in> K. (uv__is_active Unix h s \<longleftrightarrow> h \<in> set xs) \<and> watcher_cb (handles s h) = cbs h)"

definition list_rests :: "watcher \<Rightarrow> ptr set \<Rightarrow> ptr list \<Rightarrow> (ptr \<Rightarrow> ptr) \<Rightarrow> 'a win_watch_loop_scheme \<Rightarrow> bool" where
  "list_rests w K xs cbs s \<longleftrightarrow> distinct xs \<and> set xs \<subseteq> K \<and> NULL \<notin> K \<and> linked (handles s) NULL xs (head_handle s w) \<and>
     (\<forall>h \<in> K. htype (handles s h) = watcher_type w \<and> \<not> has_flag (hflags s h) (UV__HANDLE_CLOSING Windows) \<and>
        (uv__is_active Windows h s \<longleftrightarrow> h \<in> set xs) \<and> watcher_cb (handles s h) = cbs h)"

lemma queue_holds_begin:
  assumes "queue_rests w K xs cbs s" "\<forall>h \<in> set xs. cbs h \<noteq> NULL"
  shows "queue_holds w K \<lparr>past = [], ahead = xs, cb_of = cbs, called = calls s\<rparr>
    (s\<lparr>watcher_q := QUEUE_MOVE (handles_of w) LOCAL (watcher_q s)\<rparr>)"
proof -
  have r: "qring (watcher_q s) (handles_of w) xs" "LOCAL \<notin> insert (handles_of w) (set xs)"
    using assms(1) by (auto simp: queue_rests_def)
  show ?thesis using assms qring_MOVE[OF r]
    by (auto simp: queue_holds_def queue_rests_def watch_ok_def started_def uv__is_active_def)
qed

lemma list_holds_begin:
  assumes "list_rests w K xs cbs s" "\<forall>h \<in> set xs. cbs h \<noteq> NULL"
  shows "list_holds w K \<lparr>past = [], ahead = xs, cb_of = cbs, called = win_calls s\<rparr>
    (s\<lparr>next_handle := (next_handle s)(w := head_handle s w)\<rparr>)"
  using assms linked_head[of "handles s" NULL xs "head_handle s w"]
  by (auto simp: list_holds_def list_rests_def watch_ok_def started_def uv__is_active_def)

section \<open>Properties\<close>

text \<open>
  C22: a run of the prepare, check or idle handles behaves the same on both platforms, whatever
  the callbacks start and stop: from the same list of started handles both runs end, call the
  same handles in the same order and leave the same list. The handles called are some of those
  started before the run, each at most once and in the order of the list, and every handle no
  callback stops is among them; handles started by a callback wait for the next run.
\<close>

theorem watchers_alike_on_both_platforms:
  assumes "queue_rests w K xs cbs u" "list_rests w K xs cbs v"
    and "\<forall>h \<in> set xs. cbs h \<noteq> NULL" "script_on K prog"
  shows "\<exists>u' v' ys zs cbs'. uv__run_watcher w (script_call w prog) u = Some u' \<and>
    uv_watcher_invoke w (win_script_call w prog) v = Some v' \<and>
    calls u' = calls u @ ys \<and> win_calls v' = win_calls v @ ys \<and>
    queue_rests w K zs cbs' u' \<and> list_rests w K zs cbs' v' \<and>
    subseq ys xs \<and> (\<forall>h \<in> set xs. never_stopped prog h \<longrightarrow> h \<in> set ys)"
proof -
  let ?a = "\<lparr>past = [], ahead = xs, cb_of = cbs, called = []\<rparr>"
  let ?u = "u\<lparr>watcher_q := QUEUE_MOVE (handles_of w) LOCAL (watcher_q u)\<rparr>"
  let ?v = "v\<lparr>next_handle := (next_handle v)(w := head_handle v w)\<rparr>"
  define b where "b = watch_run prog ?a"
  obtain ys where ys: "called b = ys" "subseq ys xs" "ahead b = []"
      "\<forall>h \<in> set xs. never_stopped prog h \<longrightarrow> h \<in> set ys"
    using watch_run_calls[of prog ?a] by (auto simp: b_def)
  have "queue_holds w K (after (calls u) ?a) ?u" "list_holds w K (after (win_calls v) ?a) ?v"
    using queue_holds_begin[OF assms(1,3)] list_holds_begin[OF assms(2,3)] by (simp_all add: after_def)
  from unix_watchers.holds_run[OF assms(4) this(1)] win_watchers.holds_run[OF assms(4) this(2)]
  obtain u' v' where u': "run_watchers w (script_call w prog) ?u = Some u'" "queue_holds w K (after (calls u) b) u'"
      and v': "invoke_watchers w (win_script_call w prog) ?v = Some v'" "list_holds w K (after (win_calls v) b) v'"
    by (auto simp: after_run b_def script_call_def[abs_def] win_script_call_def[abs_def])
  have "queue_rests w K (past b) (cb_of b) u'" "list_rests w K (past b) (cb_of b) v'"
    using u'(2) v'(2) ys(3)
    by (auto simp: queue_holds_def list_holds_def queue_rests_def list_rests_def watch_ok_def started_def)
  then show ?thesis
    using u' v' ys
    by (intro exI[of _ u'] exI[of _ v'] exI[of _ ys] exI[of _ "past b"] exI[of _ "cb_of b"])
       (auto simp: uv__run_watcher_def uv_watcher_invoke_def queue_holds_def list_holds_def)
qed

definition two_handles :: "u32 \<Rightarrow> ptr \<Rightarrow> handle" where
  "two_handles f h = \<lparr>htype = UV_PREPARE, flags = f, close_cb = 0, next_closing = 0, timer_cb = 0, timeout = 0,
     repeat = 0, start_id = 0, watcher_cb = 100, watcher_next = (if h = 10 then 9 else 0),
     watcher_prev = (if h = 9 then 10 else 0), endgame_next = 0\<rparr>"

definition two_on_unix :: watch_loop where
  "two_on_unix = uvloop.extend
     (empty_loop\<lparr>handles := two_handles 0x6000,
        watcher_q := \<lparr>qnext = id(3 := 10, 10 := 9, 9 := 3), qprev = id(10 := 3, 9 := 10, 3 := 9)\<rparr>\<rparr>)
     (watch_loop.fields [])"

definition two_on_windows :: win_watch_loop where
  "two_on_windows = winloop.extend
     (core.extend (empty_core\<lparr>handles := two_handles 0x60\<rparr>) (winloop.fields (\<lambda>_. 10) (\<lambda>_. 0)))
     (win_watch_loop.fields [])"

definition stop_other :: script where
  "stop_other cb h = (if h = 10 then [WStop 9] else [])"

theorem watchers_alike_on_both_platforms_witness:
  "\<exists>u' v'. uv__run_watcher Prepare (script_call Prepare stop_other) two_on_unix = Some u' \<and>
    uv_watcher_invoke Prepare (win_script_call Prepare stop_other) two_on_windows = Some v' \<and>
    calls u' = win_calls v' \<and> 10 \<in> set (calls u')"
proof -
  have u: "queue_rests Prepare {9, 10} [10, 9] (\<lambda>_. 100) two_on_unix" "calls two_on_unix = []"
    by (simp_all add: queue_rests_def two_on_unix_def two_handles_def uvloop.defs watch_loop.defs qring_def
        LOCAL_def uv__is_active_def has_flag_def)
  have v: "list_rests Prepare {9, 10} [10, 9] (\<lambda>_. 100) two_on_windows" "win_calls two_on_windows = []"
    by (simp_all add: list_rests_def two_on_windows_def two_handles_def core.defs winloop.defs win_watch_loop.defs
        uv__is_active_def has_flag_def empty_core_def)
  have p: "\<forall>h \<in> set [10, 9 :: ptr]. (100 :: ptr) \<noteq> NULL" "script_on {9, 10} stop_other"
    by (simp_all add: script_on_def stop_other_def)
  have "never_stopped stop_other 10" by (simp add: never_stopped_def stop_other_def)
  with watchers_alike_on_both_platforms[OF u(1) v(1) p] u(2) v(2) show ?thesis by auto
qed

end
