(* ===== verification/Uv_Io.thy ===== *)
theory Uv_Io
  imports Uv_Watcher
begin

text \<open>
  The file descriptors a Unix loop watches: \<open>uv__io_init\<close>, \<open>uv__io_start\<close>, \<open>uv__io_stop\<close>,
  \<open>uv__io_close\<close>, \<open>uv__io_feed\<close> and the table \<open>loop->watchers\<close> of \<open>src/unix/core.c\<close>. The table has
  two entries beyond \<open>nwatchers\<close>, in which \<open>uv__io_poll\<close> hides its list of events; it is the empty
  list while it is \<open>NULL\<close>. A failed \<open>assert\<close>, an \<open>abort\<close> and an access out of the table are \<open>None\<close>.
\<close>

unbundle bit_operations_syntax

section \<open>Watchers and their table\<close>

record io_watcher =
  io_cb :: ptr
  pevents :: u32
  events :: u32
  fd :: int

record ioloop = uvloop +
  ios :: "ptr \<Rightarrow> io_watcher"
  pending_q :: qstore
  iowatch_q :: qstore
  watchers :: "ptr list"
  nwatchers :: u32
  nfds :: u32

definition POLLIN :: u32 where "POLLIN = 1"
definition POLLOUT :: u32 where "POLLOUT = 4"
definition UV__POLLRDHUP :: u32 where "UV__POLLRDHUP = 0x2000"

definition all_events :: u32 where
  "all_events = POLLIN OR POLLOUT OR UV__POLLRDHUP"

definition upd_io :: "ptr \<Rightarrow> (io_watcher \<Rightarrow> io_watcher) \<Rightarrow> 'a ioloop_scheme \<Rightarrow> 'a ioloop_scheme" where
  "upd_io w f s = s\<lparr>ios := (ios s)(w := f (ios s w))\<rparr>"

definition next_power_of_two :: "u32 \<Rightarrow> u32" where
  "next_power_of_two v =
     (let v = v - 1;
          v = v OR drop_bit 1 v;
          v = v OR drop_bit 2 v;
          v = v OR drop_bit 4 v;
          v = v OR drop_bit 8 v;
          v = v OR drop_bit 16 v
      in v + 1)"

text \<open>\<open>avail n\<close> says whether \<open>uv__realloc\<close> can give \<open>n\<close> entries.\<close>

definition maybe_resize :: "(nat \<Rightarrow> bool) \<Rightarrow> u32 \<Rightarrow> 'a ioloop_scheme \<Rightarrow> 'a ioloop_scheme option" where
  "maybe_resize avail len s =
     (if len \<le> nwatchers s then Some s
      else
        (let fake_watcher_list = (if watchers s \<noteq> [] then watchers s ! unat (nwatchers s) else NULL);
             fake_watcher_count = (if watchers s \<noteq> [] then watchers s ! (unat (nwatchers s) + 1) else NULL);
             n = next_power_of_two (len + 2) - 2
         in if \<not> avail (unat (n + 2)) then None
            else Some (s\<lparr>watchers := take (unat (nwatchers s)) (watchers s) @
                     replicate (unat n - unat (nwatchers s)) NULL @ [fake_watcher_list, fake_watcher_count],
                   nwatchers := n\<rparr>)))"

definition uv__io_init :: "ptr \<Rightarrow> ptr \<Rightarrow> int \<Rightarrow> 'a ioloop_scheme \<Rightarrow> 'a ioloop_scheme option" where
  "uv__io_init w cb f s =
     (if cb = NULL \<or> f < -1 then None
      else
        (let s1 = s\<lparr>pending_q := QUEUE_INIT w (pending_q s)\<rparr>;
             s2 = s1\<lparr>iowatch_q := QUEUE_INIT w (iowatch_q s1)\<rparr>
         in Some (upd_io w (\<lambda>_. \<lparr>io_cb = cb, pevents = 0, events = 0, fd = f\<rparr>) s2)))"

definition valid_events :: "u32 \<Rightarrow> bool" where
  "valid_events ev \<longleftrightarrow> ev AND NOT all_events = 0 \<and> ev \<noteq> 0"

definition uv__io_start :: "(nat \<Rightarrow> bool) \<Rightarrow> ptr \<Rightarrow> u32 \<Rightarrow> 'a ioloop_scheme \<Rightarrow> 'a ioloop_scheme option" where
  "uv__io_start avail w ev s =
     (if \<not> valid_events ev \<or> fd (ios s w) < 0 \<or> INT_MAX \<le> fd (ios s w) then None
      else
        Option.bind (maybe_resize avail (word_of_int (fd (ios s w) + 1)) (upd_io w (\<lambda>x. x\<lparr>pevents := pevents x OR ev\<rparr>) s))
          (\<lambda>s1.
        if events (ios s1 w) = pevents (ios s1 w) then
          (if events (ios s1 w) = 0 \<and> \<not> QUEUE_EMPTY w (iowatch_q s1)
           then Some (s1\<lparr>iowatch_q := QUEUE_INIT w (QUEUE_REMOVE w (iowatch_q s1))\<rparr>)
           else Some s1)
        else
          (let s2 = (if QUEUE_EMPTY w (iowatch_q s1)
                     then s1\<lparr>iowatch_q := QUEUE_INSERT_TAIL HEAD w (iowatch_q s1)\<rparr> else s1);
               i = nat (fd (ios s2 w))
           in if length (watchers s2) \<le> i then None
              else if watchers s2 ! i = NULL
              then Some (s2\<lparr>watchers := (watchers s2)[i := w], nfds := nfds s2 + 1\<rparr>)
              else Some s2)))"

definition uv__io_stop :: "ptr \<Rightarrow> u32 \<Rightarrow> 'a ioloop_scheme \<Rightarrow> 'a ioloop_scheme option" where
  "uv__io_stop w ev s =
     (if \<not> valid_events ev then None
      else if fd (ios s w) = -1 then Some s
      else if fd (ios s w) < 0 then None
      else if nwatchers s \<le> word_of_int (fd (ios s w)) then Some s
      else
        (let s1 = upd_io w (\<lambda>x. x\<lparr>pevents := pevents x AND NOT ev\<rparr>) s;
             i = nat (fd (ios s1 w))
         in if pevents (ios s1 w) = 0 then
              (let s2 = s1\<lparr>iowatch_q := QUEUE_INIT w (QUEUE_REMOVE w (iowatch_q s1))\<rparr>
               in if watchers s2 ! i \<noteq> NULL then
                    (if watchers s2 ! i \<noteq> w \<or> nfds s2 = 0 then None
                     else Some (upd_io w (\<lambda>x. x\<lparr>events := 0\<rparr>)
                            (s2\<lparr>watchers := (watchers s2)[i := NULL], nfds := nfds s2 - 1\<rparr>)))
                  else Some s2)
            else if QUEUE_EMPTY w (iowatch_q s1)
            then Some (s1\<lparr>iowatch_q := QUEUE_INSERT_TAIL HEAD w (iowatch_q s1)\<rparr>)
            else Some s1))"

text \<open>\<open>invalidate\<close> is \<open>uv__platform_invalidate_fd\<close>.\<close>

definition uv__io_close ::
    "(int \<Rightarrow> 'a ioloop_scheme \<Rightarrow> 'a ioloop_scheme) \<Rightarrow> ptr \<Rightarrow> 'a ioloop_scheme \<Rightarrow> 'a ioloop_scheme option" where
  "uv__io_close invalidate w s =
     Option.bind (uv__io_stop w all_events s) (\<lambda>s1.
     Some (invalidate (fd (ios s1 w)) (s1\<lparr>pending_q := QUEUE_REMOVE w (pending_q s1)\<rparr>)))"

definition uv__io_feed :: "ptr \<Rightarrow> 'a ioloop_scheme \<Rightarrow> 'a ioloop_scheme" where
  "uv__io_feed w s =
     (if QUEUE_EMPTY w (pending_q s) then s\<lparr>pending_q := QUEUE_INSERT_TAIL HEAD w (pending_q s)\<rparr> else s)"

definition uv__io_active :: "ptr \<Rightarrow> u32 \<Rightarrow> 'a ioloop_scheme \<Rightarrow> bool option" where
  "uv__io_active w ev s = (if \<not> valid_events ev then None else Some (pevents (ios s w) AND ev \<noteq> 0))"

text \<open>A callback of a watcher takes the watcher and the events.\<close>

type_synonym 'a io_callbacks = "ptr \<Rightarrow> ptr \<Rightarrow> u32 \<Rightarrow> 'a ioloop_scheme \<Rightarrow> 'a ioloop_scheme option"

partial_function (option) drain_pending :: "'a io_callbacks \<Rightarrow> 'a ioloop_scheme \<Rightarrow> 'a ioloop_scheme option" where
  "drain_pending call s =
     (if QUEUE_EMPTY LOCAL (pending_q s) then Some s
      else
        (let w = QUEUE_HEAD LOCAL (pending_q s);
             s1 = s\<lparr>pending_q := QUEUE_REMOVE w (pending_q s)\<rparr>;
             s2 = s1\<lparr>pending_q := QUEUE_INIT w (pending_q s1)\<rparr>
         in Option.bind (call (io_cb (ios s2 w)) w POLLOUT s2) (drain_pending call)))"

definition uv__run_pending :: "'a io_callbacks \<Rightarrow> 'a ioloop_scheme \<Rightarrow> (bool \<times> 'a ioloop_scheme) option" where
  "uv__run_pending call s =
     (if QUEUE_EMPTY HEAD (pending_q s) then Some (False, s)
      else Option.bind (drain_pending call (s\<lparr>pending_q := QUEUE_MOVE HEAD LOCAL (pending_q s)\<rparr>))
             (\<lambda>s1. Some (True, s1)))"

text \<open>The first part of \<open>uv__io_poll\<close> of \<open>src/unix/linux-core.c\<close>: the kernel is told what has changed.
  \<open>epoll_ctl op fd events\<close> is the result of \<open>uv__epoll_ctl\<close>, 0 or the value of \<open>errno\<close>.\<close>

datatype epoll_op = UV__EPOLL_CTL_ADD | UV__EPOLL_CTL_MOD

definition EEXIST :: int where "EEXIST = 17"

definition tell_kernel :: "(epoll_op \<Rightarrow> int \<Rightarrow> u32 \<Rightarrow> int) \<Rightarrow> io_watcher \<Rightarrow> unit option" where
  "tell_kernel epoll_ctl x =
     (let ctl_op = (if events x = 0 then UV__EPOLL_CTL_ADD else UV__EPOLL_CTL_MOD);
          r = epoll_ctl ctl_op (fd x) (pevents x)
      in if r = 0 then Some ()
         else if r \<noteq> EEXIST then None
         else if ctl_op \<noteq> UV__EPOLL_CTL_ADD then None
         else if epoll_ctl UV__EPOLL_CTL_MOD (fd x) (pevents x) \<noteq> 0 then None
         else Some ())"

partial_function (option) register_watchers ::
    "(epoll_op \<Rightarrow> int \<Rightarrow> u32 \<Rightarrow> int) \<Rightarrow> 'a ioloop_scheme \<Rightarrow> 'a ioloop_scheme option" where
  "register_watchers epoll_ctl s =
     (if QUEUE_EMPTY HEAD (iowatch_q s) then Some s
      else
        (let w = QUEUE_HEAD HEAD (iowatch_q s);
             s1 = s\<lparr>iowatch_q := QUEUE_INIT w (QUEUE_REMOVE w (iowatch_q s))\<rparr>;
             x = ios s1 w
         in if pevents x = 0 \<or> fd x < 0 \<or> uint (nwatchers s1) \<le> fd x then None
            else Option.bind (tell_kernel epoll_ctl x) (\<lambda>_.
                 register_watchers epoll_ctl (upd_io w (\<lambda>y. y\<lparr>events := pevents y\<rparr>) s1))))"

definition poll_begin ::
    "(epoll_op \<Rightarrow> int \<Rightarrow> u32 \<Rightarrow> int) \<Rightarrow> 'a ioloop_scheme \<Rightarrow> 'a ioloop_scheme option" where
  "poll_begin epoll_ctl s =
     (if nfds s = 0 then if QUEUE_EMPTY HEAD (iowatch_q s) then Some s else None
      else register_watchers epoll_ctl s)"

section \<open>The next power of two\<close>

lemma or_drop_bit_spread:
  fixes v :: u32
  assumes "\<And>n. bit r n \<longleftrightarrow> (\<exists>k < m. bit v (n + k))"
  shows "bit (r OR drop_bit m r) n \<longleftrightarrow> (\<exists>k < 2 * m. bit v (n + k))"
proof -
  have "(\<exists>k < m. bit v (n + k)) \<or> (\<exists>k < m. bit v (n + m + k)) \<longleftrightarrow> (\<exists>k < 2 * m. bit v (n + k))"
  proof
    assume "(\<exists>k < m. bit v (n + k)) \<or> (\<exists>k < m. bit v (n + m + k))"
    then show "\<exists>k < 2 * m. bit v (n + k)"
    proof (elim disjE exE conjE)
      fix k assume "k < m" "bit v (n + k)"
      then show ?thesis by (intro exI[of _ k]) simp
    next
      fix k assume "k < m" "bit v (n + m + k)"
      then show ?thesis by (intro exI[of _ "m + k"]) (simp add: add.assoc)
    qed
  next
    assume "\<exists>k < 2 * m. bit v (n + k)"
    then obtain k where k: "k < 2 * m" "bit v (n + k)" by blast
    then show "(\<exists>k < m. bit v (n + k)) \<or> (\<exists>k < m. bit v (n + m + k))"
      by (cases "k < m") (auto intro: exI[of _ "k - m"])
  qed
  then show ?thesis by (simp add: bit_or_iff bit_drop_bit_eq assms add.commute[of m n])
qed

lemma spread_all_bits:
  fixes v :: u32
  defines "r1 \<equiv> v OR drop_bit 1 v"
  defines "r2 \<equiv> r1 OR drop_bit 2 r1"
  defines "r4 \<equiv> r2 OR drop_bit 4 r2"
  defines "r8 \<equiv> r4 OR drop_bit 8 r4"
  shows "bit (r8 OR drop_bit 16 r8) n \<longleftrightarrow> (\<exists>k < 32. bit v (n + k))"
proof -
  have "bit v n \<longleftrightarrow> (\<exists>k < 1. bit v (n + k))" for n by simp
  note b1 = or_drop_bit_spread[OF this, folded r1_def]
  have "bit r1 n \<longleftrightarrow> (\<exists>k < 2. bit v (n + k))" for n using b1[of n] by simp
  note b2 = or_drop_bit_spread[OF this, folded r2_def]
  have "bit r2 n \<longleftrightarrow> (\<exists>k < 4. bit v (n + k))" for n using b2[of n] by simp
  note b4 = or_drop_bit_spread[OF this, folded r4_def]
  have "bit r4 n \<longleftrightarrow> (\<exists>k < 8. bit v (n + k))" for n using b4[of n] by simp
  note b8 = or_drop_bit_spread[OF this, folded r8_def]
  have "bit r8 n \<longleftrightarrow> (\<exists>k < 16. bit v (n + k))" for n using b8[of n] by simp
  note b16 = or_drop_bit_spread[OF this]
  show ?thesis using b16[of n] by simp
qed

lemma next_power_of_two_bound:
  assumes "0 < unat v" "unat v \<le> 2 ^ 31"
  shows "\<exists>k. unat (next_power_of_two v) = 2 ^ k \<and> unat v \<le> 2 ^ k \<and> 2 ^ k < 2 * unat v"
proof -
  let ?u = "v - 1"
  have "1 \<le> v" using assms(1) by (simp add: word_le_nat_alt)
  then have u: "unat ?u = unat v - 1" by (simp add: unat_sub)
  define r where "r = next_power_of_two v - 1"
  have bits: "bit r n \<longleftrightarrow> (\<exists>k < 32. bit ?u (n + k))" for n
    unfolding r_def next_power_of_two_def Let_def using spread_all_bits[of ?u n] by simp
  show ?thesis
  proof (cases "unat v = 1")
    case True
    then have "?u = 0" using u by (simp add: unat_eq_zero)
    then have "r = 0" using bits by (intro bit_word_eqI) simp
    then show ?thesis using True by (intro exI[of _ 0]) (simp add: r_def)
  next
    case False
    then have "1 \<le> unat ?u" using u assms(1) by simp
    then obtain t where t: "2 ^ t \<le> unat ?u" "unat ?u < 2 ^ (t + 1)" using ex_power_ivl1[of 2 "unat ?u"] by auto
    have "(2::nat) ^ t < 2 ^ 31" using t(1) u assms by linarith
    then have t30: "t \<le> 30" by (simp only: power_strict_increasing_iff)
    have ub: "bit ?u j \<longleftrightarrow> odd (unat ?u div 2 ^ j)" for j
      by (simp add: bit_unsigned_iff flip: bit_iff_odd)
    have top: "bit ?u t"
    proof -
      have "unat ?u div 2 ^ t = 1" using t by (intro div_nat_eqI) auto
      then show ?thesis by (simp add: ub)
    qed
    have above: "\<not> bit ?u j" if "t < j" for j
    proof -
      have "(2::nat) ^ (t + 1) \<le> 2 ^ j" using that by (intro power_increasing) auto
      then have "unat ?u < 2 ^ j" using t(2) by linarith
      then show ?thesis by (simp add: ub)
    qed
    have "bit r n \<longleftrightarrow> n < t + 1" for n
    proof
      assume "bit r n"
      then obtain k where k: "bit ?u (n + k)" using bits by blast
      show "n < t + 1"
      proof (rule ccontr)
        assume "\<not> n < t + 1"
        then show False using above[of "n + k"] k by simp
      qed
    next
      assume "n < t + 1"
      then have "t - n < 32" "n + (t - n) = t" using t30 by auto
      then show "bit r n" using bits top by metis
    qed
    then have "r = mask (t + 1)" by (intro bit_word_eqI) (auto simp: bit_mask_iff)
    then have "next_power_of_two v = 2 ^ (t + 1)" by (simp add: r_def mask_eq_exp_minus_1 algebra_simps)
    moreover have "unat (2 ^ (t + 1) :: u32) = 2 ^ (t + 1)"
    proof -
      have "(2::nat) ^ (t + 1) < 2 ^ 32" using t30 by (intro power_strict_increasing) auto
      moreover have "(word_of_nat (2 ^ (t + 1)) :: u32) = 2 ^ (t + 1)" by simp
      ultimately show ?thesis by (intro of_nat_inverse) simp_all
    qed
    ultimately show ?thesis using t u assms(1) by (intro exI[of _ "t + 1"]) auto
  qed
qed

section \<open>The table and the queue of changes\<close>

definition io_array :: "'a ioloop_scheme \<Rightarrow> bool" where
  "io_array s \<longleftrightarrow> (if watchers s = [] then nwatchers s = 0 else length (watchers s) = unat (nwatchers s) + 2)"

definition in_table :: "ptr \<Rightarrow> 'a ioloop_scheme \<Rightarrow> bool" where
  "in_table w s \<longleftrightarrow> nat (fd (ios s w)) < unat (nwatchers s) \<and> watchers s ! nat (fd (ios s w)) = w"

text \<open>For the watchers \<open>W\<close>, which have distinct descriptors: the table holds exactly the watchers
  with an interest, and \<open>nfds\<close> counts them.\<close>

definition io_table :: "ptr set \<Rightarrow> 'a ioloop_scheme \<Rightarrow> bool" where
  "io_table W s \<longleftrightarrow> finite W \<and> card W < 2 ^ 32 \<and> NULL \<notin> W \<and> inj_on (\<lambda>w. fd (ios s w)) W \<and>
     (\<forall>w \<in> W. 0 \<le> fd (ios s w) \<and> fd (ios s w) < INT_MAX - 1) \<and> io_array s \<and>
     (\<forall>i < unat (nwatchers s). watchers s ! i \<noteq> NULL \<longrightarrow> watchers s ! i \<in> W \<and> fd (ios s (watchers s ! i)) = int i) \<and>
     (\<forall>w \<in> W. (in_table w s \<longleftrightarrow> pevents (ios s w) \<noteq> 0) \<and> (events (ios s w) \<noteq> 0 \<longrightarrow> pevents (ios s w) \<noteq> 0)) \<and>
     nfds s = of_nat (card {w \<in> W. pevents (ios s w) \<noteq> 0})"

text \<open>The queue of changes holds watchers with an interest, and every one of which the kernel knows
  other events than it is interested in.\<close>

definition io_queue :: "ptr set \<Rightarrow> 'a ioloop_scheme \<Rightarrow> bool" where
  "io_queue W s \<longleftrightarrow> HEAD \<notin> W \<and> (\<exists>xs. qring (iowatch_q s) HEAD xs \<and> set xs \<subseteq> W \<and>
     (\<forall>w \<in> W - set xs. qring (iowatch_q s) w []) \<and> (\<forall>w \<in> set xs. pevents (ios s w) \<noteq> 0) \<and>
     (\<forall>w \<in> W. pevents (ios s w) \<noteq> events (ios s w) \<longrightarrow> w \<in> set xs))"

lemma maybe_resize_ok:
  assumes "io_array s" "unat len \<le> 2 ^ 31 - 2"
  shows "\<exists>ws n. maybe_resize (\<lambda>_. True) len s = Some (s\<lparr>watchers := ws, nwatchers := n\<rparr>) \<and>
    io_array (s\<lparr>watchers := ws, nwatchers := n\<rparr>) \<and> unat len \<le> unat n \<and> unat (nwatchers s) \<le> unat n \<and>
    (\<forall>i < unat (nwatchers s). ws ! i = watchers s ! i) \<and> (\<forall>i. unat (nwatchers s) \<le> i \<and> i < unat n \<longrightarrow> ws ! i = NULL)"
proof (cases "len \<le> nwatchers s")
  case True
  then show ?thesis using assms(1)
    by (intro exI[of _ "watchers s"] exI[of _ "nwatchers s"]) (auto simp: maybe_resize_def word_le_nat_alt)
next
  case False
  have l2: "unat (len + 2) = unat len + 2" using assms(2) by (subst unat_add_lem[THEN iffD1]) simp_all
  obtain k where k: "unat (next_power_of_two (len + 2)) = 2 ^ k" "unat (len + 2) \<le> 2 ^ k"
    using next_power_of_two_bound[of "len + 2"] l2 assms(2) by auto
  let ?n = "next_power_of_two (len + 2) - 2"
  have n: "unat ?n = 2 ^ k - 2"
    using k l2 by (subst unat_sub) (simp_all add: word_le_nat_alt)
  have le: "unat len \<le> unat ?n" "unat (nwatchers s) \<le> unat ?n"
    using False k(2) l2 n by (auto simp: word_le_nat_alt)
  have len_ws: "length (take (unat (nwatchers s)) (watchers s)) = unat (nwatchers s)"
    using assms(1) by (auto simp: io_array_def split: if_splits)
  define ws where "ws = take (unat (nwatchers s)) (watchers s) @ replicate (unat ?n - unat (nwatchers s)) NULL @
    [if watchers s \<noteq> [] then watchers s ! unat (nwatchers s) else NULL,
     if watchers s \<noteq> [] then watchers s ! (unat (nwatchers s) + 1) else NULL]"
  have "maybe_resize (\<lambda>_. True) len s = Some (s\<lparr>watchers := ws, nwatchers := ?n\<rparr>)"
    using False by (simp add: maybe_resize_def Let_def ws_def)
  moreover have "io_array (s\<lparr>watchers := ws, nwatchers := ?n\<rparr>)"
    using le(2) len_ws by (auto simp: io_array_def ws_def)
  moreover have "\<forall>i < unat (nwatchers s). ws ! i = watchers s ! i"
    using len_ws by (auto simp: ws_def nth_append)
  moreover have "\<forall>i. unat (nwatchers s) \<le> i \<and> i < unat ?n \<longrightarrow> ws ! i = NULL"
    using len_ws le(2) by (auto simp: ws_def nth_append)
  ultimately show ?thesis using le by blast
qed

lemma io_frame [simp]:
  "ios (upd_io w f s) = (ios s)(w := f (ios s w))" "watchers (upd_io w f s) = watchers s"
  "nwatchers (upd_io w f s) = nwatchers s" "nfds (upd_io w f s) = nfds s"
  "iowatch_q (upd_io w f s) = iowatch_q s" "pending_q (upd_io w f s) = pending_q s"
  "io_array (upd_io w f s) = io_array s"
  by (simp_all add: upd_io_def io_array_def)

lemma REMOVE_self: "qring q w [] \<Longrightarrow> QUEUE_REMOVE w q = q"
  by (cases q) (auto simp: qring_def QUEUE_REMOVE_def set_next_def set_prev_def)

lemma INIT_self: "qring q w [] \<Longrightarrow> QUEUE_INIT w q = q"
  by (cases q) (auto simp: qring_def QUEUE_INIT_def set_next_def set_prev_def)

lemma card_interest:
  fixes P Q :: "ptr \<Rightarrow> bool"
  assumes "finite W" "w \<in> W" "\<And>x. x \<in> W \<Longrightarrow> x \<noteq> w \<Longrightarrow> Q x = P x"
  shows "card {x \<in> W. Q x} + (if P w then 1 else 0) = card {x \<in> W. P x} + (if Q w then 1 else 0)"
proof -
  have e: "{x \<in> W. Q x} - {w} = {x \<in> W. P x} - {w}" using assms(3) by auto
  have c: "card {x \<in> W. R x} = card ({x \<in> W. R x} - {w}) + (if R w then 1 else 0)" for R
  proof (cases "R w")
    case True
    then show ?thesis using assms(1,2) card.remove[of "{x \<in> W. R x}" w] by simp
  qed (use assms(1) in \<open>simp add: Diff_insert_absorb\<close>)
  from c[of P] c[of Q] e show ?thesis by simp
qed

text \<open>Changing the interest of one watcher, and its entry with it.\<close>

lemma io_table_update:
  assumes "io_table W s" "w \<in> W" and ios': "ios s' = (ios s)(w := x)" and x: "fd x = fd (ios s w)"
    "events x \<noteq> 0 \<longrightarrow> pevents x \<noteq> 0"
    and arr: "io_array s'" "unat (nwatchers s) \<le> unat (nwatchers s')"
    and wat: "\<And>i. i < unat (nwatchers s') \<Longrightarrow> watchers s' ! i =
      (if int i = fd x then if pevents x \<noteq> 0 then w else NULL
       else if i < unat (nwatchers s) then watchers s ! i else NULL)"
    and room: "pevents x \<noteq> 0 \<longrightarrow> nat (fd x) < unat (nwatchers s')"
    and n: "nfds s' + (if pevents (ios s w) \<noteq> 0 then 1 else 0) = nfds s + (if pevents x \<noteq> 0 then 1 else 0)"
  shows "io_table W s'"
proof -
  note T = assms(1)[unfolded io_table_def]
  have other: "fd (ios s' v) = fd (ios s v)" for v by (simp add: ios' x)
  have w0: "w \<noteq> NULL" "0 \<le> fd x" using T assms(2) x by metis+
  have ne: "fd (ios s v) \<noteq> fd x" if "v \<in> W" "v \<noteq> w" for v
    using T that assms(2) x by (metis inj_onD)
  have tab: "in_table v s' \<longleftrightarrow> pevents (ios s' v) \<noteq> 0" if v: "v \<in> W" for v
  proof (cases "v = w")
    case True
    then show ?thesis using w0 room wat by (auto simp: in_table_def other x ios')
  next
    case False
    have v0: "0 \<le> fd (ios s v)" "v \<noteq> NULL" using T v by metis+
    have "in_table v s' \<longleftrightarrow> in_table v s"
      using wat ne[OF v False] v0 arr(2) by (auto simp: in_table_def other split: if_splits)
    then show ?thesis using T v False by (simp add: ios')
  qed
  have ent: "watchers s' ! i \<in> W \<and> fd (ios s' (watchers s' ! i)) = int i"
    if i: "i < unat (nwatchers s')" "watchers s' ! i \<noteq> NULL" for i
    using wat[OF i(1)] i T assms(2) x by (auto simp: other split: if_splits)
  have "card {v \<in> W. pevents (ios s' v) \<noteq> 0} + (if pevents (ios s w) \<noteq> 0 then 1 else 0) =
      card {v \<in> W. pevents (ios s v) \<noteq> 0} + (if pevents (ios s' w) \<noteq> 0 then 1 else 0)"
    using T assms(2) by (intro card_interest) (auto simp: ios')
  from arg_cong[OF this, of "of_nat :: nat \<Rightarrow> u32"]
  have c: "(of_nat (card {v \<in> W. pevents (ios s' v) \<noteq> 0}) :: u32) + (if pevents (ios s w) \<noteq> 0 then 1 else 0) =
      of_nat (card {v \<in> W. pevents (ios s v) \<noteq> 0}) + (if pevents x \<noteq> 0 then 1 else 0)"
    unfolding of_nat_add by (simp only: ios' fun_upd_same if_distrib[of of_nat] semiring_1_class.of_nat_0 semiring_1_class.of_nat_1)
  moreover have "nfds s = of_nat (card {v \<in> W. pevents (ios s v) \<noteq> 0})" using T by metis
  ultimately have "nfds s' + (if pevents (ios s w) \<noteq> 0 then 1 else 0) =
      of_nat (card {v \<in> W. pevents (ios s' v) \<noteq> 0}) + (if pevents (ios s w) \<noteq> 0 then 1 else 0)"
    using n by simp
  then have "nfds s' = of_nat (card {v \<in> W. pevents (ios s' v) \<noteq> 0})" by (simp only: add_right_cancel)
  moreover have "inj_on (\<lambda>w. fd (ios s' w)) W" using T by (simp add: other)
  moreover have "\<forall>v \<in> W. 0 \<le> fd (ios s' v) \<and> fd (ios s' v) < INT_MAX - 1" using T by (simp add: other)
  moreover have "\<forall>v \<in> W. events (ios s' v) \<noteq> 0 \<longrightarrow> pevents (ios s' v) \<noteq> 0" using T x(2) by (simp add: ios')
  moreover have "finite W" "card W < 2 ^ 32" "NULL \<notin> W" using T by metis+
  ultimately show ?thesis unfolding io_table_def using tab ent arr(1) by blast
qed

lemma same_table:
  assumes "io_table W s" "ios s' = ios s" "watchers s' = watchers s" "nwatchers s' = nwatchers s" "nfds s' = nfds s"
  shows "io_table W s'"
  using assms by (simp add: io_table_def in_table_def io_array_def)

lemma io_queueE:
  assumes "io_queue W s"
  obtains xs where "HEAD \<notin> W" "qring (iowatch_q s) HEAD xs" "set xs \<subseteq> W" "distinct xs"
    "\<And>w. w \<in> W \<Longrightarrow> w \<notin> set xs \<Longrightarrow> qring (iowatch_q s) w []"
    "\<And>w. w \<in> set xs \<Longrightarrow> pevents (ios s w) \<noteq> 0"
    "\<And>w. w \<in> W \<Longrightarrow> pevents (ios s w) \<noteq> events (ios s w) \<Longrightarrow> w \<in> set xs"
  using assms qring_distinct by (fastforce simp: io_queue_def)

text \<open>A watcher is in the queue exactly if its own node is not a ring by itself.\<close>

lemma queued_iff:
  assumes "qring q HEAD xs" "w \<noteq> HEAD" "w \<notin> set xs \<Longrightarrow> qring q w []"
  shows "QUEUE_EMPTY w q \<longleftrightarrow> w \<notin> set xs"
proof
  assume e: "QUEUE_EMPTY w q"
  show "w \<notin> set xs"
  proof
    assume "w \<in> set xs"
    from in_set_split[OF this] obtain ys zs where xs: "xs = ys @ w # zs" by (elim exE)
    have r: "qring q HEAD (ys @ w # zs)" using assms(1) unfolding xs .
    have s: "qseg q w zs HEAD" using r unfolding qring_def qseg_append qseg.simps by blast
    have n: "w \<notin> set zs" using qring_distinct[OF r] by simp
    have "w = hd (zs @ [HEAD])" using qseg_first[OF s] e unfolding QUEUE_EMPTY_def by (rule trans[rotated])
    then show False using assms(2) n by (cases zs) simp_all
  qed
qed (use assms qring_empty_iff in auto)

lemma unqueue:
  assumes "io_queue W s" "w \<in> W"
    and s': "iowatch_q s' = QUEUE_INIT w (QUEUE_REMOVE w (iowatch_q s))" "ios s' = (ios s)(w := x)" "pevents x = events x"
  shows "io_queue W s'"
proof -
  obtain xs where xs: "HEAD \<notin> W" "qring (iowatch_q s) HEAD xs" "set xs \<subseteq> W" "distinct xs"
    "\<And>w. w \<in> W \<Longrightarrow> w \<notin> set xs \<Longrightarrow> qring (iowatch_q s) w []"
    "\<And>w. w \<in> set xs \<Longrightarrow> pevents (ios s w) \<noteq> 0"
    "\<And>w. w \<in> W \<Longrightarrow> pevents (ios s w) \<noteq> events (ios s w) \<Longrightarrow> w \<in> set xs"
    using io_queueE[OF assms(1)] by metis
  have w: "w \<noteq> HEAD" using xs(1) assms(2) by blast
  have "qring (iowatch_q s') HEAD (remove1 w xs) \<and> (\<forall>v \<in> W. v \<notin> set (remove1 w xs) \<longrightarrow> qring (iowatch_q s') v [])"
  proof (cases "w \<in> set xs")
    case True
    have "qring (QUEUE_REMOVE w (iowatch_q s)) HEAD (remove1 w xs)" using uvq.unlink_remove1[OF xs(2) True] .
    moreover have "qring (QUEUE_REMOVE w (iowatch_q s)) v []" if "v \<in> W" "v \<notin> set xs" for v
    proof -
      have "insert v (set []) \<inter> insert HEAD (set xs) = {}" using that xs(1) by auto
      from qring_REMOVE_frame[OF xs(2) True this] xs(5)[OF that] show ?thesis by simp
    qed
    moreover have "qring (iowatch_q s') v []" if "v \<in> W" "v \<notin> set (remove1 w xs)" for v
      using calculation(2)[OF that(1)] that(2) xs(4) qring_INIT_frame[of w v "[]"] qring_INIT
      by (cases "v = w") (auto simp: s' set_remove1_eq)
    ultimately show ?thesis
      using qring_INIT_frame[of w HEAD "remove1 w xs"] w xs(4) by (auto simp: s' set_remove1_eq)
  next
    case False
    then have "iowatch_q s' = iowatch_q s" using xs(5)[OF assms(2)] by (simp add: s' REMOVE_self INIT_self)
    then show ?thesis using xs False by (simp add: remove1_idem)
  qed
  then show ?thesis
    using xs s'(2,3) by (auto simp: io_queue_def set_remove1_eq intro!: exI[of _ "remove1 w xs"])
qed

lemma enqueue:
  assumes "io_queue W s" "w \<in> W"
    and s': "iowatch_q s' = (if QUEUE_EMPTY w (iowatch_q s) then QUEUE_INSERT_TAIL HEAD w (iowatch_q s) else iowatch_q s)"
      "ios s' = (ios s)(w := x)" "pevents x \<noteq> 0"
  shows "io_queue W s'"
proof -
  obtain xs where xs: "HEAD \<notin> W" "qring (iowatch_q s) HEAD xs" "set xs \<subseteq> W" "distinct xs"
    "\<And>w. w \<in> W \<Longrightarrow> w \<notin> set xs \<Longrightarrow> qring (iowatch_q s) w []"
    "\<And>w. w \<in> set xs \<Longrightarrow> pevents (ios s w) \<noteq> 0"
    "\<And>w. w \<in> W \<Longrightarrow> pevents (ios s w) \<noteq> events (ios s w) \<Longrightarrow> w \<in> set xs"
    using io_queueE[OF assms(1)] by metis
  have w: "w \<noteq> HEAD" using xs(1) assms(2) by blast
  note q = queued_iff[OF xs(2) w xs(5)[OF assms(2)]]
  show ?thesis
  proof (cases "w \<in> set xs")
    case True
    then show ?thesis using xs q s' by (auto simp: io_queue_def intro!: exI[of _ xs])
  next
    case False
    have "qring (iowatch_q s') HEAD (xs @ [w])"
      using qring_INSERT_TAIL[OF xs(2)] False w q by (simp add: s')
    moreover have "qring (iowatch_q s') v []" if "v \<in> W" "v \<noteq> w" "v \<notin> set xs" for v
    proof -
      have "insert v (set []) \<inter> insert w (insert HEAD (set xs)) = {}" using that xs(1) by auto
      from qring_INSERT_TAIL_frame[OF xs(2) this] xs(5)[OF that(1,3)] q False show ?thesis by (simp add: s')
    qed
    ultimately show ?thesis using xs s'(2,3) assms(2) by (auto simp: io_queue_def intro!: exI[of _ "xs @ [w]"])
  qed
qed

section \<open>Every operation keeps them\<close>

definition io_ok :: "ptr set \<Rightarrow> 'a ioloop_scheme \<Rightarrow> bool" where
  "io_ok W s \<longleftrightarrow> io_table W s \<and> io_queue W s"

lemma or_events_nonzero: "valid_events ev \<Longrightarrow> (p :: u32) OR ev \<noteq> 0"
  by (auto simp: valid_events_def or_eq_0_iff)

lemma keep_queue:
  assumes "io_queue W s" "iowatch_q s' = iowatch_q s" "ios s' = (ios s)(w := x)" "pevents x \<noteq> 0"
    "pevents x = events x"
  shows "io_queue W s'"
  using assms unfolding io_queue_def by (elim conjE exE) (intro conjI exI, auto)

lemma entry_is:
  assumes "io_table W s" "w \<in> W" "nat (fd (ios s w)) < unat (nwatchers s)" "watchers s ! nat (fd (ios s w)) \<noteq> NULL"
  shows "watchers s ! nat (fd (ios s w)) = w"
proof -
  note T = assms(1)[unfolded io_table_def]
  let ?v = "watchers s ! nat (fd (ios s w))"
  have "?v \<in> W" "fd (ios s ?v) = int (nat (fd (ios s w)))" using T assms(3,4) by blast+
  moreover have "0 \<le> fd (ios s w)" "inj_on (\<lambda>w. fd (ios s w)) W" using T assms(2) by blast+
  ultimately show ?thesis using assms(2) by (simp add: inj_on_def)
qed

lemma uv__io_start_ok:
  assumes "io_ok W s" "w \<in> W" "valid_events ev"
  shows "\<exists>s'. uv__io_start (\<lambda>_. True) w ev s = Some s' \<and> io_ok W s' \<and>
    ios s' = (ios s)(w := (ios s w)\<lparr>pevents := pevents (ios s w) OR ev\<rparr>)"
proof -
  have T: "io_table W s" and Q: "io_queue W s" using assms(1) by (auto simp: io_ok_def)
  note Td = T[unfolded io_table_def]
  let ?x = "(ios s w)\<lparr>pevents := pevents (ios s w) OR ev\<rparr>"
  let ?s0 = "upd_io w (\<lambda>x. x\<lparr>pevents := pevents x OR ev\<rparr>) s"
  let ?f = "fd (ios s w)"
  have p: "pevents ?x \<noteq> 0" using or_events_nonzero[OF assms(3)] by simp
  have f: "0 \<le> ?f" "?f < INT_MAX - 1" using Td assms(2) by metis+
  then have "uint (word_of_int (?f + 1) :: u32) = ?f + 1" by (subst uint_word_of_int) (simp add: INT_MAX_def)
  then have lf: "unat (word_of_int (?f + 1) :: u32) = nat ?f + 1"
    using f(1) by (simp add: unat_eq_nat_uint nat_add_distrib)
  have "io_array ?s0" using Td by simp
  moreover have "unat (word_of_int (?f + 1) :: u32) \<le> 2 ^ 31 - 2"
    unfolding lf using f by (simp add: INT_MAX_def)
  ultimately obtain ws n where r: "maybe_resize (\<lambda>_. True) (word_of_int (?f + 1)) ?s0 = Some (?s0\<lparr>watchers := ws, nwatchers := n\<rparr>)"
      "io_array (?s0\<lparr>watchers := ws, nwatchers := n\<rparr>)" "nat ?f < unat n" "unat (nwatchers s) \<le> unat n"
      "\<forall>i < unat (nwatchers s). ws ! i = watchers s ! i" "\<forall>i. unat (nwatchers s) \<le> i \<and> i < unat n \<longrightarrow> ws ! i = NULL"
    using maybe_resize_ok[of ?s0 "word_of_int (?f + 1)"] unfolding lf by auto
  let ?s1 = "?s0\<lparr>watchers := ws, nwatchers := n\<rparr>"
  have s1: "ios ?s1 = (ios s)(w := ?x)" "iowatch_q ?s1 = iowatch_q s" "nfds ?s1 = nfds s" by simp_all
  have fi: "int i = ?f \<longleftrightarrow> i = nat ?f" for i using f(1) by auto
  have in_t: "in_table w s \<longleftrightarrow> pevents (ios s w) \<noteq> 0" using Td assms(2) by blast
  have ws: "ws ! i = (if i < unat (nwatchers s) then watchers s ! i else NULL)" if "i < unat n" for i
    using r(5,6) that by simp
  show ?thesis
  proof (cases "events (ios s w) = pevents ?x")
    case True
    then have p0: "pevents (ios s w) \<noteq> 0" using Td assms(2) p by metis
    have "io_table W ?s1"
    proof (rule io_table_update[OF T assms(2) s1(1)])
      show "watchers ?s1 ! i = (if int i = fd ?x then if pevents ?x \<noteq> 0 then w else NULL
          else if i < unat (nwatchers s) then watchers s ! i else NULL)" if "i < unat (nwatchers ?s1)" for i
        using that ws p0 in_t p fi by (auto simp: in_table_def)
    qed (use r p p0 in simp_all)
    moreover have "io_queue W ?s1" using Q s1(2,1) p by (rule keep_queue) (simp add: True)
    moreover have "uv__io_start (\<lambda>_. True) w ev s = Some ?s1"
      using r(1) f True p assms(3) by (simp add: uv__io_start_def)
    ultimately show ?thesis using s1(1) by (auto simp: io_ok_def)
  next
    case False
    let ?s2 = "?s1\<lparr>iowatch_q := if QUEUE_EMPTY w (iowatch_q s) then QUEUE_INSERT_TAIL HEAD w (iowatch_q s) else iowatch_q s\<rparr>"
    let ?s3 = "if ws ! nat ?f = NULL then ?s2\<lparr>watchers := ws[nat ?f := w], nfds := nfds s + 1\<rparr> else ?s2"
    have len: "length ws = unat n + 2" using r(2,3) by (auto simp: io_array_def split: if_splits)
    have s3: "ios ?s3 = (ios s)(w := ?x)" "nwatchers ?s3 = n"
      "watchers ?s3 = (if ws ! nat ?f = NULL then ws[nat ?f := w] else ws)"
      "iowatch_q ?s3 = (if QUEUE_EMPTY w (iowatch_q s) then QUEUE_INSERT_TAIL HEAD w (iowatch_q s) else iowatch_q s)"
      "nfds ?s3 = (if ws ! nat ?f = NULL then nfds s + 1 else nfds s)" by simp_all
    have c: "(\<not> valid_events ev \<or> ?f < 0 \<or> INT_MAX \<le> ?f) = False" using f assms(3) by auto
    have e1: "(events (ios ?s1 w) = pevents (ios ?s1 w)) = False" using False by simp
    have l: "(length (watchers ?s2) \<le> nat (fd (ios ?s2 w))) = False" using len r(3) by simp
    have s2: "(if QUEUE_EMPTY w (iowatch_q ?s1) then ?s1\<lparr>iowatch_q := QUEUE_INSERT_TAIL HEAD w (iowatch_q ?s1)\<rparr> else ?s1) = ?s2"
      by simp
    have "uv__io_start (\<lambda>_. True) w ev s =
        (if watchers ?s2 ! nat (fd (ios ?s2 w)) = NULL
         then Some (?s2\<lparr>watchers := (watchers ?s2)[nat (fd (ios ?s2 w)) := w], nfds := nfds ?s2 + 1\<rparr>) else Some ?s2)"
      unfolding uv__io_start_def c if_False r(1) Option.bind.simps e1 s2 Let_def l ..
    then have "uv__io_start (\<lambda>_. True) w ev s = Some ?s3" by simp
    moreover have "io_queue W ?s3" by (rule enqueue[OF Q assms(2) s3(4,1) p])
    moreover have "io_table W ?s3"
    proof (rule io_table_update[OF T assms(2) s3(1)])
      have w0: "w \<noteq> NULL" using Td assms(2) by metis
      have null: "ws ! nat ?f = NULL \<longleftrightarrow> pevents (ios s w) = 0"
        using in_t w0 ws[OF r(3)] entry_is[OF T assms(2)] by (auto simp: in_table_def)
      show "nfds ?s3 + (if pevents (ios s w) \<noteq> 0 then 1 else 0) = nfds s + (if pevents ?x \<noteq> 0 then 1 else 0)"
        using null p by (simp add: s3)
      show "watchers ?s3 ! i = (if int i = fd ?x then if pevents ?x \<noteq> 0 then w else NULL
          else if i < unat (nwatchers s) then watchers s ! i else NULL)" if "i < unat (nwatchers ?s3)" for i
      proof (cases "i = nat ?f")
        case True
        have "watchers ?s3 ! nat ?f = w"
        proof (cases "pevents (ios s w) = 0")
          case False
          then show ?thesis using in_t null ws[OF r(3)] unfolding s3 by (simp add: in_table_def)
        qed (use null len r(3) in \<open>simp add: s3\<close>)
        then show ?thesis using True f(1) p by simp
      next
        case False
        then have "watchers ?s3 ! i = ws ! i" unfolding s3 by simp
        then show ?thesis using False fi ws[of i] that unfolding s3 by simp
      qed
      show "io_array ?s3" using len by (auto simp: io_array_def)
    qed (use r p in \<open>simp_all add: s3\<close>)
    ultimately show ?thesis using s3(1) by (auto simp: io_ok_def)
  qed
qed

lemma nfds_positive:
  assumes "io_table W s" "w \<in> W" "pevents (ios s w) \<noteq> 0"
  shows "nfds s \<noteq> 0"
proof -
  note T = assms(1)[unfolded io_table_def]
  let ?I = "{w \<in> W. pevents (ios s w) \<noteq> 0}"
  have "card ?I \<le> card W" using T by (intro card_mono) auto
  then have "card ?I < 2 ^ 32" using T by linarith
  moreover have "0 < card ?I" using T assms(2,3) by (auto simp: card_gt_0_iff)
  ultimately have "unat (of_nat (card ?I) :: u32) \<noteq> 0" by (simp add: unat_of_nat take_bit_nat_eq_self)
  moreover have "nfds s = of_nat (card ?I)" using T by blast
  ultimately show ?thesis by auto
qed

lemma uv__io_stop_ok:
  assumes "io_ok W s" "w \<in> W" "valid_events ev"
  shows "\<exists>s'. uv__io_stop w ev s = Some s' \<and> io_ok W s' \<and>
    (\<exists>e. ios s' = (ios s)(w := (ios s w)\<lparr>pevents := pevents (ios s w) AND NOT ev, events := e\<rparr>))"
proof -
  have T: "io_table W s" and Q: "io_queue W s" using assms(1) by (auto simp: io_ok_def)
  note Td = T[unfolded io_table_def]
  let ?f = "fd (ios s w)" and ?p = "pevents (ios s w) AND NOT ev"
  have f: "0 \<le> ?f" "?f < INT_MAX - 1" using Td assms(2) by metis+
  then have "uint (word_of_int ?f :: u32) = ?f" by (subst uint_word_of_int) (simp add: INT_MAX_def)
  then have "unat (word_of_int ?f :: u32) = nat ?f" by (simp only: unat_eq_nat_uint)
  then have room: "nwatchers s \<le> word_of_int ?f \<longleftrightarrow> unat (nwatchers s) \<le> nat ?f" by (simp only: word_le_nat_alt)
  have in_t: "in_table w s \<longleftrightarrow> pevents (ios s w) \<noteq> 0" using Td assms(2) by blast
  have w0: "w \<noteq> NULL" using Td assms(2) by metis
  have fi: "int i = ?f \<longleftrightarrow> i = nat ?f" for i using f(1) by auto
  show ?thesis
  proof (cases "unat (nwatchers s) \<le> nat ?f")
    case True
    then have "pevents (ios s w) = 0" using in_t by (auto simp: in_table_def)
    then have "(ios s w)\<lparr>pevents := ?p, events := events (ios s w)\<rparr> = ios s w" by (cases "ios s w") simp
    then have "ios s = (ios s)(w := (ios s w)\<lparr>pevents := ?p, events := events (ios s w)\<rparr>)" by (metis fun_upd_triv)
    moreover have "uv__io_stop w ev s = Some s" using True assms(3) f(1) room by (auto simp: uv__io_stop_def)
    ultimately show ?thesis using assms(1) by blast
  next
    case False
    let ?s1 = "upd_io w (\<lambda>x. x\<lparr>pevents := pevents x AND NOT ev\<rparr>) s"
    have len: "nat ?f < length (watchers s)" using Td False by (auto simp: io_array_def split: if_splits)
    have null: "watchers s ! nat ?f = NULL \<longleftrightarrow> pevents (ios s w) = 0"
      using in_t w0 False entry_is[OF T assms(2)] by (auto simp: in_table_def)
    show ?thesis
    proof (cases "?p = 0")
      case True
      let ?x = "(ios s w)\<lparr>pevents := 0, events := 0\<rparr>"
      let ?s = "s\<lparr>ios := (ios s)(w := ?x), iowatch_q := QUEUE_INIT w (QUEUE_REMOVE w (iowatch_q s)),
        watchers := (watchers s)[nat ?f := NULL], nfds := nfds s - (if pevents (ios s w) \<noteq> 0 then 1 else 0)\<rparr>"
      have "uv__io_stop w ev s = Some ?s"
      proof (cases "pevents (ios s w) = 0")
        case True
        then have "events (ios s w) = 0" using Td assms(2) by blast
        then have "?x = (ios s w)\<lparr>pevents := 0\<rparr>" by (cases "ios s w") simp
        moreover have "(watchers s)[nat ?f := NULL] = watchers s" using True null by (metis list_update_id)
        ultimately show ?thesis using True \<open>?p = 0\<close> assms(3) f room False null
          by (simp add: uv__io_stop_def Let_def upd_io_def)
      next
        case p: False
        then have "watchers s ! nat ?f = w" using in_t by (simp add: in_table_def)
        then show ?thesis using p \<open>?p = 0\<close> assms(3) f room False null w0 nfds_positive[OF T assms(2)]
          by (simp add: uv__io_stop_def Let_def upd_io_def)
      qed
      moreover have "io_queue W ?s" by (rule unqueue[OF Q assms(2), of _ ?x]) simp_all
      moreover have "io_table W ?s"
      proof (rule io_table_update[OF T assms(2), of _ ?x])
        show "watchers ?s ! i = (if int i = fd ?x then if pevents ?x \<noteq> 0 then w else NULL
            else if i < unat (nwatchers s) then watchers s ! i else NULL)" if "i < unat (nwatchers ?s)" for i
          using that fi len by (simp add: nth_list_update)
      qed (use Td in \<open>auto simp: io_array_def\<close>)
      ultimately show ?thesis using True by (auto simp: io_ok_def intro!: exI[of _ 0])
    next
      case p: False
      let ?x = "(ios s w)\<lparr>pevents := ?p\<rparr>"
      let ?s = "?s1\<lparr>iowatch_q := if QUEUE_EMPTY w (iowatch_q s) then QUEUE_INSERT_TAIL HEAD w (iowatch_q s) else iowatch_q s\<rparr>"
      have p0: "pevents (ios s w) \<noteq> 0" using p by auto
      have "uv__io_stop w ev s = Some ?s"
        using p assms(3) f room False by (simp add: uv__io_stop_def Let_def)
      moreover have "io_queue W ?s" by (rule enqueue[OF Q assms(2), of _ ?x]) (use p in simp_all)
      moreover have "io_table W ?s"
      proof (rule io_table_update[OF T assms(2), of _ ?x])
        show "watchers ?s ! i = (if int i = fd ?x then if pevents ?x \<noteq> 0 then w else NULL
            else if i < unat (nwatchers s) then watchers s ! i else NULL)" if "i < unat (nwatchers ?s)" for i
          using that fi p p0 in_t by (auto simp: in_table_def)
      qed (use Td p p0 False in \<open>auto simp: io_array_def\<close>)
      ultimately show ?thesis by (auto simp: io_ok_def intro!: exI[of _ "events (ios s w)"])
    qed
  qed
qed

text \<open>A kernel that keeps a set of descriptors: adding one that it has is \<open>EEXIST\<close>, and then it can
  be modified.\<close>

definition kernel_ok :: "(epoll_op \<Rightarrow> int \<Rightarrow> u32 \<Rightarrow> int) \<Rightarrow> bool" where
  "kernel_ok epoll_ctl \<longleftrightarrow> (\<forall>op f ev. epoll_ctl op f ev = 0 \<or>
     (op = UV__EPOLL_CTL_ADD \<and> epoll_ctl op f ev = EEXIST \<and> epoll_ctl UV__EPOLL_CTL_MOD f ev = 0))"

lemma tell_kernel_ok: "kernel_ok ctl \<Longrightarrow> tell_kernel ctl x = Some ()"
  by (auto simp: tell_kernel_def kernel_ok_def Let_def)

lemma table_events:
  assumes "io_table W s" "pevents (ios s w) \<noteq> 0" "nwatchers s' = nwatchers s" "watchers s' = watchers s"
    "nfds s' = nfds s" "ios s' = (ios s)(w := (ios s w)\<lparr>events := pevents (ios s w)\<rparr>)"
  shows "io_table W s'"
proof -
  have "fd (ios s' v) = fd (ios s v)" "pevents (ios s' v) = pevents (ios s v)" for v using assms(6) by auto
  then show ?thesis using assms by (simp add: io_table_def in_table_def io_array_def)
qed

lemma register_watchers_ok:
  assumes "kernel_ok ctl"
  shows "io_ok W s \<Longrightarrow> qring (iowatch_q s) HEAD xs \<Longrightarrow>
    \<exists>s'. register_watchers ctl s = Some s' \<and> io_ok W s' \<and> qring (iowatch_q s') HEAD [] \<and>
      (\<forall>w. pevents (ios s' w) = pevents (ios s w))"
proof (induction xs arbitrary: s)
  case Nil
  then have "register_watchers ctl s = Some s" using qring_empty_iff by (subst register_watchers.simps) simp
  with Nil show ?case by blast
next
  case (Cons w xs)
  have T: "io_table W s" and Q: "io_queue W s" using Cons.prems(1) by (auto simp: io_ok_def)
  note Td = T[unfolded io_table_def]
  obtain ys where "qring (iowatch_q s) HEAD ys" "set ys \<subseteq> W" "\<forall>w \<in> set ys. pevents (ios s w) \<noteq> 0"
    using Q unfolding io_queue_def by blast
  moreover from this have "ys = w # xs" using qring_unique[OF Cons.prems(2)] by blast
  ultimately have w: "w \<in> W" "pevents (ios s w) \<noteq> 0" by auto
  let ?x = "(ios s w)\<lparr>events := pevents (ios s w)\<rparr>"
  let ?s = "upd_io w (\<lambda>y. y\<lparr>events := pevents y\<rparr>)
    (s\<lparr>iowatch_q := QUEUE_INIT w (QUEUE_REMOVE w (iowatch_q s))\<rparr>)"
  have "io_queue W ?s" by (rule unqueue[OF Q w(1), of _ ?x]) simp_all
  moreover have "io_table W ?s" by (rule table_events[OF T w(2)]) simp_all
  ultimately have ok: "io_ok W ?s" by (simp add: io_ok_def)
  have d: "w \<noteq> HEAD" "w \<notin> set xs" using qring_distinct[OF Cons.prems(2)] by auto
  have "qring (QUEUE_REMOVE w (iowatch_q s)) HEAD xs" using qring_REMOVE[of _ HEAD "[]" w xs] Cons.prems(2) by simp
  then have r: "qring (iowatch_q ?s) HEAD xs" using qring_INIT_frame[of w HEAD xs] d by simp
  have "in_table w s" "0 \<le> fd (ios s w)" using Td w by blast+
  then have "nat (fd (ios s w)) < nat (uint (nwatchers s))" "0 \<le> fd (ios s w)"
    by (simp_all only: in_table_def unat_eq_nat_uint)
  then have f: "\<not> fd (ios s w) < 0" "\<not> uint (nwatchers s) \<le> fd (ios s w)" by linarith+
  have ne: "\<not> QUEUE_EMPTY HEAD (iowatch_q s)" "QUEUE_HEAD HEAD (iowatch_q s) = w"
    using qring_empty_iff[OF Cons.prems(2)] qring_head[OF Cons.prems(2)] by auto
  have "register_watchers ctl s = register_watchers ctl ?s"
    using ne f w(2) tell_kernel_ok[OF assms] by (subst register_watchers.simps) (simp add: Let_def)
  with Cons.IH[OF ok r] show ?case by auto
qed

lemma poll_begin_ok:
  assumes "kernel_ok ctl" "io_ok W s"
  shows "\<exists>s'. poll_begin ctl s = Some s' \<and> io_ok W s' \<and>
    (\<forall>w \<in> W. pevents (ios s' w) = pevents (ios s w) \<and> events (ios s' w) = pevents (ios s w))"
proof -
  have T: "io_table W s" using assms(2) by (simp add: io_ok_def)
  obtain xs where xs: "qring (iowatch_q s) HEAD xs" "set xs \<subseteq> W" "\<forall>w \<in> set xs. pevents (ios s w) \<noteq> 0"
    using assms(2) unfolding io_ok_def io_queue_def by blast
  have synced: "\<forall>w \<in> W. events (ios t w) = pevents (ios t w)" if t: "io_ok W t" "qring (iowatch_q t) HEAD []" for t :: "'a ioloop_scheme"
  proof -
    obtain ys where ys: "qring (iowatch_q t) HEAD ys" "\<forall>w \<in> W. pevents (ios t w) \<noteq> events (ios t w) \<longrightarrow> w \<in> set ys"
      using t(1) unfolding io_ok_def io_queue_def by blast
    then have "ys = []" using qring_unique[OF t(2)] by blast
    with ys(2) show ?thesis by auto
  qed
  show ?thesis
  proof (cases "nfds s = 0")
    case True
    then have "xs = []" using xs nfds_positive[OF T] by (cases xs) auto
    then show ?thesis
      using True xs(1) assms(2) synced qring_empty_iff by (intro exI[of _ s]) (auto simp: poll_begin_def)
  next
    case False
    then show ?thesis
      using register_watchers_ok[OF assms xs(1)] synced by (fastforce simp: poll_begin_def)
  qed
qed

section \<open>Properties\<close>

datatype io_op = IoStart ptr u32 | IoStop ptr u32 | IoPoll

fun run_io_op :: "(epoll_op \<Rightarrow> int \<Rightarrow> u32 \<Rightarrow> int) \<Rightarrow> io_op \<Rightarrow> 'a ioloop_scheme \<Rightarrow> 'a ioloop_scheme option" where
  "run_io_op ctl (IoStart w ev) s = uv__io_start (\<lambda>_. True) w ev s"
| "run_io_op ctl (IoStop w ev) s = uv__io_stop w ev s"
| "run_io_op ctl IoPoll s = poll_begin ctl s"

fun run_io_ops :: "(epoll_op \<Rightarrow> int \<Rightarrow> u32 \<Rightarrow> int) \<Rightarrow> io_op list \<Rightarrow> 'a ioloop_scheme \<Rightarrow> 'a ioloop_scheme option" where
  "run_io_ops ctl [] s = Some s"
| "run_io_ops ctl (op # ops) s = Option.bind (run_io_op ctl op s) (run_io_ops ctl ops)"

fun io_op_on :: "ptr set \<Rightarrow> io_op \<Rightarrow> bool" where
  "io_op_on W (IoStart w ev) \<longleftrightarrow> w \<in> W \<and> valid_events ev"
| "io_op_on W (IoStop w ev) \<longleftrightarrow> w \<in> W \<and> valid_events ev"
| "io_op_on W IoPoll \<longleftrightarrow> True"

text \<open>The events a watcher was started for and not stopped since.\<close>

fun interest :: "ptr \<Rightarrow> io_op list \<Rightarrow> u32 \<Rightarrow> u32" where
  "interest w [] p = p"
| "interest w (IoStart v ev # ops) p = interest w ops (if v = w then p OR ev else p)"
| "interest w (IoStop v ev # ops) p = interest w ops (if v = w then p AND NOT ev else p)"
| "interest w (IoPoll # ops) p = interest w ops p"

lemma run_io_ops_ok:
  assumes "kernel_ok ctl"
  shows "io_ok W s \<Longrightarrow> \<forall>op \<in> set ops. io_op_on W op \<Longrightarrow>
    \<exists>s'. run_io_ops ctl ops s = Some s' \<and> io_ok W s' \<and>
      (\<forall>w \<in> W. pevents (ios s' w) = interest w ops (pevents (ios s w)))"
proof (induction ops arbitrary: s)
  case (Cons op ops)
  have "\<exists>s1. run_io_op ctl op s = Some s1 \<and> io_ok W s1 \<and>
      (\<forall>w \<in> W. pevents (ios s1 w) = interest w [op] (pevents (ios s w)))"
  proof (cases op)
    case (IoStart w ev)
    then show ?thesis using uv__io_start_ok[OF Cons.prems(1), of w ev] Cons.prems(2) by auto
  next
    case (IoStop w ev)
    then show ?thesis using uv__io_stop_ok[OF Cons.prems(1), of w ev] Cons.prems(2) by auto
  next
    case IoPoll
    then show ?thesis using poll_begin_ok[OF assms Cons.prems(1)] by auto
  qed
  then obtain s1 where s1: "run_io_op ctl op s = Some s1" "io_ok W s1"
    "\<forall>w \<in> W. pevents (ios s1 w) = interest w [op] (pevents (ios s w))" by blast
  have i: "interest w (op # ops) p = interest w ops (interest w [op] p)" for w p by (cases op) auto
  from Cons.IH[OF s1(2)] Cons.prems(2) s1(1,3) i show ?case by auto
qed simp

text \<open>
  C4: whatever is started and stopped on the descriptors of a loop, in any order and with the
  polls in between, no assertion fails, \<open>pevents\<close> is what was started and not stopped since,
  \<open>loop->watchers\<close> has exactly the watchers with an interest, each at its descriptor, \<open>nfds\<close>
  counts them, and the next poll tells the kernel every change: then \<open>events\<close> is \<open>pevents\<close> for
  all of them.
\<close>

theorem io_watchers_consistent:
  assumes "kernel_ok ctl" "io_ok W s" "\<forall>op \<in> set ops. io_op_on W op"
  shows "\<exists>s' s''. run_io_ops ctl ops s = Some s' \<and>
    (\<forall>w \<in> W. pevents (ios s' w) = interest w ops (pevents (ios s w)) \<and>
       (in_table w s' \<longleftrightarrow> interest w ops (pevents (ios s w)) \<noteq> 0)) \<and>
    nfds s' = of_nat (card {w \<in> W. interest w ops (pevents (ios s w)) \<noteq> 0}) \<and>
    poll_begin ctl s' = Some s'' \<and> (\<forall>w \<in> W. events (ios s'' w) = pevents (ios s' w))"
proof -
  obtain s' where s': "run_io_ops ctl ops s = Some s'" "io_ok W s'"
    "\<forall>w \<in> W. pevents (ios s' w) = interest w ops (pevents (ios s w))"
    using run_io_ops_ok[OF assms] by blast
  obtain s'' where s'': "poll_begin ctl s' = Some s''" "\<forall>w \<in> W. events (ios s'' w) = pevents (ios s' w)"
    using poll_begin_ok[OF assms(1) s'(2)] by blast
  have T: "io_table W s'" using s'(2) by (simp add: io_ok_def)
  then have "\<forall>w \<in> W. in_table w s' \<longleftrightarrow> interest w ops (pevents (ios s w)) \<noteq> 0"
    using s'(3) by (auto simp: io_table_def)
  moreover have "{w \<in> W. interest w ops (pevents (ios s w)) \<noteq> 0} = {w \<in> W. pevents (ios s' w) \<noteq> 0}" using s'(3) by auto
  moreover have "nfds s' = of_nat (card {w \<in> W. pevents (ios s' w) \<noteq> 0})" using T unfolding io_table_def by blast
  ultimately show ?thesis using s' s'' by auto
qed

definition no_io_loop :: ioloop where
  "no_io_loop = uvloop.extend empty_loop
     (ioloop.fields (\<lambda>_. \<lparr>io_cb = 0, pevents = 0, events = 0, fd = -1\<rparr>)
       (QUEUE_INIT HEAD \<lparr>qnext = \<lambda>_. 0, qprev = \<lambda>_. 0\<rparr>) (QUEUE_INIT HEAD \<lparr>qnext = \<lambda>_. 0, qprev = \<lambda>_. 0\<rparr>) [] 0 0)"

text \<open>One watcher, at the address 9, of the descriptor 5.\<close>

definition one_watcher :: ioloop where
  "one_watcher = the (uv__io_init 9 100 5 no_io_loop)"

lemma one_watcher_ok: "io_ok {9} one_watcher" "ios one_watcher 9 = \<lparr>io_cb = 100, pevents = 0, events = 0, fd = 5\<rparr>"
  and one_watcher_init: "uv__io_init 9 100 5 no_io_loop = Some one_watcher"
proof -
  show i: "uv__io_init 9 100 5 no_io_loop = Some one_watcher"
    by (simp add: one_watcher_def uv__io_init_def Let_def)
  show w: "ios one_watcher 9 = \<lparr>io_cb = 100, pevents = 0, events = 0, fd = 5\<rparr>"
    by (simp add: one_watcher_def uv__io_init_def Let_def)
  have e: "watchers one_watcher = []" "nwatchers one_watcher = 0" "nfds one_watcher = 0"
    "iowatch_q one_watcher = QUEUE_INIT 9 (QUEUE_INIT HEAD \<lparr>qnext = \<lambda>_. 0, qprev = \<lambda>_. 0\<rparr>)"
    by (simp_all add: one_watcher_def uv__io_init_def Let_def no_io_loop_def uvloop.defs ioloop.defs upd_io_def)
  have none: "pevents (ios one_watcher v) = 0" for v
    by (simp add: one_watcher_def uv__io_init_def Let_def no_io_loop_def uvloop.defs ioloop.defs upd_io_def)
  have "io_table {9} one_watcher"
    using e w none by (simp add: io_table_def in_table_def io_array_def INT_MAX_def)
  moreover have "qring (iowatch_q one_watcher) HEAD []" "qring (iowatch_q one_watcher) 9 []"
    using qring_INIT_frame[of 9 HEAD "[]"] by (simp_all add: e qring_INIT HEAD_def)
  then have "io_queue {9} one_watcher"
    using w by (auto simp: io_queue_def HEAD_def intro!: exI[of _ "[]"])
  ultimately show "io_ok {9} one_watcher" by (simp add: io_ok_def)
qed

theorem io_watchers_consistent_witness:
  "\<exists>s'. run_io_ops (\<lambda>_ _ _. 0) [IoStart 9 POLLIN, IoPoll, IoStart 9 POLLOUT, IoStop 9 POLLIN] one_watcher = Some s' \<and>
    pevents (ios s' 9) = POLLOUT \<and> in_table 9 s' \<and> nfds s' = 1"
proof -
  have v: "valid_events POLLIN" "valid_events POLLOUT"
    by (simp_all add: valid_events_def all_events_def POLLIN_def POLLOUT_def UV__POLLRDHUP_def)
  let ?ops = "[IoStart 9 POLLIN, IoPoll, IoStart 9 POLLOUT, IoStop 9 POLLIN]"
  have i: "interest 9 ?ops 0 = POLLOUT" by (simp add: POLLIN_def POLLOUT_def)
  have "kernel_ok (\<lambda>_ _ _. 0)" by (simp add: kernel_ok_def)
  moreover have "\<forall>op \<in> set ?ops. io_op_on {9} op" using v by simp
  moreover have "{w \<in> {9 :: ptr}. interest w ?ops (pevents (ios one_watcher w)) \<noteq> 0} = {9}"
    using i one_watcher_ok(2) by (auto simp: POLLOUT_def)
  ultimately show ?thesis
    using io_watchers_consistent[of "\<lambda>_ _ _. 0" "{9}" one_watcher ?ops] one_watcher_ok i
    by (auto simp: POLLOUT_def simp del: interest.simps)
qed

end
