(* ===== verification/Uv_Loop.thy ===== *)
theory Uv_Loop
  imports Uv_Io
begin

text \<open>
  The loop of Unix: \<open>uv_close\<close> and the list of closing handles, \<open>uv_backend_timeout\<close> and \<open>uv_run\<close> of
  \<open>src/unix/core.c\<close>, and \<open>uv_loop_init\<close> and \<open>uv__loop_configure\<close> of \<open>src/unix/loop.c\<close>.

  What the loop calls and this development does not model is gathered in a record: the program's
  callbacks, the clock, the part of \<open>uv__io_poll\<close> that waits, and the close functions of the types of
  handle that are not modelled (streams, UDP, processes, ...).
\<close>

unbundle bit_operations_syntax

record 's world =
  call_cb :: "ptr \<Rightarrow> ptr \<Rightarrow> 's \<Rightarrow> 's option"
  call_io :: "ptr \<Rightarrow> ptr \<Rightarrow> u32 \<Rightarrow> 's \<Rightarrow> 's option"
  hrtime :: "'s \<Rightarrow> u64"
  io_poll :: "int \<Rightarrow> 's \<Rightarrow> 's option"
  close_type :: "handle_type \<Rightarrow> ptr \<Rightarrow> 's \<Rightarrow> 's option"
  destroy_type :: "handle_type \<Rightarrow> ptr \<Rightarrow> 's \<Rightarrow> 's option"

type_synonym 'a loop_world = "'a ioloop_scheme world"

section \<open>Closing\<close>

definition uv__make_close_pending :: "ptr \<Rightarrow> 'a ioloop_scheme \<Rightarrow> 'a ioloop_scheme option" where
  "uv__make_close_pending h s =
     (if \<not> has_flag (hflags s h) UV_CLOSING then None
      else if has_flag (hflags s h) UV_CLOSED then None
      else
        (let s1 = upd_handle h (\<lambda>x. x\<lparr>next_closing := closing_handles s\<rparr>) s
         in Some (s1\<lparr>closing_handles := h\<rparr>)))"

definition close_handle :: "'a loop_world \<Rightarrow> ptr \<Rightarrow> 'a ioloop_scheme \<Rightarrow> 'a ioloop_scheme option" where
  "close_handle W h s =
     (case htype (handles s h) of
        UV_PREPARE \<Rightarrow> uv__watcher_close Prepare h s
      | UV_CHECK \<Rightarrow> uv__watcher_close Check h s
      | UV_IDLE \<Rightarrow> uv__watcher_close Idle h s
      | UV_TIMER \<Rightarrow> uv__timer_close h s
      | t \<Rightarrow> if t \<in> {UV_NAMED_PIPE, UV_TTY, UV_TCP, UV_UDP, UV_ASYNC, UV_PROCESS, UV_FS_EVENT, UV_POLL,
                   UV_FS_POLL, UV_SIGNAL} then close_type W t h s else None)"

definition uv_close :: "'a loop_world \<Rightarrow> ptr \<Rightarrow> ptr \<Rightarrow> 'a ioloop_scheme \<Rightarrow> 'a ioloop_scheme option" where
  "uv_close W h cb s =
     (if has_flag (hflags s h) (UV_CLOSING OR UV_CLOSED) then None
      else
        (let s1 = set_flags h (hflags s h OR UV_CLOSING) s;
             s2 = upd_handle h (\<lambda>x. x\<lparr>close_cb := cb\<rparr>) s1
         in Option.bind (close_handle W h s2) (\<lambda>s3.
            if htype (handles s2 h) = UV_SIGNAL then Some s3 else uv__make_close_pending h s3)))"

definition finish_type :: "'a loop_world \<Rightarrow> ptr \<Rightarrow> 'a ioloop_scheme \<Rightarrow> 'a ioloop_scheme option" where
  "finish_type W h s =
     (let t = htype (handles s h)
      in if t \<in> {UV_PREPARE, UV_CHECK, UV_IDLE, UV_ASYNC, UV_TIMER, UV_PROCESS, UV_FS_EVENT, UV_FS_POLL,
                UV_POLL, UV_SIGNAL} then Some s
         else if t \<in> {UV_NAMED_PIPE, UV_TCP, UV_TTY, UV_UDP} then destroy_type W t h s
         else None)"

definition uv__finish_close :: "'a loop_world \<Rightarrow> ptr \<Rightarrow> 'a ioloop_scheme \<Rightarrow> 'a ioloop_scheme option" where
  "uv__finish_close W h s =
     (if \<not> has_flag (hflags s h) UV_CLOSING then None
      else if has_flag (hflags s h) UV_CLOSED then None
      else
        Option.bind (finish_type W h (set_flags h (hflags s h OR UV_CLOSED) s)) (\<lambda>s1.
        let s2 = uv__handle_unref Unix h s1;
            s3 = s2\<lparr>handle_q := QUEUE_REMOVE h (handle_q s2)\<rparr>
        in if close_cb (handles s3 h) \<noteq> NULL then call_cb W (close_cb (handles s3 h)) h s3 else Some s3))"

partial_function (option) close_from :: "'a loop_world \<Rightarrow> ptr \<Rightarrow> 'a ioloop_scheme \<Rightarrow> 'a ioloop_scheme option" where
  "close_from W p s =
     (if p = NULL then Some s
      else
        (let q = next_closing (handles s p)
         in Option.bind (uv__finish_close W p s) (close_from W q)))"

definition uv__run_closing_handles :: "'a loop_world \<Rightarrow> 'a ioloop_scheme \<Rightarrow> 'a ioloop_scheme option" where
  "uv__run_closing_handles W s = close_from W (closing_handles s) (s\<lparr>closing_handles := NULL\<rparr>)"

section \<open>The loop\<close>

definition uv_backend_timeout :: "'a ioloop_scheme \<Rightarrow> int" where
  "uv_backend_timeout s =
     (if stop_flag s \<noteq> 0 then 0
      else if \<not> uv__has_active_handles s \<and> \<not> uv__has_active_reqs s then 0
      else if \<not> QUEUE_EMPTY (handles_of Idle) (watcher_q s) then 0
      else if \<not> QUEUE_EMPTY HEAD (pending_q s) then 0
      else if closing_handles s \<noteq> NULL then 0
      else uv__next_timeout s)"

definition uv__loop_alive :: "'a uvloop_scheme \<Rightarrow> bool" where
  "uv__loop_alive s \<longleftrightarrow> uv__has_active_handles s \<or> uv__has_active_reqs s \<or> closing_handles s \<noteq> NULL"

definition uv_loop_alive :: "'a uvloop_scheme \<Rightarrow> bool" where
  "uv_loop_alive s = uv__loop_alive s"

text \<open>\<open>uv__update_time\<close> of \<open>src/unix/internal.h\<close>: the clock in milliseconds.\<close>

definition uv__update_time :: "'a loop_world \<Rightarrow> 'a ioloop_scheme \<Rightarrow> 'a ioloop_scheme" where
  "uv__update_time W s = s\<lparr>time := hrtime W s div 1000000\<rparr>"

definition uv_update_time :: "'a loop_world \<Rightarrow> 'a ioloop_scheme \<Rightarrow> 'a ioloop_scheme" where
  "uv_update_time W s = uv__update_time W s"

datatype run_mode = UV_RUN_DEFAULT | UV_RUN_ONCE | UV_RUN_NOWAIT

text \<open>One turn of the loop of \<open>uv_run\<close>.\<close>

definition run_turn :: "'a loop_world \<Rightarrow> run_mode \<Rightarrow> 'a ioloop_scheme \<Rightarrow> 'a ioloop_scheme option" where
  "run_turn W mode s = do {
     let s1 = uv__update_time W s;
     s2 \<leftarrow> uv__run_timers (call_cb W) s1;
     (ran_pending, s3) \<leftarrow> uv__run_pending (call_io W) s2;
     s4 \<leftarrow> uv__run_watcher Idle (call_cb W) s3;
     s5 \<leftarrow> uv__run_watcher Prepare (call_cb W) s4;
     let t = (if (mode = UV_RUN_ONCE \<and> \<not> ran_pending) \<or> mode = UV_RUN_DEFAULT
              then uv_backend_timeout s5 else 0);
     s6 \<leftarrow> io_poll W t s5;
     s7 \<leftarrow> uv__run_watcher Check (call_cb W) s6;
     s8 \<leftarrow> uv__run_closing_handles W s7;
     (if mode = UV_RUN_ONCE then uv__run_timers (call_cb W) (uv__update_time W s8) else Some s8)
   }"

partial_function (option) run_loop ::
    "'a loop_world \<Rightarrow> run_mode \<Rightarrow> bool \<Rightarrow> 'a ioloop_scheme \<Rightarrow> (bool \<times> 'a ioloop_scheme) option" where
  "run_loop W mode r s =
     (if \<not> r \<or> stop_flag s \<noteq> 0 then Some (r, s)
      else
        Option.bind (run_turn W mode s) (\<lambda>s1.
        let r1 = uv__loop_alive s1
        in if mode = UV_RUN_ONCE \<or> mode = UV_RUN_NOWAIT then Some (r1, s1) else run_loop W mode r1 s1))"

definition uv_run :: "'a loop_world \<Rightarrow> run_mode \<Rightarrow> 'a ioloop_scheme \<Rightarrow> (bool \<times> 'a ioloop_scheme) option" where
  "uv_run W mode s =
     (let r = uv__loop_alive s;
          s1 = (if \<not> r then uv__update_time W s else s)
      in Option.bind (run_loop W mode r s1) (\<lambda>(r, s2).
         Some (r, if stop_flag s2 \<noteq> 0 then s2\<lparr>stop_flag := 0\<rparr> else s2)))"

definition uv_is_closing :: "ptr \<Rightarrow> 'a core_scheme \<Rightarrow> bool" where
  "uv_is_closing h s = uv__is_closing h s"

definition uv_is_active :: "ptr \<Rightarrow> 'a core_scheme \<Rightarrow> bool" where
  "uv_is_active h s = uv__is_active Unix h s"

section \<open>Making a loop\<close>

text \<open>What \<open>uv_loop_init\<close> acquires; \<open>acquire r\<close> is the result of acquiring \<open>r\<close>, and what is held is
  returned with the code. The labels of the code are functions of what is held.\<close>

datatype resource = PlatformLoop | ChildWatcher | CloexecLock | WqMutex | WqAsync

definition fail_signal_init :: "resource list \<Rightarrow> resource list" where
  "fail_signal_init held = removeAll PlatformLoop held"

definition fail_rwlock_init :: "resource list \<Rightarrow> resource list" where
  "fail_rwlock_init held = fail_signal_init (removeAll ChildWatcher held)"

definition fail_mutex_init :: "resource list \<Rightarrow> resource list" where
  "fail_mutex_init held = fail_rwlock_init (removeAll CloexecLock held)"

definition fail_async_init :: "resource list \<Rightarrow> resource list" where
  "fail_async_init held = fail_mutex_init (removeAll WqMutex held)"

text \<open>The loop after the fields are set; \<open>uv_signal_init\<close> and \<open>uv_async_init\<close> initialise their
  handle, and the second starts it.\<close>

definition fresh_loop :: "'a loop_world \<Rightarrow> 'a ioloop_scheme \<Rightarrow> 'a ioloop_scheme" where
  "fresh_loop W s =
     (let s1 = s\<lparr>timer_heap := heap_init (timer_heap s), active_reqs := QUEUE_INIT HEAD (active_reqs s),
            active_handles := 0,
            watcher_q := QUEUE_INIT (handles_of Prepare) (QUEUE_INIT (handles_of Check)
              (QUEUE_INIT (handles_of Idle) (watcher_q s))),
            handle_q := QUEUE_INIT HEAD (handle_q s), nfds := 0, watchers := [], nwatchers := 0,
            pending_q := QUEUE_INIT HEAD (pending_q s), iowatch_q := QUEUE_INIT HEAD (iowatch_q s),
            closing_handles := NULL\<rparr>
      in (uv__update_time W s1)\<lparr>timer_counter := 0, stop_flag := 0\<rparr>)"

definition make_internal :: "ptr \<Rightarrow> 'a core_scheme \<Rightarrow> 'a core_scheme" where
  "make_internal h s =
     (let s1 = uv__handle_unref Unix h s in set_flags h (hflags s1 h OR UV__HANDLE_INTERNAL Unix) s1)"

definition uv_loop_init ::
    "'a loop_world \<Rightarrow> (resource \<Rightarrow> int) \<Rightarrow> ptr \<Rightarrow> ptr \<Rightarrow> 'a ioloop_scheme \<Rightarrow> (int \<times> resource list \<times> 'a ioloop_scheme) option" where
  "uv_loop_init W acquire child_watcher wq_async s =
     (let s1 = fresh_loop W s
      in if acquire PlatformLoop \<noteq> 0 then Some (acquire PlatformLoop, [], s1)
         else if acquire ChildWatcher \<noteq> 0 then Some (acquire ChildWatcher, fail_signal_init [PlatformLoop], s1)
         else
           (let s2 = make_internal child_watcher (uv__handle_init Unix child_watcher UV_SIGNAL s1);
                held = [ChildWatcher, PlatformLoop]
            in if acquire CloexecLock \<noteq> 0 then Some (acquire CloexecLock, fail_rwlock_init held, s2)
               else if acquire WqMutex \<noteq> 0 then Some (acquire WqMutex, fail_mutex_init (CloexecLock # held), s2)
               else if acquire WqAsync \<noteq> 0
               then Some (acquire WqAsync, fail_async_init (WqMutex # CloexecLock # held), s2)
               else
                 Option.bind (uv__handle_start Unix wq_async (uv__handle_init Unix wq_async UV_ASYNC s2)) (\<lambda>s3.
                 Some (0, WqAsync # WqMutex # CloexecLock # held, make_internal wq_async s3))))"

datatype loop_option = UV_LOOP_BLOCK_SIGNAL | Other_option

definition uv__loop_configure :: "loop_option \<Rightarrow> int \<Rightarrow> int \<Rightarrow> rc \<times> bool" where
  "uv__loop_configure opt arg SIGPROF =
     (if opt \<noteq> UV_LOOP_BLOCK_SIGNAL then (Fail ENOSYS, False)
      else if arg \<noteq> SIGPROF then (Fail EINVAL, False)
      else (OK, True))"

section \<open>Closing handles\<close>

text \<open>The list \<open>loop->closing_handles\<close>.\<close>

fun closing_list :: "(ptr \<Rightarrow> handle) \<Rightarrow> ptr list \<Rightarrow> ptr \<Rightarrow> bool" where
  "closing_list hs [] p \<longleftrightarrow> p = NULL"
| "closing_list hs (c # cs) p \<longleftrightarrow> p = c \<and> c \<noteq> NULL \<and> closing_list hs cs (next_closing (hs c))"

lemma closing_list_cong:
  "(\<And>c. c \<in> set cs \<Longrightarrow> hs' c = hs c) \<Longrightarrow> closing_list hs' cs p = closing_list hs cs p"
  by (induction cs arbitrary: p) auto

text \<open>A program that leaves closing handles alone: it may use the other handles of the loop, close
  them and initialise new ones.\<close>

record closing_loop = ioloop +
  closed :: "ptr list"

definition leaves_closing :: "'a closing_loop_scheme \<Rightarrow> 'a closing_loop_scheme \<Rightarrow> bool" where
  "leaves_closing s s' \<longleftrightarrow> (\<forall>h. has_flag (hflags s h) UV_CLOSING \<longrightarrow> handles s' h = handles s h) \<and> closed s' = closed s \<and>
     (\<forall>hs. qring (handle_q s) HEAD hs \<longrightarrow> (\<exists>new. qring (handle_q s') HEAD (hs @ new)))"

definition closing_world :: "('a closing_loop_scheme) world \<Rightarrow> bool" where
  "closing_world W \<longleftrightarrow>
     (\<forall>cb h s. \<exists>s'. call_cb W cb h s = Some (s'\<lparr>closed := closed s' @ [h]\<rparr>) \<and> leaves_closing s s') \<and>
     (\<forall>t h s. \<exists>s'. destroy_type W t h s = Some s' \<and> leaves_closing s s')"

definition closable :: "'a core_scheme \<Rightarrow> ptr \<Rightarrow> bool" where
  "closable s h \<longleftrightarrow> has_flag (hflags s h) UV_CLOSING \<and> \<not> has_flag (hflags s h) UV_CLOSED \<and>
     htype (handles s h) \<notin> {UV_UNKNOWN_HANDLE, UV_HANDLE, UV_STREAM, UV_FILE}"

lemma leaves_closing_refl: "leaves_closing s s"
  by (auto simp: leaves_closing_def intro: exI[of _ "[]"])

lemma finish_type_ok:
  assumes "closing_world W" "closable s h"
  shows "\<exists>s'. finish_type W h (set_flags h f s) = Some s' \<and> leaves_closing (set_flags h f s) s'"
proof (cases "htype (handles s h) \<in> {UV_NAMED_PIPE, UV_TCP, UV_TTY, UV_UDP}")
  case True
  then show ?thesis using assms(1) by (auto simp: finish_type_def Let_def closing_world_def)
next
  case False
  then have "finish_type W h (set_flags h f s) = Some (set_flags h f s)"
    using assms(2) by (cases "htype (handles s h)") (auto simp: finish_type_def Let_def closable_def)
  then show ?thesis using leaves_closing_refl by blast
qed

lemma unref_frame:
  "handle_q (uv__handle_unref pf h s) = handle_q s" "core.more (uv__handle_unref pf h s) = core.more s"
  "x \<noteq> h \<Longrightarrow> handles (uv__handle_unref pf h s) x = handles s x"
  "close_cb (handles (uv__handle_unref pf h s) h) = close_cb (handles s h)"
  "has_flag (hflags (uv__handle_unref pf h s) h) UV_CLOSING = has_flag (hflags s h) UV_CLOSING"
  "has_flag (hflags (uv__handle_unref pf h s) h) UV_CLOSED = has_flag (hflags s h) UV_CLOSED"
  by (simp_all add: uv__handle_unref_def Let_def uv__active_handle_rm_def flag_simps)

lemma closing_loop_more: "core.more s = core.more t \<Longrightarrow> closed s = closed t"
  by (cases s; cases t; simp)

lemma uv__finish_close_ok:
  assumes W: "closing_world W" and c: "closable s h" and r: "qring (handle_q s) HEAD (ys @ h # zs)"
  shows "\<exists>s' new. uv__finish_close W h s = Some s' \<and>
    closed s' = closed s @ (if close_cb (handles s h) = NULL then [] else [h]) \<and>
    qring (handle_q s') HEAD ((ys @ zs) @ new) \<and>
    (\<forall>x. x \<noteq> h \<longrightarrow> has_flag (hflags s x) UV_CLOSING \<longrightarrow> handles s' x = handles s x) \<and>
    has_flag (hflags s' h) UV_CLOSED \<and> has_flag (hflags s' h) UV_CLOSING"
proof -
  let ?s0 = "set_flags h (hflags s h OR UV_CLOSED) s"
  have f0: "has_flag (hflags ?s0 h) UV_CLOSING" "has_flag (hflags ?s0 h) UV_CLOSED"
    using c by (simp_all add: closable_def flag_simps)
  obtain s1 where s1: "finish_type W h ?s0 = Some s1" "leaves_closing ?s0 s1"
    using finish_type_ok[OF W c] by blast
  have h1: "handles s1 x = handles ?s0 x" if "has_flag (hflags ?s0 x) UV_CLOSING" for x
    using s1(2) that by (simp add: leaves_closing_def)
  have "qring (handle_q ?s0) HEAD (ys @ h # zs)" using r by simp
  then obtain n1 where n1: "qring (handle_q s1) HEAD ((ys @ h # zs) @ n1)"
    using s1(2) unfolding leaves_closing_def by blast
  let ?s2 = "uv__handle_unref Unix h s1"
  let ?s3 = "?s2\<lparr>handle_q := QUEUE_REMOVE h (handle_q ?s2)\<rparr>"
  have q3: "qring (handle_q ?s3) HEAD ((ys @ zs) @ n1)"
    using qring_REMOVE[of "handle_q s1" HEAD ys h "zs @ n1"] n1 by (simp add: unref_frame)
  have h3: "handles ?s3 x = handles s x" if "x \<noteq> h" "has_flag (hflags s x) UV_CLOSING" for x
    using h1[of x] that by (simp add: unref_frame)
  have fh: "has_flag (hflags ?s3 h) UV_CLOSED" "has_flag (hflags ?s3 h) UV_CLOSING"
    "close_cb (handles ?s3 h) = close_cb (handles s h)"
    using h1[of h] f0 by (simp_all add: unref_frame)
  have "closed s1 = closed ?s0" using s1(2) by (simp add: leaves_closing_def)
  also have "closed ?s0 = closed s" by (simp add: set_flags_def upd_handle_def)
  finally have l3: "closed ?s3 = closed s" using closing_loop_more[OF unref_frame(2), of Unix h s1] by simp
  have run: "uv__finish_close W h s =
      (if close_cb (handles ?s3 h) \<noteq> NULL then call_cb W (close_cb (handles ?s3 h)) h ?s3 else Some ?s3)"
    using c s1(1) by (simp add: uv__finish_close_def Let_def closable_def)
  show ?thesis
  proof (cases "close_cb (handles s h) = NULL")
    case True
    then show ?thesis using run fh q3 h3 l3 by (intro exI[of _ ?s3] exI[of _ n1]) auto
  next
    case False
    obtain s4 where s4: "call_cb W (close_cb (handles s h)) h ?s3 = Some (s4\<lparr>closed := closed s4 @ [h]\<rparr>)"
        "leaves_closing ?s3 s4" using W unfolding closing_world_def by blast
    then obtain n2 where n2: "qring (handle_q s4) HEAD (((ys @ zs) @ n1) @ n2)"
      using q3 unfolding leaves_closing_def by blast
    have h4: "handles s4 x = handles ?s3 x" if "has_flag (hflags ?s3 x) UV_CLOSING" for x
      using s4(2) that unfolding leaves_closing_def by blast
    have "closed s4 = closed s" using s4(2) l3 unfolding leaves_closing_def by simp
    moreover have "handles s4 x = handles s x" if "x \<noteq> h" "has_flag (hflags s x) UV_CLOSING" for x
      using h4[of x] h3[OF that] that(2) by simp
    ultimately show ?thesis
      using run s4(1) False fh n2 h4[of h]
      by (intro exI[of _ "s4\<lparr>closed := closed s4 @ [h]\<rparr>"] exI[of _ "n1 @ n2"]) auto
  qed
qed

lemma close_from_ok:
  assumes W: "closing_world W"
  shows "closing_list (handles s) cs p \<Longrightarrow> distinct cs \<Longrightarrow> \<forall>c \<in> set cs. closable s c \<Longrightarrow>
    qring (handle_q s) HEAD hs \<Longrightarrow> set cs \<subseteq> set hs \<Longrightarrow>
    \<exists>s' new. close_from W p s = Some s' \<and>
      closed s' = closed s @ filter (\<lambda>c. close_cb (handles s c) \<noteq> NULL) cs \<and>
      qring (handle_q s') HEAD (filter (\<lambda>h. h \<notin> set cs) hs @ new) \<and>
      (\<forall>x. x \<notin> set cs \<longrightarrow> has_flag (hflags s x) UV_CLOSING \<longrightarrow> handles s' x = handles s x) \<and>
      (\<forall>c \<in> set cs. has_flag (hflags s' c) UV_CLOSED)"
proof (induction cs arbitrary: s p hs)
  case Nil
  then show ?case by (intro exI[of _ s] exI[of _ "[]"]) (simp add: close_from.simps)
next
  case (Cons c cs)
  from in_set_split[of c hs] Cons.prems(5) obtain ys zs where hs: "hs = ys @ c # zs" by auto
  have c: "closable s c" "p = c" "c \<noteq> NULL" using Cons.prems(1,3) by auto
  obtain s1 n1 where s1: "uv__finish_close W c s = Some s1"
      "closed s1 = closed s @ (if close_cb (handles s c) = NULL then [] else [c])"
      "qring (handle_q s1) HEAD ((ys @ zs) @ n1)"
      "\<forall>x. x \<noteq> c \<longrightarrow> has_flag (hflags s x) UV_CLOSING \<longrightarrow> handles s1 x = handles s x"
      "has_flag (hflags s1 c) UV_CLOSED" "has_flag (hflags s1 c) UV_CLOSING"
    using uv__finish_close_ok[OF W c(1), of ys zs] Cons.prems(4) unfolding hs by blast
  have same: "handles s1 x = handles s x" if "x \<in> set cs" for x
    using s1(4) that Cons.prems(2,3) by (auto simp: closable_def)
  have prems: "closing_list (handles s1) cs (next_closing (handles s c))" "distinct cs"
    "\<forall>x \<in> set cs. closable s1 x" "set cs \<subseteq> set ((ys @ zs) @ n1)"
    using Cons.prems same closing_list_cong[of cs "handles s1" "handles s"] by (auto simp: closable_def hs)
  obtain s' n2 where s': "close_from W (next_closing (handles s c)) s1 = Some s'"
      "closed s' = closed s1 @ filter (\<lambda>c. close_cb (handles s1 c) \<noteq> NULL) cs"
      "qring (handle_q s') HEAD (filter (\<lambda>h. h \<notin> set cs) ((ys @ zs) @ n1) @ n2)"
      "\<forall>x. x \<notin> set cs \<longrightarrow> has_flag (hflags s1 x) UV_CLOSING \<longrightarrow> handles s' x = handles s1 x"
      "\<forall>c \<in> set cs. has_flag (hflags s' c) UV_CLOSED"
    using Cons.IH[OF prems(1-3) s1(3) prems(4)] by blast
  have d: "distinct hs" using qring_distinct[OF Cons.prems(4)] by simp
  have "filter (\<lambda>h. h \<notin> set cs) ys = filter (\<lambda>h. h \<notin> set (c # cs)) ys"
    "filter (\<lambda>h. h \<notin> set cs) zs = filter (\<lambda>h. h \<notin> set (c # cs)) zs"
    using d by (auto simp: hs intro!: filter_cong)
  then have e: "filter (\<lambda>h. h \<notin> set cs) (ys @ zs) = filter (\<lambda>h. h \<notin> set (c # cs)) hs" by (simp add: hs)
  have "qring (handle_q s') HEAD (filter (\<lambda>h. h \<notin> set (c # cs)) hs @ filter (\<lambda>h. h \<notin> set cs) n1 @ n2)"
    using s'(3)[unfolded filter_append[of _ "ys @ zs" n1] e] by (simp only: append_assoc)
  moreover have "filter (\<lambda>c. close_cb (handles s1 c) \<noteq> NULL) cs = filter (\<lambda>c. close_cb (handles s c) \<noteq> NULL) cs"
    using same by (intro filter_cong) auto
  moreover have "close_from W p s = Some s'" using c s1(1) s'(1) by (subst close_from.simps) (simp add: Let_def)
  ultimately show ?case
    using s'(2,4,5) s1(2,4-6) Cons.prems(2)
    by (intro exI[of _ s'] exI[of _ "filter (\<lambda>h. h \<notin> set cs) n1 @ n2"]) auto
qed

text \<open>
  C5: a turn of the loop finishes the handles that were closed before it, each once and the last
  closed first, with one call of its close callback if it has one: afterwards they are \<open>UV_CLOSED\<close>
  and out of the queue of handles, whatever other handles the callbacks use, close or initialise.
\<close>

theorem closing_handles_called_once:
  assumes "closing_world W" "closing_list (handles s) cs (closing_handles s)" "distinct cs"
    and "\<forall>c \<in> set cs. closable s c" "qring (handle_q s) HEAD hs" "set cs \<subseteq> set hs"
  shows "\<exists>s' new. uv__run_closing_handles W s = Some s' \<and>
    closed s' = closed s @ filter (\<lambda>c. close_cb (handles s c) \<noteq> NULL) cs \<and>
    qring (handle_q s') HEAD (filter (\<lambda>h. h \<notin> set cs) hs @ new) \<and>
    (\<forall>c \<in> set cs. has_flag (hflags s' c) UV_CLOSED)"
proof -
  let ?s = "s\<lparr>closing_handles := NULL\<rparr>"
  have "closing_list (handles ?s) cs (closing_handles s)" "\<forall>c \<in> set cs. closable ?s c" "qring (handle_q ?s) HEAD hs"
    using assms by (auto simp: closable_def)
  from close_from_ok[OF assms(1) this(1) assms(3) this(2,3) assms(6)] show ?thesis
    by (auto simp: uv__run_closing_handles_def)
qed

definition logging_world :: "closing_loop world" where
  "logging_world = \<lparr>call_cb = \<lambda>cb h s. Some (s\<lparr>closed := closed s @ [h]\<rparr>), call_io = \<lambda>cb w ev s. Some s,
     hrtime = \<lambda>s. 0, io_poll = \<lambda>t s. Some s, close_type = \<lambda>t h s. Some s, destroy_type = \<lambda>t h s. Some s\<rparr>"

text \<open>An idle handle and a TCP handle, both closed.\<close>

definition two_closing :: "closing_loop option" where
  "two_closing = do {
     let s0 = ioloop.extend no_io_loop (closing_loop.fields []);
     let s1 = snd (uv_watcher_init Idle 9 s0);
     let s2 = uv__handle_init Unix 10 UV_TCP s1;
     s3 \<leftarrow> uv_close logging_world 9 77 s2;
     uv_close logging_world 10 NULL s3
   }"

theorem closing_handles_called_once_witness:
  "\<exists>s s'. two_closing = Some s \<and> uv__run_closing_handles logging_world s = Some s' \<and> closed s' = [9] \<and>
    has_flag (hflags s' 9) UV_CLOSED \<and> has_flag (hflags s' 10) UV_CLOSED"
proof -
  have W: "closing_world logging_world"
    unfolding closing_world_def logging_world_def using leaves_closing_refl by auto
  have v: "map_option (\<lambda>s. (closing_handles s, next_closing (handles s 10), next_closing (handles s 9),
      (flags (handles s 9), flags (handles s 10)), (htype (handles s 9), htype (handles s 10)),
      (close_cb (handles s 9), close_cb (handles s 10)), closed s,
      (map (qnext (handle_q s)) [1, 9, 10], map (qprev (handle_q s)) [1, 9, 10]))) two_closing =
    Some (10, 9, 0, (0x2001, 0x2001), (UV_IDLE, UV_TCP), (77, 0), [], ([9, 10, 1], [10, 1, 9]))"
    by code_simp
  then obtain s where s: "two_closing = Some s" by (cases two_closing) auto
  have f: "closing_handles s = 10" "next_closing (handles s 10) = 9" "next_closing (handles s 9) = 0"
    "hflags s 9 = 0x2001" "hflags s 10 = 0x2001" "htype (handles s 9) = UV_IDLE" "htype (handles s 10) = UV_TCP"
    "close_cb (handles s 9) = 77" "close_cb (handles s 10) = 0" "closed s = []"
    "qnext (handle_q s) 1 = 9" "qnext (handle_q s) 9 = 10" "qnext (handle_q s) 10 = 1"
    "qprev (handle_q s) 1 = 10" "qprev (handle_q s) 9 = 1" "qprev (handle_q s) 10 = 9"
    using v unfolding s by simp_all
  have "closing_list (handles s) [10, 9] (closing_handles s)" by (simp add: f)
  moreover have "\<forall>c \<in> set [10, 9]. closable s c"
    by (simp add: closable_def f has_flag_def UV_CLOSING_def UV_CLOSED_def)
  moreover have "qring (handle_q s) HEAD [9, 10]" by (simp add: qring_def HEAD_def f del: One_nat_def)
  ultimately show ?thesis
    using closing_handles_called_once[OF W, of s "[10, 9]" "[9, 10]"] s f by auto
qed

end
