(* ===== verification/Uv_Run.thy ===== *)
theory Uv_Run
  imports Uv_Loop
begin

text \<open>
  What \<open>uv_run\<close> achieves: a loop with nothing but timers that do not repeat runs until every one of
  them has been called, in the order of their due times, and returns; and what \<open>uv_loop_init\<close> leaves.
\<close>

section \<open>One run of the timers\<close>

record timed_loop = ioloop +
  clock :: u64
  fired :: "ptr list"










section \<open>The whole loop\<close>


text \<open>The active handles of the loop are timers that do not repeat, keep the loop alive and are due
  before the clock overflows; there is nothing else for the loop to do.\<close>

definition one_shots :: "ptr list \<Rightarrow> 'a timed_loop_scheme \<Rightarrow> bool" where
  "one_shots hs s \<longleftrightarrow> timers_ok hs s \<and>
     (\<forall>h \<in> set hs. uv__is_active Unix h s \<longrightarrow> is_timer s h \<and> has_flag (hflags s h) (UV__HANDLE_REF Unix) \<and>
        repeat (handles s h) = 0 \<and> unat (timer_timeout s h) < 18446744073708) \<and>
     \<not> uv__has_active_reqs s \<and> closing_handles s = NULL \<and> stop_flag s = 0 \<and>
     (\<forall>w. qring (watcher_q s) (handles_of w) []) \<and> QUEUE_EMPTY HEAD (pending_q s)"



lemma active_timers_frame [simp]:
  "active_timers hs (s\<lparr>watcher_q := q\<rparr>) = active_timers hs s"
  "active_timers hs (t\<lparr>clock := c\<rparr>) = active_timers hs t"
  "active_timers hs (s\<lparr>time := n\<rparr>) = active_timers hs s"
  by (simp_all add: active_timers_def is_timer_def uv__is_active_def)

lemma timer_less_than_frame [simp]:
  "timer_less_than (s\<lparr>watcher_q := q\<rparr>) = timer_less_than s"
  "timer_less_than (t\<lparr>clock := c\<rparr>) = timer_less_than t"
  "timer_less_than (s\<lparr>time := n\<rparr>) = timer_less_than s"
  by (simp_all add: timer_less_than_def[abs_def])

lemma timers_ok_frame [simp]:
  "timers_ok hs (s\<lparr>watcher_q := q\<rparr>) = timers_ok hs s"
  "timers_ok hs (t\<lparr>clock := c\<rparr>) = timers_ok hs t"
  "timers_ok hs (s\<lparr>time := n\<rparr>) = timers_ok hs s"
  by (simp_all add: timers_ok_def core_ok_def)

lemma one_shots_frame [simp]:
  "one_shots hs (s\<lparr>clock := c\<rparr>) = one_shots hs s"
  "one_shots hs (s\<lparr>time := t\<rparr>) = one_shots hs s"
  by (simp_all add: one_shots_def is_timer_def uv__is_active_def uv__has_active_reqs_def)





















section \<open>Making a loop\<close>









end
