(* ===== verification/Uv_Threadpool.thy ===== *)
theory Uv_Threadpool
  imports Uv_Handle
begin

text \<open>
  The thread pool: \<open>src/threadpool.c\<close>. What a thread does while it holds a mutex is one step, and steps
  of the workers and of the loops interleave in any order. The queue of the pool (\<open>wq\<close>), the
  queue of finished work of each loop and the local queue of \<open>uv__work_done\<close> are rings of one store,
  changed by the queue macros. A loop is named by the address of its \<open>wq\<close>, and a request, the
  \<open>uv__work\<close> in it and its queue node have one address.

  A call of \<open>abort\<close> or through \<open>NULL\<close> is \<open>None\<close>. The histories \<open>submits\<close>, \<open>ran\<close>, \<open>calls\<close> and
  \<open>after_calls\<close> record the requests submitted, the work executed and the completions called.
\<close>

section \<open>State\<close>

datatype wfun = Queue_work | Other_work nat | Cancelled

datatype dfun = Queue_done | Other_done nat

datatype req_type = UV_FS | UV_GETADDRINFO | UV_GETNAMEINFO | UV_WORK | Other_req

record uv__work =
  w_loop :: ptr
  w_work :: "wfun option"
  w_done :: dfun

record uv_work_t =
  rtype :: req_type
  rloop :: ptr
  work_cb :: "nat option"
  after_work_cb :: "nat option"

text \<open>Where a worker is: before it locks the mutex, in \<open>uv_cond_wait\<close>, woken up from there, at work
  on a request, or returned.\<close>

datatype wstate = AtTop | Waiting | Woken | Running ptr | Exited

record pool =
  qs :: qstore
  idle_threads :: u32
  nthreads :: u32
  initialized :: bool
  once_done :: bool
  workers :: "wstate list"
  mem_w :: "ptr \<Rightarrow> uv__work"
  mem_r :: "ptr \<Rightarrow> uv_work_t"
  cores :: "ptr \<Rightarrow> core"
  wq_async :: "ptr \<Rightarrow> bool"
  in_done :: "ptr \<Rightarrow> ptr option"
  submits :: "ptr list"
  ran :: "ptr list"
  calls :: "(ptr \<times> rc) list"
  after_calls :: "(ptr \<times> rc) list"

definition MAX_THREADPOOL_SIZE :: u32 where
  "MAX_THREADPOOL_SIZE = 128"

definition wq :: ptr where "wq = 1"
definition exit_message :: ptr where "exit_message = 2"

definition set_worker :: "nat \<Rightarrow> wstate \<Rightarrow> pool \<Rightarrow> pool" where
  "set_worker i x s = s\<lparr>workers := (workers s)[i := x]\<rparr>"

definition upd_w :: "ptr \<Rightarrow> (uv__work \<Rightarrow> uv__work) \<Rightarrow> pool \<Rightarrow> pool" where
  "upd_w w f s = s\<lparr>mem_w := (mem_w s)(w := f (mem_w s w))\<rparr>"

text \<open>\<open>uv_cond_signal\<close> wakes the waiting thread \<open>k\<close>.\<close>

definition uv_cond_signal :: "nat \<Rightarrow> pool \<Rightarrow> pool" where
  "uv_cond_signal k s = (if k < length (workers s) \<and> workers s ! k = Waiting then set_worker k Woken s else s)"

definition uv_async_send :: "ptr \<Rightarrow> pool \<Rightarrow> pool" where
  "uv_async_send l s = s\<lparr>wq_async := (wq_async s)(l := True)\<rparr>"

section \<open>Workers\<close>

text \<open>With the mutex held: the queue is not empty.\<close>

definition take_work :: "nat \<Rightarrow> nat \<Rightarrow> pool \<Rightarrow> pool" where
  "take_work i k s =
     (let q = QUEUE_HEAD wq (qs s)
      in if q = exit_message then set_worker i Exited (uv_cond_signal k s)
         else
           (let s1 = s\<lparr>qs := QUEUE_REMOVE q (qs s)\<rparr>;
                s2 = s1\<lparr>qs := QUEUE_INIT q (qs s1)\<rparr>
            in set_worker i (Running q) s2))"

text \<open>One turn of the inner loop.\<close>

definition worker_locked :: "nat \<Rightarrow> nat \<Rightarrow> pool \<Rightarrow> pool" where
  "worker_locked i k s =
     (if QUEUE_EMPTY wq (qs s) then set_worker i Waiting (s\<lparr>idle_threads := idle_threads s + 1\<rparr>)
      else take_work i k s)"

definition uv__queue_work :: "ptr \<Rightarrow> pool \<Rightarrow> pool option" where
  "uv__queue_work w s = (if work_cb (mem_r s w) = None then None else Some (s\<lparr>ran := ran s @ [w]\<rparr>))"

definition call_work :: "ptr \<Rightarrow> pool \<Rightarrow> pool option" where
  "call_work w s =
     (case w_work (mem_w s w) of
        None \<Rightarrow> None
      | Some Queue_work \<Rightarrow> uv__queue_work w s
      | Some (Other_work _) \<Rightarrow> Some (s\<lparr>ran := ran s @ [w]\<rparr>)
      | Some Cancelled \<Rightarrow> None)"

definition worker_finish :: "nat \<Rightarrow> ptr \<Rightarrow> pool \<Rightarrow> pool option" where
  "worker_finish i w s = map_option (\<lambda>s1.
     let s2 = upd_w w (\<lambda>x. x\<lparr>w_work := None\<rparr>) s1;
         l = w_loop (mem_w s2 w);
         s3 = s2\<lparr>qs := QUEUE_INSERT_TAIL l w (qs s2)\<rparr>
     in set_worker i AtTop (uv_async_send l s3)) (call_work w s)"

text \<open>The next step of worker \<open>i\<close>; a waiting thread does not run.\<close>

definition worker :: "nat \<Rightarrow> nat \<Rightarrow> pool \<Rightarrow> pool option" where
  "worker i k s =
     (case workers s ! i of
        AtTop \<Rightarrow> Some (worker_locked i k s)
      | Woken \<Rightarrow> Some (worker_locked i k (s\<lparr>idle_threads := idle_threads s - 1\<rparr>))
      | Running w \<Rightarrow> worker_finish i w s
      | Waiting \<Rightarrow> None
      | Exited \<Rightarrow> None)"

section \<open>Submitting work\<close>

definition post :: "nat \<Rightarrow> ptr \<Rightarrow> pool \<Rightarrow> pool" where
  "post k q s =
     (let s1 = s\<lparr>qs := QUEUE_INSERT_TAIL wq q (qs s)\<rparr>
      in if 0 < idle_threads s1 then uv_cond_signal k s1 else s1)"

text \<open>\<open>val\<close> is what \<open>atoi\<close> makes of \<open>UV_THREADPOOL_SIZE\<close>; \<open>malloc_ok\<close> whether \<open>uv__malloc\<close> succeeds.
  Making the mutex, the condition variable and the threads succeeds, or the program aborts.\<close>

definition pool_size :: "int option \<Rightarrow> bool \<Rightarrow> u32" where
  "pool_size val malloc_ok =
     (let n = (case val of None \<Rightarrow> 4 | Some v \<Rightarrow> word_of_int v);
          n = (if n = 0 then 1 else n);
          n = (if n > MAX_THREADPOOL_SIZE then MAX_THREADPOOL_SIZE else n)
      in if n > 4 \<and> \<not> malloc_ok then 4 else n)"

definition init_once :: "int option \<Rightarrow> bool \<Rightarrow> pool \<Rightarrow> pool" where
  "init_once val malloc_ok s =
     (let n = pool_size val malloc_ok;
          s1 = s\<lparr>nthreads := n, qs := QUEUE_INIT wq (qs s)\<rparr>
      in s1\<lparr>workers := replicate (unat n) AtTop, initialized := True\<rparr>)"

definition uv_once :: "int option \<Rightarrow> bool \<Rightarrow> pool \<Rightarrow> pool" where
  "uv_once val malloc_ok s = (if once_done s then s else (init_once val malloc_ok s)\<lparr>once_done := True\<rparr>)"

definition uv__work_submit :: "int option \<Rightarrow> bool \<Rightarrow> nat \<Rightarrow> ptr \<Rightarrow> ptr \<Rightarrow> wfun \<Rightarrow> dfun \<Rightarrow> pool \<Rightarrow> pool" where
  "uv__work_submit val malloc_ok k l w f d s =
     (let s1 = uv_once val malloc_ok s;
          s2 = upd_w w (\<lambda>_. \<lparr>w_loop = l, w_work = Some f, w_done = d\<rparr>) s1;
          s3 = s2\<lparr>submits := submits s2 @ [w]\<rparr>
      in post k w s3)"

definition uv_queue_work :: "int option \<Rightarrow> bool \<Rightarrow> nat \<Rightarrow> ptr \<Rightarrow> ptr \<Rightarrow> nat option \<Rightarrow> nat option \<Rightarrow> pool \<Rightarrow> rc \<times> pool" where
  "uv_queue_work val malloc_ok k l req cb after s =
     (if cb = None then (Fail EINVAL, s)
      else
        (let s1 = s\<lparr>cores := (cores s)(l := uv__req_register req (cores s l)),
                    mem_r := (mem_r s)(req := \<lparr>rtype = UV_WORK, rloop = l, work_cb = cb, after_work_cb = after\<rparr>)\<rparr>
         in (OK, uv__work_submit val malloc_ok k l req Queue_work Queue_done s1)))"

section \<open>Cancelling\<close>

definition uv__work_cancel :: "ptr \<Rightarrow> ptr \<Rightarrow> pool \<Rightarrow> rc \<times> pool" where
  "uv__work_cancel l w s =
     (let cancelled = (\<not> QUEUE_EMPTY w (qs s) \<and> w_work (mem_w s w) \<noteq> None);
          s1 = (if cancelled then s\<lparr>qs := QUEUE_REMOVE w (qs s)\<rparr> else s)
      in if \<not> cancelled then (Fail EBUSY, s1)
         else
           (let s2 = upd_w w (\<lambda>x. x\<lparr>w_work := Some Cancelled\<rparr>) s1;
                s3 = s2\<lparr>qs := QUEUE_INSERT_TAIL l w (qs s2)\<rparr>
            in (OK, uv_async_send l s3)))"

definition uv_cancel :: "ptr \<Rightarrow> pool \<Rightarrow> rc \<times> pool" where
  "uv_cancel req s =
     (if rtype (mem_r s req) = Other_req then (Fail EINVAL, s)
      else uv__work_cancel (rloop (mem_r s req)) req s)"

section \<open>Completion\<close>

definition uv__queue_done :: "ptr \<Rightarrow> rc \<Rightarrow> pool \<Rightarrow> pool option" where
  "uv__queue_done w err s =
     (let req = mem_r s w
      in map_option (\<lambda>c.
           let s1 = s\<lparr>cores := (cores s)(rloop req := c)\<rparr>
           in if after_work_cb req = None then s1 else s1\<lparr>after_calls := after_calls s1 @ [(w, err)]\<rparr>)
         (uv__req_unregister w (cores s (rloop req))))"

definition call_done :: "ptr \<Rightarrow> rc \<Rightarrow> pool \<Rightarrow> pool option" where
  "call_done w err s =
     (let s1 = s\<lparr>calls := calls s @ [(w, err)]\<rparr>
      in case w_done (mem_w s1 w) of
           Queue_done \<Rightarrow> uv__queue_done w err s1
         | Other_done _ \<Rightarrow> Some s1)"

text \<open>\<open>uv__work_done\<close>, up to the loop, with the local queue at \<open>n\<close>; then the turns of the loop one by
  one, since the completion it calls may submit and cancel.\<close>

definition uv__work_done_begin :: "ptr \<Rightarrow> ptr \<Rightarrow> pool \<Rightarrow> pool" where
  "uv__work_done_begin l n s =
     (let s1 = s\<lparr>wq_async := (wq_async s)(l := False), qs := QUEUE_MOVE l n (qs s)\<rparr>
      in s1\<lparr>in_done := (in_done s1)(l := Some n)\<rparr>)"

definition uv__work_done_next :: "ptr \<Rightarrow> pool \<Rightarrow> pool option" where
  "uv__work_done_next l s =
     (case in_done s l of
        None \<Rightarrow> None
      | Some n \<Rightarrow>
          if QUEUE_EMPTY n (qs s) then Some (s\<lparr>in_done := (in_done s)(l := None)\<rparr>)
          else
            (let q = QUEUE_HEAD n (qs s);
                 s1 = s\<lparr>qs := QUEUE_REMOVE q (qs s)\<rparr>;
                 err = (if w_work (mem_w s1 q) = Some Cancelled then Fail ECANCELED else OK)
             in call_done q err s1))"

section \<open>The end of the program\<close>

definition cleanup_post :: "nat \<Rightarrow> pool \<Rightarrow> pool" where
  "cleanup_post k s = (if \<not> initialized s then s else post k exit_message s)"

definition cleanup_join :: "pool \<Rightarrow> pool option" where
  "cleanup_join s =
     (if \<not> initialized s then Some s
      else if \<forall>x \<in> set (workers s). x = Exited
      then Some (s\<lparr>workers := [], nthreads := 0, initialized := False\<rparr>)
      else None)"

section \<open>Steps\<close>

text \<open>The thread that \<open>uv_cond_signal\<close> wakes is one that waits, if any does.\<close>

definition signal_ok :: "nat \<Rightarrow> pool \<Rightarrow> bool" where
  "signal_ok k s \<longleftrightarrow> (Waiting \<in> set (workers s) \<longrightarrow> k < length (workers s) \<and> workers s ! k = Waiting)"

text \<open>A request can be submitted when each earlier submission of it has been completed.\<close>

definition in_use :: "ptr \<Rightarrow> pool \<Rightarrow> bool" where
  "in_use w s \<longleftrightarrow> count_list (submits s) w \<noteq> count_list (map fst (calls s)) w"

definition heads :: "ptr set \<Rightarrow> pool \<Rightarrow> ptr set" where
  "heads L s = {wq, exit_message} \<union> L \<union> {n. \<exists>l \<in> L. in_done s l = Some n}"

inductive pool_step :: "ptr set \<Rightarrow> pool \<Rightarrow> pool \<Rightarrow> bool" for L where
  queue: "l \<in> L \<Longrightarrow> \<not> in_use w s \<Longrightarrow> w \<notin> heads L s \<Longrightarrow> signal_ok k s \<Longrightarrow>
    uv_queue_work val ok k l w cb after s = (r, s') \<Longrightarrow> pool_step L s s'"
| submit: "l \<in> L \<Longrightarrow> \<not> in_use w s \<Longrightarrow> w \<notin> heads L s \<Longrightarrow> signal_ok k s \<Longrightarrow> t \<noteq> Other_req \<Longrightarrow>
    s' = uv__work_submit val ok k l w (Other_work f) (Other_done d)
      (s\<lparr>mem_r := (mem_r s)(w := \<lparr>rtype = t, rloop = l, work_cb = None, after_work_cb = None\<rparr>)\<rparr>) \<Longrightarrow> pool_step L s s'"
| work: "i < length (workers s) \<Longrightarrow> signal_ok k s \<Longrightarrow> worker i k s = Some s' \<Longrightarrow> pool_step L s s'"
| wake_up: "i < length (workers s) \<Longrightarrow> workers s ! i = Waiting \<Longrightarrow> s' = set_worker i Woken s \<Longrightarrow> pool_step L s s'"
| cancel: "in_use w s \<Longrightarrow> uv_cancel w s = (r, s') \<Longrightarrow> pool_step L s s'"
| done_begin: "l \<in> L \<Longrightarrow> in_done s l = None \<Longrightarrow> n \<notin> heads L s \<Longrightarrow> \<not> in_use n s \<Longrightarrow> pool_step L s (uv__work_done_begin l n s)"
| done_next: "l \<in> L \<Longrightarrow> uv__work_done_next l s = Some s' \<Longrightarrow> pool_step L s s'"

definition pool_start :: "ptr set \<Rightarrow> pool \<Rightarrow> bool" where
  "pool_start L s \<longleftrightarrow> wq \<notin> L \<and> exit_message \<notin> L \<and> \<not> once_done s \<and> \<not> initialized s \<and> workers s = [] \<and> idle_threads s = 0 \<and>
     represents (qs s) (\<lambda>l. if l \<in> L then Some [] else None) \<and> in_done s = (\<lambda>_. None) \<and>
     submits s = [] \<and> ran s = [] \<and> calls s = [] \<and> (\<forall>l \<in> L. qring (active_reqs (cores s l)) HEAD [])"

end
