(* ===== verification/Uv_Threadpool_Inv.thy ===== *)
theory Uv_Threadpool_Inv
  imports Uv_Threadpool
begin

text \<open>
  The invariant of the thread pool: which lists the queues stand for, where each request is, how the
  histories count, and that no work is left behind by sleeping threads.
\<close>

section \<open>Views\<close>

definition running :: "pool \<Rightarrow> ptr set" where
  "running s = {w. Running w \<in> set (workers s)}"

definition one_each :: "pool \<Rightarrow> bool" where
  "one_each s \<longleftrightarrow> (\<forall>i j w. i < length (workers s) \<longrightarrow> j < length (workers s) \<longrightarrow>
     workers s ! i = Running w \<longrightarrow> workers s ! j = Running w \<longrightarrow> i = j)"

definition locals :: "ptr set \<Rightarrow> pool \<Rightarrow> ptr set" where
  "locals L s = {n. \<exists>l \<in> L. in_done s l = Some n}"

text \<open>\<open>G\<close> is the queue of the pool, \<open>C l\<close> that of the loop \<open>l\<close>, and \<open>D n\<close> the local one at \<open>n\<close>.\<close>

definition family :: "ptr set \<Rightarrow> pool \<Rightarrow> ptr list \<Rightarrow> (ptr \<Rightarrow> ptr list) \<Rightarrow> (ptr \<Rightarrow> ptr list) \<Rightarrow> qfamily" where
  "family L s G C D h =
     (if h = wq then (if once_done s then Some G else None)
      else if h \<in> L then Some (C h)
      else if h \<in> locals L s then Some (D h)
      else if h \<in> running s then Some [] else None)"

definition finished :: "pool \<Rightarrow> (ptr \<Rightarrow> ptr list) \<Rightarrow> (ptr \<Rightarrow> ptr list) \<Rightarrow> ptr \<Rightarrow> ptr set" where
  "finished s C D l = set (C l) \<union> (case in_done s l of None \<Rightarrow> {} | Some n \<Rightarrow> set (D n))"

definition all_finished :: "ptr set \<Rightarrow> pool \<Rightarrow> (ptr \<Rightarrow> ptr list) \<Rightarrow> (ptr \<Rightarrow> ptr list) \<Rightarrow> ptr set" where
  "all_finished L s C D = (\<Union>l \<in> L. finished s C D l)"

definition queues_ok :: "ptr set \<Rightarrow> pool \<Rightarrow> ptr list \<Rightarrow> (ptr \<Rightarrow> ptr list) \<Rightarrow> (ptr \<Rightarrow> ptr list) \<Rightarrow> bool" where
  "queues_ok L s G C D \<longleftrightarrow> represents (qs s) (family L s G C D) \<and> wq \<notin> L \<and> exit_message \<notin> L \<and>
     (\<forall>l \<in> L. \<forall>l' \<in> L. \<forall>n. in_done s l = Some n \<longrightarrow> in_done s l' = Some n \<longrightarrow> l = l') \<and>
     locals L s \<inter> ({wq, exit_message} \<union> L) = {} \<and> running s \<inter> heads L s = {} \<and> one_each s \<and>
     (once_done s \<or> workers s = [] \<and> G = []) \<and> exit_message \<notin> set G"

definition runnable :: "ptr set \<Rightarrow> pool \<Rightarrow> ptr \<Rightarrow> bool" where
  "runnable L s w \<longleftrightarrow> w_loop (mem_w s w) \<in> L \<and> rloop (mem_r s w) = w_loop (mem_w s w) \<and> rtype (mem_r s w) \<noteq> Other_req \<and>
     (w_work (mem_w s w) = Some Queue_work \<and> work_cb (mem_r s w) \<noteq> None \<or> (\<exists>f. w_work (mem_w s w) = Some (Other_work f)))"

definition completed :: "ptr \<Rightarrow> pool \<Rightarrow> ptr \<Rightarrow> bool" where
  "completed l s w \<longleftrightarrow> w_loop (mem_w s w) = l \<and> rloop (mem_r s w) = l \<and> rtype (mem_r s w) \<noteq> Other_req \<and>
     w_work (mem_w s w) \<in> {None, Some Cancelled} \<and> w \<notin> {wq, exit_message}"

definition works_ok :: "ptr set \<Rightarrow> pool \<Rightarrow> ptr list \<Rightarrow> (ptr \<Rightarrow> ptr list) \<Rightarrow> (ptr \<Rightarrow> ptr list) \<Rightarrow> bool" where
  "works_ok L s G C D \<longleftrightarrow> (\<forall>w \<in> set G \<union> running s. runnable L s w) \<and> (\<forall>l \<in> L. \<forall>w \<in> finished s C D l. completed l s w)"

definition counts_ok :: "ptr set \<Rightarrow> pool \<Rightarrow> ptr list \<Rightarrow> (ptr \<Rightarrow> ptr list) \<Rightarrow> (ptr \<Rightarrow> ptr list) \<Rightarrow> bool" where
  "counts_ok L s G C D \<longleftrightarrow> (\<forall>w.
     count_list (submits s) w = count_list (map fst (calls s)) w + of_bool (w \<in> set G \<union> running s \<union> all_finished L s C D) \<and>
     count_list (ran s) w = count_list (calls s) (w, OK) + of_bool (w \<in> all_finished L s C D \<and> w_work (mem_w s w) = None))"

definition wakes_ok :: "pool \<Rightarrow> ptr list \<Rightarrow> bool" where
  "wakes_ok s G \<longleftrightarrow> Exited \<notin> set (workers s) \<and> length (workers s) \<le> 128 \<and> (once_done s \<longrightarrow> workers s \<noteq> []) \<and>
     unat (idle_threads s) = length (filter (\<lambda>x. x = Waiting \<or> x = Woken) (workers s)) \<and>
     (G \<noteq> [] \<longrightarrow> (\<exists>x \<in> set (workers s). x \<noteq> Waiting))"

definition asyncs_ok :: "ptr set \<Rightarrow> pool \<Rightarrow> (ptr \<Rightarrow> ptr list) \<Rightarrow> bool" where
  "asyncs_ok L s C \<longleftrightarrow> (\<forall>l \<in> L. C l \<noteq> [] \<longrightarrow> wq_async s l)"

definition pool_inv :: "ptr set \<Rightarrow> pool \<Rightarrow> bool" where
  "pool_inv L s \<longleftrightarrow> (\<exists>G C D. queues_ok L s G C D \<and> works_ok L s G C D \<and> counts_ok L s G C D \<and> wakes_ok s G \<and> asyncs_ok L s C)"

section \<open>Workers\<close>

lemma set_worker_sel [simp]:
  "qs (set_worker i x s) = qs s" "idle_threads (set_worker i x s) = idle_threads s" "once_done (set_worker i x s) = once_done s"
  "mem_w (set_worker i x s) = mem_w s" "mem_r (set_worker i x s) = mem_r s" "cores (set_worker i x s) = cores s"
  "wq_async (set_worker i x s) = wq_async s" "in_done (set_worker i x s) = in_done s" "submits (set_worker i x s) = submits s"
  "ran (set_worker i x s) = ran s" "calls (set_worker i x s) = calls s" "workers (set_worker i x s) = (workers s)[i := x]"
  by (simp_all add: set_worker_def)

lemma signal_sel [simp]:
  "qs (uv_cond_signal k s) = qs s" "idle_threads (uv_cond_signal k s) = idle_threads s" "once_done (uv_cond_signal k s) = once_done s"
  "mem_w (uv_cond_signal k s) = mem_w s" "mem_r (uv_cond_signal k s) = mem_r s" "cores (uv_cond_signal k s) = cores s"
  "wq_async (uv_cond_signal k s) = wq_async s" "in_done (uv_cond_signal k s) = in_done s" "submits (uv_cond_signal k s) = submits s"
  "ran (uv_cond_signal k s) = ran s" "calls (uv_cond_signal k s) = calls s"
  by (simp_all add: uv_cond_signal_def)

lemma running_nth: "w \<in> running s \<longleftrightarrow> (\<exists>j < length (workers s). workers s ! j = Running w)"
  by (auto simp: running_def in_set_conv_nth)

lemma running_set_worker:
  assumes "i < length (workers s)" "one_each s"
  shows "running (set_worker i x s) = (running s - {w. workers s ! i = Running w}) \<union> {w. x = Running w}"
proof -
  have "w \<in> running (set_worker i x s) \<longleftrightarrow> (\<exists>j < length (workers s). j \<noteq> i \<and> workers s ! j = Running w) \<or> x = Running w" for w
    using assms(1) by (auto simp: running_nth nth_list_update)
  moreover have "(\<exists>j < length (workers s). j \<noteq> i \<and> workers s ! j = Running w) \<longleftrightarrow> w \<in> running s \<and> workers s ! i \<noteq> Running w" for w
    using assms by (auto simp: running_nth one_each_def)
  ultimately show ?thesis by blast
qed

lemma one_each_set_worker:
  assumes "one_each s" "\<And>w. x = Running w \<Longrightarrow> w \<notin> running s"
  shows "one_each (set_worker i x s)"
proof (cases "i < length (workers s)")
  case True
  show ?thesis
    unfolding one_each_def
  proof (intro allI impI)
    fix a b w
    assume h: "a < length (workers (set_worker i x s))" "b < length (workers (set_worker i x s))"
      "workers (set_worker i x s) ! a = Running w" "workers (set_worker i x s) ! b = Running w"
    consider "a = i" "b = i" | "a = i" "b \<noteq> i" | "a \<noteq> i" "b = i" | "a \<noteq> i" "b \<noteq> i" by blast
    then show "a = b"
    proof cases
      case 2
      then have "x = Running w" "workers s ! b = Running w" using h True by auto
      then show ?thesis using assms(2)[of w] h(2) by (auto simp: running_nth)
    next
      case 3
      then have "x = Running w" "workers s ! a = Running w" using h True by auto
      then show ?thesis using assms(2)[of w] h(1) by (auto simp: running_nth)
    next
      case 4
      then show ?thesis using h assms(1) by (simp add: one_each_def)
    qed simp
  qed
next
  case False
  then show ?thesis using assms(1) by (simp add: one_each_def list_update_beyond)
qed

lemma signal_running [simp]: "running (uv_cond_signal k s) = running s"
proof -
  have "(workers s)[k := Woken] ! j = Running w \<longleftrightarrow> workers s ! j = Running w" if "k < length (workers s)" "workers s ! k = Waiting" for j w
    using that by (cases "j = k") auto
  then show ?thesis by (auto simp: uv_cond_signal_def running_nth)
qed

lemma signal_one_each: "one_each s \<Longrightarrow> one_each (uv_cond_signal k s)"
  by (auto simp: uv_cond_signal_def intro!: one_each_set_worker)

lemma length_signal [simp]: "length (workers (uv_cond_signal k s)) = length (workers s)"
  by (simp add: uv_cond_signal_def)

section \<open>Queues\<close>

lemma family_members:
  assumes "family L s G C D h = Some xs"
  shows "h \<in> heads L s \<union> running s" "set xs \<subseteq> set G \<union> all_finished L s C D"
  using assms unfolding family_def heads_def locals_def all_finished_def finished_def
  by (auto split: if_splits)

lemma queues_unused:
  assumes "w \<notin> heads L s" "w \<notin> set G \<union> running s \<union> all_finished L s C D"
  shows "unused (family L s G C D) w"
  unfolding unused_def using assms family_members by blast

lemma represents_drop: "represents q A \<Longrightarrow> represents q (A(h := None))"
  by (auto simp: represents_def split: if_splits)

lemma queues_okD:
  assumes "queues_ok L s G C D"
  shows "represents (qs s) (family L s G C D)" "wq \<notin> L" "exit_message \<notin> L"
    "\<And>l l' n. l \<in> L \<Longrightarrow> l' \<in> L \<Longrightarrow> in_done s l = Some n \<Longrightarrow> in_done s l' = Some n \<Longrightarrow> l = l'"
    "locals L s \<inter> ({wq, exit_message} \<union> L) = {}" "running s \<inter> heads L s = {}" "one_each s"
    "once_done s \<or> workers s = [] \<and> G = []" "exit_message \<notin> set G"
  using assms unfolding queues_ok_def by blast+

lemma family_at:
  assumes "queues_ok L s G C D"
  shows "once_done s \<Longrightarrow> family L s G C D wq = Some G" "l \<in> L \<Longrightarrow> family L s G C D l = Some (C l)"
    "n \<in> locals L s \<Longrightarrow> family L s G C D n = Some (D n)" "w \<in> running s \<Longrightarrow> family L s G C D w = Some []"
  using queues_okD(2,5,6)[OF assms] by (auto simp: family_def heads_def locals_def)

lemma queues_disjoint:
  assumes "queues_ok L s G C D"
  shows "once_done s \<Longrightarrow> l \<in> L \<Longrightarrow> set G \<inter> set (C l) = {}" "once_done s \<Longrightarrow> n \<in> locals L s \<Longrightarrow> set G \<inter> set (D n) = {}"
    "l \<in> L \<Longrightarrow> n \<in> locals L s \<Longrightarrow> set (C l) \<inter> set (D n) = {}"
    "l \<in> L \<Longrightarrow> l' \<in> L \<Longrightarrow> l \<noteq> l' \<Longrightarrow> set (C l) \<inter> set (C l') = {}"
    "n \<in> locals L s \<Longrightarrow> n' \<in> locals L s \<Longrightarrow> n \<noteq> n' \<Longrightarrow> set (D n) \<inter> set (D n') = {}"
    "w \<in> running s \<Longrightarrow> w \<notin> set G \<or> \<not> once_done s" "w \<in> running s \<Longrightarrow> l \<in> L \<Longrightarrow> w \<notin> set (C l)"
    "w \<in> running s \<Longrightarrow> n \<in> locals L s \<Longrightarrow> w \<notin> set (D n)"
    "once_done s \<Longrightarrow> distinct (wq # G)" "l \<in> L \<Longrightarrow> distinct (l # C l)" "n \<in> locals L s \<Longrightarrow> distinct (n # D n)"
proof -
  note d = queues_okD[OF assms]
  note fw = family_at(1)[OF assms] and fl = family_at(2)[OF assms] and fn = family_at(3)[OF assms] and fr = family_at(4)[OF assms]
  have ne: "l \<noteq> wq" "n \<noteq> wq" "l \<noteq> n" if "l \<in> L" "n \<in> locals L s" for l n using that d(2,5) by auto
  have nr: "w \<noteq> wq" "w \<notin> L" "w \<notin> locals L s" if "w \<in> running s" for w using that d(6) by (auto simp: heads_def locals_def)
  note rd = representsD(2)[OF d(1)]
  show "set G \<inter> set (C l) = {}" if "once_done s" "l \<in> L" using rd[OF fw fl] that d(2) by auto
  show "set G \<inter> set (D n) = {}" if "once_done s" "n \<in> locals L s" using rd[OF fw fn] that d(5) by auto
  show "set (C l) \<inter> set (D n) = {}" if "l \<in> L" "n \<in> locals L s" using rd[OF fl fn, of l n] that ne by auto
  show "set (C l) \<inter> set (C l') = {}" if "l \<in> L" "l' \<in> L" "l \<noteq> l'" using rd[OF fl fl, of l l'] that by auto
  show "set (D n) \<inter> set (D n') = {}" if "n \<in> locals L s" "n' \<in> locals L s" "n \<noteq> n'" using rd[OF fn fn, of n n'] that by auto
  show "w \<notin> set G \<or> \<not> once_done s" if "w \<in> running s" using rd[OF fw fr, of w] that nr by auto
  show "w \<notin> set (C l)" if "w \<in> running s" "l \<in> L" using rd[OF fl fr, of l w] that nr[OF that(1)] by auto
  show "w \<notin> set (D n)" if "w \<in> running s" "n \<in> locals L s" using rd[OF fn fr, of n w] that nr[OF that(1)] by auto
  show "distinct (wq # G)" if "once_done s" using qring_distinct[OF representsD(1)[OF d(1) fw]] that .
  show "distinct (l # C l)" if "l \<in> L" using qring_distinct[OF representsD(1)[OF d(1) fl]] that .
  show "distinct (n # D n)" if "n \<in> locals L s" using qring_distinct[OF representsD(1)[OF d(1) fn]] that .
qed

text \<open>What \<open>queues_ok\<close> looks at.\<close>

lemma queues_okI:
  assumes "queues_ok L s G C D" "represents (qs s') (family L s' G' C' D')"
    and "\<And>l l' n. l \<in> L \<Longrightarrow> l' \<in> L \<Longrightarrow> in_done s' l = Some n \<Longrightarrow> in_done s' l' = Some n \<Longrightarrow> l = l'"
    and "locals L s' \<inter> ({wq, exit_message} \<union> L) = {}" "running s' \<inter> heads L s' = {}" "one_each s'"
    and "once_done s' \<or> workers s' = [] \<and> G' = []" "exit_message \<notin> set G'"
  shows "queues_ok L s' G' C' D'"
  using assms(2-8) queues_okD(2,3)[OF assms(1)] unfolding queues_ok_def by blast

lemma same_heads:
  assumes "in_done s' = in_done s"
  shows "heads L s' = heads L s" "locals L s' = locals L s" "finished s' C D l = finished s C D l"
    "all_finished L s' C D = all_finished L s C D"
  using assms by (simp_all add: heads_def locals_def finished_def all_finished_def)

lemma heads_locals: "heads L s = {wq, exit_message} \<union> L \<union> locals L s"
  by (auto simp: heads_def locals_def)

lemma queues_same:
  assumes "queues_ok L s G C D" "qs s' = qs s" "in_done s' = in_done s" "once_done s' = once_done s"
    "running s' = running s" "one_each s'" "workers s' = [] \<or> once_done s"
  shows "queues_ok L s' G C D"
proof -
  have "family L s' G C D = family L s G C D"
    using assms(3-5) by (intro ext) (simp add: family_def same_heads(2)[OF assms(3)])
  then show ?thesis
    using queues_okD[OF assms(1)] same_heads(1,2)[OF assms(3)] assms(2-7) by (intro queues_okI[OF assms(1)]) (auto simp: assms(2-5))
qed

lemma post_sel [simp]:
  "in_done (post k w s) = in_done s" "once_done (post k w s) = once_done s"
  "mem_w (post k w s) = mem_w s" "mem_r (post k w s) = mem_r s" "submits (post k w s) = submits s" "ran (post k w s) = ran s"
  "calls (post k w s) = calls s" "wq_async (post k w s) = wq_async s" "idle_threads (post k w s) = idle_threads s"
  "cores (post k w s) = cores s" "qs (post k w s) = QUEUE_INSERT_TAIL wq w (qs s)"
  "workers (post k w s) = (if 0 < idle_threads s then workers (uv_cond_signal k s) else workers s)"
  by (simp_all add: post_def Let_def uv_cond_signal_def set_worker_def)

lemma running_qs [simp]: "running (s\<lparr>qs := q\<rparr>) = running s"
  by (simp add: running_def)

lemma running_post [simp]: "running (post k w s) = running s"
  by (simp add: post_def Let_def)

lemma post_queues:
  assumes ok: "queues_ok L s G C D" and o: "once_done s"
    and w: "w \<notin> heads L s" "w \<notin> set G \<union> running s \<union> all_finished L s C D"
  shows "queues_ok L (post k w s) (G @ [w]) C D"
proof (rule queues_okI[OF ok])
  note d = queues_okD[OF ok]
  have "qspec (family L s G C D) (OpInsertTail wq w) ((family L s G C D)(wq \<mapsto> G @ [w]))"
    using o by (intro spec_tail queues_unused[OF w]) (simp add: family_def)
  from qspec_step[OF d(1) this]
  have "represents (QUEUE_INSERT_TAIL wq w (qs s)) ((family L s G C D)(wq \<mapsto> G @ [w]))" by simp
  moreover have "(family L s G C D)(wq \<mapsto> G @ [w]) = family L (post k w s) (G @ [w]) C D"
    using o by (intro ext) (simp add: family_def same_heads(2)[of "post k w s" s])
  ultimately show "represents (qs (post k w s)) (family L (post k w s) (G @ [w]) C D)" by simp
  show "one_each (post k w s)" using d(7) signal_one_each[OF d(7), of k] by (simp add: one_each_def)
  show "exit_message \<notin> set (G @ [w])" using d(9) w(1) by (simp add: heads_def)
qed (use queues_okD[OF ok] o in \<open>simp_all add: same_heads(1,2)[of "post k w s" s]\<close>)

lemma take_sel [simp]:
  "in_done (take_work i k s) = in_done s" "once_done (take_work i k s) = once_done s" "mem_w (take_work i k s) = mem_w s"
  "mem_r (take_work i k s) = mem_r s" "submits (take_work i k s) = submits s" "ran (take_work i k s) = ran s"
  "calls (take_work i k s) = calls s" "wq_async (take_work i k s) = wq_async s" "idle_threads (take_work i k s) = idle_threads s"
  "cores (take_work i k s) = cores s"
  by (simp_all add: take_work_def Let_def)

lemma take_queues:
  assumes ok: "queues_ok L s (q # G) C D" and o: "once_done s" and i: "i < length (workers s)" "\<And>w. workers s ! i \<noteq> Running w"
  shows "queues_ok L (take_work i k s) G C D" "running (take_work i k s) = insert q (running s)"
    "workers (take_work i k s) = (workers s)[i := Running q]" "q \<notin> running s"
proof -
  note d = queues_okD[OF ok] and j = queues_disjoint[OF ok]
  have fw: "family L s (q # G) C D wq = Some (q # G)" using o by (simp add: family_def)
  have hd: "QUEUE_HEAD wq (qs s) = q" by (rule qring_head[OF representsD(1)[OF d(1) fw]])
  have qe: "q \<noteq> exit_message" using d(9) by auto
  show qr: "q \<notin> running s" using j(6)[of q] o by auto
  let ?q1 = "QUEUE_REMOVE q (qs s)"
  let ?s = "take_work i k s"
  have s: "?s = set_worker i (Running q) (s\<lparr>qs := QUEUE_INIT q ?q1\<rparr>)" using hd qe by (simp add: take_work_def Let_def)
  show w: "workers ?s = (workers s)[i := Running q]" by (simp add: s)
  have r0: "running (s\<lparr>qs := QUEUE_INIT q ?q1\<rparr>) = running s" "one_each (s\<lparr>qs := QUEUE_INIT q ?q1\<rparr>)"
    using d(7) by (simp_all add: running_def one_each_def)
  show r: "running ?s = insert q (running s)" unfolding s
    by (subst running_set_worker) (use i r0 in auto)
  have l: "locals L s = locals L ?s" by (rule same_heads(2)[symmetric]) simp
  have qh: "q \<notin> heads L s"
  proof -
    have "q \<noteq> wq" using j(9) o by auto
    moreover have "q \<notin> L" "q \<notin> locals L s"
    proof -
      note fl = family_at(2)[OF ok] and fn = family_at(3)[OF ok]
      show "q \<notin> L" using representsD(2)[OF d(1) fw fl, of q] d(2) by fastforce
      show "q \<notin> locals L s" using representsD(2)[OF d(1) fw fn, of q] d(5) by fastforce
    qed
    ultimately show ?thesis using qe by (simp add: heads_locals)
  qed
  have "qspec (family L s (q # G) C D) (OpRemove q) ((family L s (q # G) C D)(wq \<mapsto> remove1 q (q # G)))"
    by (rule spec_remove[of "family L s (q # G) C D" wq "q # G" q]) (simp_all add: fw)
  from qspec_step[OF d(1) this]
  have r1: "represents ?q1 ((family L s (q # G) C D)(wq \<mapsto> G))" by simp
  have "(family L s (q # G) C D)(wq \<mapsto> G) = family L s G C D" using o by (intro ext) (simp add: family_def)
  with r1 have r1: "represents ?q1 (family L s G C D)" by simp
  have "unused (family L s G C D) q"
  proof (rule queues_unused[OF qh])
    have "q \<notin> set G" using j(9) o by auto
    moreover have "q \<notin> all_finished L s C D"
      using j(1)[OF o] j(2)[OF o] by (auto simp: all_finished_def finished_def locals_def split: option.splits)
    ultimately show "q \<notin> set G \<union> running s \<union> all_finished L s C D" using qr by blast
  qed
  from qspec_step[OF r1 spec_init[OF this]]
  have "represents (QUEUE_INIT q ?q1) ((family L s G C D)(q \<mapsto> []))" by simp
  moreover have "(family L s G C D)(q \<mapsto> []) = family L ?s G C D"
    using qh r by (intro ext) (auto simp: family_def l heads_locals)
  ultimately have rep: "represents (qs ?s) (family L ?s G C D)" by (simp add: s)
  show "queues_ok L ?s G C D"
  proof (rule queues_okI[OF ok rep])
    show "one_each ?s" unfolding s using r0 qr by (intro one_each_set_worker) auto
    show "running ?s \<inter> heads L ?s = {}" using d(6) qh r same_heads(1)[of ?s s] by simp
  qed (use d o in \<open>simp_all add: same_heads(1,2)[of ?s s]\<close>)
qed

text \<open>\<open>QUEUE_REMOVE\<close> of a member, wherever it is.\<close>

definition strip :: "ptr \<Rightarrow> (ptr \<Rightarrow> ptr list) \<Rightarrow> ptr \<Rightarrow> ptr list" where
  "strip w C = (\<lambda>h. remove1 w (C h))"

lemma represents_strip:
  assumes rep: "represents q A" and h: "A h = Some xs" "w \<in> set xs"
  shows "represents (QUEUE_REMOVE w q) (\<lambda>g. map_option (remove1 w) (A g))" "unused (\<lambda>g. map_option (remove1 w) (A g)) w"
proof -
  have dist: "distinct (g # ys)" if "A g = Some ys" for g ys using qring_distinct[OF representsD(1)[OF rep that]] .
  have other: "w \<notin> insert g (set ys)" if "A g = Some ys" "g \<noteq> h" for g ys
    using representsD(2)[OF rep h(1) that(1)] that(2) h(2) by blast
  have "(\<lambda>g. map_option (remove1 w) (A g)) = A(h \<mapsto> remove1 w xs)"
    using h(1) other by (intro ext) (auto simp: remove1_idem intro!: option.map_ident_strong)
  moreover have "qspec A (OpRemove w) (A(h \<mapsto> remove1 w xs))" by (rule spec_remove[of A h xs w]) (rule h)+
  ultimately show "represents (QUEUE_REMOVE w q) (\<lambda>g. map_option (remove1 w) (A g))" using qspec_step[OF rep] by fastforce
  show "unused (\<lambda>g. map_option (remove1 w) (A g)) w"
    unfolding unused_def
  proof (intro allI impI)
    fix g zs assume g: "map_option (remove1 w) (A g) = Some zs"
    then obtain ys where ys: "A g = Some ys" "zs = remove1 w ys" by auto
    show "w \<notin> insert g (set zs)"
    proof (cases "g = h")
      case True
      then show ?thesis using ys h dist[OF h(1)] by auto
    next
      case False
      then show ?thesis using other[OF ys(1)] ys(2) by (simp add: remove1_idem)
    qed
  qed
qed

lemma family_strip: "(\<lambda>g. map_option (remove1 w) (family L s G C D g)) = family L s (remove1 w G) (strip w C) (strip w D)"
  by (intro ext) (simp add: family_def strip_def)

lemma family_find:
  assumes "queues_ok L s G C D" "w \<in> set G \<union> all_finished L s C D"
  obtains h xs where "family L s G C D h = Some xs" "w \<in> set xs"
proof -
  note d = queues_okD[OF assms(1)]
  show thesis
  proof (cases "w \<in> set G")
    case True
    then have "once_done s" using d(8) by auto
    then show ?thesis using that[OF family_at(1)[OF assms(1)]] True by blast
  next
    case False
    then obtain l where l: "l \<in> L" "w \<in> finished s C D l" using assms(2) by (auto simp: all_finished_def)
    show ?thesis
    proof (cases "w \<in> set (C l)")
      case True
      then show ?thesis using that[OF family_at(2)[OF assms(1) l(1)]] by simp
    next
      case False
      then obtain n where n: "in_done s l = Some n" "w \<in> set (D n)" using l(2) by (auto simp: finished_def split: option.splits)
      then have "n \<in> locals L s" using l(1) by (auto simp: locals_def)
      then show ?thesis using that[OF family_at(3)[OF assms(1)]] n(2) by blast
    qed
  qed
qed

lemma queues_strip:
  assumes "queues_ok L s G C D" "w \<in> set G \<union> all_finished L s C D"
  shows "represents (QUEUE_REMOVE w (qs s)) (family L s (remove1 w G) (strip w C) (strip w D))"
    "unused (family L s (remove1 w G) (strip w C) (strip w D)) w"
    "set (remove1 w G) = set G - {w}" "all_finished L s (strip w C) (strip w D) = all_finished L s C D - {w}"
    "l \<in> L \<Longrightarrow> finished s (strip w C) (strip w D) l = finished s C D l - {w}"
proof -
  obtain h xs where h: "family L s G C D h = Some xs" "w \<in> set xs" by (rule family_find[OF assms])
  show "represents (QUEUE_REMOVE w (qs s)) (family L s (remove1 w G) (strip w C) (strip w D))"
    "unused (family L s (remove1 w G) (strip w C) (strip w D)) w"
    using represents_strip[OF queues_okD(1)[OF assms(1)] h] by (simp_all add: family_strip)
  show "set (remove1 w G) = set G - {w}"
    using queues_disjoint(9)[OF assms(1)] queues_okD(8)[OF assms(1)] by (cases "once_done s") auto
  have f: "finished s (strip w C) (strip w D) l = finished s C D l - {w}" if "l \<in> L" for l
  proof -
    have "distinct (C l)" using queues_disjoint(10)[OF assms(1) that] by simp
    moreover have "distinct (D n)" if "in_done s l = Some n" for n
      using queues_disjoint(11)[OF assms(1), of n] that \<open>l \<in> L\<close> by (auto simp: locals_def)
    ultimately show ?thesis by (auto simp: finished_def strip_def set_remove1_eq split: option.splits)
  qed
  then show "all_finished L s (strip w C) (strip w D) = all_finished L s C D - {w}" by (auto simp: all_finished_def)
  show "l \<in> L \<Longrightarrow> finished s (strip w C) (strip w D) l = finished s C D l - {w}" by (rule f)
qed

text \<open>Putting a request that is in no queue into the queue of a loop.\<close>

definition add_to :: "ptr \<Rightarrow> ptr \<Rightarrow> (ptr \<Rightarrow> ptr list) \<Rightarrow> ptr \<Rightarrow> ptr list" where
  "add_to l w C = C(l := C l @ [w])"

lemma queues_complete:
  assumes "represents q (family L s G C D)" "unused (family L s G C D) w" "l \<in> L" "wq \<notin> L"
  shows "represents (QUEUE_INSERT_TAIL l w q) (family L s G (add_to l w C) D)"
proof -
  have "qspec (family L s G C D) (OpInsertTail l w) ((family L s G C D)(l \<mapsto> C l @ [w]))"
    using assms(3,4) by (intro spec_tail assms(2)) (auto simp: family_def)
  from qspec_step[OF assms(1) this]
  have "represents (QUEUE_INSERT_TAIL l w q) ((family L s G C D)(l \<mapsto> C l @ [w]))" by simp
  moreover have "(family L s G C D)(l \<mapsto> C l @ [w]) = family L s G (add_to l w C) D"
    using assms(3,4) by (intro ext) (auto simp: family_def add_to_def)
  ultimately show ?thesis by simp
qed

lemma finished_add_to:
  "finished s (add_to l w C) D l' = (if l' = l then insert w (finished s C D l) else finished s C D l')"
  "l \<in> L \<Longrightarrow> all_finished L s (add_to l w C) D = insert w (all_finished L s C D)"
  by (auto simp: finished_def all_finished_def add_to_def split: if_splits)

lemma running_not_queued:
  assumes "queues_ok L s G C D" "w \<in> running s"
  shows "w \<notin> set G" "w \<notin> all_finished L s C D" "w \<notin> heads L s"
  using queues_disjoint(6-8)[OF assms(1,2)] queues_okD(6,8)[OF assms(1)] assms(2)
  by (auto simp: all_finished_def finished_def locals_def running_def split: option.splits)

lemma unlink_running:
  assumes "queues_ok L s G C D" "w \<in> running s" "in_done s' = in_done s" "once_done s' = once_done s" "running s' = running s - {w}"
  shows "represents (qs s) (family L s' G C D)" "unused (family L s' G C D) w"
proof -
  note n = running_not_queued[OF assms(1,2)]
  have "(family L s G C D)(w := None) = family L s' G C D"
    using n(3) assms(5) by (intro ext) (auto simp: family_def same_heads(2)[OF assms(3)] assms(4) heads_locals)
  then show "represents (qs s) (family L s' G C D)" using represents_drop[OF queues_okD(1)[OF assms(1)], of w] by simp
  show "unused (family L s' G C D) w"
    using n assms(5) same_heads[OF assms(3)] by (intro queues_unused) auto
qed

section \<open>Threads that wait\<close>

abbreviation idle :: "wstate \<Rightarrow> bool" where
  "idle x \<equiv> x = Waiting \<or> x = Woken"

lemma idle_update:
  "i < length xs \<Longrightarrow> length (filter idle (xs[i := x])) + of_bool (idle (xs ! i)) = length (filter idle xs) + of_bool (idle x)"
proof (induction xs arbitrary: i)
  case (Cons y xs)
  then show ?case by (cases i) auto
qed simp

lemma idle_bound: "length (filter idle xs) \<le> length xs"
  by simp

lemma wakes_okD:
  assumes "wakes_ok s G"
  shows "Exited \<notin> set (workers s)" "length (workers s) \<le> 128" "once_done s \<Longrightarrow> workers s \<noteq> []"
    "unat (idle_threads s) = length (filter idle (workers s))" "G \<noteq> [] \<Longrightarrow> \<exists>x \<in> set (workers s). x \<noteq> Waiting"
  using assms unfolding wakes_ok_def by blast+

lemma wakes_post:
  assumes "wakes_ok s G" "once_done s" "signal_ok k s"
  shows "wakes_ok (post k w s) (G @ [w])"
proof -
  note d = wakes_okD[OF assms(1)]
  have ne: "workers s \<noteq> []" using d(3) assms(2) by blast
  show ?thesis
  proof (cases "0 < idle_threads s \<and> k < length (workers s) \<and> workers s ! k = Waiting")
    case True
    then have ws: "workers (post k w s) = (workers s)[k := Woken]" by (simp add: uv_cond_signal_def)
    have "Woken \<in> set ((workers s)[k := Woken])" using True by (simp add: set_update_memI)
    moreover have "Exited \<notin> set ((workers s)[k := Woken])" using d(1) set_update_subset_insert[of "workers s" k Woken] by auto
    moreover have "length (filter idle ((workers s)[k := Woken])) = length (filter idle (workers s))"
      using idle_update[of k "workers s" Woken] True by simp
    ultimately show ?thesis unfolding wakes_ok_def ws using d(2,4) ne by auto
  next
    case False
    then have ws: "workers (post k w s) = workers s" by (auto simp: uv_cond_signal_def)
    have "\<exists>x \<in> set (workers s). x \<noteq> Waiting"
    proof (cases "0 < idle_threads s")
      case True
      then have "Waiting \<notin> set (workers s)" using False assms(3) by (auto simp: signal_ok_def)
      then show ?thesis using ne by (cases "workers s") auto
    next
      case z: False
      then have "filter idle (workers s) = []" using d(4) by (simp add: word_less_nat_alt)
      then have "Waiting \<notin> set (workers s)" by (auto simp: filter_empty_conv)
      then show ?thesis using ne by (cases "workers s") auto
    qed
    then show ?thesis unfolding wakes_ok_def ws using d ne by simp
  qed
qed

lemma wakes_update:
  assumes "wakes_ok s G" "i < length (workers s)" "workers s' = (workers s)[i := x]" "once_done s' = once_done s" "x \<noteq> Exited"
    and "unat (idle_threads s') + of_bool (idle (workers s ! i)) = unat (idle_threads s) + of_bool (idle x)"
    and "G' = [] \<or> x \<noteq> Waiting"
  shows "wakes_ok s' G'"
proof -
  note d = wakes_okD[OF assms(1)]
  have "Exited \<notin> set ((workers s)[i := x])" using d(1) assms(5) set_update_subset_insert[of "workers s" i x] by auto
  moreover have "x \<in> set ((workers s)[i := x])" using assms(2) by (rule set_update_memI)
  moreover have "unat (idle_threads s') = length (filter idle ((workers s)[i := x]))"
    using idle_update[OF assms(2), of x] d(4) assms(6) by linarith
  ultimately show ?thesis unfolding wakes_ok_def assms(3,4) using d(2,3) assms(2,7) by auto
qed

lemma idle_step:
  assumes "wakes_ok s G" "i < length (workers s)"
  shows "\<not> idle (workers s ! i) \<Longrightarrow> unat (idle_threads s + 1) = unat (idle_threads s) + 1"
    "idle (workers s ! i) \<Longrightarrow> unat (idle_threads s - 1) + 1 = unat (idle_threads s)"
proof -
  note d = wakes_okD[OF assms(1)]
  have "unat (idle_threads s) \<le> 128" using d(2,4) idle_bound[of "workers s"] by linarith
  then show "\<not> idle (workers s ! i) \<Longrightarrow> unat (idle_threads s + 1) = unat (idle_threads s) + 1" by (simp add: unat_word_ariths)
  assume "idle (workers s ! i)"
  then have "workers s ! i \<in> set (filter idle (workers s))" using assms(2) by simp
  then have "0 < length (filter idle (workers s))" by (metis length_pos_if_in_set)
  then have ne: "0 < unat (idle_threads s)" using d(4) by simp
  then have "idle_threads s \<noteq> 0" by auto
  from ne unat_minus_one[OF this] show "unat (idle_threads s - 1) + 1 = unat (idle_threads s)" by linarith
qed

section \<open>Steps of the workers\<close>

lemma works_same:
  assumes "works_ok L s G C D" "mem_w s' = mem_w s" "mem_r s' = mem_r s" "in_done s' = in_done s"
    and "set G' \<union> running s' = set G \<union> running s"
  shows "works_ok L s' G' C D"
  using assms by (simp add: works_ok_def runnable_def completed_def same_heads(3)[OF assms(4)])

lemma counts_same:
  assumes "counts_ok L s G C D" "mem_w s' = mem_w s" "in_done s' = in_done s" "submits s' = submits s" "ran s' = ran s" "calls s' = calls s"
    and "set G' \<union> running s' = set G \<union> running s"
  shows "counts_ok L s' G' C D"
  using assms by (simp add: counts_ok_def same_heads(4)[OF assms(3)])

lemma pool_invI:
  "queues_ok L s G C D \<Longrightarrow> works_ok L s G C D \<Longrightarrow> counts_ok L s G C D \<Longrightarrow> wakes_ok s G \<Longrightarrow> asyncs_ok L s C \<Longrightarrow> pool_inv L s"
  by (auto simp: pool_inv_def)

lemma inv_locked:
  assumes "pool_inv L s" "i < length (workers s)" "workers s ! i = AtTop \<or> workers s ! i = Woken"
    and s0: "s0 = (if workers s ! i = Woken then s\<lparr>idle_threads := idle_threads s - 1\<rparr> else s)"
  shows "pool_inv L (worker_locked i k s0)"
proof -
  obtain G C D where inv: "queues_ok L s G C D" "works_ok L s G C D" "counts_ok L s G C D" "wakes_ok s G" "asyncs_ok L s C"
    using assms(1) by (auto simp: pool_inv_def)
  note d = queues_okD[OF inv(1)]
  have o: "once_done s" using d(8) assms(2) by auto
  have f0: "qs s0 = qs s" "in_done s0 = in_done s" "once_done s0 = once_done s" "mem_w s0 = mem_w s" "mem_r s0 = mem_r s"
      "submits s0 = submits s" "ran s0 = ran s" "calls s0 = calls s" "wq_async s0 = wq_async s" "workers s0 = workers s"
    by (simp_all add: s0)
  have r0: "running s0 = running s" "one_each s0" using d(7) by (simp_all add: running_def one_each_def f0)
  have q0: "queues_ok L s0 G C D" by (rule queues_same[OF inv(1) f0(1-3) r0]) (simp add: o)
  have e: "QUEUE_EMPTY wq (qs s0) \<longleftrightarrow> G = []"
    using qring_empty_iff[OF representsD(1)[OF d(1) family_at(1)[OF inv(1) o]]] by (simp add: f0)
  note step = idle_step[OF inv(4) assms(2)]
  show ?thesis
  proof (cases G)
    case Nil
    let ?s = "set_worker i Waiting (s0\<lparr>idle_threads := idle_threads s0 + 1\<rparr>)"
    have w: "worker_locked i k s0 = ?s" using e Nil by (simp add: worker_locked_def)
    have r: "running ?s = running s"
      by (subst running_set_worker) (use assms(2,3) r0 f0 in \<open>auto simp: running_def one_each_def\<close>)
    have one: "one_each ?s" by (rule one_each_set_worker) (use r0 in \<open>auto simp: one_each_def\<close>)
    have idle: "unat (idle_threads ?s) + of_bool (idle (workers s ! i)) = unat (idle_threads s) + 1"
      using assms(3) step by (auto simp: s0)
    show ?thesis
      unfolding w
    proof (rule pool_invI)
      show "queues_ok L ?s G C D" by (rule queues_same[OF inv(1)]) (use r one o f0 in simp_all)
      show "works_ok L ?s G C D" by (rule works_same[OF inv(2)]) (use r f0 in simp_all)
      show "counts_ok L ?s G C D" by (rule counts_same[OF inv(3)]) (use r f0 in simp_all)
      show "wakes_ok ?s G" by (rule wakes_update[OF inv(4) assms(2), where x = Waiting]) (use idle Nil f0 in simp_all)
      show "asyncs_ok L ?s C" using inv(5) by (simp add: asyncs_ok_def f0)
    qed
  next
    case (Cons q G')
    let ?s = "take_work i k s0"
    have w: "worker_locked i k s0 = ?s" using e Cons by (simp add: worker_locked_def)
    have nr: "workers s0 ! i \<noteq> Running w" for w using assms(3) by (auto simp: f0)
    have o0: "once_done s0" "i < length (workers s0)" using o assms(2) by (simp_all add: f0)
    have t: "queues_ok L ?s G' C D" "running ?s = insert q (running s)" "workers ?s = (workers s)[i := Running q]"
      using take_queues(1-3)[OF q0[unfolded Cons] o0 nr, of k] r0(1) by (simp_all add: f0)
    have idle: "unat (idle_threads ?s) + of_bool (idle (workers s ! i)) = unat (idle_threads s)"
      using assms(3) step by (auto simp: s0)
    show ?thesis
      unfolding w
    proof (rule pool_invI[OF t(1)])
      show "works_ok L ?s G' C D" by (rule works_same[OF inv(2)]) (use t(2) f0 Cons in auto)
      show "counts_ok L ?s G' C D" by (rule counts_same[OF inv(3)]) (use t(2) f0 Cons in auto)
      show "wakes_ok ?s G'" by (rule wakes_update[OF inv(4) assms(2) t(3)]) (use idle f0 in simp_all)
      show "asyncs_ok L ?s C" using inv(5) by (simp add: asyncs_ok_def f0)
    qed
  qed
qed

lemma call_work_sel:
  "call_work w s = Some s1 \<Longrightarrow> s1 = s\<lparr>ran := ran s @ [w]\<rparr>"
  by (auto simp: call_work_def uv__queue_work_def split: option.splits wfun.splits if_splits)

lemma runnable_called: "runnable L s w \<Longrightarrow> call_work w s = Some (s\<lparr>ran := ran s @ [w]\<rparr>)"
  by (auto simp: runnable_def call_work_def uv__queue_work_def)

lemma running_logs [simp]:
  "running (s\<lparr>ran := r\<rparr>) = running s" "running (upd_w w f s) = running s" "running (uv_async_send l s) = running s"
  "running (s\<lparr>submits := x\<rparr>) = running s" "running (s\<lparr>calls := y\<rparr>) = running s" "running (s\<lparr>mem_r := z\<rparr>) = running s"
  "running (s\<lparr>cores := cc\<rparr>) = running s" "running (s\<lparr>in_done := dd\<rparr>) = running s"
  by (simp_all add: running_def upd_w_def uv_async_send_def)

lemma counts_okD:
  assumes "counts_ok L s G C D"
  shows "count_list (submits s) w = count_list (map fst (calls s)) w + of_bool (w \<in> set G \<union> running s \<union> all_finished L s C D)"
    "count_list (ran s) w = count_list (calls s) (w, OK) + of_bool (w \<in> all_finished L s C D \<and> w_work (mem_w s w) = None)"
    "in_use w s \<longleftrightarrow> w \<in> set G \<union> running s \<union> all_finished L s C D"
  using assms unfolding counts_ok_def in_use_def by (auto split: if_splits)

lemma inv_finish:
  assumes "pool_inv L s" "i < length (workers s)" "workers s ! i = Running w" "worker_finish i w s = Some s'"
  shows "pool_inv L s'"
proof -
  obtain G C D where inv: "queues_ok L s G C D" "works_ok L s G C D" "counts_ok L s G C D" "wakes_ok s G" "asyncs_ok L s C"
    using assms(1) by (auto simp: pool_inv_def)
  note d = queues_okD[OF inv(1)]
  let ?l = "w_loop (mem_w s w)"
  have wr: "w \<in> running s" using assms(2,3) by (auto simp: running_nth)
  have rn: "runnable L s w" using inv(2) wr by (simp add: works_ok_def)
  then have l: "?l \<in> L" "rloop (mem_r s w) = ?l" "rtype (mem_r s w) \<noteq> Other_req" by (simp_all add: runnable_def)
  have s': "s' = set_worker i AtTop (uv_async_send ?l ((upd_w w (\<lambda>x. x\<lparr>w_work := None\<rparr>) (s\<lparr>ran := ran s @ [w]\<rparr>))
      \<lparr>qs := QUEUE_INSERT_TAIL ?l w (qs s)\<rparr>))"
    using assms(4) runnable_called[OF rn] by (auto simp: worker_finish_def upd_w_def Let_def)
  have f: "qs s' = QUEUE_INSERT_TAIL ?l w (qs s)" "mem_w s' = (mem_w s)(w := (mem_w s w)\<lparr>w_work := None\<rparr>)" "mem_r s' = mem_r s"
      "in_done s' = in_done s" "once_done s' = once_done s" "submits s' = submits s" "ran s' = ran s @ [w]" "calls s' = calls s"
      "wq_async s' = (wq_async s)(?l := True)" "workers s' = (workers s)[i := AtTop]" "idle_threads s' = idle_threads s"
    by (simp_all add: s' uv_async_send_def upd_w_def)
  have one: "one_each s'" unfolding s'
    by (rule one_each_set_worker) (use d(7) in \<open>auto simp: one_each_def uv_async_send_def upd_w_def\<close>)
  have r: "running s' = running s - {w}" unfolding s'
    by (subst running_set_worker) (use assms(2,3) d(7) in \<open>auto simp: one_each_def uv_async_send_def upd_w_def running_def\<close>)
  note u = unlink_running[OF inv(1) wr f(4,5) r] and n = running_not_queued[OF inv(1) wr]
  have fin: "finished s' (add_to ?l w C) D l' = (if l' = ?l then insert w (finished s C D ?l) else finished s C D l')" for l'
    using finished_add_to(1)[of s'] same_heads(3)[OF f(4)] by simp
  have all: "all_finished L s' (add_to ?l w C) D = insert w (all_finished L s C D)"
    using finished_add_to(2)[OF l(1), of s'] same_heads(4)[OF f(4)] by simp
  have "queues_ok L s' G (add_to ?l w C) D"
  proof (rule queues_okI[OF inv(1)])
    show "represents (qs s') (family L s' G (add_to ?l w C) D)"
      unfolding f(1) by (rule queues_complete[OF u l(1) d(2)])
  qed (use d one r f same_heads(1,2)[OF f(4)] in auto)
  moreover have "works_ok L s' G (add_to ?l w C) D"
    unfolding works_ok_def fin
  proof (intro conjI ballI)
    fix v assume "v \<in> set G \<union> running s'"
    then have "v \<noteq> w" "runnable L s v" using n r inv(2) by (auto simp: works_ok_def)
    then show "runnable L s' v" by (simp add: runnable_def f)
  next
    fix l' v assume v: "l' \<in> L" "v \<in> (if l' = ?l then insert w (finished s C D ?l) else finished s C D l')"
    show "completed l' s' v"
    proof (cases "v = w")
      case True
      have "w \<notin> finished s C D l'" using n(2) v(1) by (auto simp: all_finished_def)
      then have "l' = ?l" using v(2) True by (auto split: if_splits)
      then show ?thesis using True l f n(3) by (simp add: completed_def heads_locals)
    next
      case False
      then have "completed l' s v" using v inv(2) by (auto simp: works_ok_def split: if_splits)
      then show ?thesis using False by (simp add: completed_def f)
    qed
  qed
  moreover have "counts_ok L s' G (add_to ?l w C) D"
    using counts_okD(1,2)[OF inv(3)] n wr unfolding counts_ok_def all r f by auto
  moreover have "wakes_ok s' G" by (rule wakes_update[OF inv(4) assms(2) f(10,5)]) (use assms(3) f in simp_all)
  moreover have "asyncs_ok L s' (add_to ?l w C)" using inv(5) by (auto simp: asyncs_ok_def f add_to_def)
  ultimately show ?thesis by (rule pool_invI)
qed

section \<open>Steps of the loops\<close>

lemma inv_once:
  assumes "pool_inv L s" "signal_ok k s"
  shows "pool_inv L (uv_once val ok s)" "signal_ok k (uv_once val ok s)" "once_done (uv_once val ok s)"
    "in_done (uv_once val ok s) = in_done s" "mem_w (uv_once val ok s) = mem_w s" "mem_r (uv_once val ok s) = mem_r s"
    "submits (uv_once val ok s) = submits s" "calls (uv_once val ok s) = calls s"
proof -
  let ?s = "uv_once val ok s"
  show "once_done ?s" "in_done ?s = in_done s" "mem_w ?s = mem_w s" "mem_r ?s = mem_r s" "submits ?s = submits s" "calls ?s = calls s"
    by (simp_all add: uv_once_def init_once_def Let_def)
  show "signal_ok k ?s" using assms(2) by (auto simp: uv_once_def init_once_def Let_def signal_ok_def)
  obtain G C D where inv: "queues_ok L s G C D" "works_ok L s G C D" "counts_ok L s G C D" "wakes_ok s G" "asyncs_ok L s C"
    using assms(1) by (auto simp: pool_inv_def)
  note d = queues_okD[OF inv(1)]
  show "pool_inv L ?s"
  proof (cases "once_done s")
    case True
    then show ?thesis using assms(1) by (simp add: uv_once_def)
  next
    case False
    then have e: "workers s = []" "G = []" using d(8) by auto
    then have r0: "running s = {}" by (simp add: running_def)
    let ?n = "unat (pool_size val ok)"
    have n: "1 \<le> ?n" "?n \<le> 128"
      by (auto simp: pool_size_def Let_def MAX_THREADPOOL_SIZE_def word_less_nat_alt word_le_nat_alt unat_gt_0 not_less Suc_le_eq split: option.split)
    have f: "qs ?s = QUEUE_INIT wq (qs s)" "workers ?s = replicate ?n AtTop" "idle_threads ?s = idle_threads s" "in_done ?s = in_done s"
        "mem_w ?s = mem_w s" "mem_r ?s = mem_r s" "submits ?s = submits s" "ran ?s = ran s" "calls ?s = calls s"
        "wq_async ?s = wq_async s" "once_done ?s"
      using False by (simp_all add: uv_once_def init_once_def Let_def)
    have r: "running ?s = {}" by (simp add: running_def f)
    have "unused (family L s G C D) wq"
    proof -
      have "wq \<notin> insert h (set xs)" if h: "family L s G C D h = Some xs" for h xs
      proof -
        have "h \<noteq> wq" using h False by (auto simp: family_def)
        moreover have "wq \<notin> set xs"
        proof
          assume "wq \<in> set xs"
          then have "wq \<in> all_finished L s C D" using family_members(2)[OF h] e(2) by auto
          then obtain l where "l \<in> L" "wq \<in> finished s C D l" by (auto simp: all_finished_def)
          then show False using inv(2) by (auto simp: works_ok_def completed_def)
        qed
        ultimately show ?thesis by simp
      qed
      then show ?thesis by (simp add: unused_def)
    qed
    from qspec_step[OF d(1) spec_init[OF this]]
    have "represents (QUEUE_INIT wq (qs s)) ((family L s G C D)(wq \<mapsto> []))" by simp
    moreover have "(family L s G C D)(wq \<mapsto> []) = family L ?s [] C D"
      by (intro ext) (auto simp: family_def f r r0 same_heads(2)[OF f(4)])
    ultimately have rep: "represents (qs ?s) (family L ?s [] C D)" by (simp add: f)
    show ?thesis
    proof (rule pool_invI)
      show "queues_ok L ?s [] C D"
        by (rule queues_okI[OF inv(1) rep]) (use d f r same_heads(1,2)[OF f(4)] in \<open>auto simp: one_each_def\<close>)
      show "works_ok L ?s [] C D" by (rule works_same[OF inv(2)]) (use f r r0 e in simp_all)
      show "counts_ok L ?s [] C D" by (rule counts_same[OF inv(3)]) (use f r r0 e in simp_all)
      show "wakes_ok ?s []" using inv(4) n e by (simp add: wakes_ok_def f)
      show "asyncs_ok L ?s C" using inv(5) by (simp add: asyncs_ok_def f)
    qed
  qed
qed

lemma inv_submit:
  assumes "pool_inv L s" "signal_ok k s" "l \<in> L" "\<not> in_use w s" "w \<notin> heads L s"
    and "rloop (mem_r s w) = l" "rtype (mem_r s w) \<noteq> Other_req" "f = Queue_work \<and> work_cb (mem_r s w) \<noteq> None \<or> (\<exists>x. f = Other_work x)"
  shows "pool_inv L (uv__work_submit val ok k l w f dn s)"
proof -
  let ?s1 = "uv_once val ok s"
  note once = inv_once[OF assms(1,2), of val ok]
  obtain G C D where inv: "queues_ok L ?s1 G C D" "works_ok L ?s1 G C D" "counts_ok L ?s1 G C D" "wakes_ok ?s1 G" "asyncs_ok L ?s1 C"
    using once(1) by (auto simp: pool_inv_def)
  have iu: "\<not> in_use w ?s1" using assms(4) once(7,8) by (simp add: in_use_def)
  have w: "w \<notin> set G \<union> running ?s1 \<union> all_finished L ?s1 C D" using iu counts_okD(3)[OF inv(3)] by blast
  have wh: "w \<notin> heads L ?s1" using assms(5) same_heads(1)[OF once(4)] by simp
  let ?s3 = "(upd_w w (\<lambda>_. \<lparr>w_loop = l, w_work = Some f, w_done = dn\<rparr>) ?s1)\<lparr>submits := submits ?s1 @ [w]\<rparr>"
  have s': "uv__work_submit val ok k l w f dn s = post k w ?s3" by (simp add: uv__work_submit_def Let_def upd_w_def)
  have f3: "qs ?s3 = qs ?s1" "in_done ?s3 = in_done ?s1" "once_done ?s3 = once_done ?s1" "workers ?s3 = workers ?s1"
      "idle_threads ?s3 = idle_threads ?s1" "mem_r ?s3 = mem_r ?s1" "ran ?s3 = ran ?s1" "calls ?s3 = calls ?s1" "wq_async ?s3 = wq_async ?s1"
      "mem_w ?s3 = (mem_w ?s1)(w := \<lparr>w_loop = l, w_work = Some f, w_done = dn\<rparr>)" "submits ?s3 = submits ?s1 @ [w]"
    by (simp_all add: upd_w_def)
  have r3: "running ?s3 = running ?s1" by simp
  have one3: "one_each ?s3" using queues_okD(7)[OF inv(1)] by (simp add: one_each_def f3(4))
  have q3: "queues_ok L ?s3 G C D"
    by (rule queues_same[OF inv(1) f3(1-3) r3 one3]) (simp add: once(3))
  have w3: "w \<notin> heads L ?s3" "w \<notin> set G \<union> running ?s3 \<union> all_finished L ?s3 C D"
    using w wh r3 same_heads(1,4)[OF f3(2)] by simp_all
  show ?thesis
    unfolding s'
  proof (rule pool_invI)
    let ?s = "post k w ?s3"
    have ff: "finished ?s C D x = finished ?s1 C D x" "all_finished L ?s C D = all_finished L ?s1 C D" for x
      using same_heads(3,4)[of ?s ?s1] by (simp_all add: f3)
    show "queues_ok L ?s (G @ [w]) C D" by (rule post_queues[OF q3 _ w3]) (simp add: f3 once(3))
    show "works_ok L ?s (G @ [w]) C D"
      unfolding works_ok_def ff
    proof (intro conjI ballI)
      fix v assume "v \<in> set (G @ [w]) \<union> running ?s"
      then have "v = w \<or> v \<noteq> w \<and> runnable L ?s1 v" using inv(2) by (auto simp: works_ok_def)
      then show "runnable L ?s v" using assms(3,6-8) once(6) by (auto simp: runnable_def f3)
    next
      fix l' v assume v: "l' \<in> L" "v \<in> finished ?s1 C D l'"
      then have "v \<noteq> w" using w by (auto simp: all_finished_def)
      then show "completed l' ?s v" using v inv(2) by (simp add: works_ok_def completed_def f3)
    qed
    show "counts_ok L ?s (G @ [w]) C D"
      using counts_okD(1,2)[OF inv(3)] w unfolding counts_ok_def ff by (auto simp: f3)
    have "wakes_ok ?s3 G" using inv(4) by (simp add: wakes_ok_def f3)
    moreover have "signal_ok k ?s3" using once(2) by (simp add: signal_ok_def f3)
    ultimately show "wakes_ok ?s (G @ [w])" by (intro wakes_post) (simp_all add: f3 once(3))
    show "asyncs_ok L ?s C" using inv(5) by (simp add: asyncs_ok_def f3)
  qed
qed

lemma pool_inv_mem_r:
  assumes "pool_inv L s" "\<not> in_use w s"
  shows "pool_inv L (s\<lparr>cores := c, mem_r := (mem_r s)(w := x)\<rparr>)"
proof -
  obtain G C D where inv: "queues_ok L s G C D" "works_ok L s G C D" "counts_ok L s G C D" "wakes_ok s G" "asyncs_ok L s C"
    using assms(1) by (auto simp: pool_inv_def)
  have w: "w \<notin> set G \<union> running s \<union> all_finished L s C D" using assms(2) counts_okD(3)[OF inv(3)] by blast
  let ?s = "s\<lparr>cores := c, mem_r := (mem_r s)(w := x)\<rparr>"
  have r: "running ?s = running s" by (simp add: running_def)
  have ff: "finished ?s C D y = finished s C D y" "all_finished L ?s C D = all_finished L s C D" for y
    using same_heads(3,4)[of ?s s] by simp_all
  show ?thesis
  proof (rule pool_invI)
    show "queues_ok L ?s G C D"
      by (rule queues_same[OF inv(1)]) (use queues_okD(7,8)[OF inv(1)] r in \<open>auto simp: one_each_def\<close>)
    show "works_ok L ?s G C D"
      unfolding works_ok_def ff r
    proof (intro conjI ballI)
      fix v assume "v \<in> set G \<union> running s"
      then have "v \<noteq> w" "runnable L s v" using w inv(2) by (auto simp: works_ok_def)
      then show "runnable L ?s v" by (simp add: runnable_def)
    next
      fix l v assume v: "l \<in> L" "v \<in> finished s C D l"
      then have "v \<noteq> w" using w by (auto simp: all_finished_def)
      then show "completed l ?s v" using v inv(2) by (simp add: works_ok_def completed_def)
    qed
    show "counts_ok L ?s G C D" using inv(3) unfolding counts_ok_def ff r by simp
  qed (use inv(4,5) in \<open>simp_all add: wakes_ok_def asyncs_ok_def\<close>)
qed

lemma member_not_empty:
  assumes "represents q A" "A h = Some xs" "w \<in> set xs"
  shows "\<not> QUEUE_EMPTY w q"
proof -
  have r: "qring q h xs" by (rule representsD(1)[OF assms(1,2)])
  obtain ys zs where xs: "xs = ys @ w # zs" using assms(3) by (auto dest: split_list)
  have "qseg q w zs h" "w \<noteq> h" "w \<notin> set zs" using r by (auto simp: xs qring_def)
  then show ?thesis by (cases zs) (auto simp: QUEUE_EMPTY_def)
qed

lemma inv_cancel:
  assumes "pool_inv L s" "in_use w s" "uv_cancel w s = (r, s')"
  shows "pool_inv L s'"
proof -
  obtain G C D where inv: "queues_ok L s G C D" "works_ok L s G C D" "counts_ok L s G C D" "wakes_ok s G" "asyncs_ok L s C"
    using assms(1) by (auto simp: pool_inv_def)
  note d = queues_okD[OF inv(1)]
  show ?thesis
  proof (cases "s' = s")
    case True
    then show ?thesis using assms(1) by simp
  next
    case False
    then have c: "\<not> QUEUE_EMPTY w (qs s)" "w_work (mem_w s w) \<noteq> None"
      using assms(3) by (auto simp: uv_cancel_def uv__work_cancel_def Let_def split: if_splits)
    let ?l = "rloop (mem_r s w)"
    have "w \<notin> running s"
      using c(1) qring_empty_iff[OF representsD(1)[OF d(1) family_at(4)[OF inv(1)]]] by blast
    then have w: "w \<in> set G \<union> all_finished L s C D" using assms(2) counts_okD(3)[OF inv(3)] by blast
    have l: "?l \<in> L" "w_loop (mem_w s w) = ?l" "rtype (mem_r s w) \<noteq> Other_req"
      using w inv(2) by (auto simp: works_ok_def all_finished_def runnable_def completed_def)
    note st = queues_strip[OF inv(1) w]
    let ?G = "remove1 w G" and ?C = "add_to ?l w (strip w C)" and ?D = "strip w D"
    have s': "s' = uv_async_send ?l ((upd_w w (\<lambda>x. x\<lparr>w_work := Some Cancelled\<rparr>) s)\<lparr>qs := QUEUE_INSERT_TAIL ?l w (QUEUE_REMOVE w (qs s))\<rparr>)"
      using assms(3) c l(3) by (auto simp: uv_cancel_def uv__work_cancel_def Let_def upd_w_def)
    have f: "qs s' = QUEUE_INSERT_TAIL ?l w (QUEUE_REMOVE w (qs s))" "mem_w s' = (mem_w s)(w := (mem_w s w)\<lparr>w_work := Some Cancelled\<rparr>)"
        "mem_r s' = mem_r s" "in_done s' = in_done s" "once_done s' = once_done s" "submits s' = submits s" "ran s' = ran s"
        "calls s' = calls s" "wq_async s' = (wq_async s)(?l := True)" "workers s' = workers s" "idle_threads s' = idle_threads s"
      by (simp_all add: s' uv_async_send_def upd_w_def)
    have r: "running s' = running s" by (simp add: running_def f)
    have fam: "family L s' = family L s"
      by (intro ext) (simp add: family_def f(5) r same_heads(2)[OF f(4)])
    have fin: "finished s' ?C ?D l' = (if l' = ?l then insert w (finished s (strip w C) ?D ?l) else finished s (strip w C) ?D l')" for l'
      using finished_add_to(1)[of s'] same_heads(3)[OF f(4)] by simp
    have all: "all_finished L s' ?C ?D = insert w (all_finished L s C D - {w})"
      using finished_add_to(2)[OF l(1), of s'] same_heads(4)[OF f(4)] st(4) by simp
    have nw: "w \<notin> {wq, exit_message}"
    proof (cases "w \<in> set G")
      case True
      then have "once_done s" using d(8) by auto
      then show ?thesis using True queues_disjoint(9)[OF inv(1)] d(9) by auto
    next
      case False
      then show ?thesis using w inv(2) by (auto simp: works_ok_def all_finished_def completed_def)
    qed
    show ?thesis
    proof (rule pool_invI)
      have "represents (qs s') (family L s' ?G ?C ?D)"
        unfolding f(1) fam by (rule queues_complete[OF st(1,2) l(1) d(2)])
      then show "queues_ok L s' ?G ?C ?D"
      proof (rule queues_okI[OF inv(1)])
        show "exit_message \<notin> set ?G" using d(9) st(3) by simp
        show "once_done s' \<or> workers s' = [] \<and> ?G = []" using d(8) by (auto simp: f)
        show "one_each s'" using d(7) by (simp add: one_each_def f)
      qed (use d r f same_heads(1,2)[OF f(4)] in auto)
      show "works_ok L s' ?G ?C ?D"
        unfolding works_ok_def fin
      proof (intro conjI ballI)
        fix v assume "v \<in> set ?G \<union> running s'"
        then have "v \<noteq> w" "runnable L s v" using st(3) r \<open>w \<notin> running s\<close> inv(2) by (auto simp: works_ok_def)
        then show "runnable L s' v" by (simp add: runnable_def f)
      next
        fix l' v assume v: "l' \<in> L" "v \<in> (if l' = ?l then insert w (finished s (strip w C) ?D ?l) else finished s (strip w C) ?D l')"
        show "completed l' s' v"
        proof (cases "v = w")
          case True
          then have "l' = ?l" using v st(5)[OF v(1)] by (auto split: if_splits)
          then show ?thesis using True l nw by (simp add: completed_def f)
        next
          case False
          then have "v \<in> finished s C D l'" using v st(5)[OF v(1)] by (auto split: if_splits)
          then have "completed l' s v" using v inv(2) by (auto simp: works_ok_def)
          then show ?thesis using False by (simp add: completed_def f)
        qed
      qed
      show "counts_ok L s' ?G ?C ?D"
      proof -
        have u: "set ?G \<union> running s' \<union> all_finished L s' ?C ?D = set G \<union> running s \<union> all_finished L s C D"
          using st(3) w r by (auto simp: all)
        have "w_work (mem_w s w) \<noteq> None" by (rule c(2))
        then show ?thesis using counts_okD(1,2)[OF inv(3)] unfolding counts_ok_def u by (auto simp: all f)
      qed
      show "wakes_ok s' ?G" using inv(4) by (auto simp: wakes_ok_def f)
      show "asyncs_ok L s' ?C" using inv(5) by (auto simp: asyncs_ok_def f add_to_def strip_def)
    qed
  qed
qed

end
