(* ===== verification/Uv_Threadpool_Props.thy ===== *)
theory Uv_Threadpool_Props
  imports Uv_Threadpool_Inv
begin

text \<open>
  The rest of the steps of the thread pool, and what it promises: every request is executed at most
  once or cancelled, completed once with the right status, and none is left behind.
\<close>

section \<open>Completing requests\<close>

lemma inv_wake_up:
  assumes "pool_inv L s" "i < length (workers s)" "workers s ! i = Waiting"
  shows "pool_inv L (set_worker i Woken s)"
proof -
  obtain G C D where inv: "queues_ok L s G C D" "works_ok L s G C D" "counts_ok L s G C D" "wakes_ok s G" "asyncs_ok L s C"
    using assms(1) by (auto simp: pool_inv_def)
  note d = queues_okD[OF inv(1)]
  let ?s = "set_worker i Woken s"
  have o: "once_done s" using d(8) assms(2) by auto
  have r: "running ?s = running s" by (subst running_set_worker) (use assms d(7) in auto)
  have one: "one_each ?s" by (rule one_each_set_worker[OF d(7)]) simp
  show ?thesis
  proof (rule pool_invI)
    show "queues_ok L ?s G C D" by (rule queues_same[OF inv(1)]) (use r one o in simp_all)
    show "works_ok L ?s G C D" by (rule works_same[OF inv(2)]) (use r in simp_all)
    show "counts_ok L ?s G C D" by (rule counts_same[OF inv(3)]) (use r in simp_all)
    show "wakes_ok ?s G" by (rule wakes_update[OF inv(4) assms(2), where x = Woken]) (use assms(3) in simp_all)
    show "asyncs_ok L ?s C" using inv(5) by (simp add: asyncs_ok_def)
  qed
qed

lemma inv_done_begin:
  assumes "pool_inv L s" "l \<in> L" "in_done s l = None" "n \<notin> heads L s" "\<not> in_use n s"
  shows "pool_inv L (uv__work_done_begin l n s)"
proof -
  obtain G C D where inv: "queues_ok L s G C D" "works_ok L s G C D" "counts_ok L s G C D" "wakes_ok s G" "asyncs_ok L s C"
    using assms(1) by (auto simp: pool_inv_def)
  note d = queues_okD[OF inv(1)]
  let ?s = "uv__work_done_begin l n s"
  have f: "qs ?s = QUEUE_MOVE l n (qs s)" "mem_w ?s = mem_w s" "mem_r ?s = mem_r s" "in_done ?s = (in_done s)(l := Some n)"
      "once_done ?s = once_done s" "submits ?s = submits s" "ran ?s = ran s" "calls ?s = calls s"
      "wq_async ?s = (wq_async s)(l := False)" "workers ?s = workers s" "idle_threads ?s = idle_threads s"
    by (simp_all add: uv__work_done_begin_def Let_def)
  have r: "running ?s = running s" by (simp add: running_def f)
  have n: "n \<notin> set G \<union> running s \<union> all_finished L s C D" using assms(5) counts_okD(3)[OF inv(3)] by blast
  have loc: "locals L ?s = insert n (locals L s)"
  proof (rule set_eqI)
    fix m
    have "in_done s x = Some m \<longrightarrow> x \<noteq> l" for x using assms(3) by auto
    then show "m \<in> locals L ?s \<longleftrightarrow> m \<in> insert n (locals L s)" using assms(2) by (auto simp: locals_def f)
  qed
  have hd: "heads L ?s = insert n (heads L s)" by (auto simp: heads_locals loc)
  let ?C = "C(l := [])" and ?D = "D(n := C l)"
  have nl: "n \<notin> locals L s" "n \<notin> L" "n \<noteq> wq" "n \<noteq> exit_message" using assms(4) by (auto simp: heads_locals)
  have fin: "finished ?s ?C ?D l' = finished s C D l'" if "l' \<in> L" for l'
  proof (cases "l' = l")
    case True
    then show ?thesis using assms(3) by (simp add: finished_def f)
  next
    case False
    have "in_done s l' \<noteq> Some n" using nl(1) that by (auto simp: locals_def)
    then show ?thesis using False by (auto simp: finished_def f split: option.splits)
  qed
  then have all: "all_finished L ?s ?C ?D = all_finished L s C D" by (simp add: all_finished_def)
  show ?thesis
  proof (rule pool_invI)
    have "qspec (family L s G C D) (OpMove l n) ((family L s G C D)(l \<mapsto> [], n \<mapsto> C l))"
      by (rule spec_move[of "family L s G C D", OF family_at(2)[OF inv(1) assms(2)] queues_unused[OF assms(4) n]])
    from qspec_step[OF d(1) this]
    have "represents (QUEUE_MOVE l n (qs s)) ((family L s G C D)(l \<mapsto> [], n \<mapsto> C l))" by simp
    moreover have "(family L s G C D)(l \<mapsto> [], n \<mapsto> C l) = family L ?s G ?C ?D"
      using nl assms(2) d(2) by (intro ext) (auto simp: family_def f(5) r loc)
    ultimately have "represents (qs ?s) (family L ?s G ?C ?D)" by (simp add: f)
    then show "queues_ok L ?s G ?C ?D"
    proof (rule queues_okI[OF inv(1)])
      fix l1 l2 m assume h: "l1 \<in> L" "l2 \<in> L" "in_done ?s l1 = Some m" "in_done ?s l2 = Some m"
      have "in_done s x \<noteq> Some n" if "x \<in> L" for x using nl(1) that by (auto simp: locals_def)
      then show "l1 = l2" using h d(4)[OF h(1,2)] by (auto simp: f split: if_splits)
    qed (use d n nl r f loc hd in \<open>auto simp: one_each_def\<close>)
    show "works_ok L ?s G ?C ?D" using inv(2) by (simp add: works_ok_def fin r runnable_def completed_def f)
    show "counts_ok L ?s G ?C ?D" using inv(3) by (simp add: counts_ok_def all r f)
    show "wakes_ok ?s G" using inv(4) by (simp add: wakes_ok_def f)
    show "asyncs_ok L ?s ?C" using inv(5) by (auto simp: asyncs_ok_def f)
  qed
qed

lemma queue_done_sel:
  assumes "uv__queue_done w e s = Some s'"
  shows "(\<exists>c. s' = s\<lparr>cores := c\<rparr>) \<or> (\<exists>c a. s' = s\<lparr>cores := c, after_calls := a\<rparr>)"
proof -
  obtain c where "s' = (if after_work_cb (mem_r s w) = None then s\<lparr>cores := (cores s)(rloop (mem_r s w) := c)\<rparr>
      else (s\<lparr>cores := (cores s)(rloop (mem_r s w) := c)\<rparr>)\<lparr>after_calls :=
        after_calls (s\<lparr>cores := (cores s)(rloop (mem_r s w) := c)\<rparr>) @ [(w, e)]\<rparr>)"
    using assms unfolding uv__queue_done_def Let_def map_option_eq_Some by blast
  then show ?thesis by (cases "after_work_cb (mem_r s w) = None") (simp_all only: if_True if_False refl, blast+)
qed

lemma call_done_sel:
  assumes "call_done w e s = Some s'"
  shows "qs s' = qs s" "idle_threads s' = idle_threads s" "once_done s' = once_done s" "workers s' = workers s" "mem_w s' = mem_w s"
    "mem_r s' = mem_r s" "wq_async s' = wq_async s" "in_done s' = in_done s" "submits s' = submits s" "ran s' = ran s"
    "calls s' = calls s @ [(w, e)]"
proof -
  let ?s1 = "s\<lparr>calls := calls s @ [(w, e)]\<rparr>"
  have "s' = ?s1 \<or> (\<exists>c. s' = ?s1\<lparr>cores := c\<rparr>) \<or> (\<exists>c a. s' = ?s1\<lparr>cores := c, after_calls := a\<rparr>)"
  proof (cases "w_done (mem_w ?s1 w)")
    case Queue_done
    then have "uv__queue_done w e ?s1 = Some s'" using assms unfolding call_done_def Let_def by (simp only: dfun.case)
    from queue_done_sel[OF this] show ?thesis by blast
  next
    case (Other_done x)
    then have "Some ?s1 = Some s'" using assms unfolding call_done_def Let_def by (simp only: dfun.case)
    then have "s' = ?s1" by (rule option.inject[THEN iffD1, THEN sym])
    then show ?thesis by (rule disjI1)
  qed
  then show "qs s' = qs s" "idle_threads s' = idle_threads s" "once_done s' = once_done s" "workers s' = workers s" "mem_w s' = mem_w s"
    "mem_r s' = mem_r s" "wq_async s' = wq_async s" "in_done s' = in_done s" "submits s' = submits s" "ran s' = ran s"
    "calls s' = calls s @ [(w, e)]"
    by (elim disjE exE; simp)+
qed

lemma inv_done_empty:
  assumes "pool_inv L s" "l \<in> L" "in_done s l = Some n" "QUEUE_EMPTY n (qs s)"
  shows "pool_inv L (s\<lparr>in_done := (in_done s)(l := None)\<rparr>)"
proof -
  obtain G C D where inv: "queues_ok L s G C D" "works_ok L s G C D" "counts_ok L s G C D" "wakes_ok s G" "asyncs_ok L s C"
    using assms(1) by (auto simp: pool_inv_def)
  note d = queues_okD[OF inv(1)]
  let ?s = "s\<lparr>in_done := (in_done s)(l := None)\<rparr>"
  have n: "n \<in> locals L s" using assms(2,3) by (auto simp: locals_def)
  have e: "D n = []" using assms(4) qring_empty_iff[OF representsD(1)[OF d(1) family_at(3)[OF inv(1) n]]] by simp
  have uniq: "x = l" if "x \<in> L" "in_done s x = Some n" for x using d(4)[OF that(1) assms(2) that(2) assms(3)] .
  have loc: "locals L ?s = locals L s - {n}"
  proof (rule set_eqI)
    fix m
    show "m \<in> locals L ?s \<longleftrightarrow> m \<in> locals L s - {n}"
    proof
      assume "m \<in> locals L ?s"
      then obtain x where "x \<in> L" "x \<noteq> l" "in_done s x = Some m" by (auto simp: locals_def split: if_splits)
      then show "m \<in> locals L s - {n}" using uniq by (auto simp: locals_def)
    next
      assume "m \<in> locals L s - {n}"
      then obtain x where x: "x \<in> L" "in_done s x = Some m" "m \<noteq> n" by (auto simp: locals_def)
      then have "x \<noteq> l" using assms(3) by auto
      then show "m \<in> locals L ?s" using x by (auto simp: locals_def)
    qed
  qed
  have r: "running ?s = running s" by (simp add: running_def)
  have fin: "finished ?s C D l' = finished s C D l'" for l' using assms(3) e by (auto simp: finished_def)
  have all: "all_finished L ?s C D = all_finished L s C D" by (simp add: all_finished_def fin)
  have nn: "n \<noteq> wq" "n \<notin> L" "n \<notin> running s" using d(5,6) n by (auto simp: heads_locals)
  show ?thesis
  proof (rule pool_invI)
    have "(family L s G C D)(n := None) = family L ?s G C D" using nn by (intro ext) (auto simp: family_def r loc)
    then have "represents (qs ?s) (family L ?s G C D)" using represents_drop[OF d(1), of n] by simp
    then show "queues_ok L ?s G C D"
    proof (rule queues_okI[OF inv(1)])
      fix l1 l2 m assume h: "l1 \<in> L" "l2 \<in> L" "in_done ?s l1 = Some m" "in_done ?s l2 = Some m"
      then show "l1 = l2" using d(4)[OF h(1,2)] by (auto split: if_splits)
    qed (use d r loc in \<open>auto simp: one_each_def heads_locals\<close>)
    show "works_ok L ?s G C D" using inv(2) by (simp add: works_ok_def fin r runnable_def completed_def)
    show "counts_ok L ?s G C D" using inv(3) by (simp add: counts_ok_def all r)
  qed (use inv(4,5) in \<open>simp_all add: wakes_ok_def asyncs_ok_def\<close>)
qed

lemma inv_done_next:
  assumes "pool_inv L s" "l \<in> L" "uv__work_done_next l s = Some s'"
  shows "pool_inv L s'"
proof -
  obtain G C D where inv: "queues_ok L s G C D" "works_ok L s G C D" "counts_ok L s G C D" "wakes_ok s G" "asyncs_ok L s C"
    using assms(1) by (auto simp: pool_inv_def)
  note d = queues_okD[OF inv(1)]
  obtain n where n: "in_done s l = Some n" using assms(3) by (auto simp: uv__work_done_next_def split: option.splits)
  show ?thesis
  proof (cases "QUEUE_EMPTY n (qs s)")
    case True
    then show ?thesis using inv_done_empty[OF assms(1,2) n True] assms(3) n by (simp add: uv__work_done_next_def)
  next
    case False
    have nl: "n \<in> locals L s" using assms(2) n by (auto simp: locals_def)
    have ring: "qring (qs s) n (D n)" by (rule representsD(1)[OF d(1) family_at(3)[OF inv(1) nl]])
    obtain w ws where w: "D n = w # ws" using False qring_empty_iff[OF ring] by (cases "D n") auto
    have hd: "QUEUE_HEAD n (qs s) = w" using qring_head ring w by metis
    have wf: "w \<in> finished s C D l" using w n by (simp add: finished_def)
    then have wa: "w \<in> all_finished L s C D" using assms(2) by (auto simp: all_finished_def)
    then have w_in: "w \<in> set G \<union> all_finished L s C D" by simp
    note st = queues_strip[OF inv(1) w_in]
    have disj: "w \<notin> set G" "w \<notin> running s"
    proof -
      have "w \<in> set (D n)" by (simp add: w)
      then show "w \<notin> set G" using queues_disjoint(2)[OF inv(1) _ nl] d(8) by (cases "once_done s") auto
      show "w \<notin> running s" using running_not_queued(2)[OF inv(1)] wa by blast
    qed
    have c: "completed l s w" using inv(2) wf assms(2) by (simp add: works_ok_def)
    let ?e = "if w_work (mem_w s w) = Some Cancelled then Fail ECANCELED else OK"
    have cd: "call_done w ?e (s\<lparr>qs := QUEUE_REMOVE w (qs s)\<rparr>) = Some s'"
      using assms(3) n False hd by (simp add: uv__work_done_next_def Let_def)
    have f: "qs s' = QUEUE_REMOVE w (qs s)" "idle_threads s' = idle_threads s" "once_done s' = once_done s" "workers s' = workers s"
        "mem_w s' = mem_w s" "mem_r s' = mem_r s" "wq_async s' = wq_async s" "in_done s' = in_done s" "submits s' = submits s"
        "ran s' = ran s" "calls s' = calls s @ [(w, ?e)]"
      using call_done_sel[OF cd] by simp_all
    have r: "running s' = running s" by (simp add: running_def f)
    have fam: "family L s' = family L s" by (intro ext) (simp add: family_def f r same_heads(2)[OF f(8)])
    let ?G = "remove1 w G" and ?C = "strip w C" and ?D = "strip w D"
    have fin: "finished s' ?C ?D l' = finished s C D l' - {w}" if "l' \<in> L" for l' using st(5)[OF that] same_heads(3)[OF f(8)] by simp
    have all: "all_finished L s' ?C ?D = all_finished L s C D - {w}" using st(4) same_heads(4)[OF f(8)] by simp
    show ?thesis
    proof (rule pool_invI)
      have "represents (qs s') (family L s' ?G ?C ?D)" using st(1) by (simp add: f fam)
      then show "queues_ok L s' ?G ?C ?D"
        by (rule queues_okI[OF inv(1)]) (use d st(3) r f same_heads(1,2)[OF f(8)] in \<open>auto simp: one_each_def\<close>)
      show "works_ok L s' ?G ?C ?D"
        using inv(2) fin st(3) by (auto simp: works_ok_def r runnable_def completed_def f)
      show "counts_ok L s' ?G ?C ?D"
        unfolding counts_ok_def
      proof
        fix v
        have "w_work (mem_w s w) = None \<longleftrightarrow> ?e = OK" using c by (auto simp: completed_def)
        then show "count_list (submits s') v = count_list (map fst (calls s')) v + of_bool (v \<in> set ?G \<union> running s' \<union> all_finished L s' ?C ?D) \<and>
            count_list (ran s') v = count_list (calls s') (v, OK) + of_bool (v \<in> all_finished L s' ?C ?D \<and> w_work (mem_w s' v) = None)"
          using counts_okD(1,2)[OF inv(3), of v] wa disj st(3) by (cases "v = w") (auto simp: f all r)
      qed
      show "wakes_ok s' ?G" using inv(4) by (auto simp: wakes_ok_def f)
      show "asyncs_ok L s' ?C" using inv(5) by (auto simp: asyncs_ok_def f strip_def)
    qed
  qed
qed

section \<open>Every step\<close>

lemma pool_step_inv: "pool_step L s s' \<Longrightarrow> pool_inv L s \<Longrightarrow> pool_inv L s'"
proof (induction rule: pool_step.induct)
  case (queue l w s k val ok cb after r s')
  show ?case
  proof (cases "cb = None")
    case True
    then show ?thesis using queue by (simp add: uv_queue_work_def)
  next
    case False
    let ?s = "s\<lparr>cores := (cores s)(l := uv__req_register w (cores s l)),
      mem_r := (mem_r s)(w := \<lparr>rtype = UV_WORK, rloop = l, work_cb = cb, after_work_cb = after\<rparr>)\<rparr>"
    have s': "s' = uv__work_submit val ok k l w Queue_work Queue_done ?s"
      using queue False by (simp add: uv_queue_work_def Let_def)
    show ?thesis unfolding s'
      by (rule inv_submit[OF pool_inv_mem_r])
         (use queue False in \<open>auto simp: signal_ok_def in_use_def heads_def\<close>)
  qed
next
  case (submit l w s k t s' val ok f d)
  let ?s = "s\<lparr>mem_r := (mem_r s)(w := \<lparr>rtype = t, rloop = l, work_cb = None, after_work_cb = None\<rparr>)\<rparr>"
  have "pool_inv L (s\<lparr>cores := cores s, mem_r := (mem_r s)(w := \<lparr>rtype = t, rloop = l, work_cb = None, after_work_cb = None\<rparr>)\<rparr>)"
    by (rule pool_inv_mem_r) (use submit in auto)
  then have i: "pool_inv L ?s" by simp
  show ?case unfolding submit(6)
    by (rule inv_submit[OF i]) (use submit in \<open>auto simp: signal_ok_def in_use_def heads_def\<close>)
next
  case (work i s k s')
  show ?case
  proof (cases "workers s ! i")
    case AtTop
    then show ?thesis using work inv_locked[of L s i s k] by (simp add: worker_def)
  next
    case Woken
    then show ?thesis using work inv_locked[of L s i "s\<lparr>idle_threads := idle_threads s - 1\<rparr>" k] by (simp add: worker_def)
  next
    case (Running w)
    then show ?thesis using work inv_finish[of L s i w s'] by (simp add: worker_def)
  qed (use work in \<open>simp_all add: worker_def\<close>)
next
  case wake_up then show ?case by (simp add: inv_wake_up)
next
  case cancel then show ?case by (blast intro: inv_cancel)
next
  case done_begin then show ?case by (blast intro: inv_done_begin)
next
  case done_next then show ?case by (blast intro: inv_done_next)
qed

lemma pool_start_inv:
  assumes "pool_start L s"
  shows "pool_inv L s"
proof (rule pool_invI)
  note a = assms[unfolded pool_start_def]
  have r: "running s = {}" "locals L s = {}" using a by (simp_all add: running_def locals_def)
  have fin: "finished s (\<lambda>_. []) (\<lambda>_. []) l = {}" for l using a by (simp add: finished_def)
  have all: "all_finished L s (\<lambda>_. []) (\<lambda>_. []) = {}" by (simp add: all_finished_def fin)
  have "family L s [] (\<lambda>_. []) (\<lambda>_. []) = (\<lambda>l. if l \<in> L then Some [] else None)"
    using a r by (intro ext) (auto simp: family_def)
  then show "queues_ok L s [] (\<lambda>_. []) (\<lambda>_. [])" using a r by (simp add: queues_ok_def one_each_def)
  show "works_ok L s [] (\<lambda>_. []) (\<lambda>_. [])" by (simp add: works_ok_def r fin)
  show "counts_ok L s [] (\<lambda>_. []) (\<lambda>_. [])" using a by (simp add: counts_ok_def r all)
  show "wakes_ok s []" using a by (simp add: wakes_ok_def)
  show "asyncs_ok L s (\<lambda>_. [])" by (simp add: asyncs_ok_def)
qed

lemma pool_reach_inv: "(pool_step L)\<^sup>*\<^sup>* s0 s \<Longrightarrow> pool_start L s0 \<Longrightarrow> pool_inv L s"
  by (induction rule: rtranclp_induct) (auto intro: pool_start_inv pool_step_inv)

section \<open>Histories\<close>

lemma post_frame: "calls (post k w s) = calls s" "cores (post k w s) = cores s"
  by simp_all

lemma submit_frame:
  "calls (uv__work_submit val ok k l w f d s) = calls s" "cores (uv__work_submit val ok k l w f d s) = cores s"
  "mem_w (uv__work_submit val ok k l w f d s) = (mem_w s)(w := \<lparr>w_loop = l, w_work = Some f, w_done = d\<rparr>)"
  "submits (uv__work_submit val ok k l w f d s) = submits s @ [w]"
  "mem_r (uv__work_submit val ok k l w f d s) = mem_r s" "ran (uv__work_submit val ok k l w f d s) = ran s"
  by (simp_all add: uv__work_submit_def uv_once_def init_once_def upd_w_def Let_def)

lemma locked_frame:
  "calls (worker_locked i k s) = calls s" "cores (worker_locked i k s) = cores s" "mem_w (worker_locked i k s) = mem_w s"
  "submits (worker_locked i k s) = submits s" "ran (worker_locked i k s) = ran s"
  by (simp_all add: worker_locked_def)

lemma finish_frame:
  assumes "worker_finish i w s = Some s'"
  shows "calls s' = calls s" "cores s' = cores s" "submits s' = submits s" "ran s' = ran s @ [w]"
    "mem_w s' = (mem_w s)(w := (mem_w s w)\<lparr>w_work := None\<rparr>)"
proof -
  obtain s1 where s1: "call_work w s = Some s1" "s' = set_worker i AtTop (uv_async_send (w_loop (mem_w (upd_w w (\<lambda>x. x\<lparr>w_work := None\<rparr>) s1) w))
      ((upd_w w (\<lambda>x. x\<lparr>w_work := None\<rparr>) s1)\<lparr>qs := QUEUE_INSERT_TAIL (w_loop (mem_w (upd_w w (\<lambda>x. x\<lparr>w_work := None\<rparr>) s1) w)) w
        (qs (upd_w w (\<lambda>x. x\<lparr>w_work := None\<rparr>) s1))\<rparr>))"
    using assms unfolding worker_finish_def Let_def map_option_eq_Some by blast
  from call_work_sel[OF s1(1)] show "calls s' = calls s" "cores s' = cores s" "submits s' = submits s" "ran s' = ran s @ [w]"
    "mem_w s' = (mem_w s)(w := (mem_w s w)\<lparr>w_work := None\<rparr>)"
    by (simp_all add: s1(2) uv_async_send_def upd_w_def)
qed

lemma worker_frame:
  assumes "worker i k s = Some s'"
  shows "calls s' = calls s" "cores s' = cores s" "submits s' = submits s"
  using assms finish_frame(1-3) by (auto simp: worker_def locked_frame split: wstate.splits)

lemma cancel_frame:
  assumes "uv_cancel w s = (r, s')"
  shows "calls s' = calls s" "cores s' = cores s" "submits s' = submits s" "ran s' = ran s"
    "mem_w s' = mem_w s \<or> mem_w s' = (mem_w s)(w := (mem_w s w)\<lparr>w_work := Some Cancelled\<rparr>)"
  using assms by (auto simp: uv_cancel_def uv__work_cancel_def uv_async_send_def upd_w_def Let_def split: if_splits)

lemma begin_frame:
  "calls (uv__work_done_begin l n s) = calls s" "cores (uv__work_done_begin l n s) = cores s"
  "submits (uv__work_done_begin l n s) = submits s" "ran (uv__work_done_begin l n s) = ran s"
  "mem_w (uv__work_done_begin l n s) = mem_w s"
  by (simp_all add: uv__work_done_begin_def Let_def)

lemma next_cases:
  assumes "uv__work_done_next l s = Some s'"
  obtains n where "in_done s l = Some n" "QUEUE_EMPTY n (qs s)" "s' = s\<lparr>in_done := (in_done s)(l := None)\<rparr>"
  | n w e where "in_done s l = Some n" "\<not> QUEUE_EMPTY n (qs s)" "w = QUEUE_HEAD n (qs s)"
      "e = (if w_work (mem_w s w) = Some Cancelled then Fail ECANCELED else OK)"
      "call_done w e (s\<lparr>qs := QUEUE_REMOVE w (qs s)\<rparr>) = Some s'"
  using assms by (auto simp: uv__work_done_next_def Let_def split: option.splits if_splits)

lemma calls_mono: "pool_step L s s' \<Longrightarrow> count_list (map fst (calls s)) w \<le> count_list (map fst (calls s')) w"
proof (induction rule: pool_step.induct)
  case (queue l v s k val ok cb after r s')
  then show ?case by (auto simp: uv_queue_work_def submit_frame Let_def split: if_splits)
next
  case (work i s k s')
  then show ?case using worker_frame(1)[OF work(3)] by simp
next
  case (cancel v s r s')
  then show ?case using cancel_frame(1)[OF cancel(2)] by simp
next
  case (done_next l s s')
  then show ?case by (elim next_cases) (auto dest!: call_done_sel(11))
qed (simp_all add: submit_frame begin_frame)

definition statuses_ok :: "pool \<Rightarrow> bool" where
  "statuses_ok s \<longleftrightarrow> (\<forall>x \<in> set (calls s). snd x = OK \<or> snd x = Fail ECANCELED)"

lemma pool_step_statuses: "pool_step L s s' \<Longrightarrow> statuses_ok s \<Longrightarrow> statuses_ok s'"
proof (induction rule: pool_step.induct)
  case (queue l w s k val ok cb after r s')
  then have "calls s' = calls s" by (auto simp: uv_queue_work_def submit_frame Let_def split: if_splits)
  then show ?case using queue by (simp add: statuses_ok_def)
next
  case (work i s k s')
  then show ?case using worker_frame(1)[OF work(3)] by (simp add: statuses_ok_def)
next
  case (cancel w s r s')
  then show ?case using cancel_frame(1)[OF cancel(2)] by (simp add: statuses_ok_def)
next
  case (done_next l s s')
  then show ?case
    by (elim next_cases) (auto simp: statuses_ok_def dest!: call_done_sel(11) split: if_splits)
qed (auto simp: statuses_ok_def submit_frame set_worker_def begin_frame dest: cancel_frame(1))

lemma pool_reach_statuses: "(pool_step L)\<^sup>*\<^sup>* s0 s \<Longrightarrow> pool_start L s0 \<Longrightarrow> statuses_ok s"
proof (induction rule: rtranclp_induct)
  case base
  then show ?case by (simp add: statuses_ok_def pool_start_def)
next
  case (step y z)
  then show ?case by (blast intro: pool_step_statuses)
qed

lemma count_statuses:
  assumes "\<forall>x \<in> set xs. snd x = OK \<or> snd x = Fail ECANCELED"
  shows "count_list (map fst xs) w = count_list xs (w, OK) + count_list xs (w, Fail ECANCELED)"
  using assms by (induction xs) auto

text \<open>
  C2: whatever the threads, the loops and the system do, and in whatever order, a request is executed
  or cancelled at most once for each time it is submitted, and its completion is called once for
  it at most: with status 0 only after the work was executed, and with \<open>UV_ECANCELED\<close> for a submission
  whose work is never executed.
\<close>

theorem pool_runs_or_cancels_once:
  assumes "pool_start L s0" "(pool_step L)\<^sup>*\<^sup>* s0 s"
  shows "count_list (ran s) w + count_list (calls s) (w, Fail ECANCELED) \<le> count_list (submits s) w \<and>
    count_list (calls s) (w, OK) \<le> count_list (ran s) w \<and>
    count_list (map fst (calls s)) w \<le> count_list (submits s) w \<and>
    count_list (submits s) w \<le> count_list (map fst (calls s)) w + 1 \<and>
    count_list (map fst (calls s)) w = count_list (calls s) (w, OK) + count_list (calls s) (w, Fail ECANCELED)"
proof -
  obtain G C D where inv: "counts_ok L s G C D" using pool_reach_inv[OF assms(2,1)] by (auto simp: pool_inv_def)
  have c: "count_list (map fst (calls s)) w = count_list (calls s) (w, OK) + count_list (calls s) (w, Fail ECANCELED)"
    using count_statuses pool_reach_statuses[OF assms(2,1)] by (simp add: statuses_ok_def)
  show ?thesis using counts_okD(1,2)[OF inv, of w] c by (auto split: if_splits)
qed

section \<open>Nothing is left behind\<close>

lemma worker_not_None:
  assumes "pool_inv L s" "i < length (workers s)" "workers s ! i \<noteq> Waiting"
  shows "worker i k s \<noteq> None"
proof -
  obtain G C D where inv: "works_ok L s G C D" "wakes_ok s G" using assms(1) by (auto simp: pool_inv_def)
  show ?thesis
  proof (cases "workers s ! i")
    case (Running w)
    then have "w \<in> running s" using assms(2) by (auto simp: running_nth)
    then have "runnable L s w" using inv(1) by (simp add: works_ok_def)
    then show ?thesis using Running by (simp add: worker_def worker_finish_def runnable_called)
  next
    case Exited
    then show ?thesis using wakes_okD(1)[OF inv(2)] assms(2) by (metis nth_mem)
  qed (use assms(3) in \<open>simp_all add: worker_def\<close>)
qed

text \<open>
  C6: no wake-up is lost. When all threads wait, every loop is out of \<open>uv__work_done\<close> and no loop has been
  told to enter it again, then every request that was ever submitted has been completed.
\<close>

theorem idle_pool_has_no_work:
  assumes "pool_start L s0" "(pool_step L)\<^sup>*\<^sup>* s0 s"
    and "\<forall>i < length (workers s). \<forall>k. worker i k s = None" "\<forall>l \<in> L. in_done s l = None \<and> \<not> wq_async s l"
  shows "count_list (map fst (calls s)) w = count_list (submits s) w"
proof -
  have pi: "pool_inv L s" by (rule pool_reach_inv[OF assms(2,1)])
  then obtain G C D where inv: "queues_ok L s G C D" "counts_ok L s G C D" "wakes_ok s G" "asyncs_ok L s C"
    by (auto simp: pool_inv_def)
  have "workers s ! i = Waiting" if "i < length (workers s)" for i using worker_not_None[OF pi that] assms(3) that by blast
  then have all: "x = Waiting" if "x \<in> set (workers s)" for x using that by (auto simp: in_set_conv_nth)
  then have "running s = {}" by (auto simp: running_def)
  moreover have "G = []" using wakes_okD(5)[OF inv(3)] all by blast
  moreover have "all_finished L s C D = {}"
    using assms(4) inv(4) by (auto simp: all_finished_def finished_def asyncs_ok_def)
  ultimately show ?thesis using counts_okD(1)[OF inv(2), of w] by simp
qed

section \<open>Cancelling\<close>

lemma in_place:
  assumes "pool_inv L s" "in_use w s"
  shows "fst (uv_cancel w s) = OK \<longleftrightarrow> w \<notin> running s \<and> w_work (mem_w s w) \<noteq> None"
    "w \<notin> running s \<Longrightarrow> w_work (mem_w s w) = None \<longleftrightarrow> count_list (ran s) w \<noteq> count_list (calls s) (w, OK)"
    "w \<in> running s \<Longrightarrow> count_list (ran s) w = count_list (calls s) (w, OK)"
    "fst (uv_cancel w s) \<in> {OK, Fail EBUSY}"
proof -
  obtain G C D where inv: "queues_ok L s G C D" "works_ok L s G C D" "counts_ok L s G C D"
    using assms(1) by (auto simp: pool_inv_def)
  have w: "w \<in> set G \<union> running s \<union> all_finished L s C D" using assms(2) counts_okD(3)[OF inv(3)] by blast
  have t: "rtype (mem_r s w) \<noteq> Other_req"
    using w inv(2) by (auto simp: works_ok_def all_finished_def runnable_def completed_def)
  show "fst (uv_cancel w s) \<in> {OK, Fail EBUSY}" using t by (auto simp: uv_cancel_def uv__work_cancel_def Let_def)
  have run: "QUEUE_EMPTY w (qs s)" if "w \<in> running s"
    using qring_empty_iff[OF representsD(1)[OF queues_okD(1)[OF inv(1)] family_at(4)[OF inv(1) that]]] by simp
  have nrun: "\<not> QUEUE_EMPTY w (qs s)" if "w \<notin> running s"
  proof -
    have "w \<in> set G \<union> all_finished L s C D" using w that by blast
    from family_find[OF inv(1) this] show ?thesis using member_not_empty[OF queues_okD(1)[OF inv(1)]] by metis
  qed
  show "fst (uv_cancel w s) = OK \<longleftrightarrow> w \<notin> running s \<and> w_work (mem_w s w) \<noteq> None"
    using t run nrun by (auto simp: uv_cancel_def uv__work_cancel_def Let_def)
  show "w_work (mem_w s w) = None \<longleftrightarrow> count_list (ran s) w \<noteq> count_list (calls s) (w, OK)" if "w \<notin> running s"
  proof (cases "w \<in> all_finished L s C D")
    case True
    then show ?thesis using counts_okD(2)[OF inv(3), of w] by simp
  next
    case False
    then have "runnable L s w" using w that inv(2) by (auto simp: works_ok_def)
    then show ?thesis using False counts_okD(2)[OF inv(3), of w] by (auto simp: runnable_def)
  qed
  show "count_list (ran s) w = count_list (calls s) (w, OK)" if "w \<in> running s"
    using running_not_queued(2)[OF inv(1) that] counts_okD(2)[OF inv(3), of w] by simp
qed

text \<open>A request that was cancelled stays so until its completion is called.\<close>

definition cancelled :: "ptr \<Rightarrow> pool \<Rightarrow> bool" where
  "cancelled w s \<longleftrightarrow> in_use w s \<and> w_work (mem_w s w) = Some Cancelled"

lemma cancelled_step:
  assumes "pool_step L s s'" "pool_inv L s" "cancelled w s"
  shows "count_list (map fst (calls s')) w = count_list (map fst (calls s)) w \<and> cancelled w s' \<and> count_list (ran s') w = count_list (ran s) w \<or>
    count_list (map fst (calls s')) w = count_list (map fst (calls s)) w + 1"
  using assms
proof (induction rule: pool_step.induct)
  case (queue l v s k val ok cb after r s')
  have "v \<noteq> w" using queue by (auto simp: cancelled_def)
  then show ?case
    using queue by (cases "cb = None") (auto simp: uv_queue_work_def submit_frame cancelled_def in_use_def Let_def)
next
  case (submit l v s k t s' val ok f d)
  have "v \<noteq> w" using submit by (auto simp: cancelled_def)
  then show ?case using submit(6,8) by (simp add: submit_frame cancelled_def in_use_def)
next
  case (work i s k s')
  show ?case
  proof (cases "\<exists>v. workers s ! i = Running v")
    case True
    then obtain v where v: "workers s ! i = Running v" by blast
    then have fin: "worker_finish i v s = Some s'" using work(3) by (simp add: worker_def)
    have "call_work v s \<noteq> None" using fin by (auto simp: worker_finish_def)
    then have "v \<noteq> w" using work(5) by (auto simp: cancelled_def call_work_def)
    then show ?thesis using finish_frame[OF fin] work(5) by (simp add: cancelled_def in_use_def)
  next
    case False
    then show ?thesis
      using work by (auto simp: worker_def locked_frame cancelled_def in_use_def split: wstate.splits)
  qed
next
  case wake_up then show ?case by (simp add: cancelled_def in_use_def)
next
  case (cancel v s r s')
  then show ?case using cancel_frame[OF cancel(2)] by (auto simp: cancelled_def in_use_def)
next
  case done_begin then show ?case by (simp add: begin_frame cancelled_def in_use_def)
next
  case (done_next l s s')
  show ?case
    using done_next(2)
  proof (cases rule: next_cases)
    case 1
    then show ?thesis using done_next(4) by (simp add: cancelled_def in_use_def)
  next
    case (2 n v e)
    then show ?thesis
      using call_done_sel[OF 2(5)] done_next(4) by (cases "v = w") (auto simp: cancelled_def in_use_def)
  qed
qed

lemma cancelled_reach:
  assumes "(pool_step L)\<^sup>*\<^sup>* s s'" "pool_inv L s" "cancelled w s"
    and "count_list (map fst (calls s')) w = count_list (map fst (calls s)) w"
  shows "count_list (ran s') w = count_list (ran s) w"
proof -
  have "pool_inv L s' \<and> (count_list (map fst (calls s)) w < count_list (map fst (calls s')) w \<or>
      count_list (map fst (calls s')) w = count_list (map fst (calls s)) w \<and> cancelled w s' \<and> count_list (ran s') w = count_list (ran s) w)"
    using assms(1)
  proof (induction rule: rtranclp_induct)
    case base
    then show ?case using assms(2,3) by simp
  next
    case (step y z)
    have "count_list (map fst (calls y)) w \<le> count_list (map fst (calls z)) w"
      using step(2) by (rule calls_mono)
    then show ?case using step pool_step_inv[OF step(2)] cancelled_step[OF step(2), of w] by fastforce
  qed
  then show ?thesis using assms(4) by simp
qed

text \<open>
  C24: \<open>uv_cancel\<close> of a request that is not yet completed succeeds exactly when its work is neither being
  executed nor already executed; otherwise it returns \<open>UV_EBUSY\<close> and changes nothing. Once it has
  succeeded the work is not executed any more, up to the completion of the request.
\<close>

theorem cancel_outcome:
  assumes "pool_start L s0" "(pool_step L)\<^sup>*\<^sup>* s0 s" "in_use w s" "uv_cancel w s = (r, s')"
  shows "(r = OK \<longleftrightarrow> w \<notin> running s \<and> count_list (ran s) w = count_list (calls s) (w, OK)) \<and>
    (r \<noteq> OK \<longrightarrow> r = Fail EBUSY \<and> s' = s) \<and>
    (r = OK \<longrightarrow> (\<forall>s''. (pool_step L)\<^sup>*\<^sup>* s' s'' \<longrightarrow> count_list (map fst (calls s'')) w = count_list (map fst (calls s)) w \<longrightarrow>
      count_list (ran s'') w = count_list (ran s) w))"
proof -
  have pi: "pool_inv L s" by (rule pool_reach_inv[OF assms(2,1)])
  note p = in_place[OF pi assms(3)] and f = cancel_frame[OF assms(4)]
  have r: "r = fst (uv_cancel w s)" by (simp add: assms(4))
  have 1: "r = OK \<longleftrightarrow> w \<notin> running s \<and> count_list (ran s) w = count_list (calls s) (w, OK)"
    unfolding r p(1) using p(2) by (cases "w \<in> running s") simp_all
  have 2: "r \<noteq> OK \<longrightarrow> r = Fail EBUSY \<and> s' = s"
    using p(4) r assms(4) by (auto simp: uv_cancel_def uv__work_cancel_def Let_def split: if_splits)
  have 3: "cancelled w s'" if "r = OK"
    using that assms(3,4) by (auto simp: cancelled_def in_use_def uv_cancel_def uv__work_cancel_def uv_async_send_def upd_w_def Let_def split: if_splits)
  have pi': "pool_inv L s'" by (rule inv_cancel[OF pi assms(3,4)])
  have "count_list (ran s'') w = count_list (ran s) w"
    if "r = OK" "(pool_step L)\<^sup>*\<^sup>* s' s''" "count_list (map fst (calls s'')) w = count_list (map fst (calls s)) w" for s''
    using cancelled_reach[OF that(2) pi' 3[OF that(1)]] that(3) f(1,4) by simp
  with 1 2 show ?thesis by blast
qed

section \<open>Requests of a loop\<close>

definition own :: "ptr \<Rightarrow> pool \<Rightarrow> ptr \<Rightarrow> bool" where
  "own l s w \<longleftrightarrow> in_use w s \<and> w_loop (mem_w s w) = l \<and> w_done (mem_w s w) = Queue_done"

definition reqs_ok :: "ptr set \<Rightarrow> pool \<Rightarrow> bool" where
  "reqs_ok L s \<longleftrightarrow> (\<forall>l \<in> L. \<exists>xs. qring (active_reqs (cores s l)) HEAD xs \<and> (\<forall>w. w \<in> set xs \<longleftrightarrow> own l s w))"

lemma reqs_same:
  assumes "reqs_ok L s" "cores s' = cores s" "\<And>l w. l \<in> L \<Longrightarrow> own l s' w \<longleftrightarrow> own l s w"
  shows "reqs_ok L s'"
  using assms by (simp add: reqs_ok_def)

lemma reqs_okE:
  assumes "reqs_ok L s" "l \<in> L"
  obtains xs where "qring (active_reqs (cores s l)) HEAD xs" "\<forall>w. w \<in> set xs \<longleftrightarrow> own l s w"
  using assms unfolding reqs_ok_def by blast

lemma next_member:
  assumes "pool_inv L s" "l \<in> L" "in_done s l = Some n" "\<not> QUEUE_EMPTY n (qs s)" "w = QUEUE_HEAD n (qs s)"
  shows "in_use w s" "w_loop (mem_w s w) = l" "rloop (mem_r s w) = l"
proof -
  obtain G C D where inv: "queues_ok L s G C D" "works_ok L s G C D" "counts_ok L s G C D"
    using assms(1) by (auto simp: pool_inv_def)
  have nl: "n \<in> locals L s" using assms(2,3) by (auto simp: locals_def)
  have ring: "qring (qs s) n (D n)" by (rule representsD(1)[OF queues_okD(1)[OF inv(1)] family_at(3)[OF inv(1) nl]])
  obtain ws where w: "D n = w # ws" using assms(4,5) qring_empty_iff[OF ring] qring_head ring by (cases "D n") auto
  then have f: "w \<in> finished s C D l" using assms(3) by (simp add: finished_def)
  then show "w_loop (mem_w s w) = l" "rloop (mem_r s w) = l" using inv(2) assms(2) by (simp_all add: works_ok_def completed_def)
  show "in_use w s" using f assms(2) counts_okD(3)[OF inv(3)] by (auto simp: all_finished_def)
qed

lemma unregister_Some:
  assumes "qring (active_reqs c) HEAD xs" "w \<in> set xs"
  shows "\<exists>c'. uv__req_unregister w c = Some c' \<and> qring (active_reqs c') HEAD (remove1 w xs)"
proof -
  have "xs \<noteq> []" using assms(2) by auto
  then have "uv__has_active_reqs c" using qring_empty_iff[OF assms(1)] by (simp add: uv__has_active_reqs_def)
  then show ?thesis using uvq.unlink_remove1[OF assms] by (simp add: uv__req_unregister_def)
qed

lemma next_not_None:
  assumes "pool_inv L s" "reqs_ok L s" "l \<in> L" "in_done s l \<noteq> None"
  shows "uv__work_done_next l s \<noteq> None"
proof -
  obtain n where n: "in_done s l = Some n" using assms(4) by auto
  show ?thesis
  proof (cases "QUEUE_EMPTY n (qs s)")
    case True
    then show ?thesis using n by (simp add: uv__work_done_next_def)
  next
    case False
    define w where "w = QUEUE_HEAD n (qs s)"
    note m = next_member[OF assms(1,3) n False w_def]
    obtain xs where xs: "qring (active_reqs (cores s l)) HEAD xs" "\<forall>w. w \<in> set xs \<longleftrightarrow> own l s w" by (rule reqs_okE[OF assms(2,3)])
    note xs = xs(1) xs(2)[rule_format]
    have "\<exists>c'. uv__req_unregister w (cores s l) = Some c'" if "w_done (mem_w s w) = Queue_done"
      using unregister_Some[OF xs(1), of w] xs(2) m that by (auto simp: own_def)
    then show ?thesis
      using n False m by (cases "w_done (mem_w s w)")
        (auto simp: uv__work_done_next_def call_done_def uv__queue_done_def Let_def w_def[symmetric])
  qed
qed

lemma queue_done_cores:
  assumes "uv__queue_done w e s = Some s'"
  obtains c where "uv__req_unregister w (cores s (rloop (mem_r s w))) = Some c" "cores s' = (cores s)(rloop (mem_r s w) := c)"
proof -
  obtain c where c: "uv__req_unregister w (cores s (rloop (mem_r s w))) = Some c"
      "s' = (if after_work_cb (mem_r s w) = None then s\<lparr>cores := (cores s)(rloop (mem_r s w) := c)\<rparr>
      else (s\<lparr>cores := (cores s)(rloop (mem_r s w) := c)\<rparr>)\<lparr>after_calls :=
        after_calls (s\<lparr>cores := (cores s)(rloop (mem_r s w) := c)\<rparr>) @ [(w, e)]\<rparr>)"
    using assms unfolding uv__queue_done_def Let_def map_option_eq_Some by blast
  have "cores s' = (cores s)(rloop (mem_r s w) := c)" unfolding c(2) by (cases "after_work_cb (mem_r s w) = None") simp_all
  then show thesis using that c(1) by blast
qed

lemma reqs_queue:
  assumes "reqs_ok L s" "l \<in> L" "\<not> in_use w s" "w \<notin> heads L s" "uv_queue_work val ok k l w (Some cb) after s = (r, s')"
  shows "reqs_ok L s'"
  unfolding reqs_ok_def
proof
  let ?s = "s\<lparr>cores := (cores s)(l := uv__req_register w (cores s l)),
      mem_r := (mem_r s)(w := \<lparr>rtype = UV_WORK, rloop = l, work_cb = Some cb, after_work_cb = after\<rparr>)\<rparr>"
  have s': "s' = uv__work_submit val ok k l w Queue_work Queue_done ?s" using assms(5) by (simp add: uv_queue_work_def Let_def)
  have f: "calls s' = calls s" "submits s' = submits s @ [w]" "cores s' = (cores s)(l := uv__req_register w (cores s l))"
      "mem_w s' = (mem_w s)(w := \<lparr>w_loop = l, w_work = Some Queue_work, w_done = Queue_done\<rparr>)"
    by (simp_all add: s' submit_frame)
  have own: "own x s' v \<longleftrightarrow> (if v = w then x = l else own x s v)" for x v
    using assms(3) by (auto simp: own_def in_use_def f)
  fix x assume x: "x \<in> L"
  obtain xs where xs: "qring (active_reqs (cores s x)) HEAD xs" "\<forall>w. w \<in> set xs \<longleftrightarrow> own x s w" by (rule reqs_okE[OF assms(1) x])
  note xs = xs(1) xs(2)[rule_format]
  have w: "w \<notin> set xs" "w \<noteq> HEAD" using xs(2) assms(3,4) by (auto simp: own_def heads_def HEAD_def wq_def)
  show "\<exists>xs. qring (active_reqs (cores s' x)) HEAD xs \<and> (\<forall>w. w \<in> set xs \<longleftrightarrow> own x s' w)"
  proof (cases "x = l")
    case True
    have "qring (active_reqs (cores s' x)) HEAD (xs @ [w])"
      using qring_INSERT_TAIL[OF xs(1), of w] w True by (simp add: f uv__req_register_def)
    then show ?thesis using xs(2) own True by (intro exI[of _ "xs @ [w]"]) auto
  next
    case False
    have "v \<in> set xs \<longleftrightarrow> own x s' v" for v using own[of x v] xs(2)[of v] w(1) False by auto
    then show ?thesis using xs(1) False by (intro exI[of _ xs]) (simp add: f)
  qed
qed

lemma reqs_next:
  assumes "reqs_ok L s" "pool_inv L s" "l \<in> L" "uv__work_done_next l s = Some s'"
  shows "reqs_ok L s'"
  using assms(4)
proof (cases rule: next_cases)
  case 1
  then show ?thesis using assms(1) by (intro reqs_same[OF assms(1)]) (simp_all add: own_def in_use_def)
next
  case (2 n w e)
  note m = next_member[OF assms(2,3) 2(1-3)] and f = call_done_sel[OF 2(5)]
  obtain G C D where inv: "counts_ok L s G C D" using assms(2) by (auto simp: pool_inv_def)
  have nw: "\<not> in_use w s'"
    using counts_okD(1)[OF inv, of w] m(1) f(9,11) by (auto simp: in_use_def split: if_splits)
  have own: "own x s' v \<longleftrightarrow> v \<noteq> w \<and> own x s v" for x v
    using nw f by (cases "v = w") (auto simp: own_def in_use_def)
  show ?thesis
  proof (cases "w_done (mem_w s w)")
    case Queue_done
    let ?s = "(s\<lparr>qs := QUEUE_REMOVE w (qs s)\<rparr>)\<lparr>calls := calls s @ [(w, e)]\<rparr>"
    have "uv__queue_done w e ?s = Some s'" using 2(5) Queue_done by (simp add: call_done_def Let_def)
    then obtain c where c: "uv__req_unregister w (cores s l) = Some c" "cores s' = (cores s)(l := c)"
      by (rule queue_done_cores) (simp add: m(3))
    show ?thesis
      unfolding reqs_ok_def
    proof
      fix x assume x: "x \<in> L"
      obtain xs where xs: "qring (active_reqs (cores s x)) HEAD xs" "\<forall>w. w \<in> set xs \<longleftrightarrow> own x s w" by (rule reqs_okE[OF assms(1) x])
      note xs = xs(1) xs(2)[rule_format]
      show "\<exists>xs. qring (active_reqs (cores s' x)) HEAD xs \<and> (\<forall>w. w \<in> set xs \<longleftrightarrow> own x s' w)"
      proof (cases "x = l")
        case True
        have "w \<in> set xs" using xs(2) m Queue_done True by (simp add: own_def)
        moreover have "distinct xs" using qring_distinct[OF xs(1)] by simp
        ultimately show ?thesis using unregister_Some[OF xs(1), of w] c True own xs(2) by (intro exI[of _ "remove1 w xs"]) auto
      next
        case False
        have "v \<in> set xs \<longleftrightarrow> own x s' v" for v using own[of x v] xs(2)[of v] m(2) False by (auto simp: own_def)
        then show ?thesis using xs(1) False c(2) by (intro exI[of _ xs]) simp
      qed
    qed
  next
    case (Other_done y)
    have "own x s' v \<longleftrightarrow> own x s v" for x v using own[of x v] Other_done by (auto simp: own_def)
    moreover have "cores s' = cores s" using 2(5) Other_done by (auto simp: call_done_def Let_def)
    ultimately show ?thesis by (intro reqs_same[OF assms(1)]) auto
  qed
qed

lemma pool_step_reqs: "pool_step L s s' \<Longrightarrow> pool_inv L s \<Longrightarrow> reqs_ok L s \<Longrightarrow> reqs_ok L s'"
proof (induction rule: pool_step.induct)
  case (queue l w s k val ok cb after r s')
  then show ?case by (cases cb) (auto intro: reqs_queue simp: uv_queue_work_def)
next
  case (submit l w s k t s' val ok f d)
  have "own x s' v \<longleftrightarrow> own x s v" for x v using submit(2) by (auto simp: submit(6) own_def in_use_def submit_frame)
  then show ?case by (intro reqs_same[OF submit(8)]) (simp_all add: submit(6) submit_frame)
next
  case (work i s k s')
  have "mem_w s' = mem_w s \<or> (\<exists>v. mem_w s' = (mem_w s)(v := (mem_w s v)\<lparr>w_work := None\<rparr>))"
    using work(3) finish_frame(5) by (auto simp: worker_def locked_frame split: wstate.splits)
  then have "own x s' v \<longleftrightarrow> own x s v" for x v using worker_frame[OF work(3)] by (auto simp: own_def in_use_def split: if_splits)
  then show ?case by (intro reqs_same[OF work(5)]) (simp_all add: worker_frame[OF work(3)])
next
  case (wake_up i s s')
  then show ?case by (intro reqs_same[OF wake_up(5)]) (simp_all add: own_def in_use_def)
next
  case (cancel w s r s')
  have "own x s' v \<longleftrightarrow> own x s v" for x v using cancel_frame[OF cancel(2)] by (auto simp: own_def in_use_def split: if_splits)
  then show ?case by (intro reqs_same[OF cancel(4)]) (simp_all add: cancel_frame[OF cancel(2)])
next
  case (done_begin l s n)
  then show ?case by (intro reqs_same[OF done_begin(6)]) (simp_all add: own_def in_use_def begin_frame)
next
  case done_next then show ?case by (blast intro: reqs_next)
qed

lemma pool_reach_reqs: "(pool_step L)\<^sup>*\<^sup>* s0 s \<Longrightarrow> pool_start L s0 \<Longrightarrow> reqs_ok L s"
proof (induction rule: rtranclp_induct)
  case base
  then have "\<not> own l s0 w" for l w by (simp add: own_def in_use_def pool_start_def)
  then show ?case using base by (auto simp: reqs_ok_def pool_start_def intro!: exI[of _ "[]"])
next
  case (step y z)
  then show ?case by (blast intro: pool_step_reqs pool_reach_inv)
qed

text \<open>
  C23: the pool is well-formed in every state it can reach: a thread that does not wait can always make its
  next step, so that it never calls \<open>uv__cancelled\<close> or a missing function, the loop can always
  make its next turn of \<open>uv__work_done\<close>, whose assertion holds, and a loop has active requests just as
  long as a request of \<open>uv_queue_work\<close> on it is not completed.
\<close>

theorem pool_never_aborts:
  assumes "pool_start L s0" "(pool_step L)\<^sup>*\<^sup>* s0 s"
  shows "(\<forall>i < length (workers s). workers s ! i \<noteq> Waiting \<longrightarrow> (\<forall>k. worker i k s \<noteq> None)) \<and>
    (\<forall>l \<in> L. (in_done s l \<noteq> None \<longrightarrow> uv__work_done_next l s \<noteq> None) \<and>
      (uv__has_active_reqs (cores s l) \<longleftrightarrow> (\<exists>w. in_use w s \<and> w_loop (mem_w s w) = l \<and> w_done (mem_w s w) = Queue_done)))"
proof (intro conjI allI ballI impI)
  note pi = pool_reach_inv[OF assms(2,1)] and ri = pool_reach_reqs[OF assms(2,1)]
  show "worker i k s \<noteq> None" if "i < length (workers s)" "workers s ! i \<noteq> Waiting" for i k using worker_not_None[OF pi that] .
  show "uv__work_done_next l s \<noteq> None" if "l \<in> L" "in_done s l \<noteq> None" for l using next_not_None[OF pi ri that] .
  fix l assume "l \<in> L"
  then obtain xs where xs: "qring (active_reqs (cores s l)) HEAD xs" "\<forall>w. w \<in> set xs \<longleftrightarrow> own l s w" using reqs_okE[OF ri] by blast
  have "uv__has_active_reqs (cores s l) \<longleftrightarrow> xs \<noteq> []" using qring_empty_iff[OF xs(1)] by (simp add: uv__has_active_reqs_def)
  also have "\<dots> \<longleftrightarrow> (\<exists>w. own l s w)" using xs(2) by (metis list.set_intros(1) neq_Nil_conv emptyE empty_set)
  finally show "uv__has_active_reqs (cores s l) \<longleftrightarrow> (\<exists>w. in_use w s \<and> w_loop (mem_w s w) = l \<and> w_done (mem_w s w) = Queue_done)"
    by (simp only: own_def)
qed

text \<open>
  The pool has between one and 128 threads, whatever \<open>UV_THREADPOOL_SIZE\<close> says: as many as it says
  from 1 to 128 if they can be allocated, four if it is not set or the allocation fails, one for zero
  and for a text that is no number; but a negative number gives 128.
\<close>

lemma pool_size_bounds:
  "1 \<le> unat (pool_size val ok) \<and> unat (pool_size val ok) \<le> 128" "pool_size None ok = 4" "pool_size (Some 0) ok = 1"
  "1 \<le> v \<Longrightarrow> v \<le> 128 \<Longrightarrow> ok \<or> v \<le> 4 \<Longrightarrow> uint (pool_size (Some v) ok) = v" "pool_size (Some (- 1)) True = 128"
proof -
  show "1 \<le> unat (pool_size val ok) \<and> unat (pool_size val ok) \<le> 128"
    by (auto simp: pool_size_def Let_def MAX_THREADPOOL_SIZE_def word_less_nat_alt unat_gt_0 not_less Suc_le_eq split: option.split)
  show "pool_size None ok = 4" "pool_size (Some 0) ok = 1"
    by (simp_all add: pool_size_def MAX_THREADPOOL_SIZE_def word_less_nat_alt)
  show "pool_size (Some (- 1)) True = 128" by code_simp
  assume v: "1 \<le> v" "v \<le> 128" "ok \<or> v \<le> 4"
  then have u: "uint (word_of_int v :: u32) = v" by (simp add: uint_word_of_int)
  then have "(word_of_int v :: u32) \<noteq> 0" "\<not> (word_of_int v :: u32) > MAX_THREADPOOL_SIZE" "(word_of_int v :: u32) > 4 \<longleftrightarrow> v > 4"
    using v by (auto simp: MAX_THREADPOOL_SIZE_def word_less_def)
  then show "uint (pool_size (Some v) ok) = v" using u v by (auto simp: pool_size_def)
qed

section \<open>A run\<close>

text \<open>One loop at 10. A request at 20 is queued, taken by the only thread and executed, a request at 21 is
  queued and cancelled, and the loop completes both.\<close>

definition demo_pool :: pool where
  "demo_pool = \<lparr>qs = \<lparr>qnext = id, qprev = id\<rparr>, idle_threads = 0, nthreads = 0, initialized = False, once_done = False, workers = [],
     mem_w = (\<lambda>_. \<lparr>w_loop = 0, w_work = None, w_done = Queue_done\<rparr>),
     mem_r = (\<lambda>_. \<lparr>rtype = UV_WORK, rloop = 0, work_cb = None, after_work_cb = None\<rparr>),
     cores = (\<lambda>_. \<lparr>handles = (\<lambda>_. undefined), handle_q = \<lparr>qnext = id, qprev = id\<rparr>, active_reqs = \<lparr>qnext = id, qprev = id\<rparr>, active_handles = 0\<rparr>),
     wq_async = (\<lambda>_. False), in_done = (\<lambda>_. None), submits = [], ran = [], calls = [], after_calls = []\<rparr>"

definition demo1 :: pool where
  "demo1 = snd (uv_queue_work (Some 1) True 0 10 20 (Some 5) (Some 6) demo_pool)"

definition demo2 :: pool where
  "demo2 = the (worker 0 0 demo1)"

definition demo3 :: pool where
  "demo3 = snd (uv_queue_work (Some 1) True 0 10 21 (Some 5) None demo2)"

definition demo4 :: pool where
  "demo4 = snd (uv_cancel 21 demo3)"

definition demo5 :: pool where
  "demo5 = the (worker 0 0 demo4)"

definition demo6 :: pool where
  "demo6 = uv__work_done_begin 10 30 demo5"

definition demo7 :: pool where
  "demo7 = the (uv__work_done_next 10 demo6)"

definition demo8 :: pool where
  "demo8 = the (uv__work_done_next 10 demo7)"

definition demo9 :: pool where
  "demo9 = the (uv__work_done_next 10 demo8)"

definition demo10 :: pool where
  "demo10 = the (worker 0 0 demo9)"

lemma demo_start: "pool_start {10} demo_pool"
  by (auto simp: pool_start_def demo_pool_def wq_def exit_message_def represents_def qring_def HEAD_def)

lemma demo_values:
  "workers demo1 = [AtTop]" "in_done demo1 10 = None" "submits demo1 = [20]" "calls demo1 = []"
  "workers demo2 = [Running 20]" "in_done demo2 10 = None" "submits demo2 = [20]" "calls demo2 = []"
  "submits demo3 = [20, 21]" "calls demo3 = []" "ran demo3 = []" "workers demo3 = [Running 20]" "workers demo4 = [Running 20]"
  "workers demo5 = [AtTop]" "in_done demo5 10 = None" "submits demo5 = [20, 21]" "calls demo5 = []"
  by code_simp+

lemma demo_end:
  "calls demo8 = [(21, Fail ECANCELED), (20, OK)]" "ran demo8 = [20]" "submits demo8 = [20, 21]" "workers demo9 = [AtTop]"
  by code_simp+

lemma demo_idle: "workers demo10 = [Waiting]" "in_done demo10 10 = None" "wq_async demo10 10 = False"
  by code_simp+

lemma demo_results:
  "fst (uv_queue_work (Some 1) True 0 10 20 (Some 5) (Some 6) demo_pool) = OK" "worker 0 0 demo1 \<noteq> None"
  "fst (uv_queue_work (Some 1) True 0 10 21 (Some 5) None demo2) = OK" "fst (uv_cancel 21 demo3) = OK" "worker 0 0 demo4 \<noteq> None"
  "uv__work_done_next 10 demo6 \<noteq> None" "uv__work_done_next 10 demo7 \<noteq> None"
  by code_simp+

lemma demo_results_end: "uv__work_done_next 10 demo8 \<noteq> None" "worker 0 0 demo9 \<noteq> None"
  by code_simp+

lemma demo_steps:
  "pool_step {10} demo_pool demo1" "pool_step {10} demo1 demo2" "pool_step {10} demo2 demo3" "pool_step {10} demo3 demo4"
  "pool_step {10} demo4 demo5" "pool_step {10} demo5 demo6" "pool_step {10} demo6 demo7" "pool_step {10} demo7 demo8"
  "pool_step {10} demo8 demo9" "pool_step {10} demo9 demo10"
proof -
  show "pool_step {10} demo_pool demo1"
    by (rule pool_step.queue[of 10 "{10}" 20 demo_pool 0 "Some 1" True "Some 5" "Some 6" OK])
       (use demo_results(1) in \<open>simp_all add: prod_eq_iff demo1_def demo_pool_def in_use_def heads_def wq_def exit_message_def signal_ok_def\<close>)
  show "pool_step {10} demo1 demo2"
    by (rule pool_step.work[of 0 demo1 0]) (use demo_results(2) in \<open>auto simp: demo_values signal_ok_def demo2_def\<close>)
  show "pool_step {10} demo2 demo3"
    by (rule pool_step.queue[of 10 "{10}" 21 demo2 0 "Some 1" True "Some 5" None OK])
       (use demo_results(3) in \<open>simp_all add: prod_eq_iff demo3_def demo_values in_use_def heads_def wq_def exit_message_def signal_ok_def\<close>)
  show "pool_step {10} demo3 demo4"
    by (rule pool_step.cancel[of 21 demo3 OK]) (use demo_results(4) in \<open>simp_all add: prod_eq_iff demo4_def demo_values in_use_def\<close>)
  show "pool_step {10} demo4 demo5"
    by (rule pool_step.work[of 0 demo4 0]) (use demo_results(5) in \<open>auto simp: demo_values signal_ok_def demo5_def\<close>)
  show "pool_step {10} demo5 demo6"
    unfolding demo6_def
    by (rule pool_step.done_begin) (simp_all add: demo_values in_use_def heads_def wq_def exit_message_def)
  show "pool_step {10} demo6 demo7" by (rule pool_step.done_next[of 10]) (use demo_results(6) in \<open>auto simp: demo7_def\<close>)
  show "pool_step {10} demo7 demo8" by (rule pool_step.done_next[of 10]) (use demo_results(7) in \<open>auto simp: demo8_def\<close>)
  show "pool_step {10} demo8 demo9" by (rule pool_step.done_next[of 10]) (use demo_results_end(1) in \<open>auto simp: demo9_def\<close>)
  show "pool_step {10} demo9 demo10"
    by (rule pool_step.work[of 0 demo9 0]) (use demo_results_end(2) in \<open>auto simp: demo_end signal_ok_def demo10_def\<close>)
qed

lemma demo_reach:
  "(pool_step {10})\<^sup>*\<^sup>* demo_pool demo3" "(pool_step {10})\<^sup>*\<^sup>* demo_pool demo8" "(pool_step {10})\<^sup>*\<^sup>* demo_pool demo10"
  using demo_steps by (meson r_into_rtranclp rtranclp_trans)+

theorem pool_runs_or_cancels_once_witness:
  "ran demo8 = [20] \<and> calls demo8 = [(21, Fail ECANCELED), (20, OK)] \<and> count_list (submits demo8) 21 \<le> 0 + 1"
  using pool_runs_or_cancels_once[OF demo_start demo_reach(2), of 21] by (simp add: demo_end)

theorem idle_pool_has_no_work_witness:
  "count_list (map fst (calls demo10)) 20 = count_list (submits demo10) 20"
proof (rule idle_pool_has_no_work[OF demo_start demo_reach(3)])
  show "\<forall>i < length (workers demo10). \<forall>k. worker i k demo10 = None"
    by (simp add: demo_idle worker_def)
qed (simp add: demo_idle)

theorem cancel_outcome_witness:
  "\<exists>s'. uv_cancel 21 demo3 = (OK, s') \<and> 21 \<notin> running demo3 \<and>
     (\<forall>s''. (pool_step {10})\<^sup>*\<^sup>* s' s'' \<longrightarrow> count_list (map fst (calls s'')) 21 = 0 \<longrightarrow> count_list (ran s'') 21 = 0)"
proof -
  obtain s' where c: "uv_cancel 21 demo3 = (OK, s')" using demo_results(4) by (metis prod.collapse)
  have "in_use 21 demo3" by (simp add: in_use_def demo_values)
  from cancel_outcome[OF demo_start demo_reach(1) this c] show ?thesis by (simp add: c demo_values)
qed

theorem pool_never_aborts_witness:
  "worker 0 7 demo3 \<noteq> None \<and> uv__has_active_reqs (cores demo3 10)"
proof -
  have "w_done (mem_w demo3 20) = Queue_done" "w_loop (mem_w demo3 20) = 10" by code_simp+
  then have "\<exists>w. in_use w demo3 \<and> w_loop (mem_w demo3 w) = 10 \<and> w_done (mem_w demo3 w) = Queue_done"
    by (intro exI[of _ 20]) (simp add: in_use_def demo_values)
  moreover have "0 < length (workers demo3)" "workers demo3 ! 0 \<noteq> Waiting" by (simp_all add: demo_values)
  ultimately show ?thesis using pool_never_aborts[OF demo_start demo_reach(1)] by blast
qed

end
