(* ===== verification/Uv_Process.thy ===== *)
theory Uv_Process
  imports Uv_Prelude
begin

text \<open>
  The texts that \<open>libuv-dll/src/win/process.c\<close> makes for a new process: the command line, with its arguments
  quoted, and the search for the program in the directories of \<open>PATH\<close>.

  A text that is only read is the list of its characters up to the terminator. A text that is written is the
  list of the cells written so far, in a block of a given number of cells; a write behind the block is \<open>None\<close>.
  What the system answers is a parameter.
\<close>

type_synonym wstr = "u16 list"

abbreviation (input) DQUOTE :: u16 where "DQUOTE \<equiv> 34"
abbreviation (input) BACKSLASH :: u16 where "BACKSLASH \<equiv> 92"
abbreviation (input) BLANK :: u16 where "BLANK \<equiv> 32"
abbreviation (input) TAB :: u16 where "TAB \<equiv> 9"

section \<open>Writing\<close>

definition put :: "nat \<Rightarrow> u16 \<Rightarrow> wstr \<Rightarrow> wstr option" where
  "put cap c out = (if length out < cap then Some (out @ [c]) else None)"

text \<open>\<open>wcsncpy\<close> fills with zeros; \<open>wcscpy\<close> writes the terminator too.\<close>

definition wcsncpy :: "nat \<Rightarrow> wstr \<Rightarrow> nat \<Rightarrow> wstr \<Rightarrow> wstr option" where
  "wcsncpy cap src n out =
     (if length out + n \<le> cap then Some (out @ take n src @ replicate (n - length src) 0) else None)"

section \<open>The command line\<close>

text \<open>The loop of \<open>quote_cmd_arg\<close>, which writes the argument backwards.\<close>

fun quote_loop :: "nat \<Rightarrow> wstr \<Rightarrow> nat \<Rightarrow> bool \<Rightarrow> wstr \<Rightarrow> wstr option" where
  "quote_loop cap source 0 quote_hit target = Some target"
| "quote_loop cap source (Suc i) quote_hit target = do {
     t1 \<leftarrow> put cap (source ! i) target;
     if quote_hit \<and> source ! i = BACKSLASH
     then do { t2 \<leftarrow> put cap BACKSLASH t1; quote_loop cap source i quote_hit t2 }
     else if source ! i = DQUOTE
     then do { t2 \<leftarrow> put cap BACKSLASH t1; quote_loop cap source i True t2 }
     else quote_loop cap source i False t1
   }"

text \<open>\<open>wcsrev\<close> reverses up to the terminator.\<close>

definition wcsrev :: "nat \<Rightarrow> wstr \<Rightarrow> wstr" where
  "wcsrev start out =
     (let s = takeWhile (\<lambda>c. c \<noteq> 0) (drop start out) in take start out @ rev s @ drop (start + length s) out)"

definition quote_cmd_arg :: "nat \<Rightarrow> wstr \<Rightarrow> wstr \<Rightarrow> wstr option" where
  "quote_cmd_arg cap source target =
     (if source = [] then do { t1 \<leftarrow> put cap DQUOTE target; put cap DQUOTE t1 }
      else if \<not> list_ex (\<lambda>c. c \<in> {BLANK, TAB, DQUOTE}) source then wcsncpy cap source (length source) target
      else if \<not> list_ex (\<lambda>c. c \<in> {DQUOTE, BACKSLASH}) source
      then do {
        t1 \<leftarrow> put cap DQUOTE target; t2 \<leftarrow> wcsncpy cap source (length source) t1; put cap DQUOTE t2
      }
      else do {
        t1 \<leftarrow> put cap DQUOTE target;
        let start = length t1;
        t2 \<leftarrow> quote_loop cap source (length source) True t1;
        _ \<leftarrow> put cap 0 t2;
        put cap DQUOTE (wcsrev start t2)
      })"

text \<open>
  What \<open>make_program_args\<close> needs of the system: the conversion of an argument to wide characters, \<open>None\<close> when
  \<open>MultiByteToWideChar\<close> refuses it with \<open>GetLastError\<close>, and whether memory is there.
\<close>

record args_env =
  utf8_to_wide :: "u8 list \<Rightarrow> wstr option"
  GetLastError :: int
  malloc_dst :: bool
  malloc_temp :: bool

abbreviation (input) ERROR_OUTOFMEMORY :: int where "ERROR_OUTOFMEMORY \<equiv> 14"
abbreviation (input) ERROR_INSUFFICIENT_BUFFER :: int where "ERROR_INSUFFICIENT_BUFFER \<equiv> 122"

text \<open>The first loop: the number of characters with their terminators, and the longest argument.\<close>

fun count_size :: "args_env \<Rightarrow> u8 list list \<Rightarrow> nat \<times> nat \<Rightarrow> int + nat \<times> nat" where
  "count_size W [] (dst_len, temp_len) = Inr (dst_len, temp_len)"
| "count_size W (arg # args) (dst_len, temp_len) =
     (case utf8_to_wide W arg of
        None \<Rightarrow> Inl (GetLastError W)
      | Some w \<Rightarrow> count_size W args (dst_len + (length w + 1), max (length w + 1) temp_len))"

text \<open>
  The second loop. \<open>MultiByteToWideChar\<close> is given the room that is left in \<open>dst\<close>, not the size of \<open>temp_buffer\<close>;
  it refuses a size that is too small, and with size 0 it writes nothing, so that the buffer would be read as it is.
\<close>

fun write_args :: "args_env \<Rightarrow> bool \<Rightarrow> nat \<Rightarrow> nat \<Rightarrow> u8 list list \<Rightarrow> wstr \<Rightarrow> (int + wstr) option" where
  "write_args W verbatim cap temp_len [] pos = Some (Inr pos)"
| "write_args W verbatim cap temp_len (arg # args) pos =
     (case utf8_to_wide W arg of
        None \<Rightarrow> Some (Inl (GetLastError W))
      | Some w \<Rightarrow>
          (if cap - length pos = 0 then None
           else if cap - length pos < length w + 1 then Some (Inl ERROR_INSUFFICIENT_BUFFER)
           else if temp_len < length w + 1 then None
           else do {
             p1 \<leftarrow> (if verbatim
                    then do { p \<leftarrow> wcsncpy cap w (length w) pos; _ \<leftarrow> put cap 0 p; Some p }
                    else quote_cmd_arg cap w pos);
             p2 \<leftarrow> put cap (if args \<noteq> [] then BLANK else 0) p1;
             write_args W verbatim cap temp_len args p2
           }))"

text \<open>The result is the error, or the block \<open>*dst_ptr\<close>: its size and what was written to it.\<close>

definition make_program_args :: "args_env \<Rightarrow> u8 list list \<Rightarrow> bool \<Rightarrow> (int + nat \<times> wstr) option" where
  "make_program_args W args verbatim_arguments =
     (case count_size W args (0, 0) of
        Inl err \<Rightarrow> Some (Inl err)
      | Inr (n, temp_buffer_len) \<Rightarrow>
          (let dst_len = n * 2 + length args * 2 in
           if \<not> malloc_dst W \<or> \<not> malloc_temp W then Some (Inl ERROR_OUTOFMEMORY)
           else do {
             r \<leftarrow> write_args W verbatim_arguments dst_len temp_buffer_len args [];
             case r of Inl err \<Rightarrow> Some (Inl err) | Inr pos \<Rightarrow> Some (Inr (dst_len, pos))
           }))"

section \<open>The search for the program\<close>

abbreviation (input) SLASH :: u16 where "SLASH \<equiv> 47"
abbreviation (input) COLON :: u16 where "COLON \<equiv> 58"
abbreviation (input) SEMICOLON :: u16 where "SEMICOLON \<equiv> 59"
abbreviation (input) APOSTROPHE :: u16 where "APOSTROPHE \<equiv> 39"
abbreviation (input) DOT :: u16 where "DOT \<equiv> 46"

text \<open>
  The part of the system the search asks: whether a path is a file, and how \<open>_wcsnicmp\<close> folds a character.
\<close>

record files =
  is_file :: "wstr \<Rightarrow> bool"
  fold_char :: "u16 \<Rightarrow> u16"

text \<open>\<open>wcsrchr(L"\\/:", c) == NULL\<close>: the terminator counts as found.\<close>

definition no_separator :: "u16 \<Rightarrow> bool" where
  "no_separator c \<longleftrightarrow> c \<notin> {BACKSLASH, SLASH, COLON, 0}"

text \<open>How much of the current directory and of the directory is used.\<close>

definition cwd_and_dir :: "files \<Rightarrow> wstr \<Rightarrow> wstr \<Rightarrow> nat \<times> wstr" where
  "cwd_and_dir F dir cwd =
     (if length dir > 2 \<and> dir ! 0 = BACKSLASH \<and> dir ! 1 = BACKSLASH then (0, dir)
      else if length dir \<ge> 1 \<and> (dir ! 0 = SLASH \<or> dir ! 0 = BACKSLASH) then (2, dir)
      else if length dir \<ge> 2 \<and> dir ! 1 = COLON \<and> (length dir < 3 \<or> dir ! 2 \<noteq> SLASH \<and> dir ! 2 \<noteq> BACKSLASH)
      then (if length cwd < 2 \<or> map (fold_char F) (take 2 cwd) \<noteq> map (fold_char F) (take 2 dir) then (0, dir)
            else (length cwd, drop 2 dir))
      else if length dir > 2 \<and> dir ! 1 = COLON then (0, dir)
      else (length cwd, dir))"

text \<open>The path in its block, with the terminator checked for; memory is there when it is asked for.\<close>

definition join_path :: "files \<Rightarrow> wstr \<Rightarrow> wstr \<Rightarrow> wstr \<Rightarrow> wstr \<Rightarrow> wstr option" where
  "join_path F dir0 name ext cwd = do {
     let (cwd_len, dir) = cwd_and_dir F dir0 cwd;
     let cap = cwd_len + 1 + length dir + 1 + length name + 1 + length ext + 1;
     r1 \<leftarrow> wcsncpy cap cwd cwd_len [];
     r2 \<leftarrow> (if cwd_len \<noteq> 0 \<and> no_separator (last r1) then put cap BACKSLASH r1 else Some r1);
     r3 \<leftarrow> wcsncpy cap dir (length dir) r2;
     r4 \<leftarrow> (if dir \<noteq> [] \<and> no_separator (last r3) then put cap BACKSLASH r3 else Some r3);
     r5 \<leftarrow> wcsncpy cap name (length name) r4;
     r6 \<leftarrow> (if ext \<noteq> []
           then do {
             e1 \<leftarrow> (if name \<noteq> [] \<and> last r5 \<noteq> DOT then put cap DOT r5 else Some r5);
             wcsncpy cap ext (length ext) e1
           }
           else Some r5);
     _ \<leftarrow> put cap 0 r6;
     Some r6
   }"

definition search_path_join_test :: "files \<Rightarrow> wstr \<Rightarrow> wstr \<Rightarrow> wstr \<Rightarrow> wstr \<Rightarrow> wstr option option" where
  "search_path_join_test F dir name ext cwd = do {
     result \<leftarrow> join_path F dir name ext cwd;
     Some (if is_file F (takeWhile (\<lambda>c. c \<noteq> 0) result) then Some result else None)
   }"

definition COM :: wstr where "COM = [99, 111, 109]"
definition EXE :: wstr where "EXE = [101, 120, 101]"

definition path_search_walk_ext :: "files \<Rightarrow> wstr \<Rightarrow> wstr \<Rightarrow> wstr \<Rightarrow> bool \<Rightarrow> wstr option option" where
  "path_search_walk_ext F dir name cwd name_has_ext = do {
     r \<leftarrow> (if name_has_ext then search_path_join_test F dir name [] cwd else Some None);
     if r \<noteq> None then Some r
     else do {
       r1 \<leftarrow> search_path_join_test F dir name COM cwd;
       if r1 \<noteq> None then Some r1 else search_path_join_test F dir name EXE cwd
     }
   }"

text \<open>
  A slice of \<open>PATH\<close> without the quotes around it: its start and its length. A length below zero stands for the
  huge number it is in a \<open>size_t\<close>, for which the copy of the directory runs out of its block.
\<close>

definition unquoted_slice :: "wstr \<Rightarrow> nat \<Rightarrow> nat \<Rightarrow> nat \<times> int" where
  "unquoted_slice path dir_start dir_end =
     (let (dir_path, dir_len) =
            (if path ! dir_start \<in> {DQUOTE, APOSTROPHE} then (dir_start + 1, int (dir_end - dir_start) - 1)
             else (dir_start, int (dir_end - dir_start)))
      in (dir_path, if path ! nat (int dir_path + dir_len - 1) \<in> {DQUOTE, APOSTROPHE} then dir_len - 1 else dir_len))"

definition slice_start :: "wstr \<Rightarrow> nat \<Rightarrow> nat" where
  "slice_start path dir_end = (if dir_end \<noteq> 0 \<or> path ! 0 = SEMICOLON then dir_end + 1 else dir_end)"

definition slice_end :: "wstr \<Rightarrow> nat \<Rightarrow> nat" where
  "slice_end path dir_start = dir_start + length (takeWhile (\<lambda>c. c \<noteq> SEMICOLON) (drop dir_start path))"

lemma slice_moves: "dir_end < length path \<Longrightarrow> dir_end < slice_end path (slice_start path dir_end)"
  by (cases path) (auto simp: slice_start_def slice_end_def)

function scan_path :: "files \<Rightarrow> wstr \<Rightarrow> wstr \<Rightarrow> wstr \<Rightarrow> bool \<Rightarrow> nat \<Rightarrow> wstr option option" where
  "scan_path F fname cwd path name_has_ext dir_end =
     (if length path \<le> dir_end then Some None
      else if slice_end path (slice_start path dir_end) = slice_start path dir_end
      then scan_path F fname cwd path name_has_ext (slice_start path dir_end)
      else
        (case unquoted_slice path (slice_start path dir_end) (slice_end path (slice_start path dir_end)) of
           (dir_path, dir_len) \<Rightarrow>
             if dir_len < 0 then None
             else do {
               r \<leftarrow> path_search_walk_ext F (take (nat dir_len) (drop dir_path path)) fname cwd name_has_ext;
               if r \<noteq> None then Some r
               else scan_path F fname cwd path name_has_ext (slice_end path (slice_start path dir_end))
             }))"
  by pat_completeness auto
termination
proof (relation "measure (\<lambda>(F, fname, cwd, path, name_has_ext, dir_end). length path - dir_end)", goal_cases)
  case (2 F fname cwd path name_has_ext dir_end)
  with slice_moves[of dir_end path] show ?case by auto
next
  case (3 F fname cwd path name_has_ext dir_end)
  with slice_moves[of dir_end path] show ?case by auto
qed auto

declare scan_path.simps [simp del]

text \<open>Where the name begins in a text, and whether it has an extension.\<close>

definition dir_length :: "wstr \<Rightarrow> nat" where
  "dir_length fname = length fname - length (takeWhile (\<lambda>c. c \<notin> {BACKSLASH, SLASH, COLON}) (rev fname))"

definition has_extension :: "wstr \<Rightarrow> bool" where
  "has_extension name = (case dropWhile (\<lambda>c. c \<noteq> DOT) name of c # d # _ \<Rightarrow> True | _ \<Rightarrow> False)"

definition search_path :: "files \<Rightarrow> wstr \<Rightarrow> wstr \<Rightarrow> wstr \<Rightarrow> wstr option option" where
  "search_path F fname cwd path =
     (if fname = [] \<or> fname = [DOT] then Some None
      else
        let n = dir_length fname; name_has_ext = has_extension (drop n fname)
        in if n \<noteq> 0 then path_search_walk_ext F (take n fname) (drop n fname) cwd name_has_ext
           else do {
             r \<leftarrow> path_search_walk_ext F [] fname cwd name_has_ext;
             if r \<noteq> None then Some r else scan_path F fname cwd path name_has_ext 0
           })"

text \<open>\<open>find_path\<close>: the value of \<open>PATH\<close> in a block of variables, each with its terminator, and one more at the end.\<close>

fun find_path :: "wstr list \<Rightarrow> wstr option" where
  "find_path [] = None"
| "find_path (var # vars) =
     (if var = [] then None
      else if take 5 var = [80, 65, 84, 72, 61] then Some (drop 5 var) else find_path vars)"

end
