(* ===== verification/Uv_Search_Props.thy ===== *)
theory Uv_Search_Props
  imports Uv_Process
begin

text \<open>
  The search for a program visits the candidates in the order of \<open>PATH\<close> and stays inside its blocks, but for a
  directory that is a single quote.
\<close>

section \<open>Candidates\<close>

text \<open>The path that is tried for a directory and an extension, without the block it is written to.\<close>

definition separated :: "wstr \<Rightarrow> bool \<Rightarrow> wstr" where
  "separated s used = (if used \<and> no_separator (last s) then s @ [BACKSLASH] else s)"

definition joined :: "files \<Rightarrow> wstr \<Rightarrow> wstr \<Rightarrow> wstr \<Rightarrow> wstr \<Rightarrow> wstr" where
  "joined F dir0 name cwd ext =
     (let (n, dir) = cwd_and_dir F dir0 cwd;
          base = separated (take n cwd @ replicate (n - length cwd) 0) (n \<noteq> 0);
          stem = separated (base @ dir) (dir \<noteq> []) @ name
      in if ext = [] then stem else (if name \<noteq> [] \<and> last stem \<noteq> DOT then stem @ [DOT] else stem) @ ext)"

lemma length_separated: "length (separated s u) \<le> length s + 1"
  by (simp add: separated_def)

lemma put_separator:
  "length s < cap \<Longrightarrow> (if u \<and> no_separator (last s) then put cap BACKSLASH s else Some s) = Some (separated s u)"
  by (simp add: put_def separated_def)

lemma wcsncpy_all: "length out + length s \<le> cap \<Longrightarrow> wcsncpy cap s (length s) out = Some (out @ s)"
  by (simp add: wcsncpy_def)

lemma join_path_joined: "join_path F dir0 name ext cwd = Some (joined F dir0 name cwd ext)"
proof -
  obtain n dir where nd: "cwd_and_dir F dir0 cwd = (n, dir)" by (cases "cwd_and_dir F dir0 cwd")
  define cap where "cap = n + 1 + length dir + 1 + length name + 1 + length ext + 1"
  define r1 where "r1 = take n cwd @ replicate (n - length cwd) 0"
  define r2 where "r2 = separated r1 (n \<noteq> 0)"
  define r4 where "r4 = separated (r2 @ dir) (dir \<noteq> [])"
  have l1: "length r1 = n" by (simp add: r1_def)
  have l2: "length r2 \<le> n + 1" using length_separated[of r1 "n \<noteq> 0"] by (simp add: r2_def l1)
  have l4: "length r4 \<le> n + 1 + length dir + 1" 
    using length_separated[of "r2 @ dir" "dir \<noteq> []"] l2 by (simp add: r4_def)
  have 1: "wcsncpy cap cwd n [] = Some r1" by (simp add: wcsncpy_def cap_def r1_def)
  have 2: "(if n \<noteq> 0 \<and> no_separator (last r1) then put cap BACKSLASH r1 else Some r1) = Some r2"
    unfolding r2_def by (rule put_separator) (simp add: l1 cap_def)
  have 3: "wcsncpy cap dir (length dir) r2 = Some (r2 @ dir)" by (rule wcsncpy_all) (use l2 in \<open>simp add: cap_def\<close>)
  have 4: "(if dir \<noteq> [] \<and> no_separator (last (r2 @ dir)) then put cap BACKSLASH (r2 @ dir) else Some (r2 @ dir)) = Some r4"
    unfolding r4_def by (rule put_separator) (use l2 in \<open>simp add: cap_def\<close>)
  have 5: "wcsncpy cap name (length name) r4 = Some (r4 @ name)" by (rule wcsncpy_all) (use l4 in \<open>simp add: cap_def\<close>)
  note body = join_path_def[of F dir0 name ext cwd, unfolded nd Let_def prod.case cap_def[symmetric] 1 2 3 4 5 bind.bind_lunit]
  have j: "joined F dir0 name cwd ext =
      (if ext = [] then r4 @ name else (if name \<noteq> [] \<and> last (r4 @ name) \<noteq> DOT then (r4 @ name) @ [DOT] else r4 @ name) @ ext)"
    unfolding joined_def nd Let_def prod.case r4_def r2_def r1_def by (rule refl)
  show ?thesis
  proof (cases "ext = []")
    case True
    with l4 show ?thesis unfolding body j by (simp add: put_def cap_def)
  next
    case False
    with l4 show ?thesis unfolding body j by (simp add: put_def wcsncpy_def cap_def last_append)
  qed
qed

definition extensions :: "bool \<Rightarrow> wstr list" where
  "extensions name_has_ext = (if name_has_ext then [[]] else []) @ [COM, EXE]"

definition exists :: "files \<Rightarrow> wstr \<Rightarrow> bool" where
  "exists F p = is_file F (takeWhile (\<lambda>c. c \<noteq> 0) p)"

definition candidates :: "files \<Rightarrow> wstr \<Rightarrow> wstr \<Rightarrow> bool \<Rightarrow> wstr \<Rightarrow> wstr list" where
  "candidates F name cwd name_has_ext dir = map (joined F dir name cwd) (extensions name_has_ext)"

lemma walk_ext_find:
  "path_search_walk_ext F dir name cwd name_has_ext = Some (find (exists F) (candidates F name cwd name_has_ext dir))"
  by (auto simp: path_search_walk_ext_def search_path_join_test_def join_path_joined exists_def candidates_def
      extensions_def)

section \<open>The directories of PATH\<close>

function slices :: "wstr \<Rightarrow> wstr list" where
  "slices cs =
     (if cs = [] then []
      else let s = takeWhile (\<lambda>c. c \<noteq> SEMICOLON) cs; r = drop (length s + 1) cs
           in if s = [] then slices r else s # slices r)"
  by pat_completeness auto
termination
  by (relation "measure length") auto

declare slices.simps [simp del]

text \<open>A directory without the quotes around it; \<open>None\<close> for a single quote.\<close>

definition is_quote :: "u16 \<Rightarrow> bool" where
  "is_quote c \<longleftrightarrow> c \<in> {DQUOTE, APOSTROPHE}"

definition unquote :: "wstr \<Rightarrow> wstr" where
  "unquote s = (let t = (if is_quote (hd s) then tl s else s) in if is_quote (last s) then butlast t else t)"

definition lone_quote :: "wstr \<Rightarrow> bool" where
  "lone_quote s \<longleftrightarrow> (\<exists>c. s = [c] \<and> is_quote c)"

fun scan_dirs :: "files \<Rightarrow> wstr \<Rightarrow> wstr \<Rightarrow> bool \<Rightarrow> wstr list \<Rightarrow> wstr option option" where
  "scan_dirs F name cwd e [] = Some None"
| "scan_dirs F name cwd e (d # ds) =
     (if lone_quote d then None
      else case find (exists F) (candidates F name cwd e (unquote d)) of
             Some p \<Rightarrow> Some (Some p)
           | None \<Rightarrow> scan_dirs F name cwd e ds)"

lemma unquoted_slice_unquote:
  assumes s: "take n (drop i path) = s" "s \<noteq> []" "i + length s \<le> length path" and n: "length s = n"
  shows "case unquoted_slice path i (i + n) of (p, k) \<Rightarrow>
    (k < 0 \<longleftrightarrow> lone_quote s) \<and> (\<not> lone_quote s \<longrightarrow> take (nat k) (drop p path) = unquote s)"
proof -
  have n0: "n \<noteq> 0" using s(2) n by auto
  have h: "path ! i = hd s" using s n0 by (auto simp: hd_drop_conv_nth hd_take)
  have "last s = path ! (i + (n - 1))" using s n n0 by (auto simp: last_conv_nth)
  hence l: "path ! (i + n - 1) = last s" using n0 by simp
  have lone: "lone_quote s \<longleftrightarrow> n = 1 \<and> is_quote (hd s)"
    using n by (cases s) (auto simp: lone_quote_def)
  have tl: "take (n - 1) (drop (i + 1) path) = tl s"
    unfolding s(1)[symmetric] by (simp add: drop_Suc tl_drop[symmetric] tl_take)
  have bl: "take (n - 1) (drop i path) = butlast s"
    unfolding s(1)[symmetric] using s(3) n by (simp add: butlast_take)
  have tb: "take (n - 2) (drop (i + 1) path) = butlast (tl s)"
    using n s(3) by (simp add: tl[symmetric] butlast_take numeral_2_eq_2)
  define p where "p = (if is_quote (hd s) then i + 1 else i)"
  define k where "k = (if is_quote (hd s) then int n - 1 else int n)"
  have "nat (int i + (int n - 1)) = i + n - 1" "nat (int i + int n - 1) = i + n - 1" using n0 by auto
  hence e: "path ! nat (int i + (int n - 1)) = last s" "path ! nat (int i + int n - 1) = last s" by (simp_all only: l)
  have u: "unquoted_slice path i (i + n) = (p, if is_quote (last s) then k - 1 else k)"
    by (simp add: unquoted_slice_def h p_def k_def is_quote_def e)
  consider "is_quote (hd s)" "is_quote (last s)" | "is_quote (hd s)" "\<not> is_quote (last s)"
    | "\<not> is_quote (hd s)" "is_quote (last s)" | "\<not> is_quote (hd s)" "\<not> is_quote (last s)" by blast
  thus ?thesis
  proof cases
    case 1
    with u lone tb n0 show ?thesis by (auto simp: p_def k_def unquote_def nat_diff_distrib)
  next
    case 2
    hence "n \<noteq> 1" using n s(2) by (cases s) auto
    with 2 u lone tl n0 show ?thesis by (auto simp: p_def k_def unquote_def nat_diff_distrib)
  next
    case 3
    hence "n \<noteq> 1" using n s(2) by (cases s) auto
    with 3 u lone bl n0 show ?thesis by (auto simp: p_def k_def unquote_def nat_diff_distrib)
  next
    case 4
    with u lone s(1) n0 show ?thesis by (auto simp: p_def k_def unquote_def)
  qed
qed

text \<open>The walk with two positions is the walk over the slices.\<close>

lemma scan_path_slices:
  assumes "dir_end = 0 \<or> (dir_end < length path \<longrightarrow> path ! dir_end = SEMICOLON)"
  shows "scan_path F name cwd path e dir_end =
    (if length path \<le> dir_end then Some None else scan_dirs F name cwd e (slices (drop (slice_start path dir_end) path)))"
  using assms
proof (induction "length path - dir_end" arbitrary: dir_end rule: less_induct)
  case less
  show ?case
  proof (cases "length path \<le> dir_end")
    case True
    thus ?thesis by (subst scan_path.simps) simp
  next
    case False
    define i where "i = slice_start path dir_end"
    define j where "j = slice_end path i"
    define s where "s = takeWhile (\<lambda>c. c \<noteq> SEMICOLON) (drop i path)"
    have j: "j = i + length s" by (simp add: j_def slice_end_def s_def)
    have moved: "dir_end < j" using slice_moves[of dir_end path] False by (simp add: i_def j_def)
    have sj: "take (length s) (drop i path) = s" unfolding s_def by (rule takeWhile_eq_take[symmetric])
    have jl: "length s \<le> length path - i" by (metis length_drop length_takeWhile_le s_def)
    have at_j: "j < length path \<longrightarrow> path ! j = SEMICOLON"
    proof
      assume "j < length path"
      hence len: "i \<le> length path" "length s < length (drop i path)" by (simp_all add: j)
      from nth_length_takeWhile[OF len(2)[unfolded s_def]] len(1) show "path ! j = SEMICOLON"
        by (simp add: s_def[symmetric] j jl)
    qed
    have j0: "j \<noteq> 0" using moved by simp
    have rest: "scan_path F name cwd path e j = scan_dirs F name cwd e (slices (drop (j + 1) path))"
    proof -
      have "length path - j < length path - dir_end" using moved False by simp
      from less.hyps[OF this] at_j j0 show ?thesis
        by (auto simp: slice_start_def slices.simps[of "[]"])
    qed
    have body: "scan_path F name cwd path e dir_end =
      (if j = i then scan_path F name cwd path e i
       else case unquoted_slice path i j of (dir_path, dir_len) \<Rightarrow>
         if dir_len < 0 then None
         else do {
           r \<leftarrow> path_search_walk_ext F (take (nat dir_len) (drop dir_path path)) name cwd e;
           if r \<noteq> None then Some r else scan_path F name cwd path e j
         })"
      unfolding j_def i_def using False by (subst scan_path.simps) simp
    show ?thesis
    proof (cases "s = []")
      case True
      hence ji: "j = i" by (simp add: j)
      have "slices (drop i path) = slices (drop (i + 1) path)"
      proof (cases "i < length path")
        case True
        with \<open>s = []\<close> show ?thesis by (subst slices.simps) (simp add: s_def[symmetric] Let_def)
      qed (simp add: slices.simps[of "[]"])
      moreover have "scan_path F name cwd path e dir_end = scan_path F name cwd path e j"
        unfolding body using ji by simp
      ultimately show ?thesis using rest ji False by (simp add: i_def[symmetric])
    next
      case False
      have "i < length path"
      proof (rule ccontr)
        assume "\<not> i < length path"
        with False show False by (simp add: s_def)
      qed
      hence il: "i + length s \<le> length path" using jl by simp
      have sl: "slices (drop i path) = s # slices (drop (j + 1) path)"
        using False \<open>i < length path\<close> by (subst slices.simps) (simp add: s_def[symmetric] Let_def j add.commute)
      obtain p k where pk: "unquoted_slice path i j = (p, k)" by (cases "unquoted_slice path i j")
      from unquoted_slice_unquote[OF sj False il refl] pk j have
        k: "k < 0 \<longleftrightarrow> lone_quote s" "\<not> lone_quote s \<Longrightarrow> take (nat k) (drop p path) = unquote s" by auto
      have "j \<noteq> i" using False by (simp add: j)
      with k rest pk \<open>\<not> length path \<le> dir_end\<close> sl show ?thesis
        unfolding body by (auto simp: walk_ext_find i_def[symmetric] split: option.splits)
    qed
  qed
qed

lemma scan_path_dirs: "scan_path F name cwd path e 0 = scan_dirs F name cwd e (slices path)"
proof (cases path)
  case Nil
  thus ?thesis by (subst scan_path.simps) (simp add: slices.simps[of "[]"])
next
  case (Cons c cs)
  have "slices path = slices (drop (slice_start path 0) path)"
  proof (cases "c = SEMICOLON")
    case True
    thus ?thesis by (subst slices.simps) (simp add: slice_start_def Cons)
  qed (simp add: slice_start_def Cons)
  with Cons scan_path_slices[of 0 path F name cwd e] show ?thesis by simp
qed

section \<open>Properties\<close>

lemma find_append: "find P (xs @ ys) = (case find P xs of None \<Rightarrow> find P ys | Some x \<Rightarrow> Some x)"
  by (induction xs) auto

lemma scan_dirs_find:
  "\<forall>d \<in> set ds. \<not> lone_quote d \<Longrightarrow>
    scan_dirs F name cwd e ds = Some (find (exists F) (concat (map (\<lambda>d. candidates F name cwd e (unquote d)) ds)))"
  by (induction ds) (auto simp: find_append split: option.splits)

lemma scan_dirs_fault:
  "lone_quote q \<Longrightarrow> \<forall>d \<in> set ds. \<not> lone_quote d \<Longrightarrow> find (exists F) (concat (map (\<lambda>d. candidates F name cwd e (unquote d)) ds)) = None \<Longrightarrow>
    scan_dirs F name cwd e (ds @ q # es) = None"
  by (induction ds) (auto simp: find_append split: option.splits)

text \<open>The candidates of a search, in their order.\<close>

definition search_candidates :: "files \<Rightarrow> wstr \<Rightarrow> wstr \<Rightarrow> wstr \<Rightarrow> wstr list" where
  "search_candidates F fname cwd path =
     (let n = dir_length fname; e = has_extension (drop n fname)
      in if fname = [] \<or> fname = [DOT] then []
         else if n \<noteq> 0 then candidates F (drop n fname) cwd e (take n fname)
         else concat (map (candidates F fname cwd e) ([] # map unquote (slices path))))"

text \<open>
  C16: the search returns the first file among its candidates: those of the directory in the name, when it has one, and
  otherwise those of the current directory and of the directories of \<open>PATH\<close>, without their quotes, in their order;
  in each the name itself when it has an extension, then with \<open>com\<close> and with \<open>exe\<close>. It stays inside its blocks
  and inside \<open>PATH\<close> as long as no directory of \<open>PATH\<close> is a single quote.
\<close>

theorem search_path_first_file:
  assumes "\<forall>d \<in> set (slices path). \<not> lone_quote d"
  shows "search_path F fname cwd path = Some (find (exists F) (search_candidates F fname cwd path))"
proof -
  have m: "map (\<lambda>d. candidates F fname cwd e (unquote d)) ds = map (candidates F fname cwd e) (map unquote ds)" for e ds by simp
  show ?thesis
    using scan_dirs_find[OF assms, of F fname cwd "has_extension fname"]
    by (auto simp: search_path_def search_candidates_def Let_def walk_ext_find scan_path_dirs find_append m
        simp del: map_map split: option.splits)
qed

text \<open>\<open>PATH\<close> is \<open>a;"b"\<close> and the file is \<open>b\x.exe\<close>, searched from \<open>C:\\<close>.\<close>

definition one_file :: files where
  "one_file = \<lparr>is_file = \<lambda>p. p = [67, 58, 92, 98, 92, 120, 46, 101, 120, 101], fold_char = \<lambda>c. c\<rparr>"

lemma slices_ab: "slices [97, 59, 34, 98, 34] = [[97], [34, 98, 34]]"
  by code_simp

theorem search_path_first_file_witness:
  "search_path one_file [120] [67, 58, 92] [97, 59, 34, 98, 34] = Some (Some [67, 58, 92, 98, 92, 120, 46, 101, 120, 101])"
proof -
  have "\<forall>d \<in> set (slices [97, 59, 34, 98, 34]). \<not> lone_quote d" by (simp add: slices_ab lone_quote_def is_quote_def)
  from search_path_first_file[OF this, of one_file "[120]" "[67, 58, 92]"] show ?thesis
    by (simp add: search_candidates_def slices_ab) code_simp
qed

text \<open>
  C38: a directory of \<open>PATH\<close> that is a single quote, behind directories without the program: its length becomes the
  greatest number there is, and the copy of the directory writes behind its block.
\<close>

theorem search_path_lone_quote:
  assumes "slices path = ds @ q # es" and "lone_quote q" and "\<forall>d \<in> set ds. \<not> lone_quote d"
    and "fname \<noteq> []" and "fname \<noteq> [DOT]" and "dir_length fname = 0"
    and "find (exists F) (concat (map (candidates F fname cwd (has_extension fname)) ([] # map unquote ds))) = None"
  shows "search_path F fname cwd path = None"
proof -
  have m: "map (\<lambda>d. candidates F fname cwd e (unquote d)) ds = map (candidates F fname cwd e) (map unquote ds)" for e ds by simp
  from assms(7) have
    1: "find (exists F) (candidates F fname cwd (has_extension fname) []) = None"
      "find (exists F) (concat (map (\<lambda>d. candidates F fname cwd (has_extension fname) (unquote d)) ds)) = None"
    by (auto simp: find_append m simp del: map_map split: option.splits)
  from scan_dirs_fault[OF assms(2,3) 1(2), of es] assms(4-6) 1(1) show ?thesis
    by (simp add: search_path_def walk_ext_find scan_path_dirs assms(1))
qed

definition no_file :: files where
  "no_file = \<lparr>is_file = \<lambda>p. False, fold_char = \<lambda>c. c\<rparr>"

theorem search_path_lone_quote_witness: "search_path no_file [120] [67, 58, 92] [97, 59, 34, 59, 98] = None"
proof (rule search_path_lone_quote[of _ "[[97]]" "[34]" "[[98]]"])
  show "slices [97, 59, 34, 59, 98] = [[97]] @ [34] # [[98]]" by code_simp
  show "find (exists no_file) (concat (map (candidates no_file [120] [67, 58, 92] (has_extension [120])) ([] # map unquote [[97]]))) = None"
    by code_simp
qed (simp_all add: lone_quote_def is_quote_def dir_length_def)

text \<open>\<open>find_path\<close> takes the name as it is written: \<open>Path=a\<close> is not found.\<close>

lemma find_path_case: "find_path [[80, 97, 116, 104, 61, 97]] = None"
  by code_simp

end
