(* ===== verification/Uv_Environ.thy ===== *)
theory Uv_Environ
  imports Uv_Process "HOL-Library.List_Lexorder" "HOL-Library.Multiset"
begin

text \<open>
  The block of variables for a new process, \<open>make_program_env\<close> of \<open>libuv-dll/src/win/process.c\<close>: the given
  variables in the order of their names in capitals, and those of the parent that Windows programs need.

  The conversion to capitals, the variables of the parent and \<open>qsort\<close> are parameters; so are the conversion of
  texts and the memory, as for the command line (\<open>malloc_temp\<close> is for the copy).
\<close>

record vars_env = args_env +
  upcase :: "wstr \<Rightarrow> wstr"
  variable :: "wstr \<Rightarrow> wstr option"
  qsort :: "(wstr \<Rightarrow> wstr \<Rightarrow> int) \<Rightarrow> wstr list \<Rightarrow> wstr list"

abbreviation (input) EQUALS :: u16 where "EQUALS \<equiv> 61"

section \<open>Names\<close>

definition wide_text :: "string \<Rightarrow> wstr" where
  "wide_text = map (\<lambda>c. word_of_nat (of_char c))"

definition required_vars :: "wstr list" where
  "required_vars = map wide_text [''HOMEDRIVE'', ''HOMEPATH'', ''LOGONSERVER'', ''PATH'', ''SYSTEMDRIVE'', ''SYSTEMROOT'',
     ''TEMP'', ''USERDOMAIN'', ''USERNAME'', ''USERPROFILE'', ''WINDIR'']"

text \<open>The loop at the end of \<open>env_strncmp\<close>; both texts end with a zero.\<close>

fun compare_cells :: "wstr \<Rightarrow> wstr \<Rightarrow> int" where
  "compare_cells [] [] = 0"
| "compare_cells [] (b # B) = - 1"
| "compare_cells (a # A) [] = 1"
| "compare_cells (a # A) (b # B) = (if a < b then - 1 else if b < a then 1 else compare_cells A B)"

definition name_of :: "wstr \<Rightarrow> wstr" where
  "name_of var = takeWhile (\<lambda>c. c \<noteq> EQUALS) var"

definition env_strncmp :: "'a vars_env_scheme \<Rightarrow> wstr \<Rightarrow> wstr \<Rightarrow> int" where
  "env_strncmp W a b = compare_cells (upcase W (name_of a)) (upcase W (name_of b))"

section \<open>The passes\<close>

text \<open>
  The first two passes: the size, and the copies of the variables, which are those with an equals sign. The copy
  of a variable fails when the room that is left is too small.
\<close>

fun env_length :: "'a vars_env_scheme \<Rightarrow> u8 list list \<Rightarrow> nat \<Rightarrow> int + nat" where
  "env_length W [] env_len = Inr env_len"
| "env_length W (env # envs) env_len =
     (if 61 \<notin> set env then env_length W envs env_len
      else case utf8_to_wide W env of
             None \<Rightarrow> Inl (GetLastError W)
           | Some w \<Rightarrow> env_length W envs (env_len + (length w + 1)))"

fun env_copies :: "'a vars_env_scheme \<Rightarrow> nat \<Rightarrow> u8 list list \<Rightarrow> nat \<Rightarrow> int + wstr list \<times> nat" where
  "env_copies W env_len [] used = Inr ([], used)"
| "env_copies W env_len (env # envs) used =
     (if 61 \<notin> set env then env_copies W env_len envs used
      else case utf8_to_wide W env of
             None \<Rightarrow> Inl (GetLastError W)
           | Some w \<Rightarrow>
               (if env_len - used < length w + 1 then Inl ERROR_INSUFFICIENT_BUFFER
                else case env_copies W env_len envs (used + (length w + 1)) of
                       Inl err \<Rightarrow> Inl err
                     | Inr (ws, n) \<Rightarrow> Inr (w # ws, n)))"

text \<open>
  The third pass looks for the required variables in the sorted copies. It returns \<open>required_vars_value_len\<close>,
  \<open>None\<close> where it is not written, and the size of what has to be added.
\<close>

definition value_len :: "'a vars_env_scheme \<Rightarrow> wstr \<Rightarrow> nat" where
  "value_len W r = (case variable W r of None \<Rightarrow> 0 | Some v \<Rightarrow> length v + 1)"

fun missing_vars :: "'a vars_env_scheme \<Rightarrow> wstr list \<Rightarrow> wstr list \<Rightarrow> nat option list \<times> nat" where
  "missing_vars W [] vs = ([], 0)"
| "missing_vars W (r # rs) [] =
     (let (lens, n) = missing_vars W rs []; l = value_len W r
      in (Some l # lens, n + (if l \<noteq> 0 then length r + 1 + l else 0)))"
| "missing_vars W (r # rs) (v # vs) =
     (let cmp = env_strncmp W (r @ [EQUALS]) v
      in if cmp < 0
         then (let (lens, n) = missing_vars W rs (v # vs); l = value_len W r
               in (Some l # lens, n + (if l \<noteq> 0 then length r + 1 + l else 0)))
         else if cmp = 0 then (let (lens, n) = missing_vars W rs vs in (None # lens, n))
         else missing_vars W (r # rs) vs)"

text \<open>
  A required variable in the final pass: \<open>wcscpy\<close> of the name and \<open>GetEnvironmentVariableW\<close> with the room left;
  a value of another length than before ends the program.
\<close>

definition add_required :: "'a vars_env_scheme \<Rightarrow> nat \<Rightarrow> nat \<Rightarrow> wstr \<Rightarrow> nat option \<Rightarrow> wstr \<Rightarrow> wstr option" where
  "add_required W cap env_len r len out =
     (case len of
        None \<Rightarrow> None
      | Some 0 \<Rightarrow> Some out
      | Some (Suc l) \<Rightarrow> do {
          out1 \<leftarrow> wcsncpy cap (r @ [EQUALS]) (length r + 1) out;
          _ \<leftarrow> put cap 0 out1;
          v \<leftarrow> variable W r;
          if length v \<noteq> l \<or> env_len - length out1 < length v + 1 then None
          else wcsncpy cap (v @ [0]) (length v + 1) out1
        })"

definition copy_var :: "nat \<Rightarrow> wstr \<Rightarrow> wstr \<Rightarrow> wstr option" where
  "copy_var cap v out = wcsncpy cap (v @ [0]) (length v + 1) out"

fun final_pass ::
  "'a vars_env_scheme \<Rightarrow> nat \<Rightarrow> nat \<Rightarrow> wstr list \<Rightarrow> nat option list \<Rightarrow> wstr list \<Rightarrow> wstr \<Rightarrow> wstr option" where
  "final_pass W cap env_len (r # rs) (l # ls) [] out = do {
     out1 \<leftarrow> add_required W cap env_len r l out; final_pass W cap env_len rs ls [] out1
   }"
| "final_pass W cap env_len (r # rs) (l # ls) (v # vs) out =
     (let cmp = env_strncmp W (r @ [EQUALS]) v
      in if cmp < 0
         then do { out1 \<leftarrow> add_required W cap env_len r l out; final_pass W cap env_len rs ls (v # vs) out1 }
         else do {
           out1 \<leftarrow> copy_var cap v out;
           if cmp = 0 then final_pass W cap env_len rs ls vs out1
           else final_pass W cap env_len (r # rs) (l # ls) vs out1
         })"
| "final_pass W cap env_len rs ls (v # vs) out = do {
     out1 \<leftarrow> copy_var cap v out; final_pass W cap env_len rs ls vs out1
   }"
| "final_pass W cap env_len rs ls [] out = Some out"

text \<open>
  The whole function, with its assertions: the copies fill their block, each has the equals sign that
  \<open>env_strncmp\<close> asserts, and the last pass writes what the third has counted.
\<close>

definition make_program_env :: "'a vars_env_scheme \<Rightarrow> u8 list list \<Rightarrow> (int + wstr) option" where
  "make_program_env W env_block =
     (case env_length W env_block 0 of
        Inl err \<Rightarrow> Some (Inl err)
      | Inr env_len \<Rightarrow>
          (if \<not> malloc_temp W then Some (Inl ERROR_OUTOFMEMORY)
           else case env_copies W env_len env_block 0 of
             Inl err \<Rightarrow> Some (Inl err)
           | Inr (copies, used) \<Rightarrow>
               (if env_len \<noteq> used \<or> (\<exists>v \<in> set copies. EQUALS \<notin> set v) then None
                else
                  let env_copy = qsort W (env_strncmp W) copies;
                      (lens, n) = missing_vars W required_vars env_copy;
                      env_len1 = env_len + n
                  in if \<not> malloc_dst W then Some (Inl ERROR_OUTOFMEMORY)
                     else do {
                       out \<leftarrow> final_pass W (1 + env_len1) env_len1 required_vars lens env_copy [];
                       if env_len1 \<noteq> length out then None
                       else do { out1 \<leftarrow> put (1 + env_len1) 0 out; Some (Inr out1) }
                     })))"

end
