(* ===== verification/Uv_Environ_Props.thy ===== *)
theory Uv_Environ_Props
  imports Uv_Environ
begin

text \<open>
  The block of variables holds every given variable and every required one that is not given, in the order of
  their names; the sizes that were counted are those that are written, so that no assertion fails.
\<close>

section \<open>The order of names\<close>

lemma compare_cells_order: "compare_cells a b = (if a < b then - 1 else if b < a then 1 else 0)"
  by (induction a b rule: compare_cells.induct) auto

definition key :: "'a vars_env_scheme \<Rightarrow> wstr \<Rightarrow> wstr" where
  "key W var = upcase W (name_of var)"

lemma name_of_required: "EQUALS \<notin> set r \<Longrightarrow> name_of (r @ EQUALS # v) = r"
  unfolding name_of_def by (subst takeWhile_append2) auto

lemma env_strncmp_required:
  assumes "EQUALS \<notin> set r"
  shows "env_strncmp W (r @ [EQUALS]) v < 0 \<longleftrightarrow> upcase W r < key W v"
    and "env_strncmp W (r @ [EQUALS]) v = 0 \<longleftrightarrow> upcase W r = key W v"
  using name_of_required[OF assms, of "[]"] by (auto simp: env_strncmp_def key_def compare_cells_order)

section \<open>The merge\<close>

text \<open>The variable of the parent, when it has one.\<close>

definition inherited :: "'a vars_env_scheme \<Rightarrow> wstr \<Rightarrow> wstr list" where
  "inherited W r = (case variable W r of None \<Rightarrow> [] | Some v \<Rightarrow> [r @ EQUALS # v])"

fun merge_required :: "'a vars_env_scheme \<Rightarrow> wstr list \<Rightarrow> wstr list \<Rightarrow> wstr list" where
  "merge_required W [] vs = vs"
| "merge_required W (r # rs) [] = inherited W r @ merge_required W rs []"
| "merge_required W (r # rs) (v # vs) =
     (if upcase W r < key W v then inherited W r @ merge_required W rs (v # vs)
      else if upcase W r = key W v then v # merge_required W rs vs
      else v # merge_required W (r # rs) vs)"

definition block :: "wstr list \<Rightarrow> wstr" where
  "block vs = concat (map (\<lambda>v. v @ [0]) vs)"

lemma block_simps [simp]: "block [] = []" "block (v # vs) = v @ 0 # block vs" "block (us @ vs) = block us @ block vs"
  by (simp_all add: block_def)

lemma length_inherited: "length (block (inherited W r)) = (if value_len W r \<noteq> 0 then length r + 1 + value_len W r else 0)"
  by (auto simp: inherited_def value_len_def split: option.splits)

text \<open>The third pass counts what the last one writes.\<close>

lemma missing_vars_size:
  "\<forall>r \<in> set rs. EQUALS \<notin> set r \<Longrightarrow>
    length (block (merge_required W rs vs)) = length (block vs) + snd (missing_vars W rs vs)"
proof (induction W rs vs rule: merge_required.induct)
  case (2 W r rs)
  thus ?case by (simp add: length_inherited case_prod_beta Let_def)
next
  case (3 W r rs v vs)
  note c = env_strncmp_required[of r W v]
  from 3 c show ?case by (auto simp: length_inherited case_prod_beta Let_def)
qed simp

lemma missing_vars_Cons: "fst (missing_vars W (r # rs) vs) \<noteq> []"
  by (induction vs) (simp_all add: case_prod_beta Let_def)

lemma add_required_writes:
  assumes room: "length out + length (block (inherited W r)) \<le> n"
  shows "add_required W (1 + n) n r (Some (value_len W r)) out = Some (out @ block (inherited W r))"
proof (cases "variable W r")
  case None
  thus ?thesis by (simp add: add_required_def value_len_def inherited_def)
next
  case (Some v)
  with room show ?thesis
    by (simp add: add_required_def value_len_def inherited_def wcsncpy_def put_def)
qed

lemma copy_var_writes: "length out + length v + 1 \<le> n \<Longrightarrow> copy_var (1 + n) v out = Some (out @ v @ [0])"
  by (simp add: copy_var_def wcsncpy_def)

lemma final_pass_writes:
  "\<forall>r \<in> set rs. EQUALS \<notin> set r \<Longrightarrow> length out + length (block (merge_required W rs vs)) \<le> n \<Longrightarrow>
    final_pass W (1 + n) n rs (fst (missing_vars W rs vs)) vs out = Some (out @ block (merge_required W rs vs))"
proof (induction W rs vs arbitrary: out rule: merge_required.induct)
  case (1 W vs)
  thus ?case
  proof (induction vs arbitrary: out)
    case (Cons v vs)
    from Cons.prems copy_var_writes[of out v n] have "copy_var (1 + n) v out = Some (out @ v @ [0])" by simp
    with Cons.IH[of "out @ v @ [0]"] Cons.prems show ?case by simp
  qed simp
next
  case (2 W r rs)
  from "2.prems" add_required_writes[of out W r n] have
    "add_required W (1 + n) n r (Some (value_len W r)) out = Some (out @ block (inherited W r))" by simp
  with 2 show ?case by (simp add: case_prod_beta Let_def)
next
  case (3 W r rs v vs)
  have r: "EQUALS \<notin> set r" and rs: "\<forall>r \<in> set rs. EQUALS \<notin> set r" using "3.prems"(1) by auto
  note c = env_strncmp_required[OF r, of W v]
  consider "upcase W r < key W v" | "upcase W r = key W v" | "key W v < upcase W r" by (meson linorder_cases)
  thus ?case
  proof cases
    case 1
    with "3.prems"(2) add_required_writes[of out W r n] have
      "add_required W (1 + n) n r (Some (value_len W r)) out = Some (out @ block (inherited W r))" by simp
    with 1 c "3.IH"(1)[OF 1 rs] "3.prems"(2) show ?thesis by (simp add: case_prod_beta Let_def)
  next
    case 2
    with "3.prems"(2) copy_var_writes[of out v n] have "copy_var (1 + n) v out = Some (out @ v @ [0])" by simp
    with 2 c "3.IH"(2)[OF _ 2 rs] "3.prems"(2) show ?thesis by (simp add: case_prod_beta Let_def)
  next
    case 3
    hence n: "\<not> upcase W r < key W v" "upcase W r \<noteq> key W v" by auto
    with "3.prems"(2) copy_var_writes[of out v n] have "copy_var (1 + n) v out = Some (out @ v @ [0])" by simp
    moreover obtain l ls where m: "fst (missing_vars W (r # rs) vs) = l # ls"
      using missing_vars_Cons[of W r rs vs] by (cases "fst (missing_vars W (r # rs) vs)") auto
    ultimately show ?thesis
      using n c "3.IH"(3)[OF n "3.prems"(1), of "out @ v @ [0]"] "3.prems"(2) by (simp add: Let_def)
  qed
qed

text \<open>What the merge holds, when both lists are in order.\<close>

definition is_missing :: "'a vars_env_scheme \<Rightarrow> wstr list \<Rightarrow> wstr \<Rightarrow> bool" where
  "is_missing W vs r \<longleftrightarrow> upcase W r \<notin> key W ` set vs"

lemma merge_required_mset:
  "sorted_wrt (<) (map (upcase W) rs) \<Longrightarrow> sorted (map (key W) vs) \<Longrightarrow>
    mset (merge_required W rs vs) = mset vs + mset (concat (map (inherited W) (filter (is_missing W vs) rs)))"
proof (induction W rs vs rule: merge_required.induct)
  case (2 W r rs)
  thus ?case by (simp add: is_missing_def)
next
  case (3 W r rs v vs)
  have rs: "sorted_wrt (<) (map (upcase W) rs)" "\<forall>r' \<in> set rs. upcase W r < upcase W r'"
    and vs: "sorted (map (key W) vs)" "\<forall>v' \<in> set vs. key W v \<le> key W v'" using "3.prems" by auto
  consider "upcase W r < key W v" | "upcase W r = key W v" | "key W v < upcase W r" by (meson linorder_cases)
  thus ?case
  proof cases
    case 1
    hence "is_missing W (v # vs) r" using vs(2) by (auto simp: is_missing_def)
    with 1 "3.IH"(1)[OF 1 rs(1) "3.prems"(2)] show ?thesis by simp
  next
    case 2
    hence "\<not> is_missing W (v # vs) r" by (simp add: is_missing_def)
    moreover have "filter (is_missing W (v # vs)) rs = filter (is_missing W vs) rs"
      by (rule filter_cong) (use rs(2) 2 in \<open>auto simp: is_missing_def\<close>)
    ultimately show ?thesis using 2 "3.IH"(2)[OF _ 2 rs(1) vs(1)] by simp
  next
    case 3
    hence n: "\<not> upcase W r < key W v" "upcase W r \<noteq> key W v" by auto
    have "filter (is_missing W (v # vs)) (r # rs) = filter (is_missing W vs) (r # rs)"
      by (rule filter_cong) (use rs(2) 3 in \<open>auto simp: is_missing_def\<close>)
    with n "3.IH"(3)[OF n "3.prems"(1) vs(1)] show ?thesis by simp
  qed
qed simp

lemma key_inherited:
  "EQUALS \<notin> set r \<Longrightarrow> x \<in> set (inherited W r) \<Longrightarrow> key W x = upcase W r"
  by (auto simp: inherited_def key_def name_of_required split: option.splits)

lemma merge_required_keys:
  "\<forall>r \<in> set rs. EQUALS \<notin> set r \<Longrightarrow> x \<in> set (merge_required W rs vs) \<Longrightarrow>
    key W x \<in> key W ` set vs \<union> upcase W ` set rs"
  by (induction W rs vs rule: merge_required.induct) (auto simp: key_inherited split: if_splits)

lemma merge_required_sorted:
  "\<forall>r \<in> set rs. EQUALS \<notin> set r \<Longrightarrow> sorted_wrt (<) (map (upcase W) rs) \<Longrightarrow> sorted (map (key W) vs) \<Longrightarrow>
    sorted (map (key W) (merge_required W rs vs))"
proof (induction W rs vs rule: merge_required.induct)
  case (2 W r rs)
  have "upcase W r \<le> key W x" if "x \<in> set (merge_required W rs [])" for x
    using merge_required_keys[of rs x W "[]"] that "2.prems" by auto
  with 2 show ?case by (auto simp: sorted_append key_inherited inherited_def split: option.splits)
next
  case (3 W r rs v vs)
  have e: "\<forall>r \<in> set rs. EQUALS \<notin> set r" "EQUALS \<notin> set r" using "3.prems" by auto
  have rs: "sorted_wrt (<) (map (upcase W) rs)" "\<forall>r' \<in> set rs. upcase W r < upcase W r'"
    and vs: "sorted (map (key W) vs)" "\<forall>v' \<in> set vs. key W v \<le> key W v'" using "3.prems" by auto
  consider "upcase W r < key W v" | "upcase W r = key W v" | "key W v < upcase W r" by (meson linorder_cases)
  thus ?case
  proof cases
    case 1
    have "upcase W r \<le> key W x" if "x \<in> set (merge_required W rs (v # vs))" for x
      using merge_required_keys[OF e(1) that] rs(2) vs(2) 1 by fastforce
    with 1 "3.IH"(1)[OF 1 e(1) rs(1) "3.prems"(3)] key_inherited[OF e(2), of _ W] show ?thesis
      by (auto simp: sorted_append inherited_def split: option.splits)
  next
    case 2
    have "key W v \<le> key W x" if "x \<in> set (merge_required W rs vs)" for x
      using merge_required_keys[OF e(1) that] rs(2) vs(2) 2 by fastforce
    with 2 "3.IH"(2)[OF _ 2 e(1) rs(1) vs(1)] show ?thesis by auto
  next
    case 3
    hence n: "\<not> upcase W r < key W v" "upcase W r \<noteq> key W v" by auto
    have "key W v \<le> key W x" if "x \<in> set (merge_required W (r # rs) vs)" for x
      using merge_required_keys[OF "3.prems"(1) that] rs(2) vs(2) 3 by fastforce
    with n "3.IH"(3)[OF n "3.prems"(1,2) vs(1)] show ?thesis by auto
  qed
qed simp

section \<open>The whole function\<close>

lemma required_vars_ok: "\<forall>r \<in> set required_vars. EQUALS \<notin> set r" "sorted_wrt (<) required_vars"
  by code_simp+

definition with_equals :: "u8 list list \<Rightarrow> u8 list list" where
  "with_equals envs = filter (\<lambda>env. 61 \<in> set env) envs"

lemma env_length_result:
  "map (utf8_to_wide W) (with_equals envs) = map Some ws \<Longrightarrow> env_length W envs n = Inr (n + length (block ws))"
proof (induction envs arbitrary: ws n)
  case (Cons env envs)
  show ?case
  proof (cases "61 \<in> set env")
    case True
    with Cons.prems obtain w ws' where "ws = w # ws'" "utf8_to_wide W env = Some w"
      "map (utf8_to_wide W) (with_equals envs) = map Some ws'"
      by (cases ws) (auto simp: with_equals_def)
    with True Cons.IH[of ws' "n + (length w + 1)"] show ?thesis by simp
  next
    case False
    with Cons.IH[of ws n] Cons.prems show ?thesis by (simp add: with_equals_def)
  qed
qed (simp add: with_equals_def)

lemma env_copies_result:
  "map (utf8_to_wide W) (with_equals envs) = map Some ws \<Longrightarrow> used + length (block ws) \<le> n \<Longrightarrow>
    env_copies W n envs used = Inr (ws, used + length (block ws))"
proof (induction envs arbitrary: ws used)
  case (Cons env envs)
  show ?case
  proof (cases "61 \<in> set env")
    case True
    with Cons.prems(1) obtain w ws' where "ws = w # ws'" "utf8_to_wide W env = Some w"
      "map (utf8_to_wide W) (with_equals envs) = map Some ws'"
      by (cases ws) (auto simp: with_equals_def)
    with True Cons.IH[of ws' "used + (length w + 1)"] Cons.prems(2) show ?thesis by simp
  next
    case False
    with Cons.IH[of ws used] Cons.prems show ?thesis by (simp add: with_equals_def)
  qed
qed (simp add: with_equals_def)

text \<open>
  C17: for every list of variables whose conversion succeeds, when memory is there, \<open>make_program_env\<close> passes its
  assertions and stays inside its blocks. What it makes is a block of variables in the order of their names in
  capitals, which Windows asks for: the given variables, each once, and of those that programs need the ones that
  are not given and that the parent has.
\<close>

theorem environment_complete:
  assumes conv: "map (utf8_to_wide W) (with_equals envs) = map Some ws" "\<forall>w \<in> set ws. EQUALS \<in> set w"
    and mem: "malloc_temp W" "malloc_dst W"
    and caps: "\<forall>r \<in> set required_vars. upcase W r = r"
    and qsort: "\<And>vs. mset (qsort W (env_strncmp W) vs) = mset vs \<and> sorted (map (key W) (qsort W (env_strncmp W) vs))"
  shows "\<exists>vs. make_program_env W envs = Some (Inr (block vs @ [0])) \<and> sorted (map (key W) vs) \<and>
    mset vs = mset ws + mset (concat (map (inherited W) (filter (is_missing W ws) required_vars)))"
proof -
  define cs where "cs = qsort W (env_strncmp W) ws"
  have cs: "mset cs = mset ws" "sorted (map (key W) cs)" using qsort[of ws] by (auto simp: cs_def)
  define vs where "vs = merge_required W required_vars cs"
  have "map (upcase W) required_vars = required_vars" using caps by (simp add: map_idI)
  hence rs: "sorted_wrt (<) (map (upcase W) required_vars)" using required_vars_ok(2) by simp
  define n where "n = length (block ws) + snd (missing_vars W required_vars cs)"
  have "length (block cs) = length (block ws)"
  proof -
    have "length (block us) = sum_mset (image_mset (\<lambda>v. length v + 1) (mset us))" for us
      by (induction us) auto
    thus ?thesis by (simp add: cs(1))
  qed
  hence n: "length (block vs) = n"
    using missing_vars_size[OF required_vars_ok(1), of W cs] by (simp add: vs_def n_def)
  have "final_pass W (1 + n) n required_vars (fst (missing_vars W required_vars cs)) cs [] = Some (block vs)"
    using final_pass_writes[OF required_vars_ok(1), of "[]" W cs n] n by (simp add: vs_def)
  moreover have "env_length W envs 0 = Inr (length (block ws))" using env_length_result[OF conv(1), of 0] by simp
  moreover have "env_copies W (length (block ws)) envs 0 = Inr (ws, length (block ws))"
    using env_copies_result[OF conv(1), of 0 "length (block ws)"] by simp
  ultimately have "make_program_env W envs = Some (Inr (block vs @ [0]))"
    using mem conv(2) n by (auto simp: make_program_env_def Let_def case_prod_beta cs_def[symmetric] n_def[symmetric] put_def)
  moreover have "sorted (map (key W) vs)"
    unfolding vs_def by (rule merge_required_sorted[OF required_vars_ok(1) rs cs(2)])
  moreover have "is_missing W cs = is_missing W ws"
    using mset_eq_setD[OF cs(1)] by (simp add: is_missing_def fun_eq_iff)
  hence "mset vs = mset ws + mset (concat (map (inherited W) (filter (is_missing W ws) required_vars)))"
    using merge_required_mset[OF rs cs(2)] cs(1) by (simp add: vs_def)
  ultimately show ?thesis by blast
qed

text \<open>A parent that has \<open>PATH\<close> and \<open>TEMP\<close>, texts of bytes below 128, and a sorting by the keys.\<close>

definition plain_parent :: vars_env where
  "plain_parent = \<lparr>utf8_to_wide = \<lambda>bs. Some (map ucast bs), GetLastError = 0, malloc_dst = True, malloc_temp = True,
     upcase = \<lambda>s. s, variable = \<lambda>r. if r \<in> {wide_text ''PATH'', wide_text ''TEMP''} then Some [97] else None,
     qsort = \<lambda>cmp. sort_key name_of\<rparr>"

theorem environment_complete_witness:
  "\<exists>vs. make_program_env plain_parent [[84, 69, 77, 80, 61], [65, 61, 66], [67]] = Some (Inr (block vs @ [0])) \<and>
    sorted (map (key plain_parent) vs) \<and>
    mset vs = mset [[84, 69, 77, 80, 61], [65, 61, 66]] +
      mset (concat (map (inherited plain_parent) (filter (is_missing plain_parent [[84, 69, 77, 80, 61], [65, 61, 66]]) required_vars)))"
proof (rule environment_complete)
  show "map (utf8_to_wide plain_parent) (with_equals [[84, 69, 77, 80, 61], [65, 61, 66], [67]]) =
      map Some [[84, 69, 77, 80, 61], [65, 61, 66]]"
    by (simp add: plain_parent_def with_equals_def)
  have k: "key plain_parent = name_of" by (simp add: key_def plain_parent_def fun_eq_iff)
  show "mset (qsort plain_parent (env_strncmp plain_parent) vs) = mset vs \<and>
      sorted (map (key plain_parent) (qsort plain_parent (env_strncmp plain_parent) vs))" for vs
    unfolding k by (simp add: plain_parent_def)
qed (simp_all add: plain_parent_def)

end
