(* ===== verification/Pm_Map.thy ===== *)
theory Pm_Map
  imports Uv_Prelude
begin

text \<open>
  The part of \<open>std::map\<close> and \<open>std::set\<close> the application uses: a map is the list of its nodes
  in the order of an iteration, by ascending keys. The contract the application relies on is the
  locale \<open>ordered_map\<close>.
\<close>

section \<open>The operations\<close>

definition map_find :: "'k \<Rightarrow> ('k \<times> 'v) list \<Rightarrow> 'v option" where
  "map_find k m = map_of m k"

text \<open>\<open>m[k] = v\<close>: the value of an existing key is replaced.\<close>

fun map_put :: "'k :: linorder \<Rightarrow> 'v \<Rightarrow> ('k \<times> 'v) list \<Rightarrow> ('k \<times> 'v) list" where
  "map_put k v [] = [(k, v)]"
| "map_put k v ((k', v') # m) =
     (if k < k' then (k, v) # (k', v') # m
      else if k = k' then (k, v) # m
      else (k', v') # map_put k v m)"

text \<open>\<open>m.insert(pair(k, v))\<close>: nothing happens if there is a node with the key; the second part of
  the result says whether a node was inserted.\<close>

definition map_insert :: "'k :: linorder \<Rightarrow> 'v \<Rightarrow> ('k \<times> 'v) list \<Rightarrow> ('k \<times> 'v) list \<times> bool" where
  "map_insert k v m = (if map_find k m = None then (map_put k v m, True) else (m, False))"

definition map_erase :: "'k \<Rightarrow> ('k \<times> 'v) list \<Rightarrow> ('k \<times> 'v) list" where
  "map_erase k m = filter (\<lambda>(k', _). k' \<noteq> k) m"

definition map_ok :: "('k :: linorder \<times> 'v) list \<Rightarrow> bool" where
  "map_ok m \<longleftrightarrow> sorted_wrt (<) (map fst m)"

section \<open>The contract\<close>

locale ordered_map =
  fixes ok :: "'m \<Rightarrow> bool"
    and find :: "'k :: linorder \<Rightarrow> 'm \<Rightarrow> 'v option"
    and put :: "'k \<Rightarrow> 'v \<Rightarrow> 'm \<Rightarrow> 'm"
    and erase :: "'k \<Rightarrow> 'm \<Rightarrow> 'm"
    and nodes :: "'m \<Rightarrow> ('k \<times> 'v) list"
  assumes find_nodes: "ok m \<Longrightarrow> find k m = Some v \<longleftrightarrow> (k, v) \<in> set (nodes m)"
    and put_ok: "ok m \<Longrightarrow> ok (put k v m)"
    and erase_ok: "ok m \<Longrightarrow> ok (erase k m)"
    and find_put: "ok m \<Longrightarrow> find k' (put k v m) = (if k' = k then Some v else find k' m)"
    and find_erase: "ok m \<Longrightarrow> find k' (erase k m) = (if k' = k then None else find k' m)"
    and nodes_sorted: "ok m \<Longrightarrow> sorted_wrt (<) (map fst (nodes m))"
begin

lemma nodes_put:
  assumes "ok m"
  shows "set (nodes (put k v m)) = insert (k, v) {n \<in> set (nodes m). fst n \<noteq> k}"
proof -
  have "(k', v') \<in> set (nodes (put k v m)) \<longleftrightarrow>
      (k', v') = (k, v) \<or> ((k', v') \<in> set (nodes m) \<and> k' \<noteq> k)" for k' v'
    using find_nodes[OF put_ok[OF assms]] find_nodes[OF assms] find_put[OF assms]
    by (metis option.inject prod.inject)
  then show ?thesis by (auto simp: set_eq_iff)
qed

lemma nodes_erase:
  assumes "ok m"
  shows "set (nodes (erase k m)) = {n \<in> set (nodes m). fst n \<noteq> k}"
proof -
  have "(k', v') \<in> set (nodes (erase k m)) \<longleftrightarrow> (k', v') \<in> set (nodes m) \<and> k' \<noteq> k" for k' v'
    using find_nodes[OF erase_ok[OF assms]] find_nodes[OF assms] find_erase[OF assms]
    by (metis option.distinct(1))
  then show ?thesis by (auto simp: set_eq_iff)
qed

lemma keys_distinct: "ok m \<Longrightarrow> distinct (map fst (nodes m))"
  using nodes_sorted strict_sorted_iff by blast

lemma values_unique: "ok m \<Longrightarrow> (k, v) \<in> set (nodes m) \<Longrightarrow> (k, v') \<in> set (nodes m) \<Longrightarrow> v = v'"
  using find_nodes by (metis option.inject)

text \<open>Erasing what was put gives back the map, seen through \<open>find\<close>, if the key was new.\<close>

lemma erase_put: "ok m \<Longrightarrow> find k m = None \<Longrightarrow> find k' (erase k (put k v m)) = find k' m"
  by (simp add: find_erase put_ok find_put)

end

section \<open>The lists keep the contract\<close>

lemma map_find_put: "map_find k' (map_put k v m) = (if k' = k then Some v else map_find k' m)"
  if "map_ok m"
  using that by (induction k v m rule: map_put.induct) (auto simp: map_find_def map_ok_def)

lemma map_put_keys: "set (map fst (map_put k v m)) = insert k (set (map fst m))"
  by (induction k v m rule: map_put.induct) auto

lemma map_put_ok: "map_ok m \<Longrightarrow> map_ok (map_put k v m)"
proof (induction k v m rule: map_put.induct)
  case (2 k v k' v' m)
  have "x \<in> set (map fst (map_put k v m)) \<Longrightarrow> k' < k \<Longrightarrow> k' < x" for x
    using 2(2) map_put_keys[of k v m] by (auto simp: map_ok_def)
  with 2 show ?case by (auto simp: map_ok_def)
qed (simp add: map_ok_def)

lemma map_erase_ok: "map_ok m \<Longrightarrow> map_ok (map_erase k m)"
  by (induction m) (auto simp: map_ok_def map_erase_def)

lemma map_find_erase: "map_find k' (map_erase k m) = (if k' = k then None else map_find k' m)"
  by (induction m) (auto simp: map_find_def map_erase_def)

lemma map_find_iff: "map_ok m \<Longrightarrow> map_find k m = Some v \<longleftrightarrow> (k, v) \<in> set m"
  using strict_sorted_iff[of "map fst m"] by (auto simp: map_ok_def map_find_def)

interpretation std_map: ordered_map map_ok map_find map_put map_erase "\<lambda>m. m"
  by unfold_locales (erule map_find_iff map_put_ok map_erase_ok
    | simp add: map_find_put map_find_erase | simp add: map_ok_def)+

lemma map_insert_ok: "map_ok m \<Longrightarrow> map_ok (fst (map_insert k v m))"
  by (simp add: map_insert_def map_put_ok)

lemma map_find_insert:
  "map_ok m \<Longrightarrow> map_find k' (fst (map_insert k v m)) =
     (if k' = k \<and> map_find k m = None then Some v else map_find k' m)"
  by (auto simp: map_insert_def map_find_put)

text \<open>An ordered set of addresses, as \<open>std::set\<close> keeps it.\<close>

definition set_insert :: "'k :: linorder \<Rightarrow> 'k list \<Rightarrow> 'k list \<times> bool" where
  "set_insert k xs = (if k \<in> set xs then (xs, False) else (insort k xs, True))"

definition set_erase :: "'k \<Rightarrow> 'k list \<Rightarrow> 'k list" where
  "set_erase k xs = filter (\<lambda>x. x \<noteq> k) xs"

end
