(* ===== verification/Uv_Common.thy ===== *)
theory Uv_Common
  imports Uv_Timer Uv_Inet
begin

text \<open>
  The rest of \<open>src/uv-common.c\<close>: the replaceable allocator and what uses it, the checks the
  socket functions make before they call the platform (\<open>uv_tcp_bind\<close>, \<open>uv_udp_send\<close>, ...),
  the entries of a directory scan, the path of a file system event handle, and the default loop.
  The functions of the platform (\<open>uv__tcp_bind\<close>, \<open>uv_loop_init\<close>, ...) are parameters.
\<close>

section \<open>Memory\<close>

record uv__allocator =
  local_malloc :: ptr
  local_realloc :: ptr
  local_calloc :: ptr
  local_free :: ptr

definition uv_replace_allocator :: "ptr \<Rightarrow> ptr \<Rightarrow> ptr \<Rightarrow> ptr \<Rightarrow> uv__allocator \<Rightarrow> rc \<times> uv__allocator" where
  "uv_replace_allocator malloc_func realloc_func calloc_func free_func a =
     (if malloc_func = NULL \<or> realloc_func = NULL \<or> calloc_func = NULL \<or> free_func = NULL
      then (Fail EINVAL, a)
      else (OK, a\<lparr>local_malloc := malloc_func, local_realloc := realloc_func,
                  local_calloc := calloc_func, local_free := free_func\<rparr>))"

text \<open>\<open>avail n\<close> says whether \<open>uv__malloc(n)\<close> succeeds; the result is the memory filled, with its
  terminating zero.\<close>

definition NUL :: char where
  "NUL = CHR 0x00"

definition uv__strdup :: "(nat \<Rightarrow> bool) \<Rightarrow> string \<Rightarrow> string option" where
  "uv__strdup avail s =
     (let len = length s + 1
      in if \<not> avail len then None else Some (take len (s @ [NUL])))"

definition uv__strndup :: "(nat \<Rightarrow> bool) \<Rightarrow> string \<Rightarrow> nat \<Rightarrow> string option" where
  "uv__strndup avail s n =
     (let len = (if n < length s then n else length s)
      in if \<not> avail (len + 1) then None else Some (take len s @ [NUL]))"

definition uv__count_bufs :: "u32 list \<Rightarrow> u64" where
  "uv__count_bufs lens = fold (\<lambda>l bytes. bytes + ucast l) lens 0"

section \<open>Addresses passed to the platform\<close>

text \<open>\<open>sizeof(struct sockaddr_in)\<close> and \<open>sizeof(struct sockaddr_in6)\<close>\<close>

fun addr_len :: "af \<Rightarrow> u32 option" where
  "addr_len AF_INET = Some 16"
| "addr_len AF_INET6 = Some 28"
| "addr_len AF_OTHER = None"

definition uv_tcp_bind ::
    "(ptr \<Rightarrow> sockaddr \<Rightarrow> u32 \<Rightarrow> u32 \<Rightarrow> 's core_scheme \<Rightarrow> rc \<times> 's core_scheme) \<Rightarrow>
     ptr \<Rightarrow> sockaddr \<Rightarrow> u32 \<Rightarrow> 's core_scheme \<Rightarrow> rc \<times> 's core_scheme" where
  "uv_tcp_bind uv__tcp_bind h a fl s =
     (if htype (handles s h) \<noteq> UV_TCP then (Fail EINVAL, s)
      else case addr_len (family a) of
        Some addrlen \<Rightarrow> uv__tcp_bind h a addrlen fl s
      | None \<Rightarrow> (Fail EINVAL, s))"

definition uv_udp_bind ::
    "(ptr \<Rightarrow> sockaddr \<Rightarrow> u32 \<Rightarrow> u32 \<Rightarrow> 's core_scheme \<Rightarrow> rc \<times> 's core_scheme) \<Rightarrow>
     ptr \<Rightarrow> sockaddr \<Rightarrow> u32 \<Rightarrow> 's core_scheme \<Rightarrow> rc \<times> 's core_scheme" where
  "uv_udp_bind uv__udp_bind h a fl s =
     (if htype (handles s h) \<noteq> UV_UDP then (Fail EINVAL, s)
      else case addr_len (family a) of
        Some addrlen \<Rightarrow> uv__udp_bind h a addrlen fl s
      | None \<Rightarrow> (Fail EINVAL, s))"

definition uv_tcp_connect ::
    "(ptr \<Rightarrow> ptr \<Rightarrow> sockaddr \<Rightarrow> u32 \<Rightarrow> ptr \<Rightarrow> 's core_scheme \<Rightarrow> rc \<times> 's core_scheme) \<Rightarrow>
     ptr \<Rightarrow> ptr \<Rightarrow> sockaddr \<Rightarrow> ptr \<Rightarrow> 's core_scheme \<Rightarrow> rc \<times> 's core_scheme" where
  "uv_tcp_connect uv__tcp_connect req h a cb s =
     (if htype (handles s h) \<noteq> UV_TCP then (Fail EINVAL, s)
      else case addr_len (family a) of
        Some addrlen \<Rightarrow> uv__tcp_connect req h a addrlen cb s
      | None \<Rightarrow> (Fail EINVAL, s))"

definition uv_udp_send ::
    "(ptr \<Rightarrow> ptr \<Rightarrow> u8 list list \<Rightarrow> sockaddr \<Rightarrow> u32 \<Rightarrow> ptr \<Rightarrow> 's core_scheme \<Rightarrow> rc \<times> 's core_scheme) \<Rightarrow>
     ptr \<Rightarrow> ptr \<Rightarrow> u8 list list \<Rightarrow> sockaddr \<Rightarrow> ptr \<Rightarrow> 's core_scheme \<Rightarrow> rc \<times> 's core_scheme" where
  "uv_udp_send uv__udp_send req h bufs a cb s =
     (if htype (handles s h) \<noteq> UV_UDP then (Fail EINVAL, s)
      else case addr_len (family a) of
        Some addrlen \<Rightarrow> uv__udp_send req h bufs a addrlen cb s
      | None \<Rightarrow> (Fail EINVAL, s))"

definition uv_udp_try_send ::
    "(ptr \<Rightarrow> u8 list list \<Rightarrow> sockaddr \<Rightarrow> u32 \<Rightarrow> 's core_scheme \<Rightarrow> rc \<times> 's core_scheme) \<Rightarrow>
     ptr \<Rightarrow> u8 list list \<Rightarrow> sockaddr \<Rightarrow> 's core_scheme \<Rightarrow> rc \<times> 's core_scheme" where
  "uv_udp_try_send uv__udp_try_send h bufs a s =
     (if htype (handles s h) \<noteq> UV_UDP then (Fail EINVAL, s)
      else case addr_len (family a) of
        Some addrlen \<Rightarrow> uv__udp_try_send h bufs a addrlen s
      | None \<Rightarrow> (Fail EINVAL, s))"

definition uv_udp_recv_start ::
    "(ptr \<Rightarrow> ptr \<Rightarrow> ptr \<Rightarrow> 's core_scheme \<Rightarrow> rc \<times> 's core_scheme) \<Rightarrow>
     ptr \<Rightarrow> ptr \<Rightarrow> ptr \<Rightarrow> 's core_scheme \<Rightarrow> rc \<times> 's core_scheme" where
  "uv_udp_recv_start uv__udp_recv_start h alloc_cb recv_cb s =
     (if htype (handles s h) \<noteq> UV_UDP \<or> alloc_cb = NULL \<or> recv_cb = NULL then (Fail EINVAL, s)
      else uv__udp_recv_start h alloc_cb recv_cb s)"

definition uv_udp_recv_stop ::
    "(ptr \<Rightarrow> 's core_scheme \<Rightarrow> rc \<times> 's core_scheme) \<Rightarrow> ptr \<Rightarrow> 's core_scheme \<Rightarrow> rc \<times> 's core_scheme" where
  "uv_udp_recv_stop uv__udp_recv_stop h s =
     (if htype (handles s h) \<noteq> UV_UDP then (Fail EINVAL, s) else uv__udp_recv_stop h s)"

section \<open>Handles in print\<close>

fun type_name :: "handle_type \<Rightarrow> string" where
  "type_name UV_ASYNC = ''async''"
| "type_name UV_CHECK = ''check''"
| "type_name UV_FS_EVENT = ''fs_event''"
| "type_name UV_FS_POLL = ''fs_poll''"
| "type_name UV_HANDLE = ''handle''"
| "type_name UV_IDLE = ''idle''"
| "type_name UV_NAMED_PIPE = ''pipe''"
| "type_name UV_POLL = ''poll''"
| "type_name UV_PREPARE = ''prepare''"
| "type_name UV_PROCESS = ''process''"
| "type_name UV_STREAM = ''stream''"
| "type_name UV_TCP = ''tcp''"
| "type_name UV_TIMER = ''timer''"
| "type_name UV_TTY = ''tty''"
| "type_name UV_UDP = ''udp''"
| "type_name UV_SIGNAL = ''signal''"
| "type_name UV_UNKNOWN_HANDLE = ''<unknown>''"
| "type_name UV_FILE = ''<unknown>''"

text \<open>\<open>"[%c%c%c] %-8s %p\n"\<close>; how \<open>%p\<close> prints is left to the C library (\<open>show_ptr\<close>).\<close>

definition handle_line :: "platform \<Rightarrow> (ptr \<Rightarrow> string) \<Rightarrow> ptr \<Rightarrow> 's core_scheme \<Rightarrow> string" where
  "handle_line pf show_ptr h s =
     (let fl = hflags s h; type = type_name (htype (handles s h))
      in ''['' @ (if has_flag fl (UV__HANDLE_REF pf) then ''R'' else ''-'') @
         (if has_flag fl (UV__HANDLE_ACTIVE pf) then ''A'' else ''-'') @
         (if has_flag fl (UV__HANDLE_INTERNAL pf) then ''I'' else ''-'') @ ''] '' @
         type @ replicate (8 - length type) CHR '' '' @ '' '' @ show_ptr h @ ''\<newline>'')"

definition uv__print_handles ::
    "platform \<Rightarrow> (ptr \<Rightarrow> string) \<Rightarrow> bool \<Rightarrow> 's core_scheme \<Rightarrow> string option" where
  "uv__print_handles pf show_ptr only_active s =
     map_option (\<lambda>hs. concat (map (\<lambda>h.
         if only_active \<and> \<not> uv__is_active pf h s then [] else handle_line pf show_ptr h s) hs))
       (QUEUE_FOREACH HEAD (handle_q s))"

definition uv_print_all_handles :: "platform \<Rightarrow> (ptr \<Rightarrow> string) \<Rightarrow> 's core_scheme \<Rightarrow> string option" where
  "uv_print_all_handles pf show_ptr s = uv__print_handles pf show_ptr False s"

definition uv_print_active_handles :: "platform \<Rightarrow> (ptr \<Rightarrow> string) \<Rightarrow> 's core_scheme \<Rightarrow> string option" where
  "uv_print_active_handles pf show_ptr s = uv__print_handles pf show_ptr True s"

definition uv_stop :: "'s uvloop_scheme \<Rightarrow> 's uvloop_scheme" where
  "uv_stop s = s\<lparr>stop_flag := 1\<rparr>"

definition uv_now :: "'s uvloop_scheme \<Rightarrow> u64" where
  "uv_now s = time s"

section \<open>The path of a file system event handle\<close>

text \<open>The result is the value \<open>*size\<close> gets, and the bytes written to the buffer.\<close>

definition uv_fs_event_getpath :: "platform \<Rightarrow> ptr \<Rightarrow> string \<Rightarrow> nat \<Rightarrow> 's core_scheme \<Rightarrow>
    rc \<times> nat \<times> string" where
  "uv_fs_event_getpath pf h path sz s =
     (if \<not> uv__is_active pf h s then (Fail EINVAL, 0, [])
      else
        (let required_len = length path
         in if sz \<le> required_len then (Fail ENOBUFS, required_len + 1, [])
            else (OK, required_len, path @ [NUL])))"

section \<open>The entries of a directory scan\<close>

text \<open>The request of \<open>uv_fs_scandir\<close>: the array of entries (or \<open>NULL\<close>), the index of the next
  one and the number of them. \<open>dfreed\<close> records which entries have been freed, in order, and
  \<open>array_freed\<close> how often the array was. An access through the \<open>NULL\<close> array is a failure.\<close>

datatype dirent_type = UV_DIRENT_UNKNOWN | UV_DIRENT_FILE | UV_DIRENT_DIR | UV_DIRENT_LINK
  | UV_DIRENT_FIFO | UV_DIRENT_SOCKET | UV_DIRENT_CHAR | UV_DIRENT_BLOCK

datatype d_type = UV__DT_DIR | UV__DT_FILE | UV__DT_LINK | UV__DT_FIFO | UV__DT_SOCKET
  | UV__DT_CHAR | UV__DT_BLOCK | DT_OTHER

record scan =
  dents :: "(string \<times> d_type) list option"
  nbufs :: nat
  result :: nat
  dfreed :: "nat list"
  array_freed :: nat

fun dirent_type_of :: "d_type \<Rightarrow> dirent_type" where
  "dirent_type_of UV__DT_DIR = UV_DIRENT_DIR"
| "dirent_type_of UV__DT_FILE = UV_DIRENT_FILE"
| "dirent_type_of UV__DT_LINK = UV_DIRENT_LINK"
| "dirent_type_of UV__DT_FIFO = UV_DIRENT_FIFO"
| "dirent_type_of UV__DT_SOCKET = UV_DIRENT_SOCKET"
| "dirent_type_of UV__DT_CHAR = UV_DIRENT_CHAR"
| "dirent_type_of UV__DT_BLOCK = UV_DIRENT_BLOCK"
| "dirent_type_of DT_OTHER = UV_DIRENT_UNKNOWN"

definition free_dent :: "nat \<Rightarrow> scan \<Rightarrow> scan option" where
  "free_dent i req = (if dents req = None then None else Some (req\<lparr>dfreed := dfreed req @ [i]\<rparr>))"

text \<open>\<open>uv__fs_scandir_free(NULL)\<close> does nothing.\<close>

definition free_dents :: "scan \<Rightarrow> scan" where
  "free_dents req =
     (if dents req = None then req
      else req\<lparr>dents := None, array_freed := array_freed req + 1\<rparr>)"




definition uv_fs_scandir_next :: "scan \<Rightarrow> ((uv_error + string \<times> dirent_type) \<times> scan) option" where
  "uv_fs_scandir_next req =
     (case (if 0 < nbufs req then free_dent (nbufs req - 1) req else Some req) of
        None \<Rightarrow> None
      | Some req1 \<Rightarrow>
          if nbufs req1 = result req1 then Some (Inl END_OF_FILE, free_dents req1)
          else case dents req1 of
            None \<Rightarrow> None
          | Some ds \<Rightarrow>
              (let dent = ds ! nbufs req1
               in Some (Inr (fst dent, dirent_type_of (snd dent)), req1\<lparr>nbufs := nbufs req1 + 1\<rparr>)))"

section \<open>Loops\<close>

text \<open>The global \<open>default_loop_ptr\<close> is the state. \<open>init p\<close> says whether \<open>uv_loop_init\<close> succeeds
  on the loop at \<open>p\<close>; \<open>default_loop_struct\<close> is the address of the static loop.\<close>

definition uv_default_loop :: "ptr \<Rightarrow> (ptr \<Rightarrow> bool) \<Rightarrow> ptr \<Rightarrow> ptr \<times> ptr" where
  "uv_default_loop default_loop_struct init default_loop_ptr =
     (if default_loop_ptr \<noteq> NULL then (default_loop_ptr, default_loop_ptr)
      else if \<not> init default_loop_struct then (NULL, default_loop_ptr)
      else (default_loop_struct, default_loop_struct))"

definition uv_loop_new :: "ptr \<Rightarrow> (ptr \<Rightarrow> bool) \<Rightarrow> ptr" where
  "uv_loop_new loop init = (if loop = NULL then NULL else if \<not> init loop then NULL else loop)"

definition uv_loop_close :: "platform \<Rightarrow> ('s core_scheme \<Rightarrow> 's core_scheme) \<Rightarrow> ptr \<Rightarrow>
    's core_scheme \<Rightarrow> ptr \<Rightarrow> (rc \<times> 's core_scheme \<times> ptr) option" where
  "uv_loop_close pf uv__loop_close loop s default_loop_ptr =
     (if \<not> QUEUE_EMPTY HEAD (active_reqs s) then Some (Fail EBUSY, s, default_loop_ptr)
      else case QUEUE_FOREACH HEAD (handle_q s) of
        None \<Rightarrow> None
      | Some hs \<Rightarrow>
          if \<exists>h \<in> set hs. \<not> has_flag (hflags s h) (UV__HANDLE_INTERNAL pf)
          then Some (Fail EBUSY, s, default_loop_ptr)
          else Some (OK, uv__loop_close s, if loop = default_loop_ptr then NULL else default_loop_ptr))"

text \<open>The error of \<open>uv_loop_close\<close> is asserted away; what is freed is returned.\<close>

definition uv_loop_delete :: "platform \<Rightarrow> ('s core_scheme \<Rightarrow> 's core_scheme) \<Rightarrow> ptr \<Rightarrow>
    's core_scheme \<Rightarrow> ptr \<Rightarrow> (ptr option \<times> ptr) option" where
  "uv_loop_delete pf uv__loop_close loop s default_loop_ptr =
     (case uv_loop_close pf uv__loop_close loop s default_loop_ptr of
        Some (OK, _, dlp) \<Rightarrow> Some (if loop \<noteq> default_loop_ptr then Some loop else None, dlp)
      | _ \<Rightarrow> None)"

section \<open>Lemmas\<close>

lemma uv__strndup_strdup: "length s \<le> n \<Longrightarrow> uv__strndup avail s n = uv__strdup avail s"
  by (simp add: uv__strndup_def uv__strdup_def Let_def)



definition scan_start :: "(string \<times> d_type) list \<Rightarrow> scan" where
  "scan_start ds = \<lparr>dents = Some ds, nbufs = 0, result = length ds, dfreed = [], array_freed = 0\<rparr>"

text \<open>\<open>k\<close> calls of \<open>uv_fs_scandir_next\<close>, with what they return.\<close>

fun scan_next :: "nat \<Rightarrow> scan \<Rightarrow> ((uv_error + string \<times> dirent_type) list \<times> scan) option" where
  "scan_next 0 req = Some ([], req)"
| "scan_next (Suc k) req =
     (case scan_next k req of
        None \<Rightarrow> None
      | Some (rs, req1) \<Rightarrow>
          (case uv_fs_scandir_next req1 of
             None \<Rightarrow> None
           | Some (r, req2) \<Rightarrow> Some (rs @ [r], req2)))"

lemma scan_next_entries:
  "k \<le> length ds \<Longrightarrow> scan_next k (scan_start ds) =
     Some (map (\<lambda>d. Inr (fst d, dirent_type_of (snd d))) (take k ds),
       (scan_start ds)\<lparr>nbufs := k, dfreed := [0..<k - 1]\<rparr>)"
proof (induction k)
  case 0
  then show ?case by (simp add: scan_start_def)
next
  case (Suc k)
  have "[0..<k - 1] @ (if 0 < k then [k - 1] else []) = [0..<k]"
    by (cases k) simp_all
  with Suc show ?case
    by (auto simp: uv_fs_scandir_next_def scan_start_def free_dent_def take_Suc_conv_app_nth Let_def)
qed

lemma scan_next_end:
  assumes "ds \<noteq> []"
  shows "scan_next (Suc (length ds)) (scan_start ds) =
     Some (map (\<lambda>d. Inr (fst d, dirent_type_of (snd d))) ds @ [Inl END_OF_FILE],
       \<lparr>dents = None, nbufs = length ds, result = length ds, dfreed = [0..<length ds], array_freed = 1\<rparr>)"
proof -
  obtain m where m: "length ds = Suc m" using assms by (cases ds) auto
  show ?thesis
    using scan_next_entries[of "length ds" ds]
    by (simp add: m uv_fs_scandir_next_def free_dent_def free_dents_def scan_start_def)
qed

section \<open>Properties\<close>



text \<open>
  A loop can be closed exactly if it has no active request and no handle but internal
  ones; otherwise it is \<open>UV_EBUSY\<close> and nothing changes. Closing the default loop makes
  \<open>uv_default_loop\<close> initialise it anew.
\<close>

theorem uv_loop_close_only_idle:
  assumes "core_ok pf hs s" "qring (active_reqs s) HEAD rs"
  shows "uv_loop_close pf platform_close loop s dlp =
    (if rs = [] \<and> (\<forall>h \<in> set hs. has_flag (hflags s h) (UV__HANDLE_INTERNAL pf))
     then Some (OK, platform_close s, if loop = dlp then NULL else dlp)
     else Some (Fail EBUSY, s, dlp))"
proof -
  have "QUEUE_FOREACH HEAD (handle_q s) = Some hs"
    using QUEUE_FOREACH_ring[OF core_ok_ring[OF assms(1)]] .
  then show ?thesis using qring_empty_iff[OF assms(2)] by (auto simp: uv_loop_close_def)
qed

theorem uv_loop_close_only_idle_witness:
  "uv_loop_close Windows id 5 (uv__handle_init Windows 9 UV_TCP empty_core) 5 =
      Some (Fail EBUSY, uv__handle_init Windows 9 UV_TCP empty_core, 5) \<and>
    uv_loop_close Windows id 5 empty_core 5 = Some (OK, empty_core, NULL)"
proof -
  let ?s = "uv__handle_init Windows 9 UV_TCP empty_core"
  have r: "qring (active_reqs ?s) HEAD []" "qring (active_reqs empty_core) HEAD []"
    by (simp_all add: uv__handle_init_def Let_def empty_core_def qring_INIT)
  have ok: "core_ok Windows [9] ?s"
    using uv__handle_init_ok[OF empty_core_ok[of Windows], of 9 UV_TCP] by (simp add: HEAD_def)
  have "\<not> has_flag (hflags ?s 9) (UV__HANDLE_INTERNAL Windows)"
    by (simp add: uv__handle_init_def Let_def has_flag_def)
  then show ?thesis
    using uv_loop_close_only_idle[OF ok r(1), of id 5 5]
      uv_loop_close_only_idle[OF empty_core_ok[of Windows] r(2), of id 5 5] by simp
qed

end
