(* ===== verification/Pm_Types.thy ===== *)
theory Pm_Types
  imports Pm_Map Uv_Common
begin

text \<open>
  \<open>PortMapping/LibuvAdapter.h\<close>: the data of the application. \<open>MappingInfo\<close> and \<open>ConnectInfo\<close>
  objects live in memories from addresses to objects in which a freed object is \<open>None\<close>, so
  that a use after \<open>delete\<close> is a failure of the model and not some arbitrary value. The handles
  embedded in these objects are named by the object (\<open>Listen m\<close> is \<open>m->u.listen_tcp\<close> or
  \<open>m->u.listen_udp\<close>, which share their memory); \<open>CONTAINING_RECORD\<close> is then the argument.

  Of libuv the adapter sees the handles it has initialised and not closed (\<open>in_loop\<close>), the close
  callbacks that are still to come (\<open>closing\<close>), the work it has queued on \<open>loop->wq\<close>, the connect
  requests that are outstanding and the reads and writes it has asked for (\<open>io\<close>). The data field of
  \<open>u.server_udp\<close> is that of \<open>u.tcp.client_tcp\<close>, with which it shares its memory.
\<close>

unbundle bit_operations_syntax

section \<open>States of a mapping\<close>

definition MAPPING_STOP :: u32 where "MAPPING_STOP = 0x00000001"
definition MAPPING_START :: u32 where "MAPPING_START = 0x00000002"
definition MAPPING_FAIL :: u32 where "MAPPING_FAIL = 0x00000004"
definition MAPPING_DELETING :: u32 where "MAPPING_DELETING = 0x00000008"
definition INIT_FAIL :: u32 where "INIT_FAIL = 0x00000010"
definition BIND_FAIL :: u32 where "BIND_FAIL = 0x00000020"
definition LISTEN_FAIL :: u32 where "LISTEN_FAIL = 0x00000040"

lemmas mapping_state_defs = MAPPING_STOP_def MAPPING_START_def MAPPING_FAIL_def
  MAPPING_DELETING_def INIT_FAIL_def BIND_FAIL_def LISTEN_FAIL_def

text \<open>The values of the \<open>char\<close> \<open>bInMap\<close>.\<close>

definition NOT_IN_MAP :: u8 where "NOT_IN_MAP = 0"
definition IN_MAP_WAIT :: u8 where "IN_MAP_WAIT = 1"
definition IN_MAP_SUCC :: u8 where "IN_MAP_SUCC = 2"

section \<open>Objects\<close>

record MappingInfo =
  pLoop :: ptr
  nState :: u32
  Addr_agent :: sockaddr
  Addr_server :: sockaddr
  bTCP :: bool
  nConnect :: u32
  nTotalFromClientB :: u32
  nTotalFromClientM :: u32
  nTotalFromServerB :: u32
  nTotalFromServerM :: u32
  listen_data :: ptr
  pUserData :: ptr

record ConnectInfo =
  pMapping :: ptr
  Addr_Client :: sockaddr
  nCurFromClientB :: u32
  nCurFromClientM :: u32
  nCurFromServerB :: u32
  nCurFromServerM :: u32
  client_data :: ptr
  server_data :: ptr
  bInMap :: u8
  bDeleting :: bool
  cUserData :: ptr

text \<open>What \<open>memset(..., 0, ...)\<close> leaves.\<close>

definition zero_sockaddr :: sockaddr where
  "zero_sockaddr = \<lparr>family = AF_OTHER, port = 0, addr = [0, 0, 0, 0], scope_id = 0\<rparr>"

definition zero_mapping :: MappingInfo where
  "zero_mapping = \<lparr>pLoop = NULL, nState = 0, Addr_agent = zero_sockaddr, Addr_server = zero_sockaddr,
     bTCP = False, nConnect = 0, nTotalFromClientB = 0, nTotalFromClientM = 0,
     nTotalFromServerB = 0, nTotalFromServerM = 0, listen_data = NULL, pUserData = NULL\<rparr>"

definition zero_connect :: ConnectInfo where
  "zero_connect = \<lparr>pMapping = NULL, Addr_Client = zero_sockaddr, nCurFromClientB = 0,
     nCurFromClientM = 0, nCurFromServerB = 0, nCurFromServerM = 0, client_data = NULL,
     server_data = NULL, bInMap = NOT_IN_MAP, bDeleting = False, cUserData = NULL\<rparr>"

section \<open>Keys of connections\<close>

datatype Connectkey = Connectkey (nClientIP: u32) (nClientPort: u16)

definition key_less :: "Connectkey \<Rightarrow> Connectkey \<Rightarrow> bool" where
  "key_less A B =
     (if nClientIP A < nClientIP B then True
      else if nClientIP A = nClientIP B \<and> nClientPort A < nClientPort B then True
      else False)"

instantiation Connectkey :: linorder
begin

definition less_Connectkey :: "Connectkey \<Rightarrow> Connectkey \<Rightarrow> bool" where
  "less_Connectkey A B = key_less A B"

definition less_eq_Connectkey :: "Connectkey \<Rightarrow> Connectkey \<Rightarrow> bool" where
  "less_eq_Connectkey A B \<longleftrightarrow> key_less A B \<or> A = B"

instance
  by standard (auto simp: less_Connectkey_def less_eq_Connectkey_def key_less_def
      Connectkey.expand split: if_splits)

end

text \<open>\<open>sin_addr.S_un.S_addr\<close>: the four bytes as a number of a little-endian machine.\<close>

definition S_addr :: "sockaddr \<Rightarrow> u32" where
  "S_addr a = ucast (addr a ! 0) OR push_bit 8 (ucast (addr a ! 1)) OR
     push_bit 16 (ucast (addr a ! 2)) OR push_bit 24 (ucast (addr a ! 3))"

definition client_key :: "sockaddr \<Rightarrow> Connectkey" where
  "client_key a = Connectkey (S_addr a) (port a)"

section \<open>The adapter and the loop under it\<close>

datatype hnd = Keeprun | Listen ptr | ClientTcp ptr | ServerTcp ptr | ServerUdp ptr

datatype close_fn = listen_close_cb | tcp_connect_close_cb | udp_connect_close_cb

datatype work_fn = AnsycStartTCPMapping | AnsycStartUDPMapping | AnsycStopMapping
  | AnsycRemoveConnect | AnsycGetAllConnect

datatype connect_msg = MSG_ADD_CONNECT | MSG_DELETE_CONNECT | MSG_CONNECT_STATE_CHANGE

datatype mapping_msg = MSG_CLEAR_CONNECT | MSG_LISTEN_FAIL | MSG_MAPPING_STOP | MSG_REMOVE_MAPPING

text \<open>A call of an \<open>INotifyLoop\<close>, with the receiver.\<close>

datatype notice = ConnectNote ptr connect_msg ptr | MappingNote ptr mapping_msg ptr
  | AllConnects ptr "ptr list"

text \<open>What the adapter asks libuv to do on the network.\<close>

datatype io_call = CheckStart hnd | ReadStart hnd | RecvStart hnd | RecvStop hnd | Write hnd "u8 list"
  | Send hnd "u8 list" sockaddr

record adapter =
  m_pLoop :: ptr
  m_bRemoveAll :: bool
  m_setNotify :: "ptr list"
  m_mapMapping :: "(u16 \<times> ptr) list"
  m_mapConnect :: "(u16 \<times> (Connectkey \<times> ptr) list) list"
  mem_m :: "ptr \<Rightarrow> MappingInfo option"
  mem_c :: "ptr \<Rightarrow> ConnectInfo option"
  next_ptr :: ptr
  work_queue :: "(work_fn \<times> ptr) list"
  in_loop :: "hnd list"
  closing :: "(hnd \<times> close_fn) list"
  closed :: "hnd list"
  notices :: "notice list"
  connecting :: "ptr list"
  io :: "io_call list"

definition upd_m :: "ptr \<Rightarrow> (MappingInfo \<Rightarrow> MappingInfo) \<Rightarrow> adapter \<Rightarrow> adapter option" where
  "upd_m m f s = map_option (\<lambda>mi. s\<lparr>mem_m := (mem_m s)(m \<mapsto> f mi)\<rparr>) (mem_m s m)"

definition upd_c :: "ptr \<Rightarrow> (ConnectInfo \<Rightarrow> ConnectInfo) \<Rightarrow> adapter \<Rightarrow> adapter option" where
  "upd_c c f s = map_option (\<lambda>ci. s\<lparr>mem_c := (mem_c s)(c \<mapsto> f ci)\<rparr>) (mem_c s c)"

text \<open>\<open>new ConnectInfo\<close> and \<open>memset\<close>; \<open>delete\<close>.\<close>

definition new_c :: "adapter \<Rightarrow> ptr \<times> adapter" where
  "new_c s = (next_ptr s, s\<lparr>mem_c := (mem_c s)(next_ptr s \<mapsto> zero_connect), next_ptr := next_ptr s + 1\<rparr>)"

definition delete_c :: "ptr \<Rightarrow> adapter \<Rightarrow> adapter option" where
  "delete_c c s = (if mem_c s c = None then None else Some (s\<lparr>mem_c := (mem_c s)(c := None)\<rparr>))"

text \<open>\<open>(CLibuvAdapter*)mapping->pLoop->data\<close>: the loop pointer must be set.\<close>

definition this_of :: "ptr \<Rightarrow> adapter \<Rightarrow> unit option" where
  "this_of m s = (case mem_m s m of None \<Rightarrow> None | Some mi \<Rightarrow> if pLoop mi = NULL then None else Some ())"

text \<open>The port of a mapping as its key in the maps.\<close>

definition port_of :: "ptr \<Rightarrow> adapter \<Rightarrow> u16 option" where
  "port_of m s = map_option (\<lambda>mi. htons (port (Addr_agent mi))) (mem_m s m)"

text \<open>Initialising and closing a handle as the adapter sees it. Closing a handle that is closing
  or closed does nothing, and one that was never initialised aborts the program.\<close>

definition init_handle :: "hnd \<Rightarrow> adapter \<Rightarrow> adapter" where
  "init_handle h s = s\<lparr>in_loop := in_loop s @ [h], closed := filter (\<lambda>x. x \<noteq> h) (closed s)\<rparr>"

definition uv_close_h :: "hnd \<Rightarrow> close_fn \<Rightarrow> adapter \<Rightarrow> adapter option" where
  "uv_close_h h cb s =
     (if h \<in> set (map fst (closing s)) \<or> h \<in> set (closed s) then Some s
      else if h \<in> set (in_loop s) then Some (s\<lparr>closing := closing s @ [(h, cb)]\<rparr>)
      else None)"

definition ask_io :: "io_call \<Rightarrow> adapter \<Rightarrow> adapter" where
  "ask_io c s = s\<lparr>io := io s @ [c]\<rparr>"

text \<open>\<open>uv_udp_send\<close> refuses an address that is neither IPv4 nor IPv6 (\<open>UV_EINVAL\<close>); the adapter
  does not look at the result.\<close>

definition udp_send :: "hnd \<Rightarrow> u8 list \<Rightarrow> sockaddr \<Rightarrow> adapter \<Rightarrow> adapter" where
  "udp_send h data a s = (if addr_len (family a) = None then s else ask_io (Send h data a) s)"

section \<open>Notifications\<close>

definition notify_connect :: "connect_msg \<Rightarrow> ptr \<Rightarrow> adapter \<Rightarrow> adapter" where
  "notify_connect t c s = s\<lparr>notices := notices s @ map (\<lambda>n. ConnectNote n t c) (m_setNotify s)\<rparr>"

definition notify_mapping :: "mapping_msg \<Rightarrow> ptr \<Rightarrow> adapter \<Rightarrow> adapter" where
  "notify_mapping t m s = s\<lparr>notices := notices s @ map (\<lambda>n. MappingNote n t m) (m_setNotify s)\<rparr>"

definition notify_all :: "ptr list \<Rightarrow> adapter \<Rightarrow> adapter" where
  "notify_all cs s = s\<lparr>notices := notices s @ map (\<lambda>n. AllConnects n cs) (m_setNotify s)\<rparr>"

end
