(* ===== verification/Pm_Adapter.thy ===== *)
theory Pm_Adapter
  imports Pm_Types
begin

text \<open>
  \<open>PortMapping/LibuvAdapter.cpp\<close>: the class \<open>CLibuvAdapter\<close> and the callbacks of \<open>IOCallBack\<close>,
  statement by statement over the state of \<open>Pm_Types\<close>. A function that follows a pointer returns
  an option: \<open>None\<close> is an access to \<open>NULL\<close> or to a deleted object, or an abort of libuv. What the
  system answers (the results of \<open>uv_tcp_bind\<close>, \<open>uv_accept\<close>, ...) is an argument. \<open>ASSERT\<close> is
  empty, as in the release build.
\<close>

unbundle bit_operations_syntax

section \<open>The loop\<close>

definition InitLoop :: "ptr \<Rightarrow> bool \<Rightarrow> adapter \<Rightarrow> bool \<times> adapter" where
  "InitLoop loop thread_created s =
     (let s1 = s\<lparr>m_pLoop := loop\<rparr>
      in if loop = NULL then (False, s1)
         else
           (let s2 = ask_io (CheckStart Keeprun) (init_handle Keeprun s1);
                ms = map snd (m_mapMapping s2);
                s3 = s2\<lparr>mem_m := (\<lambda>m. if m \<in> set ms then map_option (\<lambda>mi. mi\<lparr>pLoop := loop\<rparr>) (mem_m s2 m)
                                        else mem_m s2 m)\<rparr>
            in (thread_created, s3)))"

text \<open>\<open>!m_pLoop && !InitLoop()\<close>\<close>

definition have_loop :: "ptr \<Rightarrow> bool \<Rightarrow> adapter \<Rightarrow> bool \<times> adapter" where
  "have_loop loop thread_created s =
     (if m_pLoop s \<noteq> NULL then (True, s) else InitLoop loop thread_created s)"

definition RegisterAnsycWork :: "ptr \<Rightarrow> work_fn \<Rightarrow> adapter \<Rightarrow> adapter" where
  "RegisterAnsycWork p done_fn s =
     (if m_pLoop s = NULL then s else s\<lparr>work_queue := work_queue s @ [(done_fn, p)]\<rparr>)"

definition AsyncOperate :: "ptr \<Rightarrow> work_fn \<Rightarrow> adapter \<Rightarrow> adapter" where
  "AsyncOperate p workfun s = RegisterAnsycWork p workfun s"

section \<open>Observers and settings\<close>

definition AddNotify :: "ptr \<Rightarrow> adapter \<Rightarrow> bool \<times> adapter" where
  "AddNotify p s =
     (if p = NULL then (False, s)
      else (let (ns, new) = set_insert p (m_setNotify s) in (new, s\<lparr>m_setNotify := ns\<rparr>)))"

definition RemoveNotify :: "ptr \<Rightarrow> adapter \<Rightarrow> bool \<times> adapter" where
  "RemoveNotify p s = (True, s\<lparr>m_setNotify := set_erase p (m_setNotify s)\<rparr>)"

definition GetRemoveAllIfFail :: "adapter \<Rightarrow> bool" where
  "GetRemoveAllIfFail s = m_bRemoveAll s"

definition SetRemoveAllIfFail :: "bool \<Rightarrow> adapter \<Rightarrow> adapter" where
  "SetRemoveAllIfFail b s = s\<lparr>m_bRemoveAll := b\<rparr>"

section \<open>Mappings\<close>

text \<open>\<open>_wtoi\<close>: white space, a sign, digits; a number that does not fit an \<open>int\<close> gives the
  greatest or least one.\<close>

definition wide_space :: "u16 \<Rightarrow> bool" where
  "wide_space c \<longleftrightarrow> c = 32 \<or> (9 \<le> c \<and> c \<le> 13)"

definition wide_digit :: "u16 \<Rightarrow> bool" where
  "wide_digit c \<longleftrightarrow> 48 \<le> c \<and> c \<le> 57"

definition wtoi :: "u16 list \<Rightarrow> int" where
  "wtoi str =
     (let s1 = dropWhile wide_space str;
          neg = (take 1 s1 = [45]);
          s2 = (if neg \<or> take 1 s1 = [43] then drop 1 s1 else s1);
          n = foldl (\<lambda>v c. 10 * v + (uint c - 48)) 0 (takeWhile wide_digit s2);
          v = (if neg then - n else n)
      in max (- 2147483648) (min 2147483647 v))"

text \<open>\<open>w2a\<close> is the conversion of the system (\<open>WideCharToMultiByte\<close>). The new node of the map is the
  object at \<open>next_ptr\<close>.\<close>

definition AddMapping :: "(u16 list \<Rightarrow> string) \<Rightarrow> u16 list \<Rightarrow> u16 list \<Rightarrow> u16 list \<Rightarrow> u16 list \<Rightarrow> bool \<Rightarrow>
    adapter \<Rightarrow> (ptr \<times> int) \<times> adapter" where
  "AddMapping w2a strAgentIP strAgentPort strServerIP strServerPort bTcp s =
     (let nAgentPort = word_of_int (wtoi strAgentPort) :: u16
      in if map_find nAgentPort (m_mapMapping s) \<noteq> None then ((NULL, 1), s)
         else
           (let m = next_ptr s;
                s1 = s\<lparr>m_mapMapping := map_put nAgentPort m (m_mapMapping s), next_ptr := m + 1\<rparr>;
                cur = zero_mapping\<lparr>pLoop := m_pLoop s, bTCP := bTcp\<rparr>;
                cur = cur\<lparr>Addr_agent := snd (uv_ip4_addr (w2a strAgentIP) (uint nAgentPort))\<rparr>;
                nServerPort = word_of_int (wtoi strServerPort) :: u16;
                cur = cur\<lparr>Addr_server := snd (uv_ip4_addr (w2a strServerIP) (uint nServerPort))\<rparr>
            in if S_addr (Addr_agent cur) = S_addr (Addr_server cur) \<and>
                  port (Addr_agent cur) = port (Addr_server cur)
               then ((NULL, 2), s1\<lparr>m_mapMapping := map_erase nAgentPort (m_mapMapping s1)\<rparr>)
               else ((m, 0), s1\<lparr>mem_m := (mem_m s1)(m \<mapsto> cur\<lparr>nState := MAPPING_STOP\<rparr>)\<rparr>)))"

definition StartMapping :: "ptr \<Rightarrow> bool \<Rightarrow> ptr \<Rightarrow> adapter \<Rightarrow> (bool \<times> adapter) option" where
  "StartMapping loop thread_created m s =
     (let (ok, s1) = have_loop loop thread_created s
      in if \<not> ok then Some (False, s1)
         else if m = NULL then Some (False, s1)
         else do {
           mi \<leftarrow> mem_m s1 m;
           if nState mi = MAPPING_START \<or> nState mi AND MAPPING_DELETING \<noteq> 0 then Some (False, s1)
           else if bTCP mi then Some (True, AsyncOperate m AnsycStartTCPMapping s1)
           else Some (True, AsyncOperate m AnsycStartUDPMapping s1)
         })"

definition StopMapping :: "ptr \<Rightarrow> bool \<Rightarrow> ptr \<Rightarrow> adapter \<Rightarrow> (bool \<times> adapter) option" where
  "StopMapping loop thread_created m s =
     (let (ok, s1) = have_loop loop thread_created s
      in if \<not> ok then Some (False, s1)
         else if m = NULL then Some (False, s1)
         else do {
           mi \<leftarrow> mem_m s1 m;
           if nState mi \<noteq> MAPPING_START \<or> nState mi AND MAPPING_DELETING \<noteq> 0 then Some (False, s1)
           else Some (True, AsyncOperate m AnsycStopMapping s1)
         })"

definition RemoveMapping :: "ptr \<Rightarrow> bool \<Rightarrow> ptr \<Rightarrow> adapter \<Rightarrow> (bool \<times> adapter) option" where
  "RemoveMapping loop thread_created m s =
     (let (ok, s1) = have_loop loop thread_created s
      in if \<not> ok then Some (False, s1)
         else if m = NULL then Some (False, s1)
         else do {
           mi \<leftarrow> mem_m s1 m;
           if nState mi AND MAPPING_DELETING \<noteq> 0 then Some (False, s1)
           else do {
             s2 \<leftarrow> upd_m m (\<lambda>x. x\<lparr>nState := nState x OR MAPPING_DELETING\<rparr>) s1;
             Some (True, AsyncOperate m AnsycStopMapping s2)
           }
         })"

definition GetAllConnect :: "ptr \<Rightarrow> bool \<Rightarrow> ptr \<Rightarrow> adapter \<Rightarrow> (bool \<times> adapter) option" where
  "GetAllConnect loop thread_created m s =
     (let (ok, s1) = have_loop loop thread_created s
      in if \<not> ok then Some (False, s1)
         else if m = NULL then Some (False, s1)
         else do {
           mi \<leftarrow> mem_m s1 m;
           if nState mi AND MAPPING_DELETING \<noteq> 0 then Some (False, s1)
           else Some (True, AsyncOperate m AnsycGetAllConnect s1)
         })"

text \<open>Erasing the node of the map deletes the \<open>MappingInfo\<close> in it.\<close>

definition do_RemoveMapping :: "ptr \<Rightarrow> adapter \<Rightarrow> adapter option" where
  "do_RemoveMapping m s =
     (let s1 = notify_mapping MSG_REMOVE_MAPPING m s
      in do {
        nport \<leftarrow> port_of m s1;
        Some (case map_find nport (m_mapMapping s1) of
                None \<Rightarrow> s1
              | Some m' \<Rightarrow> s1\<lparr>m_mapMapping := map_erase nport (m_mapMapping s1),
                              mem_m := (mem_m s1)(m' := None)\<rparr>)
      })"

definition do_GetAllConnect :: "ptr \<Rightarrow> adapter \<Rightarrow> adapter option" where
  "do_GetAllConnect m s = do {
     nPort \<leftarrow> port_of m s;
     Some (case map_find nPort (m_mapConnect s) of
             None \<Rightarrow> s
           | Some conns \<Rightarrow> if conns = [] then s else notify_all (map snd conns) s)
   }"

section \<open>Connections\<close>

definition AddConnect :: "ptr \<Rightarrow> adapter \<Rightarrow> adapter option" where
  "AddConnect c s = do {
     ci \<leftarrow> mem_c s c;
     nPort \<leftarrow> port_of (pMapping ci) s;
     let curKey = client_key (Addr_Client ci);
         conns = (case map_find nPort (m_mapConnect s) of
                    None \<Rightarrow> map_put curKey c []
                  | Some conns \<Rightarrow> fst (map_insert curKey c conns))
     in Some (notify_connect MSG_ADD_CONNECT c (s\<lparr>m_mapConnect := map_put nPort conns (m_mapConnect s)\<rparr>))
   }"

definition ChangeConnect :: "ptr \<Rightarrow> adapter \<Rightarrow> adapter option" where
  "ChangeConnect c s =
     (if c = NULL then Some s
      else do {
        ci \<leftarrow> mem_c s c;
        Some (if bInMap ci = IN_MAP_SUCC then notify_connect MSG_CONNECT_STATE_CHANGE c s else s)
      })"

text \<open>\<open>RemoveConnect\<close> with \<open>bAsync\<close> (a request of the user), and without, in the thread of the loop.\<close>

definition RemoveConnect_async :: "ptr \<Rightarrow> bool \<Rightarrow> ptr \<Rightarrow> adapter \<Rightarrow> (bool \<times> adapter) option" where
  "RemoveConnect_async loop thread_created c s =
     (if c = NULL then Some (False, s)
      else
        (let (ok, s1) = have_loop loop thread_created s
         in if \<not> ok then Some (False, s1)
            else do {
              ci \<leftarrow> mem_c s1 c;
              mi \<leftarrow> mem_m s1 (pMapping ci);
              if nState mi AND MAPPING_DELETING \<noteq> 0 then Some (False, s1)
              else do {
                s2 \<leftarrow> upd_c c (\<lambda>x. x\<lparr>bDeleting := True\<rparr>) s1;
                Some (True, AsyncOperate c AnsycRemoveConnect s2)
              }
            }))"

definition RemoveConnect_sync :: "ptr \<Rightarrow> adapter \<Rightarrow> adapter option" where
  "RemoveConnect_sync c s =
     (if c = NULL then Some s
      else do {
        ci \<leftarrow> mem_c s c;
        nPort \<leftarrow> port_of (pMapping ci) s;
        case map_find nPort (m_mapConnect s) of
          None \<Rightarrow> Some s
        | Some conns \<Rightarrow>
            (let curKey = client_key (Addr_Client ci)
             in case map_find curKey conns of
                  None \<Rightarrow> Some s
                | Some c' \<Rightarrow> do {
                    ci' \<leftarrow> mem_c s c';
                    s1 \<leftarrow> upd_m (pMapping ci') (\<lambda>x. x\<lparr>nConnect := nConnect x - 1\<rparr>)
                            (notify_connect MSG_DELETE_CONNECT c s);
                    Some (s1\<lparr>m_mapConnect := map_put nPort (map_erase curKey conns) (m_mapConnect s1)\<rparr>)
                  })
      })"

text \<open>The two loops of \<open>RemoveAllConnect\<close>.\<close>

fun close_tcp_connects :: "ptr list \<Rightarrow> adapter \<Rightarrow> adapter option" where
  "close_tcp_connects [] s = Some s"
| "close_tcp_connects (c # cs) s = do {
     s1 \<leftarrow> upd_c c (\<lambda>x. x\<lparr>client_data := c, bInMap := NOT_IN_MAP\<rparr>) s;
     s2 \<leftarrow> uv_close_h (ClientTcp c) tcp_connect_close_cb s1;
     s3 \<leftarrow> upd_c c (\<lambda>x. x\<lparr>server_data := c\<rparr>) s2;
     s4 \<leftarrow> uv_close_h (ServerTcp c) tcp_connect_close_cb s3;
     close_tcp_connects cs s4
   }"

fun close_udp_connects :: "ptr list \<Rightarrow> adapter \<Rightarrow> adapter option" where
  "close_udp_connects [] s = Some s"
| "close_udp_connects (c # cs) s = do {
     s1 \<leftarrow> upd_c c (\<lambda>x. x\<lparr>client_data := c, bInMap := NOT_IN_MAP\<rparr>) s;
     s2 \<leftarrow> uv_close_h (ServerUdp c) udp_connect_close_cb (ask_io (RecvStop (ServerUdp c)) s1);
     close_udp_connects cs s2
   }"

definition RemoveAllConnect :: "ptr \<Rightarrow> adapter \<Rightarrow> adapter option" where
  "RemoveAllConnect m s =
     (let s1 = notify_mapping MSG_LISTEN_FAIL m s
      in if \<not> m_bRemoveAll s1 then Some s1
         else do {
           nPort \<leftarrow> port_of m s1;
           case map_find nPort (m_mapConnect s1) of
             None \<Rightarrow> Some s1
           | Some conns \<Rightarrow> do {
               mi \<leftarrow> mem_m s1 m;
               s2 \<leftarrow> (if bTCP mi then close_tcp_connects (map snd conns) (notify_mapping MSG_CLEAR_CONNECT m s1)
                      else close_udp_connects (map snd conns) (notify_mapping MSG_CLEAR_CONNECT m s1));
               upd_m m (\<lambda>x. x\<lparr>nConnect := 0\<rparr>) (s2\<lparr>m_mapConnect := map_put nPort [] (m_mapConnect s2)\<rparr>)
             }
         })"

definition GetUDPConnect :: "ptr \<Rightarrow> sockaddr \<Rightarrow> adapter \<Rightarrow> (ptr \<times> adapter) option" where
  "GetUDPConnect m a s =
     (if m = NULL then Some (NULL, s)
      else do {
        nport \<leftarrow> port_of m s;
        let curKey = client_key a;
            conns = (case map_find nport (m_mapConnect s) of None \<Rightarrow> [] | Some conns \<Rightarrow> conns)
        in case map_find curKey conns of
             Some c \<Rightarrow> Some (c, s)
           | None \<Rightarrow> do {
               _ \<leftarrow> this_of m s;
               let (c, s1) = new_c s
               in do {
                 s2 \<leftarrow> upd_c c (\<lambda>x. x\<lparr>pMapping := m, bInMap := IN_MAP_WAIT,
                         Addr_Client := zero_sockaddr\<lparr>port := port a, addr := addr a\<rparr>, bDeleting := False\<rparr>) s1;
                 let s3 = ask_io (RecvStart (ServerUdp c)) (init_handle (ServerUdp c) s2);
                     s4 = s3\<lparr>m_mapConnect := map_put nport (fst (map_insert curKey c conns)) (m_mapConnect s3)\<rparr>
                 in Some (c, notify_connect MSG_ADD_CONNECT c s4)
               }
             }
      })"

section \<open>Traffic\<close>

text \<open>The counters of a connection and of its mapping when \<open>nread\<close> bytes have come from the
  client, and from the server (the TCP and the UDP callback differ).\<close>

definition count_client :: "u32 \<Rightarrow> ConnectInfo \<times> MappingInfo \<Rightarrow> ConnectInfo \<times> MappingInfo" where
  "count_client nread cm =
     (let (c, m) = cm;
          c = c\<lparr>nCurFromClientB := nCurFromClientB c + nread\<rparr>;
          m = m\<lparr>nTotalFromClientB := nTotalFromClientB m + nread\<rparr>;
          c = c\<lparr>nCurFromClientM := nCurFromClientM c + drop_bit 20 (nCurFromClientB c)\<rparr>;
          m = m\<lparr>nTotalFromClientM := nTotalFromClientM m + drop_bit 20 (nCurFromClientB c)\<rparr>
      in (c\<lparr>nCurFromClientB := nCurFromClientB c AND 0xfffff\<rparr>,
          m\<lparr>nTotalFromClientB := nTotalFromClientB m AND 0xfffff\<rparr>))"

definition count_server_tcp :: "u32 \<Rightarrow> ConnectInfo \<times> MappingInfo \<Rightarrow> ConnectInfo \<times> MappingInfo" where
  "count_server_tcp nread cm =
     (let (c, m) = cm;
          c = c\<lparr>nCurFromServerB := nCurFromServerB c + nread\<rparr>;
          m = m\<lparr>nTotalFromServerB := nTotalFromServerB m + nread\<rparr>;
          c = c\<lparr>nCurFromServerM := nCurFromServerM c + drop_bit 20 (nCurFromClientB c)\<rparr>;
          m = m\<lparr>nTotalFromServerM := nTotalFromServerM m + drop_bit 20 (nCurFromClientB c)\<rparr>
      in (c\<lparr>nCurFromServerB := nCurFromServerB c AND 0xfffff\<rparr>,
          m\<lparr>nTotalFromServerB := nTotalFromServerB m AND 0xfffff\<rparr>))"

definition count_server_udp :: "u32 \<Rightarrow> ConnectInfo \<times> MappingInfo \<Rightarrow> ConnectInfo \<times> MappingInfo" where
  "count_server_udp nread cm =
     (let (c, m) = cm;
          c = c\<lparr>nCurFromServerB := nCurFromServerB c + nread\<rparr>;
          m = m\<lparr>nTotalFromServerB := nTotalFromServerB m + nread\<rparr>;
          c = c\<lparr>nCurFromServerM := nCurFromServerM c + drop_bit 20 (nCurFromServerB c)\<rparr>;
          m = m\<lparr>nTotalFromServerM := nTotalFromServerM m + drop_bit 20 (nCurFromServerB c)\<rparr>
      in (c\<lparr>nCurFromServerB := nCurFromServerB c AND 0xfffff\<rparr>,
          m\<lparr>nTotalFromServerB := nTotalFromServerB m AND 0xfffff\<rparr>))"

text \<open>A counting function applied to the connection \<open>c\<close> and the mapping it points to.\<close>

definition count_on :: "(ConnectInfo \<times> MappingInfo \<Rightarrow> ConnectInfo \<times> MappingInfo) \<Rightarrow> ptr \<Rightarrow> adapter \<Rightarrow>
    adapter option" where
  "count_on f c s = do {
     ci \<leftarrow> mem_c s c;
     mi \<leftarrow> mem_m s (pMapping ci);
     let (ci', mi') = f (ci, mi)
     in Some (s\<lparr>mem_c := (mem_c s)(c \<mapsto> ci'), mem_m := (mem_m s)(pMapping ci \<mapsto> mi')\<rparr>)
   }"

end
