(* ===== verification/Pm_Callbacks.thy ===== *)
theory Pm_Callbacks
  imports Pm_Adapter
begin

text \<open>
  \<open>PortMapping/LibuvAdapter.cpp\<close>, class \<open>IOCallBack\<close>: what runs in the thread of the loop. The
  work functions are run from \<open>loop->wq\<close>, the others by libuv; \<open>loop_step\<close> collects what the
  loop may do next.
\<close>

unbundle bit_operations_syntax

section \<open>Work queued by the user's thread\<close>

text \<open>What \<open>uv_tcp_init\<close>, \<open>uv_tcp_bind\<close> and \<open>uv_listen\<close> return.\<close>

definition run_AnsycStartTCPMapping :: "int \<Rightarrow> int \<Rightarrow> int \<Rightarrow> ptr \<Rightarrow> adapter \<Rightarrow> adapter option" where
  "run_AnsycStartTCPMapping init_rc bind_rc listen_rc m s =
     (if m = NULL then Some s
      else do {
        mi \<leftarrow> mem_m s m;
        if nState mi = MAPPING_START then Some s
        else if init_rc \<noteq> 0 then upd_m m (\<lambda>x. x\<lparr>nState := MAPPING_FAIL OR INIT_FAIL\<rparr>) s
        else
          (let s1 = init_handle (Listen m) s
           in if bind_rc \<noteq> 0 then upd_m m (\<lambda>x. x\<lparr>nState := MAPPING_FAIL OR BIND_FAIL\<rparr>) s1
              else if listen_rc \<noteq> 0 then upd_m m (\<lambda>x. x\<lparr>nState := MAPPING_FAIL OR LISTEN_FAIL\<rparr>) s1
              else upd_m m (\<lambda>x. x\<lparr>nState := MAPPING_START\<rparr>) s1)
      })"

definition run_AnsycStartUDPMapping :: "int \<Rightarrow> int \<Rightarrow> ptr \<Rightarrow> adapter \<Rightarrow> adapter option" where
  "run_AnsycStartUDPMapping init_rc bind_rc m s =
     (if m = NULL then Some s
      else do {
        mi \<leftarrow> mem_m s m;
        if nState mi = MAPPING_START then Some s
        else if init_rc \<noteq> 0 then upd_m m (\<lambda>x. x\<lparr>nState := MAPPING_FAIL OR INIT_FAIL\<rparr>) s
        else
          (let s1 = init_handle (Listen m) s
           in if bind_rc \<noteq> 0 then upd_m m (\<lambda>x. x\<lparr>nState := MAPPING_FAIL OR BIND_FAIL\<rparr>) s1
              else upd_m m (\<lambda>x. x\<lparr>nState := MAPPING_START\<rparr>) (ask_io (RecvStart (Listen m)) s1))
      })"

definition run_AnsycStopMapping :: "ptr \<Rightarrow> adapter \<Rightarrow> adapter option" where
  "run_AnsycStopMapping m s =
     (if m = NULL then Some s
      else do {
        mi \<leftarrow> mem_m s m;
        if nState mi AND MAPPING_STOP \<noteq> 0 then
          (if nState mi AND MAPPING_DELETING \<noteq> 0 then do { _ \<leftarrow> this_of m s; do_RemoveMapping m s }
           else Some s)
        else do {
          s1 \<leftarrow> upd_m m (\<lambda>x. x\<lparr>listen_data := m\<rparr>) s;
          uv_close_h (Listen m) listen_close_cb s1
        }
      })"

text \<open>Both handles of a TCP connection are given their data and closed.\<close>

definition close_both :: "ptr \<Rightarrow> adapter \<Rightarrow> adapter option" where
  "close_both c s = do {
     s1 \<leftarrow> upd_c c (\<lambda>x. x\<lparr>server_data := c\<rparr>) s;
     s2 \<leftarrow> uv_close_h (ServerTcp c) tcp_connect_close_cb s1;
     s3 \<leftarrow> upd_c c (\<lambda>x. x\<lparr>client_data := c\<rparr>) s2;
     uv_close_h (ClientTcp c) tcp_connect_close_cb s3
   }"

definition run_AnsycRemoveConnect :: "ptr \<Rightarrow> adapter \<Rightarrow> adapter option" where
  "run_AnsycRemoveConnect c s =
     (if c = NULL then Some s
      else do {
        ci \<leftarrow> mem_c s c;
        mi \<leftarrow> mem_m s (pMapping ci);
        if bTCP mi then close_both c s
        else uv_close_h (ServerUdp c) udp_connect_close_cb s
      })"

definition run_AnsycGetAllConnect :: "ptr \<Rightarrow> adapter \<Rightarrow> adapter option" where
  "run_AnsycGetAllConnect m s =
     (if m = NULL then Some s else do { _ \<leftarrow> this_of m s; do_GetAllConnect m s })"

section \<open>TCP\<close>

text \<open>The client's address read from the buffer of \<open>AcceptEx\<close> (\<open>pData\<close>), where \<open>char\<close> is
  signed.\<close>

definition family_number :: "u16 \<Rightarrow> af" where
  "family_number n = (if n = 2 then AF_INET else if n = 23 then AF_INET6 else AF_OTHER)"

definition address_from_buffer :: "u8 list \<Rightarrow> sockaddr \<Rightarrow> sockaddr" where
  "address_from_buffer pData a =
     (let a = a\<lparr>family := family_number (scast (pData ! 6))\<rparr>;
          a = a\<lparr>port := scast (pData ! 9)\<rparr>;
          a = a\<lparr>port := push_bit 8 (port a)\<rparr>;
          a = a\<lparr>port := port a + scast (pData ! 8)\<rparr>
      in a\<lparr>addr := [pData ! 10, pData ! 11, pData ! 12, pData ! 13]\<rparr>)"

text \<open>\<open>peer\<close> is what \<open>getpeername\<close> leaves in the address.\<close>

definition tcp_listen_connection_cb :: "int \<Rightarrow> sockaddr \<Rightarrow> u8 list \<Rightarrow> int \<Rightarrow> int \<Rightarrow> ptr \<Rightarrow> adapter \<Rightarrow>
    adapter option" where
  "tcp_listen_connection_cb status peer pData accept_rc connect_rc m s =
     (if status < 0 then do {
        s1 \<leftarrow> upd_m m (\<lambda>x. x\<lparr>nState := MAPPING_FAIL OR LISTEN_FAIL, listen_data := m\<rparr>) s;
        uv_close_h (Listen m) listen_close_cb s1
      }
      else
        (let (c, s1) = new_c s;
             a = (if port peer = 0 then address_from_buffer pData peer else peer)
         in do {
           s2 \<leftarrow> upd_c c (\<lambda>x. x\<lparr>Addr_Client := a, bInMap := NOT_IN_MAP, pMapping := m\<rparr>) s1;
           _ \<leftarrow> this_of m s2;
           let s3 = init_handle (ClientTcp c) s2
           in if accept_rc \<noteq> 0 then delete_c c s3
              else
                (let s4 = init_handle (ServerTcp c) s3
                 in if connect_rc \<noteq> 0 then delete_c c s4
                    else do {
                      s5 \<leftarrow> upd_c c (\<lambda>x. x\<lparr>bInMap := IN_MAP_WAIT\<rparr>) (s4\<lparr>connecting := connecting s4 @ [c]\<rparr>);
                      AddConnect c s5
                    })
         }))"

definition tcp_connect_cb :: "int \<Rightarrow> ptr \<Rightarrow> adapter \<Rightarrow> adapter option" where
  "tcp_connect_cb status c s =
     (if c = NULL then Some s
      else do {
        s1 \<leftarrow> (if status \<noteq> 0 then close_both c s else Some s);
        s2 \<leftarrow> upd_c c (\<lambda>x. x\<lparr>bInMap := IN_MAP_SUCC\<rparr>) s1;
        ci \<leftarrow> mem_c s2 c;
        _ \<leftarrow> this_of (pMapping ci) s2;
        s3 \<leftarrow> ChangeConnect c s2;
        s4 \<leftarrow> upd_c c (\<lambda>x. x\<lparr>server_data := c\<rparr>) s3;
        s5 \<leftarrow> upd_c c (\<lambda>x. x\<lparr>client_data := c\<rparr>) (ask_io (ReadStart (ServerTcp c)) s4);
        upd_m (pMapping ci) (\<lambda>x. x\<lparr>nConnect := nConnect x + 1\<rparr>) (ask_io (ReadStart (ClientTcp c)) s5)
      })"

text \<open>\<open>data\<close> is \<open>buf->base\<close> up to \<open>nread\<close>.\<close>

definition tcp_read_cb :: "hnd \<Rightarrow> ptr \<Rightarrow> int \<Rightarrow> u8 list \<Rightarrow> adapter \<Rightarrow> adapter option" where
  "tcp_read_cb stream c nread data s =
     (if nread < 1 then do {
        s1 \<leftarrow> uv_close_h (ClientTcp c) tcp_connect_close_cb s;
        uv_close_h (ServerTcp c) tcp_connect_close_cb s1
      }
      else if stream = ClientTcp c then do {
        s1 \<leftarrow> count_on (count_client (word_of_int nread)) c s;
        Some (ask_io (Write (ServerTcp c) data) s1)
      }
      else if stream = ServerTcp c then do {
        s1 \<leftarrow> count_on (count_server_tcp (word_of_int nread)) c s;
        Some (ask_io (Write (ClientTcp c) data) s1)
      }
      else Some s)"

section \<open>UDP\<close>

text \<open>\<open>addr\<close> is \<open>None\<close> for the \<open>NULL\<close> libuv passes when there is nothing more to read.\<close>

definition udp_listen_recv_cb :: "ptr \<Rightarrow> int \<Rightarrow> u8 list \<Rightarrow> sockaddr option \<Rightarrow> adapter \<Rightarrow> adapter option" where
  "udp_listen_recv_cb m nread data a s =
     (if nread < 0 then do {
        s1 \<leftarrow> upd_m m (\<lambda>x. x\<lparr>nState := MAPPING_FAIL OR LISTEN_FAIL, listen_data := m\<rparr>) s;
        uv_close_h (Listen m) listen_close_cb s1
      }
      else do {
        a \<leftarrow> a;
        (c, s1) \<leftarrow> GetUDPConnect m a s;
        if c = NULL then Some s1
        else do {
          mi \<leftarrow> mem_m s1 m;
          count_on (count_client (word_of_int nread)) c (udp_send (ServerUdp c) data (Addr_server mi) s1)
        }
      })"

definition udp_server_recv_cb :: "ptr \<Rightarrow> int \<Rightarrow> u8 list \<Rightarrow> adapter \<Rightarrow> adapter option" where
  "udp_server_recv_cb c nread data s =
     (if nread < 0 then uv_close_h (ServerUdp c) udp_connect_close_cb s
      else do {
        ci \<leftarrow> mem_c s c;
        count_on (count_server_udp (word_of_int nread)) c (udp_send (ServerUdp c) data (Addr_Client ci) s)
      })"

section \<open>Close callbacks\<close>

definition run_listen_close_cb :: "ptr \<Rightarrow> adapter \<Rightarrow> adapter option" where
  "run_listen_close_cb m s = do {
     mi \<leftarrow> mem_m s m;
     let m = listen_data mi
     in do {
       _ \<leftarrow> this_of m s;
       s1 \<leftarrow> RemoveAllConnect m s;
       mi1 \<leftarrow> mem_m s1 m;
       if nState mi1 AND MAPPING_DELETING \<noteq> 0 then do_RemoveMapping m s1
       else do {
         s2 \<leftarrow> upd_m m (\<lambda>x. x\<lparr>nState := nState x OR MAPPING_STOP\<rparr>) s1;
         s3 \<leftarrow> upd_m m (\<lambda>x. x\<lparr>nState := nState x AND NOT MAPPING_START\<rparr>) s2;
         Some (notify_mapping MSG_MAPPING_STOP m s3)
       }
     }
   }"

text \<open>\<open>handle->data\<close>, and setting it to \<open>NULL\<close>.\<close>

fun data_of :: "hnd \<Rightarrow> ConnectInfo \<Rightarrow> ptr" where
  "data_of (ServerTcp c) ci = server_data ci"
| "data_of _ ci = client_data ci"

fun clear_data :: "hnd \<Rightarrow> ConnectInfo \<Rightarrow> ConnectInfo" where
  "clear_data (ServerTcp c) ci = ci\<lparr>server_data := NULL\<rparr>"
| "clear_data _ ci = ci\<lparr>client_data := NULL\<rparr>"

definition run_tcp_connect_close_cb :: "hnd \<Rightarrow> ptr \<Rightarrow> adapter \<Rightarrow> adapter option" where
  "run_tcp_connect_close_cb h c0 s = do {
     ci0 \<leftarrow> mem_c s c0;
     let c = data_of h ci0
     in do {
       s1 \<leftarrow> upd_c c0 (clear_data h) s;
       if c = NULL then Some s1
       else do {
         ci \<leftarrow> mem_c s1 c;
         if client_data ci \<noteq> NULL \<or> server_data ci \<noteq> NULL then Some s1
         else do {
           s2 \<leftarrow> (if bInMap ci \<noteq> 0 then do { _ \<leftarrow> this_of (pMapping ci) s1; RemoveConnect_sync c s1 }
                  else Some s1);
           delete_c c s2
         }
       }
     }
   }"

definition run_udp_connect_close_cb :: "ptr \<Rightarrow> adapter \<Rightarrow> adapter option" where
  "run_udp_connect_close_cb c s = do {
     ci \<leftarrow> mem_c s c;
     s1 \<leftarrow> (if bInMap ci \<noteq> 0 then do { _ \<leftarrow> this_of (pMapping ci) s; RemoveConnect_sync c s } else Some s);
     delete_c c s1
   }"

text \<open>The loop finishes the close of a handle: it leaves the loop's queue, then the callback runs.\<close>

fun run_close :: "hnd \<times> close_fn \<Rightarrow> adapter \<Rightarrow> adapter option" where
  "run_close (Listen m, listen_close_cb) s = run_listen_close_cb m s"
| "run_close (ClientTcp c, tcp_connect_close_cb) s = run_tcp_connect_close_cb (ClientTcp c) c s"
| "run_close (ServerTcp c, tcp_connect_close_cb) s = run_tcp_connect_close_cb (ServerTcp c) c s"
| "run_close (ServerUdp c, udp_connect_close_cb) s = run_udp_connect_close_cb c s"
| "run_close _ s = None"

definition finish_close :: "hnd \<times> close_fn \<Rightarrow> adapter \<Rightarrow> adapter option" where
  "finish_close hc s =
     run_close hc (s\<lparr>closing := remove1 hc (closing s), in_loop := filter (\<lambda>h. h \<noteq> fst hc) (in_loop s),
       closed := fst hc # closed s\<rparr>)"

section \<open>Local addresses\<close>

text \<open>\<open>names\<close> are the addresses of \<open>getaddrinfo\<close>, or the failure of it or of \<open>gethostname\<close>.\<close>

definition GetLocalIP :: "(string \<Rightarrow> 'w) \<Rightarrow> sockaddr list option \<Rightarrow> bool \<times> 'w list" where
  "GetLocalIP a2w names =
     (case names of
        None \<Rightarrow> (False, [])
      | Some found \<Rightarrow>
          (True, concat (map (\<lambda>cur.
             if family cur \<noteq> AF_INET then []
             else case uv_ip4_name cur 32 of Inl _ \<Rightarrow> [] | Inr ip \<Rightarrow> [a2w ip]) found)))"

end
