(* ===== verification/Pm_Invariant.thy ===== *)
theory Pm_Invariant
  imports Pm_Callbacks
begin

text \<open>
  The state machine of the application and its invariant: with \<open>m_bRemoveAll\<close> set (the default),
  every entry of the table of connections is a live connection of a live mapping.
\<close>

unbundle bit_operations_syntax

section \<open>Steps\<close>

text \<open>What the system answers to a piece of queued work.\<close>

record answers =
  init_rc :: int
  bind_rc :: int
  listen_rc :: int

definition run_work :: "answers \<Rightarrow> work_fn \<times> ptr \<Rightarrow> adapter \<Rightarrow> adapter option" where
  "run_work a w s =
     (case w of
        (AnsycStartTCPMapping, m) \<Rightarrow> run_AnsycStartTCPMapping (init_rc a) (bind_rc a) (listen_rc a) m s
      | (AnsycStartUDPMapping, m) \<Rightarrow> run_AnsycStartUDPMapping (init_rc a) (bind_rc a) m s
      | (AnsycStopMapping, m) \<Rightarrow> run_AnsycStopMapping m s
      | (AnsycRemoveConnect, c) \<Rightarrow> run_AnsycRemoveConnect c s
      | (AnsycGetAllConnect, m) \<Rightarrow> run_AnsycGetAllConnect m s)"

text \<open>A handle that libuv still calls back for.\<close>

definition open_handle :: "hnd \<Rightarrow> adapter \<Rightarrow> bool" where
  "open_handle h s \<longleftrightarrow> h \<in> set (in_loop s) \<and> h \<notin> fst ` set (closing s)"

inductive app_step :: "adapter \<Rightarrow> adapter \<Rightarrow> bool" where
  add: "AddMapping w2a ip p ip' p' tcp s = (r, s') \<Longrightarrow> app_step s s'"
| start: "StartMapping loop ok m s = Some (b, s') \<Longrightarrow> app_step s s'"
| stop: "StopMapping loop ok m s = Some (b, s') \<Longrightarrow> app_step s s'"
| remove: "RemoveMapping loop ok m s = Some (b, s') \<Longrightarrow> app_step s s'"
| all: "GetAllConnect loop ok m s = Some (b, s') \<Longrightarrow> app_step s s'"
| remove_connect: "RemoveConnect_async loop ok c s = Some (b, s') \<Longrightarrow> app_step s s'"
| add_notify: "AddNotify p s = (b, s') \<Longrightarrow> app_step s s'"
| remove_notify: "RemoveNotify p s = (b, s') \<Longrightarrow> app_step s s'"
| work: "work_queue s = w # ws \<Longrightarrow> run_work a w (s\<lparr>work_queue := ws\<rparr>) = Some s' \<Longrightarrow> app_step s s'"
| accept: "open_handle (Listen m) s \<Longrightarrow>
    tcp_listen_connection_cb status peer pData accept_rc connect_rc m s = Some s' \<Longrightarrow> app_step s s'"
| connect: "c \<in> set (connecting s) \<Longrightarrow>
    tcp_connect_cb status c (s\<lparr>connecting := remove1 c (connecting s)\<rparr>) = Some s' \<Longrightarrow> app_step s s'"
| read: "open_handle h s \<Longrightarrow> tcp_read_cb h c nread data s = Some s' \<Longrightarrow> app_step s s'"
| udp_client: "open_handle (Listen m) s \<Longrightarrow> udp_listen_recv_cb m nread data a s = Some s' \<Longrightarrow> app_step s s'"
| udp_server: "open_handle (ServerUdp c) s \<Longrightarrow> udp_server_recv_cb c nread data s = Some s' \<Longrightarrow> app_step s s'"
| close: "hc \<in> set (closing s) \<Longrightarrow> finish_close hc s = Some s' \<Longrightarrow> app_step s s'"

section \<open>The invariant\<close>

definition entry :: "u16 \<Rightarrow> Connectkey \<Rightarrow> ptr \<Rightarrow> adapter \<Rightarrow> bool" where
  "entry p k c s \<longleftrightarrow> (\<exists>conns. (p, conns) \<in> set (m_mapConnect s) \<and> (k, c) \<in> set conns)"

definition agent_port :: "MappingInfo \<Rightarrow> u16" where
  "agent_port mi = htons (port (Addr_agent mi))"

definition stopped :: "MappingInfo \<Rightarrow> bool" where
  "stopped mi \<longleftrightarrow> nState mi AND MAPPING_STOP \<noteq> 0"

definition maps_ok :: "adapter \<Rightarrow> bool" where
  "maps_ok s \<longleftrightarrow> map_ok (m_mapMapping s) \<and> map_ok (m_mapConnect s) \<and>
     (\<forall>(p, conns) \<in> set (m_mapConnect s). map_ok conns)"

text \<open>The live \<open>MappingInfo\<close> objects are the nodes of \<open>m_mapMapping\<close>, at their ports.\<close>

definition mappings_ok :: "adapter \<Rightarrow> bool" where
  "mappings_ok s \<longleftrightarrow>
     (\<forall>m mi. mem_m s m = Some mi \<longrightarrow> m < next_ptr s \<and> (agent_port mi, m) \<in> set (m_mapMapping s)) \<and>
     (\<forall>(p, m) \<in> set (m_mapMapping s). \<exists>mi. mem_m s m = Some mi \<and> agent_port mi = p)"

definition table_ok :: "adapter \<Rightarrow> bool" where
  "table_ok s \<longleftrightarrow> (\<forall>c. mem_c s c \<noteq> None \<longrightarrow> 0 < c \<and> c < next_ptr s) \<and>
     (\<forall>p k c. entry p k c s \<longrightarrow> (\<exists>ci mi. mem_c s c = Some ci \<and> client_key (Addr_Client ci) = k \<and>
        bInMap ci \<noteq> 0 \<and> mem_m s (pMapping ci) = Some mi \<and> agent_port mi = p \<and> \<not> stopped mi))"

text \<open>A listening handle belongs to a mapping that is not stopped, and the data of a closing one
  points to its mapping.\<close>

definition listen_ok :: "adapter \<Rightarrow> bool" where
  "listen_ok s \<longleftrightarrow>
     (\<forall>m. Listen m \<in> set (in_loop s) \<longrightarrow> m < next_ptr s \<and> (\<forall>mi. mem_m s m = Some mi \<longrightarrow> \<not> stopped mi)) \<and>
     (\<forall>m f. (Listen m, f) \<in> set (closing s) \<longrightarrow>
        m < next_ptr s \<and> (\<forall>mi. mem_m s m = Some mi \<longrightarrow> listen_data mi = m))"

definition app_ok :: "adapter \<Rightarrow> bool" where
  "app_ok s \<longleftrightarrow> m_bRemoveAll s \<and> 0 < next_ptr s \<and> maps_ok s \<and> mappings_ok s \<and> table_ok s \<and> listen_ok s"

lemmas app_ok_defs = app_ok_def maps_ok_def mappings_ok_def table_ok_def listen_ok_def

section \<open>The primitives\<close>

lemma app_ok_frame [simp]:
  "app_ok (s\<lparr>notices := n\<rparr>) = app_ok s" "app_ok (s\<lparr>io := i\<rparr>) = app_ok s"
  "app_ok (s\<lparr>work_queue := q\<rparr>) = app_ok s" "app_ok (s\<lparr>connecting := cs\<rparr>) = app_ok s"
  "app_ok (s\<lparr>m_setNotify := ns\<rparr>) = app_ok s" "app_ok (s\<lparr>m_pLoop := l\<rparr>) = app_ok s"
  "app_ok (s\<lparr>closed := hs\<rparr>) = app_ok s"
  by (simp_all add: app_ok_defs entry_def)

lemma app_ok_calls [simp]:
  "app_ok (notify_connect t c s) = app_ok s" "app_ok (notify_mapping t' m s) = app_ok s"
  "app_ok (notify_all cs s) = app_ok s" "app_ok (ask_io i s) = app_ok s"
  "app_ok (udp_send h d a s) = app_ok s" "app_ok (AsyncOperate p f s) = app_ok s"
  by (simp_all add: notify_connect_def notify_mapping_def notify_all_def ask_io_def udp_send_def
      AsyncOperate_def RegisterAnsycWork_def)

lemma calls_fields [simp]:
  "mem_m (notify_connect t c s) = mem_m s" "mem_m (notify_mapping t' m s) = mem_m s"
  "mem_m (notify_all cs s) = mem_m s" "mem_m (ask_io i s) = mem_m s" "mem_m (udp_send h d a s) = mem_m s"
  "mem_m (init_handle h s) = mem_m s"
  "mem_c (notify_connect t c s) = mem_c s" "mem_c (notify_mapping t' m s) = mem_c s"
  "mem_c (notify_all cs s) = mem_c s" "mem_c (ask_io i s) = mem_c s" "mem_c (udp_send h d a s) = mem_c s"
  "mem_c (init_handle h s) = mem_c s"
  "m_mapConnect (notify_connect t c s) = m_mapConnect s" "m_mapConnect (notify_mapping t' m s) = m_mapConnect s"
  "m_mapConnect (ask_io i s) = m_mapConnect s" "m_mapConnect (init_handle h s) = m_mapConnect s"
  "m_mapConnect (udp_send h d a s) = m_mapConnect s"
  "m_mapMapping (notify_connect t c s) = m_mapMapping s" "m_mapMapping (notify_mapping t' m s) = m_mapMapping s"
  "m_mapMapping (ask_io i s) = m_mapMapping s" "m_mapMapping (init_handle h s) = m_mapMapping s"
  "in_loop (notify_connect t c s) = in_loop s" "in_loop (notify_mapping t' m s) = in_loop s"
  "in_loop (ask_io i s) = in_loop s" "closing (notify_mapping t' m s) = closing s"
  "closing (ask_io i s) = closing s" "closing (notify_connect t c s) = closing s"
  "next_ptr (notify_connect t c s) = next_ptr s" "next_ptr (notify_mapping t' m s) = next_ptr s"
  "next_ptr (ask_io i s) = next_ptr s" "next_ptr (init_handle h s) = next_ptr s"
  "m_bRemoveAll (notify_mapping t' m s) = m_bRemoveAll s"
  by (simp_all add: notify_connect_def notify_mapping_def notify_all_def ask_io_def udp_send_def init_handle_def)

lemma upd_m_Some: "upd_m m f s = Some s' \<longleftrightarrow>
    (\<exists>mi. mem_m s m = Some mi \<and> s' = s\<lparr>mem_m := (mem_m s)(m \<mapsto> f mi)\<rparr>)"
  by (auto simp: upd_m_def)

lemma upd_c_Some: "upd_c c f s = Some s' \<longleftrightarrow>
    (\<exists>ci. mem_c s c = Some ci \<and> s' = s\<lparr>mem_c := (mem_c s)(c \<mapsto> f ci)\<rparr>)"
  by (auto simp: upd_c_def)

text \<open>Updates of objects that keep what the invariant looks at.\<close>

definition kept_m :: "ptr \<Rightarrow> MappingInfo \<Rightarrow> MappingInfo \<Rightarrow> bool" where
  "kept_m m mi mi' \<longleftrightarrow> Addr_agent mi' = Addr_agent mi \<and> (stopped mi' \<longrightarrow> stopped mi) \<and>
     (listen_data mi' = listen_data mi \<or> listen_data mi' = m)"

definition kept_c :: "ConnectInfo \<Rightarrow> ConnectInfo \<Rightarrow> bool" where
  "kept_c ci ci' \<longleftrightarrow> Addr_Client ci' = Addr_Client ci \<and> pMapping ci' = pMapping ci \<and>
     (bInMap ci \<noteq> 0 \<longrightarrow> bInMap ci' \<noteq> 0)"

definition same_shape :: "adapter \<Rightarrow> adapter \<Rightarrow> bool" where
  "same_shape s s' \<longleftrightarrow> m_bRemoveAll s' = m_bRemoveAll s \<and> next_ptr s' = next_ptr s \<and>
     m_mapMapping s' = m_mapMapping s \<and> m_mapConnect s' = m_mapConnect s \<and>
     in_loop s' = in_loop s \<and> closing s' = closing s \<and>
     (\<forall>m. rel_option (kept_m m) (mem_m s m) (mem_m s' m)) \<and>
     (\<forall>c. rel_option kept_c (mem_c s c) (mem_c s' c))"

lemma kept_refl [simp]: "kept_m m mi mi" "kept_c ci ci"
  by (simp_all add: kept_m_def kept_c_def)

lemma rel_kept_refl [simp]: "rel_option (kept_m m) x x" "rel_option kept_c y y"
  by (simp_all add: option.rel_refl)

lemma same_shape_mem:
  assumes "same_shape s s'"
  shows "mem_m s' m = Some mi' \<Longrightarrow> \<exists>mi. mem_m s m = Some mi \<and> kept_m m mi mi'"
    and "mem_m s m = Some mi \<Longrightarrow> \<exists>mi'. mem_m s' m = Some mi' \<and> kept_m m mi mi'"
    and "mem_c s c = Some ci \<Longrightarrow> \<exists>ci'. mem_c s' c = Some ci' \<and> kept_c ci ci'"
    and "mem_c s' c = Some ci' \<Longrightarrow> \<exists>ci. mem_c s c = Some ci \<and> kept_c ci ci'"
  using assms unfolding same_shape_def by (metis option_rel_Some1 option_rel_Some2)+

lemma kept_port: "kept_m m mi mi' \<Longrightarrow> agent_port mi' = agent_port mi"
  by (simp add: kept_m_def agent_port_def)

lemma table_okD:
  assumes "table_ok s" "entry p k c s"
  shows "\<exists>ci mi. mem_c s c = Some ci \<and> client_key (Addr_Client ci) = k \<and> bInMap ci \<noteq> 0 \<and>
    mem_m s (pMapping ci) = Some mi \<and> agent_port mi = p \<and> \<not> stopped mi"
  using assms unfolding table_ok_def by metis

lemma app_ok_same_shape:
  assumes ok: "app_ok s" and sh: "same_shape s s'"
  shows "app_ok s'"
proof -
  have f: "m_bRemoveAll s' = m_bRemoveAll s" "next_ptr s' = next_ptr s" "m_mapMapping s' = m_mapMapping s"
      "m_mapConnect s' = m_mapConnect s" "in_loop s' = in_loop s" "closing s' = closing s"
    using sh by (simp_all add: same_shape_def)
  have e: "entry p k c s' = entry p k c s" for p k c by (simp add: entry_def f)
  note mem = same_shape_mem[OF sh]
  have "maps_ok s'" using ok by (simp add: app_ok_def maps_ok_def f)
  moreover have "mappings_ok s'"
  proof -
    have o: "mappings_ok s" using ok by (simp add: app_ok_def)
    have "m < next_ptr s' \<and> (agent_port mi', m) \<in> set (m_mapMapping s')" if "mem_m s' m = Some mi'" for m mi'
      using mem(1)[OF that] o kept_port by (fastforce simp: mappings_ok_def f)
    moreover have "\<exists>mi'. mem_m s' m = Some mi' \<and> agent_port mi' = p" if pm: "(p, m) \<in> set (m_mapMapping s')" for p m
    proof -
      obtain mi where "mem_m s m = Some mi" "agent_port mi = p"
        using o pm unfolding mappings_ok_def f by auto
      then show ?thesis using mem(2) kept_port by metis
    qed
    ultimately show ?thesis by (fastforce simp: mappings_ok_def)
  qed
  moreover have "table_ok s'"
  proof -
    have o: "table_ok s" using ok by (simp add: app_ok_def)
    have "\<exists>ci' mi'. mem_c s' c = Some ci' \<and> client_key (Addr_Client ci') = k \<and> bInMap ci' \<noteq> 0 \<and>
        mem_m s' (pMapping ci') = Some mi' \<and> agent_port mi' = p \<and> \<not> stopped mi'" if pkc: "entry p k c s'" for p k c
    proof -
      obtain ci mi where a: "mem_c s c = Some ci" "client_key (Addr_Client ci) = k" "bInMap ci \<noteq> 0"
          "mem_m s (pMapping ci) = Some mi" "agent_port mi = p" "\<not> stopped mi"
        using table_okD[OF o pkc[unfolded e]] by blast
      obtain ci' mi' where b: "mem_c s' c = Some ci'" "kept_c ci ci'" "mem_m s' (pMapping ci) = Some mi'"
          "kept_m (pMapping ci) mi mi'"
        using mem(3)[OF a(1)] mem(2)[OF a(4)] by blast
      have "client_key (Addr_Client ci') = k" "bInMap ci' \<noteq> 0" "pMapping ci' = pMapping ci"
        using b(2) a(2,3) by (simp_all add: kept_c_def)
      moreover have "agent_port mi' = p" "\<not> stopped mi'"
        using b(4) a(5,6) by (auto simp: kept_m_def agent_port_def)
      ultimately show ?thesis using b(1,3) by simp
    qed
    moreover have "0 < c \<and> c < next_ptr s'" if "mem_c s' c \<noteq> None" for c
      using that mem(4)[of c] o by (force simp: table_ok_def f)
    ultimately show ?thesis unfolding table_ok_def by blast
  qed
  moreover have "listen_ok s'"
  proof -
    have o: "listen_ok s" using ok by (simp add: app_ok_def)
    have "m < next_ptr s' \<and> \<not> stopped mi'" if "Listen m \<in> set (in_loop s')" "mem_m s' m = Some mi'" for m mi'
      using mem(1)[OF that(2)] o that(1) by (auto simp: listen_ok_def f kept_m_def)
    moreover have "m < next_ptr s'" if "Listen m \<in> set (in_loop s')" for m
      using o that by (simp add: listen_ok_def f)
    moreover have "listen_data mi' = m" if "(Listen m, g) \<in> set (closing s')" "mem_m s' m = Some mi'" for m g mi'
      using mem(1)[OF that(2)] o that(1) by (fastforce simp: listen_ok_def f kept_m_def)
    moreover have "m < next_ptr s'" if "(Listen m, g) \<in> set (closing s')" for m g
      using o that by (auto simp: listen_ok_def f)
    ultimately show ?thesis unfolding listen_ok_def by blast
  qed
  ultimately show ?thesis using ok by (simp add: app_ok_def f)
qed

lemma app_ok_upd_m:
  assumes "app_ok s" "upd_m m f s = Some s'" "\<And>mi. mem_m s m = Some mi \<Longrightarrow> kept_m m mi (f mi)"
  shows "app_ok s'"
  by (rule app_ok_same_shape[OF assms(1)]) (use assms(2,3) in \<open>auto simp: same_shape_def upd_m_Some\<close>)

lemma app_ok_upd_c:
  assumes "app_ok s" "upd_c c f s = Some s'" "\<And>ci. mem_c s c = Some ci \<Longrightarrow> kept_c ci (f ci)"
  shows "app_ok s'"
  by (rule app_ok_same_shape[OF assms(1)]) (use assms(2,3) in \<open>auto simp: same_shape_def upd_c_Some\<close>)

lemma app_ok_count_on:
  assumes "app_ok s" "count_on f c s = Some s'"
    and "\<And>ci mi ci' mi'. f (ci, mi) = (ci', mi') \<Longrightarrow> kept_c ci ci' \<and> kept_m (pMapping ci) mi mi'"
  shows "app_ok s'"
proof -
  obtain ci mi where a: "mem_c s c = Some ci" "mem_m s (pMapping ci) = Some mi"
    using assms(2) by (auto simp: count_on_def)
  obtain ci' mi' where b: "f (ci, mi) = (ci', mi')" by (cases "f (ci, mi)")
  have o: "mem_c s c = Some ci" "mem_m s (pMapping ci) = Some mi" "f (ci, mi) = (ci', mi')"
      "s' = s\<lparr>mem_c := (mem_c s)(c \<mapsto> ci'), mem_m := (mem_m s)(pMapping ci \<mapsto> mi')\<rparr>"
    using assms(2) a b by (simp_all add: count_on_def)
  show ?thesis
    by (rule app_ok_same_shape[OF assms(1)]) (use assms(3)[OF o(3)] o in \<open>auto simp: same_shape_def\<close>)
qed

lemma count_keeps:
  assumes "f \<in> {count_client n, count_server_tcp n, count_server_udp n}" "f (ci, mi) = (ci', mi')"
  shows "kept_c ci ci' \<and> kept_m m mi mi'"
  using assms by (auto simp: count_client_def count_server_tcp_def count_server_udp_def kept_c_def
      kept_m_def stopped_def Let_def)

section \<open>Handles, new and deleted objects\<close>

lemma app_okD:
  assumes "app_ok s"
  shows "m_bRemoveAll s" "maps_ok s" "mappings_ok s" "table_ok s" "listen_ok s" "0 < next_ptr s"
  using assms by (simp_all add: app_ok_def)

text \<open>Each part of the invariant depends on a few fields.\<close>

lemma ok_frames [simp]:
  "maps_ok (s\<lparr>closing := cl\<rparr>) = maps_ok s" "mappings_ok (s\<lparr>closing := cl\<rparr>) = mappings_ok s"
  "table_ok (s\<lparr>closing := cl\<rparr>) = table_ok s"
  "maps_ok (s\<lparr>in_loop := il\<rparr>) = maps_ok s" "mappings_ok (s\<lparr>in_loop := il\<rparr>) = mappings_ok s"
  "table_ok (s\<lparr>in_loop := il\<rparr>) = table_ok s"
  "maps_ok (s\<lparr>closed := cd\<rparr>) = maps_ok s" "mappings_ok (s\<lparr>closed := cd\<rparr>) = mappings_ok s"
  "table_ok (s\<lparr>closed := cd\<rparr>) = table_ok s" "listen_ok (s\<lparr>closed := cd\<rparr>) = listen_ok s"
  "maps_ok (s\<lparr>mem_c := mc\<rparr>) = maps_ok s" "mappings_ok (s\<lparr>mem_c := mc\<rparr>) = mappings_ok s"
  "listen_ok (s\<lparr>mem_c := mc\<rparr>) = listen_ok s"
  "mappings_ok (s\<lparr>m_mapConnect := mcn\<rparr>) = mappings_ok s" "listen_ok (s\<lparr>m_mapConnect := mcn\<rparr>) = listen_ok s"
  by (simp_all add: maps_ok_def mappings_ok_def table_ok_def listen_ok_def entry_def)

lemma app_ok_close:
  assumes "app_ok s" "uv_close_h h f s = Some s'"
    and "\<And>m mi. h = Listen m \<Longrightarrow> mem_m s m = Some mi \<Longrightarrow> listen_data mi = m"
  shows "app_ok s'"
proof (cases "s' = s")
  case False
  then have s': "s' = s\<lparr>closing := closing s @ [(h, f)]\<rparr>" "h \<in> set (in_loop s)"
    using assms(2) by (auto simp: uv_close_h_def split: if_splits)
  have "listen_ok s'"
    using app_okD(5)[OF assms(1)] assms(3) s'(2) unfolding listen_ok_def s'(1) by auto
  then show ?thesis using assms(1) by (simp add: app_ok_def s'(1))
qed (use assms(1) in simp)

lemma app_ok_init_if:
  assumes "app_ok s" "\<And>m. h = Listen m \<Longrightarrow> m < next_ptr s \<and> (\<forall>mi. mem_m s m = Some mi \<longrightarrow> \<not> stopped mi)"
  shows "app_ok (init_handle h s)"
proof -
  have "listen_ok (init_handle h s)"
    using app_okD(5)[OF assms(1)] assms(2) unfolding listen_ok_def init_handle_def by auto
  then show ?thesis using assms(1) by (simp add: app_ok_def init_handle_def)
qed

lemma app_ok_init: "app_ok s \<Longrightarrow> (\<And>m. h \<noteq> Listen m) \<Longrightarrow> app_ok (init_handle h s)"
  by (rule app_ok_init_if) auto

lemma app_ok_init_listen:
  assumes "app_ok s" "mem_m s m = Some mi" "\<not> stopped mi"
  shows "app_ok (init_handle (Listen m) s)"
  by (rule app_ok_init_if[OF assms(1)])
    (use app_okD(3)[OF assms(1)] assms(2,3) in \<open>auto simp: mappings_ok_def\<close>)

lemma upd_m_init:
  "upd_m m f (init_handle h s) = map_option (init_handle h) (upd_m m f s)"
  by (cases "mem_m s m") (simp_all add: upd_m_def init_handle_def)

text \<open>The two statements with which a mapping starts: the handle is initialised and the state set to
  one without \<open>MAPPING_STOP\<close>.\<close>

lemma app_ok_start:
  assumes "app_ok s" "upd_m m (\<lambda>x. x\<lparr>nState := v\<rparr>) (init_handle (Listen m) s) = Some s'"
    and "v AND MAPPING_STOP = 0"
  shows "app_ok s'"
proof -
  obtain s1 where s1: "upd_m m (\<lambda>x. x\<lparr>nState := v\<rparr>) s = Some s1" "s' = init_handle (Listen m) s1"
    using assms(2) by (auto simp: upd_m_init)
  have "app_ok s1"
    by (rule app_ok_upd_m[OF assms(1) s1(1)]) (use assms(3) in \<open>simp add: kept_m_def stopped_def\<close>)
  then show ?thesis
    using s1 assms(3) by (auto simp: upd_m_Some stopped_def intro!: app_ok_init_listen)
qed

lemma app_ok_new_c:
  assumes "app_ok s"
  shows "app_ok (snd (new_c s))"
proof -
  let ?s = "snd (new_c s)"
  note d = app_okD[OF assms]
  have e: "entry p k c ?s = entry p k c s" for p k c by (simp add: new_c_def entry_def)
  have lt: "x < next_ptr s \<Longrightarrow> x < Suc (next_ptr s)" for x by simp
  have "table_ok ?s"
    unfolding table_ok_def e
  proof (intro conjI allI impI)
    show "0 < x" "x < next_ptr ?s" if "mem_c ?s x \<noteq> None" for x
      using that d(4,6) by (auto simp: table_ok_def new_c_def less_Suc_eq split: if_splits)
    fix p k c assume "entry p k c s"
    from table_okD[OF d(4) this] obtain ci mi where o: "mem_c s c = Some ci" "client_key (Addr_Client ci) = k"
      "bInMap ci \<noteq> 0" "mem_m s (pMapping ci) = Some mi" "agent_port mi = p" "\<not> stopped mi" by blast
    moreover have "c \<noteq> next_ptr s" using d(4) o(1) by (force simp: table_ok_def)
    ultimately show "\<exists>ci mi. mem_c ?s c = Some ci \<and> client_key (Addr_Client ci) = k \<and> bInMap ci \<noteq> 0 \<and>
        mem_m ?s (pMapping ci) = Some mi \<and> agent_port mi = p \<and> \<not> stopped mi" by (simp add: new_c_def)
  qed
  moreover have "maps_ok ?s" using d(2) by (simp add: maps_ok_def new_c_def)
  moreover have "mappings_ok ?s" using d(3) by (simp add: mappings_ok_def new_c_def less_Suc_eq)
  moreover have "listen_ok ?s" using d(5) by (auto simp: listen_ok_def new_c_def less_Suc_eq)
  ultimately show ?thesis using d(1) by (simp add: app_ok_def new_c_def)
qed

lemma new_c_fresh:
  assumes "app_ok s"
  shows "\<not> entry p k (fst (new_c s)) (snd (new_c s))" "mem_c s (next_ptr s) = None"
proof -
  show n: "mem_c s (next_ptr s) = None"
    using app_okD(4)[OF assms] by (metis less_irrefl table_ok_def)
  show "\<not> entry p k (fst (new_c s)) (snd (new_c s))"
    using table_okD[OF app_okD(4)[OF assms], of p k "next_ptr s"] n
    by (auto simp: new_c_def entry_def)
qed

lemma app_ok_delete_c:
  assumes "app_ok s" "delete_c c s = Some s'" "\<And>p k. \<not> entry p k c s"
  shows "app_ok s'"
proof -
  have s': "s' = s\<lparr>mem_c := (mem_c s)(c := None)\<rparr>" using assms(2) by (auto simp: delete_c_def split: if_splits)
  have "table_ok s'"
    unfolding table_ok_def
  proof (intro conjI allI impI)
    show "0 < x" "x < next_ptr s'" if "mem_c s' x \<noteq> None" for x
      using that app_okD(4)[OF assms(1)] by (auto simp: table_ok_def s' split: if_splits)
    fix p k x assume "entry p k x s'"
    then have e: "entry p k x s" by (simp add: s' entry_def)
    then have "x \<noteq> c" using assms(3) by metis
    then show "\<exists>ci mi. mem_c s' x = Some ci \<and> client_key (Addr_Client ci) = k \<and> bInMap ci \<noteq> 0 \<and>
        mem_m s' (pMapping ci) = Some mi \<and> agent_port mi = p \<and> \<not> stopped mi"
      using table_okD[OF app_okD(4)[OF assms(1)] e] by (simp add: s')
  qed
  then show ?thesis using assms(1) by (simp add: app_ok_def s')
qed

section \<open>The table of connections\<close>

lemma entry_put:
  assumes "maps_ok s"
  shows "entry p' k c (s\<lparr>m_mapConnect := map_put p conns (m_mapConnect s)\<rparr>) \<longleftrightarrow>
    (if p' = p then (k, c) \<in> set conns else entry p' k c s)"
proof -
  have "set (map_put p conns (m_mapConnect s)) = insert (p, conns) {n \<in> set (m_mapConnect s). fst n \<noteq> p}"
    using std_map.nodes_put[of "m_mapConnect s" p conns] assms by (simp add: maps_ok_def)
  then show ?thesis by (auto simp: entry_def)
qed

lemma entry_find:
  assumes "maps_ok s" "map_find p (m_mapConnect s) = Some conns"
  shows "map_ok conns" "entry p k c s \<longleftrightarrow> (k, c) \<in> set conns"
proof -
  have m: "(p, conns) \<in> set (m_mapConnect s)"
    using std_map.find_nodes[of "m_mapConnect s" p conns] assms by (simp add: maps_ok_def)
  then show "map_ok conns" using assms(1) by (fastforce simp: maps_ok_def)
  have "conns' = conns" if "(p, conns') \<in> set (m_mapConnect s)" for conns'
    using m that std_map.values_unique[of "m_mapConnect s" p conns conns'] assms(1) by (simp add: maps_ok_def)
  then show "entry p k c s \<longleftrightarrow> (k, c) \<in> set conns" unfolding entry_def using m by metis
qed

lemma entry_find_None:
  "maps_ok s \<Longrightarrow> map_find p (m_mapConnect s) = None \<Longrightarrow> \<not> entry p k c s"
  using std_map.find_nodes[of "m_mapConnect s" p] by (auto simp: entry_def maps_ok_def)

lemma app_ok_put_conns:
  assumes ok: "app_ok s" and conns: "map_ok conns"
    and new: "\<And>k c. (k, c) \<in> set conns \<Longrightarrow> \<not> entry p k c s \<Longrightarrow>
      \<exists>ci mi. mem_c s c = Some ci \<and> client_key (Addr_Client ci) = k \<and> bInMap ci \<noteq> 0 \<and>
        mem_m s (pMapping ci) = Some mi \<and> agent_port mi = p \<and> \<not> stopped mi"
  shows "app_ok (s\<lparr>m_mapConnect := map_put p conns (m_mapConnect s)\<rparr>)"
proof -
  let ?s = "s\<lparr>m_mapConnect := map_put p conns (m_mapConnect s)\<rparr>"
  note d = app_okD[OF ok]
  have "maps_ok ?s"
    using d(2) conns std_map.put_ok[of "m_mapConnect s" p conns]
      std_map.nodes_put[of "m_mapConnect s" p conns] by (auto simp: maps_ok_def)
  moreover have "table_ok ?s"
    unfolding table_ok_def
  proof (intro conjI allI impI)
    show "0 < x" "x < next_ptr ?s" if "mem_c ?s x \<noteq> None" for x
      using that d(4) by (simp_all add: table_ok_def)
    fix p' k c assume "entry p' k c ?s"
    then have "entry p' k c s \<or> (p' = p \<and> (k, c) \<in> set conns)"
      using entry_put[OF d(2)] by (metis (no_types))
    then show "\<exists>ci mi. mem_c ?s c = Some ci \<and> client_key (Addr_Client ci) = k \<and> bInMap ci \<noteq> 0 \<and>
        mem_m ?s (pMapping ci) = Some mi \<and> agent_port mi = p' \<and> \<not> stopped mi"
      using table_okD[OF d(4)] new by (cases "entry p' k c s") simp_all
  qed
  ultimately show ?thesis using ok by (simp add: app_ok_def mappings_ok_def listen_ok_def)
qed

lemma AddConnect_ok:
  assumes ok: "app_ok s" and ci: "mem_c s c = Some ci" "bInMap ci \<noteq> 0"
    and mi: "mem_m s (pMapping ci) = Some mi" "\<not> stopped mi" and run: "AddConnect c s = Some s'"
  shows "app_ok s'"
proof -
  let ?k = "client_key (Addr_Client ci)" and ?p = "agent_port mi"
  note d = app_okD[OF ok]
  define conns where "conns = (case map_find ?p (m_mapConnect s) of None \<Rightarrow> map_put ?k c []
      | Some conns \<Rightarrow> fst (map_insert ?k c conns))"
  have "map_ok conns \<and> (\<forall>k' c'. (k', c') \<in> set conns \<longrightarrow> entry ?p k' c' s \<or> (k' = ?k \<and> c' = c))"
  proof (cases "map_find ?p (m_mapConnect s)")
    case None
    then show ?thesis by (simp add: conns_def map_ok_def)
  next
    case (Some cs)
    note e = entry_find[OF d(2) Some]
    show ?thesis
      using Some map_insert_ok[OF e(1), of ?k c] std_map.nodes_put[OF e(1), of ?k c]
      by (auto simp: conns_def e(2) map_insert_def split: if_splits)
  qed
  then have "app_ok (s\<lparr>m_mapConnect := map_put ?p conns (m_mapConnect s)\<rparr>)"
    by (intro app_ok_put_conns[OF ok]) (use ci mi in auto)
  moreover have "s' = notify_connect MSG_ADD_CONNECT c (s\<lparr>m_mapConnect := map_put ?p conns (m_mapConnect s)\<rparr>)"
    using run ci mi by (simp add: AddConnect_def port_of_def conns_def agent_port_def Let_def)
  ultimately show ?thesis by simp
qed

end
