(* ===== verification/Pm_Steps.thy ===== *)
theory Pm_Steps
  imports Pm_Invariant
begin

text \<open>
  Every step of the application keeps the invariant of \<open>Pm_Invariant\<close>, operation by operation.
\<close>

unbundle bit_operations_syntax

section \<open>Requests of the user\<close>

lemma htons_htons: "htons (htons p) = p"
  by (simp add: htons_def) (rule bit_word_eqI; auto simp: bit_simps)

lemma mapping_find:
  assumes "app_ok s" "map_find p (m_mapMapping s) = Some m"
  shows "\<exists>mi. mem_m s m = Some mi \<and> agent_port mi = p"
proof -
  have "(p, m) \<in> set (m_mapMapping s)"
    using std_map.find_nodes[of "m_mapMapping s" p m] assms app_okD(2)[OF assms(1)] by (simp add: maps_ok_def)
  then show ?thesis using app_okD(3)[OF assms(1)] by (auto simp: mappings_ok_def)
qed

lemma mapping_at_port:
  assumes "app_ok s" "mem_m s m = Some mi"
  shows "map_find (agent_port mi) (m_mapMapping s) = Some m"
  using std_map.find_nodes[of "m_mapMapping s" "agent_port mi" m] assms
    app_okD(2,3)[OF assms(1)] by (simp add: maps_ok_def mappings_ok_def)

lemma app_ok_next_ptr: "app_ok s \<Longrightarrow> app_ok (s\<lparr>next_ptr := Suc (next_ptr s)\<rparr>)"
proof -
  assume ok: "app_ok s"
  let ?s = "s\<lparr>next_ptr := Suc (next_ptr s)\<rparr>"
  note d = app_okD[OF ok]
  have "maps_ok ?s" using d(2) by (simp add: maps_ok_def)
  moreover have "mappings_ok ?s" using d(3) by (auto simp: mappings_ok_def less_Suc_eq)
  moreover have "table_ok ?s" using d(4) by (auto simp: table_ok_def entry_def less_Suc_eq)
  moreover have "listen_ok ?s" using d(5) by (auto simp: listen_ok_def less_Suc_eq)
  ultimately show "app_ok ?s" using d(1) by (simp add: app_ok_def)
qed

lemma app_ok_new_mapping:
  assumes ok: "app_ok s" and p: "map_find p (m_mapMapping s) = None" and mi: "agent_port mi = p"
  shows "app_ok (s\<lparr>m_mapMapping := map_put p (next_ptr s) (m_mapMapping s), next_ptr := Suc (next_ptr s),
    mem_m := (mem_m s)(next_ptr s \<mapsto> mi)\<rparr>)" (is "app_ok ?s")
proof -
  let ?m = "next_ptr s"
  note d = app_okD[OF app_ok_next_ptr[OF ok]]
  have fresh: "mem_m s ?m = None"
    using app_okD(3)[OF ok] by (metis less_irrefl mappings_ok_def not_Some_eq)
  have M: "map_ok (m_mapMapping s)" using d(2) by (simp add: maps_ok_def)
  have nodes: "set (m_mapMapping ?s) = insert (p, ?m) {n \<in> set (m_mapMapping s). fst n \<noteq> p}"
    using std_map.nodes_put[OF M, of p ?m] by simp
  have np: "(p, x) \<notin> set (m_mapMapping s)" for x
    using std_map.find_nodes[OF M, of p x] p by simp
  have old: "mem_m ?s m = Some x \<longleftrightarrow> (m = ?m \<and> x = mi) \<or> mem_m s m = Some x" for m x
    using fresh by auto
  have "maps_ok ?s" using d(2) std_map.put_ok[OF M, of p ?m] by (simp add: maps_ok_def)
  moreover have "mappings_ok ?s"
    using d(3) mi np fresh unfolding mappings_ok_def old nodes by (auto simp: less_Suc_eq) fastforce+
  moreover have "table_ok ?s"
  proof -
    have e: "entry q k c ?s = entry q k c s" for q k c by (simp add: entry_def)
    have "\<exists>ci mi. mem_c ?s c = Some ci \<and> client_key (Addr_Client ci) = k \<and> bInMap ci \<noteq> 0 \<and>
        mem_m ?s (pMapping ci) = Some mi \<and> agent_port mi = q \<and> \<not> stopped mi" if "entry q k c ?s" for q k c
      using table_okD[OF app_okD(4)[OF ok] that[unfolded e]] unfolding old by auto
    moreover have "0 < c \<and> c < next_ptr ?s" if "mem_c ?s c \<noteq> None" for c
      using that d(4) by (auto simp: table_ok_def)
    ultimately show ?thesis unfolding table_ok_def by blast
  qed
  moreover have "listen_ok ?s"
    using app_okD(5)[OF ok] unfolding listen_ok_def old by (auto simp: less_Suc_eq)
  ultimately show ?thesis using d(1) by (simp add: app_ok_def)
qed

lemma AddMapping_ok:
  assumes "app_ok s" "AddMapping w2a ip p ip' p' tcp s = (r, s')"
  shows "app_ok s'"
proof (cases "map_find (word_of_int (wtoi p)) (m_mapMapping s) = None")
  case False
  then show ?thesis using assms by (simp add: AddMapping_def Let_def)
next
  case True
  let ?p = "word_of_int (wtoi p) :: u16" and ?q = "word_of_int (wtoi p') :: u16"
  define cur where "cur = zero_mapping\<lparr>pLoop := m_pLoop s, bTCP := tcp,
    Addr_agent := snd (uv_ip4_addr (w2a ip) (uint ?p)), Addr_server := snd (uv_ip4_addr (w2a ip') (uint ?q))\<rparr>"
  let ?s1 = "s\<lparr>m_mapMapping := map_put ?p (next_ptr s) (m_mapMapping s), next_ptr := Suc (next_ptr s)\<rparr>"
  have run: "(r, s') = (if S_addr (Addr_agent cur) = S_addr (Addr_server cur) \<and>
        port (Addr_agent cur) = port (Addr_server cur)
      then ((NULL, 2), ?s1\<lparr>m_mapMapping := map_erase ?p (m_mapMapping ?s1)\<rparr>)
      else ((next_ptr s, 0), ?s1\<lparr>mem_m := (mem_m ?s1)(next_ptr s \<mapsto> cur\<lparr>nState := MAPPING_STOP\<rparr>)\<rparr>))"
    using assms(2) True by (simp add: AddMapping_def Let_def cur_def cong: if_cong)
  show ?thesis
  proof (cases "S_addr (Addr_agent cur) = S_addr (Addr_server cur) \<and> port (Addr_agent cur) = port (Addr_server cur)")
    case eq: True
    have M: "map_ok (m_mapMapping s)" using app_okD(2)[OF assms(1)] by (simp add: maps_ok_def)
    have "(?p, x) \<notin> set (m_mapMapping s)" for x
      using std_map.find_nodes[OF M, of ?p x] True by simp
    then have "set (map_erase ?p (map_put ?p (next_ptr s) (m_mapMapping s))) = set (m_mapMapping s)"
      using std_map.nodes_erase[OF std_map.put_ok[OF M], of ?p ?p "next_ptr s"]
        std_map.nodes_put[OF M, of ?p "next_ptr s"] by auto
    moreover have "map_ok (map_erase ?p (map_put ?p (next_ptr s) (m_mapMapping s)))"
      by (intro map_erase_ok map_put_ok M)
    ultimately have "app_ok (s\<lparr>next_ptr := Suc (next_ptr s),
        m_mapMapping := map_erase ?p (map_put ?p (next_ptr s) (m_mapMapping s))\<rparr>)"
      using app_ok_next_ptr[OF assms(1)] by (simp add: app_ok_defs entry_def)
    with run eq show ?thesis by simp
  next
    case ne: False
    have "agent_port (cur\<lparr>nState := MAPPING_STOP\<rparr>) = ?p"
      by (simp add: cur_def agent_port_def uv_ip4_addr_def Let_def htons_htons split: sum.splits)
    from app_ok_new_mapping[OF assms(1) True this] run ne show ?thesis by simp
  qed
qed

lemma have_loop_ok:
  assumes "app_ok s" "have_loop loop ok s = (b, s')"
  shows "app_ok s'"
proof (cases "m_pLoop s \<noteq> NULL \<or> loop = NULL")
  case True
  then show ?thesis using assms by (auto simp: have_loop_def InitLoop_def Let_def split: if_splits)
next
  case False
  let ?s = "ask_io (CheckStart Keeprun) (init_handle Keeprun (s\<lparr>m_pLoop := loop\<rparr>))"
  have s': "s' = ?s\<lparr>mem_m := (\<lambda>m. if m \<in> set (map snd (m_mapMapping ?s))
      then map_option (\<lambda>mi. mi\<lparr>pLoop := loop\<rparr>) (mem_m ?s m) else mem_m ?s m)\<rparr>"
    using assms(2) False by (simp add: have_loop_def InitLoop_def Let_def)
  have "app_ok ?s" using app_ok_init[of "s\<lparr>m_pLoop := loop\<rparr>" Keeprun] assms(1) by simp
  then show ?thesis
    by (rule app_ok_same_shape)
      (simp add: same_shape_def s' kept_m_def stopped_def option.rel_map option.rel_refl)
qed

lemma deleting_keeps: "kept_m m mi (mi\<lparr>nState := nState mi OR MAPPING_DELETING\<rparr>)"
  by (simp add: kept_m_def stopped_def word_ao_dist mapping_state_defs)

lemma have_loopE:
  assumes "app_ok s"
  obtains b s1 where "have_loop loop ok s = (b, s1)" "app_ok s1"
  using have_loop_ok[OF assms] by (cases "have_loop loop ok s") blast

lemma StartMapping_ok:
  assumes "app_ok s" "StartMapping loop ok m s = Some (b, s')"
  shows "app_ok s'"
  by (rule have_loopE[OF assms(1), of loop ok])
    (use assms(2) in \<open>auto simp: StartMapping_def split: if_splits\<close>)

lemma StopMapping_ok:
  assumes "app_ok s" "StopMapping loop ok m s = Some (b, s')"
  shows "app_ok s'"
  by (rule have_loopE[OF assms(1), of loop ok])
    (use assms(2) in \<open>auto simp: StopMapping_def split: if_splits\<close>)

lemma GetAllConnect_ok:
  assumes "app_ok s" "GetAllConnect loop ok m s = Some (b, s')"
  shows "app_ok s'"
  by (rule have_loopE[OF assms(1), of loop ok])
    (use assms(2) in \<open>auto simp: GetAllConnect_def split: if_splits\<close>)

lemma RemoveMapping_ok:
  assumes "app_ok s" "RemoveMapping loop ok m s = Some (b, s')"
  shows "app_ok s'"
proof (rule have_loopE[OF assms(1), of loop ok])
  fix ok' s1 assume s1: "have_loop loop ok s = (ok', s1)" "app_ok s1"
  show ?thesis
    using assms(2) s1 app_ok_upd_m[OF s1(2), of m "\<lambda>x. x\<lparr>nState := nState x OR MAPPING_DELETING\<rparr>"]
      deleting_keeps by (auto simp: RemoveMapping_def split: if_splits)
qed

lemma RemoveConnect_async_ok:
  assumes "app_ok s" "RemoveConnect_async loop ok c s = Some (b, s')"
  shows "app_ok s'"
proof (rule have_loopE[OF assms(1), of loop ok])
  fix ok' s1 assume s1: "have_loop loop ok s = (ok', s1)" "app_ok s1"
  show ?thesis
    using assms s1 app_ok_upd_c[OF s1(2), of c "\<lambda>x. x\<lparr>bDeleting := True\<rparr>"]
    by (auto simp: RemoveConnect_async_def kept_c_def split: if_splits)
qed

section \<open>Mappings that end\<close>

text \<open>A mapping without connections may go.\<close>

lemma do_RemoveMapping_ok:
  assumes ok: "app_ok s" and mi: "mem_m s m = Some mi" and none: "\<And>k c. \<not> entry (agent_port mi) k c s"
    and run: "do_RemoveMapping m s = Some s'"
  shows "app_ok s'"
proof -
  let ?p = "agent_port mi"
  let ?s = "s\<lparr>m_mapMapping := map_erase ?p (m_mapMapping s), mem_m := (mem_m s)(m := None)\<rparr>"
  note d = app_okD[OF ok]
  have M: "map_ok (m_mapMapping s)" using d(2) by (simp add: maps_ok_def)
  have nodes: "set (m_mapMapping ?s) = {n \<in> set (m_mapMapping s). fst n \<noteq> ?p}"
    using std_map.nodes_erase[OF M, of ?p] by simp
  have s': "s' = notify_mapping MSG_REMOVE_MAPPING m s\<lparr>m_mapMapping := map_erase ?p (m_mapMapping s),
      mem_m := (mem_m s)(m := None)\<rparr>"
    using run mi mapping_at_port[OF ok mi] by (simp add: do_RemoveMapping_def port_of_def agent_port_def)
  have "maps_ok ?s" using d(2) map_erase_ok[OF M] by (simp add: maps_ok_def)
  moreover have "mappings_ok ?s"
  proof -
    have "x < next_ptr ?s \<and> (agent_port xi, x) \<in> set (m_mapMapping ?s)" if "mem_m ?s x = Some xi" for x xi
    proof -
      have x: "mem_m s x = Some xi" "x \<noteq> m" using that by (auto split: if_splits)
      moreover have "agent_port xi \<noteq> ?p"
        using mapping_at_port[OF ok mi] mapping_at_port[OF ok x(1)] x(2) by force
      ultimately show ?thesis using d(3) nodes by (auto simp: mappings_ok_def)
    qed
    moreover have "\<exists>xi. mem_m ?s x = Some xi \<and> agent_port xi = q" if q: "(q, x) \<in> set (m_mapMapping ?s)" for q x
      using q nodes d(3) mi by (fastforce simp: mappings_ok_def)
    ultimately show ?thesis by (fastforce simp: mappings_ok_def)
  qed
  moreover have "table_ok ?s"
  proof -
    have e: "entry q k c ?s = entry q k c s" for q k c by (simp add: entry_def)
    have "\<exists>ci mi. mem_c ?s c = Some ci \<and> client_key (Addr_Client ci) = k \<and> bInMap ci \<noteq> 0 \<and>
        mem_m ?s (pMapping ci) = Some mi \<and> agent_port mi = q \<and> \<not> stopped mi" if ent: "entry q k c s" for q k c
    proof -
      obtain ci xi where o: "mem_c s c = Some ci" "client_key (Addr_Client ci) = k" "bInMap ci \<noteq> 0"
          "mem_m s (pMapping ci) = Some xi" "agent_port xi = q" "\<not> stopped xi"
        using table_okD[OF d(4) ent] by blast
      moreover have "pMapping ci \<noteq> m" using o(4,5) mi none ent by auto
      ultimately show ?thesis by simp
    qed
    then show ?thesis using d(4) unfolding table_ok_def e by (simp add: table_ok_def)
  qed
  moreover have "listen_ok ?s"
    using d(5) by (auto simp: listen_ok_def)
  ultimately have "app_ok ?s" using d(1,6) by (simp add: app_ok_def)
  moreover have "s' = notify_mapping MSG_REMOVE_MAPPING m ?s"
    using s' by (cases s) (simp add: notify_mapping_def)
  ultimately show ?thesis by simp
qed

lemma stopped_no_entry:
  assumes "app_ok s" "mem_m s m = Some mi" "stopped mi"
  shows "\<not> entry (agent_port mi) k c s"
proof
  assume "entry (agent_port mi) k c s"
  from table_okD[OF app_okD(4)[OF assms(1)] this] obtain ci :: ConnectInfo and xi where
    o: "mem_m s (pMapping ci) = Some xi" "agent_port xi = agent_port mi" "\<not> stopped xi" by auto
  with mapping_at_port[OF assms(1,2)] mapping_at_port[OF assms(1) o(1)] assms(2,3) show False by simp
qed

text \<open>The connections of a port are closed after, in effect, they have left the table: nothing in
  the two loops looks at the table.\<close>

lemma set_conns_commute:
  "upd_c c f (s\<lparr>m_mapConnect := t\<rparr>) = map_option (\<lambda>s. s\<lparr>m_mapConnect := t\<rparr>) (upd_c c f s)"
  "uv_close_h h g (s\<lparr>m_mapConnect := t\<rparr>) = map_option (\<lambda>s. s\<lparr>m_mapConnect := t\<rparr>) (uv_close_h h g s)"
  "ask_io i (s\<lparr>m_mapConnect := t\<rparr>) = (ask_io i s)\<lparr>m_mapConnect := t\<rparr>"
  by (cases "mem_c s c"; simp add: upd_c_def uv_close_h_def ask_io_def)+

lemma close_connects_commute:
  "close_tcp_connects cs (s\<lparr>m_mapConnect := t\<rparr>) =
     map_option (\<lambda>s. s\<lparr>m_mapConnect := t\<rparr>) (close_tcp_connects cs s)"
  "close_udp_connects cs (s\<lparr>m_mapConnect := t\<rparr>) =
     map_option (\<lambda>s. s\<lparr>m_mapConnect := t\<rparr>) (close_udp_connects cs s)"
proof (induction cs arbitrary: s)
  case (Cons c cs)
  { case 1 show ?case
      by (simp add: set_conns_commute map_option_bind bind_map_option comp_def Cons(1)) }
  { case 2 show ?case
      by (simp add: set_conns_commute map_option_bind bind_map_option comp_def Cons(2)) }
qed simp_all

lemma app_ok_upd_c_free:
  assumes "app_ok s" "upd_c c f s = Some s'" "\<And>p k. \<not> entry p k c s"
  shows "app_ok s'" "entry p k x s' = entry p k x s"
proof -
  obtain ci where s': "mem_c s c = Some ci" "s' = s\<lparr>mem_c := (mem_c s)(c \<mapsto> f ci)\<rparr>"
    using assms(2) by (auto simp: upd_c_Some)
  show e: "entry p k x s' = entry p k x s" for p k x by (simp add: s'(2) entry_def)
  have "\<exists>ci mi. mem_c s' x = Some ci \<and> client_key (Addr_Client ci) = k \<and> bInMap ci \<noteq> 0 \<and>
      mem_m s' (pMapping ci) = Some mi \<and> agent_port mi = p \<and> \<not> stopped mi" if ent: "entry p k x s" for p k x
  proof -
    have "x \<noteq> c" using assms(3) ent by metis
    then show ?thesis using table_okD[OF app_okD(4)[OF assms(1)] ent] by (simp add: s'(2))
  qed
  moreover have "0 < x \<and> x < next_ptr s'" if "mem_c s' x \<noteq> None" for x
    using that app_okD(4)[OF assms(1)] s'(1) by (auto simp: table_ok_def s'(2) split: if_splits)
  ultimately have "table_ok s'" unfolding table_ok_def e by blast
  then show "app_ok s'" using assms(1) by (simp add: app_ok_def s'(2))
qed

lemma entry_close: "uv_close_h h f s = Some s' \<Longrightarrow> entry p k c s' = entry p k c s"
  by (auto simp: uv_close_h_def entry_def split: if_splits)

lemma entry_ask_io [simp]: "entry p k c (ask_io i s) = entry p k c s"
  by (simp add: entry_def)

lemma close_connects_ok:
  assumes "app_ok s" "\<And>c p k. c \<in> set cs \<Longrightarrow> \<not> entry p k c s"
  shows "close_tcp_connects cs s = Some s' \<Longrightarrow> app_ok s' \<and> (\<forall>p k c. entry p k c s' = entry p k c s)"
    and "close_udp_connects cs s = Some s' \<Longrightarrow> app_ok s' \<and> (\<forall>p k c. entry p k c s' = entry p k c s)"
  using assms
proof (induction cs arbitrary: s)
  case (Cons c cs)
  { case 1
    then obtain s1 s2 s3 s4 where r: "upd_c c (\<lambda>x. x\<lparr>client_data := c, bInMap := NOT_IN_MAP\<rparr>) s = Some s1"
        "uv_close_h (ClientTcp c) tcp_connect_close_cb s1 = Some s2"
        "upd_c c (\<lambda>x. x\<lparr>server_data := c\<rparr>) s2 = Some s3"
        "uv_close_h (ServerTcp c) tcp_connect_close_cb s3 = Some s4" "close_tcp_connects cs s4 = Some s'"
      by auto
    have free: "\<not> entry p k c s" for p k using 1(3) by simp
    note a1 = app_ok_upd_c_free[OF 1(2) r(1) free]
    have a2: "app_ok s2" "entry p k x s2 = entry p k x s" for p k x
      using app_ok_close[OF a1(1) r(2)] entry_close[OF r(2)] a1(2) by simp_all
    have a3: "app_ok s3" "entry p k x s3 = entry p k x s" for p k x
      using app_ok_upd_c_free[OF a2(1) r(3)] a2(2) free by simp_all
    have a4: "app_ok s4" "entry p k x s4 = entry p k x s" for p k x
      using app_ok_close[OF a3(1) r(4)] entry_close[OF r(4)] a3(2) by simp_all
    show ?case using Cons.IH(1)[OF r(5) a4(1)] 1(3) a4(2) by simp
  }
  { case 2
    then obtain s1 s2 where r: "upd_c c (\<lambda>x. x\<lparr>client_data := c, bInMap := NOT_IN_MAP\<rparr>) s = Some s1"
        "uv_close_h (ServerUdp c) udp_connect_close_cb (ask_io (RecvStop (ServerUdp c)) s1) = Some s2"
        "close_udp_connects cs s2 = Some s'"
      by auto
    have free: "\<not> entry p k c s" for p k using 2(3) by simp
    note a1 = app_ok_upd_c_free[OF 2(2) r(1) free]
    have a2: "app_ok s2" "entry p k x s2 = entry p k x s" for p k x
      using app_ok_close[OF _ r(2)] entry_close[OF r(2)] a1 by simp_all
    show ?case using Cons.IH(2)[OF r(3) a2(1)] 2(3) a2(2) by simp
  }
qed simp_all

text \<open>What closing connections leaves alone.\<close>

definition same_mappings :: "adapter \<Rightarrow> adapter \<Rightarrow> bool" where
  "same_mappings s s' \<longleftrightarrow> mem_m s' = mem_m s \<and> m_mapConnect s' = m_mapConnect s \<and>
     m_mapMapping s' = m_mapMapping s \<and> in_loop s' = in_loop s \<and>
     (\<forall>m f. (Listen m, f) \<in> set (closing s') \<longleftrightarrow> (Listen m, f) \<in> set (closing s))"

lemma upd_c_same: "upd_c c f s = Some s' \<Longrightarrow> same_mappings s s'"
  by (auto simp: upd_c_Some same_mappings_def)

lemma close_same: "uv_close_h h f s = Some s' \<Longrightarrow> \<forall>m. h \<noteq> Listen m \<Longrightarrow> same_mappings s s'"
  by (auto simp: uv_close_h_def same_mappings_def split: if_splits)

lemma close_connects_same:
  "close_tcp_connects cs s = Some s' \<Longrightarrow> same_mappings s s'"
  "close_udp_connects cs s = Some s' \<Longrightarrow> same_mappings s s'"
proof (induction cs arbitrary: s)
  case (Cons c cs)
  { case 1
    then show ?case by (auto dest!: upd_c_same close_same Cons.IH(1)) (simp add: same_mappings_def) }
  { case 2
    then obtain s1 s2 where "same_mappings s s1" "same_mappings (ask_io (RecvStop (ServerUdp c)) s1) s2"
        "same_mappings s2 s'"
      by (auto dest!: upd_c_same close_same Cons.IH(2))
    then show ?case by (simp add: same_mappings_def ask_io_def) }
qed (auto simp: same_mappings_def)

lemma RemoveAllConnect_ok:
  assumes ok: "app_ok s" and mi: "mem_m s m = Some mi" and run: "RemoveAllConnect m s = Some s'"
  shows "app_ok s'" "\<not> entry (agent_port mi) k c s'"
    "\<exists>mi'. mem_m s' m = Some mi' \<and> kept_m m mi mi' \<and> nState mi' = nState mi"
    "in_loop s' = in_loop s" "(Listen m, f) \<in> set (closing s') \<longleftrightarrow> (Listen m, f) \<in> set (closing s)"
proof -
  let ?p = "agent_port mi" and ?s1 = "notify_mapping MSG_LISTEN_FAIL m s"
  note d = app_okD[OF ok]
  have p: "port_of m ?s1 = Some ?p" using mi by (simp add: port_of_def agent_port_def)
  have "app_ok s' \<and> \<not> entry ?p k c s' \<and> (\<exists>mi'. mem_m s' m = Some mi' \<and> kept_m m mi mi' \<and> nState mi' = nState mi) \<and>
    in_loop s' = in_loop s \<and> ((Listen m, f) \<in> set (closing s') \<longleftrightarrow> (Listen m, f) \<in> set (closing s))"
  proof (cases "map_find ?p (m_mapConnect s)")
    case None
    then have "s' = ?s1" using run d(1) p by (simp add: RemoveAllConnect_def Let_def)
    moreover have "\<not> entry ?p k c ?s1" using entry_find_None[OF d(2) None] by (simp add: entry_def)
    ultimately show ?thesis using ok mi by simp
  next
    case (Some conns)
    let ?s = "notify_mapping MSG_CLEAR_CONNECT m ?s1"
    define t where "t = map_put ?p [] (m_mapConnect s)"
    obtain s2 where s2: "(if bTCP mi then close_tcp_connects (map snd conns) ?s
          else close_udp_connects (map snd conns) ?s) = Some s2"
        and s': "upd_m m (\<lambda>x. x\<lparr>nConnect := 0\<rparr>) (s2\<lparr>m_mapConnect := map_put ?p [] (m_mapConnect s2)\<rparr>) = Some s'"
      using run d(1) p Some mi by (auto simp: RemoveAllConnect_def Let_def)
    have same: "same_mappings ?s s2"
      using s2 close_connects_same by (auto split: if_splits)
    then have t: "s2\<lparr>m_mapConnect := map_put ?p [] (m_mapConnect s2)\<rparr> = s2\<lparr>m_mapConnect := t\<rparr>"
      by (simp add: same_mappings_def t_def)
    let ?cleared = "?s\<lparr>m_mapConnect := t\<rparr>"
    have "app_ok ?s" using ok by simp
    from app_ok_put_conns[OF this, of "[]" ?p]
    have "app_ok (?s\<lparr>m_mapConnect := map_put ?p [] (m_mapConnect ?s)\<rparr>)" by (simp add: map_ok_def)
    then have s0: "app_ok ?cleared" by (simp add: t_def)
    have e0: "entry q k c ?cleared \<longleftrightarrow> q \<noteq> ?p \<and> entry q k c s" for q k c
      using entry_put[of ?s q k c ?p "[]"] app_okD(2)[of ?s] ok by (auto simp: t_def entry_def)
    have "\<not> entry q k x ?cleared" if x: "x \<in> set (map snd conns)" for q k x
    proof
      assume "entry q k x ?cleared"
      moreover obtain k' where "entry ?p k' x s" using x entry_find(2)[OF d(2) Some] by auto
      ultimately show False using e0 table_okD[OF d(4)] by (metis option.inject)
    qed
    then have "app_ok (s2\<lparr>m_mapConnect := t\<rparr>) \<and>
        (\<forall>q k c. entry q k c (s2\<lparr>m_mapConnect := t\<rparr>) = entry q k c ?cleared)"
      using close_connects_ok[OF s0, of "map snd conns" "s2\<lparr>m_mapConnect := t\<rparr>"] s2
      by (auto simp: close_connects_commute split: if_splits)
    moreover have "app_ok s'" "\<forall>q k c. entry q k c s' = entry q k c (s2\<lparr>m_mapConnect := t\<rparr>)"
        "\<exists>mi'. mem_m s' m = Some mi' \<and> kept_m m mi mi' \<and> nState mi' = nState mi"
        "in_loop s' = in_loop s2" "closing s' = closing s2" if "app_ok (s2\<lparr>m_mapConnect := t\<rparr>)"
      using app_ok_upd_m[OF that, of m "\<lambda>x. x\<lparr>nConnect := 0\<rparr>" s'] s' same mi unfolding t
      by (auto simp: kept_m_def stopped_def upd_m_Some entry_def same_mappings_def)
    ultimately show ?thesis using e0 same by (simp add: same_mappings_def)
  qed
  then show "app_ok s'" "\<not> entry (agent_port mi) k c s'"
    "\<exists>mi'. mem_m s' m = Some mi' \<and> kept_m m mi mi' \<and> nState mi' = nState mi"
    "in_loop s' = in_loop s" "(Listen m, f) \<in> set (closing s') \<longleftrightarrow> (Listen m, f) \<in> set (closing s)"
    by simp_all
qed

text \<open>A mapping may be marked as stopped once it has no connections and no handle.\<close>

lemma app_ok_stop:
  assumes ok: "app_ok s" and mi: "mem_m s m = Some mi" and none: "\<And>k c. \<not> entry (agent_port mi) k c s"
    and out: "Listen m \<notin> set (in_loop s)" and run: "upd_m m f s = Some s'"
    and f: "Addr_agent (f mi) = Addr_agent mi" "listen_data (f mi) = listen_data mi"
  shows "app_ok s'"
proof -
  have s': "s' = s\<lparr>mem_m := (mem_m s)(m \<mapsto> f mi)\<rparr>" using run mi by (simp add: upd_m_Some)
  note d = app_okD[OF ok]
  have p: "agent_port (f mi) = agent_port mi" using f by (simp add: agent_port_def)
  have e: "entry q k c s' = entry q k c s" for q k c by (simp add: s' entry_def)
  have "maps_ok s'" using d(2) by (simp add: maps_ok_def s')
  moreover have "mappings_ok s'"
    using d(3) mi p unfolding mappings_ok_def s' by (auto split: if_splits)
  moreover have "table_ok s'"
  proof -
    have "\<exists>ci mi. mem_c s' c = Some ci \<and> client_key (Addr_Client ci) = k \<and> bInMap ci \<noteq> 0 \<and>
        mem_m s' (pMapping ci) = Some mi \<and> agent_port mi = q \<and> \<not> stopped mi" if ent: "entry q k c s" for q k c
    proof -
      obtain ci :: ConnectInfo and xi where o: "mem_c s c = Some ci" "client_key (Addr_Client ci) = k"
          "bInMap ci \<noteq> 0" "mem_m s (pMapping ci) = Some xi" "agent_port xi = q" "\<not> stopped xi"
        using table_okD[OF d(4) ent] by auto
      moreover have "pMapping ci \<noteq> m" using o(4,5) mi none ent by auto
      ultimately show ?thesis by (simp add: s')
    qed
    then show ?thesis using d(4) unfolding table_ok_def e by (simp add: s')
  qed
  moreover have "listen_ok s'"
    using d(5) out mi f(2) unfolding listen_ok_def s' by (auto split: if_splits)
  ultimately show ?thesis using d(1,6) by (simp add: app_ok_def s')
qed

lemma run_AnsycStopMapping_ok:
  assumes ok: "app_ok s" and run: "run_AnsycStopMapping m s = Some s'"
  shows "app_ok s'"
proof (cases "m = NULL")
  case False
  then obtain mi where mi: "mem_m s m = Some mi" using run by (auto simp: run_AnsycStopMapping_def)
  show ?thesis
  proof (cases "stopped mi")
    case True
    then show ?thesis
      using run mi False ok do_RemoveMapping_ok[OF ok mi stopped_no_entry[OF ok mi True]]
      by (auto simp: run_AnsycStopMapping_def stopped_def split: if_splits)
  next
    case act: False
    then obtain s1 where s1: "upd_m m (\<lambda>x. x\<lparr>listen_data := m\<rparr>) s = Some s1"
        "uv_close_h (Listen m) listen_close_cb s1 = Some s'"
      using run mi False by (auto simp: run_AnsycStopMapping_def stopped_def)
    have "app_ok s1" by (rule app_ok_upd_m[OF ok s1(1)]) (simp add: kept_m_def stopped_def)
    then show ?thesis by (rule app_ok_close[OF _ s1(2)]) (use s1(1) in \<open>auto simp: upd_m_Some\<close>)
  qed
qed (use assms in \<open>simp add: run_AnsycStopMapping_def\<close>)

text \<open>The loop closes the listening handle: its mapping goes, or is marked as stopped.\<close>

lemma app_ok_closing:
  assumes "app_ok s"
  shows "app_ok (s\<lparr>closing := remove1 hc (closing s), in_loop := filter (\<lambda>h. h \<noteq> fst hc) (in_loop s),
    closed := fst hc # closed s\<rparr>)"
proof -
  have "set (remove1 hc (closing s)) \<subseteq> set (closing s)" by (rule set_remove1_subset)
  then have "listen_ok (s\<lparr>closing := remove1 hc (closing s), in_loop := filter (\<lambda>h. h \<noteq> fst hc) (in_loop s)\<rparr>)"
    using app_okD(5)[OF assms] unfolding listen_ok_def by fastforce
  then show ?thesis using assms by (simp add: app_ok_def)
qed

lemma run_listen_close_cb_ok:
  assumes ok: "app_ok s" and run: "run_listen_close_cb m s = Some s'"
    and data: "\<And>mi. mem_m s m = Some mi \<Longrightarrow> listen_data mi = m" and out: "Listen m \<notin> set (in_loop s)"
  shows "app_ok s'"
proof -
  obtain mi where mi: "mem_m s m = Some mi" using run by (auto simp: run_listen_close_cb_def)
  obtain s1 where s1: "RemoveAllConnect m s = Some s1"
    using run mi data[OF mi] by (auto simp: run_listen_close_cb_def)
  note r = RemoveAllConnect_ok[OF ok mi s1]
  obtain mi1 where mi1: "mem_m s1 m = Some mi1" "kept_m m mi mi1" using r(3) by blast
  have none: "\<not> entry (agent_port mi1) k c s1" for k c
    using r(2) mi1(2) by (simp add: kept_m_def agent_port_def)
  have out1: "Listen m \<notin> set (in_loop s1)" using out r(4) by simp
  show ?thesis
  proof (cases "nState mi1 AND MAPPING_DELETING \<noteq> 0")
    case True
    then have "do_RemoveMapping m s1 = Some s'"
      using run mi data[OF mi] s1 mi1(1) by (auto simp: run_listen_close_cb_def)
    then show ?thesis using do_RemoveMapping_ok[OF r(1) mi1(1) none] by simp
  next
    case False
    define f where "f = (\<lambda>x :: MappingInfo. x\<lparr>nState := (nState x OR MAPPING_STOP) AND NOT MAPPING_START\<rparr>)"
    obtain s3 where s3: "upd_m m f s1 = Some s3" "s' = notify_mapping MSG_MAPPING_STOP m s3"
      using run mi data[OF mi] s1 mi1(1) False
      by (auto simp: run_listen_close_cb_def upd_m_Some f_def)
    have "app_ok s3"
      by (rule app_ok_stop[OF r(1) mi1(1) none out1 s3(1)]) (simp_all add: f_def)
    with s3(2) show ?thesis by simp
  qed
qed

section \<open>Connections\<close>

lemma entry_calls [simp]:
  "entry p k c (notify_connect t c' s) = entry p k c s" "entry p k c (init_handle h s) = entry p k c s"
  "entry p k c (s\<lparr>connecting := cs\<rparr>) = entry p k c s"
  by (simp_all add: entry_def)

lemma not_in_map_no_entry:
  assumes "app_ok s" "mem_c s c = Some ci" "bInMap ci = 0"
  shows "\<not> entry p k c s"
  using table_okD[OF app_okD(4)[OF assms(1)], of p k c] assms(2,3) by auto

text \<open>A connection that is removed leaves no entry, under whatever key it was.\<close>

lemma RemoveConnect_sync_ok:
  assumes ok: "app_ok s" and ci: "mem_c s c = Some ci" and c: "c \<noteq> NULL"
    and run: "RemoveConnect_sync c s = Some s'"
  shows "app_ok s'" "\<not> entry p k c s'"
proof -
  let ?k = "client_key (Addr_Client ci)"
  note d = app_okD[OF ok]
  obtain mi where mi: "mem_m s (pMapping ci) = Some mi"
    using run ci c by (auto simp: RemoveConnect_sync_def port_of_def)
  let ?p = "agent_port mi"
  have p: "port_of (pMapping ci) s = Some ?p" using mi by (simp add: port_of_def agent_port_def)
  have only: "q = ?p \<and> l = ?k" if "entry q l c s" for q l
    using table_okD[OF d(4) that] ci mi by auto
  have "app_ok s' \<and> \<not> entry p k c s'"
  proof (cases "map_find ?p (m_mapConnect s)")
    case None
    then show ?thesis
      using run ci c p only entry_find_None[OF d(2) None] ok
      by (auto simp: RemoveConnect_sync_def)
  next
    case (Some conns)
    note e = entry_find[OF d(2) Some]
    show ?thesis
    proof (cases "map_find ?k conns")
      case None
      then have "\<not> entry ?p ?k c s" using e std_map.find_nodes[OF e(1), of ?k c] by simp
      then show ?thesis
        using run ci c p Some None only ok by (auto simp: RemoveConnect_sync_def)
    next
      case found: (Some c')
      let ?s = "notify_connect MSG_DELETE_CONNECT c s"
      obtain ci' :: ConnectInfo and s1 where s1: "upd_m (pMapping ci') (\<lambda>x. x\<lparr>nConnect := nConnect x - 1\<rparr>) ?s = Some s1"
          "s' = s1\<lparr>m_mapConnect := map_put ?p (map_erase ?k conns) (m_mapConnect s1)\<rparr>"
        using run ci c p Some found by (auto simp: RemoveConnect_sync_def)
      have s1_ok: "app_ok s1"
        by (rule app_ok_upd_m[OF _ s1(1)]) (use ok in \<open>simp_all add: kept_m_def stopped_def\<close>)
      have e1: "entry q l x s1 = entry q l x s" for q l x using s1(1) by (auto simp: upd_m_Some entry_def)
      have nodes: "set (map_erase ?k conns) = {n \<in> set conns. fst n \<noteq> ?k}"
        using std_map.nodes_erase[OF e(1), of ?k] by simp
      have "app_ok s'"
        unfolding s1(2)
        by (rule app_ok_put_conns[OF s1_ok]) (use map_erase_ok[OF e(1)] nodes e(2) e1 in auto)
      moreover have "\<not> entry p k c s'"
      proof
        assume "entry p k c s'"
        then have put: "if p = ?p then (k, c) \<in> set (map_erase ?k conns) else entry p k c s"
          unfolding s1(2) entry_put[OF app_okD(2)[OF s1_ok]] e1 .
        then have "entry p k c s" unfolding nodes using e(2)[of k c] by (simp split: if_splits)
        from only[OF this] put show False unfolding nodes by simp
      qed
      ultimately show ?thesis by simp
    qed
  qed
  then show "app_ok s'" "\<not> entry p k c s'" by simp_all
qed

lemma close_both_ok:
  assumes ok: "app_ok s" and run: "close_both c s = Some s'"
  shows "app_ok s'"
proof -
  obtain s1 s2 s3 where r: "upd_c c (\<lambda>x. x\<lparr>server_data := c\<rparr>) s = Some s1"
      "uv_close_h (ServerTcp c) tcp_connect_close_cb s1 = Some s2"
      "upd_c c (\<lambda>x. x\<lparr>client_data := c\<rparr>) s2 = Some s3"
      "uv_close_h (ClientTcp c) tcp_connect_close_cb s3 = Some s'"
    using run by (auto simp: close_both_def)
  have "app_ok s1" by (rule app_ok_upd_c[OF ok r(1)]) (simp add: kept_c_def)
  then have "app_ok s2" by (rule app_ok_close[OF _ r(2)]) simp
  then have "app_ok s3" by (rule app_ok_upd_c[OF _ r(3)]) (simp add: kept_c_def)
  then show ?thesis by (rule app_ok_close[OF _ r(4)]) simp
qed

lemma ChangeConnect_ok:
  "app_ok s \<Longrightarrow> ChangeConnect c s = Some s' \<Longrightarrow> app_ok s'"
  by (auto simp: ChangeConnect_def split: if_splits)

lemma tcp_connect_cb_ok:
  assumes ok: "app_ok s" and run: "tcp_connect_cb status c s = Some s'"
  shows "app_ok s'"
proof (cases "c = NULL")
  case False
  obtain s1 s2 s3 s4 s5 and ci :: ConnectInfo where r: "(if status \<noteq> 0 then close_both c s else Some s) = Some s1"
      "upd_c c (\<lambda>x. x\<lparr>bInMap := IN_MAP_SUCC\<rparr>) s1 = Some s2" "ChangeConnect c s2 = Some s3"
      "upd_c c (\<lambda>x. x\<lparr>server_data := c\<rparr>) s3 = Some s4"
      "upd_c c (\<lambda>x. x\<lparr>client_data := c\<rparr>) (ask_io (ReadStart (ServerTcp c)) s4) = Some s5"
      "upd_m (pMapping ci) (\<lambda>x. x\<lparr>nConnect := nConnect x + 1\<rparr>) (ask_io (ReadStart (ClientTcp c)) s5) = Some s'"
    using run False by (auto simp: tcp_connect_cb_def)
  have "app_ok s1" using r(1) ok close_both_ok by (auto split: if_splits)
  then have "app_ok s2"
    by (rule app_ok_upd_c[OF _ r(2)]) (simp add: kept_c_def IN_MAP_SUCC_def)
  then have "app_ok s3" using r(3) ChangeConnect_ok by blast
  then have "app_ok s4" by (rule app_ok_upd_c[OF _ r(4)]) (simp add: kept_c_def)
  then have "app_ok s5" by (intro app_ok_upd_c[OF _ r(5)]) (simp_all add: kept_c_def)
  then show ?thesis by (intro app_ok_upd_m[OF _ r(6)]) (simp_all add: kept_m_def stopped_def)
qed (use assms in \<open>simp add: tcp_connect_cb_def\<close>)

lemma open_not_stopped:
  fixes mi :: MappingInfo
  shows "app_ok s \<Longrightarrow> open_handle (Listen m) s \<Longrightarrow> mem_m s m = Some mi \<Longrightarrow> \<not> stopped mi"
  using app_okD(5)[of s] by (auto simp: listen_ok_def open_handle_def)

lemma fail_close_ok:
  assumes ok: "app_ok s"
    and r: "upd_m m (\<lambda>x. x\<lparr>nState := MAPPING_FAIL OR LISTEN_FAIL, listen_data := m\<rparr>) s = Some s1"
      "uv_close_h (Listen m) listen_close_cb s1 = Some s'"
  shows "app_ok s'"
proof -
  have "app_ok s1"
    by (rule app_ok_upd_m[OF ok r(1)]) (simp add: kept_m_def stopped_def mapping_state_defs)
  then show ?thesis by (rule app_ok_close[OF _ r(2)]) (use r(1) in \<open>auto simp: upd_m_Some\<close>)
qed

lemma tcp_listen_connection_cb_ok:
  assumes ok: "app_ok s" and "open": "open_handle (Listen m) s"
    and run: "tcp_listen_connection_cb status peer pData accept_rc connect_rc m s = Some s'"
  shows "app_ok s'"
proof (cases "status < 0")
  case True
  then show ?thesis using run fail_close_ok[OF ok] by (auto simp: tcp_listen_connection_cb_def)
next
  case False
  let ?c = "next_ptr s" and ?s1 = "snd (new_c s)"
  define a where "a = (if port peer = 0 then address_from_buffer pData peer else peer)"
  obtain s2 where s2: "upd_c ?c (\<lambda>x. x\<lparr>Addr_Client := a, bInMap := NOT_IN_MAP, pMapping := m\<rparr>) ?s1 = Some s2"
    and loop: "this_of m s2 \<noteq> None"
    and rest: "(if accept_rc \<noteq> 0 then delete_c ?c (init_handle (ClientTcp ?c) s2)
        else if connect_rc \<noteq> 0 then delete_c ?c (init_handle (ServerTcp ?c) (init_handle (ClientTcp ?c) s2))
        else do { s5 \<leftarrow> upd_c ?c (\<lambda>x. x\<lparr>bInMap := IN_MAP_WAIT\<rparr>)
               ((init_handle (ServerTcp ?c) (init_handle (ClientTcp ?c) s2))\<lparr>connecting :=
                  connecting (init_handle (ServerTcp ?c) (init_handle (ClientTcp ?c) s2)) @ [?c]\<rparr>);
             AddConnect ?c s5 }) = Some s'"
    using run False by (auto simp: tcp_listen_connection_cb_def new_c_def a_def Let_def cong: if_cong)
  have free1: "\<not> entry p k ?c ?s1" for p k using new_c_fresh(1)[OF ok] by (simp add: new_c_def)
  note u = app_ok_upd_c_free[OF app_ok_new_c[OF ok] s2 free1]
  define s3 where "s3 = init_handle (ClientTcp ?c) s2"
  define s4 where "s4 = init_handle (ServerTcp ?c) s3"
  have ok34: "app_ok s3" "app_ok s4" unfolding s4_def s3_def by (intro app_ok_init u(1); simp)+
  have free34: "\<not> entry p k ?c s3" "\<not> entry p k ?c s4" for p k
    using u(2) free1 by (simp_all add: s3_def s4_def)
  show ?thesis
  proof (cases "accept_rc \<noteq> 0 \<or> connect_rc \<noteq> 0")
    case True
    then show ?thesis
      using rest app_ok_delete_c[OF ok34(1) _ free34(1)] app_ok_delete_c[OF ok34(2) _ free34(2)]
      by (auto simp: s3_def s4_def split: if_splits)
  next
    case both: False
    obtain s5 where s5: "upd_c ?c (\<lambda>x. x\<lparr>bInMap := IN_MAP_WAIT\<rparr>) (s4\<lparr>connecting := connecting s4 @ [?c]\<rparr>) = Some s5"
        "AddConnect ?c s5 = Some s'"
      using rest both by (auto simp: s3_def s4_def)
    have ok5: "app_ok s5" by (rule app_ok_upd_c_free(1)[OF _ s5(1)]) (use ok34(2) free34(2) in simp_all)
    obtain mi where mi: "mem_m s2 m = Some mi" using loop by (auto simp: this_of_def split: option.splits)
    have m: "mem_m s2 = mem_m s" "mem_m s5 = mem_m s2"
      using s2 s5(1) by (auto simp: upd_c_Some new_c_def s3_def s4_def)
    obtain ci where ci: "mem_c s5 ?c = Some ci" "bInMap ci = IN_MAP_WAIT" "pMapping ci = m"
      using s2 s5(1) by (auto simp: upd_c_Some new_c_def s3_def s4_def)
    show ?thesis
      by (rule AddConnect_ok[OF ok5 ci(1) _ _ _ s5(2)])
        (use ci mi m open_not_stopped[OF ok "open"] in \<open>auto simp: IN_MAP_WAIT_def\<close>)
  qed
qed

section \<open>Traffic and UDP\<close>

lemma counting_ok:
  assumes "app_ok s" and n: "f = count_client n \<or> f = count_server_tcp n \<or> f = count_server_udp n"
    and run: "count_on f c s = Some s'"
  shows "app_ok s'"
  by (rule app_ok_count_on[OF assms(1) run]) (use count_keeps[of f n] n in blast)

lemmas client_counted_ok = counting_ok[OF _ disjI1[OF refl]]
lemmas server_counted_ok = counting_ok[OF _ disjI2[OF disjI1[OF refl]]] counting_ok[OF _ disjI2[OF disjI2[OF refl]]]

lemma tcp_read_cb_ok:
  assumes ok: "app_ok s" and run: "tcp_read_cb h c nread data s = Some s'"
  shows "app_ok s'"
proof (cases "nread < 1")
  case True
  then obtain s1 where "uv_close_h (ClientTcp c) tcp_connect_close_cb s = Some s1"
      "uv_close_h (ServerTcp c) tcp_connect_close_cb s1 = Some s'"
    using run by (auto simp: tcp_read_cb_def)
  then show ?thesis using app_ok_close[OF ok] app_ok_close[of s1] by blast
next
  case False
  then show ?thesis
    using run ok client_counted_ok[OF ok] server_counted_ok(1)[OF ok]
    by (auto simp: tcp_read_cb_def split: if_splits)
qed

lemma GetUDPConnect_ok:
  assumes ok: "app_ok s" and "open": "open_handle (Listen m) s" and run: "GetUDPConnect m a s = Some (c, s')"
  shows "app_ok s'"
proof (cases "m = NULL")
  case False
  then obtain mi where mi: "mem_m s m = Some mi"
    using run by (auto simp: GetUDPConnect_def port_of_def)
  let ?p = "agent_port mi" and ?k = "client_key a"
  note d = app_okD[OF ok]
  have p: "port_of m s = Some ?p" using mi by (simp add: port_of_def agent_port_def)
  define conns where "conns = (case map_find ?p (m_mapConnect s) of None \<Rightarrow> [] | Some conns \<Rightarrow> conns)"
  have conns: "map_ok conns" "(l, x) \<in> set conns \<longleftrightarrow> entry ?p l x s" for l x
    using entry_find[OF d(2), of ?p] entry_find_None[OF d(2), of ?p]
    by (cases "map_find ?p (m_mapConnect s)"; simp add: conns_def map_ok_def)+
  show ?thesis
  proof (cases "map_find ?k conns")
    case (Some c')
    then show ?thesis using run False p ok by (auto simp: GetUDPConnect_def conns_def Let_def)
  next
    case None
    let ?c = "next_ptr s" and ?s1 = "snd (new_c s)"
    define f where "f = (\<lambda>x :: ConnectInfo. x\<lparr>pMapping := m, bInMap := IN_MAP_WAIT,
      Addr_Client := zero_sockaddr\<lparr>port := port a, addr := addr a\<rparr>, bDeleting := False\<rparr>)"
    define s2 where "s2 = ?s1\<lparr>mem_c := (mem_c ?s1)(?c \<mapsto> f zero_connect)\<rparr>"
    define s3 where "s3 = ask_io (RecvStart (ServerUdp ?c)) (init_handle (ServerUdp ?c) s2)"
    define s4 where "s4 = s3\<lparr>m_mapConnect := map_put ?p (fst (map_insert ?k ?c conns)) (m_mapConnect s3)\<rparr>"
    have u: "upd_c ?c f ?s1 = Some s2" by (simp add: upd_c_def new_c_def s2_def)
    have s': "s' = notify_connect MSG_ADD_CONNECT ?c s4"
      using run False p None u mi
      by (auto simp: GetUDPConnect_def conns_def[symmetric] new_c_def upd_c_def s2_def s3_def s4_def f_def Let_def)
    have free: "\<not> entry q l ?c ?s1" for q l using new_c_fresh(1)[OF ok] by (simp add: new_c_def)
    note a = app_ok_upd_c_free[OF app_ok_new_c[OF ok] u free]
    have ok3: "app_ok s3" unfolding s3_def using app_ok_init[OF a(1), of "ServerUdp ?c"] by simp
    have e3: "entry q l x s3 = entry q l x s" for q l x
      using a(2) by (simp add: s3_def new_c_def entry_def)
    have m3: "mem_c s3 ?c = Some (f zero_connect)" "mem_m s3 = mem_m s"
      by (simp_all add: s3_def s2_def new_c_def)
    have k: "client_key (Addr_Client (f zero_connect)) = ?k" "pMapping (f zero_connect) = m" "bInMap (f zero_connect) \<noteq> 0"
      by (simp_all add: f_def client_key_def S_addr_def IN_MAP_WAIT_def)
    have ins: "set (fst (map_insert ?k ?c conns)) \<subseteq> insert (?k, ?c) (set conns)"
      using std_map.nodes_put[OF conns(1), of ?k ?c] by (auto simp: map_insert_def)
    have "app_ok s4"
      unfolding s4_def
    proof (rule app_ok_put_conns[OF ok3 map_insert_ok[OF conns(1)]])
      fix l x assume "(l, x) \<in> set (fst (map_insert ?k ?c conns))" "\<not> entry ?p l x s3"
      then have "l = ?k" "x = ?c" using ins conns(2) e3 by auto
      then show "\<exists>ci mi'. mem_c s3 x = Some ci \<and> client_key (Addr_Client ci) = l \<and> bInMap ci \<noteq> 0 \<and>
          mem_m s3 (pMapping ci) = Some mi' \<and> agent_port mi' = ?p \<and> \<not> stopped mi'"
        using m3 k mi open_not_stopped[OF ok "open" mi] by auto
    qed
    then show ?thesis by (simp add: s')
  qed
qed (use assms in \<open>simp add: GetUDPConnect_def\<close>)

lemma udp_listen_recv_cb_ok:
  assumes ok: "app_ok s" and "open": "open_handle (Listen m) s"
    and run: "udp_listen_recv_cb m nread data a s = Some s'"
  shows "app_ok s'"
proof (cases "nread < 0")
  case True
  then show ?thesis using run fail_close_ok[OF ok] by (auto simp: udp_listen_recv_cb_def)
next
  case False
  then obtain a' c s1 where s1: "GetUDPConnect m a' s = Some (c, s1)"
      and rest: "(if c = NULL then Some s1 else do { mi \<leftarrow> mem_m s1 m;
          count_on (count_client (word_of_int nread)) c (udp_send (ServerUdp c) data (Addr_server mi) s1) }) = Some s'"
    using run by (auto simp: udp_listen_recv_cb_def)
  have ok1: "app_ok s1" by (rule GetUDPConnect_ok[OF ok "open" s1])
  show ?thesis
  proof (cases "c = NULL")
    case no: False
    then obtain mi :: MappingInfo where
      "count_on (count_client (word_of_int nread)) c (udp_send (ServerUdp c) data (Addr_server mi) s1) = Some s'"
      using rest by auto
    then show ?thesis by (rule client_counted_ok[rotated]) (use ok1 in simp)
  qed (use rest ok1 in simp)
qed

lemma udp_server_recv_cb_ok:
  assumes ok: "app_ok s" and run: "udp_server_recv_cb c nread data s = Some s'"
  shows "app_ok s'"
proof (cases "nread < 0")
  case True
  then show ?thesis using run app_ok_close[OF ok] by (auto simp: udp_server_recv_cb_def)
next
  case False
  then obtain ci :: ConnectInfo where
    "count_on (count_server_udp (word_of_int nread)) c (udp_send (ServerUdp c) data (Addr_Client ci) s) = Some s'"
    using run by (auto simp: udp_server_recv_cb_def)
  then show ?thesis by (rule server_counted_ok(2)[rotated]) (use ok in simp)
qed

section \<open>Closed connections\<close>

lemma kept_clear_data: "kept_c ci (clear_data h ci)"
  by (cases h) (simp_all add: kept_c_def)

lemma run_tcp_connect_close_cb_ok:
  assumes ok: "app_ok s" and run: "run_tcp_connect_close_cb h c0 s = Some s'"
  shows "app_ok s'"
proof -
  obtain ci0 s1 where ci0: "mem_c s c0 = Some ci0" and s1: "upd_c c0 (clear_data h) s = Some s1"
      and rest: "(if data_of h ci0 = NULL then Some s1 else do {
         ci \<leftarrow> mem_c s1 (data_of h ci0);
         if client_data ci \<noteq> NULL \<or> server_data ci \<noteq> NULL then Some s1
         else do {
           s2 \<leftarrow> (if bInMap ci \<noteq> 0 then do { _ \<leftarrow> this_of (pMapping ci) s1; RemoveConnect_sync (data_of h ci0) s1 }
                  else Some s1);
           delete_c (data_of h ci0) s2
         }
       }) = Some s'"
    using run by (auto simp: run_tcp_connect_close_cb_def Let_def)
  let ?c = "data_of h ci0"
  have ok1: "app_ok s1" by (rule app_ok_upd_c[OF ok s1]) (rule kept_clear_data)
  show ?thesis
  proof (cases "?c = NULL")
    case False
    then obtain ci :: ConnectInfo where ci: "mem_c s1 ?c = Some ci" using rest by auto
    show ?thesis
    proof (cases "client_data ci \<noteq> NULL \<or> server_data ci \<noteq> NULL")
      case both: False
      show ?thesis
      proof (cases "bInMap ci = 0")
        case True
        then show ?thesis
          using rest ci False both app_ok_delete_c[OF ok1 _ not_in_map_no_entry[OF ok1 ci True]] by simp
      next
        case in_map: False
        then obtain s2 where s2: "RemoveConnect_sync ?c s1 = Some s2" "delete_c ?c s2 = Some s'"
          using rest ci False both by auto
        note r = RemoveConnect_sync_ok[OF ok1 ci False s2(1)]
        show ?thesis by (rule app_ok_delete_c[OF r(1) s2(2) r(2)])
      qed
    qed (use rest ci False ok1 in simp)
  qed (use rest ok1 in simp)
qed

lemma run_udp_connect_close_cb_ok:
  assumes ok: "app_ok s" and run: "run_udp_connect_close_cb c s = Some s'" and c: "c \<noteq> NULL"
  shows "app_ok s'"
proof -
  obtain ci :: ConnectInfo where ci: "mem_c s c = Some ci" using run by (auto simp: run_udp_connect_close_cb_def)
  show ?thesis
  proof (cases "bInMap ci = 0")
    case True
    then show ?thesis
      using run ci app_ok_delete_c[OF ok _ not_in_map_no_entry[OF ok ci True]]
      by (simp add: run_udp_connect_close_cb_def)
  next
    case False
    then obtain s1 where s1: "RemoveConnect_sync c s = Some s1" "delete_c c s1 = Some s'"
      using run ci by (auto simp: run_udp_connect_close_cb_def)
    note r = RemoveConnect_sync_ok[OF ok ci c s1(1)]
    show ?thesis by (rule app_ok_delete_c[OF r(1) s1(2) r(2)])
  qed
qed

section \<open>All steps\<close>

lemma set_state_ok:
  assumes "app_ok s" "v AND MAPPING_STOP = 0" "upd_m m (\<lambda>x. x\<lparr>nState := v\<rparr>) s = Some s'"
  shows "app_ok s'"
  by (rule app_ok_upd_m[OF assms(1,3)]) (simp add: kept_m_def stopped_def assms(2))

lemma started_states:
  "(MAPPING_FAIL OR INIT_FAIL) AND MAPPING_STOP = 0" "(MAPPING_FAIL OR BIND_FAIL) AND MAPPING_STOP = 0"
  "(MAPPING_FAIL OR LISTEN_FAIL) AND MAPPING_STOP = 0" "MAPPING_START AND MAPPING_STOP = 0"
  by (simp_all add: mapping_state_defs)

lemma ask_io_init: "upd_m m f (ask_io i s) = map_option (ask_io i) (upd_m m f s)"
  by (cases "mem_m s m") (simp_all add: upd_m_def ask_io_def)

lemma run_work_ok:
  assumes ok: "app_ok s" and run: "run_work a w s = Some s'"
  shows "app_ok s'"
proof -
  obtain f p where w: "w = (f, p)" by (cases w)
  show ?thesis
  proof (cases f)
    case AnsycStartTCPMapping
    then show ?thesis
      using run w ok set_state_ok[OF ok] app_ok_start[OF ok] started_states
      by (auto simp: run_work_def run_AnsycStartTCPMapping_def Let_def split: if_splits)
  next
    case AnsycStartUDPMapping
    then show ?thesis
      using run w ok set_state_ok[OF ok] app_ok_start[OF ok] started_states
      by (auto simp: run_work_def run_AnsycStartUDPMapping_def Let_def ask_io_init split: if_splits)
  next
    case AnsycStopMapping
    then show ?thesis using run w run_AnsycStopMapping_ok[OF ok] by (simp add: run_work_def)
  next
    case AnsycRemoveConnect
    then show ?thesis
      using run w ok close_both_ok[OF ok] app_ok_close[OF ok, of "ServerUdp p" udp_connect_close_cb]
      by (auto simp: run_work_def run_AnsycRemoveConnect_def split: if_splits)
  next
    case AnsycGetAllConnect
    then show ?thesis
      using run w ok
      by (auto simp: run_work_def run_AnsycGetAllConnect_def do_GetAllConnect_def split: if_splits option.splits)
  qed
qed

lemma finish_close_ok:
  assumes ok: "app_ok s" and hc: "hc \<in> set (closing s)" and run: "finish_close hc s = Some s'"
  shows "app_ok s'"
proof -
  let ?s = "s\<lparr>closing := remove1 hc (closing s), in_loop := filter (\<lambda>h. h \<noteq> fst hc) (in_loop s),
    closed := fst hc # closed s\<rparr>"
  have ok': "app_ok ?s" by (rule app_ok_closing[OF ok])
  have run': "run_close hc ?s = Some s'" using run by (simp add: finish_close_def)
  from run' show ?thesis
  proof (cases "(hc, ?s)" rule: run_close.cases)
    case (1 m u)
    have "listen_data mi = m" if "mem_m ?s m = Some mi" for mi
      using app_okD(5)[OF ok] hc that 1 by (auto simp: listen_ok_def)
    then show ?thesis
      using run_listen_close_cb_ok[OF ok', of m s'] run' 1 by simp
  next
    case (4 c u)
    obtain ci where "mem_c ?s c = Some ci" using run' 4 by (auto simp: run_udp_connect_close_cb_def)
    then have "c \<noteq> NULL" using app_okD(4)[OF ok'] by (auto simp: table_ok_def)
    then show ?thesis using run_udp_connect_close_cb_ok[OF ok'] run' 4 by simp
  qed (use run' run_tcp_connect_close_cb_ok[OF ok'] in simp_all)
qed

end
