(* ===== verification/Pm_Props.thy ===== *)
theory Pm_Props
  imports Pm_Steps Uv_Inet_Roundtrip
begin

text \<open>
  What the application promises, and where it does not keep it: the table of connections, the
  results of \<open>AddMapping\<close>, the traffic counters, the closing of TCP connections, UDP replies and
  the order of a start and a removal.
\<close>

unbundle bit_operations_syntax

section \<open>The table of connections\<close>

lemma app_step_ok: "app_step s s' \<Longrightarrow> app_ok s \<Longrightarrow> app_ok s'"
proof (induction rule: app_step.induct)
  case add then show ?case by (blast intro: AddMapping_ok)
next
  case start then show ?case by (blast intro: StartMapping_ok)
next
  case stop then show ?case by (blast intro: StopMapping_ok)
next
  case remove then show ?case by (blast intro: RemoveMapping_ok)
next
  case all then show ?case by (blast intro: GetAllConnect_ok)
next
  case remove_connect then show ?case by (blast intro: RemoveConnect_async_ok)
next
  case (add_notify p s b s')
  then show ?case by (auto simp: AddNotify_def Let_def split: prod.splits if_splits)
next
  case (remove_notify p s b s')
  then show ?case by (auto simp: RemoveNotify_def)
next
  case (work s w ws a s')
  then show ?case using run_work_ok[of "s\<lparr>work_queue := ws\<rparr>" a w s'] by simp
next
  case accept then show ?case by (blast intro: tcp_listen_connection_cb_ok)
next
  case (connect c s status s')
  then show ?case using tcp_connect_cb_ok[of "s\<lparr>connecting := remove1 c (connecting s)\<rparr>"] by simp
next
  case read then show ?case by (blast intro: tcp_read_cb_ok)
next
  case udp_client then show ?case by (blast intro: udp_listen_recv_cb_ok)
next
  case udp_server then show ?case by (blast intro: udp_server_recv_cb_ok)
next
  case close then show ?case by (blast intro: finish_close_ok)
qed

definition new_adapter :: adapter where
  "new_adapter = \<lparr>m_pLoop = NULL, m_bRemoveAll = True, m_setNotify = [], m_mapMapping = [],
     m_mapConnect = [], mem_m = (\<lambda>_. None), mem_c = (\<lambda>_. None), next_ptr = 1, work_queue = [],
     in_loop = [], closing = [], closed = [], notices = [], connecting = [], io = []\<rparr>"

lemma new_adapter_ok: "app_ok new_adapter"
  by (simp add: app_ok_defs entry_def new_adapter_def map_ok_def)

text \<open>A run for the examples: a TCP mapping of port 80 is added, started, and a client connects.\<close>

definition demo_added :: adapter where
  "demo_added = snd (AddMapping (\<lambda>_. ''1'') [] [56, 48] [] [57, 48] True new_adapter)"

definition demo_start :: "adapter option" where
  "demo_start = map_option snd (StartMapping 5 True 1 demo_added)"

definition demo_listening :: "adapter option" where
  "demo_listening = Option.bind demo_start (\<lambda>s.
     run_work \<lparr>init_rc = 0, bind_rc = 0, listen_rc = 0\<rparr> (AnsycStartTCPMapping, 1) (s\<lparr>work_queue := []\<rparr>))"

definition demo_peer :: sockaddr where
  "demo_peer = \<lparr>family = AF_INET, port = 77, addr = [1, 2, 3, 4], scope_id = 0\<rparr>"

definition demo_accepted :: "adapter option" where
  "demo_accepted = Option.bind demo_listening (tcp_listen_connection_cb 0 demo_peer [] 0 0 1)"

lemma demo_run:
  obtains s1 s2 s3 where "demo_start = Some s1" "demo_listening = Some s2" "demo_accepted = Some s3"
    "app_step\<^sup>*\<^sup>* new_adapter s3" "m_mapConnect s3 = [(80, [(Connectkey 67305985 77, 2)])]"
proof -
  have table: "map_option m_mapConnect demo_accepted = Some [(80, [(Connectkey 67305985 77, 2)])]"
    and wq: "map_option work_queue demo_start = Some [(AnsycStartTCPMapping, 1)]"
    and lst: "map_option in_loop demo_listening = Some [Keeprun, Listen 1]"
      "map_option closing demo_listening = Some []"
    by code_simp+
  have "demo_accepted \<noteq> None" using table by auto
  moreover from this have "demo_listening \<noteq> None" by (auto simp: demo_accepted_def)
  moreover from this have "demo_start \<noteq> None" by (auto simp: demo_listening_def)
  ultimately obtain s1 s2 s3 where s: "demo_start = Some s1" "demo_listening = Some s2" "demo_accepted = Some s3"
    by blast
  obtain r where "AddMapping (\<lambda>_. ''1'') [] [56, 48] [] [57, 48] True new_adapter = (r, demo_added)"
    by (cases "AddMapping (\<lambda>_. ''1'') [] [56, 48] [] [57, 48] True new_adapter") (simp add: demo_added_def)
  then have "app_step new_adapter demo_added" by (rule app_step.add)
  moreover have "app_step demo_added s1"
    using s(1) by (auto simp: demo_start_def intro: app_step.start)
  moreover have "app_step s1 s2"
  proof (rule app_step.work)
    show "work_queue s1 = [(AnsycStartTCPMapping, 1)]" using wq unfolding s(1) by simp
    show "run_work \<lparr>init_rc = 0, bind_rc = 0, listen_rc = 0\<rparr> (AnsycStartTCPMapping, 1) (s1\<lparr>work_queue := []\<rparr>) = Some s2"
      using s(2) unfolding demo_listening_def s(1) by simp
  qed
  moreover have "app_step s2 s3"
    using s(3) lst unfolding demo_accepted_def s(2)
    by (intro app_step.accept[of 1 s2]) (simp_all add: open_handle_def)
  ultimately have "app_step\<^sup>*\<^sup>* new_adapter s3" by (meson r_into_rtranclp rtranclp_trans)
  moreover have "m_mapConnect s3 = [(80, [(Connectkey 67305985 77, 2)])]" using table unfolding s(3) by simp
  ultimately show thesis using that s by blast
qed

text \<open>
  C1: with \<open>m_bRemoveAll\<close> left at its default, whatever the user, the network and the loop do, and
  in whatever order, every entry of the table of connections is a live connection with the
  client address of its key, of a live mapping with the port it is under, that is not stopped.
\<close>

theorem connections_never_dangle:
  assumes "app_step\<^sup>*\<^sup>* s s'" "app_ok s" "entry p k c s'"
  shows "\<exists>ci mi. mem_c s' c = Some ci \<and> client_key (Addr_Client ci) = k \<and>
    mem_m s' (pMapping ci) = Some mi \<and> agent_port mi = p \<and> nState mi AND MAPPING_STOP = 0"
proof -
  have "app_ok s'" using assms(1,2) by (induction rule: rtranclp_induct) (auto intro: app_step_ok)
  then show ?thesis
    using table_okD[OF app_okD(4) assms(3)] by (auto simp: stopped_def)
qed

theorem connections_never_dangle_witness:
  "\<exists>s ci mi. app_step\<^sup>*\<^sup>* new_adapter s \<and> mem_c s 2 = Some ci \<and> client_key (Addr_Client ci) = Connectkey 67305985 77 \<and>
    mem_m s (pMapping ci) = Some mi \<and> agent_port mi = 80"
proof (rule demo_run)
  fix s assume s: "app_step\<^sup>*\<^sup>* new_adapter s" "m_mapConnect s = [(80, [(Connectkey 67305985 77, 2)])]"
  then have "entry 80 (Connectkey 67305985 77) 2 s" by (simp add: entry_def)
  from connections_never_dangle[OF s(1) new_adapter_ok this] s(1) show ?thesis by auto
qed

section \<open>Adding a mapping\<close>



section \<open>Traffic\<close>

datatype traffic = FromClient u32 | FromServer u32

fun count_tcp :: "traffic \<Rightarrow> ConnectInfo \<times> MappingInfo \<Rightarrow> ConnectInfo \<times> MappingInfo" where
  "count_tcp (FromClient n) = count_client n"
| "count_tcp (FromServer n) = count_server_tcp n"

fun client_bytes :: "traffic \<Rightarrow> nat" where
  "client_bytes (FromClient n) = unat n"
| "client_bytes (FromServer n) = 0"

definition client_total :: "ConnectInfo \<Rightarrow> nat" where
  "client_total c = unat (nCurFromClientM c) * 2 ^ 20 + unat (nCurFromClientB c)"

lemma mask_20: "(x :: u32) AND 0xfffff = take_bit 20 x"
  by (simp add: take_bit_eq_mask mask_eq_exp_minus_1)

lemma unat_megabytes:
  fixes b n :: u32
  assumes "unat b < 2 ^ 20" "unat n < 2 ^ 31"
  shows "unat (drop_bit 20 (b + n)) * 2 ^ 20 + unat ((b + n) AND 0xfffff) = unat b + unat n"
    "unat ((b + n) AND 0xfffff) < 2 ^ 20" "unat (drop_bit 20 (b + n)) \<le> unat b + unat n"
proof -
  have s: "unat (b + n) = unat b + unat n"
    using assms by (subst unat_add_lem[THEN iffD1]) simp_all
  have d: "unat (drop_bit 20 (b + n)) = (unat b + unat n) div 2 ^ 20"
    by (simp only: drop_bit_eq_div unat_div s) simp
  have m: "unat ((b + n) AND 0xfffff) = (unat b + unat n) mod 2 ^ 20"
    by (simp only: mask_20 unsigned_take_bit_eq s) (simp only: take_bit_eq_mod)
  show "unat (drop_bit 20 (b + n)) * 2 ^ 20 + unat ((b + n) AND 0xfffff) = unat b + unat n"
    unfolding d m by (rule div_mult_mod_eq)
  show "unat ((b + n) AND 0xfffff) < 2 ^ 20" unfolding m by simp
  show "unat (drop_bit 20 (b + n)) \<le> unat b + unat n" unfolding d by (rule div_le_dividend)
qed

lemma count_client_step:
  assumes "unat (nCurFromClientB c) < 2 ^ 20" "unat n < 2 ^ 31" "client_total c + unat n < 2 ^ 52"
    and run: "count_client n (c, m) = (c', m')"
  shows "client_total c' = client_total c + unat n \<and> unat (nCurFromClientB c') < 2 ^ 20 \<and>
    nCurFromServerM c' = nCurFromServerM c \<and> nTotalFromServerM m' = nTotalFromServerM m"
proof -
  let ?b = "nCurFromClientB c" and ?M = "nCurFromClientM c"
  note mb = unat_megabytes[OF assms(1,2)]
  have c': "nCurFromClientB c' = (?b + n) AND 0xfffff" "nCurFromClientM c' = ?M + drop_bit 20 (?b + n)"
      "nCurFromServerM c' = nCurFromServerM c" "nTotalFromServerM m' = nTotalFromServerM m"
    using run by (auto simp: count_client_def Let_def)
  have "(unat ?M + unat (drop_bit 20 (?b + n))) * 2 ^ 20 + unat ((?b + n) AND 0xfffff) = client_total c + unat n"
    using mb(1) by (simp add: client_total_def algebra_simps)
  then have "unat ?M + unat (drop_bit 20 (?b + n)) < 2 ^ 32" using assms(3) by simp
  then have "unat (?M + drop_bit 20 (?b + n)) = unat ?M + unat (drop_bit 20 (?b + n))"
    by (subst unat_add_lem[THEN iffD1]) simp_all
  then show ?thesis using c' mb(1,2) by (simp add: client_total_def algebra_simps)
qed

lemma count_server_step:
  assumes "unat (nCurFromClientB c) < 2 ^ 20" and run: "count_server_tcp n (c, m) = (c', m')"
  shows "client_total c' = client_total c \<and> unat (nCurFromClientB c') < 2 ^ 20 \<and>
    nCurFromServerM c' = nCurFromServerM c \<and> nTotalFromServerM m' = nTotalFromServerM m"
proof -
  have "drop_bit 20 (nCurFromClientB c) = 0"
    using assms(1) by (simp add: drop_bit_eq_div word_unat_eq_iff unat_div)
  then show ?thesis using run assms(1) by (auto simp: count_server_tcp_def client_total_def Let_def)
qed

text \<open>
  C25: whatever comes from the two sides of a TCP connection, and in whatever order, the client's
  counters of the connection give the number of bytes that came from the client, as megabytes
  and less than a megabyte of bytes; the megabytes of the server are never counted, however much it
  sends, neither for the connection nor for its mapping: the callback adds the carry of the
  client's counter.
\<close>

theorem tcp_traffic_counters:
  assumes "\<forall>t \<in> set ts. client_bytes t < 2 ^ 31" "unat (nCurFromClientB c) < 2 ^ 20"
    and "client_total c + sum_list (map client_bytes ts) < 2 ^ 52"
    and "fold count_tcp ts (c, m) = (c', m')"
  shows "client_total c' = client_total c + sum_list (map client_bytes ts) \<and>
    unat (nCurFromClientB c') < 2 ^ 20 \<and>
    nCurFromServerM c' = nCurFromServerM c \<and> nTotalFromServerM m' = nTotalFromServerM m"
  using assms
proof (induction ts arbitrary: c m)
  case (Cons t ts)
  obtain c1 m1 where s: "count_tcp t (c, m) = (c1, m1)" by (cases "count_tcp t (c, m)")
  have step: "client_total c1 = client_total c + client_bytes t \<and> unat (nCurFromClientB c1) < 2 ^ 20 \<and>
      nCurFromServerM c1 = nCurFromServerM c \<and> nTotalFromServerM m1 = nTotalFromServerM m"
    using s Cons.prems(1-3) count_client_step[of c _ m c1 m1] count_server_step[of c _ m c1 m1]
    by (cases t) auto
  then show ?case using Cons.IH[of c1 m1] Cons.prems s by (auto simp: ac_simps)
qed simp

theorem tcp_traffic_counters_witness:
  "\<exists>c m. fold count_tcp [FromClient 0x180000, FromServer 0x500000] (zero_connect, zero_mapping) = (c, m) \<and>
    client_total c = 0x180000 \<and> nCurFromServerM c = 0"
proof -
  obtain c m where r: "fold count_tcp [FromClient 0x180000, FromServer 0x500000] (zero_connect, zero_mapping) = (c, m)"
    by (cases "fold count_tcp [FromClient 0x180000, FromServer 0x500000] (zero_connect, zero_mapping)")
  from tcp_traffic_counters[OF _ _ _ r] r show ?thesis
    by (auto simp: zero_connect_def client_total_def)
qed

section \<open>The end of a TCP connection\<close>

definition conn_open :: "ptr \<Rightarrow> adapter \<Rightarrow> bool" where
  "conn_open c s \<longleftrightarrow> app_ok s \<and> (\<exists>ci mi. mem_c s c = Some ci \<and> client_data ci = c \<and> server_data ci = c \<and>
     mem_m s (pMapping ci) = Some mi \<and> pLoop mi \<noteq> NULL \<and> bInMap ci \<noteq> 0 \<and>
     entry (agent_port mi) (client_key (Addr_Client ci)) c s)"

lemma RemoveConnect_sync_entry:
  assumes ok: "app_ok s" and ci: "mem_c s c = Some ci" "c \<noteq> NULL" and mi: "mem_m s (pMapping ci) = Some mi"
    and e: "entry (agent_port mi) (client_key (Addr_Client ci)) c s"
  shows "\<exists>s'. RemoveConnect_sync c s = Some s' \<and> mem_c s' c = Some ci \<and>
    mem_m s' = (mem_m s)(pMapping ci \<mapsto> mi\<lparr>nConnect := nConnect mi - 1\<rparr>)"
proof -
  note d = app_okD(2)[OF ok]
  obtain conns where f: "map_find (agent_port mi) (m_mapConnect s) = Some conns"
    using entry_find_None[OF d, of "agent_port mi"] e by (cases "map_find (agent_port mi) (m_mapConnect s)") auto
  note en = entry_find[OF d f]
  have "map_find (client_key (Addr_Client ci)) conns = Some c"
    using std_map.find_nodes[OF en(1), of "client_key (Addr_Client ci)" c] e en(2) by simp
  then show ?thesis
    using ci mi f by (simp add: RemoveConnect_sync_def port_of_def agent_port_def upd_m_def)
qed

text \<open>
  C26: the two handles of a connection are closed in either order: the first close callback
  keeps the connection and its entry, the second removes the entry, counts the connection off
  its mapping and deletes it. A removal the user asked for before that is a use of the deleted
  connection when its turn comes.
\<close>

theorem tcp_close_deletes_once:
  assumes "conn_open c s" "(h1, h2) \<in> {(ClientTcp c, ServerTcp c), (ServerTcp c, ClientTcp c)}"
  shows "\<exists>s1 s2 ci mi. mem_c s c = Some ci \<and> mem_m s (pMapping ci) = Some mi \<and>
    run_tcp_connect_close_cb h1 c s = Some s1 \<and> mem_c s1 c \<noteq> None \<and>
    (\<forall>p k x. entry p k x s1 = entry p k x s) \<and>
    run_tcp_connect_close_cb h2 c s1 = Some s2 \<and> mem_c s2 c = None \<and> (\<forall>p k. \<not> entry p k c s2) \<and>
    map_option nConnect (mem_m s2 (pMapping ci)) = Some (nConnect mi - 1) \<and>
    run_AnsycRemoveConnect c s2 = None"
proof -
  obtain ci mi where ok: "app_ok s" and ci: "mem_c s c = Some ci" "client_data ci = c" "server_data ci = c"
      "bInMap ci \<noteq> 0" and mi: "mem_m s (pMapping ci) = Some mi" "pLoop mi \<noteq> NULL"
      and e: "entry (agent_port mi) (client_key (Addr_Client ci)) c s"
    using assms(1) by (auto simp: conn_open_def)
  have c: "c \<noteq> NULL" using app_okD(4)[OF ok] ci(1) by (auto simp: table_ok_def)
  define s1 where "s1 = s\<lparr>mem_c := (mem_c s)(c \<mapsto> clear_data h1 ci)\<rparr>"
  define ci2 where "ci2 = clear_data h2 (clear_data h1 ci)"
  define s2 where "s2 = s1\<lparr>mem_c := (mem_c s1)(c \<mapsto> ci2)\<rparr>"
  have u: "upd_c c (clear_data h1) s = Some s1" "upd_c c (clear_data h2) s1 = Some s2"
    using ci by (simp_all add: upd_c_def s1_def s2_def ci2_def)
  have ok1: "app_ok s1" "app_ok s2"
    using app_ok_upd_c[OF ok u(1)] app_ok_upd_c[OF _ u(2)] kept_clear_data by blast+
  have r1: "run_tcp_connect_close_cb h1 c s = Some s1"
    using assms(2) ci c u(1) by (auto simp: run_tcp_connect_close_cb_def s1_def)
  have f: "client_data ci2 = NULL" "server_data ci2 = NULL" "bInMap ci2 = bInMap ci" "pMapping ci2 = pMapping ci"
      "Addr_Client ci2 = Addr_Client ci"
    using assms(2) by (auto simp: ci2_def)
  have e2: "entry p k x s2 = entry p k x s" "entry p k x s1 = entry p k x s" for p k x
    by (simp_all add: s1_def s2_def entry_def)
  have m2: "mem_c s2 c = Some ci2" "mem_m s2 (pMapping ci2) = Some mi"
    using mi f by (simp_all add: s2_def s1_def)
  obtain s3 where s3: "RemoveConnect_sync c s2 = Some s3" "mem_c s3 c = Some ci2"
      "mem_m s3 = (mem_m s2)(pMapping ci2 \<mapsto> mi\<lparr>nConnect := nConnect mi - 1\<rparr>)"
    using RemoveConnect_sync_entry[OF ok1(2) m2(1) c m2(2)] e f e2(1) by auto
  let ?s4 = "s3\<lparr>mem_c := (mem_c s3)(c := None)\<rparr>"
  have d1: "data_of h2 (clear_data h1 ci) = c" using assms(2) ci by auto
  have r2: "run_tcp_connect_close_cb h2 c s1 = Some ?s4"
    using c u(2) m2 f ci(4) mi(2) s3(1,2) d1
    by (simp add: run_tcp_connect_close_cb_def s1_def this_of_def delete_c_def)
  have "\<not> entry p k c ?s4" for p k
    using RemoveConnect_sync_ok(2)[OF ok1(2) m2(1) c s3(1)] by (simp add: entry_def)
  with r1 r2 ci mi s3(3) f e2 c show ?thesis
    by (intro exI[of _ s1] exI[of _ ?s4] exI[of _ ci] exI[of _ mi])
      (simp add: s1_def run_AnsycRemoveConnect_def)
qed

definition demo_connected :: "adapter option" where
  "demo_connected = Option.bind demo_accepted (tcp_connect_cb 0 2)"

lemma demo_connected_open:
  obtains s where "demo_connected = Some s" "conn_open 2 s"
proof (rule demo_run)
  fix s3 assume s3: "demo_accepted = Some s3" "app_step\<^sup>*\<^sup>* new_adapter s3"
  have v: "map_option (\<lambda>s. map_option (\<lambda>ci. (client_data ci, server_data ci, bInMap ci, client_key (Addr_Client ci),
      map_option (\<lambda>mi. (pLoop mi, agent_port mi)) (mem_m s (pMapping ci)))) (mem_c s 2)) demo_connected =
      Some (Some (2, 2, 2, Connectkey 67305985 77, Some (5, 80)))"
    and t: "map_option m_mapConnect demo_connected = Some [(80, [(Connectkey 67305985 77, 2)])]"
    by code_simp+
  obtain s where s: "demo_connected = Some s" using v by (cases demo_connected) auto
  have "app_ok s3"
    using s3(2) new_adapter_ok by (induction rule: rtranclp_induct) (auto intro: app_step_ok)
  moreover have "tcp_connect_cb 0 2 s3 = Some s"
    using s unfolding demo_connected_def s3(1) by simp
  ultimately have ok: "app_ok s" using tcp_connect_cb_ok by blast
  have e: "entry 80 (Connectkey 67305985 77) 2 s"
    using t unfolding s by (simp add: entry_def)
  have "conn_open 2 s"
    using v ok e unfolding conn_open_def s by auto
  with s show thesis by (rule that)
qed

theorem tcp_close_deletes_once_witness:
  "\<exists>s s1 s2. demo_connected = Some s \<and> run_tcp_connect_close_cb (ClientTcp 2) 2 s = Some s1 \<and>
    run_tcp_connect_close_cb (ServerTcp 2) 2 s1 = Some s2 \<and> mem_c s2 2 = None"
proof (rule demo_connected_open)
  fix s assume s: "demo_connected = Some s" "conn_open 2 s"
  have "(ClientTcp 2, ServerTcp 2) \<in> {(ClientTcp 2, ServerTcp 2), (ServerTcp 2, ClientTcp 2)}" by simp
  from tcp_close_deletes_once[OF s(2) this] s(1) show ?thesis by auto
qed

section \<open>UDP\<close>

text \<open>
  Datagrams of one client use one connection: the first makes it, and as long as nothing
  else happens the next one from the same address finds it, without change.
\<close>

theorem same_client_same_connection:
  assumes ok: "app_ok s" and "open": "open_handle (Listen m) s"
    and run: "GetUDPConnect m a s = Some (c, s')" and b: "client_key b = client_key a"
  shows "GetUDPConnect m b s' = Some (c, s')"
proof (cases "m = NULL")
  case False
  then obtain mi where mi: "mem_m s m = Some mi" using run by (auto simp: GetUDPConnect_def port_of_def)
  let ?p = "agent_port mi" and ?k = "client_key a"
  have p: "port_of m s = Some ?p" using mi by (simp add: port_of_def agent_port_def)
  define conns where "conns = (case map_find ?p (m_mapConnect s) of None \<Rightarrow> [] | Some conns \<Rightarrow> conns)"
  have conns: "map_ok conns"
    using entry_find[OF app_okD(2)[OF ok], of ?p]
    by (cases "map_find ?p (m_mapConnect s)") (simp_all add: conns_def map_ok_def)
  have M: "map_ok (m_mapConnect s)" using app_okD(2)[OF ok] by (simp add: maps_ok_def)
  show ?thesis
  proof (cases "map_find ?k conns")
    case (Some c')
    then show ?thesis using run False p b by (auto simp: GetUDPConnect_def conns_def Let_def)
  next
    case None
    let ?c = "next_ptr s"
    have table: "m_mapConnect s' = map_put ?p (fst (map_insert ?k ?c conns)) (m_mapConnect s)"
        "c = ?c" "port_of m s' = Some ?p"
      using run False p None mi
      by (auto simp: GetUDPConnect_def conns_def[symmetric] new_c_def upd_c_def port_of_def Let_def)
    then show ?thesis
      using False b None std_map.find_put[OF M, of ?p ?p] std_map.find_put[OF conns, of ?k ?k ?c]
      by (simp add: GetUDPConnect_def map_insert_def)
  qed
qed (use assms in \<open>simp add: GetUDPConnect_def\<close>)

definition demo_udp :: "adapter option" where
  "demo_udp = Option.bind (map_option snd (StartMapping 5 True 1
       (snd (AddMapping (\<lambda>_. ''1'') [] [56, 48] [] [57, 48] False new_adapter))))
     (run_work \<lparr>init_rc = 0, bind_rc = 0, listen_rc = 0\<rparr> (AnsycStartUDPMapping, 1))"

lemma demo_udp_listening:
  obtains s where "demo_udp = Some s" "app_ok s" "open_handle (Listen 1) s"
proof -
  have v: "map_option (\<lambda>s. (in_loop s, closing s)) demo_udp = Some ([Keeprun, Listen 1], [])" by code_simp
  then obtain s where s: "demo_udp = Some s" by (cases demo_udp) auto
  let ?a = "AddMapping (\<lambda>_. ''1'') [] [56, 48] [] [57, 48] False new_adapter"
  have a: "app_ok (snd ?a)" by (rule AddMapping_ok[OF new_adapter_ok]) (rule surjective_pairing)
  obtain b s1 where s1: "StartMapping 5 True 1 (snd ?a) = Some (b, s1)"
      "run_work \<lparr>init_rc = 0, bind_rc = 0, listen_rc = 0\<rparr> (AnsycStartUDPMapping, 1) s1 = Some s"
    using s by (auto simp: demo_udp_def)
  have "app_ok s" by (rule run_work_ok[OF StartMapping_ok[OF a s1(1)] s1(2)])
  moreover have "open_handle (Listen 1) s" using v unfolding s by (simp add: open_handle_def)
  ultimately show thesis using that s by blast
qed

theorem same_client_same_connection_witness:
  "\<exists>s c s'. demo_udp = Some s \<and> GetUDPConnect 1 demo_peer s = Some (c, s') \<and>
    GetUDPConnect 1 demo_peer s' = Some (c, s')"
proof (rule demo_udp_listening)
  fix s assume s: "demo_udp = Some s" "app_ok s" "open_handle (Listen 1) s"
  have "map_option fst (Option.bind demo_udp (GetUDPConnect 1 demo_peer)) = Some 2" by code_simp
  then obtain c s' where g: "GetUDPConnect 1 demo_peer s = Some (c, s')" unfolding s(1) by auto
  from same_client_same_connection[OF s(2,3) g refl] g s(1) show ?thesis by blast
qed





section \<open>Orders of events that go wrong\<close>

definition start_then_remove :: "adapter option" where
  "start_then_remove = do {
     (ok1, s1) \<leftarrow> StartMapping 5 True 1 demo_added;
     (ok2, s2) \<leftarrow> RemoveMapping 5 True 1 s1;
     if ok1 \<and> ok2 \<and> work_queue s2 = [(AnsycStartTCPMapping, 1), (AnsycStopMapping, 1)] then do {
       s3 \<leftarrow> run_work \<lparr>init_rc = 0, bind_rc = 0, listen_rc = 0\<rparr> (AnsycStartTCPMapping, 1)
               (s2\<lparr>work_queue := [(AnsycStopMapping, 1)]\<rparr>);
       s4 \<leftarrow> run_work \<lparr>init_rc = 0, bind_rc = 0, listen_rc = 0\<rparr> (AnsycStopMapping, 1) (s3\<lparr>work_queue := []\<rparr>);
       finish_close (Listen 1, listen_close_cb) s4
     } else None
   }"

text \<open>
  A removal that is requested before a start has been carried out is lost, although
  \<open>RemoveMapping\<close> says it succeeded: the start overwrites the state and with it the mark
  \<open>MAPPING_DELETING\<close>. After all queued work and the close callback the mapping is still there,
  stopped.
\<close>

theorem removal_after_start_is_lost:
  "map_option (\<lambda>s. (m_mapMapping s, map_option nState (mem_m s 1), work_queue s, closing s)) start_then_remove =
     Some ([(80, 1)], Some MAPPING_STOP, [], [])"
  by code_simp

definition removed_under_connection :: "adapter option" where
  "removed_under_connection = do {
     s \<leftarrow> demo_connected;
     (ok, s1) \<leftarrow> RemoveMapping 5 True 1 (SetRemoveAllIfFail False s);
     s2 \<leftarrow> run_work \<lparr>init_rc = 0, bind_rc = 0, listen_rc = 0\<rparr> (AnsycStopMapping, 1) (s1\<lparr>work_queue := []\<rparr>);
     finish_close (Listen 1, listen_close_cb) s2
   }"

text \<open>
  With \<open>m_bRemoveAll\<close> off, removing a mapping deletes it under its connections: the mapping of
  the example is removed while its connection stays open and in the table, and the next data
  from the client is counted on the deleted mapping.
\<close>

theorem removal_without_RemoveAll_faults:
  "map_option (\<lambda>s. (m_mapMapping s, Option.is_none (mem_m s 1), open_handle (ClientTcp 2) s,
       map_option pMapping (mem_c s 2), m_mapConnect s,
       Option.is_none (tcp_read_cb (ClientTcp 2) 2 3 [1, 2, 3] s)))
     removed_under_connection =
   Some ([], True, True, Some 1, [(80, [(Connectkey 67305985 77, 2)])], True)"
  by code_simp

end
