(* ===== verification/Dui_Array.thy ===== *)
theory Dui_Array
  imports Uv_Prelude
begin

text \<open>
  \<open>CStdPtrArray\<close> of \<open>DuiLib/Utils/Utils.cpp\<close>, the growing array of pointers in which the window keeps
  its lists and a list item its texts, and the interface the list items rely on.

  \<open>alloc n\<close> is what \<open>malloc\<close> and \<open>realloc\<close> give for \<open>n\<close> cells: \<open>None\<close>, or a block of them with
  arbitrary contents. An access outside of the block, or through \<open>NULL\<close>, is \<open>None\<close>. The overlapping
  copy of \<open>Remove\<close> is taken to move the cells, as \<open>InsertAt\<close> does; lengths are below \<open>2\<^sup>3\<^sup>0\<close>.
\<close>

section \<open>The array\<close>

type_synonym alloc = "nat \<Rightarrow> ptr list option"

record ptr_array =
  m_ppVoid :: "ptr list option"
  m_nCount :: int
  m_nAllocated :: int

definition CStdPtrArray :: "alloc \<Rightarrow> int \<Rightarrow> ptr_array" where
  "CStdPtrArray alloc iPreallocSize =
     \<lparr>m_ppVoid = (if iPreallocSize > 0 then alloc (nat iPreallocSize) else None), m_nCount = 0,
      m_nAllocated = iPreallocSize\<rparr>"

definition array_Empty :: "ptr_array \<Rightarrow> ptr_array" where
  "array_Empty a = a\<lparr>m_ppVoid := None, m_nCount := 0, m_nAllocated := 0\<rparr>"

definition array_Resize :: "alloc \<Rightarrow> int \<Rightarrow> ptr_array \<Rightarrow> ptr_array option" where
  "array_Resize alloc iSize a =
     (let a1 = array_Empty a
      in case alloc (nat iSize) of
           None \<Rightarrow> if iSize = 0 then Some a1 else None
         | Some v \<Rightarrow> Some (a1\<lparr>m_ppVoid := Some (replicate (nat iSize) NULL), m_nAllocated := iSize, m_nCount := iSize\<rparr>))"

definition array_IsEmpty :: "ptr_array \<Rightarrow> bool" where
  "array_IsEmpty a \<longleftrightarrow> m_nCount a = 0"

text \<open>\<open>realloc\<close> keeps the cells there were.\<close>

definition realloc :: "alloc \<Rightarrow> ptr list option \<Rightarrow> nat \<Rightarrow> ptr list option" where
  "realloc alloc old n =
     (let v = (case old of None \<Rightarrow> [] | Some v \<Rightarrow> v)
      in map_option (\<lambda>b. take n v @ drop (length v) b) (alloc n))"

text \<open>The branch \<open>++m_nCount >= m_nAllocated\<close> of \<open>Add\<close> and \<open>InsertAt\<close>.\<close>

definition make_room :: "alloc \<Rightarrow> ptr_array \<Rightarrow> bool \<times> ptr_array" where
  "make_room alloc a =
     (let a1 = a\<lparr>m_nCount := m_nCount a + 1\<rparr>
      in if m_nCount a1 \<ge> m_nAllocated a1 then
           (let nAllocated = m_nAllocated a1 * 2;
                nAllocated = (if nAllocated = 0 then 11 else nAllocated)
            in case realloc alloc (m_ppVoid a1) (nat nAllocated) of
                 Some v \<Rightarrow> (True, a1\<lparr>m_nAllocated := nAllocated, m_ppVoid := Some v\<rparr>)
               | None \<Rightarrow> (False, a1\<lparr>m_nCount := m_nCount a1 - 1\<rparr>))
         else (True, a1))"

text \<open>\<open>m_ppVoid[i] = p\<close>, and \<open>memmove(&m_ppVoid[dst], &m_ppVoid[src], n * sizeof(LPVOID))\<close>.\<close>

definition store :: "int \<Rightarrow> ptr \<Rightarrow> ptr_array \<Rightarrow> ptr_array option" where
  "store i p a = do {
     v \<leftarrow> m_ppVoid a;
     if 0 \<le> i \<and> nat i < length v then Some (a\<lparr>m_ppVoid := Some (v[nat i := p])\<rparr>) else None
   }"

definition move_cells :: "int \<Rightarrow> int \<Rightarrow> int \<Rightarrow> ptr_array \<Rightarrow> ptr_array option" where
  "move_cells dst src n a = do {
     v \<leftarrow> m_ppVoid a;
     if 0 \<le> dst \<and> 0 \<le> src \<and> 0 \<le> n \<and> nat (dst + n) \<le> length v \<and> nat (src + n) \<le> length v
     then Some (a\<lparr>m_ppVoid := Some (take (nat dst) v @ take (nat n) (drop (nat src) v) @ drop (nat (dst + n)) v)\<rparr>)
     else None
   }"

definition array_Add :: "alloc \<Rightarrow> ptr \<Rightarrow> ptr_array \<Rightarrow> (bool \<times> ptr_array) option" where
  "array_Add alloc pData a =
     (let (ok, a1) = make_room alloc a
      in if \<not> ok then Some (False, a1)
         else do { a2 \<leftarrow> store (m_nCount a1 - 1) pData a1; Some (True, a2) })"

definition array_InsertAt :: "alloc \<Rightarrow> int \<Rightarrow> ptr \<Rightarrow> ptr_array \<Rightarrow> (bool \<times> ptr_array) option" where
  "array_InsertAt alloc iIndex pData a =
     (if iIndex = m_nCount a then array_Add alloc pData a
      else if iIndex < 0 \<or> iIndex > m_nCount a then Some (False, a)
      else
        (let (ok, a1) = make_room alloc a
         in if \<not> ok then Some (False, a1)
            else do {
              a2 \<leftarrow> move_cells (iIndex + 1) iIndex (m_nCount a1 - iIndex - 1) a1;
              a3 \<leftarrow> store iIndex pData a2;
              Some (True, a3)
            }))"

definition array_SetAt :: "int \<Rightarrow> ptr \<Rightarrow> ptr_array \<Rightarrow> (bool \<times> ptr_array) option" where
  "array_SetAt iIndex pData a =
     (if iIndex < 0 \<or> iIndex \<ge> m_nCount a then Some (False, a)
      else do { a1 \<leftarrow> store iIndex pData a; Some (True, a1) })"

definition array_Remove :: "int \<Rightarrow> ptr_array \<Rightarrow> (bool \<times> ptr_array) option" where
  "array_Remove iIndex a =
     (if iIndex < 0 \<or> iIndex \<ge> m_nCount a then Some (False, a)
      else
        (let a1 = a\<lparr>m_nCount := m_nCount a - 1\<rparr>
         in if iIndex < m_nCount a1
            then do { a2 \<leftarrow> move_cells iIndex (iIndex + 1) (m_nCount a1 - iIndex) a1; Some (True, a2) }
            else Some (True, a1)))"

definition array_GetSize :: "ptr_array \<Rightarrow> int" where
  "array_GetSize a = m_nCount a"

definition load :: "int \<Rightarrow> ptr_array \<Rightarrow> ptr option" where
  "load i a = do { v \<leftarrow> m_ppVoid a; if 0 \<le> i \<and> nat i < length v then Some (v ! nat i) else None }"

definition array_GetAt :: "int \<Rightarrow> ptr_array \<Rightarrow> ptr option" where
  "array_GetAt iIndex a = (if iIndex < 0 \<or> iIndex \<ge> m_nCount a then Some NULL else load iIndex a)"

fun find_from :: "nat \<Rightarrow> int \<Rightarrow> ptr \<Rightarrow> ptr_array \<Rightarrow> int option" where
  "find_from 0 i p a = Some (- 1)"
| "find_from (Suc n) i p a = do { q \<leftarrow> load i a; if q = p then Some i else find_from n (i + 1) p a }"

definition array_Find :: "ptr \<Rightarrow> ptr_array \<Rightarrow> int option" where
  "array_Find pData a = find_from (nat (m_nCount a)) 0 pData a"

section \<open>The array as a list\<close>

definition array_ok :: "ptr_array \<Rightarrow> bool" where
  "array_ok a \<longleftrightarrow> 0 \<le> m_nCount a \<and> m_nCount a \<le> m_nAllocated a \<and>
     (case m_ppVoid a of None \<Rightarrow> m_nAllocated a = 0 | Some v \<Rightarrow> int (length v) = m_nAllocated a)"

definition elems :: "ptr_array \<Rightarrow> ptr list" where
  "elems a = take (nat (m_nCount a)) (case m_ppVoid a of None \<Rightarrow> [] | Some v \<Rightarrow> v)"

definition alloc_ok :: "alloc \<Rightarrow> bool" where
  "alloc_ok alloc \<longleftrightarrow> (\<forall>n b. alloc n = Some b \<longrightarrow> length b = n)"

lemma length_elems: "array_ok a \<Longrightarrow> length (elems a) = nat (m_nCount a)"
  by (auto simp: array_ok_def elems_def split: option.splits)

lemma elems_cells:
  assumes "array_ok a"
  shows "m_ppVoid a = None \<and> m_nCount a = 0 \<and> m_nAllocated a = 0 \<and> elems a = [] \<or>
    (\<exists>v n. m_ppVoid a = Some v \<and> m_nCount a = int n \<and> n \<le> length v \<and> elems a = take n v \<and>
      m_nAllocated a = int (length v))"
proof (cases "m_ppVoid a")
  case None
  then show ?thesis using assms by (auto simp: array_ok_def elems_def)
next
  case (Some v)
  then show ?thesis using assms by (intro disjI2 exI[of _ v] exI[of _ "nat (m_nCount a)"])
      (auto simp: array_ok_def elems_def)
qed

text \<open>Making room: it fails only when the memory does, and then changes nothing.\<close>

lemma make_room_ok:
  assumes "alloc_ok alloc" "array_ok a"
  shows "make_room alloc a = (False, a) \<and> (\<exists>n. alloc n = None) \<or>
    (\<exists>a1 v. make_room alloc a = (True, a1) \<and> m_nCount a1 = m_nCount a + 1 \<and> m_ppVoid a1 = Some v \<and>
      m_nAllocated a1 = int (length v) \<and> nat (m_nCount a) < length v \<and> take (nat (m_nCount a)) v = elems a)"
proof (cases "m_nCount a + 1 \<ge> m_nAllocated a")
  case False
  then show ?thesis using elems_cells[OF assms(2)] by (auto simp: make_room_def array_ok_def)
next
  case True
  define k where "k = (if m_nAllocated a * 2 = 0 then 11 else m_nAllocated a * 2)"
  define v where "v = (case m_ppVoid a of None \<Rightarrow> [] | Some v \<Rightarrow> v)"
  have len: "int (length v) = m_nAllocated a" "nat (m_nCount a) \<le> length v" "elems a = take (nat (m_nCount a)) v"
    using assms(2) by (auto simp: array_ok_def v_def elems_def split: option.splits)
  then have lt: "length v < nat k" "0 < k" by (auto simp: k_def)
  show ?thesis
  proof (cases "alloc (nat k)")
    case None
    then have "make_room alloc a = (False, a)"
      using True by (simp add: make_room_def realloc_def Let_def k_def v_def)
    then show ?thesis using None by blast
  next
    case (Some b)
    then have b: "length b = nat k" using assms(1) by (auto simp: alloc_ok_def)
    define w where "w = take (nat k) v @ drop (length v) b"
    have "make_room alloc a = (True, a\<lparr>m_nCount := m_nCount a + 1, m_nAllocated := k, m_ppVoid := Some w\<rparr>)"
      using True Some by (simp add: make_room_def realloc_def Let_def k_def v_def w_def)
    moreover have "length w = nat k" "take (nat (m_nCount a)) w = elems a"
      using lt b len by (auto simp: w_def)
    ultimately show ?thesis using lt len(2) by (intro disjI2) auto
  qed
qed

lemma array_okI:
  assumes "m_ppVoid a = Some v" "m_nAllocated a = int (length v)" "m_nCount a = int n" "n \<le> length v"
  shows "array_ok a" "elems a = take n v"
  using assms by (simp_all add: array_ok_def elems_def)

lemma take_insert:
  assumes "i \<le> n" "n < length v"
  shows "take (Suc n) ((take (i + 1) v @ take (n - i) (drop i v) @ drop (n + 1) v)[i := p]) = take i v @ p # drop i (take n v)"
proof -
  let ?w = "take (n - i) (drop i v) @ drop (n + 1) v"
  have "take (i + 1) v = take i v @ [v ! i]" using assms by (simp add: take_Suc_conv_app_nth)
  then have "(take (i + 1) v @ ?w)[i := p] = take i v @ p # ?w" using assms by (simp add: list_update_append min_def)
  moreover have "Suc n - i = Suc (n - i)" using assms by simp
  ultimately show ?thesis using assms by (simp add: drop_take)
qed

lemma array_Add_ok:
  assumes "alloc_ok alloc" "array_ok a"
  shows "\<exists>r a'. array_Add alloc p a = Some (r, a') \<and> array_ok a' \<and>
    (r \<and> elems a' = elems a @ [p] \<or> \<not> r \<and> elems a' = elems a \<and> (\<exists>n. alloc n = None))"
  using make_room_ok[OF assms]
proof (elim disjE exE conjE)
  fix n assume "make_room alloc a = (False, a)" "alloc n = None"
  then show ?thesis using assms(2) by (auto simp: array_Add_def)
next
  fix a1 v assume h: "make_room alloc a = (True, a1)" "m_nCount a1 = m_nCount a + 1" "m_ppVoid a1 = Some v"
    "m_nAllocated a1 = int (length v)" "nat (m_nCount a) < length v" "take (nat (m_nCount a)) v = elems a"
  have c: "0 \<le> m_nCount a" using assms(2) by (simp add: array_ok_def)
  let ?a = "a1\<lparr>m_ppVoid := Some (v[nat (m_nCount a) := p])\<rparr>"
  have r: "array_Add alloc p a = Some (True, ?a)" using h c by (simp add: array_Add_def store_def)
  have "array_ok ?a" "elems ?a = take (nat (m_nCount a) + 1) (v[nat (m_nCount a) := p])"
    using array_okI[of ?a "v[nat (m_nCount a) := p]" "nat (m_nCount a) + 1"] h c by simp_all
  moreover have "take (nat (m_nCount a) + 1) (v[nat (m_nCount a) := p]) = elems a @ [p]"
    using h(5,6) by (simp add: take_Suc_conv_app_nth)
  ultimately show ?thesis using r by auto
qed

lemma array_InsertAt_ok:
  assumes "alloc_ok alloc" "array_ok a"
  shows "\<exists>r a'. array_InsertAt alloc i p a = Some (r, a') \<and> array_ok a' \<and>
    (r \<and> 0 \<le> i \<and> nat i \<le> length (elems a) \<and> elems a' = take (nat i) (elems a) @ p # drop (nat i) (elems a) \<or>
     \<not> r \<and> elems a' = elems a \<and> (i < 0 \<or> int (length (elems a)) < i \<or> (\<exists>n. alloc n = None)))"
proof -
  note len = length_elems[OF assms(2)]
  have c: "0 \<le> m_nCount a" using assms(2) by (simp add: array_ok_def)
  consider (add) "i = m_nCount a" | (out) "i < 0 \<or> i > m_nCount a" | (ins) "0 \<le> i" "i < m_nCount a" by linarith
  then show ?thesis
  proof cases
    case add
    then show ?thesis using array_Add_ok[OF assms, of p] c len by (auto simp: array_InsertAt_def)
  next
    case out
    then show ?thesis using assms(2) len c by (auto simp: array_InsertAt_def)
  next
    case ins
    show ?thesis using make_room_ok[OF assms]
    proof (elim disjE exE conjE)
      fix n assume "make_room alloc a = (False, a)" "alloc n = None"
      then show ?thesis using assms(2) ins by (auto simp: array_InsertAt_def)
    next
      fix a1 v assume h: "make_room alloc a = (True, a1)" "m_nCount a1 = m_nCount a + 1" "m_ppVoid a1 = Some v"
        "m_nAllocated a1 = int (length v)" "nat (m_nCount a) < length v" "take (nat (m_nCount a)) v = elems a"
      obtain n k where n: "m_nCount a = int n" "i = int k" "k < n" using ins c by (metis nonneg_int_cases of_nat_less_iff)
      let ?v = "take (k + 1) v @ take (n - k) (drop k v) @ drop (n + 1) v"
      let ?a = "a1\<lparr>m_ppVoid := Some (?v[k := p])\<rparr>"
      have nk: "nat (int n - int k) = n - k" "nat (int k + 1) = k + 1" "nat (int n + 1) = n + 1" "nat (1 + int n) = n + 1"
        "nat (1 + int k) = k + 1" using n(3) by linarith+
      have l: "length ?v = length v" using h(5) n by simp
      have "array_InsertAt alloc i p a = Some (True, ?a)"
        using h(1-5) n l by (simp add: array_InsertAt_def move_cells_def store_def nk)
      moreover have "array_ok ?a" "elems ?a = take (Suc n) (?v[k := p])"
        using array_okI[of ?a "?v[k := p]" "Suc n"] h n l by simp_all
      moreover have "take (Suc n) (?v[k := p]) = take k (elems a) @ p # drop k (elems a)"
        using take_insert[of k n v p] h(5,6) n by (simp add: min_def flip: h(6))
      ultimately show ?thesis using n len by (intro exI[of _ True] exI[of _ ?a]) simp
    qed
  qed
qed

lemma array_SetAt_ok:
  assumes "array_ok a"
  shows "\<exists>r a'. array_SetAt i p a = Some (r, a') \<and> array_ok a' \<and>
    (r \<and> 0 \<le> i \<and> nat i < length (elems a) \<and> elems a' = (elems a)[nat i := p] \<or>
     \<not> r \<and> elems a' = elems a \<and> (i < 0 \<or> int (length (elems a)) \<le> i))"
  using elems_cells[OF assms]
proof (elim disjE exE conjE)
  assume "m_ppVoid a = None" "m_nCount a = 0" "m_nAllocated a = 0" "elems a = []"
  then show ?thesis using assms by (auto simp: array_SetAt_def)
next
  fix v n assume h: "m_ppVoid a = Some v" "m_nCount a = int n" "n \<le> length v" "elems a = take n v"
    "m_nAllocated a = int (length v)"
  show ?thesis
  proof (cases "0 \<le> i \<and> i < int n")
    case True
    let ?a = "a\<lparr>m_ppVoid := Some (v[nat i := p])\<rparr>"
    have "array_SetAt i p a = Some (True, ?a)" using True h by (auto simp: array_SetAt_def store_def)
    moreover have "array_ok ?a" "elems ?a = take n (v[nat i := p])"
      using array_okI[of ?a "v[nat i := p]" n] h by simp_all
    ultimately show ?thesis using True h by (auto simp: take_update_swap)
  next
    case False
    then show ?thesis using assms h by (auto simp: array_SetAt_def)
  qed
qed

lemma array_Remove_ok:
  assumes "array_ok a"
  shows "\<exists>r a'. array_Remove i a = Some (r, a') \<and> array_ok a' \<and>
    (r \<and> 0 \<le> i \<and> nat i < length (elems a) \<and> elems a' = take (nat i) (elems a) @ drop (nat i + 1) (elems a) \<or>
     \<not> r \<and> elems a' = elems a \<and> (i < 0 \<or> int (length (elems a)) \<le> i))"
  using elems_cells[OF assms]
proof (elim disjE exE conjE)
  assume "m_ppVoid a = None" "m_nCount a = 0" "m_nAllocated a = 0" "elems a = []"
  then show ?thesis using assms by (auto simp: array_Remove_def)
next
  fix v n assume h: "m_ppVoid a = Some v" "m_nCount a = int n" "n \<le> length v" "elems a = take n v"
    "m_nAllocated a = int (length v)"
  show ?thesis
  proof (cases "0 \<le> i \<and> i < int n")
    case False
    then show ?thesis using assms h by (auto simp: array_Remove_def)
  next
    case True
    then obtain k where k: "i = int k" "k < n" by (metis nonneg_int_cases of_nat_less_iff)
    let ?v = "take k v @ take (n - 1 - k) (drop (k + 1) v) @ drop (n - 1) v"
    let ?a = "a\<lparr>m_nCount := int n - 1, m_ppVoid := Some (if k < n - 1 then ?v else v)\<rparr>"
    have nk: "nat (int n - 1 - int k) = n - Suc k" "nat (int k + 1) = k + 1" "nat (int n - 1) = n - 1"
      "nat (1 + int k) = k + 1" using k by linarith+
    have c: "m_nCount ?a = int (n - 1)" using k by simp
    have r: "array_Remove i a = Some (True, ?a)"
    proof (cases "k < n - 1")
      case True
      then show ?thesis using h(1-3) k nk by (simp add: array_Remove_def move_cells_def Let_def le_diff_conv)
    next
      case False
      have "a\<lparr>m_nCount := int n - 1\<rparr> = ?a" using False h(1) by (cases a) simp
      moreover have "\<not> int k < int n - 1" using False by linarith
      ultimately show ?thesis using False h(2) k by (simp add: array_Remove_def Let_def)
    qed
    have l: "length ?v = length v" using h(3) k by simp
    have "m_nAllocated ?a = int (length (if k < n - 1 then ?v else v))" "n - 1 \<le> length (if k < n - 1 then ?v else v)"
      using h(3,5) l by auto
    note ok = array_okI[OF _ this(1) c this(2)]
    have "array_ok ?a" "elems ?a = take (n - 1) (if k < n - 1 then ?v else v)" by (rule ok; simp)+
    moreover have "take (n - 1) (if k < n - 1 then ?v else v) = take k (elems a) @ drop (k + 1) (elems a)"
    proof (cases "k < n - 1")
      case True
      have "length (take k v @ take (n - 1 - k) (drop (k + 1) v)) = n - 1" using h(3) k by simp
      then have "take (n - 1) ((take k v @ take (n - 1 - k) (drop (k + 1) v)) @ drop (n - 1) v) =
          take k v @ take (n - 1 - k) (drop (k + 1) v)" by (metis append_eq_conv_conj)
      then have "take (n - 1) ?v = take k v @ take (n - 1 - k) (drop (k + 1) v)" by (simp only: append_assoc)
      then show ?thesis using True h(4) k by (simp add: drop_take)
    next
      case False
      then have "k = n - 1" using k(2) by simp
      then show ?thesis using h(3,4) k by simp
    qed
    ultimately show ?thesis using r k h by (intro exI[of _ True] exI[of _ ?a]) simp
  qed
qed

lemma array_GetAt_ok:
  assumes "array_ok a"
  shows "array_GetAt i a = Some (if 0 \<le> i \<and> i < int (length (elems a)) then elems a ! nat i else NULL)"
  using elems_cells[OF assms] by (auto simp: array_GetAt_def load_def)

lemma array_Empty_ok: "array_ok (array_Empty a)" "elems (array_Empty a) = []"
  by (simp_all add: array_Empty_def array_ok_def elems_def)

lemma CStdPtrArray_ok: "array_ok (CStdPtrArray alloc 0)" "elems (CStdPtrArray alloc 0) = []"
  by (simp_all add: CStdPtrArray_def array_ok_def elems_def)

lemma find_from_ok:
  assumes "array_ok a" "i + n = length (elems a)"
  shows "find_from n (int i) p a = Some (if p \<in> set (drop i (elems a))
    then int (i + length (takeWhile (\<lambda>q. q \<noteq> p) (drop i (elems a)))) else - 1)"
  using assms(2)
proof (induction n arbitrary: i)
  case (Suc n)
  have i: "i < length (elems a)" using Suc.prems by simp
  have "load (int i) a = Some (elems a ! i)"
    using elems_cells[OF assms(1)] i by (auto simp: load_def)
  moreover have "drop i (elems a) = elems a ! i # drop (Suc i) (elems a)" using i by (rule Cons_nth_drop_Suc[symmetric])
  moreover have "find_from n (int i + 1) p a = find_from n (int (Suc i)) p a" by (simp add: add.commute)
  ultimately show ?case using Suc.IH[of "Suc i"] Suc.prems by simp
qed simp

section \<open>The interface\<close>

text \<open>What a client of the array may rely on; \<open>get\<close> gives \<open>NULL\<close> outside of the list.\<close>

locale pointer_list =
  fixes content :: "'a \<Rightarrow> ptr list"
    and inv :: "'a \<Rightarrow> bool"
    and add :: "alloc \<Rightarrow> ptr \<Rightarrow> 'a \<Rightarrow> (bool \<times> 'a) option"
    and insert_at :: "alloc \<Rightarrow> int \<Rightarrow> ptr \<Rightarrow> 'a \<Rightarrow> (bool \<times> 'a) option"
    and remove_at :: "int \<Rightarrow> 'a \<Rightarrow> (bool \<times> 'a) option"
    and get :: "int \<Rightarrow> 'a \<Rightarrow> ptr option"
    and clear :: "'a \<Rightarrow> 'a"
  assumes add: "alloc_ok alloc \<Longrightarrow> inv a \<Longrightarrow> \<exists>r a'. add alloc p a = Some (r, a') \<and> inv a' \<and>
      content a' = (if r then content a @ [p] else content a) \<and> (r \<or> (\<exists>n. alloc n = None))"
    and insert_at: "alloc_ok alloc \<Longrightarrow> inv a \<Longrightarrow> \<exists>r a'. insert_at alloc i p a = Some (r, a') \<and> inv a' \<and>
      content a' = (if r then take (nat i) (content a) @ p # drop (nat i) (content a) else content a) \<and>
      (r \<longrightarrow> 0 \<le> i \<and> i \<le> int (length (content a))) \<and>
      (r \<or> i < 0 \<or> int (length (content a)) < i \<or> (\<exists>n. alloc n = None))"
    and remove_at: "inv a \<Longrightarrow> \<exists>r a'. remove_at i a = Some (r, a') \<and> inv a' \<and>
      (r \<longleftrightarrow> 0 \<le> i \<and> i < int (length (content a))) \<and>
      content a' = (if r then take (nat i) (content a) @ drop (nat i + 1) (content a) else content a)"
    and get: "inv a \<Longrightarrow> get i a = Some (if 0 \<le> i \<and> i < int (length (content a)) then content a ! nat i else NULL)"
    and clear: "inv (clear a)" "content (clear a) = []"
begin

lemma get_member: "inv a \<Longrightarrow> get i a = Some p \<Longrightarrow> p \<noteq> NULL \<Longrightarrow> 0 \<le> i \<and> i < int (length (content a)) \<and> p = content a ! nat i"
  using get[of a i] by (auto split: if_splits)

lemma get_NULL: "inv a \<Longrightarrow> NULL \<notin> set (content a) \<Longrightarrow> get i a = Some NULL \<Longrightarrow> \<not> (0 \<le> i \<and> i < int (length (content a)))"
  using get[of a i] by (auto split: if_splits) (metis nat_less_iff nth_mem)

lemma get_Some: "inv a \<Longrightarrow> \<exists>p. get i a = Some p"
  using get by blast

text \<open>Removing an element of an array without duplicates removes it from the set of its elements.\<close>

lemma get_remove:
  assumes "inv a" "distinct (content a)" "get i a = Some p" "p \<noteq> NULL"
  shows "\<exists>a'. remove_at i a = Some (True, a') \<and> inv a' \<and> distinct (content a') \<and> set (content a') = set (content a) - {p} \<and>
    content a' = take (nat i) (content a) @ drop (nat i + 1) (content a)"
proof -
  have i: "0 \<le> i" "i < int (length (content a))" "nat i < length (content a)" "p = content a ! nat i"
    using get_member[OF assms(1,3,4)] by auto
  have c: "content a = take (nat i) (content a) @ p # drop (Suc (nat i)) (content a)"
    using id_take_nth_drop[OF i(3)] i(4) by simp
  have "distinct (take (nat i) (content a) @ p # drop (Suc (nat i)) (content a))" using assms(2) c by simp
  moreover have "set (content a) = set (take (nat i) (content a) @ p # drop (Suc (nat i)) (content a))" using c by simp
  ultimately have "distinct (take (nat i) (content a) @ drop (nat i + 1) (content a))"
      "set (take (nat i) (content a) @ drop (nat i + 1) (content a)) = set (content a) - {p}" by auto
  then show ?thesis using remove_at[OF assms(1), of i] i by auto
qed

lemma insert_set:
  assumes "alloc_ok alloc" "inv a" "p \<notin> set (content a)" "distinct (content a)"
  shows "\<exists>r a'. insert_at alloc i p a = Some (r, a') \<and> inv a' \<and> distinct (content a') \<and>
    set (content a') = (if r then insert p (set (content a)) else set (content a)) \<and>
    content a' = (if r then take (nat i) (content a) @ p # drop (nat i) (content a) else content a) \<and>
    (r \<longrightarrow> 0 \<le> i \<and> i \<le> int (length (content a))) \<and>
    (r \<or> i < 0 \<or> int (length (content a)) < i \<or> (\<exists>n. alloc n = None))"
proof -
  have "set (take (nat i) (content a)) \<union> set (drop (nat i) (content a)) = set (content a)"
    by (metis append_take_drop_id set_append)
  moreover have "set (take (nat i) (content a)) \<inter> set (drop (nat i) (content a)) = {}"
    by (rule set_take_disj_set_drop_if_distinct[OF assms(4)]) simp
  ultimately have "distinct (take (nat i) (content a) @ p # drop (nat i) (content a))"
      "set (take (nat i) (content a) @ p # drop (nat i) (content a)) = insert p (set (content a))"
    using assms(3,4) by auto
  note ins = this
  obtain r a' where r: "insert_at alloc i p a = Some (r, a')" "inv a'"
      "content a' = (if r then take (nat i) (content a) @ p # drop (nat i) (content a) else content a)"
      "r \<longrightarrow> 0 \<le> i \<and> i \<le> int (length (content a))"
      "r \<or> i < 0 \<or> int (length (content a)) < i \<or> (\<exists>n. alloc n = None)"
    using insert_at[OF assms(1,2), of i p] by blast
  have "distinct (content a')" "set (content a') = (if r then insert p (set (content a)) else set (content a))"
    using r(3) ins assms(4) by (cases r; simp)+
  then show ?thesis using r by blast
qed

end

interpretation pa: pointer_list elems array_ok array_Add array_InsertAt array_Remove array_GetAt array_Empty
proof unfold_locales
  fix alloc a p i
  show "\<exists>r a'. array_Add alloc p a = Some (r, a') \<and> array_ok a' \<and>
      elems a' = (if r then elems a @ [p] else elems a) \<and> (r \<or> (\<exists>n. alloc n = None))" if h: "alloc_ok alloc" "array_ok a"
  proof -
    obtain r a' where "array_Add alloc p a = Some (r, a')" "array_ok a'"
      "r \<and> elems a' = elems a @ [p] \<or> \<not> r \<and> elems a' = elems a \<and> (\<exists>n. alloc n = None)"
      using array_Add_ok[OF h, of p] by blast
    then show ?thesis by (intro exI[of _ r] exI[of _ a']) (cases r; simp)
  qed
  have n: "nat i \<le> length (elems a) \<longleftrightarrow> i \<le> int (length (elems a))" by (rule nat_le_iff)
  show "\<exists>r a'. array_InsertAt alloc i p a = Some (r, a') \<and> array_ok a' \<and>
      elems a' = (if r then take (nat i) (elems a) @ p # drop (nat i) (elems a) else elems a) \<and>
      (r \<longrightarrow> 0 \<le> i \<and> i \<le> int (length (elems a))) \<and>
      (r \<or> i < 0 \<or> int (length (elems a)) < i \<or> (\<exists>n. alloc n = None))" if h: "alloc_ok alloc" "array_ok a"
  proof -
    obtain r a' where "array_InsertAt alloc i p a = Some (r, a')" "array_ok a'"
      "r \<and> 0 \<le> i \<and> nat i \<le> length (elems a) \<and> elems a' = take (nat i) (elems a) @ p # drop (nat i) (elems a) \<or>
       \<not> r \<and> elems a' = elems a \<and> (i < 0 \<or> int (length (elems a)) < i \<or> (\<exists>n. alloc n = None))"
      using array_InsertAt_ok[OF h, of i p] by blast
    then show ?thesis unfolding n by (intro exI[of _ r] exI[of _ a']) (cases r; simp)
  qed
  show "array_ok a \<Longrightarrow> \<exists>r a'. array_Remove i a = Some (r, a') \<and> array_ok a' \<and>
      (r \<longleftrightarrow> 0 \<le> i \<and> i < int (length (elems a))) \<and>
      elems a' = (if r then take (nat i) (elems a) @ drop (nat i + 1) (elems a) else elems a)"
    using array_Remove_ok[of a i] by auto
  show "array_ok a \<Longrightarrow> array_GetAt i a = Some (if 0 \<le> i \<and> i < int (length (elems a)) then elems a ! nat i else NULL)"
    by (rule array_GetAt_ok)
qed (simp_all add: array_Empty_ok)

end
