(* ===== verification/Pm_Item.thy ===== *)
theory Pm_Item
  imports Dui_Array Pm_Types
begin

text \<open>
  \<open>PortMapping/MyListItem.cpp\<close>: the lines of the two lists of the window. A \<open>CMyListItem\<close> owns its
  texts: the array holds the addresses of \<open>ListItemText\<close> objects, and a text that can be clicked
  owns a \<open>RECT\<close>. Both live in memories of the item in which a deleted object is gone, so that a leak
  or a second \<open>delete\<close> can be seen. Painting and the events of the mouse are not modelled.
\<close>

unbundle bit_operations_syntax

section \<open>Texts\<close>

type_synonym wide = "u16 list"

definition wide_of :: "string \<Rightarrow> wide" where
  "wide_of s = map of_char s"

text \<open>\<open>%u\<close> and \<open>%d\<close> of a \<open>UINT32\<close>.\<close>

definition fmt_u :: "u32 \<Rightarrow> string" where
  "fmt_u n = show_digits 10 (unat n)"

definition fmt_d :: "u32 \<Rightarrow> string" where
  "fmt_d n = show_int (sint n)"

definition GetFlowString :: "u32 \<Rightarrow> u32 \<Rightarrow> wide" where
  "GetFlowString nM nB =
     (let cur1 = drop_bit 10 nM;
          cur2 = drop_bit 10 nB
      in wide_of
        (if cur1 > 0 then fmt_u cur1 @ ''G,'' @ fmt_u (nM AND 0x3ff) @ ''M,'' @ fmt_u cur2 @ ''KB''
         else if nM > 0 then fmt_u nM @ ''M,'' @ fmt_u cur2 @ ''KB,'' @ fmt_u (nB AND 0x3ff) @ ''B''
         else if cur2 > 0 then fmt_u cur2 @ ''KB,'' @ fmt_u (nB AND 0x3ff) @ ''B''
         else fmt_u nB @ ''B''))"

record ListItemText =
  strData :: wide
  bClick :: bool
  pRc :: ptr

record MyListItem =
  m_text_array :: ptr_array
  text_mem :: "ptr \<Rightarrow> ListItemText option"
  rect_mem :: "ptr \<Rightarrow> bool"
  next_obj :: ptr
  checked :: bool
  m_pInfo :: ptr
  bk_color :: u32

text \<open>\<open>new ListItemText\<close> with its fields set, and \<open>delete\<close> of a text and of its \<open>RECT\<close>.\<close>

definition new_text :: "wide \<Rightarrow> bool \<Rightarrow> MyListItem \<Rightarrow> ptr \<times> MyListItem" where
  "new_text s click it =
     (let p = next_obj it;
          rc = (if click then p + 1 else NULL)
      in (p, it\<lparr>text_mem := (text_mem it)(p \<mapsto> \<lparr>strData = s, bClick = click, pRc = rc\<rparr>),
                rect_mem := (if click then (rect_mem it)(rc := True) else rect_mem it),
                next_obj := p + 2\<rparr>))"

definition delete_rect :: "ptr \<Rightarrow> MyListItem \<Rightarrow> MyListItem option" where
  "delete_rect r it = (if rect_mem it r then Some (it\<lparr>rect_mem := (rect_mem it)(r := False)\<rparr>) else None)"

definition delete_text :: "ptr \<Rightarrow> MyListItem \<Rightarrow> MyListItem option" where
  "delete_text p it = (if text_mem it p = None then None else Some (it\<lparr>text_mem := (text_mem it)(p := None)\<rparr>))"

text \<open>\<open>if (pCur->pRc) delete pCur->pRc; delete pCur;\<close>\<close>

definition discard :: "ptr \<Rightarrow> MyListItem \<Rightarrow> MyListItem option" where
  "discard p it = do {
     t \<leftarrow> text_mem it p;
     it1 \<leftarrow> (if pRc t \<noteq> NULL then delete_rect (pRc t) it else Some it);
     delete_text p it1
   }"

definition AddText :: "alloc \<Rightarrow> wide \<Rightarrow> bool \<Rightarrow> MyListItem \<Rightarrow> (int \<times> MyListItem) option" where
  "AddText alloc s click it =
     (let (p, it1) = new_text s click it
      in do {
        (ok, arr) \<leftarrow> array_Add alloc p (m_text_array it1);
        let it2 = it1\<lparr>m_text_array := arr\<rparr>
        in if ok then Some (array_GetSize arr - 1, it2)
           else do { it3 \<leftarrow> discard p it2; Some (- 1, it3) }
      })"

definition SetText :: "int \<Rightarrow> wide \<Rightarrow> MyListItem \<Rightarrow> (bool \<times> MyListItem) option" where
  "SetText nIndex s it = do {
     p \<leftarrow> array_GetAt nIndex (m_text_array it);
     if p = NULL then Some (False, it)
     else do { t \<leftarrow> text_mem it p; Some (True, it\<lparr>text_mem := (text_mem it)(p \<mapsto> t\<lparr>strData := s\<rparr>)\<rparr>) }
   }"

definition SetClick :: "int \<Rightarrow> bool \<Rightarrow> MyListItem \<Rightarrow> (bool \<times> MyListItem) option" where
  "SetClick nIndex click it = do {
     p \<leftarrow> array_GetAt nIndex (m_text_array it);
     if p = NULL then Some (False, it)
     else do {
       t \<leftarrow> text_mem it p;
       let t1 = t\<lparr>bClick := click\<rparr>;
           it1 = it\<lparr>text_mem := (text_mem it)(p \<mapsto> t1)\<rparr>;
           rc = next_obj it1;
           t2 = (if bClick t1 \<and> pRc t1 = NULL then t1\<lparr>pRc := rc\<rparr> else t1);
           it2 = (if bClick t1 \<and> pRc t1 = NULL
                  then it1\<lparr>text_mem := (text_mem it1)(p \<mapsto> t2), rect_mem := (rect_mem it1)(rc := True), next_obj := rc + 1\<rparr>
                  else it1)
       in if \<not> bClick t2 \<and> pRc t2 \<noteq> NULL
          then do {
            it3 \<leftarrow> delete_rect (pRc t2) it2;
            Some (True, it3\<lparr>text_mem := (text_mem it3)(p \<mapsto> t2\<lparr>pRc := NULL\<rparr>)\<rparr>)
          }
          else Some (True, it2)
     }
   }"

definition DeleteText :: "int \<Rightarrow> MyListItem \<Rightarrow> (bool \<times> MyListItem) option" where
  "DeleteText nIndex it = do {
     p \<leftarrow> array_GetAt nIndex (m_text_array it);
     it1 \<leftarrow> (if p \<noteq> NULL then discard p it else Some it);
     (ok, arr) \<leftarrow> array_Remove nIndex (m_text_array it1);
     Some (ok, it1\<lparr>m_text_array := arr\<rparr>)
   }"

definition InsetText :: "alloc \<Rightarrow> int \<Rightarrow> wide \<Rightarrow> bool \<Rightarrow> MyListItem \<Rightarrow> (bool \<times> MyListItem) option" where
  "InsetText alloc nIndex s click it =
     (let (p, it1) = new_text s click it
      in do {
        (ok, arr) \<leftarrow> array_InsertAt alloc nIndex p (m_text_array it1);
        let it2 = it1\<lparr>m_text_array := arr\<rparr>
        in if ok then Some (True, it2)
           else do { it3 \<leftarrow> discard p it2; Some (False, it3) }
      })"

fun clear_from :: "int \<Rightarrow> nat \<Rightarrow> MyListItem \<Rightarrow> MyListItem option" where
  "clear_from i 0 it = Some it"
| "clear_from i (Suc n) it = do {
     p \<leftarrow> array_GetAt i (m_text_array it);
     it1 \<leftarrow> (if p \<noteq> NULL then do {
               t \<leftarrow> text_mem it p;
               it1 \<leftarrow> (if bClick t \<and> pRc t \<noteq> NULL then delete_rect (pRc t) it else Some it);
               delete_text p it1
             } else Some it);
     clear_from (i + 1) n it1
   }"

definition ClearText :: "MyListItem \<Rightarrow> (int \<times> MyListItem) option" where
  "ClearText it =
     (let nsize = array_GetSize (m_text_array it)
      in do {
        it1 \<leftarrow> clear_from 0 (nat nsize) it;
        Some (nsize, it1\<lparr>m_text_array := array_Empty (m_text_array it1)\<rparr>)
      })"

definition GetCheck :: "MyListItem \<Rightarrow> bool" where
  "GetCheck it = checked it"

definition SetCheck :: "bool \<Rightarrow> MyListItem \<Rightarrow> MyListItem" where
  "SetCheck b it = it\<lparr>checked := b\<rparr>"

section \<open>The two kinds of line\<close>

definition new_item :: "alloc \<Rightarrow> ptr \<Rightarrow> MyListItem" where
  "new_item alloc info =
     \<lparr>m_text_array = CStdPtrArray alloc 0, text_mem = \<lambda>_. None, rect_mem = \<lambda>_. False, next_obj = 1,
      checked = False, m_pInfo = info, bk_color = 0\<rparr>"

text \<open>\<open>AddText\<close> of several texts, of which the second component says whether they can be clicked.\<close>

fun add_texts :: "alloc \<Rightarrow> (wide \<times> bool) list \<Rightarrow> MyListItem \<Rightarrow> MyListItem option" where
  "add_texts alloc [] it = Some it"
| "add_texts alloc ((s, click) # ss) it = do { (_, it1) \<leftarrow> AddText alloc s click it; add_texts alloc ss it1 }"

definition mapping_DoInit :: "alloc \<Rightarrow> MappingInfo \<Rightarrow> MyListItem \<Rightarrow> MyListItem option" where
  "mapping_DoInit alloc mi it =
     (let it1 = it\<lparr>bk_color := 0xffececec\<rparr>
      in if m_pInfo it1 = NULL then Some it1
         else add_texts alloc [(wide_of ''stop'', False), (wide_of ''0'', True),
           (wide_of (if bTCP mi then ''TCP'' else ''UDP''), False), (wide_of ''0B'', False), (wide_of ''0B'', False)] it1)"

definition InitStringList :: "alloc \<Rightarrow> wide \<Rightarrow> wide \<Rightarrow> wide \<Rightarrow> wide \<Rightarrow> MyListItem \<Rightarrow> MyListItem option" where
  "InitStringList alloc strAgentIP strAgentPort strServerIP strServerPort it = do {
     (_, it1) \<leftarrow> ClearText it;
     add_texts alloc [(strAgentIP, False), (strAgentPort, False), (strServerIP, False), (strServerPort, False)] it1
   }"

text \<open>\<open>SetText\<close> of several columns.\<close>

fun set_texts :: "(int \<times> wide) list \<Rightarrow> MyListItem \<Rightarrow> MyListItem option" where
  "set_texts [] it = Some it"
| "set_texts ((i, s) # ss) it = do { (_, it1) \<leftarrow> SetText i s it; set_texts ss it1 }"

definition mapping_Updata :: "bool \<Rightarrow> MappingInfo \<Rightarrow> MyListItem \<Rightarrow> MyListItem option" where
  "mapping_Updata bforce mi it =
     (if m_pInfo it = NULL then Some it
      else if \<not> bforce \<and> nState mi = MAPPING_STOP then Some it
      else do {
        it1 \<leftarrow> (if nState mi = MAPPING_STOP
                then do { it1 \<leftarrow> set_texts [(4, [0x505C, 0x6B62])] it; Some (it1\<lparr>bk_color := 0xffececec\<rparr>) }
                else if nState mi AND MAPPING_START \<noteq> 0
                then do { it1 \<leftarrow> set_texts [(4, [0x5F00, 0x59CB])] it; Some (it1\<lparr>bk_color := 0xff00ff00\<rparr>) }
                else if nState mi AND MAPPING_FAIL \<noteq> 0
                then do { it1 \<leftarrow> set_texts [(4, [0x51FA, 0x9519])] it; Some (it1\<lparr>bk_color := 0xffff0000\<rparr>) }
                else Some it);
        set_texts [(5, wide_of (fmt_d (nConnect mi))),
          (7, GetFlowString (nTotalFromClientM mi) (nTotalFromClientB mi)),
          (8, GetFlowString (nTotalFromServerM mi) (nTotalFromServerB mi))] it1
      })"

text \<open>\<open>uv_ip4_name\<close> into a zeroed buffer of 50 characters, and the port as the code prints it.\<close>

definition ip_text :: "sockaddr \<Rightarrow> string" where
  "ip_text a = (case uv_ip4_name a 50 of Inl _ \<Rightarrow> [] | Inr s \<Rightarrow> s)"

definition port_text :: "sockaddr \<Rightarrow> wide" where
  "port_text a = wide_of (show_int (uint (htons (port a))))"

definition connect_DoInit :: "alloc \<Rightarrow> (string \<Rightarrow> wide) \<Rightarrow> ConnectInfo \<Rightarrow> MappingInfo \<Rightarrow> MyListItem \<Rightarrow> MyListItem option" where
  "connect_DoInit alloc a2w ci mi it =
     (if m_pInfo it = NULL \<or> pMapping ci = NULL then Some it
      else add_texts alloc (map (\<lambda>s. (s, False))
        [a2w (ip_text (Addr_Client ci)), port_text (Addr_Client ci),
         a2w (ip_text (Addr_agent mi)), port_text (Addr_agent mi),
         a2w (ip_text (Addr_server mi)), port_text (Addr_server mi),
         GetFlowString (nCurFromClientM ci) (nCurFromClientB ci),
         GetFlowString (nCurFromServerM ci) (nCurFromServerB ci)]) it)"

definition connect_Updata :: "ConnectInfo \<Rightarrow> MyListItem \<Rightarrow> MyListItem option" where
  "connect_Updata ci it =
     (if m_pInfo it = NULL \<or> pMapping ci = NULL then Some it
      else set_texts [(6, GetFlowString (nCurFromClientM ci) (nCurFromClientB ci)),
        (7, GetFlowString (nCurFromServerM ci) (nCurFromServerB ci))] it)"

section \<open>An item owns its texts\<close>

text \<open>The array holds each living text once, and the living \<open>RECT\<close>s are those of the texts that can
  be clicked, each of one text.\<close>

definition objects_ok :: "MyListItem \<Rightarrow> bool" where
  "objects_ok it \<longleftrightarrow> 0 < next_obj it \<and>
     (\<forall>p t. text_mem it p = Some t \<longrightarrow> p \<noteq> NULL \<and> p < next_obj it \<and> pRc t < next_obj it \<and>
        (bClick t \<longleftrightarrow> pRc t \<noteq> NULL) \<and> (pRc t \<noteq> NULL \<longrightarrow> rect_mem it (pRc t))) \<and>
     (\<forall>p q t u. text_mem it p = Some t \<longrightarrow> text_mem it q = Some u \<longrightarrow> pRc t = pRc u \<longrightarrow> pRc t \<noteq> NULL \<longrightarrow> p = q) \<and>
     (\<forall>r. rect_mem it r \<longrightarrow> r \<noteq> NULL \<and> (\<exists>p t. text_mem it p = Some t \<and> pRc t = r))"

definition item_ok :: "MyListItem \<Rightarrow> bool" where
  "item_ok it \<longleftrightarrow> objects_ok it \<and> array_ok (m_text_array it) \<and> distinct (elems (m_text_array it)) \<and>
     set (elems (m_text_array it)) = dom (text_mem it)"

text \<open>What the columns show.\<close>

definition text_at :: "MyListItem \<Rightarrow> ptr \<Rightarrow> wide \<times> bool" where
  "text_at it p = (case text_mem it p of Some t \<Rightarrow> (strData t, bClick t) | None \<Rightarrow> ([], False))"

definition shown :: "MyListItem \<Rightarrow> (wide \<times> bool) list" where
  "shown it = map (text_at it) (elems (m_text_array it))"

lemma objects_okD:
  assumes "objects_ok it" "text_mem it p = Some t"
  shows "p \<noteq> NULL" "p < next_obj it" "pRc t < next_obj it" "bClick t \<longleftrightarrow> pRc t \<noteq> NULL" "pRc t \<noteq> NULL \<Longrightarrow> rect_mem it (pRc t)"
  using assms unfolding objects_ok_def by blast+

lemma objects_okI:
  assumes "0 < next_obj it"
    and "\<And>p t. text_mem it p = Some t \<Longrightarrow> p \<noteq> NULL \<and> p < next_obj it \<and> pRc t < next_obj it \<and>
        (bClick t \<longleftrightarrow> pRc t \<noteq> NULL) \<and> (pRc t \<noteq> NULL \<longrightarrow> rect_mem it (pRc t))"
    and "\<And>p q t u. text_mem it p = Some t \<Longrightarrow> text_mem it q = Some u \<Longrightarrow> pRc t = pRc u \<Longrightarrow> pRc t \<noteq> NULL \<Longrightarrow> p = q"
    and "\<And>r. rect_mem it r \<Longrightarrow> r \<noteq> NULL \<and> (\<exists>p t. text_mem it p = Some t \<and> pRc t = r)"
  shows "objects_ok it"
  using assms unfolding objects_ok_def by blast

lemma objects_okE:
  assumes "objects_ok it"
  shows "text_mem it p = Some t \<Longrightarrow> text_mem it q = Some u \<Longrightarrow> pRc t = pRc u \<Longrightarrow> pRc t \<noteq> NULL \<Longrightarrow> p = q"
    "rect_mem it r \<Longrightarrow> r \<noteq> NULL" "rect_mem it r \<Longrightarrow> \<exists>p t. text_mem it p = Some t \<and> pRc t = r"
  using assms unfolding objects_ok_def by metis+

lemma objects_fresh: "objects_ok it \<Longrightarrow> next_obj it \<le> p \<Longrightarrow> text_mem it p = None \<and> \<not> rect_mem it p"
  by (auto simp: objects_ok_def) (metis leD not_None_eq, metis leD)

lemma objects_frame [simp]:
  "objects_ok (it\<lparr>m_text_array := a\<rparr>) = objects_ok it" "objects_ok (it\<lparr>bk_color := c\<rparr>) = objects_ok it"
  by (simp_all add: objects_ok_def)

lemma new_text_ok:
  assumes "objects_ok it" "new_text s click it = (p, it')"
  shows "objects_ok it'" "p \<notin> dom (text_mem it)" "dom (text_mem it') = insert p (dom (text_mem it))" "p \<noteq> NULL"
    "m_text_array it' = m_text_array it" "text_at it' p = (s, click)" "q \<noteq> p \<Longrightarrow> text_at it' q = text_at it q"
proof -
  let ?n = "next_obj it" and ?r = "if click then next_obj it + 1 else NULL"
  have e: "p = ?n" "it' = it\<lparr>text_mem := (text_mem it)(?n \<mapsto> \<lparr>strData = s, bClick = click, pRc = ?r\<rparr>),
      rect_mem := (if click then (rect_mem it)(?r := True) else rect_mem it), next_obj := ?n + 2\<rparr>"
    using assms(2) by (auto simp: new_text_def Let_def)
  have f: "text_mem it ?n = None" "\<not> rect_mem it (?n + 1)" using objects_fresh[OF assms(1)] by auto
  have n: "0 < ?n" using assms(1) by (simp add: objects_ok_def)
  show "p \<notin> dom (text_mem it)" "dom (text_mem it') = insert p (dom (text_mem it))" "p \<noteq> NULL"
    "m_text_array it' = m_text_array it" "text_at it' p = (s, click)" "q \<noteq> p \<Longrightarrow> text_at it' q = text_at it q"
    using f n by (auto simp: e text_at_def)
  have "pRc t \<noteq> ?n + 1" if "text_mem it q = Some t" for q t using objects_okD(3)[OF assms(1) that] by simp
  note fresh = this
  show "objects_ok it'"
  proof (rule objects_okI)
    show "0 < next_obj it'" by (simp add: e)
    show "q \<noteq> NULL \<and> q < next_obj it' \<and> pRc t < next_obj it' \<and> (bClick t \<longleftrightarrow> pRc t \<noteq> NULL) \<and>
        (pRc t \<noteq> NULL \<longrightarrow> rect_mem it' (pRc t))" if "text_mem it' q = Some t" for q t
    proof (cases "q = ?n")
      case True
      then show ?thesis using that n by (cases click) (auto simp: e)
    next
      case False
      then have "text_mem it q = Some t" using that by (simp add: e)
      from objects_okD[OF assms(1) this] show ?thesis by (auto simp: e)
    qed
    show "q = q'" if "text_mem it' q = Some t" "text_mem it' q' = Some u" "pRc t = pRc u" "pRc t \<noteq> NULL" for q q' t u
    proof -
      have x: "x = ?n \<and> (pRc w = NULL \<or> pRc w = ?n + 1) \<or> text_mem it x = Some w \<and> pRc w \<noteq> ?n + 1"
        if w: "text_mem it' x = Some w" for x w
      proof (cases "x = ?n")
        case True
        then show ?thesis using w by (cases click) (auto simp: e)
      next
        case False
        then have "text_mem it x = Some w" using w by (simp add: e)
        then show ?thesis using fresh by blast
      qed
      show ?thesis
      proof (cases "pRc t = ?n + 1")
        case True
        then have "q = ?n" "q' = ?n" using x[OF that(1)] x[OF that(2)] that(3,4) by metis+
        then show ?thesis by simp
      next
        case False
        then have "text_mem it q = Some t" "text_mem it q' = Some u" using x[OF that(1)] x[OF that(2)] that(3,4) by metis+
        then show ?thesis using objects_okE(1)[OF assms(1)] that(3,4) by blast
      qed
    qed
    show "r \<noteq> NULL \<and> (\<exists>q t. text_mem it' q = Some t \<and> pRc t = r)" if "rect_mem it' r" for r
    proof (cases "click \<and> r = ?n + 1")
      case True
      then show ?thesis by (intro conjI exI[of _ ?n] exI[of _ "\<lparr>strData = s, bClick = click, pRc = ?r\<rparr>"]) (simp_all add: e)
    next
      case False
      then have "rect_mem it r" using that by (auto simp: e split: if_splits)
      from objects_okE(2,3)[OF assms(1) this] obtain q t where "r \<noteq> NULL" "text_mem it q = Some t" "pRc t = r" by blast
      then show ?thesis using f(1) by (intro conjI exI[of _ q] exI[of _ t]) (auto simp: e)
    qed
  qed
qed

lemma discard_ok:
  assumes "objects_ok it" "text_mem it p = Some t"
  shows "\<exists>it'. discard p it = Some it' \<and> objects_ok it' \<and> dom (text_mem it') = dom (text_mem it) - {p} \<and>
    m_text_array it' = m_text_array it \<and> (\<forall>q. q \<noteq> p \<longrightarrow> text_at it' q = text_at it q)"
proof -
  note d = objects_okD[OF assms]
  let ?it = "it\<lparr>rect_mem := (if pRc t \<noteq> NULL then (rect_mem it)(pRc t := False) else rect_mem it),
      text_mem := (text_mem it)(p := None)\<rparr>"
  have "discard p it = Some ?it"
    using assms(2) d(5) by (simp add: discard_def delete_rect_def delete_text_def)
  moreover have "objects_ok ?it"
  proof -
    have inj: "q = p" if "text_mem it q = Some u" "pRc u = pRc t" "pRc t \<noteq> NULL" for q u
      using assms that unfolding objects_ok_def by metis
    have rect: "\<exists>q u. q \<noteq> p \<and> text_mem it q = Some u \<and> pRc u = r" if "rect_mem it r" "r \<noteq> pRc t" for r
      using assms that unfolding objects_ok_def by (metis option.inject)
    show ?thesis
    proof (rule objects_okI)
      show "0 < next_obj ?it" using assms(1) by (simp add: objects_ok_def)
      show "q \<noteq> NULL \<and> q < next_obj ?it \<and> pRc u < next_obj ?it \<and> (bClick u \<longleftrightarrow> pRc u \<noteq> NULL) \<and>
          (pRc u \<noteq> NULL \<longrightarrow> rect_mem ?it (pRc u))" if u: "text_mem ?it q = Some u" for q u
      proof -
        have q: "q \<noteq> p" "text_mem it q = Some u" using u by (auto split: if_splits)
        have "pRc u \<noteq> NULL \<longrightarrow> pRc u \<noteq> pRc t" using inj[OF q(2)] q(1) by auto
        then show ?thesis using objects_okD[OF assms(1) q(2)] by auto
      qed
      show "q = q'" if "text_mem ?it q = Some u" "text_mem ?it q' = Some u'" "pRc u = pRc u'" "pRc u \<noteq> NULL" for q q' u u'
        using objects_okE(1)[OF assms(1), of q u q' u'] that by (auto split: if_splits)
      show "r \<noteq> NULL \<and> (\<exists>q u. text_mem ?it q = Some u \<and> pRc u = r)" if "rect_mem ?it r" for r
      proof -
        have r: "rect_mem it r" "pRc t \<noteq> NULL \<longrightarrow> r \<noteq> pRc t" using that by (auto split: if_splits)
        then have "r \<noteq> NULL" using objects_okE(2)[OF assms(1)] by blast
        then have "r \<noteq> pRc t" using r(2) by auto
        from rect[OF r(1) this] obtain q u where "q \<noteq> p" "text_mem it q = Some u" "pRc u = r" by blast
        then show ?thesis using \<open>r \<noteq> NULL\<close> by (intro conjI exI[of _ q] exI[of _ u]) simp_all
      qed
    qed
  qed
  moreover have "dom (text_mem ?it) = dom (text_mem it) - {p}" by auto
  moreover have "\<forall>q. q \<noteq> p \<longrightarrow> text_at ?it q = text_at it q" by (simp add: text_at_def)
  ultimately show ?thesis by (intro exI[of _ ?it]) simp
qed

text \<open>What no operation on the texts changes.\<close>

definition same_line :: "MyListItem \<Rightarrow> MyListItem \<Rightarrow> bool" where
  "same_line it it' \<longleftrightarrow> m_pInfo it' = m_pInfo it \<and> checked it' = checked it \<and> bk_color it' = bk_color it"

lemma same_line_frames:
  "new_text s click it = (p, it') \<Longrightarrow> same_line it it'" "discard p it = Some it' \<Longrightarrow> same_line it it'"
  "same_line it (it\<lparr>m_text_array := a\<rparr>)" "same_line it (it\<lparr>text_mem := f\<rparr>)" "same_line it it"
  by (auto simp: same_line_def new_text_def discard_def delete_rect_def delete_text_def Let_def split: if_splits)

lemma same_line_trans: "same_line a b \<Longrightarrow> same_line b c \<Longrightarrow> same_line a c"
  by (simp add: same_line_def)

lemma item_okD:
  assumes "item_ok it"
  shows "objects_ok it" "array_ok (m_text_array it)" "distinct (elems (m_text_array it))"
    "set (elems (m_text_array it)) = dom (text_mem it)" "NULL \<notin> set (elems (m_text_array it))"
proof -
  show a: "objects_ok it" "array_ok (m_text_array it)" "distinct (elems (m_text_array it))"
    "set (elems (m_text_array it)) = dom (text_mem it)" using assms by (simp_all add: item_ok_def)
  show "NULL \<notin> set (elems (m_text_array it))" unfolding a(4) using objects_okD(1)[OF a(1)] by blast
qed

lemma shown_cong:
  assumes "\<And>q. q \<in> set (elems (m_text_array it)) \<Longrightarrow> text_at it' q = text_at it q"
  shows "map (text_at it') (elems (m_text_array it)) = shown it"
  using assms by (simp add: shown_def)

lemma length_shown: "length (shown it) = length (elems (m_text_array it))"
  by (simp add: shown_def)

text \<open>The text at a column.\<close>

lemma column_text:
  assumes "item_ok it" "array_GetAt i (m_text_array it) = Some p" "p \<noteq> NULL"
  shows "\<exists>t. text_mem it p = Some t" "0 \<le> i" "i < int (length (shown it))" "p = elems (m_text_array it) ! nat i"
    "text_at it p = shown it ! nat i"
proof -
  note d = item_okD[OF assms(1)]
  show m: "0 \<le> i" "i < int (length (shown it))" "p = elems (m_text_array it) ! nat i"
    using pa.get_member[OF d(2) assms(2,3)] by (simp_all add: length_shown)
  then have n: "nat i < length (elems (m_text_array it))" by (simp add: length_shown)
  then have "p \<in> dom (text_mem it)" using m(3) d(4) nth_mem by metis
  then show "\<exists>t. text_mem it p = Some t" by blast
  show "text_at it p = shown it ! nat i" using n m(3) by (simp add: shown_def)
qed

lemma AddText_ok:
  assumes "alloc_ok alloc" "item_ok it"
  shows "\<exists>r it'. AddText alloc s click it = Some (r, it') \<and> item_ok it' \<and> same_line it it' \<and>
    (r = int (length (shown it)) \<and> shown it' = shown it @ [(s, click)] \<or>
     r = - 1 \<and> shown it' = shown it \<and> (\<exists>n. alloc n = None))"
proof -
  note d = item_okD[OF assms(2)]
  obtain p it1 where n: "new_text s click it = (p, it1)" by fastforce
  note t = new_text_ok[OF d(1) n]
  obtain r a where r: "array_Add alloc p (m_text_array it1) = Some (r, a)" "array_ok a"
      "elems a = (if r then elems (m_text_array it) @ [p] else elems (m_text_array it))" "r \<or> (\<exists>n. alloc n = None)"
    using pa.add[OF assms(1) d(2), of p] t(5) by auto
  have p: "p \<notin> set (elems (m_text_array it))" using t(2) d(4) by blast
  then have old: "text_at it1 q = text_at it q" if "q \<in> set (elems (m_text_array it))" for q
    using that t(7) by metis
  let ?it2 = "it1\<lparr>m_text_array := a\<rparr>"
  have at2: "text_at ?it2 = text_at it1" by (simp add: text_at_def[abs_def])
  show ?thesis
  proof (cases r)
    case True
    have "AddText alloc s click it = Some (array_GetSize a - 1, ?it2)" using n r(1) True by (simp add: AddText_def)
    moreover have "array_GetSize a = int (length (elems a))"
      using length_elems[OF r(2)] r(2) by (simp add: array_GetSize_def array_ok_def)
    then have "array_GetSize a - 1 = int (length (shown it))" using r(3) True by (simp add: length_shown)
    moreover have "item_ok ?it2" using t(1,3) d(3,4) r(2,3) p True by (simp add: item_ok_def)
    moreover have "shown ?it2 = shown it @ [(s, click)]"
      using True r(3) t(6) shown_cong[of it it1, OF old] by (simp add: shown_def at2)
    moreover have "same_line it ?it2" using same_line_frames(1)[OF n] by (simp add: same_line_def)
    ultimately show ?thesis by blast
  next
    case False
    obtain t where "text_mem it1 p = Some t" using t(3) by blast
    then obtain it3 where it3: "discard p ?it2 = Some it3" "objects_ok it3" "dom (text_mem it3) = dom (text_mem it1) - {p}"
        "m_text_array it3 = a" "\<forall>q. q \<noteq> p \<longrightarrow> text_at it3 q = text_at it1 q"
      using discard_ok[of ?it2 p t] t(1) at2 by auto
    have "AddText alloc s click it = Some (- 1, it3)" using n r(1) False it3(1) by (simp add: AddText_def)
    moreover have "item_ok it3" using it3 t(2,3) d r(2,3) False by (auto simp: item_ok_def)
    moreover have "text_at it3 q = text_at it q" if "q \<in> set (elems (m_text_array it))" for q
      using it3(5) old[OF that] p that by metis
    from shown_cong[of it it3, OF this] have "shown it3 = shown it" using it3(4) r(3) False by (simp add: shown_def)
    moreover have "same_line it it3" using same_line_frames(1)[OF n] same_line_frames(2)[OF it3(1)] by (simp add: same_line_def)
    ultimately show ?thesis using r(4) False by blast
  qed
qed

lemma InsetText_ok:
  assumes "alloc_ok alloc" "item_ok it"
  shows "\<exists>r it'. InsetText alloc i s click it = Some (r, it') \<and> item_ok it' \<and>
    (r \<and> 0 \<le> i \<and> i \<le> int (length (shown it)) \<and> shown it' = take (nat i) (shown it) @ (s, click) # drop (nat i) (shown it) \<or>
     \<not> r \<and> shown it' = shown it \<and> (i < 0 \<or> int (length (shown it)) < i \<or> (\<exists>n. alloc n = None)))"
proof -
  note d = item_okD[OF assms(2)]
  obtain p it1 where n: "new_text s click it = (p, it1)" by fastforce
  note t = new_text_ok[OF d(1) n]
  have p: "p \<notin> set (elems (m_text_array it))" using t(2) d(4) by blast
  let ?xs = "elems (m_text_array it)"
  obtain r a where r: "array_InsertAt alloc i p (m_text_array it1) = Some (r, a)" "array_ok a" "distinct (elems a)"
      "set (elems a) = (if r then insert p (set ?xs) else set ?xs)"
      "elems a = (if r then take (nat i) ?xs @ p # drop (nat i) ?xs else ?xs)"
      "r \<longrightarrow> 0 \<le> i \<and> i \<le> int (length ?xs)"
      "r \<or> i < 0 \<or> int (length ?xs) < i \<or> (\<exists>n. alloc n = None)"
    using pa.insert_set[OF assms(1) d(2) p d(3), of i] unfolding t(5) by blast
  have old: "text_at it1 q = text_at it q" if "q \<in> set ?xs" for q using p that t(7) by metis
  let ?it2 = "it1\<lparr>m_text_array := a\<rparr>"
  have at2: "text_at ?it2 = text_at it1" by (simp add: text_at_def[abs_def])
  show ?thesis
  proof (cases r)
    case True
    have "InsetText alloc i s click it = Some (True, ?it2)" using n r(1) True by (simp add: InsetText_def)
    moreover have "item_ok ?it2" using t(1,3) d(4) r(2-4) True by (simp add: item_ok_def)
    moreover have "shown ?it2 = take (nat i) (shown it) @ (s, click) # drop (nat i) (shown it)"
      using True r(5) t(6) old by (auto simp: shown_def at2 take_map drop_map dest: in_set_takeD in_set_dropD)
    ultimately show ?thesis using r(6) True by (auto simp: length_shown)
  next
    case False
    obtain t where "text_mem it1 p = Some t" using t(3) by blast
    then obtain it3 where it3: "discard p ?it2 = Some it3" "objects_ok it3" "dom (text_mem it3) = dom (text_mem it1) - {p}"
        "m_text_array it3 = a" "\<forall>q. q \<noteq> p \<longrightarrow> text_at it3 q = text_at it1 q"
      using discard_ok[of ?it2 p t] t(1) at2 by auto
    have "InsetText alloc i s click it = Some (False, it3)" using n r(1) False it3(1) by (simp add: InsetText_def)
    moreover have "item_ok it3" using it3 t(2,3) d r(2-4) False by (auto simp: item_ok_def)
    moreover have "text_at it3 q = text_at it q" if "q \<in> set ?xs" for q
      using it3(5) old[OF that] p that by metis
    from shown_cong[of it it3, OF this] have "shown it3 = shown it" using it3(4) r(5) False by (simp add: shown_def)
    ultimately show ?thesis using r(7) False by (auto simp: length_shown)
  qed
qed

text \<open>A text changed in place, its \<open>RECT\<close> and the others left alone.\<close>

lemma shown_update:
  assumes "item_ok it" "array_GetAt i (m_text_array it) = Some p" "p \<noteq> NULL"
    and "m_text_array it' = m_text_array it" "\<And>q. q \<noteq> p \<Longrightarrow> text_at it' q = text_at it q" "text_at it' p = x"
  shows "shown it' = (shown it)[nat i := x]"
proof -
  note c = column_text[OF assms(1-3)] and d = item_okD[OF assms(1)]
  let ?xs = "elems (m_text_array it)"
  have n: "nat i < length ?xs" using c(2,3) by (simp add: length_shown)
  show ?thesis
  proof (rule nth_equalityI)
    show "length (shown it') = length ((shown it)[nat i := x])" by (simp add: length_shown assms(4))
    fix j assume "j < length (shown it')"
    then have j: "j < length ?xs" by (simp add: length_shown assms(4))
    have "?xs ! j = p \<longleftrightarrow> j = nat i" using distinct_nth_inj[OF d(3) j n] c(4) by simp
    then show "shown it' ! j = (shown it)[nat i := x] ! j"
      using j n assms(4-6) by (cases "j = nat i") (simp_all add: shown_def)
  qed
qed

lemma objects_retext:
  assumes "objects_ok it" "text_mem it p = Some t" "pRc t' = pRc t" "bClick t' = bClick t"
  shows "objects_ok (it\<lparr>text_mem := (text_mem it)(p \<mapsto> t')\<rparr>)"
proof (rule objects_okI)
  let ?it = "it\<lparr>text_mem := (text_mem it)(p \<mapsto> t')\<rparr>"
  have old: "\<exists>w. text_mem it q = Some w \<and> pRc w = pRc u \<and> bClick w = bClick u" if "text_mem ?it q = Some u" for q u
    using that assms(2-4) by (cases "q = p") auto
  have new: "\<exists>w. text_mem ?it q = Some w \<and> pRc w = pRc u" if "text_mem it q = Some u" for q u
    using that assms(2,3) by (cases "q = p") auto
  show "0 < next_obj ?it" using assms(1) by (simp add: objects_ok_def)
  show "q \<noteq> NULL \<and> q < next_obj ?it \<and> pRc u < next_obj ?it \<and> (bClick u \<longleftrightarrow> pRc u \<noteq> NULL) \<and>
      (pRc u \<noteq> NULL \<longrightarrow> rect_mem ?it (pRc u))" if u: "text_mem ?it q = Some u" for q u
  proof -
    obtain w where w: "text_mem it q = Some w" "pRc w = pRc u" "bClick w = bClick u" using old[OF u] by blast
    from objects_okD[OF assms(1) w(1)] show ?thesis unfolding w(2,3) by simp
  qed
  show "q = q'" if u: "text_mem ?it q = Some u" "text_mem ?it q' = Some u'" and e: "pRc u = pRc u'" "pRc u \<noteq> NULL" for q q' u u'
  proof -
    obtain w where w: "text_mem it q = Some w" "pRc w = pRc u" using old[OF u(1)] by blast
    obtain w' where w': "text_mem it q' = Some w'" "pRc w' = pRc u'" using old[OF u(2)] by blast
    show ?thesis using objects_okE(1)[OF assms(1) w(1) w'(1)] w(2) w'(2) e by simp
  qed
  show "r \<noteq> NULL \<and> (\<exists>q u. text_mem ?it q = Some u \<and> pRc u = r)" if r: "rect_mem ?it r" for r
  proof -
    have "rect_mem it r" using r by simp
    from objects_okE(2,3)[OF assms(1) this] obtain q u where q: "r \<noteq> NULL" "text_mem it q = Some u" "pRc u = r" by blast
    show ?thesis using new[OF q(2)] q(1,3) by blast
  qed
qed

lemma SetText_ok:
  assumes "item_ok it"
  shows "\<exists>r it'. SetText i s it = Some (r, it') \<and> item_ok it' \<and> same_line it it' \<and>
    (r \<longleftrightarrow> 0 \<le> i \<and> i < int (length (shown it))) \<and>
    shown it' = (if r then (shown it)[nat i := (s, snd (shown it ! nat i))] else shown it)"
proof -
  note d = item_okD[OF assms]
  obtain p where p: "array_GetAt i (m_text_array it) = Some p" using pa.get_Some[OF d(2)] by blast
  show ?thesis
  proof (cases "p = NULL")
    case True
    then have "\<not> (0 \<le> i \<and> i < int (length (shown it)))" using pa.get_NULL[OF d(2,5)] p by (simp add: length_shown)
    then show ?thesis using p True assms same_line_frames(5) by (auto simp: SetText_def)
  next
    case False
    note c = column_text[OF assms p False]
    obtain t where t: "text_mem it p = Some t" using c(1) by blast
    let ?it = "it\<lparr>text_mem := (text_mem it)(p \<mapsto> t\<lparr>strData := s\<rparr>)\<rparr>"
    have "SetText i s it = Some (True, ?it)" using p False t by (simp add: SetText_def)
    moreover have "objects_ok ?it" by (rule objects_retext[OF d(1) t]) simp_all
    then have "item_ok ?it" using d t by (auto simp: item_ok_def)
    moreover have "shown ?it = (shown it)[nat i := (s, snd (shown it ! nat i))]"
    proof (rule shown_update[OF assms p False])
      have "snd (shown it ! nat i) = bClick t" using t by (simp flip: c(5) add: text_at_def)
      then show "text_at ?it p = (s, snd (shown it ! nat i))" by (simp add: text_at_def)
    qed (simp_all add: text_at_def)
    ultimately show ?thesis using c(2,3) same_line_frames(4) by auto
  qed
qed

lemma DeleteText_ok:
  assumes "item_ok it"
  shows "\<exists>r it'. DeleteText i it = Some (r, it') \<and> item_ok it' \<and> (r \<longleftrightarrow> 0 \<le> i \<and> i < int (length (shown it))) \<and>
    shown it' = (if r then take (nat i) (shown it) @ drop (nat i + 1) (shown it) else shown it)"
proof -
  note d = item_okD[OF assms]
  obtain p where p: "array_GetAt i (m_text_array it) = Some p" using pa.get_Some[OF d(2)] by blast
  show ?thesis
  proof (cases "p = NULL")
    case True
    then have out: "\<not> (0 \<le> i \<and> i < int (length (shown it)))" using pa.get_NULL[OF d(2,5)] p by (simp add: length_shown)
    then obtain a where "array_Remove i (m_text_array it) = Some (False, a)" "array_ok a" "elems a = elems (m_text_array it)"
      using pa.remove_at[OF d(2), of i] by (auto simp: length_shown)
    then show ?thesis using p True out assms
      by (auto simp: DeleteText_def item_ok_def shown_def text_at_def intro!: exI[of _ "it\<lparr>m_text_array := a\<rparr>"])
  next
    case False
    note c = column_text[OF assms p False]
    obtain t where t: "text_mem it p = Some t" using c(1) by blast
    obtain it1 where it1: "discard p it = Some it1" "objects_ok it1" "dom (text_mem it1) = dom (text_mem it) - {p}"
        "m_text_array it1 = m_text_array it" "\<forall>q. q \<noteq> p \<longrightarrow> text_at it1 q = text_at it q"
      using discard_ok[OF d(1) t] by blast
    obtain a where a: "array_Remove i (m_text_array it) = Some (True, a)" "array_ok a" "distinct (elems a)"
        "set (elems a) = set (elems (m_text_array it)) - {p}"
        "elems a = take (nat i) (elems (m_text_array it)) @ drop (nat i + 1) (elems (m_text_array it))"
      using pa.get_remove[OF d(2,3) p False] by blast
    let ?it = "it1\<lparr>m_text_array := a\<rparr>"
    have "DeleteText i it = Some (True, ?it)" using p False it1(1,4) a(1) by (simp add: DeleteText_def)
    moreover have "item_ok ?it" using it1 a d by (simp add: item_ok_def)
    moreover have "text_at ?it q = text_at it q" if "q \<in> set (elems a)" for q
      using it1(5) that a(4) by (simp add: text_at_def)
    then have "shown ?it = map (text_at it) (elems a)" by (simp add: shown_def)
    then have "shown ?it = take (nat i) (shown it) @ drop (nat i + 1) (shown it)"
      by (simp add: a(5) shown_def take_map drop_map)
    ultimately show ?thesis using c(2,3) by auto
  qed
qed

lemma objects_add_rect:
  assumes "objects_ok it" "text_mem it p = Some t" "pRc t = NULL"
  shows "objects_ok (it\<lparr>text_mem := (text_mem it)(p \<mapsto> t\<lparr>bClick := True, pRc := next_obj it\<rparr>),
    rect_mem := (rect_mem it)(next_obj it := True), next_obj := next_obj it + 1\<rparr>)" (is "objects_ok ?it")
proof -
  let ?rc = "next_obj it"
  note o = objects_okD[OF assms(1,2)] and oE = objects_okE[OF assms(1)] and t = assms(2)
  have n: "pRc t = NULL" "0 < ?rc" using assms(1,3) by (auto simp: objects_ok_def)
  have old: "text_mem it q = Some u \<Longrightarrow> pRc u < ?rc" for q u using objects_okD(3)[OF assms(1)] by blast
  show ?thesis
  proof (rule objects_okI)
    show "q \<noteq> NULL \<and> q < next_obj ?it \<and> pRc u < next_obj ?it \<and> (bClick u \<longleftrightarrow> pRc u \<noteq> NULL) \<and>
        (pRc u \<noteq> NULL \<longrightarrow> rect_mem ?it (pRc u))" if u: "text_mem ?it q = Some u" for q u
    proof (cases "q = p")
      case True
      then show ?thesis using u n o(1,2) by auto
    next
      case False
      then have "text_mem it q = Some u" using u by simp
      from objects_okD[OF assms(1) this] show ?thesis by auto
    qed
    show "q = q'" if u: "text_mem ?it q = Some u" "text_mem ?it q' = Some u'" "pRc u = pRc u'" "pRc u \<noteq> NULL" for q q' u u'
    proof -
      have x: "x = p \<and> pRc w = ?rc \<or> text_mem it x = Some w \<and> pRc w < ?rc" if w: "text_mem ?it x = Some w" for x w
        using w old[of x w] by (cases "x = p") auto
      show ?thesis using x[OF u(1)] x[OF u(2)] u(3,4) oE(1)[of q u q' u'] by (metis nat_neq_iff)
    qed
    show "r \<noteq> NULL \<and> (\<exists>q u. text_mem ?it q = Some u \<and> pRc u = r)" if r: "rect_mem ?it r" for r
    proof (cases "r = ?rc")
      case True
      then show ?thesis using n(2) by (intro conjI exI[of _ p] exI[of _ "t\<lparr>bClick := True, pRc := ?rc\<rparr>"]) simp_all
    next
      case False
      then have "rect_mem it r" using r by simp
      from oE(2,3)[OF this] obtain q u where q: "r \<noteq> NULL" "text_mem it q = Some u" "pRc u = r" by blast
      then have "q \<noteq> p" using t n(1) by auto
      then show ?thesis using q by (intro conjI exI[of _ q] exI[of _ u]) simp_all
    qed
  qed (use n in simp)
qed

lemma objects_drop_rect:
  assumes "objects_ok it" "text_mem it p = Some t" "pRc t \<noteq> NULL"
  shows "objects_ok (it\<lparr>rect_mem := (rect_mem it)(pRc t := False),
    text_mem := (text_mem it)(p \<mapsto> t\<lparr>bClick := False, pRc := NULL\<rparr>)\<rparr>)" (is "objects_ok ?it")
proof -
  note o = objects_okD[OF assms(1,2)] and oE = objects_okE[OF assms(1)] and t = assms(2) and n = assms(3)
  have inj: "q = p" if q: "text_mem it q = Some u" "pRc u = pRc t" for q u
    using oE(1)[OF q(1) t] q(2) n by simp
  show ?thesis
  proof (rule objects_okI)
    show "q \<noteq> NULL \<and> q < next_obj ?it \<and> pRc u < next_obj ?it \<and> (bClick u \<longleftrightarrow> pRc u \<noteq> NULL) \<and>
        (pRc u \<noteq> NULL \<longrightarrow> rect_mem ?it (pRc u))" if u: "text_mem ?it q = Some u" for q u
    proof (cases "q = p")
      case True
      then show ?thesis using u o(1,2) assms(1) by (auto simp: objects_ok_def)
    next
      case False
      then have q: "text_mem it q = Some u" using u by simp
      then have "pRc u \<noteq> pRc t" using inj False by blast
      then show ?thesis using objects_okD[OF assms(1) q] by auto
    qed
    show "q = q'" if u: "text_mem ?it q = Some u" "text_mem ?it q' = Some u'" "pRc u = pRc u'" "pRc u \<noteq> NULL" for q q' u u'
    proof -
      have "text_mem it q = Some u" "text_mem it q' = Some u'" using u by (auto split: if_splits)
      then show ?thesis using oE(1) u(3,4) by blast
    qed
    show "r \<noteq> NULL \<and> (\<exists>q u. text_mem ?it q = Some u \<and> pRc u = r)" if r: "rect_mem ?it r" for r
    proof -
      have r': "rect_mem it r" "r \<noteq> pRc t" using r by (auto split: if_splits)
      from oE(2,3)[OF this(1)] obtain q u where q: "r \<noteq> NULL" "text_mem it q = Some u" "pRc u = r" by blast
      then have "q \<noteq> p" using t r'(2) by auto
      then show ?thesis using q by (intro conjI exI[of _ q] exI[of _ u]) simp_all
    qed
  qed (use assms(1) in \<open>simp add: objects_ok_def\<close>)
qed

lemma SetClick_ok:
  assumes "item_ok it"
  shows "\<exists>r it'. SetClick i b it = Some (r, it') \<and> item_ok it' \<and> (r \<longleftrightarrow> 0 \<le> i \<and> i < int (length (shown it))) \<and>
    shown it' = (if r then (shown it)[nat i := (fst (shown it ! nat i), b)] else shown it)"
proof -
  note d = item_okD[OF assms]
  obtain p where p: "array_GetAt i (m_text_array it) = Some p" using pa.get_Some[OF d(2)] by blast
  show ?thesis
  proof (cases "p = NULL")
    case True
    then have "\<not> (0 \<le> i \<and> i < int (length (shown it)))" using pa.get_NULL[OF d(2,5)] p by (simp add: length_shown)
    then show ?thesis using p True assms by (auto simp: SetClick_def)
  next
    case False
    note c = column_text[OF assms p False]
    obtain t where t: "text_mem it p = Some t" using c(1) by blast
    note o = objects_okD[OF d(1) t] and oE = objects_okE[OF d(1)]
    obtain it' where run: "SetClick i b it = Some (True, it')" and ok: "objects_ok it'"
      and same: "m_text_array it' = m_text_array it" "dom (text_mem it') = dom (text_mem it)"
        "\<And>q. q \<noteq> p \<Longrightarrow> text_at it' q = text_at it q" "text_at it' p = (strData t, b)"
    proof (cases "b = bClick t")
      case True
      let ?it = "it\<lparr>text_mem := (text_mem it)(p \<mapsto> t\<lparr>bClick := b\<rparr>)\<rparr>"
      have "SetClick i b it = Some (True, ?it)" using p False t True o(4) by (auto simp: SetClick_def Let_def)
      moreover have "objects_ok ?it" using True by (intro objects_retext[OF d(1) t]) simp_all
      ultimately show thesis using t by (intro that[of ?it]) (auto simp: text_at_def)
    next
      case change: False
      show thesis
      proof (cases b)
        case True
        let ?rc = "next_obj it"
        let ?it = "it\<lparr>text_mem := (text_mem it)(p \<mapsto> t\<lparr>bClick := True, pRc := ?rc\<rparr>),
            rect_mem := (rect_mem it)(?rc := True), next_obj := ?rc + 1\<rparr>"
        have n: "pRc t = NULL" "0 < ?rc" using o(4) True change d(1) by (auto simp: objects_ok_def)
        have run: "SetClick i b it = Some (True, ?it)" using p False t True n by (auto simp: SetClick_def Let_def)
        have "objects_ok ?it" by (rule objects_add_rect[OF d(1) t n(1)])
        then show thesis using run t True by (intro that[of ?it]) (auto simp: text_at_def)
      next
        case off: False
        let ?it = "it\<lparr>rect_mem := (rect_mem it)(pRc t := False), text_mem := (text_mem it)(p \<mapsto> t\<lparr>bClick := False, pRc := NULL\<rparr>)\<rparr>"
        have n: "pRc t \<noteq> NULL" "rect_mem it (pRc t)" using o(4,5) off change by auto
        have run: "SetClick i b it = Some (True, ?it)"
          using p False t off n by (auto simp: SetClick_def delete_rect_def Let_def)
        have "objects_ok ?it" by (rule objects_drop_rect[OF d(1) t n(1)])
        then show thesis using run t off by (intro that[of ?it]) (auto simp: text_at_def)
      qed
    qed
    have "item_ok it'" using ok same(1,2) d by (simp add: item_ok_def)
    moreover have "fst (shown it ! nat i) = strData t" using t by (simp flip: c(5) add: text_at_def)
    then have "shown it' = (shown it)[nat i := (fst (shown it ! nat i), b)]"
      using shown_update[OF assms p False same(1,3,4)] by simp
    ultimately show ?thesis using run c(2,3) by auto
  qed
qed

lemma clear_from_ok:
  assumes "objects_ok it" "array_ok (m_text_array it)" "distinct (elems (m_text_array it))"
    and "set (drop i (elems (m_text_array it))) = dom (text_mem it)" "i + n = length (elems (m_text_array it))"
  shows "\<exists>it'. clear_from (int i) n it = Some it' \<and> objects_ok it' \<and> text_mem it' = Map.empty \<and>
    m_text_array it' = m_text_array it \<and> same_line it it'"
  using assms
proof (induction n arbitrary: i it)
  case 0
  then show ?case using same_line_frames(5) by auto
next
  case (Suc n)
  let ?xs = "elems (m_text_array it)"
  have i: "i < length ?xs" using Suc.prems(5) by simp
  have dr: "drop i ?xs = ?xs ! i # drop (Suc i) ?xs" using Cons_nth_drop_Suc[OF i] by simp
  then have "?xs ! i \<in> dom (text_mem it)" using Suc.prems(4) by (metis list.set_intros(1))
  then obtain t where t: "text_mem it (?xs ! i) = Some t" by blast
  note o = objects_okD[OF Suc.prems(1) t]
  obtain it1 where it1: "discard (?xs ! i) it = Some it1" "objects_ok it1" "dom (text_mem it1) = dom (text_mem it) - {?xs ! i}"
      "m_text_array it1 = m_text_array it"
    using discard_ok[OF Suc.prems(1) t] by blast
  have g: "array_GetAt (int i) (m_text_array it) = Some (?xs ! i)"
    using pa.get[OF Suc.prems(2), of "int i"] i by simp
  have step: "clear_from (int i) (Suc n) it = clear_from (int (Suc i)) n it1"
    using g t o(1,4) it1(1) by (auto simp: discard_def add.commute)
  have "?xs ! i \<notin> set (drop (Suc i) ?xs)"
    using distinct_drop[OF Suc.prems(3), of i] unfolding dr by simp
  then have "set (drop (Suc i) ?xs) = dom (text_mem it1)" using Suc.prems(4) unfolding it1(3) dr by auto
  then obtain it' where r: "clear_from (int (Suc i)) n it1 = Some it'" "objects_ok it'" "text_mem it' = Map.empty"
      "m_text_array it' = m_text_array it1" "same_line it1 it'"
    using Suc.IH[of it1 "Suc i"] it1(2,4) Suc.prems(2,3,5) by auto
  then show ?case using step it1(4) same_line_trans[OF same_line_frames(2)[OF it1(1)]] by (intro exI[of _ it']) simp
qed

lemma ClearText_ok:
  assumes "item_ok it"
  shows "\<exists>it'. ClearText it = Some (int (length (shown it)), it') \<and> item_ok it' \<and> shown it' = [] \<and> same_line it it'"
proof -
  note d = item_okD[OF assms]
  let ?n = "nat (m_nCount (m_text_array it))"
  have n: "length (elems (m_text_array it)) = ?n" by (rule length_elems[OF d(2)])
  obtain it' where it': "clear_from (int 0) ?n it = Some it'" "objects_ok it'" "text_mem it' = Map.empty"
      "m_text_array it' = m_text_array it" "same_line it it'"
    using clear_from_ok[OF d(1-3), of 0 ?n] d(4) n by auto
  let ?it = "it'\<lparr>m_text_array := array_Empty (m_text_array it')\<rparr>"
  have "ClearText it = Some (m_nCount (m_text_array it), ?it)"
    using it'(1) by (simp add: ClearText_def array_GetSize_def)
  moreover have "m_nCount (m_text_array it) = int (length (shown it))"
    using d(2) n by (simp add: length_shown array_ok_def)
  moreover have "item_ok ?it" using it'(2,3) pa.clear by (simp add: item_ok_def)
  moreover have "shown ?it = []" by (simp add: shown_def array_Empty_ok)
  ultimately show ?thesis using it'(5) by (auto simp: same_line_def)
qed

section \<open>Runs of operations\<close>

datatype text_op = OpAdd wide bool | OpSet int wide | OpClick int bool | OpDelete int | OpInsert int wide bool | OpClear

fun run_text_op :: "alloc \<Rightarrow> text_op \<Rightarrow> MyListItem \<Rightarrow> MyListItem option" where
  "run_text_op alloc (OpAdd s c) it = map_option snd (AddText alloc s c it)"
| "run_text_op alloc (OpSet i s) it = map_option snd (SetText i s it)"
| "run_text_op alloc (OpClick i b) it = map_option snd (SetClick i b it)"
| "run_text_op alloc (OpDelete i) it = map_option snd (DeleteText i it)"
| "run_text_op alloc (OpInsert i s c) it = map_option snd (InsetText alloc i s c it)"
| "run_text_op alloc OpClear it = map_option snd (ClearText it)"

fun run_text_ops :: "alloc \<Rightarrow> text_op list \<Rightarrow> MyListItem \<Rightarrow> MyListItem option" where
  "run_text_ops alloc [] it = Some it"
| "run_text_ops alloc (x # xs) it = do { it1 \<leftarrow> run_text_op alloc x it; run_text_ops alloc xs it1 }"

text \<open>The operations on the list of columns, when the memory suffices.\<close>

definition in_columns :: "int \<Rightarrow> 'a list \<Rightarrow> bool" where
  "in_columns i cs \<longleftrightarrow> 0 \<le> i \<and> i < int (length cs)"

fun column_op :: "text_op \<Rightarrow> (wide \<times> bool) list \<Rightarrow> (wide \<times> bool) list" where
  "column_op (OpAdd s c) cs = cs @ [(s, c)]"
| "column_op (OpSet i s) cs = (if in_columns i cs then cs[nat i := (s, snd (cs ! nat i))] else cs)"
| "column_op (OpClick i b) cs = (if in_columns i cs then cs[nat i := (fst (cs ! nat i), b)] else cs)"
| "column_op (OpDelete i) cs = (if in_columns i cs then take (nat i) cs @ drop (nat i + 1) cs else cs)"
| "column_op (OpInsert i s c) cs =
     (if 0 \<le> i \<and> i \<le> int (length cs) then take (nat i) cs @ (s, c) # drop (nat i) cs else cs)"
| "column_op OpClear cs = []"

lemma run_text_op_ok:
  assumes "alloc_ok alloc" "item_ok it"
  shows "\<exists>it'. run_text_op alloc x it = Some it' \<and> item_ok it' \<and>
    (shown it' = column_op x (shown it) \<or> shown it' = shown it \<and> (\<exists>n. alloc n = None))"
proof (cases x)
  case (OpAdd s c)
  then show ?thesis using AddText_ok[OF assms, of s c] by force
next
  case (OpSet i s)
  then show ?thesis using SetText_ok[OF assms(2), of i s] by (auto simp: in_columns_def)
next
  case (OpClick i b)
  then show ?thesis using SetClick_ok[OF assms(2), of i b] by (auto simp: in_columns_def)
next
  case (OpDelete i)
  then show ?thesis using DeleteText_ok[OF assms(2), of i] by (auto simp: in_columns_def)
next
  case (OpInsert i s c)
  obtain r it' where r: "InsetText alloc i s c it = Some (r, it')" "item_ok it'"
    "r \<and> 0 \<le> i \<and> i \<le> int (length (shown it)) \<and> shown it' = take (nat i) (shown it) @ (s, c) # drop (nat i) (shown it) \<or>
     \<not> r \<and> shown it' = shown it \<and> (i < 0 \<or> int (length (shown it)) < i \<or> (\<exists>n. alloc n = None))"
    using InsetText_ok[OF assms, of i s c] by blast
  then have "shown it' = column_op x (shown it) \<or> shown it' = shown it \<and> (\<exists>n. alloc n = None)"
    using OpInsert by (cases r) auto
  then show ?thesis using r(1,2) OpInsert by auto
next
  case OpClear
  then show ?thesis using ClearText_ok[OF assms(2)] by auto
qed

text \<open>
  C11: a line of the lists never leaks a text or a rectangle, deletes none twice and never follows a
  dead pointer, whatever is done to its texts and even when memory runs out; as long as it does not, the
  line shows what the same operations make of the list of its columns.
\<close>

theorem line_texts_refine_columns:
  assumes "alloc_ok alloc" "item_ok it"
  shows "\<exists>it'. run_text_ops alloc xs it = Some it' \<and> item_ok it' \<and>
    ((\<forall>n. alloc n \<noteq> None) \<longrightarrow> shown it' = fold column_op xs (shown it))"
  using assms(2)
proof (induction xs arbitrary: it)
  case (Cons x xs)
  obtain it1 where it1: "run_text_op alloc x it = Some it1" "item_ok it1"
      "shown it1 = column_op x (shown it) \<or> shown it1 = shown it \<and> (\<exists>n. alloc n = None)"
    using run_text_op_ok[OF assms(1) Cons.prems] by blast
  obtain it' where "run_text_ops alloc xs it1 = Some it'" "item_ok it'"
      "(\<forall>n. alloc n \<noteq> None) \<longrightarrow> shown it' = fold column_op xs (shown it1)"
    using Cons.IH[OF it1(2)] by blast
  moreover have "(\<forall>n. alloc n \<noteq> None) \<longrightarrow> shown it1 = column_op x (shown it)" using it1(3) by blast
  ultimately show ?case using it1(1) by (intro exI[of _ it']) simp
qed simp

lemma new_item_ok: "item_ok (new_item alloc info)" "shown (new_item alloc info) = []"
  by (simp_all add: item_ok_def objects_ok_def new_item_def CStdPtrArray_ok shown_def)

theorem line_texts_refine_columns_witness:
  "\<exists>it'. run_text_ops (\<lambda>n. Some (replicate n 0)) [OpAdd [65] False, OpInsert 0 [66] True, OpClick 1 True, OpDelete 0]
      (new_item (\<lambda>n. Some (replicate n 0)) 7) = Some it' \<and> item_ok it' \<and> shown it' = [([65], True)]"
proof -
  have "alloc_ok (\<lambda>n. Some (replicate n 0))" by (simp add: alloc_ok_def)
  from line_texts_refine_columns[OF this new_item_ok(1)[of "\<lambda>n. Some (replicate n 0)" 7],
      of "[OpAdd [65] False, OpInsert 0 [66] True, OpClick 1 True, OpDelete 0]"]
  show ?thesis by (simp add: new_item_ok in_columns_def)
qed

end
