(* ===== verification/Pm_Window.thy ===== *)
theory Pm_Window
  imports Pm_Item Pm_Callbacks
begin

text \<open>
  \<open>PortMapping/MainDlg.cpp\<close>: the window, the observer of the adapter. Its two lists hold the
  addresses of their lines, in the order of \<open>m_items\<close> of DuiLib's \<open>CListUI\<close>; a deleted line is
  \<open>None\<close>. The objects of the adapter are those of \<open>libuv\<close>, whose \<open>pUserData\<close> (\<open>cUserData\<close>)
  points back at the line. A call through \<open>NULL\<close> or to a deleted object is \<open>None\<close>.

  The controls are reduced to what the window reads of them (texts, checks, visibility); drawing,
  the menus' windows and the selection of a line are not modelled. \<open>alloc\<close> and \<open>a2w\<close> are the memory
  and the conversion of strings.
\<close>

unbundle bit_operations_syntax

section \<open>Lists\<close>

type_synonym 'i lines = "ptr \<Rightarrow> 'i option"

text \<open>\<open>CListUI::Remove\<close> asks the control for its interfaces before it looks for it;
  \<open>CContainerUI::Remove\<close> then deletes it.\<close>

definition list_Remove :: "ptr \<Rightarrow> ptr list \<Rightarrow> 'i lines \<Rightarrow> (ptr list \<times> 'i lines) option" where
  "list_Remove p xs its =
     (if p = NULL \<or> its p = None then None
      else if p \<notin> set xs then Some (xs, its)
      else Some (remove1 p xs, its(p := None)))"

fun delete_lines :: "ptr list \<Rightarrow> 'i lines \<Rightarrow> 'i lines option" where
  "delete_lines [] its = Some its"
| "delete_lines (p # ps) its = (if p = NULL \<or> its p = None then None else delete_lines ps (its(p := None)))"

definition list_RemoveAll :: "ptr list \<Rightarrow> 'i lines \<Rightarrow> (ptr list \<times> 'i lines) option" where
  "list_RemoveAll xs its = do { its1 \<leftarrow> delete_lines xs its; Some ([], its1) }"

definition list_GetItemAt :: "int \<Rightarrow> ptr list \<Rightarrow> ptr" where
  "list_GetItemAt iIndex xs = (if iIndex < 0 \<or> iIndex \<ge> int (length xs) then NULL else xs ! nat iIndex)"

section \<open>The window\<close>

datatype edit_id = AgentPort | ServerPort | ServerIP

record edit =
  m_sText :: wide
  m_bOK :: bool
  m_bShowWaring :: bool
  m_bEnabled :: bool

record window =
  libuv :: adapter
  lines :: "MyListItem lines"
  next_line :: ptr
  mapping_list :: "ptr list"
  connect_list :: "ptr list"
  m_pCur_mapping :: ptr
  m_u_cur :: ptr
  btn_add :: bool
  edits :: "edit_id \<Rightarrow> edit"
  cmb_agent_ip :: wide
  cmb_protocol :: wide
  check_mapping :: bool
  check_connect :: bool
  left_visible :: bool
  connect_visible :: bool

definition GetInfo :: "ptr \<Rightarrow> window \<Rightarrow> ptr option" where
  "GetInfo p w = (if p = NULL then None else map_option m_pInfo (lines w p))"

definition upd_libuv :: "adapter \<Rightarrow> window \<Rightarrow> window" where
  "upd_libuv a w = w\<lparr>libuv := a\<rparr>"

text \<open>\<open>new CConnectListItem(c)\<close> and \<open>m_pConnect_List->Add\<close>, which runs \<open>DoInit\<close> of the line.\<close>

definition add_connect_line :: "alloc \<Rightarrow> (string \<Rightarrow> wide) \<Rightarrow> ptr \<Rightarrow> window \<Rightarrow> window option" where
  "add_connect_line alloc a2w c w =
     (let p = next_line w
      in do {
        a1 \<leftarrow> upd_c c (\<lambda>x. x\<lparr>cUserData := p\<rparr>) (libuv w);
        ci \<leftarrow> mem_c a1 c;
        mi \<leftarrow> (if pMapping ci = NULL then Some zero_mapping else mem_m a1 (pMapping ci));
        it \<leftarrow> connect_DoInit alloc a2w ci mi (new_item alloc c);
        Some (w\<lparr>libuv := a1, lines := (lines w)(p \<mapsto> it), next_line := p + 1, connect_list := connect_list w @ [p]\<rparr>)
      })"

definition clear_connect_list :: "window \<Rightarrow> window option" where
  "clear_connect_list w = do {
     (xs, its) \<leftarrow> list_RemoveAll (connect_list w) (lines w);
     Some (w\<lparr>connect_list := xs, lines := its\<rparr>)
   }"

section \<open>Messages of the adapter\<close>

definition DealWithConnectMsg :: "alloc \<Rightarrow> (string \<Rightarrow> wide) \<Rightarrow> connect_msg \<Rightarrow> ptr \<Rightarrow> window \<Rightarrow> window option" where
  "DealWithConnectMsg alloc a2w msg c w =
     (if m_pCur_mapping w = NULL then Some w
      else do {
        ci \<leftarrow> mem_c (libuv w) c;
        m \<leftarrow> GetInfo (m_pCur_mapping w) w;
        if msg = MSG_ADD_CONNECT \<or> msg = MSG_CONNECT_STATE_CHANGE then
          (if pMapping ci = m \<and> bInMap ci = IN_MAP_SUCC then do {
             w1 \<leftarrow> add_connect_line alloc a2w c w;
             Some (w1\<lparr>connect_visible := True\<rparr>)
           } else Some w)
        else if pMapping ci = m then do {
          (xs, its) \<leftarrow> list_Remove (cUserData ci) (connect_list w) (lines w);
          a1 \<leftarrow> upd_c c (\<lambda>x. x\<lparr>cUserData := NULL\<rparr>) (libuv w);
          Some (w\<lparr>connect_list := xs, lines := its, libuv := a1\<rparr>)
        } else Some w
      })"

text \<open>A mapping line brought up to date from the mapping it shows.\<close>

definition update_mapping_line :: "bool \<Rightarrow> ptr \<Rightarrow> window \<Rightarrow> window option" where
  "update_mapping_line bforce p w = do {
     it \<leftarrow> lines w p;
     mi \<leftarrow> (if m_pInfo it = NULL then Some zero_mapping else mem_m (libuv w) (m_pInfo it));
     it1 \<leftarrow> mapping_Updata bforce mi it;
     Some (w\<lparr>lines := (lines w)(p \<mapsto> it1)\<rparr>)
   }"

definition DealWithMappingMsg :: "mapping_msg \<Rightarrow> ptr \<Rightarrow> window \<Rightarrow> window option" where
  "DealWithMappingMsg msg m w =
     (if m = NULL then Some w
      else do {
        cur \<leftarrow> (if m_pCur_mapping w = NULL then Some False
                else map_option (\<lambda>i. i = m) (GetInfo (m_pCur_mapping w) w));
        w1 \<leftarrow> (if cur then clear_connect_list w else Some w);
        if msg = MSG_REMOVE_MAPPING then
          (let w2 = (if cur then w1\<lparr>m_pCur_mapping := NULL\<rparr> else w1)
           in do {
             mi \<leftarrow> mem_m (libuv w2) m;
             if pUserData mi = NULL then Some w2
             else do {
               (xs, its) \<leftarrow> list_Remove (pUserData mi) (mapping_list w2) (lines w2);
               a1 \<leftarrow> upd_m m (\<lambda>x. x\<lparr>pUserData := NULL\<rparr>) (libuv w2);
               Some (w2\<lparr>mapping_list := xs, lines := its, libuv := a1\<rparr>)
             }
           })
        else if msg = MSG_LISTEN_FAIL \<or> msg = MSG_MAPPING_STOP then do {
          mi \<leftarrow> mem_m (libuv w1) m;
          if pUserData mi = NULL then Some w1 else update_mapping_line True (pUserData mi) w1
        }
        else Some w1
      })"

text \<open>The loop over the connections of \<open>USER_ALLCONNECT_MSG\<close>: \<open>n\<close> turns, \<open>cs\<close> from where \<open>pInfo\<close>
  points. It moves on only past a connection it has shown.\<close>

fun show_connects :: "alloc \<Rightarrow> (string \<Rightarrow> wide) \<Rightarrow> nat \<Rightarrow> ptr list \<Rightarrow> window \<Rightarrow> window option" where
  "show_connects alloc a2w 0 cs w = Some w"
| "show_connects alloc a2w (Suc n) cs w =
     (case cs of
        [] \<Rightarrow> None
      | c # cs' \<Rightarrow> do {
          ci \<leftarrow> mem_c (libuv w) c;
          if bInMap ci \<noteq> IN_MAP_SUCC then show_connects alloc a2w n cs w
          else do { w1 \<leftarrow> add_connect_line alloc a2w c w; show_connects alloc a2w n cs' w1 }
        })"

definition DealWithAllConnects :: "alloc \<Rightarrow> (string \<Rightarrow> wide) \<Rightarrow> ptr list \<Rightarrow> window \<Rightarrow> window option" where
  "DealWithAllConnects alloc a2w cs w =
     (if cs = [] \<or> m_pCur_mapping w = NULL then Some w
      else do {
        ci \<leftarrow> mem_c (libuv w) (hd cs);
        m \<leftarrow> GetInfo (m_pCur_mapping w) w;
        if pMapping ci \<noteq> m then Some w
        else do {
          w1 \<leftarrow> show_connects alloc a2w (length cs) cs w;
          Some (w1\<lparr>connect_visible := True\<rparr>)
        }
      })"

text \<open>\<open>HandleCustomMessage\<close>, to which the three functions of \<open>INotifyLoop\<close> send the notices of the
  adapter and wait.\<close>

fun handle_notice :: "alloc \<Rightarrow> (string \<Rightarrow> wide) \<Rightarrow> notice \<Rightarrow> window \<Rightarrow> window option" where
  "handle_notice alloc a2w (ConnectNote _ msg c) w = DealWithConnectMsg alloc a2w msg c w"
| "handle_notice alloc a2w (MappingNote _ msg m) w = DealWithMappingMsg msg m w"
| "handle_notice alloc a2w (AllConnects _ cs) w = DealWithAllConnects alloc a2w cs w"

section \<open>The timer\<close>

fun update_mapping_lines :: "ptr list \<Rightarrow> window \<Rightarrow> window option" where
  "update_mapping_lines [] w = Some w"
| "update_mapping_lines (p # ps) w = do { w1 \<leftarrow> update_mapping_line False p w; update_mapping_lines ps w1 }"

definition update_connect_line :: "ptr \<Rightarrow> window \<Rightarrow> window option" where
  "update_connect_line p w = do {
     it \<leftarrow> lines w p;
     ci \<leftarrow> (if m_pInfo it = NULL then Some zero_connect else mem_c (libuv w) (m_pInfo it));
     it1 \<leftarrow> connect_Updata ci it;
     Some (w\<lparr>lines := (lines w)(p \<mapsto> it1)\<rparr>)
   }"

fun update_connect_lines :: "ptr list \<Rightarrow> window \<Rightarrow> window option" where
  "update_connect_lines [] w = Some w"
| "update_connect_lines (p # ps) w = do { w1 \<leftarrow> update_connect_line p w; update_connect_lines ps w1 }"

definition UpDataList :: "window \<Rightarrow> window option" where
  "UpDataList w = do {
     w1 \<leftarrow> update_mapping_lines (mapping_list w) w;
     update_connect_lines (connect_list w1) w1
   }"

section \<open>Checks of lines\<close>

text \<open>Either check box of the headers sets the checks of the lines of its list.\<close>

fun check_lines :: "bool \<Rightarrow> ptr list \<Rightarrow> MyListItem lines \<Rightarrow> MyListItem lines option" where
  "check_lines b [] its = Some its"
| "check_lines b (p # ps) its = do { it \<leftarrow> its p; check_lines b ps (its(p \<mapsto> SetCheck b it)) }"

definition CheckNotify :: "bool \<Rightarrow> window \<Rightarrow> window option" where
  "CheckNotify of_mappings w =
     (if of_mappings
      then map_option (\<lambda>its. w\<lparr>lines := its\<rparr>) (check_lines (check_mapping w) (mapping_list w) (lines w))
      else map_option (\<lambda>its. w\<lparr>lines := its\<rparr>) (check_lines (check_connect w) (connect_list w) (lines w)))"

fun AnlySelect :: "MyListItem lines \<Rightarrow> ptr list \<Rightarrow> bool option" where
  "AnlySelect its [] = Some False"
| "AnlySelect its (p # ps) = do { it \<leftarrow> its p; if GetCheck it then Some True else AnlySelect its ps }"

section \<open>Operations on mappings and connections\<close>

type_synonym adapter_op = "ptr \<Rightarrow> adapter \<Rightarrow> (bool \<times> adapter) option"

fun operate_checked :: "adapter_op \<Rightarrow> ptr list \<Rightarrow> window \<Rightarrow> window option" where
  "operate_checked fop [] w = Some w"
| "operate_checked fop (p # ps) w = do {
     it \<leftarrow> lines w p;
     if \<not> GetCheck it then operate_checked fop ps w
     else do { (_, a) \<leftarrow> fop (m_pInfo it) (libuv w); operate_checked fop ps (upd_libuv a w) }
   }"

definition MappingOperate :: "adapter_op \<Rightarrow> bool \<Rightarrow> window \<Rightarrow> (bool \<times> window) option" where
  "MappingOperate fop bAllSelect w =
     (if \<not> bAllSelect then
        (if m_u_cur w = NULL then Some (False, w)
         else do {
           m \<leftarrow> GetInfo (m_u_cur w) w;
           (r, a) \<leftarrow> fop m (libuv w);
           Some (r, upd_libuv a w)
         })
      else do { w1 \<leftarrow> operate_checked fop (mapping_list w) w; Some (True, w1) })"

definition DeleteConnect :: "ptr \<Rightarrow> bool \<Rightarrow> bool \<Rightarrow> window \<Rightarrow> window option" where
  "DeleteConnect loop thread_created bAllSelect w =
     (if \<not> bAllSelect then
        (if m_u_cur w = NULL then Some w
         else do {
           c \<leftarrow> GetInfo (m_u_cur w) w;
           (_, a) \<leftarrow> RemoveConnect_async loop thread_created c (libuv w);
           Some (upd_libuv a w)
         })
      else operate_checked (RemoveConnect_async loop thread_created) (connect_list w) w)"

text \<open>The entries of the two menus by their names.\<close>

datatype menu_item = Start | Stop | Delete | Delete2 | StartSel | StopSel | DeleteSel | DeleteSel2

definition OnMenuItemInit :: "menu_item \<Rightarrow> window \<Rightarrow> bool option" where
  "OnMenuItemInit name w =
     (if m_u_cur w = NULL then Some True
      else
        (let state = (do { m \<leftarrow> GetInfo (m_u_cur w) w; mi \<leftarrow> mem_m (libuv w) m; Some (nState mi) })
         in case name of
              Start \<Rightarrow> map_option (\<lambda>s. s AND (MAPPING_START OR MAPPING_DELETING) = 0) state
            | Stop \<Rightarrow> map_option (\<lambda>s. s AND (MAPPING_START OR MAPPING_DELETING) \<noteq> 0) state
            | Delete \<Rightarrow> map_option (\<lambda>s. s AND MAPPING_DELETING = 0) state
            | Delete2 \<Rightarrow> do { c \<leftarrow> GetInfo (m_u_cur w) w; ci \<leftarrow> mem_c (libuv w) c; Some (\<not> bDeleting ci) }
            | StartSel \<Rightarrow> AnlySelect (lines w) (mapping_list w)
            | StopSel \<Rightarrow> AnlySelect (lines w) (mapping_list w)
            | DeleteSel \<Rightarrow> AnlySelect (lines w) (mapping_list w)
            | DeleteSel2 \<Rightarrow> AnlySelect (lines w) (connect_list w)))"

definition OnMenuItemClick :: "ptr \<Rightarrow> bool \<Rightarrow> menu_item \<Rightarrow> window \<Rightarrow> window option" where
  "OnMenuItemClick loop thread_created name w =
     (if m_u_cur w = NULL then Some w
      else case name of
        Start \<Rightarrow> map_option snd (MappingOperate (StartMapping loop thread_created) False w)
      | Stop \<Rightarrow> map_option snd (MappingOperate (StopMapping loop thread_created) False w)
      | Delete \<Rightarrow> map_option snd (MappingOperate (RemoveMapping loop thread_created) False w)
      | Delete2 \<Rightarrow> DeleteConnect loop thread_created False w
      | StartSel \<Rightarrow> map_option snd (MappingOperate (StartMapping loop thread_created) True w)
      | StopSel \<Rightarrow> map_option snd (MappingOperate (StopMapping loop thread_created) True w)
      | DeleteSel \<Rightarrow> map_option snd (MappingOperate (RemoveMapping loop thread_created) True w)
      | DeleteSel2 \<Rightarrow> DeleteConnect loop thread_created True w)"

text \<open>The context menu of a list at its line \<open>n\<close> (\<open>wParam\<close>, counted from 1) outside of the header.\<close>

definition ListNotify :: "bool \<Rightarrow> int \<Rightarrow> window \<Rightarrow> window" where
  "ListNotify of_mappings n w =
     (if n < 1 then w
      else w\<lparr>m_u_cur := list_GetItemAt (n - 1) (if of_mappings then mapping_list w else connect_list w)\<rparr>)"

definition UpDataConnectList :: "ptr \<Rightarrow> bool \<Rightarrow> ptr \<Rightarrow> window \<Rightarrow> window option" where
  "UpDataConnectList loop thread_created p w =
     (let w1 = w\<lparr>m_pCur_mapping := p\<rparr>
      in do {
        m \<leftarrow> GetInfo p w1;
        mi \<leftarrow> mem_m (libuv w1) m;
        if nState mi AND MAPPING_START = 0 then Some w1
        else do {
          w2 \<leftarrow> clear_connect_list w1;
          (_, a) \<leftarrow> GetAllConnect loop thread_created m (libuv w2);
          Some (upd_libuv a w2)
        }
      })"

text \<open>A click on a text of the mapping line \<open>p\<close> (\<open>n\<close> is the column, \<open>-1\<close> outside of the texts that
  can be clicked).\<close>

definition ListItemNotify :: "ptr \<Rightarrow> bool \<Rightarrow> ptr \<Rightarrow> int \<Rightarrow> window \<Rightarrow> window option" where
  "ListItemNotify loop thread_created p n w =
     (if n = - 1 then Some w
      else
        (let w1 = w\<lparr>connect_visible := True\<rparr>
         in if m_pCur_mapping w1 \<noteq> p then UpDataConnectList loop thread_created p w1 else Some w1))"

text \<open>The message box is the error number that is returned.\<close>

definition OnAddClick :: "alloc \<Rightarrow> (wide \<Rightarrow> string) \<Rightarrow> window \<Rightarrow> (int \<times> window) option" where
  "OnAddClick alloc w2a w =
     (let strAgentIP = cmb_agent_ip w;
          strServerIP = m_sText (edits w ServerIP);
          strAgentPort = m_sText (edits w AgentPort);
          strServerPort = m_sText (edits w ServerPort);
          bTcp = (cmb_protocol w = wide_of ''TCP'');
          ((m, nerr), a) = AddMapping w2a strAgentIP strAgentPort strServerIP strServerPort bTcp (libuv w)
      in if nerr \<noteq> 0 then Some (nerr, upd_libuv a w)
         else
           (let p = next_line w
            in do {
              a1 \<leftarrow> upd_m m (\<lambda>x. x\<lparr>pUserData := p\<rparr>) a;
              mi \<leftarrow> mem_m a1 m;
              it \<leftarrow> InitStringList alloc strAgentIP strAgentPort strServerIP strServerPort (new_item alloc m);
              it1 \<leftarrow> mapping_DoInit alloc mi it;
              Some (nerr, w\<lparr>libuv := a1, lines := (lines w)(p \<mapsto> it1), next_line := p + 1,
                mapping_list := mapping_list w @ [p]\<rparr>)
            }))"

section \<open>The fields of the form\<close>

definition CheckAllInfo :: "window \<Rightarrow> bool" where
  "CheckAllInfo w \<longleftrightarrow> m_bOK (edits w ServerPort) \<and> m_bOK (edits w AgentPort) \<and> m_bOK (edits w ServerIP)"

definition CheckPort :: "wide \<Rightarrow> window \<Rightarrow> bool \<times> window" where
  "CheckPort content w =
     (if \<exists>c \<in> set content. c < 48 \<or> c > 57 then (False, w\<lparr>btn_add := False\<rparr>)
      else
        (let nport = wtoi content
         in if nport < 1 \<or> nport > 65535 then (False, w\<lparr>btn_add := False\<rparr>)
            else (True, w\<lparr>btn_add := CheckAllInfo w\<rparr>)))"

text \<open>The regular expressions of \<open>std::wregex\<close> that the code uses; \<open>matches r s\<close> are the rests of \<open>s\<close>
  after a match of \<open>r\<close> at its start, in the order of the search.\<close>

datatype regex = Chr u16 | Range u16 u16 | Seq regex regex | Alt regex regex | Opt regex
  | Rep nat regex | AtEnd | NotAhead regex

fun matches :: "regex \<Rightarrow> wide \<Rightarrow> wide list" where
  "matches (Chr c) s = (case s of [] \<Rightarrow> [] | x # xs \<Rightarrow> if x = c then [xs] else [])"
| "matches (Range a b) s = (case s of [] \<Rightarrow> [] | x # xs \<Rightarrow> if a \<le> x \<and> x \<le> b then [xs] else [])"
| "matches (Seq r t) s = concat (map (matches t) (matches r s))"
| "matches (Alt r t) s = matches r s @ matches t s"
| "matches (Opt r) s = matches r s @ [s]"
| "matches (Rep n r) s = ((\<lambda>xs. concat (map (matches r) xs)) ^^ n) [s]"
| "matches AtEnd s = (if s = [] then [s] else [])"
| "matches (NotAhead r) s = (if matches r s = [] then [s] else [])"

definition regex_match :: "regex \<Rightarrow> wide \<Rightarrow> bool" where
  "regex_match r s \<longleftrightarrow> [] \<in> set (matches r s)"

text \<open>\<open>^((25[0-5]|2[0-4]\d|[01]?\d\d?)($|(?!\.$)\.)){4}$\<close>\<close>

definition octet_regex :: regex where
  "octet_regex =
     Alt (Seq (Chr 50) (Seq (Chr 53) (Range 48 53)))
     (Alt (Seq (Chr 50) (Seq (Range 48 52) (Range 48 57)))
          (Seq (Opt (Range 48 49)) (Seq (Range 48 57) (Opt (Range 48 57)))))"

definition m_pregex_IP :: regex where
  "m_pregex_IP =
     Seq (Rep 4 (Seq octet_regex (Alt AtEnd (Seq (NotAhead (Seq (Chr 46) AtEnd)) (Chr 46))))) AtEnd"

definition CheckIP :: "wide \<Rightarrow> window \<Rightarrow> bool \<times> window" where
  "CheckIP content w =
     (if \<not> regex_match m_pregex_IP content then (False, w\<lparr>btn_add := False\<rparr>)
      else (True, w\<lparr>btn_add := CheckAllInfo w\<rparr>))"

text \<open>\<open>CEditUIEx\<close>: \<open>OnCheck\<close> of each field, and the two ways its text changes, by the program and by
  the user.\<close>

fun CheckContent :: "edit_id \<Rightarrow> wide \<Rightarrow> window \<Rightarrow> bool \<times> window" where
  "CheckContent ServerIP s w = CheckIP s w"
| "CheckContent _ s w = CheckPort s w"

definition upd_edit :: "edit_id \<Rightarrow> (edit \<Rightarrow> edit) \<Rightarrow> window \<Rightarrow> window" where
  "upd_edit e f w = w\<lparr>edits := (edits w)(e := f (edits w e))\<rparr>"

definition edit_SetText :: "edit_id \<Rightarrow> wide \<Rightarrow> window \<Rightarrow> window" where
  "edit_SetText e s w =
     (let w1 = upd_edit e (\<lambda>x. x\<lparr>m_sText := s\<rparr>) w
      in if m_bEnabled (edits w1 e) \<and> m_bShowWaring (edits w1 e)
         then (let (ok, w2) = CheckContent e s w1 in upd_edit e (\<lambda>x. x\<lparr>m_bOK := ok\<rparr>) w2)
         else w1)"

definition OnEditChanged :: "edit_id \<Rightarrow> wide \<Rightarrow> window \<Rightarrow> window" where
  "OnEditChanged e s w =
     (let w1 = upd_edit e (\<lambda>x. x\<lparr>m_sText := s\<rparr>) w;
          (ok, w2) = CheckContent e s w1
      in if m_bOK (edits w2 e) \<noteq> ok then upd_edit e (\<lambda>x. x\<lparr>m_bOK := ok\<rparr>) w2 else w2)"

section \<open>Buttons\<close>

datatype button = LeftHide | BottomHide | AddButton

definition ButtonNotify :: "alloc \<Rightarrow> (wide \<Rightarrow> string) \<Rightarrow> button \<Rightarrow> window \<Rightarrow> window option" where
  "ButtonNotify alloc w2a b w =
     (case b of
        LeftHide \<Rightarrow> Some (w\<lparr>left_visible := \<not> left_visible w\<rparr>)
      | BottomHide \<Rightarrow> Some (w\<lparr>connect_visible := \<not> connect_visible w\<rparr>)
      | AddButton \<Rightarrow> map_option snd (OnAddClick alloc w2a w))"

end
