(* ===== verification/Pm_Form.thy ===== *)
theory Pm_Form
  imports Pm_Window Pm_Props Uv_Inet_Roundtrip
begin

text \<open>
  The form of the window against the code that uses its contents: which ports and addresses the
  checks of \<open>PortMapping/MainDlg.cpp\<close> accept, what \<open>AddMapping\<close> and the parser of libuv make of them,
  and when the button that adds a mapping can be pressed.
\<close>

section \<open>Decimal numbers\<close>

definition is_digit :: "u16 \<Rightarrow> bool" where
  "is_digit c \<longleftrightarrow> 48 \<le> c \<and> c \<le> 57"

definition dec :: "wide \<Rightarrow> nat" where
  "dec s = foldl (\<lambda>n c. 10 * n + (unat c - 48)) 0 s"

lemma is_digit_unat: "is_digit c \<longleftrightarrow> 48 \<le> unat c \<and> unat c \<le> 57"
  by (simp add: is_digit_def word_le_nat_alt)

lemma wide_digit_is_digit: "wide_digit c = is_digit c"
  by (simp add: wide_digit_def is_digit_def)

lemma foldl_dec:
  "\<forall>c \<in> set s. is_digit c \<Longrightarrow> foldl (\<lambda>v c. 10 * v + (uint c - 48)) (int n) s = int (foldl (\<lambda>n c. 10 * n + (unat c - 48)) n s)"
proof (induction s arbitrary: n)
  case (Cons c s)
  have "48 \<le> unat c" using Cons.prems by (simp add: is_digit_unat)
  then have "int (unat c - 48) = uint c - 48" by (simp add: of_nat_diff)
  then have "10 * int n + (uint c - 48) = int (10 * n + (unat c - 48))" by linarith
  then show ?case using Cons.IH[of "10 * n + (unat c - 48)"] Cons.prems by (simp only: foldl_Cons list.set_intros(2) ball_simps) simp
qed simp

text \<open>\<open>_wtoi\<close> of a text of digits is its value, cut to the greatest \<open>int\<close>.\<close>

lemma wtoi_digits:
  assumes "\<forall>c \<in> set s. is_digit c"
  shows "wtoi s = min 2147483647 (int (dec s))"
proof -
  have sp: "\<not> wide_space c" if "is_digit c" for c
    using that unfolding wide_space_def is_digit_def by (auto simp: word_le_nat_alt) 
  have dw: "dropWhile wide_space s = s" using assms sp by (cases s) auto
  have t: "(take 1 s = [45]) = False" "(take 1 s = [43]) = False" using assms by (cases s; auto simp: is_digit_def)+
  have tw: "takeWhile wide_digit s = s" using assms by (simp add: wide_digit_is_digit takeWhile_eq_all_conv)
  have "foldl (\<lambda>v c. 10 * v + (uint c - 48)) 0 s = int (dec s)"
    using foldl_dec[OF assms, of 0] by (simp add: dec_def)
  then show ?thesis unfolding wtoi_def Let_def dw t tw by (simp add: tw)
qed

section \<open>Ports\<close>

definition valid_port :: "wide \<Rightarrow> bool" where
  "valid_port s \<longleftrightarrow> (\<forall>c \<in> set s. is_digit c) \<and> 1 \<le> dec s \<and> dec s \<le> 65535"

lemma CheckPort_valid:
  "CheckPort s w = (if valid_port s then (True, w\<lparr>btn_add := CheckAllInfo w\<rparr>) else (False, w\<lparr>btn_add := False\<rparr>))"
proof (cases "\<forall>c \<in> set s. is_digit c")
  case True
  then have "\<not> (\<exists>c \<in> set s. c < 48 \<or> c > 57)" by (auto simp: is_digit_def)
  then show ?thesis using True wtoi_digits[OF True] by (auto simp: CheckPort_def valid_port_def Let_def min_def)
next
  case False
  then have "\<exists>c \<in> set s. c < 48 \<or> c > 57" by (auto simp: is_digit_def not_le)
  then show ?thesis using False by (auto simp: CheckPort_def valid_port_def)
qed

lemma valid_port_number: "valid_port s \<Longrightarrow> word_of_int (wtoi s) = (of_nat (dec s) :: u16) \<and> unat (of_nat (dec s) :: u16) = dec s"
  by (simp add: valid_port_def wtoi_digits unat_of_nat take_bit_nat_eq_self)

lemma map_find_put_same: "map_find k (map_put k v m) = Some v"
  by (induction k v m rule: map_put.induct) (auto simp: map_find_def)

text \<open>
  C34: the form accepts as a port exactly the texts of digits whose value is between 1 and 65535,
  leading zeros included, and a mapping that is then added is found under just that port: nothing is
  cut off when \<open>AddMapping\<close> reads the text again.
\<close>

theorem port_check_exact:
  "fst (CheckPort s w) = valid_port s \<and>
   (fst (CheckPort s w) \<longrightarrow> AddMapping w2a ip s sip sport tcp a = ((m, 0), a') \<longrightarrow>
      unat (of_nat (dec s) :: u16) = dec s \<and> map_find (of_nat (dec s)) (m_mapMapping a') = Some m)"
proof (intro conjI impI)
  show v: "fst (CheckPort s w) = valid_port s" by (simp add: CheckPort_valid)
  assume p: "fst (CheckPort s w)" and add: "AddMapping w2a ip s sip sport tcp a = ((m, 0), a')"
  note n = valid_port_number[OF p[unfolded v]]
  show "unat (of_nat (dec s) :: u16) = dec s" using n by blast
  show "map_find (of_nat (dec s)) (m_mapMapping a') = Some m"
    using add n by (auto simp: AddMapping_def Let_def map_find_put_same split: if_splits)
qed

text \<open>The window at its start, with a valid form, and a conversion that keeps ASCII texts.\<close>

definition ascii :: "wide \<Rightarrow> string" where
  "ascii s = map (\<lambda>c. char_of (unat c)) s"

definition ascii_only :: "wide \<Rightarrow> string" where
  "ascii_only s = (if \<forall>c \<in> set s. unat c < 128 then ascii s else [])"

definition form_window :: window where
  "form_window = \<lparr>libuv = new_adapter, lines = (\<lambda>_. None), next_line = 1, mapping_list = [], connect_list = [],
    m_pCur_mapping = NULL, m_u_cur = NULL, btn_add = True,
    edits = (\<lambda>_. \<lparr>m_sText = [], m_bOK = True, m_bShowWaring = True, m_bEnabled = True\<rparr>),
    cmb_agent_ip = wide_of ''192.168.1.2'', cmb_protocol = wide_of ''TCP'', check_mapping = False, check_connect = False,
    left_visible = True, connect_visible = False\<rparr>"

lemma port_check_exact_witness:
  "\<exists>m a'. AddMapping ascii_only (wide_of ''127.0.0.1'') (wide_of ''0080'') (wide_of ''10.0.0.1'') (wide_of ''8080'') True new_adapter = ((m, 0), a') \<and>
     map_find 80 (m_mapMapping a') = Some m"
proof -
  let ?r = "AddMapping ascii_only (wide_of ''127.0.0.1'') (wide_of ''0080'') (wide_of ''10.0.0.1'') (wide_of ''8080'') True new_adapter"
  have d: "dec (wide_of ''0080'') = 80" "fst (CheckPort (wide_of ''0080'') form_window)" by code_simp+
  have "snd (fst ?r) = 0" by code_simp
  then have r: "?r = ((fst (fst ?r), 0), snd ?r)" by (simp add: prod_eq_iff)
  have "map_find (of_nat (dec (wide_of ''0080''))) (m_mapMapping (snd ?r)) = Some (fst (fst ?r))"
    using port_check_exact[of "wide_of ''0080''" form_window] d(2) r by metis
  then show ?thesis using r d(1) by (metis of_nat_numeral)
qed

section \<open>Addresses\<close>

text \<open>What the expression accepts between the dots.\<close>

definition octet :: "wide \<Rightarrow> bool" where
  "octet q \<longleftrightarrow> 1 \<le> length q \<and> length q \<le> 3 \<and> (\<forall>c \<in> set q. is_digit c) \<and> dec q \<le> 255"

fun dotted :: "wide list \<Rightarrow> wide" where
  "dotted [] = []"
| "dotted [q] = q"
| "dotted (q # qs) = q @ 46 # dotted qs"

lemma octet_cases:
  "octet q \<longleftrightarrow> (\<exists>x. q = [x] \<and> is_digit x) \<or> (\<exists>x y. q = [x, y] \<and> is_digit x \<and> is_digit y) \<or>
    (\<exists>x y z. q = [x, y, z] \<and> is_digit x \<and> is_digit y \<and> is_digit z \<and> dec [x, y, z] \<le> 255)"
proof -
  have "dec [x] \<le> 255" if "is_digit x" for x using that by (simp add: dec_def is_digit_unat) linarith
  moreover have "dec [x, y] \<le> 255" if "is_digit x" "is_digit y" for x y
    using that by (simp add: dec_def is_digit_unat) linarith
  moreover have "1 \<le> length q \<and> length q \<le> 3 \<longleftrightarrow> (\<exists>x. q = [x]) \<or> (\<exists>x y. q = [x, y]) \<or> (\<exists>x y z. q = [x, y, z])"
    by (auto simp: Suc_le_eq le_Suc_eq length_Suc_conv eval_nat_numeral)
  ultimately show ?thesis unfolding octet_def by auto
qed

lemma regex_branches:
  "r \<in> set (matches (Seq (Chr 50) (Seq (Chr 53) (Range 48 53))) s) \<longleftrightarrow> (\<exists>z. s = 50 # 53 # z # r \<and> 48 \<le> z \<and> z \<le> 53)"
  "r \<in> set (matches (Seq (Chr 50) (Seq (Range 48 52) (Range 48 57))) s) \<longleftrightarrow>
    (\<exists>y z. s = 50 # y # z # r \<and> 48 \<le> y \<and> y \<le> 52 \<and> is_digit z)"
  "r \<in> set (matches (Seq (Opt (Range 48 49)) (Seq (Range 48 57) (Opt (Range 48 57)))) s) \<longleftrightarrow>
    (\<exists>y. s = y # r \<and> is_digit y) \<or> (\<exists>y z. s = y # z # r \<and> is_digit y \<and> is_digit z) \<or>
    (\<exists>x y. s = x # y # r \<and> 48 \<le> x \<and> x \<le> 49 \<and> is_digit y) \<or>
    (\<exists>x y z. s = x # y # z # r \<and> 48 \<le> x \<and> x \<le> 49 \<and> is_digit y \<and> is_digit z)"
  by (auto simp: is_digit_def split: list.splits if_splits)

lemma octet_matches: "r \<in> set (matches octet_regex s) \<longleftrightarrow> (\<exists>q. octet q \<and> s = q @ r)"
proof -
  have small: "is_digit x" if "48 \<le> x" "x \<le> 49" for x using that by (simp add: is_digit_unat word_le_nat_alt)
  have three: "is_digit x \<and> is_digit y \<and> is_digit z \<and> dec [x, y, z] \<le> 255 \<longleftrightarrow>
      x = 50 \<and> y = 53 \<and> 48 \<le> z \<and> z \<le> 53 \<or> x = 50 \<and> 48 \<le> y \<and> y \<le> 52 \<and> is_digit z \<or>
      48 \<le> x \<and> x \<le> 49 \<and> is_digit y \<and> is_digit z" for x y z
    unfolding is_digit_unat dec_def word_le_nat_alt word_unat_eq_iff by simp linarith
  show ?thesis
    unfolding octet_cases octet_regex_def matches.simps(4) set_append Un_iff regex_branches
    using small three by (auto simp del: matches.simps)
qed

definition group_regex :: regex where
  "group_regex = Seq octet_regex (Alt AtEnd (Seq (NotAhead (Seq (Chr 46) AtEnd)) (Chr 46)))"

lemma group_matches:
  "r \<in> set (matches group_regex s) \<longleftrightarrow> (\<exists>q. octet q \<and> (s = q \<and> r = [] \<or> s = q @ 46 # r \<and> r \<noteq> []))"
proof -
  have tail: "r \<in> set (matches (Alt AtEnd (Seq (NotAhead (Seq (Chr 46) AtEnd)) (Chr 46))) t) \<longleftrightarrow>
      t = [] \<and> r = [] \<or> t = 46 # r \<and> r \<noteq> []" for t
    by (auto split: list.splits if_splits)
  have "r \<in> set (matches group_regex s) \<longleftrightarrow> (\<exists>t. t \<in> set (matches octet_regex s) \<and>
      r \<in> set (matches (Alt AtEnd (Seq (NotAhead (Seq (Chr 46) AtEnd)) (Chr 46))) t))"
    unfolding group_regex_def matches.simps(3) by auto
  then show ?thesis unfolding tail octet_matches by auto
qed

lemma group_not_end: "r \<notin> set (matches group_regex [])"
  unfolding group_matches by (auto simp: octet_def)

lemma ip_regex_matches:
  "regex_match m_pregex_IP s \<longleftrightarrow> (\<exists>q1 q2 q3 q4. octet q1 \<and> octet q2 \<and> octet q3 \<and> octet q4 \<and> s = dotted [q1, q2, q3, q4])"
proof -
  have four: "t \<in> set (matches (Rep 4 r) s) \<longleftrightarrow> (\<exists>s1 s2 s3. s1 \<in> set (matches r s) \<and> s2 \<in> set (matches r s1) \<and>
      s3 \<in> set (matches r s2) \<and> t \<in> set (matches r s3))" for r t
    by (simp add: eval_nat_numeral) blast
  have "regex_match m_pregex_IP s \<longleftrightarrow> [] \<in> set (matches (Rep 4 group_regex) s)"
    unfolding regex_match_def m_pregex_IP_def group_regex_def[symmetric] matches.simps(3)
    by (auto simp del: matches.simps(6))
  also have "\<dots> \<longleftrightarrow> (\<exists>s1 s2 s3. s1 \<in> set (matches group_regex s) \<and> s2 \<in> set (matches group_regex s1) \<and>
      s3 \<in> set (matches group_regex s2) \<and> [] \<in> set (matches group_regex s3))" by (rule four)
  also have "\<dots> \<longleftrightarrow> (\<exists>s1 s2 s3 q1 q2 q3. octet q1 \<and> octet q2 \<and> octet q3 \<and> octet s3 \<and> s = q1 @ 46 # s1 \<and> s1 = q2 @ 46 # s2 \<and> s2 = q3 @ 46 # s3)"
  proof -
    have ne: "x \<noteq> []" if "r \<in> set (matches group_regex x)" for r x using that group_not_end by metis
    have step: "r \<in> set (matches group_regex x) \<longleftrightarrow> (\<exists>q. octet q \<and> x = q @ 46 # r)" if "r \<noteq> []" for r x
      unfolding group_matches using that by blast
    have last: "[] \<in> set (matches group_regex x) \<longleftrightarrow> octet x" for x unfolding group_matches by blast
    have oct: "x \<noteq> []" if "octet x" for x using that by (auto simp: octet_def)
    have "s1 \<in> set (matches group_regex s) \<and> s2 \<in> set (matches group_regex s1) \<and>
        s3 \<in> set (matches group_regex s2) \<and> [] \<in> set (matches group_regex s3) \<longleftrightarrow>
        (\<exists>q1. octet q1 \<and> s = q1 @ 46 # s1) \<and> (\<exists>q2. octet q2 \<and> s1 = q2 @ 46 # s2) \<and>
        (\<exists>q3. octet q3 \<and> s2 = q3 @ 46 # s3) \<and> octet s3" (is "?l \<longleftrightarrow> ?r") for s1 s2 s3
    proof
      assume h: ?l
      then have n: "s1 \<noteq> []" "s2 \<noteq> []" "s3 \<noteq> []" using ne by blast+
      show ?r using h unfolding step[OF n(1)] step[OF n(2)] step[OF n(3)] last .
    next
      assume h: ?r
      then have n: "s1 \<noteq> []" "s2 \<noteq> []" "s3 \<noteq> []" using oct by auto
      show ?l using h unfolding step[OF n(1)] step[OF n(2)] step[OF n(3)] last .
    qed
    then show ?thesis by blast
  qed
  also have "\<dots> \<longleftrightarrow> (\<exists>q1 q2 q3 q4. octet q1 \<and> octet q2 \<and> octet q3 \<and> octet q4 \<and> s = dotted [q1, q2, q3, q4])"
    by (simp, blast)
  finally show ?thesis .
qed


section \<open>The parser of libuv on the texts of the form\<close>

definition leading_zero :: "wide \<Rightarrow> bool" where
  "leading_zero q \<longleftrightarrow> 1 < length q \<and> hd q = 48"

lemma ascii_append [simp]: "ascii (s @ t) = ascii s @ ascii t"
  by (simp add: ascii_def)

lemma char_of_digit:
  assumes "is_digit c"
  shows "\<exists>d<10. char_of (unat c) = digit_char d \<and> unat c = 48 + d"
proof -
  have "\<forall>d \<in> set [0..<10]. char_of (48 + d) = digit_char d" by code_simp
  then have c: "char_of (48 + d) = digit_char d" if "d < 10" for d using that by simp
  have u: "unat c - 48 < 10" "48 + (unat c - 48) = unat c" using assms unfolding is_digit_unat by linarith+
  then show ?thesis using c[OF u(1)] by metis
qed

lemma pton4_zero_digit: "d < 10 \<Longrightarrow> pton4_loop (digit_char d # r) True k (t @ [0]) = Inl EINVAL"
  by simp

lemma pton4_ascii_octet:
  assumes "octet q" "k < 4"
  shows "pton4_loop (ascii q @ r) False k (t @ [0]) =
    (if leading_zero q then Inl EINVAL else pton4_loop r True (Suc k) (t @ [of_nat (dec q)]))"
proof -
  consider (one) x where "q = [x]" "is_digit x" | (two) x y where "q = [x, y]" "is_digit x" "is_digit y"
    | (three) x y z where "q = [x, y, z]" "is_digit x" "is_digit y" "is_digit z" "dec [x, y, z] \<le> 255"
    using assms(1) unfolding octet_cases by blast
  then show ?thesis
  proof cases
    case one
    then obtain d where d: "d < 10" "char_of (unat x) = digit_char d" "unat x = 48 + d" using char_of_digit by blast
    then show ?thesis using one assms(2) pton4_first[OF d(1) assms(2)] by (simp add: ascii_def leading_zero_def dec_def)
  next
    case two
    then obtain d e where d: "d < 10" "char_of (unat x) = digit_char d" "unat x = 48 + d"
      and e: "e < 10" "char_of (unat y) = digit_char e" "unat y = 48 + e" using char_of_digit by metis
    show ?thesis
    proof (cases "d = 0")
      case True
      then have "x = 48" using d(3) by (simp add: word_unat_eq_iff)
      then show ?thesis using two True d e assms(2) by (simp add: ascii_def leading_zero_def)
    next
      case False
      then have "x \<noteq> 48" using d(3) by (auto simp: word_unat_eq_iff)
      moreover have "dec q = d * 10 + e" using two d(3) e(3) by (simp add: dec_def)
      ultimately show ?thesis
        using two False d(1,2) e(1,2) pton4_next[OF e(1), of d] pton4_first[OF d(1) assms(2)]
        by (simp add: ascii_def leading_zero_def del: pton4_loop.simps)
    qed
  next
    case three
    then obtain d e f where d: "d < 10" "char_of (unat x) = digit_char d" "unat x = 48 + d"
      and e: "e < 10" "char_of (unat y) = digit_char e" "unat y = 48 + e"
      and f: "f < 10" "char_of (unat z) = digit_char f" "unat z = 48 + f" using char_of_digit by metis
    show ?thesis
    proof (cases "d = 0")
      case True
      then have "x = 48" using d(3) by (simp add: word_unat_eq_iff)
      then show ?thesis using three True d e assms(2) by (simp add: ascii_def leading_zero_def)
    next
      case False
      then have "x \<noteq> 48" using d(3) by (auto simp: word_unat_eq_iff)
      moreover have n: "dec q = (d * 10 + e) * 10 + f" using three d(3) e(3) f(3) by (simp add: dec_def)
      moreover have le: "(d * 10 + e) * 10 + f < 256" using n three by simp
      ultimately show ?thesis
        using three False d(1,2) e(1,2) f(1,2) pton4_next[OF f(1), of "d * 10 + e"] pton4_next[OF e(1), of d] pton4_first[OF d(1) assms(2)]
        by (simp add: ascii_def leading_zero_def del: pton4_loop.simps)
    qed
  qed
qed

lemma pton4_ascii_dot: "k < 4 \<Longrightarrow> pton4_loop (ascii (46 # s)) True k t = pton4_loop (ascii s) False k (t @ [0])"
proof -
  have "ascii (46 # s) = CHR ''.'' # ascii s" by (simp add: ascii_def) code_simp
  then show "k < 4 \<Longrightarrow> ?thesis" using pton4_dot by simp
qed

lemma pton4_ascii_group:
  assumes "octet q" "k < 3"
  shows "pton4_loop (ascii (q @ 46 # s)) False k (t @ [0]) =
    (if leading_zero q then Inl EINVAL else pton4_loop (ascii s) False (Suc k) ((t @ [of_nat (dec q)]) @ [0]))"
proof -
  have k: "k < 4" "Suc k < 4" using assms(2) by simp_all
  show ?thesis by (simp only: ascii_append pton4_ascii_octet[OF assms(1) k(1)] pton4_ascii_dot[OF k(2)])
qed

lemma inet_pton4_dotted:
  assumes "octet q1" "octet q2" "octet q3" "octet q4"
  shows "inet_pton4 (ascii (dotted [q1, q2, q3, q4])) =
    (if leading_zero q1 \<or> leading_zero q2 \<or> leading_zero q3 \<or> leading_zero q4 then Inl EINVAL
     else Inr [of_nat (dec q1), of_nat (dec q2), of_nat (dec q3), of_nat (dec q4)])"
proof -
  have last: "pton4_loop (ascii q4) False (Suc (Suc (Suc 0))) (t @ [0]) =
      (if leading_zero q4 then Inl EINVAL else Inr (t @ [of_nat (dec q4)]))" for t
    using pton4_ascii_octet[OF assms(4), of "Suc (Suc (Suc 0))" "[]" t] by simp
  have "pton4_loop (ascii (dotted [q1, q2, q3, q4])) False 0 ([] @ [0]) =
    (if leading_zero q1 then Inl EINVAL else if leading_zero q2 then Inl EINVAL else if leading_zero q3 then Inl EINVAL
     else if leading_zero q4 then Inl EINVAL
     else Inr ((([] @ [of_nat (dec q1)]) @ [of_nat (dec q2)]) @ [of_nat (dec q3)] @ [of_nat (dec q4)]))"
    unfolding dotted.simps
    by (subst pton4_ascii_group[OF assms(1)], simp, subst pton4_ascii_group[OF assms(2)], simp,
        subst pton4_ascii_group[OF assms(3)], simp, subst last, simp)
  then show ?thesis by (simp add: inet_pton4_def)
qed

text \<open>
  C32: the form accepts as a server address exactly four numbers of one to three digits up to 255
  with dots between them. \<open>WideCharToMultiByte\<close> (\<open>w2a\<close>) keeps such a text, and \<open>uv_ip4_addr\<close> reads
  from it those numbers, but only when none of them is written with a leading zero: an address like
  \<open>192.168.01.1\<close> passes the check, fails to parse, and what is left is the address \<open>0.0.0.0\<close>.
\<close>

theorem address_check_vs_parser:
  assumes "\<And>s. (\<forall>c \<in> set s. unat c < 128) \<Longrightarrow> w2a s = ascii s"
  shows "fst (CheckIP s w) \<longleftrightarrow> (\<exists>q1 q2 q3 q4. s = dotted [q1, q2, q3, q4] \<and> octet q1 \<and> octet q2 \<and> octet q3 \<and> octet q4 \<and>
    uv_ip4_addr (w2a s) p =
      (if leading_zero q1 \<or> leading_zero q2 \<or> leading_zero q3 \<or> leading_zero q4
       then (Fail EINVAL, \<lparr>family = AF_INET, port = htons (word_of_int p), addr = [0, 0, 0, 0], scope_id = 0\<rparr>)
       else (OK, \<lparr>family = AF_INET, port = htons (word_of_int p),
         addr = [of_nat (dec q1), of_nat (dec q2), of_nat (dec q3), of_nat (dec q4)], scope_id = 0\<rparr>)))"
    (is "_ \<longleftrightarrow> (\<exists>q1 q2 q3 q4. ?P q1 q2 q3 q4)")
proof -
  have dig: "\<forall>c \<in> set q. unat c < 128" if "octet q" for q
    using that by (auto simp: octet_def is_digit_unat)
  have "?P q1 q2 q3 q4 \<longleftrightarrow> octet q1 \<and> octet q2 \<and> octet q3 \<and> octet q4 \<and> s = dotted [q1, q2, q3, q4]" for q1 q2 q3 q4
  proof -
    have "uv_ip4_addr (w2a s) p = uv_ip4_addr (ascii (dotted [q1, q2, q3, q4])) p"
      if "octet q1" "octet q2" "octet q3" "octet q4" "s = dotted [q1, q2, q3, q4]"
    proof -
      have "\<forall>c \<in> set s. unat c < 128" using dig[OF that(1)] dig[OF that(2)] dig[OF that(3)] dig[OF that(4)] that(5) by auto
      then show ?thesis using assms that(5) by metis
    qed
    then show ?thesis
      using inet_pton4_dotted[of q1 q2 q3 q4]
      by (auto simp: uv_ip4_addr_def uv_inet_pton_def Let_def eval_nat_numeral simp del: dotted.simps)
  qed
  then have "(\<exists>q1 q2 q3 q4. ?P q1 q2 q3 q4) \<longleftrightarrow> regex_match m_pregex_IP s" unfolding ip_regex_matches by simp
  then show ?thesis by (simp add: CheckIP_def)
qed

lemma address_check_vs_parser_witness:
  "fst (CheckIP (wide_of ''192.168.01.1'') form_window) \<and>
   uv_ip4_addr (ascii_only (wide_of ''192.168.01.1'')) 8080 =
     (Fail EINVAL, \<lparr>family = AF_INET, port = htons (word_of_int 8080), addr = [0, 0, 0, 0], scope_id = 0\<rparr>)"
proof
  have w: "ascii_only s = ascii s" if "\<forall>c \<in> set s. unat c < 128" for s using that by (simp add: ascii_only_def)
  have s: "wide_of ''192.168.01.1'' = dotted [[49, 57, 50], [49, 54, 56], [48, 49], [49]]" by (simp add: wide_of_def)
  have q: "octet [49, 57, 50]" "octet [49, 54, 56]" "octet [48, 49]" "octet [49]" "leading_zero [48, 49]"
    by (simp_all add: octet_def is_digit_def dec_def leading_zero_def)
  show u: "uv_ip4_addr (ascii_only (wide_of ''192.168.01.1'')) 8080 =
     (Fail EINVAL, \<lparr>family = AF_INET, port = htons (word_of_int 8080), addr = [0, 0, 0, 0], scope_id = 0\<rparr>)"
    by code_simp
  show "fst (CheckIP (wide_of ''192.168.01.1'') form_window)"
  proof (subst address_check_vs_parser[of ascii_only _ form_window 8080])
    show "ascii_only s = ascii s" if "\<forall>c \<in> set s. unat c < 128" for s using that by (rule w)
  qed (use s q u in \<open>intro exI[of _ "[49, 57, 50]"] exI[of _ "[49, 54, 56]"] exI[of _ "[48, 49]"] exI[of _ "[49]"],
    simp del: dotted.simps\<close>)
qed

end
