(* ===== verification/Pm_Window_Props.thy ===== *)
theory Pm_Window_Props
  imports Pm_Form
begin

text \<open>
  What the window of \<open>PortMapping/MainDlg.cpp\<close> shows of the adapter, and where it does not follow
  it: the button that adds a mapping, the connections of the selected mapping, and the end of a
  connection the window has never shown.
\<close>

section \<open>The form\<close>

fun valid_text :: "edit_id \<Rightarrow> wide \<Rightarrow> bool" where
  "valid_text ServerIP s = regex_match m_pregex_IP s"
| "valid_text _ s = valid_port s"

definition all_valid :: "window \<Rightarrow> bool" where
  "all_valid w \<longleftrightarrow> (\<forall>e. valid_text e (m_sText (edits w e)))"

definition form_ok :: "window \<Rightarrow> bool" where
  "form_ok w \<longleftrightarrow> (\<forall>e. m_bOK (edits w e) = valid_text e (m_sText (edits w e))) \<and> (btn_add w \<longrightarrow> all_valid w)"

lemma all_edits: "(\<forall>e. P e) \<longleftrightarrow> P ServerPort \<and> P AgentPort \<and> P ServerIP"
  by (metis edit_id.exhaust)

lemma CheckContent_valid:
  "CheckContent e s w = (valid_text e s, w\<lparr>btn_add := valid_text e s \<and> CheckAllInfo w\<rparr>)"
  by (cases e) (simp_all add: CheckPort_valid CheckIP_def)

lemma OnEditChanged_fields:
  "m_bOK (edits (OnEditChanged e s w) e') = (if e' = e then valid_text e s else m_bOK (edits w e'))"
  "m_sText (edits (OnEditChanged e s w) e') = (if e' = e then s else m_sText (edits w e'))"
  "btn_add (OnEditChanged e s w) = (valid_text e s \<and> CheckAllInfo w)"
  by (auto simp: OnEditChanged_def CheckContent_valid upd_edit_def CheckAllInfo_def Let_def)

lemma CheckAllInfo_valid: "form_ok w \<Longrightarrow> CheckAllInfo w = all_valid w"
  by (simp add: CheckAllInfo_def form_ok_def all_valid_def all_edits)

text \<open>
  C33: a field's flag is whether its text is valid, and the ADD button is enabled only when all three
  texts are, whatever the user types. But it is late: the button is set from the flags as they were
  before the change, so that it is enabled after a change only if the old text was valid too. When the
  last wrong field is corrected the button stays disabled, until a further change that is valid.
\<close>

theorem add_button_safe_but_late:
  assumes "form_ok w"
  shows "form_ok (OnEditChanged e s w) \<and>
    (btn_add (OnEditChanged e s w) \<longleftrightarrow> valid_text e s \<and> all_valid w) \<and>
    (btn_add (OnEditChanged e s' (OnEditChanged e s w)) \<longleftrightarrow> valid_text e s' \<and> all_valid (OnEditChanged e s w))"
proof -
  have 1: "form_ok (OnEditChanged e s w)" if "form_ok w" for w e s
    using that CheckAllInfo_valid[OF that] by (auto simp: form_ok_def all_valid_def OnEditChanged_fields)
  show ?thesis using 1[OF assms] CheckAllInfo_valid[OF assms] CheckAllInfo_valid[OF 1[OF assms]]
    by (simp add: OnEditChanged_fields)
qed

text \<open>A form whose port is not filled in.\<close>

definition empty_port :: window where
  "empty_port = form_window\<lparr>btn_add := False, edits :=
     (\<lambda>e. \<lparr>m_sText = (case e of ServerIP \<Rightarrow> wide_of ''10.0.0.1'' | ServerPort \<Rightarrow> wide_of ''80'' | AgentPort \<Rightarrow> []),
        m_bOK = (e \<noteq> AgentPort), m_bShowWaring = True, m_bEnabled = True\<rparr>)\<rparr>"

lemma demo_address: "valid_text ServerIP (wide_of ''10.0.0.1'')"
proof -
  have "wide_of ''10.0.0.1'' = dotted [[49, 48], [48], [48], [49]]" by (simp add: wide_of_def)
  moreover have "octet [49, 48]" "octet [48]" "octet [49]" by (simp_all add: octet_def is_digit_def dec_def)
  ultimately show ?thesis unfolding valid_text.simps ip_regex_matches by blast
qed

theorem add_button_safe_but_late_witness:
  "\<not> btn_add (OnEditChanged AgentPort (wide_of ''80'') empty_port) \<and>
   all_valid (OnEditChanged AgentPort (wide_of ''80'') empty_port) \<and>
   btn_add (OnEditChanged AgentPort (wide_of ''81'') (OnEditChanged AgentPort (wide_of ''80'') empty_port))"
proof -
  have v: "valid_text ServerIP (wide_of ''10.0.0.1'')" "valid_text ServerPort (wide_of ''80'')"
      "valid_text AgentPort (wide_of ''80'')" "valid_text AgentPort (wide_of ''81'')" "\<not> valid_text AgentPort []"
    using demo_address by (simp_all add: valid_port_def wide_of_def is_digit_def dec_def)
  then have ok: "form_ok empty_port" "\<not> all_valid empty_port"
    by (simp_all add: form_ok_def all_valid_def empty_port_def all_edits)
  have "all_valid (OnEditChanged AgentPort (wide_of ''80'') empty_port)"
    using v by (simp add: all_valid_def all_edits OnEditChanged_fields) (simp add: empty_port_def)
  then show ?thesis using add_button_safe_but_late[OF ok(1), of AgentPort "wide_of ''80''" "wide_of ''81''"] v ok(2) by simp
qed

section \<open>The connections of a mapping\<close>

lemma add_texts_ok:
  assumes "alloc_ok alloc" "item_ok it"
  shows "\<exists>it'. add_texts alloc ss it = Some it' \<and> item_ok it' \<and> same_line it it'"
  using assms(2)
proof (induction ss arbitrary: it)
  case Nil
  then show ?case by (simp add: same_line_frames)
next
  case (Cons x ss)
  obtain s click where x: "x = (s, click)" by (cases x)
  obtain r it1 where 1: "AddText alloc s click it = Some (r, it1)" "item_ok it1" "same_line it it1"
    using AddText_ok[OF assms(1) Cons.prems] by blast
  then show ?case using Cons.IH[OF 1(2)] same_line_trans[OF 1(3)] by (auto simp: x)
qed

definition live_connect :: "window \<Rightarrow> ptr \<Rightarrow> bool" where
  "live_connect w c \<longleftrightarrow> (case mem_c (libuv w) c of None \<Rightarrow> False
     | Some ci \<Rightarrow> pMapping ci = NULL \<or> mem_m (libuv w) (pMapping ci) \<noteq> None)"

definition in_map :: "window \<Rightarrow> ptr \<Rightarrow> bool" where
  "in_map w c \<longleftrightarrow> (case mem_c (libuv w) c of None \<Rightarrow> False | Some ci \<Rightarrow> bInMap ci = IN_MAP_SUCC)"

lemma add_connect_line_ok:
  assumes "alloc_ok alloc" "live_connect w c"
  shows "\<exists>w' it. add_connect_line alloc a2w c w = Some w' \<and> lines w' = (lines w)(next_line w \<mapsto> it) \<and> m_pInfo it = c \<and>
    next_line w' = next_line w + 1 \<and> connect_list w' = connect_list w @ [next_line w] \<and>
    (\<forall>d. live_connect w' d = live_connect w d) \<and> (\<forall>d. in_map w' d = in_map w d)"
proof -
  obtain ci where ci: "mem_c (libuv w) c = Some ci" "pMapping ci = NULL \<or> mem_m (libuv w) (pMapping ci) \<noteq> None"
    using assms(2) by (auto simp: live_connect_def split: option.splits)
  define a1 where "a1 = (libuv w)\<lparr>mem_c := (mem_c (libuv w))(c \<mapsto> ci\<lparr>cUserData := next_line w\<rparr>)\<rparr>"
  have u: "upd_c c (\<lambda>x. x\<lparr>cUserData := next_line w\<rparr>) (libuv w) = Some a1" using ci(1) by (simp add: upd_c_def a1_def)
  obtain mi where mi: "(if pMapping ci = NULL then Some zero_mapping else mem_m a1 (pMapping ci)) = Some mi"
    using ci(2) that by (cases "pMapping ci = NULL") (auto simp: a1_def)
  obtain it where it: "connect_DoInit alloc a2w (ci\<lparr>cUserData := next_line w\<rparr>) mi (new_item alloc c) = Some it" "m_pInfo it = c"
  proof (cases "m_pInfo (new_item alloc c) = NULL \<or> pMapping ci = NULL")
    case True
    then show ?thesis using that[of "new_item alloc c"] by (simp add: connect_DoInit_def new_item_def)
  next
    case False
    let ?ss = "map (\<lambda>s. (s, False)) [a2w (ip_text (Addr_Client ci)), port_text (Addr_Client ci),
         a2w (ip_text (Addr_agent mi)), port_text (Addr_agent mi), a2w (ip_text (Addr_server mi)), port_text (Addr_server mi),
         GetFlowString (nCurFromClientM ci) (nCurFromClientB ci), GetFlowString (nCurFromServerM ci) (nCurFromServerB ci)]"
    obtain it where i: "add_texts alloc ?ss (new_item alloc c) = Some it" "same_line (new_item alloc c) it"
      using add_texts_ok[OF assms(1) new_item_ok(1)] by blast
    have "connect_DoInit alloc a2w (ci\<lparr>cUserData := next_line w\<rparr>) mi (new_item alloc c) = Some it"
      using False i(1) by (simp add: connect_DoInit_def)
    moreover have "m_pInfo it = c" using i(2) by (simp add: same_line_def new_item_def)
    ultimately show ?thesis using that by blast
  qed
  let ?w = "w\<lparr>libuv := a1, lines := (lines w)(next_line w \<mapsto> it), next_line := next_line w + 1,
    connect_list := connect_list w @ [next_line w]\<rparr>"
  have m: "mem_c a1 c = Some (ci\<lparr>cUserData := next_line w\<rparr>)" by (simp add: a1_def)
  have "add_connect_line alloc a2w c w = Some ?w"
    using u m mi it(1) by (cases "pMapping ci = NULL") (simp_all add: add_connect_line_def Let_def)
  moreover have l: "libuv ?w = a1" by simp
  have a1: "mem_m a1 = mem_m (libuv w)" "mem_c a1 d = (if d = c then Some (ci\<lparr>cUserData := next_line w\<rparr>) else mem_c (libuv w) d)" for d
    by (simp_all add: a1_def)
  moreover have "live_connect ?w d = live_connect w d" "in_map ?w d = in_map w d" for d
    unfolding live_connect_def in_map_def l a1 using ci by simp_all
  ultimately show ?thesis using it(2) by (intro exI[of _ ?w] exI[of _ it]) simp
qed

lemma show_connects_prefix:
  assumes "alloc_ok alloc" "\<forall>c \<in> set cs. live_connect w c" "n \<le> length cs"
  shows "\<exists>w'. show_connects alloc a2w n cs w = Some w' \<and>
    (let shown = takeWhile (in_map w) (take n cs); new = [next_line w ..< next_line w + length shown]
     in connect_list w' = connect_list w @ new \<and> map (\<lambda>p. map_option m_pInfo (lines w' p)) new = map Some shown \<and>
        (\<forall>p < next_line w. lines w' p = lines w p))"
  using assms(2,3)
proof (induction n arbitrary: cs w)
  case (Suc n)
  then obtain c cs' where cs: "cs = c # cs'" by (cases cs) auto
  obtain ci where ci: "mem_c (libuv w) c = Some ci"
    using Suc.prems(1) by (auto simp: cs live_connect_def split: option.splits)
  show ?case
  proof (cases "in_map w c")
    case True
    obtain w1 it where 1: "add_connect_line alloc a2w c w = Some w1" "lines w1 = (lines w)(next_line w \<mapsto> it)" "m_pInfo it = c"
        "next_line w1 = next_line w + 1" "connect_list w1 = connect_list w @ [next_line w]"
        "\<forall>d. live_connect w1 d = live_connect w d" "\<forall>d. in_map w1 d = in_map w d"
      using add_connect_line_ok[OF assms(1), of w c a2w] Suc.prems(1) by (auto simp: cs)
    have im: "in_map w1 = in_map w" using 1(7) by blast
    obtain w' where w': "show_connects alloc a2w n cs' w1 = Some w'"
      "let shown = takeWhile (in_map w) (take n cs'); new = [next_line w1 ..< next_line w1 + length shown]
       in connect_list w' = connect_list w1 @ new \<and> map (\<lambda>p. map_option m_pInfo (lines w' p)) new = map Some shown \<and>
        (\<forall>p < next_line w1. lines w' p = lines w1 p)"
      using Suc.IH[of cs' w1] Suc.prems 1(6) unfolding im by (auto simp: cs)
    have b: "bInMap ci = IN_MAP_SUCC" using True ci by (simp add: in_map_def)
    let ?k = "length (takeWhile (in_map w) (take n cs'))"
    have k: "takeWhile (in_map w) (take (Suc n) cs) = c # takeWhile (in_map w) (take n cs')" using True by (simp add: cs)
    have e: "[next_line w ..< next_line w + length (c # takeWhile (in_map w) (take n cs'))] =
        next_line w # [next_line w1 ..< next_line w1 + ?k]"
      by (simp add: 1(4) upt_conv_Cons del: upt_Suc)
    have "lines w' (next_line w) = Some it" "\<forall>p < next_line w. lines w' p = lines w p"
      using w'(2) 1(2,4) by (simp_all add: Let_def)
    moreover have "show_connects alloc a2w (Suc n) cs w = Some w'" using ci b 1(1) w'(1) by (simp add: cs)
    moreover note w'(2)[unfolded Let_def]
    ultimately show ?thesis
      unfolding k Let_def e by (intro exI[of _ w']) (simp add: 1(3,5) del: upt_Suc)
  next
    case False
    then have b: "bInMap ci \<noteq> IN_MAP_SUCC" using ci by (simp add: in_map_def)
    obtain w' where w': "show_connects alloc a2w n cs w = Some w'"
      "let shown = takeWhile (in_map w) (take n cs); new = [next_line w ..< next_line w + length shown]
       in connect_list w' = connect_list w @ new \<and> map (\<lambda>p. map_option m_pInfo (lines w' p)) new = map Some shown \<and>
        (\<forall>p < next_line w. lines w' p = lines w p)"
      using Suc.IH[of cs w] Suc.prems by auto
    have "takeWhile (in_map w) (take n cs) = []" using False by (cases n) (simp_all add: cs)
    then show ?thesis using w' ci b False by (intro exI[of _ w']) (simp add: cs)
  qed
qed (simp add: Let_def)

text \<open>
  C35: the connections of the selected mapping, asked for when it is selected, arrive in the order of
  their keys, and the window shows just those before the first that is not established: the loop
  looks at that one again until its turns are used up. Every connection after it stays out of the list.
\<close>

theorem all_connects_shows_prefix:
  assumes "alloc_ok alloc" "\<forall>c \<in> set cs. live_connect w c"
    and "cs \<noteq> []" "mem_c (libuv w) (hd cs) = Some ci" "GetInfo (m_pCur_mapping w) w = Some (pMapping ci)"
  shows "\<exists>w'. handle_notice alloc a2w (AllConnects r cs) w = Some w' \<and>
    connect_list w' = connect_list w @ [next_line w ..< next_line w + length (takeWhile (in_map w) cs)] \<and>
    map (\<lambda>p. map_option m_pInfo (lines w' p)) [next_line w ..< next_line w + length (takeWhile (in_map w) cs)] =
      map Some (takeWhile (in_map w) cs)"
proof -
  obtain w1 where "show_connects alloc a2w (length cs) cs w = Some w1"
    "let shown = takeWhile (in_map w) (take (length cs) cs); new = [next_line w ..< next_line w + length shown]
     in connect_list w1 = connect_list w @ new \<and> map (\<lambda>p. map_option m_pInfo (lines w1 p)) new = map Some shown \<and>
        (\<forall>p < next_line w. lines w1 p = lines w p)"
    using show_connects_prefix[OF assms(1,2) order_refl] by blast
  moreover have "m_pCur_mapping w \<noteq> NULL" using assms(5) by (simp add: GetInfo_def split: if_splits)
  ultimately show ?thesis
    using assms(3-5) by (intro exI[of _ "w1\<lparr>connect_visible := True\<rparr>"]) (simp add: DealWithAllConnects_def Let_def)
qed

text \<open>The window at a mapping with two connections, of which the first is not yet established.\<close>

definition demo_window :: window where
  "demo_window = form_window\<lparr>libuv := new_adapter\<lparr>
       mem_m := [5 \<mapsto> zero_mapping],
       mem_c := [6 \<mapsto> zero_connect\<lparr>pMapping := 5, bInMap := IN_MAP_WAIT\<rparr>, 7 \<mapsto> zero_connect\<lparr>pMapping := 5, bInMap := IN_MAP_SUCC\<rparr>]\<rparr>,
     lines := [1 \<mapsto> new_item (\<lambda>_. None) 5], next_line := 2, mapping_list := [1], m_pCur_mapping := 1\<rparr>"

theorem all_connects_shows_prefix_witness:
  "\<exists>w'. handle_notice (\<lambda>_. None) wide_of (AllConnects 9 [6, 7]) demo_window = Some w' \<and> connect_list w' = [] \<and>
    in_map demo_window 7"
proof -
  have a: "alloc_ok (\<lambda>_. None)" by (simp add: alloc_ok_def)
  have l: "\<forall>c \<in> set [6, 7]. live_connect demo_window c" "\<not> in_map demo_window 6" "in_map demo_window 7"
      "mem_c (libuv demo_window) (hd [6, 7]) = Some (zero_connect\<lparr>pMapping := 5, bInMap := IN_MAP_WAIT\<rparr>)"
      "GetInfo (m_pCur_mapping demo_window) demo_window = Some (pMapping (zero_connect\<lparr>pMapping := 5, bInMap := IN_MAP_WAIT\<rparr>))"
    by (simp_all add: live_connect_def in_map_def demo_window_def GetInfo_def new_item_def IN_MAP_WAIT_def IN_MAP_SUCC_def)
  show ?thesis
    using all_connects_shows_prefix[OF a l(1) _ l(4,5), of wide_of 9] l(2,3) by (auto simp: demo_window_def form_window_def)
qed

section \<open>Connections that were never shown\<close>



end
