(* ===== verification/Dui_Base.thy ===== *)
theory Dui_Base
  imports Uv_Prelude
begin

text \<open>
  What the containers of \<open>DuiLib/Utils/Utils.cpp\<close> share: strings of \<open>wchar_t\<close>, and sequences of calls of a
  component that refines a specification call by call.
\<close>

type_synonym tstring = "u16 list"

fun run_calls :: "('op \<Rightarrow> 'c \<Rightarrow> ('r \<times> 'c) option) \<Rightarrow> 'op list \<Rightarrow> 'c \<Rightarrow> ('r list \<times> 'c) option" where
  "run_calls step [] c = Some ([], c)"
| "run_calls step (op # ops) c = do {
     (r, c1) \<leftarrow> step op c; (rs, c2) \<leftarrow> run_calls step ops c1; Some (r # rs, c2)
   }"

fun spec_calls :: "('op \<Rightarrow> 'a \<Rightarrow> 'r \<times> 'a) \<Rightarrow> 'op list \<Rightarrow> 'a \<Rightarrow> 'r list \<times> 'a" where
  "spec_calls step [] a = ([], a)"
| "spec_calls step (op # ops) a =
     (let (r, a1) = step op a; (rs, a2) = spec_calls step ops a1 in (r # rs, a2))"

text \<open>A call that the specification allows is answered alike and keeps the relation; then so is every
  sequence of such calls.\<close>

locale refinement =
  fixes rel :: "'c \<Rightarrow> 'a \<Rightarrow> bool"
    and cstep :: "'op \<Rightarrow> 'c \<Rightarrow> ('r \<times> 'c) option"
    and astep :: "'op \<Rightarrow> 'a \<Rightarrow> 'r \<times> 'a"
    and allowed :: "'op \<Rightarrow> 'a \<Rightarrow> bool"
  assumes simulates: "rel c a \<Longrightarrow> allowed op a \<Longrightarrow>
    \<exists>c'. cstep op c = Some (fst (astep op a), c') \<and> rel c' (snd (astep op a))"

fun all_allowed :: "('op \<Rightarrow> 'a \<Rightarrow> 'r \<times> 'a) \<Rightarrow> ('op \<Rightarrow> 'a \<Rightarrow> bool) \<Rightarrow> 'op list \<Rightarrow> 'a \<Rightarrow> bool" where
  "all_allowed step allowed [] a \<longleftrightarrow> True"
| "all_allowed step allowed (op # ops) a \<longleftrightarrow> allowed op a \<and> all_allowed step allowed ops (snd (step op a))"

context refinement
begin

lemma runs_alike:
  "rel c a \<Longrightarrow> all_allowed astep allowed ops a \<Longrightarrow>
    \<exists>c'. run_calls cstep ops c = Some (fst (spec_calls astep ops a), c') \<and> rel c' (snd (spec_calls astep ops a))"
proof (induction ops arbitrary: c a)
  case (Cons op ops)
  from simulates[OF Cons.prems(1), of op] Cons.prems(2) obtain c1 where
    c1: "cstep op c = Some (fst (astep op a), c1)" "rel c1 (snd (astep op a))" by auto
  from Cons.IH[OF c1(2)] Cons.prems(2) obtain c2 where
    "run_calls cstep ops c1 = Some (fst (spec_calls astep ops (snd (astep op a))), c2)"
    "rel c2 (snd (spec_calls astep ops (snd (astep op a))))" by auto
  with c1 show ?case by (simp add: case_prod_beta)
qed simp

end

lemma all_allowed_static:
  "list_all p ops \<Longrightarrow> (\<And>op a. allowed op a \<longleftrightarrow> p op) \<Longrightarrow> all_allowed step allowed ops a"
  by (induction ops arbitrary: a) auto

end
