(* ===== verification/Dui_Map.thy ===== *)
theory Dui_Map
  imports Dui_Base
begin

text \<open>
  \<open>CStdStringPtrMap\<close> of \<open>DuiLib/Utils/Utils.cpp\<close>: the hash table from strings to pointers in which DuiLib
  keeps its images, fonts and attributes. Its buckets are doubly linked chains of items, and \<open>Find\<close> moves
  the item it finds to the front of its chain.

  The items live in a heap; \<open>new\<close> is the address the allocator gives for the next one. A read of an
  address without an item, \<open>NULL\<close> among them, is \<open>None\<close>. Keys are strings of \<open>wchar_t\<close>, compared as
  \<open>_tcscmp\<close> does.
\<close>

section \<open>The table\<close>

record TITEM =
  Key :: tstring
  Data :: ptr
  pPrev :: ptr
  pNext :: ptr

type_synonym titems = "ptr \<rightharpoonup> TITEM"

record str_map =
  m_aT :: "ptr list option"
  m_nBuckets :: int
  m_nCount_of :: int
  titems :: titems

definition HashKey :: "tstring \<Rightarrow> u32" where
  "HashKey key = foldr (\<lambda>c i. push_bit 5 i + i + ucast c) key 0"

definition slot_of :: "tstring \<Rightarrow> int \<Rightarrow> nat" where
  "slot_of key nBuckets = unat (HashKey key mod word_of_int nBuckets)"

definition CStdStringPtrMap :: "int \<Rightarrow> str_map" where
  "CStdStringPtrMap nSize =
     (let nSize = (if nSize < 16 then 16 else nSize)
      in \<lparr>m_aT = Some (replicate (nat nSize) NULL), m_nBuckets = nSize, m_nCount_of = 0, titems = Map.empty\<rparr>)"

text \<open>The loop that deletes the items of one bucket, and the one over the buckets, from the last.\<close>

partial_function (option) delete_chain :: "ptr \<Rightarrow> titems \<Rightarrow> titems option" where
  [code]: "delete_chain pItem h =
     (if pItem = NULL then Some h
      else do { it \<leftarrow> h pItem; delete_chain (pNext it) (h(pItem := None)) })"

fun delete_buckets :: "nat \<Rightarrow> ptr list \<Rightarrow> titems \<Rightarrow> titems option" where
  "delete_buckets 0 t h = Some h"
| "delete_buckets (Suc len) t h =
     (if len < length t then do { h1 \<leftarrow> delete_chain (t ! len) h; delete_buckets len t h1 } else None)"

definition map_destroy :: "str_map \<Rightarrow> str_map option" where
  "map_destroy m =
     (case m_aT m of
        None \<Rightarrow> Some m
      | Some t \<Rightarrow> do { h \<leftarrow> delete_buckets (nat (m_nBuckets m)) t (titems m); Some (m\<lparr>m_aT := None, titems := h\<rparr>) })"

definition map_Resize :: "int \<Rightarrow> str_map \<Rightarrow> str_map option" where
  "map_Resize nSize m = do {
     m1 \<leftarrow> map_destroy m;
     let nSize = (if nSize < 0 then 0 else nSize);
     let m2 = (if nSize > 0 then m1\<lparr>m_aT := Some (replicate (nat nSize) NULL)\<rparr> else m1);
     Some (m2\<lparr>m_nBuckets := nSize, m_nCount_of := 0\<rparr>)
   }"

definition map_RemoveAll :: "str_map \<Rightarrow> str_map option" where
  "map_RemoveAll m = map_Resize (m_nBuckets m) m"

definition map_GetSize :: "str_map \<Rightarrow> int" where
  "map_GetSize m = m_nCount_of m"

definition bucket :: "str_map \<Rightarrow> nat \<Rightarrow> ptr option" where
  "bucket m slot = do { t \<leftarrow> m_aT m; if slot < length t then Some (t ! slot) else None }"

definition set_bucket :: "nat \<Rightarrow> ptr \<Rightarrow> str_map \<Rightarrow> str_map" where
  "set_bucket slot p m = m\<lparr>m_aT := map_option (\<lambda>t. t[slot := p]) (m_aT m)\<rparr>"

definition set_pPrev :: "ptr \<Rightarrow> ptr \<Rightarrow> titems \<Rightarrow> titems option" where
  "set_pPrev p v h = do { it \<leftarrow> h p; Some (h(p \<mapsto> it\<lparr>pPrev := v\<rparr>)) }"

definition set_pNext :: "ptr \<Rightarrow> ptr \<Rightarrow> titems \<Rightarrow> titems option" where
  "set_pNext p v h = do { it \<leftarrow> h p; Some (h(p \<mapsto> it\<lparr>pNext := v\<rparr>)) }"

partial_function (option) find_item :: "titems \<Rightarrow> tstring \<Rightarrow> ptr \<Rightarrow> ptr option" where
  [code]: "find_item h key pItem =
     (if pItem = NULL then Some NULL
      else do { it \<leftarrow> h pItem; if Key it = key then Some pItem else find_item h key (pNext it) })"

definition move_to_front :: "ptr \<Rightarrow> ptr \<Rightarrow> titems \<Rightarrow> titems option" where
  "move_to_front head pItem h = do {
     it \<leftarrow> h pItem;
     h1 \<leftarrow> (if pNext it \<noteq> NULL then set_pPrev (pNext it) (pPrev it) h else Some h);
     h2 \<leftarrow> set_pNext (pPrev it) (pNext it) h1;
     h3 \<leftarrow> set_pPrev pItem NULL h2;
     h4 \<leftarrow> set_pNext pItem head h3;
     set_pPrev head pItem h4
   }"

definition map_Find :: "tstring \<Rightarrow> bool \<Rightarrow> str_map \<Rightarrow> (ptr \<times> str_map) option" where
  "map_Find key optimize m =
     (if m_nBuckets m = 0 \<or> map_GetSize m = 0 then Some (NULL, m)
      else do {
        let slot = slot_of key (m_nBuckets m);
        head \<leftarrow> bucket m slot;
        pItem \<leftarrow> find_item (titems m) key head;
        if pItem = NULL then Some (NULL, m)
        else do {
          it \<leftarrow> titems m pItem;
          m1 \<leftarrow> (if optimize \<and> pItem \<noteq> head
                then do {
                  h \<leftarrow> move_to_front head pItem (titems m);
                  Some (set_bucket slot pItem (m\<lparr>titems := h\<rparr>))
                }
                else Some m);
          Some (Data it, m1)
        }
      })"

definition map_Insert :: "(titems \<Rightarrow> ptr) \<Rightarrow> tstring \<Rightarrow> ptr \<Rightarrow> str_map \<Rightarrow> (bool \<times> str_map) option" where
  "map_Insert new key pData m =
     (if m_nBuckets m = 0 then Some (False, m)
      else do {
        (found, m1) \<leftarrow> map_Find key True m;
        if found \<noteq> NULL then Some (False, m1)
        else do {
          let slot = slot_of key (m_nBuckets m1);
          let pItem = new (titems m1);
          head \<leftarrow> bucket m1 slot;
          let h = (titems m1)(pItem \<mapsto> \<lparr>Key = key, Data = pData, pPrev = NULL, pNext = head\<rparr>);
          h1 \<leftarrow> (if head \<noteq> NULL then set_pPrev head pItem h else Some h);
          let m2 = set_bucket slot pItem (m1\<lparr>titems := h1\<rparr>);
          Some (True, m2\<lparr>m_nCount_of := m_nCount_of m2 + 1\<rparr>)
        }
      })"

text \<open>The loop of \<open>Set\<close> is that of \<open>Find\<close>.\<close>

definition map_Set :: "(titems \<Rightarrow> ptr) \<Rightarrow> tstring \<Rightarrow> ptr \<Rightarrow> str_map \<Rightarrow> (ptr \<times> str_map) option" where
  "map_Set new key pData m =
     (if m_nBuckets m = 0 then Some (pData, m)
      else do {
        pItem \<leftarrow> (if map_GetSize m > 0
                 then do { head \<leftarrow> bucket m (slot_of key (m_nBuckets m)); find_item (titems m) key head }
                 else Some NULL);
        if pItem \<noteq> NULL
        then do {
          it \<leftarrow> titems m pItem;
          Some (Data it, m\<lparr>titems := (titems m)(pItem \<mapsto> it\<lparr>Data := pData\<rparr>)\<rparr>)
        }
        else do { (ok, m1) \<leftarrow> map_Insert new key pData m; Some (NULL, m1) }
      })"

text \<open>\<open>TITEM** ppItem\<close> points at a bucket or at the field \<open>pNext\<close> of an item.\<close>

datatype place = Bucket nat | Next_of ptr

fun read_place :: "str_map \<Rightarrow> place \<Rightarrow> ptr option" where
  "read_place m (Bucket slot) = bucket m slot"
| "read_place m (Next_of p) = map_option pNext (titems m p)"

fun write_place :: "place \<Rightarrow> ptr \<Rightarrow> str_map \<Rightarrow> str_map option" where
  "write_place (Bucket slot) v m = Some (set_bucket slot v m)"
| "write_place (Next_of p) v m = do { h \<leftarrow> set_pNext p v (titems m); Some (m\<lparr>titems := h\<rparr>) }"

partial_function (option) find_place :: "str_map \<Rightarrow> tstring \<Rightarrow> place \<Rightarrow> (place \<times> ptr) option" where
  [code]: "find_place m key ppItem = do {
     p \<leftarrow> read_place m ppItem;
     if p = NULL then Some (ppItem, NULL)
     else do { it \<leftarrow> titems m p; if Key it = key then Some (ppItem, p) else find_place m key (Next_of p) }
   }"

definition map_Remove :: "tstring \<Rightarrow> str_map \<Rightarrow> (bool \<times> str_map) option" where
  "map_Remove key m =
     (if m_nBuckets m = 0 \<or> map_GetSize m = 0 then Some (False, m)
      else do {
        (ppItem, pKill) \<leftarrow> find_place m key (Bucket (slot_of key (m_nBuckets m)));
        if pKill = NULL then Some (False, m)
        else do {
          it \<leftarrow> titems m pKill;
          m1 \<leftarrow> write_place ppItem (pNext it) m;
          kill \<leftarrow> titems m1 pKill;
          h1 \<leftarrow> (if pNext it \<noteq> NULL then set_pPrev (pNext it) (pPrev kill) (titems m1) else Some (titems m1));
          Some (True, m1\<lparr>titems := h1(pKill := None), m_nCount_of := m_nCount_of m1 - 1\<rparr>)
        }
      })"

text \<open>\<open>GetAt\<close> counts the items in \<open>pos\<close>; a result \<open>Inl pos\<close> means that the chain was too short.\<close>

partial_function (option) item_at :: "titems \<Rightarrow> int \<Rightarrow> int \<Rightarrow> ptr \<Rightarrow> (int + ptr) option" where
  [code]: "item_at h iIndex pos pItem =
     (if pItem = NULL then Some (Inl pos)
      else do { it \<leftarrow> h pItem; if pos = iIndex then Some (Inr pItem) else item_at h iIndex (pos + 1) (pNext it) })"

fun bucket_at :: "str_map \<Rightarrow> int \<Rightarrow> int \<Rightarrow> nat \<Rightarrow> ptr option" where
  "bucket_at m iIndex pos 0 = Some NULL"
| "bucket_at m iIndex pos (Suc len) = do {
     head \<leftarrow> bucket m len;
     r \<leftarrow> item_at (titems m) iIndex pos head;
     case r of Inl pos1 \<Rightarrow> bucket_at m iIndex pos1 len | Inr p \<Rightarrow> Some p
   }"

text \<open>\<open>None\<close> inside is the \<open>NULL\<close> that \<open>GetAt\<close> returns.\<close>

definition map_GetAt :: "int \<Rightarrow> str_map \<Rightarrow> tstring option option" where
  "map_GetAt iIndex m =
     (if m_nBuckets m = 0 \<or> map_GetSize m = 0 then Some None
      else do {
        p \<leftarrow> bucket_at m iIndex 0 (nat (m_nBuckets m));
        if p = NULL then Some None else do { it \<leftarrow> titems m p; Some (Some (Key it)) }
      })"

section \<open>Chains\<close>

text \<open>\<open>seg h a p xs q l\<close>: from \<open>p\<close>, whose predecessor is \<open>a\<close>, the fields \<open>pNext\<close> lead through the items \<open>xs\<close> to
  \<open>q\<close>; \<open>l\<close> is the last of them, and each \<open>pPrev\<close> is the item before.\<close>

fun seg :: "titems \<Rightarrow> ptr \<Rightarrow> ptr \<Rightarrow> ptr list \<Rightarrow> ptr \<Rightarrow> ptr \<Rightarrow> bool" where
  "seg h a p [] q l \<longleftrightarrow> p = q \<and> l = a"
| "seg h a p (x # xs) q l \<longleftrightarrow>
     p = x \<and> x \<noteq> NULL \<and> (case h x of None \<Rightarrow> False | Some it \<Rightarrow> pPrev it = a \<and> seg h x (pNext it) xs q l)"

lemma seg_append:
  "seg h a p (xs @ ys) q l \<longleftrightarrow> (\<exists>r m. seg h a p xs r m \<and> seg h m r ys q l)"
  by (induction xs arbitrary: a p) (auto split: option.splits)

lemma seg_frame:
  "(\<And>x. x \<in> set xs \<Longrightarrow> h' x = h x) \<Longrightarrow> seg h' a p xs q l = seg h a p xs q l"
  by (induction xs arbitrary: a p) (auto split: option.splits)

lemma seg_upd_other [simp]:
  "x \<notin> set xs \<Longrightarrow> seg (h(x := v)) a p xs q l = seg h a p xs q l"
  by (rule seg_frame) auto

lemma seg_nodes: "seg h a p xs q l \<Longrightarrow> x \<in> set xs \<Longrightarrow> x \<noteq> NULL \<and> x \<in> dom h"
  by (induction xs arbitrary: a p) (auto split: option.splits)

lemma seg_last: "seg h a p xs q l \<Longrightarrow> l = (if xs = [] then a else last xs)"
  by (induction xs arbitrary: a p) (auto split: option.splits if_splits)

lemma seg_first: "seg h a p xs q l \<Longrightarrow> p = (if xs = [] then q else hd xs)"
  by (cases xs) auto

lemma seg_new_prev:
  assumes "seg h a p xs q l" and "distinct xs" and "xs \<noteq> []"
  obtains it where "h p = Some it" and "p \<in> set xs" and "seg (h(p \<mapsto> it\<lparr>pPrev := b\<rparr>)) b p xs q l"
  using assms by (cases xs) (auto split: option.splits)

lemma seg_new_next:
  assumes "seg h a p xs q l" and "distinct xs" and "xs \<noteq> []"
  obtains it where "h l = Some it" and "l \<in> set xs" and "seg (h(l \<mapsto> it\<lparr>pNext := r\<rparr>)) a p xs r l"
proof -
  from assms(3) obtain ys y where xs: "xs = ys @ [y]" by (meson rev_exhaust)
  with assms obtain it where "h y = Some it" "l = y" "seg h a p ys y (pPrev it)" "y \<noteq> NULL"
    by (auto simp: seg_append split: option.splits)
  with assms xs show ?thesis by (intro that) (auto simp: seg_append)
qed

text \<open>What an item holds, without its links.\<close>

definition payload :: "titems \<Rightarrow> ptr \<Rightarrow> (tstring \<times> ptr) option" where
  "payload h p = map_option (\<lambda>it. (Key it, Data it)) (h p)"

lemma payload_upd: "payload (h(p := v)) = (payload h)(p := map_option (\<lambda>it. (Key it, Data it)) v)"
  by (auto simp: payload_def)

lemma payload_set_link:
  "h p = Some it \<Longrightarrow> payload (h(p \<mapsto> it\<lparr>pPrev := v\<rparr>)) = payload h"
  "h p = Some it \<Longrightarrow> payload (h(p \<mapsto> it\<lparr>pNext := v\<rparr>)) = payload h"
  by (auto simp: payload_def)

text \<open>The search along a chain.\<close>

lemma find_item_seg:
  "seg h a p (xs @ x # ys) q l \<Longrightarrow> payload h x = Some (key, d) \<Longrightarrow>
    (\<forall>y \<in> set xs. \<forall>e. payload h y \<noteq> Some (key, e)) \<Longrightarrow> find_item h key p = Some x"
proof (induction xs arbitrary: a p)
  case Nil
  then show ?case
    by (subst find_item.simps) (auto simp: payload_def split: option.splits)
next
  case (Cons z xs)
  then obtain it where it: "h z = Some it" "z \<noteq> NULL" "p = z" "seg h z (pNext it) (xs @ x # ys) q l"
    by (auto split: option.splits)
  have "Key it \<noteq> key" using Cons.prems(3) it(1) by (auto simp: payload_def)
  with it Cons.IH[OF it(4) Cons.prems(2)] Cons.prems(3) show ?case
    by (subst find_item.simps) auto
qed

lemma find_item_absent:
  "seg h a p xs NULL l \<Longrightarrow> (\<forall>y \<in> set xs. \<forall>e. payload h y \<noteq> Some (key, e)) \<Longrightarrow>
    find_item h key p = Some NULL"
proof (induction xs arbitrary: a p)
  case Nil
  then show ?case by (simp add: find_item.simps)
next
  case (Cons z xs)
  then obtain it where it: "h z = Some it" "z \<noteq> NULL" "p = z" "seg h z (pNext it) xs NULL l"
    by (auto split: option.splits)
  have "Key it \<noteq> key" using Cons.prems(2) it(1) by (auto simp: payload_def)
  with it Cons.IH[OF it(4)] Cons.prems(2) show ?case
    by (subst find_item.simps) auto
qed

text \<open>Links that skip an item: the two assignments that \<open>Find\<close> and \<open>Remove\<close> share.\<close>

lemma seg_skip_prev:
  assumes "seg h x p ys NULL l" and "distinct ys"
  obtains h1 l1 where
    "(if p \<noteq> NULL then set_pPrev p a h else Some h) = Some h1" and "seg h1 a p ys NULL l1"
    and "\<forall>z. z \<notin> set ys \<longrightarrow> h1 z = h z" and "payload h1 = payload h"
proof (cases "ys = []")
  case True
  with assms show ?thesis by (intro that[of h a]) auto
next
  case False
  from seg_new_prev[OF assms False, of a] obtain it where it: "h p = Some it" "p \<in> set ys"
    "seg (h(p \<mapsto> it\<lparr>pPrev := a\<rparr>)) a p ys NULL l" .
  have "p \<noteq> NULL" using seg_nodes[OF assms(1) it(2)] by simp
  with it show ?thesis
    by (intro that[of "h(p \<mapsto> it\<lparr>pPrev := a\<rparr>)" l]) (auto simp: set_pPrev_def payload_set_link)
qed

lemma move_to_front_seg:
  assumes c: "seg h NULL p (xs @ x # ys) NULL l" and d: "distinct (xs @ x # ys)" and ne: "xs \<noteq> []"
  obtains h' l' where "move_to_front p x h = Some h'" and "seg h' NULL x (x # xs @ ys) NULL l'"
    and "\<forall>z. z \<notin> set (xs @ x # ys) \<longrightarrow> h' z = h z" and "payload h' = payload h"
proof -
  from c obtain it m where x: "seg h NULL p xs x m" "h x = Some it" "x \<noteq> NULL" "pPrev it = m"
    "seg h x (pNext it) ys NULL l"
    by (auto simp: seg_append split: option.splits)
  from seg_skip_prev[OF x(5), of m] d obtain h1 l1 where h1:
    "(if pNext it \<noteq> NULL then set_pPrev (pNext it) m h else Some h) = Some h1"
    "seg h1 m (pNext it) ys NULL l1" "\<forall>z. z \<notin> set ys \<longrightarrow> h1 z = h z" "payload h1 = payload h"
    by auto
  have xs1: "seg h1 NULL p xs x m"
    using x(1) by (subst seg_frame[of xs h1 h]) (use h1(3) d in auto)
  from seg_new_next[OF xs1 _ ne, of "pNext it"] d obtain im where im: "h1 m = Some im" "m \<in> set xs"
    "seg (h1(m \<mapsto> im\<lparr>pNext := pNext it\<rparr>)) NULL p xs (pNext it) m" by auto
  define h2 where "h2 = h1(m \<mapsto> im\<lparr>pNext := pNext it\<rparr>)"
  have h2x: "h2 x = Some it" using h1(3) x(2) d im(2) by (auto simp: h2_def)
  have "m \<notin> set ys" using im(2) d by auto
  hence ys2: "seg h2 m (pNext it) ys NULL l1" using h1(2) by (simp add: h2_def)
  define h4 where "h4 = h2(x \<mapsto> it\<lparr>pPrev := NULL, pNext := p\<rparr>)"
  have c4: "seg h4 NULL p (xs @ ys) NULL l1"
    using im(3) ys2 d unfolding h4_def h2_def[symmetric] by (auto simp: seg_append)
  from seg_new_prev[OF c4, of x] d ne obtain ip where ip: "h4 p = Some ip" "p \<in> set (xs @ ys)"
    "seg (h4(p \<mapsto> ip\<lparr>pPrev := x\<rparr>)) x p (xs @ ys) NULL l1" by auto
  define h5 where "h5 = h4(p \<mapsto> ip\<lparr>pPrev := x\<rparr>)"
  have px: "p \<noteq> x" using ip(2) d by auto
  have "set_pNext m (pNext it) h1 = Some h2" using im(1) by (simp add: set_pNext_def h2_def)
  moreover have "set_pPrev x NULL h2 = Some (h2(x \<mapsto> it\<lparr>pPrev := NULL\<rparr>))"
    using h2x by (simp add: set_pPrev_def)
  moreover have "set_pNext x p (h2(x \<mapsto> it\<lparr>pPrev := NULL\<rparr>)) = Some h4"
    by (simp add: set_pNext_def h4_def)
  moreover have "set_pPrev p x h4 = Some h5" using ip(1) by (simp add: set_pPrev_def h5_def)
  ultimately have "move_to_front p x h = Some h5"
    using x(2,4) h1(1) by (simp only: move_to_front_def bind.bind_lunit)
  moreover have "seg h5 NULL x (x # xs @ ys) NULL l1"
    using ip(3) px x(3) by (simp add: h5_def h4_def)
  moreover have "\<forall>z. z \<notin> set (xs @ x # ys) \<longrightarrow> h5 z = h z"
    using h1(3) im(2) ip(2) by (auto simp: h5_def h4_def h2_def)
  moreover have "payload h5 = payload h"
  proof -
    have "payload h5 = payload h4" using ip(1) by (simp add: h5_def payload_set_link)
    also have "\<dots> = payload h2" using h2x by (auto simp: h4_def payload_def)
    also have "\<dots> = payload h" using im(1) h1(4) by (simp add: h2_def payload_set_link)
    finally show ?thesis .
  qed
  ultimately show ?thesis by (rule that)
qed

text \<open>The search of \<open>Remove\<close> and the removal.\<close>

lemma find_place_seg:
  "seg (titems m) a p (xs @ x # ys) q l \<Longrightarrow> read_place m pl = Some p \<Longrightarrow>
    payload (titems m) x = Some (key, d) \<Longrightarrow>
    (\<forall>y \<in> set xs. \<forall>e. payload (titems m) y \<noteq> Some (key, e)) \<Longrightarrow>
    find_place m key pl = Some (if xs = [] then pl else Next_of (last xs), x)"
proof (induction xs arbitrary: a p pl)
  case Nil
  then show ?case
    by (subst find_place.simps) (auto simp: payload_def split: option.splits)
next
  case (Cons z xs)
  then obtain it where it: "titems m z = Some it" "z \<noteq> NULL" "p = z"
    "seg (titems m) z (pNext it) (xs @ x # ys) q l"
    by (auto split: option.splits)
  have "Key it \<noteq> key" using Cons.prems(4) it(1) by (auto simp: payload_def)
  moreover have "read_place m (Next_of z) = Some (pNext it)" using it(1) by simp
  ultimately show ?case
    using it Cons.IH[OF it(4) _ Cons.prems(3)] Cons.prems(2,4)
    by (subst find_place.simps) auto
qed

lemma find_place_absent:
  "seg (titems m) a p xs NULL l \<Longrightarrow> read_place m pl = Some p \<Longrightarrow>
    (\<forall>y \<in> set xs. \<forall>e. payload (titems m) y \<noteq> Some (key, e)) \<Longrightarrow>
    \<exists>pl'. find_place m key pl = Some (pl', NULL)"
proof (induction xs arbitrary: a p pl)
  case Nil
  then show ?case by (subst find_place.simps) auto
next
  case (Cons z xs)
  then obtain it where it: "titems m z = Some it" "z \<noteq> NULL" "p = z"
    "seg (titems m) z (pNext it) xs NULL l"
    by (auto split: option.splits)
  have "Key it \<noteq> key" using Cons.prems(3) it(1) by (auto simp: payload_def)
  moreover have "read_place m (Next_of z) = Some (pNext it)" using it(1) by simp
  ultimately show ?case
    using it Cons.IH[OF it(4)] Cons.prems(2,3)
    by (subst find_place.simps) auto
qed

section \<open>The invariant of the table\<close>

text \<open>Bucket \<open>i\<close> chains exactly the items whose key hashes to \<open>i\<close>; keys are unique and no datum is \<open>NULL\<close>.\<close>

definition in_slot :: "str_map \<Rightarrow> nat \<Rightarrow> ptr set" where
  "in_slot m i = {x. \<exists>k d. payload (titems m) x = Some (k, d) \<and> slot_of k (m_nBuckets m) = i}"

definition chain_ok :: "str_map \<Rightarrow> nat \<Rightarrow> ptr list \<Rightarrow> bool" where
  "chain_ok m i xs \<longleftrightarrow> distinct xs \<and> set xs = in_slot m i \<and>
     (\<exists>p l. bucket m i = Some p \<and> seg (titems m) NULL p xs NULL l)"

definition payload_ok :: "(ptr \<Rightarrow> (tstring \<times> ptr) option) \<Rightarrow> bool" where
  "payload_ok f \<longleftrightarrow> (\<forall>x k d. f x = Some (k, d) \<longrightarrow> d \<noteq> NULL) \<and>
     (\<forall>x y k d e. f x = Some (k, d) \<longrightarrow> f y = Some (k, e) \<longrightarrow> x = y)"

definition table_ok :: "str_map \<Rightarrow> ptr list list \<Rightarrow> bool" where
  "table_ok m cs \<longleftrightarrow> 0 \<le> m_nBuckets m \<and> m_nBuckets m < 2 ^ 31 \<and> length cs = nat (m_nBuckets m) \<and>
     (case m_aT m of None \<Rightarrow> cs = [] | Some t \<Rightarrow> length t = length cs) \<and>
     (m_nBuckets m = 0 \<longrightarrow> titems m = Map.empty) \<and>
     (\<forall>i < length cs. chain_ok m i (cs ! i)) \<and> payload_ok (payload (titems m)) \<and>
     finite (dom (titems m)) \<and> m_nCount_of m = int (card (dom (titems m)))"

text \<open>The finite map that a table stands for.\<close>

definition contents_are :: "str_map \<Rightarrow> (tstring \<rightharpoonup> ptr) \<Rightarrow> bool" where
  "contents_are m f \<longleftrightarrow> (\<forall>k d. f k = Some d \<longleftrightarrow> (\<exists>x. payload (titems m) x = Some (k, d)))"

definition implements :: "str_map \<Rightarrow> (tstring \<rightharpoonup> ptr) \<Rightarrow> bool" where
  "implements m f \<longleftrightarrow> (\<exists>cs. table_ok m cs) \<and> contents_are m f"

lemma slot_of_less: "0 < n \<Longrightarrow> n < 2 ^ 31 \<Longrightarrow> slot_of key n < nat n"
proof -
  assume n: "0 < n" "n < 2 ^ 31"
  have u: "uint (word_of_int n :: u32) = n" using n by (simp add: uint_word_of_int)
  have "uint (HashKey key mod word_of_int n) < n"
    using n u by (simp add: uint_mod)
  thus ?thesis by (simp add: slot_of_def nat_less_iff zless_nat_eq_int_zless)
qed

lemma payload_None: "payload h x = None \<longleftrightarrow> h x = None"
  by (simp add: payload_def)

lemma in_slot_dom: "x \<in> in_slot m i \<Longrightarrow> x \<in> dom (titems m)"
  by (auto simp: in_slot_def payload_def)

lemma in_slot_disjoint: "x \<in> in_slot m i \<Longrightarrow> x \<in> in_slot m j \<Longrightarrow> i = j"
  by (auto simp: in_slot_def)

text \<open>An operation changes one chain and the items of it.\<close>

lemma chains_change:
  assumes ok: "\<forall>j < length cs. chain_ok m j (cs ! j)" and i: "i < length cs"
    and new: "chain_ok m' i xs'" and n: "m_nBuckets m' = m_nBuckets m"
    and b: "\<forall>j. j \<noteq> i \<longrightarrow> bucket m' j = bucket m j"
    and frame: "\<forall>z. z \<notin> set (cs ! i) \<longrightarrow> z \<notin> set xs' \<longrightarrow> titems m' z = titems m z"
    and gone: "\<forall>z \<in> set (cs ! i). z \<notin> set xs' \<longrightarrow> titems m' z = None"
    and fresh: "\<forall>z \<in> set xs'. z \<notin> set (cs ! i) \<longrightarrow> titems m z = None"
  shows "\<forall>j < length cs. chain_ok m' j (cs[i := xs'] ! j)"
proof (intro allI impI)
  fix j assume j: "j < length cs"
  show "chain_ok m' j (cs[i := xs'] ! j)"
  proof (cases "j = i")
    case True
    with i new show ?thesis by simp
  next
    case False
    have old: "chain_ok m j (cs ! j)" "chain_ok m i (cs ! i)" using ok i j by auto
    have same: "titems m' z = titems m z \<and> z \<notin> set xs'" if "z \<in> in_slot m j" for z
    proof -
      have "z \<notin> set (cs ! i)" using in_slot_disjoint[OF that] old(2) False unfolding chain_ok_def by blast
      moreover have "titems m z \<noteq> None" using in_slot_dom[OF that] by auto
      moreover from calculation have "z \<notin> set xs'" using fresh by auto
      ultimately show ?thesis using frame by simp
    qed
    have same': "titems m z = titems m' z" if "z \<in> in_slot m' j" for z
    proof -
      have "z \<notin> set xs'" using in_slot_disjoint[OF that] new False unfolding chain_ok_def by blast
      moreover have "titems m' z \<noteq> None" using in_slot_dom[OF that] by auto
      moreover from calculation have "z \<notin> set (cs ! i)" using gone by auto
      ultimately show ?thesis using frame by simp
    qed
    have "z \<in> in_slot m' j \<longleftrightarrow> z \<in> in_slot m j" for z
    proof (cases "z \<in> in_slot m j \<or> z \<in> in_slot m' j")
      case True
      hence "payload (titems m') z = payload (titems m) z"
        using same[of z] same'[of z] by (auto simp: payload_def)
      thus ?thesis by (simp add: in_slot_def n)
    qed blast
    hence "in_slot m' j = in_slot m j" by blast
    moreover obtain p l where "bucket m j = Some p" "seg (titems m) NULL p (cs ! j) NULL l"
      using old(1) by (auto simp: chain_ok_def)
    moreover have "seg (titems m') NULL p (cs ! j) NULL l = seg (titems m) NULL p (cs ! j) NULL l"
      by (rule seg_frame) (use same old(1) in \<open>auto simp: chain_ok_def\<close>)
    ultimately show ?thesis using old(1) False b by (auto simp: chain_ok_def)
  qed
qed

lemma dom_payload [simp]: "dom (payload h) = dom h"
  by (auto simp: payload_def dom_def)

lemma bucket_set_bucket:
  "bucket (set_bucket i p m) j = (if j = i then map_option (\<lambda>_. p) (bucket m i) else bucket m j)"
  by (cases "m_aT m") (auto simp: bucket_def set_bucket_def)

lemma set_bucket_simps [simp]:
  "m_nBuckets (set_bucket i p m) = m_nBuckets m" "titems (set_bucket i p m) = titems m"
  "m_nCount_of (set_bucket i p m) = m_nCount_of m"
  "m_aT (set_bucket i p m) = map_option (\<lambda>t. t[i := p]) (m_aT m)"
  by (simp_all add: set_bucket_def)

lemma bucket_updates [simp]:
  "bucket (m\<lparr>titems := h\<rparr>) i = bucket m i" "bucket (m\<lparr>m_nCount_of := c\<rparr>) i = bucket m i"
  by (simp_all add: bucket_def)

lemma table_ok_change:
  assumes ok: "table_ok m cs" and i: "i < length cs" and new: "chain_ok m' i xs'"
    and n: "m_nBuckets m' = m_nBuckets m" and len: "map_option length (m_aT m') = map_option length (m_aT m)"
    and b: "\<forall>j. j \<noteq> i \<longrightarrow> bucket m' j = bucket m j"
    and frame: "\<forall>z. z \<notin> set (cs ! i) \<longrightarrow> z \<notin> set xs' \<longrightarrow> titems m' z = titems m z"
    and gone: "\<forall>z \<in> set (cs ! i). z \<notin> set xs' \<longrightarrow> titems m' z = None"
    and fresh: "\<forall>z \<in> set xs'. z \<notin> set (cs ! i) \<longrightarrow> titems m z = None"
    and pl: "payload_ok (payload (titems m'))" and fin: "finite (dom (titems m'))"
    and count: "m_nCount_of m' = int (card (dom (titems m')))"
  shows "table_ok m' (cs[i := xs'])"
proof -
  have ch: "\<forall>j < length cs. chain_ok m j (cs ! j)" using ok by (simp add: table_ok_def)
  have "\<forall>j < length cs. chain_ok m' j (cs[i := xs'] ! j)"
    by (rule chains_change[OF ch i new n b frame gone fresh])
  moreover have "case m_aT m' of None \<Rightarrow> cs[i := xs'] = [] | Some t \<Rightarrow> length t = length (cs[i := xs'])"
    using ok len by (auto simp: table_ok_def split: option.splits)
  moreover have "m_nBuckets m \<noteq> 0" using ok i by (auto simp: table_ok_def)
  ultimately show ?thesis
    using ok n pl fin count by (simp add: table_ok_def)
qed

text \<open>The bucket of a key.\<close>

lemma bucket_of_key:
  assumes "table_ok m cs" and "m_nBuckets m \<noteq> 0"
  shows "slot_of key (m_nBuckets m) < length cs"
    and "chain_ok m (slot_of key (m_nBuckets m)) (cs ! slot_of key (m_nBuckets m))"
  using assms slot_of_less[of "m_nBuckets m" key] by (auto simp: table_ok_def)

lemma bucket_absent:
  assumes ok: "table_ok m cs" and f: "contents_are m f" and n: "m_nBuckets m \<noteq> 0"
    and no: "f key = None" and i: "i = slot_of key (m_nBuckets m)"
  obtains p l where "bucket m i = Some p" and "seg (titems m) NULL p (cs ! i) NULL l"
    and "distinct (cs ! i)" and "set (cs ! i) = in_slot m i"
    and "\<forall>y \<in> set (cs ! i). \<forall>e. payload (titems m) y \<noteq> Some (key, e)"
proof -
  have "\<forall>y e. payload (titems m) y \<noteq> Some (key, e)"
    using f no unfolding contents_are_def by (metis option.distinct(1))
  with bucket_of_key(2)[OF ok n, of key] i show ?thesis
    by (auto simp: chain_ok_def intro: that)
qed

lemma bucket_present:
  assumes ok: "table_ok m cs" and f: "contents_are m f" and n: "m_nBuckets m \<noteq> 0"
    and yes: "f key = Some d" and i: "i = slot_of key (m_nBuckets m)"
  obtains p l xs x ys where "bucket m i = Some p" and "seg (titems m) NULL p (xs @ x # ys) NULL l"
    and "distinct (xs @ x # ys)" and "set (xs @ x # ys) = in_slot m i" and "cs ! i = xs @ x # ys"
    and "payload (titems m) x = Some (key, d)"
    and "\<forall>y \<in> set xs. \<forall>e. payload (titems m) y \<noteq> Some (key, e)"
proof -
  from f yes obtain x where x: "payload (titems m) x = Some (key, d)" by (auto simp: contents_are_def)
  have c: "chain_ok m i (cs ! i)" using bucket_of_key(2)[OF ok n, of key] i by simp
  hence "x \<in> set (cs ! i)" using x i by (auto simp: chain_ok_def in_slot_def)
  then obtain xs ys where s: "cs ! i = xs @ x # ys" by (meson split_list)
  have "payload_ok (payload (titems m))" using ok by (simp add: table_ok_def)
  hence "y = x" if "payload (titems m) y = Some (key, e)" for y e
    using x that unfolding payload_ok_def by metis
  hence "\<forall>y \<in> set xs. \<forall>e. payload (titems m) y \<noteq> Some (key, e)"
    using c s by (auto simp: chain_ok_def)
  with c s x show ?thesis by (auto simp: chain_ok_def intro: that)
qed

lemma empty_table:
  assumes "table_ok m cs" and "contents_are m f" and "m_nBuckets m = 0 \<or> map_GetSize m = 0"
  shows "f = Map.empty"
proof -
  have "titems m = Map.empty"
    using assms(1,3) by (auto simp: table_ok_def map_GetSize_def)
  thus ?thesis
    using assms(2) by (auto simp: contents_are_def payload_def intro!: ext)
qed

text \<open>The operations.\<close>

lemma chain_okI:
  "bucket m i = Some p \<Longrightarrow> seg (titems m) NULL p xs NULL l \<Longrightarrow> distinct xs \<Longrightarrow> set xs = in_slot m i \<Longrightarrow>
    chain_ok m i xs"
  by (auto simp: chain_ok_def)

lemma implements_same_payload:
  "payload (titems m') = payload (titems m) \<Longrightarrow> contents_are m f \<Longrightarrow> contents_are m' f"
  by (simp add: contents_are_def)

lemma map_Find_ok:
  assumes "implements m f"
  obtains m' where "map_Find key opt m = Some (case f key of None \<Rightarrow> NULL | Some d \<Rightarrow> d, m')"
    and "implements m' f" and "m_nBuckets m' = m_nBuckets m" and "m_nCount_of m' = m_nCount_of m"
proof (cases "m_nBuckets m = 0 \<or> map_GetSize m = 0")
  case True
  with assms empty_table[of m _ f] show ?thesis
    by (intro that[of m]) (auto simp: map_Find_def implements_def)
next
  case False
  from assms obtain cs where ok: "table_ok m cs" and f: "contents_are m f" by (auto simp: implements_def)
  from False have n: "m_nBuckets m \<noteq> 0" by simp
  define i where "i = slot_of key (m_nBuckets m)"
  show ?thesis
  proof (cases "f key")
    case None
    from bucket_absent[OF ok f n None i_def] obtain p l where
      "bucket m i = Some p" "find_item (titems m) key p = Some NULL"
      using find_item_absent by metis
    with False None assms show ?thesis
      by (intro that[of m]) (auto simp: map_Find_def i_def[symmetric])
  next
    case (Some d)
    from bucket_present[OF ok f n Some i_def] obtain p l xs x ys where
      p: "bucket m i = Some p" and s: "seg (titems m) NULL p (xs @ x # ys) NULL l"
      and d: "distinct (xs @ x # ys)" and set: "set (xs @ x # ys) = in_slot m i"
      and cs: "cs ! i = xs @ x # ys" and x: "payload (titems m) x = Some (key, d)"
      and find: "find_item (titems m) key p = Some x"
      using find_item_seg by metis
    from x obtain it where it: "titems m x = Some it" "Data it = d" by (auto simp: payload_def)
    have x0: "x \<noteq> NULL" using seg_nodes[OF s] by auto
    have il: "i < length cs" using bucket_of_key(1)[OF ok n] i_def by simp
    show ?thesis
    proof (cases "opt \<and> x \<noteq> p")
      case True
      hence "xs \<noteq> []" using s by (auto simp: seg_first[OF s])
      from move_to_front_seg[OF s d this] obtain h' l' where h':
        "move_to_front p x (titems m) = Some h'" "seg h' NULL x (x # xs @ ys) NULL l'"
        "\<forall>z. z \<notin> set (xs @ x # ys) \<longrightarrow> h' z = titems m z" "payload h' = payload (titems m)" .
      define m' where "m' = set_bucket i x (m\<lparr>titems := h'\<rparr>)"
      have dom: "dom h' = dom (titems m)" using dom_payload[of h'] h'(4) by simp
      have sl: "in_slot m' i = in_slot m i" by (simp add: in_slot_def m'_def h'(4))
      have "table_ok m' (cs[i := x # xs @ ys])"
      proof (rule table_ok_change[OF ok il])
        show "chain_ok m' i (x # xs @ ys)"
          by (rule chain_okI[of _ _ x _ l'])
            (use p h'(2) d set sl in \<open>auto simp: m'_def bucket_set_bucket\<close>)
      qed (use ok h'(3,4) cs dom in \<open>auto simp: m'_def bucket_set_bucket table_ok_def option.map_comp comp_def\<close>)
      moreover have "contents_are m' f" using f by (rule implements_same_payload[rotated]) (simp add: m'_def h'(4))
      ultimately have "implements m' f" by (auto simp: implements_def)
      moreover have "map_Find key opt m = Some (d, m')"
        using False True p find x0 it h'(1) by (auto simp: map_Find_def i_def[symmetric] m'_def)
      ultimately show ?thesis using Some by (intro that[of m']) (auto simp: m'_def)
    next
      case nomove: False
      have "map_Find key opt m = Some (d, m)"
        using False nomove p find x0 it by (auto simp: map_Find_def i_def[symmetric])
      with Some assms show ?thesis by (intro that[of m]) auto
    qed
  qed
qed

lemma contents_put:
  assumes f: "contents_are m f" and uniq: "\<And>y e. payload (titems m) y = Some (key, e) \<Longrightarrow> y = x"
    and x: "payload (titems m) x = None \<or> (\<exists>e. payload (titems m) x = Some (key, e))"
    and p: "payload h = (payload (titems m))(x \<mapsto> (key, d))"
  shows "(f(key \<mapsto> d)) k = Some e \<longleftrightarrow> (\<exists>y. payload h y = Some (k, e))"
proof (cases "k = key")
  case True
  have "payload h y = Some (key, e) \<longleftrightarrow> y = x \<and> d = e" for y using uniq by (auto simp: p)
  with True show ?thesis by simp
next
  case False
  have "payload h y = Some (k, e) \<longleftrightarrow> payload (titems m) y = Some (k, e)" for y
    using False x by (auto simp: p)
  with False f show ?thesis by (simp add: contents_are_def)
qed

lemma contents_drop:
  assumes f: "contents_are m f" and uniq: "\<And>y e. payload (titems m) y = Some (key, e) \<Longrightarrow> y = x"
    and x: "payload (titems m) x = Some (key, d)"
  shows "(f(key := None)) k = Some e \<longleftrightarrow> (\<exists>y. ((payload (titems m))(x := None)) y = Some (k, e))"
proof (cases "k = key")
  case True
  have "((payload (titems m))(x := None)) y \<noteq> Some (key, e)" for y using uniq[of y e] by auto
  with True show ?thesis by simp
next
  case False
  have "((payload (titems m))(x := None)) y = Some (k, e) \<longleftrightarrow> payload (titems m) y = Some (k, e)" for y
    using False x by auto
  with False f show ?thesis by (simp add: contents_are_def)
qed

text \<open>The allocator gives an address that no item has.\<close>

definition new_ok :: "(titems \<Rightarrow> ptr) \<Rightarrow> bool" where
  "new_ok new \<longleftrightarrow> (\<forall>h. finite (dom h) \<longrightarrow> new h \<noteq> NULL \<and> h (new h) = None)"

lemma map_Insert_present:
  assumes "implements m f" and "f key = Some d0" and "m_nBuckets m \<noteq> 0"
  obtains m' where "map_Insert new key d m = Some (False, m')" and "implements m' f"
    and "m_nBuckets m' = m_nBuckets m"
proof -
  from map_Find_ok[OF assms(1), of key True] assms(2) obtain m' where
    m': "map_Find key True m = Some (d0, m')" "implements m' f" "m_nBuckets m' = m_nBuckets m"
    by (metis option.simps(5))
  moreover have "d0 \<noteq> NULL"
    using assms(1,2) by (auto simp: implements_def table_ok_def payload_ok_def contents_are_def)
  ultimately show ?thesis
    using assms(3) by (intro that[of m']) (simp_all add: map_Insert_def)
qed

lemma map_Insert_absent:
  assumes "implements m f" and no: "f key = None" and n: "m_nBuckets m \<noteq> 0"
    and new: "new_ok new" and d: "d \<noteq> NULL"
  obtains m' where "map_Insert new key d m = Some (True, m')" and "implements m' (f(key \<mapsto> d))"
    and "m_nBuckets m' = m_nBuckets m"
proof -
  from map_Find_ok[OF assms(1), of key True] no obtain m1 where
    m1: "map_Find key True m = Some (NULL, m1)" "implements m1 f" "m_nBuckets m1 = m_nBuckets m"
    by (metis option.simps(4))
  then obtain cs where ok: "table_ok m1 cs" and f: "contents_are m1 f" by (auto simp: implements_def)
  have n1: "m_nBuckets m1 \<noteq> 0" using m1(3) n by simp
  define i where "i = slot_of key (m_nBuckets m1)"
  define x where "x = new (titems m1)"
  have x: "x \<noteq> NULL" "titems m1 x = None"
    using new ok by (auto simp: new_ok_def table_ok_def x_def)
  from bucket_absent[OF ok f n1 no i_def] obtain p l where p: "bucket m1 i = Some p"
    and s: "seg (titems m1) NULL p (cs ! i) NULL l" and dis: "distinct (cs ! i)"
    and set: "set (cs ! i) = in_slot m1 i" .
  have il: "i < length cs" using bucket_of_key(1)[OF ok n1] i_def by simp
  have xn: "x \<notin> set (cs ! i)" using x(2) in_slot_dom[of x m1 i] set by auto
  define it where "it = \<lparr>Key = key, Data = d, pPrev = NULL, pNext = p\<rparr>"
  define h where "h = (titems m1)(x \<mapsto> it)"
  from seg_skip_prev[of h NULL p "cs ! i" l x] s dis xn obtain h1 l1 where h1:
    "(if p \<noteq> NULL then set_pPrev p x h else Some h) = Some h1" "seg h1 x p (cs ! i) NULL l1"
    "\<forall>z. z \<notin> set (cs ! i) \<longrightarrow> h1 z = h z" "payload h1 = payload h"
    by (auto simp: h_def)
  define m' where "m' = (set_bucket i x (m1\<lparr>titems := h1\<rparr>))\<lparr>m_nCount_of := m_nCount_of m1 + 1\<rparr>"
  have pl: "payload h1 = (payload (titems m1))(x \<mapsto> (key, d))"
    by (simp add: h1(4) h_def payload_upd it_def)
  have dom: "dom h1 = insert x (dom (titems m1))"
    using dom_payload[of h1] by (simp add: pl)
  have none: "payload (titems m1) y \<noteq> Some (key, e)" for y e
    using f no unfolding contents_are_def by (metis option.distinct(1))
  have "in_slot m' i = insert x (in_slot m1 i)"
    using x(2) by (auto simp: in_slot_def m'_def pl i_def payload_None)
  hence ch: "chain_ok m' i (x # cs ! i)"
    using p h1(2,3) xn dis set x(1)
    by (intro chain_okI[of _ _ x _ l1]) (auto simp: m'_def bucket_set_bucket h_def it_def)
  have xp: "payload (titems m1) x = None" using x(2) by (simp add: payload_None)
  have "table_ok m' (cs[i := x # cs ! i])"
  proof (rule table_ok_change[OF ok il ch])
    show "payload_ok (payload (titems m'))"
      using ok d none by (auto simp: table_ok_def payload_ok_def m'_def pl)
    show "finite (dom (titems m'))" using ok by (simp add: table_ok_def m'_def dom)
    have "x \<notin> dom (titems m1)" using x(2) by auto
    thus "m_nCount_of m' = int (card (dom (titems m')))"
      using ok by (simp add: table_ok_def m'_def dom)
  qed (use h1(3) x(2) in \<open>auto simp: m'_def bucket_set_bucket h_def option.map_comp comp_def\<close>)
  moreover have "contents_are m' (f(key \<mapsto> d))"
    using contents_put[OF f _ _ pl] none xp by (simp add: contents_are_def m'_def)
  ultimately have "implements m' (f(key \<mapsto> d))" by (auto simp: implements_def)
  moreover have "map_Insert new key d m = Some (True, m')"
    using n m1(1) p h1(1)
    by (simp add: map_Insert_def i_def[symmetric] m1(3)[symmetric] x_def[symmetric] it_def[symmetric]
        h_def[symmetric] m'_def)
  ultimately show ?thesis using m1(3) by (intro that[of m']) (auto simp: m'_def)
qed

lemma seg_upd_data:
  "h x = Some it \<Longrightarrow> seg (h(x \<mapsto> it\<lparr>Data := d\<rparr>)) a p xs q l = seg h a p xs q l"
  by (induction xs arbitrary: a p) (auto split: option.splits)

lemma map_Set_present:
  assumes "implements m f" and yes: "f key = Some d0" and n: "m_nBuckets m \<noteq> 0" and d: "d \<noteq> NULL"
  obtains m' where "map_Set new key d m = Some (d0, m')" and "implements m' (f(key \<mapsto> d))"
    and "m_nBuckets m' = m_nBuckets m"
proof -
  from assms obtain cs where ok: "table_ok m cs" and f: "contents_are m f" by (auto simp: implements_def)
  define i where "i = slot_of key (m_nBuckets m)"
  from bucket_present[OF ok f n yes i_def] obtain p l xs x ys where
    p: "bucket m i = Some p" and s: "seg (titems m) NULL p (xs @ x # ys) NULL l"
    and x: "payload (titems m) x = Some (key, d0)"
    and find: "find_item (titems m) key p = Some x"
    using find_item_seg by metis
  from x obtain it where it: "titems m x = Some it" "Key it = key" "Data it = d0" by (auto simp: payload_def)
  have x0: "x \<noteq> NULL" using seg_nodes[OF s] by auto
  define h where "h = (titems m)(x \<mapsto> it\<lparr>Data := d\<rparr>)"
  define m' where "m' = m\<lparr>titems := h\<rparr>"
  have pl: "payload h = (payload (titems m))(x \<mapsto> (key, d))" by (simp add: h_def payload_upd it)
  have dom: "dom h = dom (titems m)" using it(1) by (auto simp: h_def)
  have sl: "in_slot m' j = in_slot m j" for j
    using x by (auto simp: in_slot_def m'_def pl)
  have sg: "seg h a q zs r w = seg (titems m) a q zs r w" for a q zs r w
    unfolding h_def by (rule seg_upd_data) (rule it(1))
  have "chain_ok m' j zs" if "chain_ok m j zs" for j zs
    using that unfolding chain_ok_def sl by (simp add: m'_def sg)
  moreover have pk: "payload_ok (payload (titems m))" using ok by (simp add: table_ok_def)
  hence "payload_ok (payload h)"
    using d x unfolding payload_ok_def pl by auto
  ultimately have "table_ok m' cs"
    using ok dom n by (simp add: table_ok_def m'_def)
  moreover have uniq: "y = x" if "payload (titems m) y = Some (key, e)" for y e
    using pk x that unfolding payload_ok_def by metis
  have "contents_are m' (f(key \<mapsto> d))"
    using contents_put[OF f uniq _ pl] x by (simp add: contents_are_def m'_def)
  ultimately have "implements m' (f(key \<mapsto> d))" by (auto simp: implements_def)
  moreover have "0 < map_GetSize m"
    using ok it(1) by (auto simp: table_ok_def map_GetSize_def card_gt_0_iff)
  hence "map_Set new key d m = Some (d0, m')"
    using n p find x0 it by (simp add: map_Set_def i_def[symmetric] m'_def h_def)
  ultimately show ?thesis by (intro that[of m']) (auto simp: m'_def)
qed

lemma map_Set_absent:
  assumes "implements m f" and no: "f key = None" and n: "m_nBuckets m \<noteq> 0"
    and new: "new_ok new" and d: "d \<noteq> NULL"
  obtains m' where "map_Set new key d m = Some (NULL, m')" and "implements m' (f(key \<mapsto> d))"
    and "m_nBuckets m' = m_nBuckets m"
proof -
  from map_Insert_absent[OF assms] obtain m' where m': "map_Insert new key d m = Some (True, m')"
    "implements m' (f(key \<mapsto> d))" "m_nBuckets m' = m_nBuckets m" .
  from assms obtain cs where ok: "table_ok m cs" and f: "contents_are m f" by (auto simp: implements_def)
  from bucket_absent[OF ok f n no refl] obtain p where
    "bucket m (slot_of key (m_nBuckets m)) = Some p" "find_item (titems m) key p = Some NULL"
    using find_item_absent by metis
  hence "map_Set new key d m = Some (NULL, m')"
    using n m'(1) by (simp add: map_Set_def)
  with m' show ?thesis by (intro that)
qed

lemma map_Remove_absent:
  assumes "implements m f" and no: "f key = None"
  shows "map_Remove key m = Some (False, m)"
proof (cases "m_nBuckets m = 0 \<or> map_GetSize m = 0")
  case False
  hence n: "m_nBuckets m \<noteq> 0" by simp
  from assms obtain cs where ok: "table_ok m cs" and f: "contents_are m f" by (auto simp: implements_def)
  define i where "i = slot_of key (m_nBuckets m)"
  from bucket_absent[OF ok f n no i_def] obtain p l where "bucket m i = Some p"
    "seg (titems m) NULL p (cs ! i) NULL l"
    "\<forall>y \<in> set (cs ! i). \<forall>e. payload (titems m) y \<noteq> Some (key, e)" .
  with find_place_absent[of m NULL p "cs ! i" l "Bucket i" key] obtain pl where
    "find_place m key (Bucket i) = Some (pl, NULL)" by auto
  with False show ?thesis by (auto simp: map_Remove_def i_def)
qed (auto simp: map_Remove_def)

lemma map_Remove_present:
  assumes "implements m f" and yes: "f key = Some d" and n: "m_nBuckets m \<noteq> 0"
  obtains m' where "map_Remove key m = Some (True, m')" and "implements m' (f(key := None))"
    and "m_nBuckets m' = m_nBuckets m"
proof -
  from assms obtain cs where ok: "table_ok m cs" and f: "contents_are m f" by (auto simp: implements_def)
  define i where "i = slot_of key (m_nBuckets m)"
  from bucket_present[OF ok f n yes i_def] obtain p l xs x ys where
    p: "bucket m i = Some p" and s: "seg (titems m) NULL p (xs @ x # ys) NULL l"
    and dis: "distinct (xs @ x # ys)" and set: "set (xs @ x # ys) = in_slot m i"
    and cs: "cs ! i = xs @ x # ys" and x: "payload (titems m) x = Some (key, d)"
    and before: "\<forall>y \<in> set xs. \<forall>e. payload (titems m) y \<noteq> Some (key, e)" .
  define pl where "pl = (if xs = [] then Bucket i else Next_of (last xs))"
  have find: "find_place m key (Bucket i) = Some (pl, x)"
    using find_place_seg[OF s _ x before, of "Bucket i"] p by (simp add: pl_def)
  from s obtain it w where it: "titems m x = Some it" and x0: "x \<noteq> NULL"
    and xs: "seg (titems m) NULL p xs x w" and w: "pPrev it = w"
    and ys: "seg (titems m) x (pNext it) ys NULL l"
    by (auto simp: seg_append split: option.splits)
  have "\<exists>m1 p1. write_place pl (pNext it) m = Some m1 \<and> bucket m1 i = Some p1 \<and>
      seg (titems m1) NULL p1 xs (pNext it) w \<and> payload (titems m1) = payload (titems m) \<and>
      (\<forall>z. z \<notin> set xs \<longrightarrow> titems m1 z = titems m z) \<and> m_nBuckets m1 = m_nBuckets m \<and>
      m_nCount_of m1 = m_nCount_of m \<and> (\<forall>j. j \<noteq> i \<longrightarrow> bucket m1 j = bucket m j) \<and>
      map_option length (m_aT m1) = map_option length (m_aT m)"
  proof (cases "xs = []")
    case True
    thus ?thesis using p xs by (auto simp: pl_def bucket_set_bucket option.map_comp comp_def)
  next
    case False
    from seg_new_next[OF xs _ False, of "pNext it"] dis obtain wt where wt: "titems m w = Some wt" "w \<in> set xs"
      "seg ((titems m)(w \<mapsto> wt\<lparr>pNext := pNext it\<rparr>)) NULL p xs (pNext it) w" by auto
    have "w = last xs" using seg_last[OF xs] False by simp
    thus ?thesis using False wt p
      by (auto simp: pl_def set_pNext_def payload_set_link intro: exI[of _ p])
  qed
  then obtain m1 p1 where m1: "write_place pl (pNext it) m = Some m1" "bucket m1 i = Some p1"
    "seg (titems m1) NULL p1 xs (pNext it) w" "payload (titems m1) = payload (titems m)"
    "\<forall>z. z \<notin> set xs \<longrightarrow> titems m1 z = titems m z" "m_nBuckets m1 = m_nBuckets m"
    "m_nCount_of m1 = m_nCount_of m" "\<forall>j. j \<noteq> i \<longrightarrow> bucket m1 j = bucket m j"
    "map_option length (m_aT m1) = map_option length (m_aT m)" by blast
  have it1: "titems m1 x = Some it" using m1(5) it dis by auto
  have ys1: "seg (titems m1) x (pNext it) ys NULL l"
    using ys by (subst seg_frame[of ys _ "titems m"]) (use m1(5) dis in auto)
  from seg_skip_prev[OF ys1, of w] dis obtain h1 l1 where h1:
    "(if pNext it \<noteq> NULL then set_pPrev (pNext it) w (titems m1) else Some (titems m1)) = Some h1"
    "seg h1 w (pNext it) ys NULL l1" "\<forall>z. z \<notin> set ys \<longrightarrow> h1 z = titems m1 z"
    "payload h1 = payload (titems m1)"
    by auto
  have xs2: "seg h1 NULL p1 xs (pNext it) w"
    using m1(3) by (subst seg_frame[of xs _ "titems m1"]) (use h1(3) dis in auto)
  define m' where "m' = m1\<lparr>titems := h1(x := None), m_nCount_of := m_nCount_of m1 - 1\<rparr>"
  have pl': "payload (titems m') = (payload (titems m))(x := None)"
    by (simp add: m'_def payload_upd h1(4) m1(4))
  have dom: "dom (titems m') = dom (titems m) - {x}"
    using dom_payload[of "titems m'"] by (simp add: pl')
  have uniq: "y = x" if "payload (titems m) y = Some (key, e)" for y e
    using ok x that unfolding table_ok_def payload_ok_def by metis
  have nb: "m_nBuckets m' = m_nBuckets m" by (simp add: m'_def m1(6))
  have "in_slot m' i = in_slot m i - {x}"
    by (auto simp: in_slot_def pl' nb)
  hence ch: "chain_ok m' i (xs @ ys)"
    using m1(2) h1(2) xs2 dis set
    by (intro chain_okI[of _ _ p1 _ l1]) (auto simp: m'_def bucket_def seg_append)
  have il: "i < length cs" using bucket_of_key(1)[OF ok n] i_def by simp
  have "table_ok m' (cs[i := xs @ ys])"
  proof (rule table_ok_change[OF ok il ch])
    show "payload_ok (payload (titems m'))"
      using ok unfolding table_ok_def payload_ok_def pl' by auto
    show "finite (dom (titems m'))" using ok by (simp add: table_ok_def dom)
    have "x \<in> dom (titems m)" using it by auto
    hence "card (dom (titems m)) = Suc (card (dom (titems m')))"
      unfolding dom using ok by (intro card_Suc_Diff1[symmetric]) (simp add: table_ok_def)
    moreover have "m_nCount_of m' = m_nCount_of m - 1" by (simp add: m'_def m1(7))
    ultimately show "m_nCount_of m' = int (card (dom (titems m')))"
      using ok by (simp add: table_ok_def)
    show "\<forall>j. j \<noteq> i \<longrightarrow> bucket m' j = bucket m j" using m1(8) by (simp add: m'_def bucket_def)
  qed (use h1(3) m1(5,6,9) cs dis it in \<open>auto simp: m'_def\<close>)
  moreover have "contents_are m' (f(key := None))"
    using contents_drop[OF f uniq x] by (simp add: contents_are_def pl')
  ultimately have "implements m' (f(key := None))" by (auto simp: implements_def)
  moreover have "0 < map_GetSize m"
    using ok it by (auto simp: table_ok_def map_GetSize_def card_gt_0_iff)
  hence "map_Remove key m = Some (True, m')"
    using n find x0 it m1(1) it1 h1(1) w by (auto simp: map_Remove_def i_def[symmetric] m'_def split: if_splits)
  ultimately show ?thesis by (intro that[of m']) (auto simp: m'_def m1(6))
qed

end
