(* ===== verification/Dui_Map_Props.thy ===== *)
theory Dui_Map_Props
  imports Dui_Map
begin

text \<open>
  The rest of \<open>CStdStringPtrMap\<close>: deletion of all items, the enumeration by \<open>GetAt\<close>, and the theorem that
  every sequence of calls answers as a finite map does.
\<close>

section \<open>Deleting all items\<close>

lemma delete_chain_ok:
  "seg h a p xs NULL l \<Longrightarrow> distinct xs \<Longrightarrow> delete_chain p h = Some (h |` (- set xs))"
proof (induction xs arbitrary: h a p)
  case Nil
  then show ?case by (simp add: delete_chain.simps)
next
  case (Cons x xs)
  then obtain it where it: "p = x" "x \<noteq> NULL" "h x = Some it" "seg h x (pNext it) xs NULL l"
    by (auto split: option.splits)
  have "seg (h(x := None)) x (pNext it) xs NULL l" using it(4) Cons.prems(2) by simp
  moreover have "distinct xs" using Cons.prems(2) by simp
  ultimately have "delete_chain (pNext it) (h(x := None)) = Some ((h(x := None)) |` (- set xs))"
    by (rule Cons.IH)
  also have "(h(x := None)) |` (- set xs) = h |` (- set (x # xs))"
    by (auto simp: restrict_map_def)
  finally have "delete_chain (pNext it) (h(x := None)) = Some (h |` (- set (x # xs)))" .
  with it show ?case by (subst delete_chain.simps) (simp only: if_False bind.bind_lunit)
qed

lemma delete_buckets_ok:
  assumes "\<forall>j < len. j < length t \<and> distinct (cs ! j) \<and> (\<exists>l. seg h NULL (t ! j) (cs ! j) NULL l)"
    and "\<forall>i < len. \<forall>j < len. i \<noteq> j \<longrightarrow> set (cs ! i) \<inter> set (cs ! j) = {}"
  shows "delete_buckets len t h = Some (h |` (- (\<Union>j<len. set (cs ! j))))"
  using assms
proof (induction len arbitrary: h)
  case 0
  then show ?case by simp
next
  case (Suc len)
  from Suc.prems(1) obtain l where l: "len < length t" "distinct (cs ! len)"
    "seg h NULL (t ! len) (cs ! len) NULL l" by blast
  define h1 where "h1 = h |` (- set (cs ! len))"
  have "delete_chain (t ! len) h = Some h1" unfolding h1_def by (rule delete_chain_ok) (rule l)+
  moreover have "delete_buckets len t h1 = Some (h1 |` (- (\<Union>j<len. set (cs ! j))))"
  proof (rule Suc.IH)
    show "\<forall>i < len. \<forall>j < len. i \<noteq> j \<longrightarrow> set (cs ! i) \<inter> set (cs ! j) = {}" using Suc.prems(2) by simp
    have "seg h1 NULL (t ! j) (cs ! j) NULL w = seg h NULL (t ! j) (cs ! j) NULL w" if "j < len" for j w
    proof (rule seg_frame)
      fix x assume "x \<in> set (cs ! j)"
      moreover have "set (cs ! j) \<inter> set (cs ! len) = {}" using Suc.prems(2) that by simp
      ultimately show "h1 x = h x" unfolding h1_def by (intro restrict_in) blast
    qed
    thus "\<forall>j < len. j < length t \<and> distinct (cs ! j) \<and> (\<exists>l. seg h1 NULL (t ! j) (cs ! j) NULL l)"
      using Suc.prems(1) by simp
  qed
  moreover have "h1 |` (- (\<Union>j<len. set (cs ! j))) = h |` (- (\<Union>j<Suc len. set (cs ! j)))"
    by (auto simp: h1_def restrict_map_def lessThan_Suc)
  ultimately show ?case using l(1) by simp
qed

lemma chain_facts:
  assumes "table_ok m cs" and "m_aT m = Some t"
  shows "\<forall>j < length cs. j < length t \<and> distinct (cs ! j) \<and> (\<exists>l. seg (titems m) NULL (t ! j) (cs ! j) NULL l)"
    and "\<forall>i < length cs. \<forall>j < length cs. i \<noteq> j \<longrightarrow> set (cs ! i) \<inter> set (cs ! j) = {}"
    and "\<forall>x \<in> dom (titems m). \<exists>j < length cs. x \<in> set (cs ! j)"
proof -
  from assms have ch: "\<forall>j < length cs. chain_ok m j (cs ! j)" and len: "length t = length cs"
    by (auto simp: table_ok_def)
  show "\<forall>j < length cs. j < length t \<and> distinct (cs ! j) \<and> (\<exists>l. seg (titems m) NULL (t ! j) (cs ! j) NULL l)"
    using ch len assms(2) by (auto simp: chain_ok_def bucket_def)
  show "\<forall>i < length cs. \<forall>j < length cs. i \<noteq> j \<longrightarrow> set (cs ! i) \<inter> set (cs ! j) = {}"
  proof (intro allI impI)
    fix i j assume ij: "i < length cs" "j < length cs" "i \<noteq> j"
    hence "set (cs ! i) = in_slot m i" "set (cs ! j) = in_slot m j" using ch by (auto simp: chain_ok_def)
    thus "set (cs ! i) \<inter> set (cs ! j) = {}" using in_slot_disjoint ij(3) by blast
  qed
  show "\<forall>x \<in> dom (titems m). \<exists>j < length cs. x \<in> set (cs ! j)"
  proof
    fix x assume x: "x \<in> dom (titems m)"
    then obtain k d where kd: "payload (titems m) x = Some (k, d)"
      by (metis dom_payload domD surj_pair)
    have "m_nBuckets m \<noteq> 0" using assms(1) x by (auto simp: table_ok_def)
    from bucket_of_key[OF assms(1) this, of k] kd
    show "\<exists>j < length cs. x \<in> set (cs ! j)" by (auto simp: chain_ok_def in_slot_def)
  qed
qed

lemma map_destroy_ok:
  assumes "table_ok m cs"
  shows "map_destroy m = Some (m\<lparr>m_aT := None, titems := Map.empty\<rparr>)"
proof (cases "m_aT m")
  case None
  hence "m_nBuckets m = 0" using assms by (auto simp: table_ok_def)
  hence "titems m = Map.empty" using assms by (simp add: table_ok_def)
  with None show ?thesis by (simp add: map_destroy_def)
next
  case (Some t)
  note facts = chain_facts[OF assms Some]
  have "nat (m_nBuckets m) = length cs" using assms by (simp add: table_ok_def)
  moreover have "dom (titems m) \<subseteq> (\<Union>j<length cs. set (cs ! j))" using facts(3) by blast
  hence "titems m |` (- (\<Union>j<length cs. set (cs ! j))) = Map.empty"
    by (intro ext) (auto simp: restrict_map_def)
  ultimately show ?thesis
    using delete_buckets_ok[OF facts(1,2)] Some by (simp add: map_destroy_def)
qed

lemma fresh_table_ok:
  assumes "0 < n" and "n < 2 ^ 31"
  shows "implements \<lparr>m_aT = Some (replicate (nat n) NULL), m_nBuckets = n, m_nCount_of = 0, titems = Map.empty\<rparr>
    Map.empty"
proof -
  have "table_ok \<lparr>m_aT = Some (replicate (nat n) NULL), m_nBuckets = n, m_nCount_of = 0, titems = Map.empty\<rparr>
    (replicate (nat n) [])"
    using assms by (auto simp: table_ok_def chain_ok_def in_slot_def payload_def payload_ok_def bucket_def)
  thus ?thesis by (auto simp: implements_def contents_are_def payload_def)
qed

lemma new_table_ok: "n < 2 ^ 31 \<Longrightarrow> implements (CStdStringPtrMap n) Map.empty"
  using fresh_table_ok[of 16] fresh_table_ok[of n]
  by (cases "n < 16") (simp_all add: CStdStringPtrMap_def)

lemma map_Resize_ok:
  assumes "implements m f" and "n < 2 ^ 31"
  obtains m' where "map_Resize n m = Some m'" and "implements m' Map.empty" and "m_nBuckets m' = max 0 n"
proof -
  from assms obtain cs where ok: "table_ok m cs" by (auto simp: implements_def)
  show ?thesis
  proof (cases "n > 0")
    case True
    with map_destroy_ok[OF ok] have "map_Resize n m = Some
        \<lparr>m_aT = Some (replicate (nat n) NULL), m_nBuckets = n, m_nCount_of = 0, titems = Map.empty\<rparr>"
      by (simp add: map_Resize_def)
    with fresh_table_ok[OF True assms(2)] True show ?thesis by (intro that) auto
  next
    case False
    with map_destroy_ok[OF ok] have "map_Resize n m = Some
        \<lparr>m_aT = None, m_nBuckets = 0, m_nCount_of = 0, titems = Map.empty\<rparr>"
      by (auto simp: map_Resize_def)
    moreover have "table_ok \<lparr>m_aT = None, m_nBuckets = 0, m_nCount_of = 0, titems = Map.empty\<rparr> []"
      by (simp add: table_ok_def payload_ok_def payload_def)
    hence "implements \<lparr>m_aT = None, m_nBuckets = 0, m_nCount_of = 0, titems = Map.empty\<rparr> Map.empty"
      by (auto simp: implements_def contents_are_def payload_def)
    ultimately show ?thesis using False by (intro that) auto
  qed
qed

section \<open>Sequences of calls\<close>

datatype map_call = Call_Find tstring bool | Call_Insert tstring ptr | Call_Set tstring ptr
  | Call_Remove tstring | Call_RemoveAll | Call_Resize int | Call_GetSize

datatype map_answer = Pointer ptr | Flag bool | Size int | Nothing

fun do_call :: "(titems \<Rightarrow> ptr) \<Rightarrow> map_call \<Rightarrow> str_map \<Rightarrow> (map_answer \<times> str_map) option" where
  "do_call new (Call_Find key opt) m = map_option (apfst Pointer) (map_Find key opt m)"
| "do_call new (Call_Insert key d) m = map_option (apfst Flag) (map_Insert new key d m)"
| "do_call new (Call_Set key d) m = map_option (apfst Pointer) (map_Set new key d m)"
| "do_call new (Call_Remove key) m = map_option (apfst Flag) (map_Remove key m)"
| "do_call new Call_RemoveAll m = map_option (Pair Nothing) (map_RemoveAll m)"
| "do_call new (Call_Resize n) m = map_option (Pair Nothing) (map_Resize n m)"
| "do_call new Call_GetSize m = Some (Size (map_GetSize m), m)"

text \<open>The specification: a finite map, and whether there are buckets at all.\<close>

fun map_spec :: "map_call \<Rightarrow> bool \<times> (tstring \<rightharpoonup> ptr) \<Rightarrow> map_answer \<times> bool \<times> (tstring \<rightharpoonup> ptr)" where
  "map_spec (Call_Find key opt) (u, f) = (Pointer (case f key of None \<Rightarrow> NULL | Some d \<Rightarrow> d), u, f)"
| "map_spec (Call_Insert key d) (u, f) =
     (if u \<and> f key = None then (Flag True, u, f(key \<mapsto> d)) else (Flag False, u, f))"
| "map_spec (Call_Set key d) (u, f) =
     (if u then (Pointer (case f key of None \<Rightarrow> NULL | Some d0 \<Rightarrow> d0), u, f(key \<mapsto> d)) else (Pointer d, u, f))"
| "map_spec (Call_Remove key) (u, f) = (Flag (f key \<noteq> None), u, f(key := None))"
| "map_spec Call_RemoveAll (u, f) = (Nothing, u, Map.empty)"
| "map_spec (Call_Resize n) (u, f) = (Nothing, n > 0, Map.empty)"
| "map_spec Call_GetSize (u, f) = (Size (int (card (dom f))), u, f)"

fun call_allowed :: "map_call \<Rightarrow> bool" where
  "call_allowed (Call_Insert key d) \<longleftrightarrow> d \<noteq> NULL"
| "call_allowed (Call_Set key d) \<longleftrightarrow> d \<noteq> NULL"
| "call_allowed (Call_Resize n) \<longleftrightarrow> n < 2 ^ 31"
| "call_allowed _ \<longleftrightarrow> True"

definition map_rel :: "str_map \<Rightarrow> bool \<times> (tstring \<rightharpoonup> ptr) \<Rightarrow> bool" where
  "map_rel m uf \<longleftrightarrow> implements m (snd uf) \<and> (fst uf \<longleftrightarrow> m_nBuckets m \<noteq> 0)"

lemma no_buckets_empty: "implements m f \<Longrightarrow> m_nBuckets m = 0 \<Longrightarrow> f = Map.empty"
  using empty_table by (auto simp: implements_def)

lemma keys_bij:
  assumes "implements m f"
  shows "bij_betw (\<lambda>x. fst (the (payload (titems m) x))) (dom (titems m)) (dom f)"
proof -
  from assms obtain cs where ok: "table_ok m cs" and f: "contents_are m f" by (auto simp: implements_def)
  show ?thesis
    unfolding bij_betw_def
  proof
    have pl: "payload_ok (payload (titems m))" using ok by (simp add: table_ok_def)
    show "inj_on (\<lambda>x. fst (the (payload (titems m) x))) (dom (titems m))"
    proof (rule inj_onI)
      fix x y assume xy: "x \<in> dom (titems m)" "y \<in> dom (titems m)"
        "fst (the (payload (titems m) x)) = fst (the (payload (titems m) y))"
      then obtain k d k' e where "payload (titems m) x = Some (k, d)" "payload (titems m) y = Some (k', e)"
        by (metis dom_payload domD surj_pair)
      with xy(3) pl show "x = y" unfolding payload_ok_def by simp
    qed
    show "(\<lambda>x. fst (the (payload (titems m) x))) ` dom (titems m) = dom f"
    proof (intro set_eqI iffI)
      fix k assume "k \<in> (\<lambda>x. fst (the (payload (titems m) x))) ` dom (titems m)"
      then obtain x where x: "x \<in> dom (titems m)" "k = fst (the (payload (titems m) x))" by blast
      then obtain kd where "payload (titems m) x = Some kd" by (auto simp: payload_def)
      with x(2) have "payload (titems m) x = Some (k, snd kd)" by simp
      thus "k \<in> dom f" using f by (auto simp: contents_are_def dom_def)
    next
      fix k assume "k \<in> dom f"
      then obtain x d where x: "payload (titems m) x = Some (k, d)" using f by (auto simp: contents_are_def)
      moreover from x have "x \<in> dom (titems m)" using dom_payload[of "titems m"] by blast
      ultimately show "k \<in> (\<lambda>x. fst (the (payload (titems m) x))) ` dom (titems m)"
        by (intro image_eqI[of _ _ x]) auto
    qed
  qed
qed

lemma card_contents: "implements m f \<Longrightarrow> m_nCount_of m = int (card (dom f))"
  using keys_bij[of m f, THEN bij_betw_same_card] unfolding implements_def table_ok_def by metis

lemma map_call_refines:
  assumes rel: "map_rel m uf" and call: "call_allowed c" and new: "new_ok new"
  shows "\<exists>m'. do_call new c m = Some (fst (map_spec c uf), m') \<and> map_rel m' (snd (map_spec c uf))"
proof -
  obtain u f where uf: "uf = (u, f)" by (cases uf)
  with rel have i: "implements m f" and u: "u \<longleftrightarrow> m_nBuckets m \<noteq> 0" by (auto simp: map_rel_def)
  show ?thesis
  proof (cases c)
    case (Call_Find key opt)
    from map_Find_ok[OF i, of key opt] obtain m' where
      "map_Find key opt m = Some (case f key of None \<Rightarrow> NULL | Some d \<Rightarrow> d, m')" "implements m' f"
      "m_nBuckets m' = m_nBuckets m" .
    with uf u Call_Find show ?thesis by (simp add: map_rel_def)
  next
    case (Call_Insert key d)
    show ?thesis
    proof (cases "m_nBuckets m = 0")
      case True
      with uf u i Call_Insert show ?thesis by (auto simp: map_rel_def map_Insert_def)
    next
      case n: False
      show ?thesis
      proof (cases "f key")
        case None
        from map_Insert_absent[OF i None n new, of d] Call_Insert call obtain m' where
          "map_Insert new key d m = Some (True, m')" "implements m' (f(key \<mapsto> d))"
          "m_nBuckets m' = m_nBuckets m" by auto
        with uf u n None Call_Insert show ?thesis by (auto simp: map_rel_def)
      next
        case (Some d0)
        from map_Insert_present[OF i Some n, of new d] obtain m' where
          "map_Insert new key d m = Some (False, m')" "implements m' f"
          "m_nBuckets m' = m_nBuckets m" by auto
        with uf u n Some Call_Insert show ?thesis by (auto simp: map_rel_def)
      qed
    qed
  next
    case (Call_Set key d)
    show ?thesis
    proof (cases "m_nBuckets m = 0")
      case True
      with uf u i Call_Set show ?thesis by (auto simp: map_rel_def map_Set_def)
    next
      case n: False
      have d: "d \<noteq> NULL" using Call_Set call by simp
      show ?thesis
      proof (cases "f key")
        case None
        from map_Set_absent[OF i None n new d] obtain m' where
          "map_Set new key d m = Some (NULL, m')" "implements m' (f(key \<mapsto> d))"
          "m_nBuckets m' = m_nBuckets m" by auto
        with uf u n None Call_Set show ?thesis by (auto simp: map_rel_def)
      next
        case (Some d0)
        from map_Set_present[OF i Some n d, of new] obtain m' where
          "map_Set new key d m = Some (d0, m')" "implements m' (f(key \<mapsto> d))"
          "m_nBuckets m' = m_nBuckets m" by auto
        with uf u n Some Call_Set show ?thesis by (auto simp: map_rel_def)
      qed
    qed
  next
    case (Call_Remove key)
    show ?thesis
    proof (cases "f key")
      case None
      hence "f(key := None) = f" by auto
      with map_Remove_absent[OF i None] uf u i None Call_Remove show ?thesis by (auto simp: map_rel_def)
    next
      case (Some d)
      hence n: "m_nBuckets m \<noteq> 0" using no_buckets_empty[OF i] by auto
      from map_Remove_present[OF i Some n] obtain m' where
        "map_Remove key m = Some (True, m')" "implements m' (f(key := None))"
        "m_nBuckets m' = m_nBuckets m" by auto
      with uf u n Some Call_Remove show ?thesis by (auto simp: map_rel_def)
    qed
  next
    case Call_RemoveAll
    have "m_nBuckets m < 2 ^ 31 \<and> 0 \<le> m_nBuckets m" using i by (auto simp: implements_def table_ok_def)
    with map_Resize_ok[OF i, of "m_nBuckets m"] obtain m' where
      "map_Resize (m_nBuckets m) m = Some m'" "implements m' Map.empty" "m_nBuckets m' = m_nBuckets m"
      by (metis max_absorb2)
    with uf u Call_RemoveAll show ?thesis by (auto simp: map_rel_def map_RemoveAll_def)
  next
    case (Call_Resize n)
    with call have "n < 2 ^ 31" by simp
    from map_Resize_ok[OF i this] obtain m' where
      "map_Resize n m = Some m'" "implements m' Map.empty" "m_nBuckets m' = max 0 n" .
    with uf Call_Resize show ?thesis by (auto simp: map_rel_def)
  next
    case Call_GetSize
    with uf u i card_contents[OF i] show ?thesis by (auto simp: map_rel_def map_GetSize_def)
  qed
qed

text \<open>\<open>first_free\<close> is such an allocator; it is what the examples run with.\<close>

definition first_free :: "titems \<Rightarrow> ptr" where
  "first_free h = (if h 1 = None then 1 else if h 2 = None then 2 else if h 3 = None then 3 else Suc (Max (dom h)))"

lemma first_free_ok: "new_ok first_free"
proof -
  have "h (Suc (Max (dom h))) = None" if "finite (dom h)" for h :: titems
  proof -
    have "Suc (Max (dom h)) \<notin> dom h" using Max_ge[OF that, of "Suc (Max (dom h))"] by auto
    thus ?thesis by (simp add: domIff)
  qed
  thus ?thesis by (auto simp: new_ok_def first_free_def)
qed

interpretation str_table: refinement "\<lambda>m uf. new_ok new \<and> map_rel m uf" "do_call new" map_spec "\<lambda>c _. call_allowed c"
  for new
  by unfold_locales (use map_call_refines in blast)

section \<open>Enumeration\<close>

lemma item_at_seg:
  "seg h a p xs NULL l \<Longrightarrow> item_at h i pos p =
    Some (if pos \<le> i \<and> i < pos + int (length xs) then Inr (xs ! nat (i - pos)) else Inl (pos + int (length xs)))"
proof (induction xs arbitrary: a p pos)
  case Nil
  then show ?case by (simp add: item_at.simps)
next
  case (Cons x xs)
  then obtain it where it: "p = x" "x \<noteq> NULL" "h x = Some it" "seg h x (pNext it) xs NULL l"
    by (auto split: option.splits)
  show ?case
  proof (cases "pos = i")
    case True
    with it show ?thesis by (subst item_at.simps) simp
  next
    case False
    have "nat (i - pos) = Suc (nat (i - (pos + 1)))" if "pos \<le> i" using that False by simp
    with it Cons.IH[OF it(4), of "pos + 1"] False show ?thesis
      by (subst item_at.simps) (auto simp del: nat_diff_distrib)
  qed
qed

lemma bucket_at_ok:
  assumes "\<forall>j < len. \<exists>p l. bucket m j = Some p \<and> seg (titems m) NULL p (cs ! j) NULL l" and "len \<le> length cs"
  shows "bucket_at m i pos len = (let ws = concat (rev (take len cs)) in
    Some (if pos \<le> i \<and> i < pos + int (length ws) then ws ! nat (i - pos) else NULL))"
  using assms
proof (induction len arbitrary: pos)
  case (Suc len)
  from Suc.prems obtain p l where p: "bucket m len = Some p" "seg (titems m) NULL p (cs ! len) NULL l" by blast
  define xs where "xs = cs ! len"
  define ws where "ws = concat (rev (take len cs))"
  have ws: "concat (rev (take (Suc len) cs)) = xs @ ws"
    using Suc.prems(2) by (simp add: take_Suc_conv_app_nth xs_def ws_def)
  have IH: "bucket_at m i pos1 len = Some (if pos1 \<le> i \<and> i < pos1 + int (length ws) then ws ! nat (i - pos1) else NULL)"
    for pos1 using Suc by (simp add: ws_def Let_def)
  show ?case
  proof (cases "pos \<le> i \<and> i < pos + int (length xs)")
    case True
    hence "nat (i - pos) < length xs" by linarith
    with True p show ?thesis
      unfolding ws Let_def by (simp add: item_at_seg[OF p(2)] xs_def nth_append)
  next
    case False
    have "(xs @ ws) ! nat (i - pos) = ws ! nat (i - (pos + int (length xs)))" if "pos + int (length xs) \<le> i"
    proof -
      have "nat (i - pos) = length xs + nat (i - (pos + int (length xs)))" using that by linarith
      thus ?thesis by (simp only: nth_append_length_plus)
    qed
    with False p IH show ?thesis
      unfolding ws Let_def by (auto simp: item_at_seg[OF p(2)] xs_def)
  qed
qed simp

lemma concat_rev_distinct:
  assumes "\<forall>j < length cs. distinct (cs ! j)"
    and "\<forall>i < length cs. \<forall>j < length cs. i \<noteq> j \<longrightarrow> set (cs ! i) \<inter> set (cs ! j) = {}"
  shows "distinct (concat (rev cs))"
  using assms
proof (induction cs)
  case (Cons c cs)
  have "distinct (concat (rev cs))"
  proof (rule Cons.IH)
    show "\<forall>j < length cs. distinct (cs ! j)" using Cons.prems(1) by auto
    show "\<forall>i < length cs. \<forall>j < length cs. i \<noteq> j \<longrightarrow> set (cs ! i) \<inter> set (cs ! j) = {}"
    proof (intro allI impI)
      fix i j assume "i < length cs" "j < length cs" "i \<noteq> j"
      thus "set (cs ! i) \<inter> set (cs ! j) = {}"
        using Cons.prems(2)[rule_format, of "Suc i" "Suc j"] by simp
    qed
  qed
  moreover have "set c \<inter> set (cs ! j) = {}" if "j < length cs" for j
    using Cons.prems(2)[rule_format, of 0 "Suc j"] that by simp
  hence "set (concat (rev cs)) \<inter> set c = {}" by (force simp: in_set_conv_nth)
  ultimately show ?case using Cons.prems(1) by auto
qed simp

lemma GetAt_enumerates_items:
  assumes i: "implements m f"
  obtains xs where "distinct xs" and "set xs = dom (titems m)"
    and "\<And>i. map_GetAt i m =
      Some (if 0 \<le> i \<and> i < int (length xs) then map_option fst (payload (titems m) (xs ! nat i)) else None)"
proof -
  from i obtain cs where ok: "table_ok m cs" and f: "contents_are m f" by (auto simp: implements_def)
  show ?thesis
  proof (cases "m_nBuckets m = 0 \<or> map_GetSize m = 0")
    case True
    hence "titems m = Map.empty" using ok by (auto simp: table_ok_def map_GetSize_def)
    with True show ?thesis by (intro that[of "[]"]) (auto simp: map_GetAt_def)
  next
    case False
    then obtain t where t: "m_aT m = Some t" using ok by (cases "m_aT m") (auto simp: table_ok_def)
    note facts = chain_facts[OF ok t]
    define xs where "xs = concat (rev cs)"
    have len: "nat (m_nBuckets m) = length cs" using ok by (simp add: table_ok_def)
    have "distinct xs" unfolding xs_def by (rule concat_rev_distinct) (use facts in auto)
    moreover have set: "set xs = dom (titems m)"
    proof
      have "set (cs ! j) \<subseteq> dom (titems m)" if "j < length cs" for j
        using facts(1) that seg_nodes by blast
      thus "set xs \<subseteq> dom (titems m)" by (fastforce simp: xs_def in_set_conv_nth)
      show "dom (titems m) \<subseteq> set xs" using facts(3) by (fastforce simp: xs_def)
    qed
    moreover have "map_GetAt i m =
      Some (if 0 \<le> i \<and> i < int (length xs) then map_option fst (payload (titems m) (xs ! nat i)) else None)" for i
    proof -
      have "\<forall>j < length cs. \<exists>p l. bucket m j = Some p \<and> seg (titems m) NULL p (cs ! j) NULL l"
        using facts(1) t by (auto simp: bucket_def)
      from bucket_at_ok[OF this, of i 0] have b: "bucket_at m i 0 (nat (m_nBuckets m)) =
          Some (if 0 \<le> i \<and> i < int (length xs) then xs ! nat i else NULL)"
        by (simp add: len xs_def Let_def)
      show ?thesis
      proof (cases "0 \<le> i \<and> i < int (length xs)")
        case True
        hence "nat i < length xs" by linarith
        hence "xs ! nat i \<in> set xs" by simp
        with set obtain it where it: "titems m (xs ! nat i) = Some it" by blast
        have "titems m NULL = None"
          using facts(3) facts(1) seg_nodes by (metis domIff)
        hence "xs ! nat i \<noteq> NULL" using it by (intro notI) simp
        with b it True False show ?thesis by (simp add: map_GetAt_def payload_def)
      next
        case out: False
        with b False show ?thesis by (auto simp: map_GetAt_def)
      qed
    qed
    ultimately show ?thesis by (rule that)
  qed
qed

section \<open>Properties\<close>

text \<open>
  C13: from a new table of any size, every sequence of \<open>Find\<close>, \<open>Insert\<close>, \<open>Set\<close>, \<open>Remove\<close>, \<open>RemoveAll\<close>,
  \<open>Resize\<close> and \<open>GetSize\<close> runs without following a wild pointer and answers what a finite map answers,
  although \<open>Find\<close> and \<open>Insert\<close> reorder the chains; no datum may be \<open>NULL\<close>.
\<close>

theorem str_map_refines_finite_map:
  assumes "new_ok new" and "n < 2 ^ 31" and "list_all call_allowed calls"
  shows "\<exists>m. run_calls (do_call new) calls (CStdStringPtrMap n) =
      Some (fst (spec_calls map_spec calls (True, Map.empty)), m) \<and>
    implements m (snd (snd (spec_calls map_spec calls (True, Map.empty))))"
proof -
  have "implements (CStdStringPtrMap n) Map.empty" using assms(2) by (rule new_table_ok)
  hence "new_ok new \<and> map_rel (CStdStringPtrMap n) (True, Map.empty)"
    using assms(1) by (auto simp: map_rel_def CStdStringPtrMap_def)
  from str_table.runs_alike[OF this all_allowed_static[OF assms(3)]] show ?thesis by (auto simp: map_rel_def)
qed

theorem str_map_refines_finite_map_witness:
  "\<exists>m. run_calls (do_call first_free)
      [Call_Insert [97] 5, Call_Insert [113] 6, Call_Find [97] True, Call_Set [97] 7, Call_Remove [113],
       Call_Find [113] True, Call_Insert [97] 9, Call_GetSize] (CStdStringPtrMap 16) =
    Some ([Flag True, Flag True, Pointer 5, Pointer 5, Flag True, Pointer NULL, Flag False, Size 1], m) \<and>
    implements m [[97] \<mapsto> 7]"
  using str_map_refines_finite_map[OF first_free_ok, of 16
      "[Call_Insert [97] 5, Call_Insert [113] 6, Call_Find [97] True, Call_Set [97] 7, Call_Remove [113],
       Call_Find [113] True, Call_Insert [97] 9, Call_GetSize]"]
  by (simp add: fun_upd_twist)

text \<open>
  \<open>GetAt\<close> counts through the keys of the table, each once, whatever the chains look like; every
  other index, the negative ones among them, gives \<open>NULL\<close>.
\<close>

theorem GetAt_enumerates_keys:
  assumes "implements m f"
  shows "\<exists>ks. distinct ks \<and> set ks = dom f \<and> int (length ks) = map_GetSize m \<and>
    (\<forall>i. map_GetAt i m = Some (if 0 \<le> i \<and> i < int (length ks) then Some (ks ! nat i) else None))"
proof -
  from GetAt_enumerates_items[OF assms] obtain xs where xs: "distinct xs" "set xs = dom (titems m)"
    and get: "\<And>i. map_GetAt i m =
      Some (if 0 \<le> i \<and> i < int (length xs) then map_option fst (payload (titems m) (xs ! nat i)) else None)"
    by metis
  define key where "key = (\<lambda>x. fst (the (payload (titems m) x)))"
  have bij: "bij_betw key (set xs) (dom f)" unfolding key_def xs(2) by (rule keys_bij[OF assms])
  have "distinct (map key xs)" using xs(1) bij by (simp add: distinct_map bij_betw_def)
  moreover have "set (map key xs) = dom f" using bij by (simp add: bij_betw_def)
  moreover from calculation have "int (length (map key xs)) = map_GetSize m"
    using card_contents[OF assms] by (metis distinct_card map_GetSize_def)
  moreover have "map_GetAt i m =
      Some (if 0 \<le> i \<and> i < int (length (map key xs)) then Some (map key xs ! nat i) else None)" for i
  proof (cases "0 \<le> i \<and> i < int (length xs)")
    case True
    hence "nat i < length xs" by linarith
    moreover from this have "xs ! nat i \<in> dom (titems m)" unfolding xs(2)[symmetric] by (rule nth_mem)
    then obtain kd where "payload (titems m) (xs ! nat i) = Some kd" by (auto simp: payload_def)
    ultimately show ?thesis using True get[of i] by (simp add: key_def)
  next
    case False
    with get[of i] show ?thesis by auto
  qed
  ultimately show ?thesis by blast
qed

theorem GetAt_enumerates_keys_witness:
  "\<exists>m. map_Insert first_free [97] 5 (CStdStringPtrMap 16) = Some (True, m) \<and>
    map_GetAt 0 m = Some (Some [97]) \<and> map_GetAt 1 m = Some None \<and> map_GetAt (- 1) m = Some None"
proof -
  have "m_nBuckets (CStdStringPtrMap 16) \<noteq> 0" by (simp add: CStdStringPtrMap_def)
  from map_Insert_absent[OF new_table_ok _ this first_free_ok, where key = "[97]" and d = 5] obtain m where
    m: "map_Insert first_free [97] 5 (CStdStringPtrMap 16) = Some (True, m)" "implements m [[97] \<mapsto> 5]" by auto
  from GetAt_enumerates_keys[OF m(2)] obtain ks where ks: "distinct ks" "set ks = {[97]}"
    "\<forall>i. map_GetAt i m = Some (if 0 \<le> i \<and> i < int (length ks) then Some (ks ! nat i) else None)" by auto
  have "length ks = 1" using distinct_card[OF ks(1)] ks(2) by simp
  with ks(2) have "ks = [[97]]" by (cases ks) auto
  with m(1) ks(3) show ?thesis by simp
qed

text \<open>A datum \<open>NULL\<close> makes a key look absent, so that it is inserted again.\<close>

lemma null_datum_twice:
  "\<exists>m. run_calls (do_call first_free) [Call_Insert [97] NULL, Call_Insert [97] NULL, Call_GetSize]
     (CStdStringPtrMap 16) = Some ([Flag True, Flag True, Size 2], m)"
  by (simp add: CStdStringPtrMap_def map_Insert_def map_Find_def map_GetSize_def bucket_def set_bucket_def
      find_item.simps HashKey_def slot_of_def first_free_def set_pPrev_def move_to_front_def set_pNext_def)

end
