(* ===== verification/Dui_String.thy ===== *)
theory Dui_String
  imports Dui_Base "HOL-Library.Sublist"
begin

text \<open>
  \<open>CDuiString\<close> of \<open>DuiLib/Utils/Utils.cpp\<close> for the build with \<open>_UNICODE\<close>: a text in the buffer of the object, as
  long as it has less than 63 characters, or in a block of the heap.

  A pointer to characters is the list of the cells from there to the end of its buffer; what reads or
  writes past the end is \<open>None\<close>. The environment gives the contents of new memory, which are arbitrary:
  \<open>heap_cells n\<close> for a block of \<open>n\<close> characters, \<open>None\<close> when there is none, and \<open>stack_cells\<close> for the buffer of a
  new object. Arguments do not overlap with the string itself.
\<close>

section \<open>The string functions of the C library\<close>

definition tcslen :: "tstring \<Rightarrow> nat option" where
  "tcslen p = (if 0 \<in> set p then Some (length (takeWhile (\<lambda>c. c \<noteq> 0) p)) else None)"

definition write_cells :: "tstring \<Rightarrow> nat \<Rightarrow> tstring \<Rightarrow> tstring option" where
  "write_cells xs i p =
     (if i + length xs \<le> length p then Some (take i p @ xs @ drop (i + length xs) p) else None)"

definition tcscpy :: "tstring \<Rightarrow> tstring \<Rightarrow> tstring option" where
  "tcscpy dst src = do { n \<leftarrow> tcslen src; write_cells (take (n + 1) src) 0 dst }"

definition tcscat :: "tstring \<Rightarrow> tstring \<Rightarrow> tstring option" where
  "tcscat dst src = do { m \<leftarrow> tcslen dst; n \<leftarrow> tcslen src; write_cells (take (n + 1) src) m dst }"

text \<open>\<open>strncpy\<close> pads with zeros and does not read past the terminator.\<close>

definition tcsncpy :: "tstring \<Rightarrow> tstring \<Rightarrow> nat \<Rightarrow> tstring option" where
  "tcsncpy dst src n =
     (if 0 \<in> set (take n src)
      then (let s = takeWhile (\<lambda>c. c \<noteq> 0) src in write_cells (s @ replicate (n - length s) 0) 0 dst)
      else if n \<le> length src then write_cells (take n src) 0 dst else None)"

fun tcscmp :: "tstring \<Rightarrow> tstring \<Rightarrow> int option" where
  "tcscmp (a # p) (b # q) =
     (if a < b then Some (- 1) else if b < a then Some 1 else if a = 0 then Some 0 else tcscmp p q)"
| "tcscmp _ _ = None"

fun tcschr :: "tstring \<Rightarrow> u16 \<Rightarrow> nat option option" where
  "tcschr [] ch = None"
| "tcschr (c # p) ch =
     (if c = ch then Some (Some 0) else if c = 0 then Some None
      else map_option (map_option Suc) (tcschr p ch))"

text \<open>The last occurrence; the terminator counts.\<close>

definition tcsrchr :: "tstring \<Rightarrow> u16 \<Rightarrow> nat option option" where
  "tcsrchr p ch = do {
     n \<leftarrow> tcslen p;
     Some (find (\<lambda>i. p ! i = ch) (rev [0..<n + 1]))
   }"

fun tcsstr :: "tstring \<Rightarrow> tstring \<Rightarrow> nat option option" where
  "tcsstr [] sub = None"
| "tcsstr (c # p) sub = do {
     n \<leftarrow> tcslen sub; m \<leftarrow> tcslen (c # p);
     if n \<le> m \<and> take n (c # p) = take n sub then Some (Some 0)
     else if c = 0 then Some None else map_option (map_option Suc) (tcsstr p sub)
   }"

text \<open>\<open>_tcsupr\<close> and \<open>_tcslwr\<close> in the locale \<open>"C"\<close>, which the program does not leave.\<close>

definition to_upper :: "u16 \<Rightarrow> u16" where
  "to_upper c = (if 97 \<le> c \<and> c \<le> 122 then c - 32 else c)"

definition to_lower :: "u16 \<Rightarrow> u16" where
  "to_lower c = (if 65 \<le> c \<and> c \<le> 90 then c + 32 else c)"

definition map_text :: "(u16 \<Rightarrow> u16) \<Rightarrow> tstring \<Rightarrow> tstring option" where
  "map_text f p = do { n \<leftarrow> tcslen p; Some (map f (take n p) @ drop n p) }"

section \<open>The class\<close>

definition MAX_LOCAL_STRING_LEN :: nat where
  "MAX_LOCAL_STRING_LEN = 63"

text \<open>\<open>m_pstr\<close> points at \<open>m_szBuffer\<close> when there is no block.\<close>

record dui_string =
  m_szBuffer :: tstring
  m_block :: "tstring option"

record memory =
  heap_cells :: "nat \<Rightarrow> tstring option"
  stack_cells :: tstring

definition m_pstr :: "dui_string \<Rightarrow> tstring" where
  "m_pstr d = (case m_block d of None \<Rightarrow> m_szBuffer d | Some b \<Rightarrow> b)"

definition set_pstr :: "tstring \<Rightarrow> dui_string \<Rightarrow> dui_string" where
  "set_pstr p d = (case m_block d of None \<Rightarrow> d\<lparr>m_szBuffer := p\<rparr> | Some b \<Rightarrow> d\<lparr>m_block := Some p\<rparr>)"

definition dstr_GetLength :: "dui_string \<Rightarrow> int option" where
  "dstr_GetLength d = map_option int (tcslen (m_pstr d))"

definition put_char :: "nat \<Rightarrow> u16 \<Rightarrow> dui_string \<Rightarrow> dui_string option" where
  "put_char i c d = do { p \<leftarrow> write_cells [c] i (m_pstr d); Some (set_pstr p d) }"

definition CDuiString_empty :: "memory \<Rightarrow> dui_string option" where
  "CDuiString_empty M = put_char 0 0 \<lparr>m_szBuffer = stack_cells M, m_block = None\<rparr>"

definition CDuiString_char :: "memory \<Rightarrow> u16 \<Rightarrow> dui_string option" where
  "CDuiString_char M ch = do {
     d \<leftarrow> put_char 0 ch \<lparr>m_szBuffer = stack_cells M, m_block = None\<rparr>;
     put_char 1 0 d
   }"

definition dstr_Empty :: "dui_string \<Rightarrow> dui_string option" where
  "dstr_Empty d = put_char 0 0 (d\<lparr>m_block := None\<rparr>)"

definition dstr_Append :: "memory \<Rightarrow> tstring \<Rightarrow> dui_string \<Rightarrow> dui_string option" where
  "dstr_Append M pstr d = do {
     n1 \<leftarrow> tcslen (m_pstr d);
     n2 \<leftarrow> tcslen pstr;
     let nNewLength = n1 + n2;
     if nNewLength \<ge> MAX_LOCAL_STRING_LEN
     then
       (case m_block d of
          None \<Rightarrow> do {
            b \<leftarrow> heap_cells M (nNewLength + 1);
            b1 \<leftarrow> tcscpy b (m_szBuffer d);
            b2 \<leftarrow> tcscat b1 pstr;
            Some (d\<lparr>m_block := Some b2\<rparr>)
          }
        | Some old \<Rightarrow> do {
            b \<leftarrow> heap_cells M (nNewLength + 1);
            b2 \<leftarrow> tcscat (take (length b) old @ drop (length old) b) pstr;
            Some (d\<lparr>m_block := Some b2\<rparr>)
          })
     else do {
       let d1 = d\<lparr>m_block := None\<rparr>;
       p \<leftarrow> tcscat (m_szBuffer d1) pstr;
       Some (d1\<lparr>m_szBuffer := p\<rparr>)
     }
   }"

text \<open>The choice of the storage in \<open>Assign\<close>.\<close>

definition assign_room :: "memory \<Rightarrow> nat \<Rightarrow> dui_string \<Rightarrow> dui_string option" where
  "assign_room M n d =
     (if n < MAX_LOCAL_STRING_LEN then Some (d\<lparr>m_block := None\<rparr>)
      else do {
        len \<leftarrow> tcslen (m_pstr d);
        if n > len \<or> m_block d = None
        then do {
          b \<leftarrow> heap_cells M (n + 1);
          let old = (case m_block d of None \<Rightarrow> [] | Some b0 \<Rightarrow> b0);
          Some (d\<lparr>m_block := Some (take (length b) old @ drop (length old) b)\<rparr>)
        }
        else Some d
      })"

text \<open>\<open>pstr\<close> is \<open>None\<close> for \<open>NULL\<close>.\<close>

definition dstr_Assign :: "memory \<Rightarrow> tstring option \<Rightarrow> int \<Rightarrow> dui_string \<Rightarrow> dui_string option" where
  "dstr_Assign M pstr cchMax d = do {
     let src = (case pstr of None \<Rightarrow> [0] | Some p \<Rightarrow> p);
     n \<leftarrow> (if cchMax < 0 then tcslen src else Some (nat cchMax));
     d1 \<leftarrow> assign_room M n d;
     p \<leftarrow> tcsncpy (m_pstr d1) src n;
     put_char n 0 (set_pstr p d1)
   }"

definition CDuiString_text :: "memory \<Rightarrow> tstring option \<Rightarrow> int \<Rightarrow> dui_string option" where
  "CDuiString_text M lpsz nLen = do { d \<leftarrow> CDuiString_empty M; dstr_Assign M lpsz nLen d }"

definition CDuiString_copy :: "memory \<Rightarrow> dui_string \<Rightarrow> dui_string option" where
  "CDuiString_copy M src = do { d \<leftarrow> CDuiString_empty M; dstr_Assign M (Some (m_pstr src)) (- 1) d }"

definition dstr_IsEmpty :: "dui_string \<Rightarrow> bool option" where
  "dstr_IsEmpty d = (case m_pstr d of [] \<Rightarrow> None | c # _ \<Rightarrow> Some (c = 0))"

definition dstr_GetAt :: "int \<Rightarrow> dui_string \<Rightarrow> u16 option" where
  "dstr_GetAt nIndex d =
     (if 0 \<le> nIndex \<and> nat nIndex < length (m_pstr d) then Some (m_pstr d ! nat nIndex) else None)"

definition dstr_SetAt :: "int \<Rightarrow> u16 \<Rightarrow> dui_string \<Rightarrow> dui_string option" where
  "dstr_SetAt nIndex ch d = (if 0 \<le> nIndex then put_char (nat nIndex) ch d else None)"

text \<open>The assignments and additions that the operators of the class are.\<close>

definition dstr_assign_string :: "memory \<Rightarrow> dui_string \<Rightarrow> dui_string \<Rightarrow> dui_string option" where
  "dstr_assign_string M src d = dstr_Assign M (Some (m_pstr src)) (- 1) d"

definition dstr_assign_text :: "memory \<Rightarrow> tstring option \<Rightarrow> dui_string \<Rightarrow> dui_string option" where
  "dstr_assign_text M lpStr d =
     (case lpStr of Some p \<Rightarrow> dstr_Assign M (Some p) (- 1) d | None \<Rightarrow> dstr_Empty d)"

definition dstr_assign_char :: "u16 \<Rightarrow> dui_string \<Rightarrow> dui_string option" where
  "dstr_assign_char ch d = do {
     d1 \<leftarrow> dstr_Empty d;
     p1 \<leftarrow> write_cells [ch] 0 (m_szBuffer d1);
     p2 \<leftarrow> write_cells [0] 1 p1;
     Some (d1\<lparr>m_szBuffer := p2\<rparr>)
   }"

definition dstr_add_string :: "memory \<Rightarrow> dui_string \<Rightarrow> dui_string \<Rightarrow> dui_string option" where
  "dstr_add_string M src d = dstr_Append M (m_pstr src) d"

definition dstr_add_text :: "memory \<Rightarrow> tstring option \<Rightarrow> dui_string \<Rightarrow> dui_string option" where
  "dstr_add_text M lpStr d = (case lpStr of Some p \<Rightarrow> dstr_Append M p d | None \<Rightarrow> Some d)"

definition dstr_add_char :: "memory \<Rightarrow> u16 \<Rightarrow> dui_string \<Rightarrow> dui_string option" where
  "dstr_add_char M ch d = dstr_Append M [ch, 0] d"

definition dstr_plus_string :: "memory \<Rightarrow> dui_string \<Rightarrow> dui_string \<Rightarrow> dui_string option" where
  "dstr_plus_string M src d = do { t \<leftarrow> CDuiString_copy M d; dstr_Append M (m_pstr src) t }"

definition dstr_plus_text :: "memory \<Rightarrow> tstring option \<Rightarrow> dui_string \<Rightarrow> dui_string option" where
  "dstr_plus_text M lpStr d =
     (case lpStr of
        Some p \<Rightarrow> do { t \<leftarrow> CDuiString_copy M d; dstr_Append M p t }
      | None \<Rightarrow> CDuiString_copy M d)"

text \<open>
  The operators for a text of bytes: a buffer of \<open>cchStr\<close> \<^emph>\<open>bytes\<close> on the stack for \<open>MultiByteToWideChar\<close>, which
  may write \<open>cchStr\<close> characters of two bytes. \<open>wide\<close> is the converted text with its terminator.
\<close>

definition wide_on_stack :: "8 word list \<Rightarrow> tstring \<Rightarrow> tstring option" where
  "wide_on_stack lpStr wide =
     (let cchStr = length lpStr + 1
      in if length wide \<le> cchStr
         then (if 2 * length wide \<le> cchStr then Some wide else None)
         else None)"

definition dstr_assign_bytes ::
  "memory \<Rightarrow> (8 word list \<Rightarrow> tstring) \<Rightarrow> 8 word list option \<Rightarrow> dui_string \<Rightarrow> dui_string option" where
  "dstr_assign_bytes M conv lpStr d =
     (case lpStr of
        Some s \<Rightarrow> do { w \<leftarrow> wide_on_stack s (conv s); dstr_Assign M (Some w) (- 1) d }
      | None \<Rightarrow> dstr_Empty d)"

definition dstr_add_bytes ::
  "memory \<Rightarrow> (8 word list \<Rightarrow> tstring) \<Rightarrow> 8 word list option \<Rightarrow> dui_string \<Rightarrow> dui_string option" where
  "dstr_add_bytes M conv lpStr d =
     (case lpStr of
        Some s \<Rightarrow> do { w \<leftarrow> wide_on_stack s (conv s); dstr_Append M w d }
      | None \<Rightarrow> Some d)"

definition dstr_Compare :: "tstring \<Rightarrow> dui_string \<Rightarrow> int option" where
  "dstr_Compare lpsz d = tcscmp (m_pstr d) lpsz"

definition dstr_MakeUpper :: "dui_string \<Rightarrow> dui_string option" where
  "dstr_MakeUpper d = do { p \<leftarrow> map_text to_upper (m_pstr d); Some (set_pstr p d) }"

definition dstr_MakeLower :: "dui_string \<Rightarrow> dui_string option" where
  "dstr_MakeLower d = do { p \<leftarrow> map_text to_lower (m_pstr d); Some (set_pstr p d) }"

text \<open>\<open>m_pstr + i\<close>; a pointer before the buffer or beyond its end is a fault.\<close>

definition pstr_from :: "int \<Rightarrow> dui_string \<Rightarrow> tstring option" where
  "pstr_from i d = (if 0 \<le> i \<and> nat i \<le> length (m_pstr d) then Some (drop (nat i) (m_pstr d)) else None)"

definition dstr_Left :: "memory \<Rightarrow> int \<Rightarrow> dui_string \<Rightarrow> dui_string option" where
  "dstr_Left M iLength d = do {
     len \<leftarrow> dstr_GetLength d;
     let iLength = (if iLength < 0 then 0 else iLength);
     let iLength = (if iLength > len then len else iLength);
     CDuiString_text M (Some (m_pstr d)) iLength
   }"

definition dstr_Mid :: "memory \<Rightarrow> int \<Rightarrow> int \<Rightarrow> dui_string \<Rightarrow> dui_string option" where
  "dstr_Mid M iPos iLength d = do {
     len \<leftarrow> dstr_GetLength d;
     let iLength = (if iLength < 0 then len - iPos else iLength);
     let iLength = (if iPos + iLength > len then len - iPos else iLength);
     if iLength \<le> 0 then CDuiString_empty M
     else do { p \<leftarrow> pstr_from iPos d; CDuiString_text M (Some p) iLength }
   }"

definition dstr_Right :: "memory \<Rightarrow> int \<Rightarrow> dui_string \<Rightarrow> dui_string option" where
  "dstr_Right M iLength d = do {
     len \<leftarrow> dstr_GetLength d;
     let iPos = len - iLength;
     let (iPos, iLength) = (if iPos < 0 then (0, len) else (iPos, iLength));
     p \<leftarrow> pstr_from iPos d;
     CDuiString_text M (Some p) iLength
   }"

definition index_of :: "int \<Rightarrow> nat option \<Rightarrow> int" where
  "index_of i r = (case r of None \<Rightarrow> - 1 | Some k \<Rightarrow> i + int k)"

definition dstr_Find_char :: "u16 \<Rightarrow> int \<Rightarrow> dui_string \<Rightarrow> int option" where
  "dstr_Find_char ch iPos d = do {
     len \<leftarrow> dstr_GetLength d;
     if iPos \<noteq> 0 \<and> (iPos < 0 \<or> iPos \<ge> len) then Some (- 1)
     else do { p \<leftarrow> pstr_from iPos d; r \<leftarrow> tcschr p ch; Some (index_of iPos r) }
   }"

definition dstr_Find :: "tstring \<Rightarrow> int \<Rightarrow> dui_string \<Rightarrow> int option" where
  "dstr_Find pstrSub iPos d = do {
     len \<leftarrow> dstr_GetLength d;
     if iPos \<noteq> 0 \<and> (iPos < 0 \<or> iPos > len) then Some (- 1)
     else do { p \<leftarrow> pstr_from iPos d; r \<leftarrow> tcsstr p pstrSub; Some (index_of iPos r) }
   }"

definition dstr_ReverseFind :: "u16 \<Rightarrow> dui_string \<Rightarrow> int option" where
  "dstr_ReverseFind ch d = do { r \<leftarrow> tcsrchr (m_pstr d) ch; Some (index_of 0 r) }"

text \<open>One turn of the loop of \<open>Replace\<close>, and the loop.\<close>

type_synonym replacing = "dui_string \<times> dui_string \<times> int \<times> int"

definition replace_turn :: "memory \<Rightarrow> tstring \<Rightarrow> tstring \<Rightarrow> replacing \<Rightarrow> replacing option" where
  "replace_turn M pstrFrom pstrTo = (\<lambda>(sTemp, d, iPos, nCount). do {
     cchFrom \<leftarrow> tcslen pstrFrom;
     cchTo \<leftarrow> tcslen pstrTo;
     left \<leftarrow> dstr_Left M iPos d;
     s1 \<leftarrow> dstr_assign_string M left sTemp;
     s2 \<leftarrow> dstr_add_text M (Some pstrTo) s1;
     mid \<leftarrow> dstr_Mid M (iPos + int cchFrom) (- 1) d;
     s3 \<leftarrow> dstr_add_string M mid s2;
     d1 \<leftarrow> dstr_Assign M (Some (m_pstr s3)) (- 1) d;
     iPos1 \<leftarrow> dstr_Find pstrFrom (iPos + int cchTo) d1;
     Some (s3, d1, iPos1, nCount + 1)
   })"

partial_function (option) replace_loop :: "memory \<Rightarrow> tstring \<Rightarrow> tstring \<Rightarrow> replacing \<Rightarrow> replacing option" where
  [code]: "replace_loop M pstrFrom pstrTo st =
     (if fst (snd (snd st)) \<ge> 0
      then do { st1 \<leftarrow> replace_turn M pstrFrom pstrTo st; replace_loop M pstrFrom pstrTo st1 }
      else Some st)"

definition dstr_Replace :: "memory \<Rightarrow> tstring \<Rightarrow> tstring \<Rightarrow> dui_string \<Rightarrow> (int \<times> dui_string) option" where
  "dstr_Replace M pstrFrom pstrTo d = do {
     sTemp \<leftarrow> CDuiString_empty M;
     iPos \<leftarrow> dstr_Find pstrFrom 0 d;
     if iPos < 0 then Some (0, d)
     else do {
       (sTemp1, d1, iPos1, nCount) \<leftarrow> replace_loop M pstrFrom pstrTo (sTemp, d, iPos, 0);
       Some (nCount, d1)
     }
   }"

text \<open>\<open>out\<close> is what the format prints, with its terminator. \<open>SmallFormat\<close> has room for 64 characters.\<close>

definition dstr_Format :: "memory \<Rightarrow> tstring \<Rightarrow> dui_string \<Rightarrow> (int \<times> dui_string) option" where
  "dstr_Format M out d = do {
     nLen \<leftarrow> tcslen out;
     b \<leftarrow> heap_cells M (nLen + 1);
     szSprintf \<leftarrow> tcscpy (replicate (length b) 0) out;
     d1 \<leftarrow> dstr_Assign M (Some szSprintf) (- 1) d;
     Some (int nLen, d1)
   }"

definition dstr_SmallFormat :: "memory \<Rightarrow> tstring \<Rightarrow> dui_string \<Rightarrow> (int \<times> dui_string) option" where
  "dstr_SmallFormat M out d = do {
     szBuffer \<leftarrow> tcscpy (replicate 64 0) out;
     iRet \<leftarrow> tcslen out;
     d1 \<leftarrow> dstr_Assign M (Some szBuffer) (- 1) d;
     Some (int iRet, d1)
   }"

end
