(* ===== verification/Dui_String_Props.thy ===== *)
theory Dui_String_Props
  imports Dui_String
begin

text \<open>
  What the methods of \<open>CDuiString\<close> do to the text, for all lengths, and what \<open>Replace\<close> computes.
\<close>

section \<open>Terminated texts\<close>

definition is_str :: "tstring \<Rightarrow> tstring \<Rightarrow> bool" where
  "is_str p t \<longleftrightarrow> 0 \<notin> set t \<and> (\<exists>r. p = t @ 0 # r)"

lemma is_str_literal [simp]: "is_str (t @ [0]) t \<longleftrightarrow> 0 \<notin> set t"
  by (auto simp: is_str_def)

lemma is_str_empty [simp]: "is_str [0] []"
  by (simp add: is_str_def)

lemma is_strE:
  assumes "is_str p t"
  obtains r where "p = t @ 0 # r" and "0 \<notin> set t"
  using assms by (auto simp: is_str_def)

lemma takeWhile_text: "0 \<notin> set t \<Longrightarrow> takeWhile (\<lambda>c. c \<noteq> (0 :: u16)) (t @ 0 # r) = t"
  by (induction t) auto

lemma tcslen_str [simp]: "is_str p t \<Longrightarrow> tcslen p = Some (length t)"
  by (erule is_strE) (simp add: tcslen_def takeWhile_text)

lemma is_str_less: "is_str p t \<Longrightarrow> length t < length p"
  by (auto simp: is_str_def)

lemma is_str_take: "is_str p t \<Longrightarrow> take (Suc (length t)) p = t @ [0]"
  by (auto simp: is_str_def)

lemma is_str_take_less: "is_str p t \<Longrightarrow> n \<le> length t \<Longrightarrow> take n p = take n t"
  by (auto simp: is_str_def)

lemma is_str_drop: "is_str p t \<Longrightarrow> i \<le> length t \<Longrightarrow> is_str (drop i p) (drop i t)"
  by (auto simp: is_str_def dest: in_set_dropD)

lemma is_str_unique: "is_str p t \<Longrightarrow> is_str p s \<Longrightarrow> s = t"
  by (metis is_str_def takeWhile_text)

lemma tcscpy_str:
  assumes "is_str src t" and "length t < length dst"
  obtains p where "tcscpy dst src = Some p" and "is_str p t" and "length p = length dst"
  using assms by (intro that[of "t @ 0 # drop (Suc (length t)) dst"])
    (auto simp: tcscpy_def is_str_take write_cells_def is_str_def)

lemma tcscat_str:
  assumes "is_str dst s" and "is_str src t" and "length s + length t < length dst"
  obtains p where "tcscat dst src = Some p" and "is_str p (s @ t)" and "length p = length dst"
  using assms by (intro that[of "s @ t @ 0 # drop (Suc (length s + length t)) dst"])
    (auto simp: tcscat_def is_str_take write_cells_def is_str_def)

lemma tcsncpy_then_end:
  assumes src: "is_str src t" and n: "n < length dst"
  obtains p q where "tcsncpy dst src n = Some p" and "length p = length dst"
    and "write_cells [0] n p = Some q" and "is_str q (take n t)" and "length q = length dst"
proof (cases "length t < n")
  case True
  obtain k where "n - length t = Suc k" using True by (metis Suc_diff_Suc)
  hence k: "n = length t + Suc k" by simp
  have "0 \<in> set (take n src)" using src by (auto simp: is_str_def k)
  moreover have "takeWhile (\<lambda>c. c \<noteq> 0) src = t" using src by (auto simp: is_str_def takeWhile_text)
  ultimately have cpy: "tcsncpy dst src n = Some (t @ replicate (Suc k) 0 @ drop n dst)"
    using n by (simp add: tcsncpy_def write_cells_def k)
  have w: "write_cells [0] n (t @ replicate (Suc k) 0 @ drop n dst) = Some (t @ replicate (Suc k) 0 @ 0 # drop (Suc n) dst)"
    using n by (simp add: write_cells_def k)
  have s: "is_str (t @ replicate (Suc k) 0 @ 0 # drop (Suc n) dst) (take n t)"
    using src by (auto simp: is_str_def k)
  show ?thesis by (rule that[OF cpy _ w s]) (use n k in auto)
next
  case False
  have "0 \<notin> set (take n src)" using False src by (auto simp: is_str_take_less is_str_def dest: in_set_takeD)
  moreover have "n \<le> length src" using False is_str_less[OF src] by simp
  ultimately have "tcsncpy dst src n = Some (take n t @ drop n dst)"
    using False n src by (simp add: tcsncpy_def write_cells_def is_str_take_less)
  with False n src show ?thesis
    by (intro that[of "take n t @ drop n dst" "take n t @ 0 # drop (Suc n) dst"])
      (auto simp: write_cells_def is_str_def dest: in_set_takeD)
qed

section \<open>The invariant of a string\<close>

text \<open>\<open>holds d t\<close>: the string \<open>d\<close> has the text \<open>t\<close>, and uses a block only for 63 characters or more.\<close>

definition holds :: "dui_string \<Rightarrow> tstring \<Rightarrow> bool" where
  "holds d t \<longleftrightarrow> is_str (m_pstr d) t \<and> length (m_szBuffer d) = 64 \<and> (m_block d \<noteq> None \<longrightarrow> 63 \<le> length t)"

definition memory_ok :: "memory \<Rightarrow> bool" where
  "memory_ok M \<longleftrightarrow> length (stack_cells M) = 64 \<and> (\<forall>n. \<exists>b. heap_cells M n = Some b \<and> length b = n)"

lemma memoryE:
  assumes "memory_ok M"
  obtains b where "heap_cells M n = Some b" and "length b = n"
  using assms by (auto simp: memory_ok_def)

lemma holds_str: "holds d t \<Longrightarrow> is_str (m_pstr d) t"
  by (simp add: holds_def)

lemma holds_no_zero: "holds d t \<Longrightarrow> 0 \<notin> set t"
  by (auto simp: holds_def is_str_def)

lemma m_pstr_simps [simp]:
  "m_block d = None \<Longrightarrow> m_pstr d = m_szBuffer d" "m_pstr (d\<lparr>m_block := Some b\<rparr>) = b"
  by (simp_all add: m_pstr_def)

lemma holds_buffer: "is_str p t \<Longrightarrow> length p = 64 \<Longrightarrow> holds (d\<lparr>m_szBuffer := p, m_block := None\<rparr>) t"
  by (simp add: holds_def)

lemma CDuiString_empty_ok:
  assumes "memory_ok M"
  obtains d where "CDuiString_empty M = Some d" and "holds d []" and "m_block d = None"
proof
  show "CDuiString_empty M = Some \<lparr>m_szBuffer = 0 # drop 1 (stack_cells M), m_block = None\<rparr>"
    using assms by (simp add: CDuiString_empty_def put_char_def write_cells_def set_pstr_def memory_ok_def)
qed (use assms in \<open>auto simp: holds_def is_str_def memory_ok_def\<close>)

lemma dstr_Empty_ok:
  assumes "holds d t"
  obtains d' where "dstr_Empty d = Some d'" and "holds d' []" and "m_block d' = None"
proof
  show "dstr_Empty d = Some (d\<lparr>m_szBuffer := 0 # drop 1 (m_szBuffer d), m_block := None\<rparr>)"
    using assms by (simp add: dstr_Empty_def put_char_def write_cells_def set_pstr_def holds_def)
qed (use assms in \<open>auto simp: holds_def is_str_def\<close>)

lemma dstr_Append_ok:
  assumes M: "memory_ok M" and d: "holds d s" and p: "is_str p t"
  obtains d' where "dstr_Append M p d = Some d'" and "holds d' (s @ t)"
proof (cases "63 \<le> length s + length t")
  case True
  from M obtain b where b: "heap_cells M (length s + length t + 1) = Some b" "length b = length s + length t + 1"
    by (rule memoryE)
  show ?thesis
  proof (cases "m_block d")
    case None
    from tcscpy_str[of "m_szBuffer d" s b] b d None obtain b1 where
      b1: "tcscpy b (m_szBuffer d) = Some b1" "is_str b1 s" "length b1 = length b"
      by (auto simp: holds_def)
    from tcscat_str[OF b1(2) p] b b1 obtain b2 where "tcscat b1 p = Some b2" "is_str b2 (s @ t)" by auto
    with True None b b1 d p show ?thesis
      by (intro that[of "d\<lparr>m_block := Some b2\<rparr>"]) (auto simp: dstr_Append_def holds_def MAX_LOCAL_STRING_LEN_def)
  next
    case (Some old)
    have old: "is_str old s" using d Some by (simp add: holds_def m_pstr_def)
    have len: "length s < length old" using is_str_less[OF old] .
    define c where "c = take (length b) old @ drop (length old) b"
    from old obtain r where r: "old = s @ 0 # r" "0 \<notin> set s" by (rule is_strE)
    have "c = s @ 0 # (take (length t) r @ drop (length old) b)"
      using b(2) by (simp add: c_def r(1))
    with r(2) have cs: "is_str c s" by (auto simp: is_str_def)
    have lc: "length c = length b" using len b(2) by (simp add: c_def)
    from tcscat_str[OF cs p] lc b obtain b2 where "tcscat c p = Some b2" "is_str b2 (s @ t)" by auto
    with True Some b d p old show ?thesis
      by (intro that[of "d\<lparr>m_block := Some b2\<rparr>"])
        (auto simp: dstr_Append_def holds_def m_pstr_def MAX_LOCAL_STRING_LEN_def c_def)
  qed
next
  case False
  hence no: "m_block d = None" using d by (auto simp: holds_def)
  from tcscat_str[of "m_szBuffer d" s p t] d p False no obtain q where
    "tcscat (m_szBuffer d) p = Some q" "is_str q (s @ t)" "length q = 64" by (auto simp: holds_def)
  moreover have "d\<lparr>m_block := None\<rparr> = d" using no by simp
  ultimately show ?thesis using False d p no
    by (intro that[of "d\<lparr>m_szBuffer := q\<rparr>"]) (auto simp: dstr_Append_def holds_def MAX_LOCAL_STRING_LEN_def)
qed

lemma assign_room_ok:
  assumes M: "memory_ok M" and d: "holds d s"
  obtains d1 where "assign_room M n d = Some d1" and "n < length (m_pstr d1)"
    and "length (m_szBuffer d1) = 64" and "m_block d1 \<noteq> None \<longrightarrow> 63 \<le> n"
proof (cases "n < 63")
  case True
  with d show ?thesis
    by (intro that[of "d\<lparr>m_block := None\<rparr>"]) (auto simp: holds_def assign_room_def MAX_LOCAL_STRING_LEN_def)
next
  case False
  from M obtain b where b: "heap_cells M (n + 1) = Some b" "length b = n + 1" by (rule memoryE)
  show ?thesis
  proof (cases "n > length s \<or> m_block d = None")
    case True
    define old where "old = (case m_block d of None \<Rightarrow> [] | Some b0 \<Rightarrow> b0)"
    define c where "c = take (length b) old @ drop (length old) b"
    have "length c = n + 1" using b(2) by (simp add: c_def)
    moreover have "tcslen (m_pstr d) = Some (length s)" using holds_str[OF d] by simp
    hence "assign_room M n d = Some (d\<lparr>m_block := Some c\<rparr>)"
      using False by (simp only: assign_room_def MAX_LOCAL_STRING_LEN_def if_False bind.bind_lunit
          if_P[OF True] b(1) Let_def old_def c_def)
    ultimately show ?thesis using False d by (intro that) (auto simp: holds_def)
  next
    case kept: False
    with False d is_str_less[OF holds_str[OF d]] show ?thesis
      by (intro that[of d]) (auto simp: assign_room_def MAX_LOCAL_STRING_LEN_def holds_def)
  qed
qed

lemma m_pstr_set [simp]: "m_pstr (set_pstr r d) = r"
  by (simp add: m_pstr_def set_pstr_def split: option.split)

lemma dstr_Assign_ok:
  assumes M: "memory_ok M" and d: "holds d s" and p: "is_str p t"
    and n: "cchMax < 63 \<or> cchMax \<le> int (length t)"
  obtains d' where "dstr_Assign M (Some p) cchMax d = Some d'"
    and "holds d' (if cchMax < 0 then t else take (nat cchMax) t)"
proof -
  define n where "n = (if cchMax < 0 then length t else nat cchMax)"
  have tx: "(if cchMax < 0 then t else take (nat cchMax) t) = take n t" by (simp add: n_def)
  have nl: "(if cchMax < 0 then tcslen p else Some (nat cchMax)) = Some n" using p by (simp add: n_def)
  have long: "63 \<le> n \<Longrightarrow> n \<le> length t" using n by (auto simp: n_def split: if_splits)
  from assign_room_ok[OF M d, of n] obtain d1 where d1: "assign_room M n d = Some d1"
    "n < length (m_pstr d1)" "length (m_szBuffer d1) = 64" "m_block d1 \<noteq> None \<longrightarrow> 63 \<le> n" .
  from tcsncpy_then_end[OF p d1(2)] obtain q q' where q: "tcsncpy (m_pstr d1) p n = Some q"
    "length q = length (m_pstr d1)" "write_cells [0] n q = Some q'" "is_str q' (take n t)"
    "length q' = length (m_pstr d1)" .
  have "dstr_Assign M (Some p) cchMax d = Some (set_pstr q' (set_pstr q d1))"
    unfolding dstr_Assign_def Let_def option.case(2) nl bind.bind_lunit d1(1) q(1) put_char_def
    using q(3) by simp
  moreover have "holds (set_pstr q' (set_pstr q d1)) (take n t)"
    using d1(3,4) q(4,5) long
    by (cases "m_block d1") (auto simp: holds_def set_pstr_def m_pstr_def)
  ultimately show ?thesis using that tx by simp
qed

text \<open>The parts of a text.\<close>

lemma CDuiString_text_ok:
  assumes M: "memory_ok M" and p: "is_str p t" and n: "n < 63 \<or> n \<le> int (length t)"
  obtains d where "CDuiString_text M (Some p) n = Some d" and "holds d (if n < 0 then t else take (nat n) t)"
proof -
  from M obtain d0 where d0: "CDuiString_empty M = Some d0" "holds d0 []" by (rule CDuiString_empty_ok)
  from dstr_Assign_ok[OF M d0(2) p n] obtain d where "dstr_Assign M (Some p) n d0 = Some d"
    "holds d (if n < 0 then t else take (nat n) t)" .
  with d0(1) show ?thesis by (intro that[of d]) (simp_all add: CDuiString_text_def)
qed

lemma pstr_from_ok:
  assumes "holds d t" and "0 \<le> i" and "i \<le> int (length t)"
  shows "pstr_from i d = Some (drop (nat i) (m_pstr d))" and "is_str (drop (nat i) (m_pstr d)) (drop (nat i) t)"
  using assms is_str_less[OF holds_str[OF assms(1)]] is_str_drop[OF holds_str[OF assms(1)], of "nat i"]
  by (auto simp: pstr_from_def)

lemma dstr_GetLength_ok [simp]: "holds d t \<Longrightarrow> dstr_GetLength d = Some (int (length t))"
  by (simp add: dstr_GetLength_def holds_def)

lemma dstr_Left_ok:
  assumes M: "memory_ok M" and d: "holds d t"
  obtains r where "dstr_Left M n d = Some r" and "holds r (take (nat n) t)"
proof -
  define k where "k = min (max 0 n) (int (length t))"
  have "k < 63 \<or> k \<le> int (length t)" by (simp add: k_def)
  from CDuiString_text_ok[OF M holds_str[OF d] this] obtain r where
    r: "CDuiString_text M (Some (m_pstr d)) k = Some r" "holds r (if k < 0 then t else take (nat k) t)" .
  have "dstr_Left M n d = CDuiString_text M (Some (m_pstr d)) k"
    using d by (auto simp: dstr_Left_def k_def Let_def min_def max_def)
  moreover have "(if k < 0 then t else take (nat k) t) = take (nat n) t"
    by (auto simp: k_def min_def max_def)
  ultimately show ?thesis using r by (intro that[of r]) auto
qed

lemma dstr_Mid_ok:
  assumes M: "memory_ok M" and d: "holds d t" and i: "0 \<le> i"
  obtains r where "dstr_Mid M i n d = Some r"
    and "holds r (if n < 0 then drop (nat i) t else take (nat n) (drop (nat i) t))"
proof -
  define k where "k = (let n = (if n < 0 then int (length t) - i else n) in
     if i + n > int (length t) then int (length t) - i else n)"
  have mid: "dstr_Mid M i n d = (if k \<le> 0 then CDuiString_empty M
     else do { p \<leftarrow> pstr_from i d; CDuiString_text M (Some p) k })"
    using d by (simp add: dstr_Mid_def k_def Let_def)
  have tx: "(if n < 0 then drop (nat i) t else take (nat n) (drop (nat i) t)) = take (nat k) (drop (nat i) t)"
    using i by (auto simp: k_def Let_def)
  show ?thesis
  proof (cases "k \<le> 0")
    case True
    from M obtain r where r: "CDuiString_empty M = Some r" "holds r []" by (rule CDuiString_empty_ok)
    with True mid tx show ?thesis by (intro that[of r]) auto
  next
    case False
    hence il: "i + k \<le> int (length t)" using i by (auto simp: k_def Let_def split: if_splits)
    with False have il2: "i \<le> int (length t)" by simp
    note p = pstr_from_ok[OF d i il2]
    have "k < 63 \<or> k \<le> int (length (drop (nat i) t))"
      using il i il2 by (simp add: of_nat_diff nat_le_iff)
    from CDuiString_text_ok[OF M p(2) this] False obtain r where
      "CDuiString_text M (Some (drop (nat i) (m_pstr d))) k = Some r" "holds r (take (nat k) (drop (nat i) t))" by auto
    with False mid tx p(1) show ?thesis by (intro that[of r]) auto
  qed
qed

lemma dstr_Right_ok:
  assumes M: "memory_ok M" and d: "holds d t" and n: "0 \<le> n"
  obtains r where "dstr_Right M n d = Some r" and "holds r (drop (length t - nat n) t)"
proof -
  define i where "i = max 0 (int (length t) - n)"
  have i: "0 \<le> i" "i \<le> int (length t)" using n by (auto simp: i_def)
  note p = pstr_from_ok[OF d i]
  define k where "k = min n (int (length t))"
  have k: "k = int (length (drop (nat i) t))" using n by (auto simp: k_def i_def)
  have "k < 63 \<or> k \<le> int (length (drop (nat i) t))" by (simp add: k)
  from CDuiString_text_ok[OF M p(2) this] obtain r where
    r: "CDuiString_text M (Some (drop (nat i) (m_pstr d))) k = Some r"
    "holds r (if k < 0 then drop (nat i) t else take (nat k) (drop (nat i) t))" .
  have "dstr_Right M n d = Some r"
    using d p(1) r(1) n by (cases "int (length t) < n") (auto simp: dstr_Right_def i_def k_def)
  moreover have "nat i = length t - nat n" using n by (simp add: i_def)
  moreover have "holds r (drop (nat i) t)" using r(2) k by (simp del: length_drop)
  ultimately show ?thesis by (intro that[of r]) auto
qed

section \<open>Searching\<close>

fun find_sub :: "tstring \<Rightarrow> tstring \<Rightarrow> nat option" where
  "find_sub s [] = (if s = [] then Some 0 else None)"
| "find_sub s (c # t) = (if prefix s (c # t) then Some 0 else map_option Suc (find_sub s t))"

definition find_from :: "tstring \<Rightarrow> int \<Rightarrow> tstring \<Rightarrow> int" where
  "find_from s i t = (if 0 \<le> i \<and> i \<le> int (length t) then index_of i (find_sub s (drop (nat i) t)) else - 1)"

fun text_cmp :: "tstring \<Rightarrow> tstring \<Rightarrow> int" where
  "text_cmp [] [] = 0"
| "text_cmp [] (b # t) = - 1"
| "text_cmp (a # s) [] = 1"
| "text_cmp (a # s) (b # t) = (if a < b then - 1 else if b < a then 1 else text_cmp s t)"

text \<open>\<open>find_sub\<close> is the first position at which \<open>s\<close> occurs.\<close>

lemma find_sub_Some:
  "find_sub s t = Some k \<Longrightarrow> k + length s \<le> length t \<and> prefix s (drop k t) \<and> (\<forall>j < k. \<not> prefix s (drop j t))"
proof (induction t arbitrary: k)
  case (Cons c t)
  show ?case
  proof (cases "prefix s (c # t)")
    case True
    with Cons.prems show ?thesis by (auto dest: prefix_length_le)
  next
    case False
    with Cons.prems obtain j where j: "find_sub s t = Some j" "k = Suc j" by auto
    with Cons.IH False show ?thesis by (auto simp: less_Suc_eq_0_disj)
  qed
qed (auto split: if_splits)

lemma find_sub_None: "find_sub s t = None \<Longrightarrow> j \<le> length t \<Longrightarrow> \<not> prefix s (drop j t)"
proof (induction t arbitrary: j)
  case (Cons c t)
  thus ?case by (cases j) (auto split: if_splits)
qed (auto split: if_splits)

lemma prefix_take: "prefix s t \<longleftrightarrow> length s \<le> length t \<and> take (length s) t = s"
  by (metis append_eq_conv_conj prefix_def prefix_length_le take_is_prefix)

lemma tcsstr_str:
  assumes q: "is_str q s"
  shows "is_str p t \<Longrightarrow> tcsstr p q = Some (find_sub s t)"
proof (induction t arbitrary: p)
  case Nil
  then obtain r where p: "p = 0 # r" by (auto simp: is_str_def)
  have "length s \<le> 0 \<and> take (length s) p = take (length s) q \<longleftrightarrow> s = []" by auto
  with p q Nil show ?case by simp
next
  case (Cons c t)
  then obtain r where r: "p = c # r" "c \<noteq> 0" "is_str r t" by (auto simp: is_str_def)
  have "length s \<le> length (c # t) \<and> take (length s) p = take (length s) q \<longleftrightarrow> prefix s (c # t)"
    using is_str_take_less[OF Cons.prems, of "length s"] is_str_take_less[OF q, of "length s"]
    by (auto simp: prefix_take)
  with r q Cons.prems Cons.IH[OF r(3)] show ?case by simp
qed

lemma tcschr_str: "is_str p t \<Longrightarrow> ch \<noteq> 0 \<Longrightarrow> tcschr p ch = Some (find_sub [ch] t)"
proof (induction t arbitrary: p)
  case (Cons c t)
  then obtain r where r: "p = c # r" "c \<noteq> 0" "is_str r t" by (auto simp: is_str_def)
  with Cons show ?case by auto
qed (auto simp: is_str_def)

lemma tcscmp_str: "is_str p s \<Longrightarrow> is_str q t \<Longrightarrow> tcscmp p q = Some (text_cmp s t)"
proof (induction s t arbitrary: p q rule: text_cmp.induct)
  case (2 b t)
  then obtain r u where "p = 0 # r" "q = b # u" "b \<noteq> 0" by (auto simp: is_str_def)
  thus ?case by (simp add: word_neq_0_conv)
next
  case (3 a s)
  then obtain r u where "p = a # r" "q = 0 # u" "a \<noteq> 0" by (auto simp: is_str_def)
  thus ?case by (simp add: word_neq_0_conv)
next
  case (4 a s b t)
  then obtain r u where r: "p = a # r" "q = b # u" "a \<noteq> 0" "is_str r s" "is_str u t" by (auto simp: is_str_def)
  with 4 show ?case by auto
qed (auto simp: is_str_def)

lemma tcsrchr_str:
  assumes p: "is_str p t" and ch: "ch \<noteq> 0"
  shows "tcsrchr p ch = Some (find (\<lambda>i. t ! i = ch) (rev [0..<length t]))"
proof -
  from p obtain r where r: "p = t @ 0 # r" by (rule is_strE)
  have "find (\<lambda>i. p ! i = ch) (rev [0..<length t + 1]) = find (\<lambda>i. p ! i = ch) (rev [0..<length t])"
    using ch by (simp add: r)
  also have "\<dots> = find (\<lambda>i. t ! i = ch) (rev [0..<length t])"
    by (rule find_cong) (auto simp: r nth_append)
  finally show ?thesis using p by (simp add: tcsrchr_def)
qed

lemma dstr_Find_ok:
  assumes d: "holds d t" and s: "is_str p s"
  shows "dstr_Find p i d = Some (find_from s i t)"
proof (cases "i \<noteq> 0 \<and> (i < 0 \<or> i > int (length t))")
  case True
  with d show ?thesis by (auto simp: dstr_Find_def find_from_def)
next
  case False
  hence i: "0 \<le> i" "i \<le> int (length t)" by auto
  note q = pstr_from_ok[OF d i]
  from False i d q(1) tcsstr_str[OF s q(2)] show ?thesis by (auto simp: dstr_Find_def find_from_def)
qed

lemma dstr_Find_char_ok:
  assumes d: "holds d t" and ch: "ch \<noteq> 0"
  shows "dstr_Find_char ch i d = Some (find_from [ch] i t)"
proof (cases "i \<noteq> 0 \<and> (i < 0 \<or> i \<ge> int (length t))")
  case True
  with d show ?thesis by (auto simp: dstr_Find_char_def find_from_def index_of_def)
next
  case False
  hence i: "0 \<le> i" "i \<le> int (length t)" by auto
  note q = pstr_from_ok[OF d i]
  from False i d q(1) tcschr_str[OF q(2) ch] show ?thesis by (auto simp: dstr_Find_char_def find_from_def)
qed

section \<open>Replacing\<close>

text \<open>The reference: from left to right, over what has not been replaced yet.\<close>

function replace_all :: "tstring \<Rightarrow> tstring \<Rightarrow> tstring \<Rightarrow> tstring" where
  "replace_all f r [] = []"
| "replace_all f r (c # t) =
     (if f \<noteq> [] \<and> prefix f (c # t) then r @ replace_all f r (drop (length f) (c # t))
      else c # replace_all f r t)"
  by pat_completeness auto
termination by (relation "measure (\<lambda>(f, r, t). length t)") auto

function count_sub :: "tstring \<Rightarrow> tstring \<Rightarrow> nat" where
  "count_sub f [] = 0"
| "count_sub f (c # t) =
     (if f \<noteq> [] \<and> prefix f (c # t) then Suc (count_sub f (drop (length f) (c # t))) else count_sub f t)"
  by pat_completeness auto
termination by (relation "measure (\<lambda>(f, t). length t)") auto

lemma replace_all_found:
  assumes f: "f \<noteq> []"
  shows "find_sub f t = Some k \<Longrightarrow> replace_all f r t = take k t @ r @ replace_all f r (drop (k + length f) t)"
    and "find_sub f t = Some k \<Longrightarrow> count_sub f t = Suc (count_sub f (drop (k + length f) t))"
proof (induction t arbitrary: k)
  case (Cons c t)
  {
    case 1
    with Cons.IH(1) f show ?case by (auto split: if_splits)
  next
    case 2
    with Cons.IH(2) f show ?case by (auto split: if_splits)
  }
qed (use f in auto)

lemma replace_all_not_found:
  "find_sub f t = None \<Longrightarrow> replace_all f r t = t" "find_sub f t = None \<Longrightarrow> count_sub f t = 0"
  by (induction t) (auto split: if_splits)

lemma index_of_nonneg: "index_of (int i) k \<ge> 0 \<longleftrightarrow> k \<noteq> None"
  by (cases k) (auto simp: index_of_def)

lemma replace_turn_ok:
  assumes M: "memory_ok M" and s: "holds s u" and d: "holds d (a @ x @ f @ y)"
    and pf: "is_str pf f" and pr: "is_str pr r"
  obtains s' d' where "replace_turn M pf pr (s, d, int (length (a @ x)), n) =
      Some (s', d', index_of (int (length (a @ x @ r))) (find_sub f y), n + 1)"
    and "holds s' (a @ x @ r @ y)" and "holds d' (a @ x @ r @ y)"
proof -
  have zero: "0 \<notin> set (a @ x @ f @ y)" by (rule holds_no_zero[OF d])
  from dstr_Left_ok[OF M d, of "int (length (a @ x))"] obtain left where
    left: "dstr_Left M (int (length (a @ x))) d = Some left" "holds left (a @ x)" by auto
  from dstr_Assign_ok[OF M s holds_str[OF left(2)], of "- 1"] obtain s1 where
    s1: "dstr_assign_string M left s = Some s1" "holds s1 (a @ x)" by (auto simp: dstr_assign_string_def)
  from dstr_Append_ok[OF M s1(2) pr] obtain s2 where
    s2: "dstr_add_text M (Some pr) s1 = Some s2" "holds s2 ((a @ x) @ r)" by (auto simp: dstr_add_text_def)
  from dstr_Mid_ok[OF M d, of "int (length (a @ x)) + int (length f)" "- 1"] obtain mid where
    mid: "dstr_Mid M (int (length (a @ x)) + int (length f)) (- 1) d = Some mid"
    "holds mid (drop (nat (int (length (a @ x)) + int (length f))) (a @ x @ f @ y))" by auto
  have "nat (int (length (a @ x)) + int (length f)) = length (a @ x @ f)" by simp
  with mid(2) have midy: "holds mid y" by simp
  from dstr_Append_ok[OF M s2(2) holds_str[OF midy]] obtain s3 where
    s3: "dstr_add_string M mid s2 = Some s3" "holds s3 (a @ x @ r @ y)" by (auto simp: dstr_add_string_def)
  from dstr_Assign_ok[OF M d holds_str[OF s3(2)], of "- 1"] obtain d1 where
    d1: "dstr_Assign M (Some (m_pstr s3)) (- 1) d = Some d1" "holds d1 (a @ x @ r @ y)" by auto
  have "find_from f (int (length (a @ x)) + int (length r)) (a @ x @ r @ y) =
      index_of (int (length (a @ x @ r))) (find_sub f y)"
  proof -
    have "nat (int (length (a @ x)) + int (length r)) = length (a @ x @ r)" by simp
    thus ?thesis by (simp add: find_from_def algebra_simps)
  qed
  with dstr_Find_ok[OF d1(2) pf] have "dstr_Find pf (int (length (a @ x)) + int (length r)) d1 =
      Some (index_of (int (length (a @ x @ r))) (find_sub f y))" by simp
  with left(1) s1(1) s2(1) mid(1) s3(1) d1(1) pf pr
  have "replace_turn M pf pr (s, d, int (length (a @ x)), n) =
      Some (s3, d1, index_of (int (length (a @ x @ r))) (find_sub f y), n + 1)"
    by (simp only: replace_turn_def case_prod_conv tcslen_str bind.bind_lunit)
  thus ?thesis using s3(2) d1(2) by (rule that)
qed

lemma replace_loop_ok:
  assumes M: "memory_ok M" and f: "f \<noteq> []" and pf: "is_str pf f" and pr: "is_str pr r"
  shows "holds s u \<Longrightarrow> holds d (a @ t) \<Longrightarrow>
    \<exists>s' d' i. replace_loop M pf pr (s, d, index_of (int (length a)) (find_sub f t), n) =
        Some (s', d', i, n + int (count_sub f t)) \<and> holds d' (a @ replace_all f r t)"
proof (induction "length t" arbitrary: t s u d a n rule: less_induct)
  case less
  show ?case
  proof (cases "find_sub f t")
    case None
    hence "\<not> index_of (int (length a)) (find_sub f t) \<ge> 0" by (simp add: index_of_nonneg)
    with None less.prems(2) show ?thesis
      by (subst replace_loop.simps) (simp add: replace_all_not_found)
  next
    case (Some k)
    from find_sub_Some[OF Some] obtain y where
      t: "t = take k t @ f @ y" and k: "k \<le> length t" "y = drop (k + length f) t"
      by (metis add.commute add_leD1 append_take_drop_id drop_drop prefixE same_append_eq append_eq_conv_conj)
    define x where "x = take k t"
    have xk: "length x = k" using k(1) by (simp add: x_def)
    have d: "holds d (a @ x @ f @ y)" using less.prems(2) t by (simp add: x_def)
    from replace_turn_ok[OF M less.prems(1) d pf pr, of n] obtain s1 d1 where
      turn: "replace_turn M pf pr (s, d, int (length (a @ x)), n) =
        Some (s1, d1, index_of (int (length (a @ x @ r))) (find_sub f y), n + 1)"
      and s1: "holds s1 (a @ x @ r @ y)" and d1: "holds d1 ((a @ x @ r) @ y)" by auto
    have "length y < length t" using f t by (metis append_assoc length_append length_greater_0_conv
        less_add_same_cancel2 add_gr_0)
    from less.hyps[OF this s1 d1, of "n + 1"] obtain s2 d2 i where
      rest: "replace_loop M pf pr (s1, d1, index_of (int (length (a @ x @ r))) (find_sub f y), n + 1) =
        Some (s2, d2, i, n + 1 + int (count_sub f y))" "holds d2 ((a @ x @ r) @ replace_all f r y)" by blast
    have "index_of (int (length a)) (find_sub f t) = int (length (a @ x))"
      by (simp add: Some index_of_def xk)
    with turn rest(1) have "replace_loop M pf pr (s, d, index_of (int (length a)) (find_sub f t), n) =
        Some (s2, d2, i, n + 1 + int (count_sub f y))"
      by (subst replace_loop.simps) simp
    with rest(2) replace_all_found(1)[OF f Some, of r] replace_all_found(2)[OF f Some] k(2) show ?thesis by (auto simp: x_def)
  qed
qed

lemma dstr_Replace_ok:
  assumes M: "memory_ok M" and d: "holds d t" and f: "f \<noteq> []" and pf: "is_str pf f" and pr: "is_str pr r"
  obtains d' where "dstr_Replace M pf pr d = Some (int (count_sub f t), d')" and "holds d' (replace_all f r t)"
proof -
  from M obtain s where s: "CDuiString_empty M = Some s" "holds s []" by (rule CDuiString_empty_ok)
  have find: "dstr_Find pf 0 d = Some (index_of (int (length ([] :: tstring))) (find_sub f t))"
    using dstr_Find_ok[OF d pf, of 0] by (simp add: find_from_def)
  show ?thesis
  proof (cases "find_sub f t")
    case None
    with find s(1) d show ?thesis
      by (intro that[of d]) (simp_all add: dstr_Replace_def index_of_def replace_all_not_found)
  next
    case (Some k)
    from replace_loop_ok[OF M f pf pr s(2), of d "[]" t 0] d obtain s' d' i where
      "replace_loop M pf pr (s, d, index_of (int (length ([] :: tstring))) (find_sub f t), 0) =
        Some (s', d', i, int (count_sub f t))" "holds d' (replace_all f r t)" by auto
    with find s(1) Some show ?thesis
      by (intro that[of d']) (simp_all add: dstr_Replace_def index_of_def)
  qed
qed

text \<open>An empty text to search for is found again after each replacement.\<close>

lemma replace_turn_empty:
  assumes M: "memory_ok M" and s: "holds s u" and d: "holds d (a @ t)" and pf: "is_str pf []" and pr: "is_str pr r"
  obtains s' d' where "replace_turn M pf pr (s, d, int (length a), n) = Some (s', d', int (length (a @ r)), n + 1)"
    and "holds s' (a @ r @ t)" and "holds d' (a @ r @ t)"
proof -
  have "find_sub [] t = Some 0" by (cases t) auto
  moreover have "holds d (a @ [] @ [] @ t)" using d by simp
  from replace_turn_ok[OF M s this pf pr, of n] obtain s' d' where
    "replace_turn M pf pr (s, d, int (length (a @ [])), n) =
      Some (s', d', index_of (int (length (a @ [] @ r))) (find_sub [] t), n + 1)"
    "holds s' (a @ [] @ r @ t)" "holds d' (a @ [] @ r @ t)" .
  ultimately show ?thesis by (intro that[of s' d']) (simp_all add: index_of_def)
qed

definition endless :: "replacing \<Rightarrow> bool" where
  "endless = (\<lambda>(s, d, i, n). \<exists>a t u. holds s u \<and> holds d (a @ t) \<and> i = int (length a))"

lemma replace_turn_endless:
  assumes "memory_ok M" and "is_str pf []" and "is_str pr r" and "endless st"
  obtains st' where "replace_turn M pf pr st = Some st'" and "endless st'" and "0 \<le> fst (snd (snd st'))"
proof -
  obtain s d i n where st: "st = (s, d, i, n)" by (cases st) auto
  from assms(4) st obtain a t u where h: "holds s u" "holds d (a @ t)" "i = int (length a)"
    by (auto simp: endless_def)
  from replace_turn_empty[OF assms(1) h(1,2) assms(2,3), of n] obtain s' d' where
    r: "replace_turn M pf pr (s, d, int (length a), n) = Some (s', d', int (length (a @ r)), n + 1)"
    "holds s' (a @ r @ t)" "holds d' ((a @ r) @ t)" by auto
  from r(2,3) have "endless (s', d', int (length (a @ r)), n + 1)" unfolding endless_def prod.case by blast
  with r(1) st h(3) show ?thesis by (intro that) auto
qed

lemma replace_loop_ends_not_endless:
  assumes "replace_loop M pf pr st = Some y"
  shows "memory_ok M \<and> is_str pf [] \<and> is_str pr r \<longrightarrow> \<not> endless st"
proof (rule replace_loop.raw_induct[where P = "\<lambda>M pf pr st y. memory_ok M \<and> is_str pf [] \<and> is_str pr r \<longrightarrow>
    \<not> endless st", OF _ assms], intro impI notI)
  fix loop M pf pr st y
  assume IH: "\<And>M pf pr st y. loop M pf pr st = Some y \<Longrightarrow>
      memory_ok M \<and> is_str pf [] \<and> is_str pr r \<longrightarrow> \<not> endless st"
    and body: "(if 0 \<le> fst (snd (snd st)) then do { st1 \<leftarrow> replace_turn M pf pr st; loop M pf pr st1 } else Some st) = Some y"
    and ok: "memory_ok M \<and> is_str pf [] \<and> is_str pr r" and e: "endless st"
  from ok e obtain st' where "replace_turn M pf pr st = Some st'" "endless st'"
    using replace_turn_endless by metis
  moreover have "0 \<le> fst (snd (snd st))" using e by (auto simp: endless_def)
  ultimately show False using IH[of M pf pr st'] body ok by auto
qed

lemma replace_loop_endless:
  "memory_ok M \<Longrightarrow> is_str pf [] \<Longrightarrow> is_str pr r \<Longrightarrow> endless st \<Longrightarrow> replace_loop M pf pr st = None"
  using replace_loop_ends_not_endless by (cases "replace_loop M pf pr st") auto

primrec replace_turns :: "memory \<Rightarrow> tstring \<Rightarrow> tstring \<Rightarrow> nat \<Rightarrow> replacing \<Rightarrow> replacing option" where
  "replace_turns M pf pr 0 st = Some st"
| "replace_turns M pf pr (Suc n) st = do { st1 \<leftarrow> replace_turn M pf pr st; replace_turns M pf pr n st1 }"

lemma replace_turns_endless:
  assumes "memory_ok M" and "is_str pf []" and "is_str pr r"
  shows "endless st \<Longrightarrow> \<exists>st'. replace_turns M pf pr n st = Some st' \<and> 0 \<le> fst (snd (snd st'))"
proof (induction n arbitrary: st)
  case 0
  thus ?case by (auto simp: endless_def)
next
  case (Suc n)
  from replace_turn_endless[OF assms Suc.prems] obtain st1 where
    "replace_turn M pf pr st = Some st1" "endless st1" by blast
  with Suc.IH[of st1] show ?case by simp
qed

end
