(* ===== verification/Dui_String_Calls.thy ===== *)
theory Dui_String_Calls
  imports Dui_String_Props
begin

text \<open>
  Sequences of calls of \<open>CDuiString\<close> answer as operations on lists of characters do; and the calls for which
  the class fails.
\<close>

section \<open>The other methods\<close>









section \<open>Calls\<close>











section \<open>Properties\<close>

text \<open>An environment to run examples in.\<close>

definition zero_memory :: memory where
  "zero_memory = \<lparr>heap_cells = \<lambda>n. Some (replicate n 0), stack_cells = replicate 64 0\<rparr>"

lemma zero_memory_ok: "memory_ok zero_memory"
  by (simp add: memory_ok_def zero_memory_def)



text \<open>
  C40: \<open>Replace\<close> never returns exactly when the text to search for is empty; each turn of its loop then succeeds
  and finds the empty text again, so that it ends when memory does.
\<close>

theorem Replace_returns_iff:
  assumes M: "memory_ok M" and d: "holds d t" and z: "0 \<notin> set f" "0 \<notin> set r"
  shows "(dstr_Replace M (f @ [0]) (r @ [0]) d = None \<longleftrightarrow> f = []) \<and>
    (f = [] \<longrightarrow> (\<exists>s. CDuiString_empty M = Some s \<and>
      (\<forall>n. \<exists>st. replace_turns M (f @ [0]) (r @ [0]) n (s, d, 0, 0) = Some st \<and> 0 \<le> fst (snd (snd st)))))"
proof
  have pf: "is_str (f @ [0]) f" and pr: "is_str (r @ [0]) r" using z by simp_all
  from M obtain s where s: "CDuiString_empty M = Some s" "holds s []" by (rule CDuiString_empty_ok)
  have e: "endless (s, d, 0, 0)"
    unfolding endless_def prod.case using s(2) d by (intro exI[of _ "[]"] exI[of _ t]) auto
  show "dstr_Replace M (f @ [0]) (r @ [0]) d = None \<longleftrightarrow> f = []"
  proof (cases "f = []")
    case True
    have "find_sub [] t = Some 0" by (cases t) auto
    hence "dstr_Find (f @ [0]) 0 d = Some 0"
      using dstr_Find_ok[OF d pf, of 0] True by (simp add: find_from_def index_of_def)
    moreover have "replace_loop M (f @ [0]) (r @ [0]) (s, d, 0, 0) = None"
      using replace_loop_endless[OF M _ pr e] pf True by simp
    ultimately show ?thesis using True s(1) by (simp add: dstr_Replace_def)
  next
    case False
    with dstr_Replace_ok[OF M d False pf pr] show ?thesis by (metis option.distinct(1))
  qed
  show "f = [] \<longrightarrow> (\<exists>s. CDuiString_empty M = Some s \<and>
      (\<forall>n. \<exists>st. replace_turns M (f @ [0]) (r @ [0]) n (s, d, 0, 0) = Some st \<and> 0 \<le> fst (snd (snd st))))"
    using s(1) replace_turns_endless[OF M _ pr e, of "f @ [0]"] pf by auto
qed

theorem Replace_returns_iff_witness:
  "\<exists>d. CDuiString_empty zero_memory = Some d \<and> dstr_Replace zero_memory [0] [97, 0] d = None"
proof -
  from zero_memory_ok obtain d where d: "CDuiString_empty zero_memory = Some d" "holds d []"
    by (rule CDuiString_empty_ok)
  from Replace_returns_iff[OF zero_memory_ok d(2), of "[]" "[97]"] d(1) show ?thesis by simp
qed

text \<open>
  Where the class fails. The operators for texts of bytes write twice as many bytes as they reserve; a text
  shorter than the count given for it is lost by the next \<open>Append\<close>; \<open>SmallFormat\<close> has room for 63 characters.
\<close>

lemma bytes_overflow:
  assumes "length (conv s) = length s + 1"
  shows "dstr_assign_bytes M conv (Some s) d = None" and "dstr_add_bytes M conv (Some s) d = None"
  using assms by (simp_all add: dstr_assign_bytes_def dstr_add_bytes_def wide_on_stack_def)

lemma small_format_overflow:
  assumes "is_str out t" and "64 \<le> length t"
  shows "dstr_SmallFormat M out d = None"
  using assms is_str_take[OF assms(1)] is_str_less[OF assms(1)]
  by (simp add: dstr_SmallFormat_def tcscpy_def write_cells_def)

lemma long_count_loses_text:
  "\<exists>d d'. CDuiString_text zero_memory (Some [97, 0]) 100 = Some d \<and> is_str (m_pstr d) [97] \<and>
    dstr_Append zero_memory [98, 0] d = Some d' \<and> is_str (m_pstr d') [98]"
proof -
  have "replicate 99 (0 :: u16) = 0 # replicate 98 0"
    by (simp add: replicate_Suc[symmetric] del: replicate_Suc)
  thus ?thesis
    by (simp add: CDuiString_text_def CDuiString_empty_def put_char_def write_cells_def dstr_Assign_def
      assign_room_def set_pstr_def m_pstr_def zero_memory_def MAX_LOCAL_STRING_LEN_def tcslen_def tcsncpy_def
      dstr_Append_def tcscat_def is_str_def)
qed

end
