(* ===== verification/Dui_Markup.thy ===== *)
theory Dui_Markup
  imports Dui_String
begin

text \<open>
  \<open>CMarkup\<close> and \<open>CMarkupNode\<close> of \<open>DuiLib/Core/UIMarkup.cpp\<close>: the parser of the files that describe windows. It
  works in place: it writes terminators into the text and keeps a table of elements with positions in it.

  The text is the list of its cells, a position in it a number; a read or write outside of the block is
  \<open>None\<close>, as is a loop that does not end. What Windows and the C library decide are parameters: how far
  \<open>CharNext\<close> steps and which characters are alphanumeric. Memory is there when it is asked for.
\<close>

section \<open>Characters\<close>

record env =
  CharNext :: "tstring \<Rightarrow> nat \<Rightarrow> nat"
  istalnum :: "u16 \<Rightarrow> bool"

abbreviation (input) lt_sign :: u16 where "lt_sign \<equiv> 60"
abbreviation (input) gt_sign :: u16 where "gt_sign \<equiv> 62"
abbreviation (input) slash :: u16 where "slash \<equiv> 47"
abbreviation (input) equals :: u16 where "equals \<equiv> 61"
abbreviation (input) quote :: u16 where "quote \<equiv> 34"
abbreviation (input) ampersand :: u16 where "ampersand \<equiv> 38"
abbreviation (input) space :: u16 where "space \<equiv> 32"

definition cell :: "tstring \<Rightarrow> nat \<Rightarrow> u16 option" where
  "cell m i = (if i < length m then Some (m ! i) else None)"

definition poke :: "nat \<Rightarrow> u16 \<Rightarrow> tstring \<Rightarrow> tstring option" where
  "poke i c m = (if i < length m then Some (m[i := c]) else None)"

text \<open>\<open>m[i] == c0 && m[i + 1] == c1 && ...\<close>\<close>

fun cells_match :: "tstring \<Rightarrow> nat \<Rightarrow> u16 list \<Rightarrow> bool option" where
  "cells_match m i [] = Some True"
| "cells_match m i (c # cs) = do { d \<leftarrow> cell m i; if d = c then cells_match m (i + 1) cs else Some False }"

fun tcsncmp_eq :: "tstring \<Rightarrow> nat \<Rightarrow> nat \<Rightarrow> nat \<Rightarrow> bool option" where
  "tcsncmp_eq m i j 0 = Some True"
| "tcsncmp_eq m i j (Suc n) = do {
     a \<leftarrow> cell m i; b \<leftarrow> cell m j;
     if a \<noteq> b then Some False else if a = 0 then Some True else tcsncmp_eq m (i + 1) (j + 1) n
   }"

partial_function (option) SkipWhitespace :: "env \<Rightarrow> tstring \<Rightarrow> nat \<Rightarrow> nat option" where
  [code]: "SkipWhitespace E m i = do {
     c \<leftarrow> cell m i;
     if 0 < c \<and> c \<le> space then SkipWhitespace E m (CharNext E m i) else Some i
   }"

partial_function (option) SkipIdentifier :: "env \<Rightarrow> tstring \<Rightarrow> nat \<Rightarrow> nat option" where
  [code]: "SkipIdentifier E m i = do {
     c \<leftarrow> cell m i;
     if c \<noteq> 0 \<and> (c = 95 \<or> c = 58 \<or> istalnum E c) then SkipIdentifier E m (CharNext E m i) else Some i
   }"

section \<open>Errors\<close>

datatype 'a outcome = Failed string tstring | Parsed 'a

text \<open>\<open>_tcsncpy(m_szErrorXML, pstrLocation, 49)\<close>\<close>

definition error_text :: "tstring \<Rightarrow> tstring option" where
  "error_text p =
     (if 0 \<in> set (take 49 p) then Some (takeWhile (\<lambda>c. c \<noteq> 0) p)
      else if 49 \<le> length p then Some (take 49 p) else None)"

definition fail_at :: "tstring \<Rightarrow> string \<Rightarrow> nat \<Rightarrow> 'a outcome option" where
  "fail_at m msg loc = map_option (Failed msg) (error_text (drop loc m))"

section \<open>Data between the tags\<close>

definition ParseMetaChar :: "tstring \<Rightarrow> nat \<Rightarrow> nat \<Rightarrow> (tstring \<times> nat \<times> nat) option" where
  "ParseMetaChar m pstrText pstrDest = do {
     amp \<leftarrow> cells_match m pstrText [97, 109, 112, 59];
     if amp then do { m1 \<leftarrow> poke pstrDest ampersand m; Some (m1, pstrText + 4, pstrDest + 1) }
     else do {
       lt \<leftarrow> cells_match m pstrText [108, 116, 59];
       if lt then do { m1 \<leftarrow> poke pstrDest lt_sign m; Some (m1, pstrText + 3, pstrDest + 1) }
       else do {
         gt \<leftarrow> cells_match m pstrText [103, 116, 59];
         if gt then do { m1 \<leftarrow> poke pstrDest gt_sign m; Some (m1, pstrText + 3, pstrDest + 1) }
         else do {
           quot \<leftarrow> cells_match m pstrText [113, 117, 111, 116, 59];
           if quot then do { m1 \<leftarrow> poke pstrDest quote m; Some (m1, pstrText + 5, pstrDest + 1) }
           else do {
             apos \<leftarrow> cells_match m pstrText [97, 112, 111, 115, 59];
             if apos then do { m1 \<leftarrow> poke pstrDest 39 m; Some (m1, pstrText + 5, pstrDest + 1) }
             else do { m1 \<leftarrow> poke pstrDest ampersand m; Some (m1, pstrText, pstrDest + 1) }
           }
         }
       }
     }
   }"

text \<open>The inner loops of \<open>_ParseData\<close>: a run of references, the cells of one character, the filling.\<close>

partial_function (option) meta_run :: "tstring \<Rightarrow> nat \<Rightarrow> nat \<Rightarrow> (tstring \<times> nat \<times> nat) option" where
  [code]: "meta_run m pstrText pstrDest = do {
     c \<leftarrow> cell m pstrText;
     if c = ampersand
     then do { (m1, t1, d1) \<leftarrow> ParseMetaChar m (pstrText + 1) pstrDest; meta_run m1 t1 d1 }
     else Some (m, pstrText, pstrDest)
   }"

fun copy_cells :: "nat \<Rightarrow> tstring \<Rightarrow> nat \<Rightarrow> nat \<Rightarrow> tstring option" where
  "copy_cells 0 m t d = Some m"
| "copy_cells (Suc n) m t d = do { c \<leftarrow> cell m t; m1 \<leftarrow> poke d c m; copy_cells n m1 (t + 1) (d + 1) }"

fun fill_cells :: "nat \<Rightarrow> nat \<Rightarrow> tstring \<Rightarrow> tstring option" where
  "fill_cells 0 i m = Some m"
| "fill_cells (Suc n) i m = do { m1 \<leftarrow> poke i space m; fill_cells n (i + 1) m1 }"

partial_function (option) data_loop ::
  "env \<Rightarrow> bool \<Rightarrow> u16 \<Rightarrow> tstring \<Rightarrow> nat \<Rightarrow> nat \<Rightarrow> (tstring \<times> nat \<times> nat) option" where
  [code]: "data_loop E preserve cEnd m pstrText pstrDest = do {
     c \<leftarrow> cell m pstrText;
     if c = 0 \<or> c = cEnd then Some (m, pstrText, pstrDest)
     else do {
       (m1, t1, d1) \<leftarrow> (if c = ampersand then meta_run m pstrText pstrDest else Some (m, pstrText, pstrDest));
       c1 \<leftarrow> cell m1 t1;
       if c = ampersand \<and> c1 = cEnd then Some (m1, t1, d1)
       else if c1 = space
       then do {
         m2 \<leftarrow> poke d1 c1 m1;
         t2 \<leftarrow> (if preserve then Some (t1 + 1) else SkipWhitespace E m2 (t1 + 1));
         data_loop E preserve cEnd m2 t2 (d1 + 1)
       }
       else do {
         let n = CharNext E m1 t1 - t1;
         m2 \<leftarrow> copy_cells n m1 t1 d1;
         data_loop E preserve cEnd m2 (t1 + n) (d1 + n)
       }
     }
   }"

definition ParseData ::
  "env \<Rightarrow> bool \<Rightarrow> u16 \<Rightarrow> tstring \<Rightarrow> nat \<Rightarrow> nat \<Rightarrow> (tstring \<times> nat \<times> nat) option" where
  "ParseData E preserve cEnd m pstrText pstrDest = do {
     (m1, t1, d1) \<leftarrow> data_loop E preserve cEnd m pstrText pstrDest;
     m2 \<leftarrow> fill_cells (t1 - (d1 + 1)) (d1 + 1) m1;
     Some (m2, t1, d1)
   }"

section \<open>Attributes\<close>

partial_function (option) attribute_loop ::
  "env \<Rightarrow> bool \<Rightarrow> tstring \<Rightarrow> nat \<Rightarrow> (tstring \<times> nat) outcome option" where
  [code]: "attribute_loop E preserve m pstrText = do {
     c \<leftarrow> cell m pstrText;
     if c = 0 \<or> c = gt_sign \<or> c = slash then Some (Parsed (m, pstrText))
     else do {
       pstrIdentifierEnd \<leftarrow> SkipIdentifier E m pstrText;
       t1 \<leftarrow> SkipWhitespace E m pstrIdentifierEnd;
       c1 \<leftarrow> cell m t1;
       if c1 \<noteq> equals then fail_at m ''Error while parsing attributes'' t1
       else do {
         m1 \<leftarrow> poke t1 space m;
         m2 \<leftarrow> poke pstrIdentifierEnd 0 m1;
         t2 \<leftarrow> SkipWhitespace E m2 (t1 + 1);
         c2 \<leftarrow> cell m2 t2;
         if c2 \<noteq> quote then fail_at m2 ''Expected attribute value'' (t2 + 1)
         else do {
           (m3, t3, pstrDest) \<leftarrow> ParseData E preserve quote m2 (t2 + 1) (t2 + 1);
           c3 \<leftarrow> cell m3 t3;
           if c3 = 0 then fail_at m3 ''Error while parsing attribute string'' t3
           else do {
             m4 \<leftarrow> poke pstrDest 0 m3;
             m5 \<leftarrow> (if t3 \<noteq> pstrDest then poke t3 space m4 else Some m4);
             t4 \<leftarrow> SkipWhitespace E m5 (t3 + 1);
             attribute_loop E preserve m5 t4
           }
         }
       }
     }
   }"

definition ParseAttributes :: "env \<Rightarrow> bool \<Rightarrow> tstring \<Rightarrow> nat \<Rightarrow> (tstring \<times> nat) outcome option" where
  "ParseAttributes E preserve m pstrText = do {
     c \<leftarrow> cell m pstrText;
     if c = gt_sign then Some (Parsed (m, pstrText))
     else do {
       m1 \<leftarrow> poke pstrText 0 m;
       t1 \<leftarrow> SkipWhitespace E m1 (pstrText + 1);
       attribute_loop E preserve m1 t1
     }
   }"

section \<open>The table of elements\<close>

record XMLELEMENT =
  iStart :: nat
  iChild :: nat
  iNext :: nat
  iParent :: nat
  iData :: nat

text \<open>An entry that was not written is \<open>None\<close>, and so is \<open>m_pElements\<close> when it is \<open>NULL\<close>.\<close>

record elements =
  m_pElements :: "XMLELEMENT option list option"
  m_nElements :: nat
  m_nReservedElements :: nat

definition ReserveElement :: "elements \<Rightarrow> nat \<times> elements" where
  "ReserveElement el =
     (let el1 = (if m_nElements el = 0 then el\<lparr>m_nReservedElements := 0\<rparr> else el);
          el2 = (if m_nElements el1 \<ge> m_nReservedElements el1
                 then (let r = m_nReservedElements el1 + (m_nReservedElements el1 div 2 + 500);
                           old = (case m_pElements el1 of None \<Rightarrow> [] | Some es \<Rightarrow> es)
                       in el1\<lparr>m_nReservedElements := r,
                              m_pElements := Some (take r old @ replicate (r - length old) None)\<rparr>)
                 else el1)
      in (m_nElements el2, el2\<lparr>m_nElements := m_nElements el2 + 1\<rparr>))"

definition put_element :: "nat \<Rightarrow> XMLELEMENT \<Rightarrow> elements \<Rightarrow> elements option" where
  "put_element i e el = do {
     es \<leftarrow> m_pElements el;
     if i < length es then Some (el\<lparr>m_pElements := Some (es[i := Some e])\<rparr>) else None
   }"

definition element_at :: "elements \<Rightarrow> nat \<Rightarrow> XMLELEMENT option" where
  "element_at el i = do { es \<leftarrow> m_pElements el; if i < length es then es ! i else None }"

definition update_element :: "nat \<Rightarrow> (XMLELEMENT \<Rightarrow> XMLELEMENT) \<Rightarrow> elements \<Rightarrow> elements option" where
  "update_element i f el = do { e \<leftarrow> element_at el i; put_element i (f e) el }"

section \<open>Elements\<close>

text \<open>\<open>while( *pstrText != 0 && !( *pstrText == ch && pstrText[1] == '>' ) ) pstrText = CharNext(pstrText)\<close>\<close>

partial_function (option) skip_directive :: "env \<Rightarrow> u16 \<Rightarrow> tstring \<Rightarrow> nat \<Rightarrow> nat option" where
  [code]: "skip_directive E ch m i = do {
     c \<leftarrow> cell m i;
     if c = 0 then Some i
     else do {
       d \<leftarrow> (if c = ch then cell m (i + 1) else Some 0);
       if c = ch \<and> d = gt_sign then Some i else skip_directive E ch m (CharNext E m i)
     }
   }"

definition fail_with :: "elements \<Rightarrow> tstring \<Rightarrow> string \<Rightarrow> nat \<Rightarrow> ('a outcome \<times> elements) option" where
  "fail_with el m msg loc = map_option (\<lambda>r. (r, el)) (fail_at m msg loc)"

text \<open>
  What comes after the start of a tag, up to its children: the new element, its name, its attributes and its
  text. The result holds the text, the position reached, the index of the element, the end of the name, and
  where the data of the element end, unless the tag closes itself.
\<close>

definition open_element ::
  "env \<Rightarrow> bool \<Rightarrow> tstring \<Rightarrow> elements \<Rightarrow> nat \<Rightarrow> nat \<Rightarrow> nat \<Rightarrow>
    ((tstring \<times> nat \<times> nat \<times> nat \<times> nat option) outcome \<times> elements) option" where
  "open_element E preserve m el pstrText parent iPrevious = do {
     let (iPos, el1) = ReserveElement el;
     el2 \<leftarrow> put_element iPos \<lparr>iStart = pstrText, iChild = 0, iNext = 0, iParent = parent, iData = 0\<rparr> el1;
     el3 \<leftarrow> (if iPrevious \<noteq> 0 then update_element iPrevious (iNext_update (\<lambda>_. iPos)) el2
            else if parent > 0 then update_element parent (iChild_update (\<lambda>_. iPos)) el2
            else Some el2);
     pstrNameEnd \<leftarrow> SkipIdentifier E m pstrText;
     c \<leftarrow> cell m pstrNameEnd;
     if c = 0 then fail_with el3 m ''Error parsing element name'' pstrNameEnd
     else do {
       r \<leftarrow> ParseAttributes E preserve m pstrNameEnd;
       case r of
         Failed e x \<Rightarrow> Some (Failed e x, el3)
       | Parsed (m1, t1) \<Rightarrow> do {
           t2 \<leftarrow> SkipWhitespace E m1 t1;
           closed \<leftarrow> cells_match m1 t2 [slash, gt_sign];
           if closed
           then do {
             el4 \<leftarrow> update_element iPos (iData_update (\<lambda>_. t2)) el3;
             m2 \<leftarrow> poke t2 0 m1;
             Some (Parsed (m2, t2 + 2, iPos, pstrNameEnd, None), el4)
           }
           else do {
             c2 \<leftarrow> cell m1 t2;
             if c2 \<noteq> gt_sign then fail_with el3 m1 ''Expected start-tag closing'' t2
             else do {
               el4 \<leftarrow> update_element iPos (iData_update (\<lambda>_. t2 + 1)) el3;
               (m2, t3, pstrDest) \<leftarrow> ParseData E preserve lt_sign m1 (t2 + 1) (t2 + 1);
               Some (Parsed (m2, t3, iPos, pstrNameEnd, Some pstrDest), el4)
             }
           }
         }
     }
   }"

text \<open>The end tag of the element whose name is at \<open>pstrName\<close>, from \<open></\<close>.\<close>

definition close_element ::
  "env \<Rightarrow> tstring \<Rightarrow> nat \<Rightarrow> nat \<Rightarrow> nat \<Rightarrow> nat \<Rightarrow> (tstring \<times> nat) outcome option" where
  "close_element E m pstrText pstrDest pstrName pstrNameEnd = do {
     m1 \<leftarrow> poke pstrDest 0 m;
     m2 \<leftarrow> poke pstrText 0 m1;
     t1 \<leftarrow> SkipWhitespace E m2 (pstrText + 2);
     let cchName = pstrNameEnd - pstrName;
     same \<leftarrow> tcsncmp_eq m2 t1 pstrName cchName;
     if \<not> same then fail_at m2 ''Unmatched closing tag'' t1
     else do {
       t2 \<leftarrow> SkipWhitespace E m2 (t1 + cchName);
       c \<leftarrow> cell m2 t2;
       if c \<noteq> gt_sign then fail_at m2 ''Unmatched closing tag'' (t2 + 1)
       else Some (Parsed (m2, t2 + 1))
     }
   }"

text \<open>
  The loop of \<open>_Parse\<close>; the inner \<open>parse_loop\<close> with \<open>iPrevious = 0\<close> is the call for the children. The table is
  part of the result in both cases, since \<open>Release\<close> keeps the number of its elements.
\<close>

partial_function (option) parse_loop ::
  "env \<Rightarrow> bool \<Rightarrow> tstring \<Rightarrow> elements \<Rightarrow> nat \<Rightarrow> nat \<Rightarrow> nat \<Rightarrow> ((tstring \<times> nat) outcome \<times> elements) option" where
  [code]: "parse_loop E preserve m el pstrText parent iPrevious = do {
     c \<leftarrow> cell m pstrText;
     if c = 0 \<and> parent \<le> 1 then Some (Parsed (m, pstrText), el)
     else do {
       t1 \<leftarrow> SkipWhitespace E m pstrText;
       c1 \<leftarrow> cell m t1;
       if c1 \<noteq> lt_sign then fail_with el m ''Expected start tag'' t1
       else do {
         d1 \<leftarrow> cell m (t1 + 1);
         if d1 = slash then Some (Parsed (m, t1), el)
         else do {
           m1 \<leftarrow> poke t1 0 m;
           t2 \<leftarrow> SkipWhitespace E m1 (t1 + 1);
           c2 \<leftarrow> cell m1 t2;
           if c2 = 33 \<or> c2 = 63
           then do {
             t3 \<leftarrow> skip_directive E (if c2 = 33 then 45 else c2) m1 t2;
             c3 \<leftarrow> cell m1 t3;
             t4 \<leftarrow> SkipWhitespace E m1 (if c3 \<noteq> 0 then t3 + 2 else t3);
             parse_loop E preserve m1 el t4 parent iPrevious
           }
           else do {
             t3 \<leftarrow> SkipWhitespace E m1 t2;
             (r, el2) \<leftarrow> open_element E preserve m1 el t3 parent iPrevious;
             case r of
               Failed e x \<Rightarrow> Some (Failed e x, el2)
             | Parsed (m2, t4, iPos, pstrNameEnd, end_of_data) \<Rightarrow>
                 (case end_of_data of
                    None \<Rightarrow> do {
                      m3 \<leftarrow> poke pstrNameEnd 0 m2;
                      t5 \<leftarrow> SkipWhitespace E m3 t4;
                      parse_loop E preserve m3 el2 t5 parent iPos
                    }
                  | Some pstrDest \<Rightarrow> do {
                      c4 \<leftarrow> cell m2 t4;
                      if c4 = 0 \<and> parent \<le> 1 then Some (Parsed (m2, t4), el2)
                      else if c4 \<noteq> lt_sign then fail_with el2 m2 ''Expected end-tag start'' t4
                      else do {
                        d4 \<leftarrow> cell m2 (t4 + 1);
                        (r2, el3) \<leftarrow> (if d4 \<noteq> slash
                              then do { t5 \<leftarrow> SkipWhitespace E m2 t4; parse_loop E preserve m2 el2 t5 iPos 0 }
                              else Some (Parsed (m2, t4), el2));
                        case r2 of
                          Failed e x \<Rightarrow> Some (Failed e x, el3)
                        | Parsed (m3, t6) \<Rightarrow> do {
                            ending \<leftarrow> cells_match m3 t6 [lt_sign, slash];
                            r3 \<leftarrow> (if ending then close_element E m3 t6 pstrDest t3 pstrNameEnd
                                  else Some (Parsed (m3, t6)));
                            case r3 of
                              Failed e x \<Rightarrow> Some (Failed e x, el3)
                            | Parsed (m4, t7) \<Rightarrow> do {
                                m5 \<leftarrow> poke pstrNameEnd 0 m4;
                                t8 \<leftarrow> SkipWhitespace E m5 t7;
                                parse_loop E preserve m5 el3 t8 parent iPos
                              }
                          }
                      }
                    })
           }
         }
       }
     }
   }"

section \<open>The class\<close>

record markup =
  m_pstrXML :: "tstring option"
  m_table :: elements
  m_szErrorMsg :: string
  m_szErrorXML :: tstring
  m_bPreserveWhitespace :: bool

text \<open>\<open>Release\<close> frees the text and the table. Its statement \<open>m_nElements;\<close> does nothing.\<close>

definition Release :: "markup \<Rightarrow> markup" where
  "Release mk = mk\<lparr>m_pstrXML := None, m_table := (m_table mk)\<lparr>m_pElements := None\<rparr>\<rparr>"

definition Parse :: "env \<Rightarrow> markup \<Rightarrow> (bool \<times> markup) option" where
  "Parse E mk = do {
     let (i, el) = ReserveElement (m_table mk);
     m \<leftarrow> m_pstrXML mk;
     t \<leftarrow> SkipWhitespace E m 0;
     (r, el1) \<leftarrow> parse_loop E (m_bPreserveWhitespace mk) m el t 0 0;
     case r of
       Failed msg x \<Rightarrow> Some (False, mk\<lparr>m_table := el1, m_szErrorMsg := msg, m_szErrorXML := x\<rparr>)
     | Parsed (m1, t1) \<Rightarrow>
         Some (True, mk\<lparr>m_pstrXML := Some m1, m_table := el1, m_szErrorMsg := [], m_szErrorXML := []\<rparr>)
   }"

definition parse_or_release :: "env \<Rightarrow> markup \<Rightarrow> (bool \<times> markup) option" where
  "parse_or_release E mk = do {
     (bRes, mk1) \<leftarrow> Parse E mk;
     Some (bRes, if bRes then mk1 else Release mk1)
   }"

definition Load :: "env \<Rightarrow> tstring \<Rightarrow> markup \<Rightarrow> (bool \<times> markup) option" where
  "Load E pstrXML mk = do {
     let mk1 = Release mk;
     n \<leftarrow> tcslen pstrXML;
     parse_or_release E (mk1\<lparr>m_pstrXML := Some (take (n + 1) pstrXML)\<rparr>)
   }"

definition CMarkup :: "env \<Rightarrow> tstring option \<Rightarrow> markup option" where
  "CMarkup E pstrXML = do {
     let mk = \<lparr>m_pstrXML = None, m_table = \<lparr>m_pElements = None, m_nElements = 0, m_nReservedElements = 0\<rparr>,
               m_szErrorMsg = [], m_szErrorXML = [], m_bPreserveWhitespace = True\<rparr>;
     case pstrXML of None \<Rightarrow> Some mk | Some p \<Rightarrow> map_option snd (Load E p mk)
   }"

datatype encoding = XMLFILE_ENCODING_UTF8 | XMLFILE_ENCODING_UNICODE | XMLFILE_ENCODING_ASNI

text \<open>\<open>conv\<close> is \<open>MultiByteToWideChar\<close> for UTF-8 and for the code page of the system.\<close>

fun wide_chars :: "bool \<Rightarrow> nat \<Rightarrow> u8 list \<Rightarrow> tstring option" where
  "wide_chars big 0 bs = Some []"
| "wide_chars big (Suc n) (a # b # bs) = do {
     cs \<leftarrow> wide_chars big n bs;
     Some ((if big then push_bit 8 (ucast a) + ucast b else push_bit 8 (ucast b) + ucast a) # cs)
   }"
| "wide_chars big (Suc n) _ = None"

definition LoadFromMem ::
  "env \<Rightarrow> (bool \<Rightarrow> u8 list \<Rightarrow> tstring) \<Rightarrow> u8 list \<Rightarrow> encoding \<Rightarrow> markup \<Rightarrow> (bool \<times> markup) option" where
  "LoadFromMem E conv pByte enc mk =
     (case enc of
        XMLFILE_ENCODING_UTF8 \<Rightarrow>
          (let bs = (if length pByte \<ge> 3 \<and> take 3 pByte = [0xEF, 0xBB, 0xBF] then drop 3 pByte else pByte)
           in parse_or_release E (mk\<lparr>m_pstrXML := Some (conv True bs @ [0])\<rparr>))
      | XMLFILE_ENCODING_ASNI \<Rightarrow> parse_or_release E (mk\<lparr>m_pstrXML := Some (conv False pByte @ [0])\<rparr>)
      | XMLFILE_ENCODING_UNICODE \<Rightarrow>
          (if length pByte \<ge> 2 \<and> (take 2 pByte = [0xFE, 0xFF] \<or> take 2 pByte = [0xFF, 0xFE])
           then do {
             p \<leftarrow> wide_chars (take 2 pByte = [0xFE, 0xFF]) (length pByte div 2 - 1) (drop 2 pByte);
             parse_or_release E (mk\<lparr>m_pstrXML := Some (p @ [0])\<rparr>)
           }
           else parse_or_release E mk))"

definition IsValid :: "markup \<Rightarrow> bool" where
  "IsValid mk \<longleftrightarrow> m_pElements (m_table mk) \<noteq> None"

definition SetPreserveWhitespace :: "bool \<Rightarrow> markup \<Rightarrow> markup" where
  "SetPreserveWhitespace bPreserve mk = mk\<lparr>m_bPreserveWhitespace := bPreserve\<rparr>"

section \<open>Nodes\<close>

text \<open>
  A node of a markup is its position in the table, \<open>None\<close> for a node without owner. An attribute is a pair of
  the positions of its name and its value.
\<close>

definition GetRoot :: "markup \<Rightarrow> nat option" where
  "GetRoot mk = (if m_nElements (m_table mk) = 0 then None else Some 1)"

definition node_of :: "nat \<Rightarrow> nat option" where
  "node_of iPos = (if iPos = 0 then None else Some iPos)"

definition GetSibling :: "markup \<Rightarrow> nat option \<Rightarrow> nat option option" where
  "GetSibling mk node = (case node of None \<Rightarrow> Some None
     | Some i \<Rightarrow> map_option (\<lambda>e. node_of (iNext e)) (element_at (m_table mk) i))"

definition HasSiblings :: "markup \<Rightarrow> nat option \<Rightarrow> bool option" where
  "HasSiblings mk node = (case node of None \<Rightarrow> Some False
     | Some i \<Rightarrow> map_option (\<lambda>e. iNext e > 0) (element_at (m_table mk) i))"

definition GetChild :: "markup \<Rightarrow> nat option \<Rightarrow> nat option option" where
  "GetChild mk node = (case node of None \<Rightarrow> Some None
     | Some i \<Rightarrow> map_option (\<lambda>e. node_of (iChild e)) (element_at (m_table mk) i))"

definition HasChildren :: "markup \<Rightarrow> nat option \<Rightarrow> bool option" where
  "HasChildren mk node = (case node of None \<Rightarrow> Some False
     | Some i \<Rightarrow> map_option (\<lambda>e. iChild e \<noteq> 0) (element_at (m_table mk) i))"

definition GetParent :: "markup \<Rightarrow> nat option \<Rightarrow> nat option option" where
  "GetParent mk node = (case node of None \<Rightarrow> Some None
     | Some i \<Rightarrow> map_option (\<lambda>e. node_of (iParent e)) (element_at (m_table mk) i))"

text \<open>The text from a position to its terminator.\<close>

definition text_from :: "markup \<Rightarrow> nat \<Rightarrow> tstring option" where
  "text_from mk i = do { m \<leftarrow> m_pstrXML mk; n \<leftarrow> tcslen (drop i m); Some (take n (drop i m)) }"

definition name_at :: "markup \<Rightarrow> nat \<Rightarrow> tstring option" where
  "name_at mk i = do { e \<leftarrow> element_at (m_table mk) i; text_from mk (iStart e) }"

text \<open>The result of a method that returns a text is \<open>Some None\<close> for \<open>NULL\<close>.\<close>

definition GetName :: "markup \<Rightarrow> nat option \<Rightarrow> tstring option option" where
  "GetName mk node = (case node of None \<Rightarrow> Some None | Some i \<Rightarrow> map_option Some (name_at mk i))"

definition GetValue :: "markup \<Rightarrow> nat option \<Rightarrow> tstring option option" where
  "GetValue mk node = (case node of None \<Rightarrow> Some None
     | Some i \<Rightarrow> do { e \<leftarrow> element_at (m_table mk) i; map_option Some (text_from mk (iData e)) })"

partial_function (option) find_child :: "markup \<Rightarrow> tstring \<Rightarrow> nat \<Rightarrow> nat option option" where
  [code]: "find_child mk name iPos =
     (if iPos = 0 then Some None
      else do {
        s \<leftarrow> name_at mk iPos;
        if s = name then Some (Some iPos)
        else do { e \<leftarrow> element_at (m_table mk) iPos; find_child mk name (iNext e) }
      })"

definition GetChild_named :: "markup \<Rightarrow> tstring \<Rightarrow> nat option \<Rightarrow> nat option option" where
  "GetChild_named mk name node = (case node of None \<Rightarrow> Some None
     | Some i \<Rightarrow> do { e \<leftarrow> element_at (m_table mk) i; find_child mk name (iChild e) })"

definition MAX_XML_ATTRIBUTES :: nat where
  "MAX_XML_ATTRIBUTES = 64"

partial_function (option) map_attributes ::
  "env \<Rightarrow> tstring \<Rightarrow> nat \<Rightarrow> nat \<Rightarrow> (nat \<times> nat) list \<Rightarrow> (nat \<times> nat) list option" where
  [code]: "map_attributes E m pstr pstrEnd found =
     (if pstr < pstrEnd
      then do {
        iName \<leftarrow> SkipWhitespace E m pstr;
        n \<leftarrow> tcslen (drop iName m);
        t1 \<leftarrow> SkipWhitespace E m (iName + n + 1);
        c \<leftarrow> cell m t1;
        if c \<noteq> quote then Some found
        else do {
          let found1 = found @ [(iName, t1 + 1)];
          if length found1 \<ge> MAX_XML_ATTRIBUTES then Some found1
          else do { k \<leftarrow> tcslen (drop (t1 + 1) m); map_attributes E m (t1 + 1 + k + 1) pstrEnd found1 }
        }
      }
      else Some found)"

definition MapAttributes :: "env \<Rightarrow> markup \<Rightarrow> nat \<Rightarrow> (nat \<times> nat) list option" where
  "MapAttributes E mk i = do {
     m \<leftarrow> m_pstrXML mk;
     e \<leftarrow> element_at (m_table mk) i;
     n \<leftarrow> tcslen (drop (iStart e) m);
     map_attributes E m (iStart e + n + 1) (iData e) []
   }"

text \<open>
  A node keeps the attributes it has mapped, and maps them again when it has none; as nothing changes the text of
  a markup between two loads, the model maps them at each call.
\<close>

definition GetAttributeCount :: "env \<Rightarrow> markup \<Rightarrow> nat option \<Rightarrow> nat option" where
  "GetAttributeCount E mk node = (case node of None \<Rightarrow> Some 0 | Some i \<Rightarrow> map_option length (MapAttributes E mk i))"

definition HasAttributes :: "env \<Rightarrow> markup \<Rightarrow> nat option \<Rightarrow> bool option" where
  "HasAttributes E mk node =
     (case node of None \<Rightarrow> Some False | Some i \<Rightarrow> map_option (\<lambda>as. as \<noteq> []) (MapAttributes E mk i))"

text \<open>The attribute at an index and the one with a name, \<open>Some None\<close> when there is none.\<close>

definition attribute_at :: "env \<Rightarrow> markup \<Rightarrow> nat \<Rightarrow> int \<Rightarrow> (nat \<times> nat) option option" where
  "attribute_at E mk i iIndex = do {
     as \<leftarrow> MapAttributes E mk i;
     Some (if iIndex < 0 \<or> iIndex \<ge> int (length as) then None else Some (as ! nat iIndex))
   }"

fun find_attribute :: "markup \<Rightarrow> tstring \<Rightarrow> (nat \<times> nat) list \<Rightarrow> (nat \<times> nat) option option" where
  "find_attribute mk name [] = Some None"
| "find_attribute mk name (a # as) = do {
     s \<leftarrow> text_from mk (fst a);
     if s = name then Some (Some a) else find_attribute mk name as
   }"

definition attribute_named :: "env \<Rightarrow> markup \<Rightarrow> nat \<Rightarrow> tstring \<Rightarrow> (nat \<times> nat) option option" where
  "attribute_named E mk i name = do { as \<leftarrow> MapAttributes E mk i; find_attribute mk name as }"

definition text_or_empty :: "markup \<Rightarrow> nat option \<Rightarrow> tstring option option" where
  "text_or_empty mk v = (case v of None \<Rightarrow> Some (Some []) | Some iText \<Rightarrow> map_option Some (text_from mk iText))"

definition GetAttributeName :: "env \<Rightarrow> markup \<Rightarrow> nat option \<Rightarrow> int \<Rightarrow> tstring option option" where
  "GetAttributeName E mk node iIndex = (case node of None \<Rightarrow> Some None
     | Some i \<Rightarrow> do { a \<leftarrow> attribute_at E mk i iIndex; text_or_empty mk (map_option fst a) })"

definition GetAttributeValue :: "env \<Rightarrow> markup \<Rightarrow> nat option \<Rightarrow> int \<Rightarrow> tstring option option" where
  "GetAttributeValue E mk node iIndex = (case node of None \<Rightarrow> Some None
     | Some i \<Rightarrow> do { a \<leftarrow> attribute_at E mk i iIndex; text_or_empty mk (map_option snd a) })"

definition GetAttributeValue_named :: "env \<Rightarrow> markup \<Rightarrow> nat option \<Rightarrow> tstring \<Rightarrow> tstring option option" where
  "GetAttributeValue_named E mk node name = (case node of None \<Rightarrow> Some None
     | Some i \<Rightarrow> do { a \<leftarrow> attribute_named E mk i name; text_or_empty mk (map_option snd a) })"

definition HasAttribute :: "env \<Rightarrow> markup \<Rightarrow> nat option \<Rightarrow> tstring \<Rightarrow> bool option" where
  "HasAttribute E mk node name = (case node of None \<Rightarrow> Some False
     | Some i \<Rightarrow> map_option (\<lambda>a. a \<noteq> None) (attribute_named E mk i name))"

text \<open>The methods that copy a value into the buffer of the caller.\<close>

definition copy_value :: "markup \<Rightarrow> (nat \<times> nat) option \<Rightarrow> tstring \<Rightarrow> nat \<Rightarrow> (bool \<times> tstring) option" where
  "copy_value mk v pstrValue cchMax = (case v of None \<Rightarrow> Some (False, pstrValue)
     | Some (iName, iValue) \<Rightarrow> do {
         m \<leftarrow> m_pstrXML mk;
         map_option (Pair True) (tcsncpy pstrValue (drop iValue m) cchMax)
       })"

definition CopyAttributeValue ::
  "env \<Rightarrow> markup \<Rightarrow> nat option \<Rightarrow> int \<Rightarrow> tstring \<Rightarrow> nat \<Rightarrow> (bool \<times> tstring) option" where
  "CopyAttributeValue E mk node iIndex pstrValue cchMax = (case node of None \<Rightarrow> Some (False, pstrValue)
     | Some i \<Rightarrow> do { a \<leftarrow> attribute_at E mk i iIndex; copy_value mk a pstrValue cchMax })"

definition CopyAttributeValue_named ::
  "env \<Rightarrow> markup \<Rightarrow> nat option \<Rightarrow> tstring \<Rightarrow> tstring \<Rightarrow> nat \<Rightarrow> (bool \<times> tstring) option" where
  "CopyAttributeValue_named E mk node name pstrValue cchMax = (case node of None \<Rightarrow> Some (False, pstrValue)
     | Some i \<Rightarrow> do { a \<leftarrow> attribute_named E mk i name; copy_value mk a pstrValue cchMax })"

definition GetLastErrorMessage :: "markup \<Rightarrow> tstring \<Rightarrow> nat \<Rightarrow> tstring option" where
  "GetLastErrorMessage mk pstrMessage cchMax =
     tcsncpy pstrMessage (map (\<lambda>c. word_of_nat (of_char c)) (m_szErrorMsg mk) @ replicate (100 - length (m_szErrorMsg mk)) 0) cchMax"

definition GetLastErrorLocation :: "markup \<Rightarrow> tstring \<Rightarrow> nat \<Rightarrow> tstring option" where
  "GetLastErrorLocation mk pstrSource cchMax =
     tcsncpy pstrSource (m_szErrorXML mk @ replicate (50 - length (m_szErrorXML mk)) 0) cchMax"

end
