(* ===== verification/Dui_Markup_Safe.thy ===== *)
theory Dui_Markup_Safe
  imports Dui_Markup
begin

text \<open>
  The loops of the parser over white space, names, data and attributes stay inside the text and end, for every
  text that is empty or ends with a closing bracket.
\<close>

section \<open>The text that is left\<close>

text \<open>\<open>m0\<close> is the text before parsing: one terminator, at its end.\<close>

definition document :: "tstring \<Rightarrow> bool" where
  "document m0 \<longleftrightarrow> m0 \<noteq> [] \<and> (\<forall>j < length m0. m0 ! j = 0 \<longleftrightarrow> j = length m0 - 1)"

definition rest :: "tstring \<Rightarrow> tstring \<Rightarrow> nat \<Rightarrow> bool" where
  "rest m0 m t \<longleftrightarrow> length m = length m0 \<and> t < length m0 \<and> (\<forall>j. t \<le> j \<longrightarrow> j < length m0 \<longrightarrow> m ! j = m0 ! j)"

definition env_ok :: "env \<Rightarrow> bool" where
  "env_ok E \<longleftrightarrow>
     (\<forall>m i. i < length m \<longrightarrow> (if m ! i = 0 then CharNext E m i = i
        else i < CharNext E m i \<and> (\<forall>k. i < k \<longrightarrow> k < CharNext E m i \<longrightarrow> k < length m \<longrightarrow> 127 < m ! k))) \<and>
     \<not> istalnum E gt_sign"

text \<open>The frame of a step from \<open>t\<close> to \<open>t'\<close>.\<close>

definition same_below :: "nat \<Rightarrow> tstring \<Rightarrow> tstring \<Rightarrow> bool" where
  "same_below t m m' \<longleftrightarrow> (\<forall>j < t. m' ! j = m ! j)"

lemma same_below_refl [simp, intro]: "same_below t m m"
  by (simp add: same_below_def)

lemma same_below_trans: "same_below t m m1 \<Longrightarrow> same_below t' m1 m2 \<Longrightarrow> t \<le> t' \<Longrightarrow> same_below t m m2"
  by (simp add: same_below_def)

lemma same_below_poke [simp]: "t \<le> i \<Longrightarrow> same_below t m (m[i := c])"
  by (simp add: same_below_def)

lemma rest_cell: "rest m0 m t \<Longrightarrow> t \<le> i \<Longrightarrow> i < length m0 \<Longrightarrow> cell m i = Some (m0 ! i)"
  by (simp add: rest_def cell_def)

lemma rest_poke: "rest m0 m t \<Longrightarrow> i < t \<Longrightarrow> poke i c m = Some (m[i := c]) \<and> rest m0 (m[i := c]) t"
  by (auto simp: rest_def poke_def)

lemma rest_later: "rest m0 m t \<Longrightarrow> t \<le> t' \<Longrightarrow> t' < length m0 \<Longrightarrow> rest m0 m t'"
  by (auto simp: rest_def)

lemma rest_poke_at: "rest m0 m t \<Longrightarrow> t + 1 < length m0 \<Longrightarrow> poke t c m = Some (m[t := c]) \<and> rest m0 (m[t := c]) (t + 1)"
  using rest_poke[OF rest_later[of m0 m t "t + 1"], of t] by simp

lemma document_next: "document m0 \<Longrightarrow> i < length m0 \<Longrightarrow> m0 ! i \<noteq> 0 \<Longrightarrow> i + 1 < length m0"
  by (cases "i = length m0 - 1") (auto simp: document_def)

text \<open>A step of \<open>CharNext\<close> stays in the text and passes no sign of the language.\<close>

lemma char_next:
  assumes E: "env_ok E" and d: "document m0" and r: "rest m0 m i" and c: "m0 ! i \<noteq> 0"
  shows "i < CharNext E m i" and "CharNext E m i < length m0"
    and "i < k \<Longrightarrow> k < CharNext E m i \<Longrightarrow> 127 < m0 ! k"
proof -
  have i: "i < length m" "length m = length m0" "m ! i = m0 ! i" using r by (auto simp: rest_def)
  have step: "i < CharNext E m i \<and> (\<forall>k. i < k \<longrightarrow> k < CharNext E m i \<longrightarrow> k < length m \<longrightarrow> 127 < m ! k)"
    using E[unfolded env_ok_def, THEN conjunct1, rule_format, OF i(1)] i(3) c by simp
  thus "i < CharNext E m i" by simp
  have far: "127 < m ! k" if "i < k" "k < CharNext E m i" "k < length m" for k
    using step that by blast
  show "CharNext E m i < length m0"
  proof (rule ccontr)
    assume no: "\<not> CharNext E m i < length m0"
    define k where "k = length m0 - 1"
    have "i + 1 < length m0" using document_next[OF d _ c] i by simp
    hence "i < k" "k < CharNext E m i" "k < length m" using no i by (auto simp: k_def)
    from far[OF this] have "127 < m0 ! k" using r \<open>i < k\<close> i(2) \<open>k < length m\<close> by (simp add: rest_def)
    moreover have "m0 ! k = 0" using d i by (auto simp: document_def k_def)
    ultimately show False by simp
  qed
  thus "127 < m0 ! k" if "i < k" "k < CharNext E m i"
    using far[OF that] that r i(2) by (simp add: rest_def)
qed

lemma char_next_end: "env_ok E \<Longrightarrow> rest m0 m i \<Longrightarrow> m0 ! i = 0 \<Longrightarrow> CharNext E m i = i"
  unfolding env_ok_def rest_def by (elim conjE allE[of _ m] allE[of _ i]) simp

text \<open>A scan: a loop that steps over the characters of a class.\<close>

definition passes :: "tstring \<Rightarrow> nat \<Rightarrow> nat \<Rightarrow> bool" where
  "passes m0 i j \<longleftrightarrow> (\<forall>k. i \<le> k \<longrightarrow> k < j \<longrightarrow> m0 ! k \<noteq> gt_sign)"

lemma passes_refl [simp]: "passes m0 i i"
  by (simp add: passes_def)

lemma scan_induct:
  assumes E: "env_ok E" and d: "document m0"
    and step: "\<And>i. rest m0 m i \<Longrightarrow> f i = (if m0 ! i \<noteq> 0 \<and> p (m0 ! i) then f (CharNext E m i) else Some i)"
    and no_gt: "\<not> p gt_sign"
  shows "rest m0 m i \<Longrightarrow> \<exists>j. f i = Some j \<and> i \<le> j \<and> rest m0 m j \<and> passes m0 i j \<and> (m0 ! j = 0 \<or> \<not> p (m0 ! j))"
proof (induction "length m0 - i" arbitrary: i rule: less_induct)
  case less
  show ?case
  proof (cases "m0 ! i \<noteq> 0 \<and> p (m0 ! i)")
    case True
    note n = char_next[OF E d less.prems conjunct1[OF True]]
    have less: "length m0 - CharNext E m i < length m0 - i" using n(1,2) by linarith
    have "rest m0 m (CharNext E m i)" using n(1,2) by (intro rest_later[OF less.prems]) auto
    from less.hyps[OF less this] obtain j where j: "f (CharNext E m i) = Some j" "CharNext E m i \<le> j"
      "rest m0 m j" "passes m0 (CharNext E m i) j" "m0 ! j = 0 \<or> \<not> p (m0 ! j)" by blast
    have "passes m0 i j"
      unfolding passes_def
    proof (intro allI impI)
      fix k assume k: "i \<le> k" "k < j"
      show "m0 ! k \<noteq> gt_sign"
      proof (cases "k = i")
        case False
        show ?thesis
        proof (cases "k < CharNext E m i")
          case True
          with n(3)[of k] k False have "127 < m0 ! k" by simp
          thus ?thesis by auto
        qed (use j(4) k in \<open>auto simp: passes_def\<close>)
      qed (use True no_gt in auto)
    qed
    with step[OF less.prems] True j n(1) show ?thesis by auto
  next
    case False
    with step[OF less.prems] less.prems show ?thesis by auto
  qed
qed

lemma SkipWhitespace_ok:
  assumes E: "env_ok E" and d: "document m0" and r: "rest m0 m i"
  obtains j where "SkipWhitespace E m i = Some j" and "i \<le> j" and "rest m0 m j" and "passes m0 i j"
proof -
  have "\<exists>j. SkipWhitespace E m i = Some j \<and> i \<le> j \<and> rest m0 m j \<and> passes m0 i j \<and> (m0 ! j = 0 \<or> \<not> m0 ! j \<le> space)"
  proof (rule scan_induct[OF E d _ _ r])
    fix i assume "rest m0 m i"
    thus "SkipWhitespace E m i = (if m0 ! i \<noteq> 0 \<and> m0 ! i \<le> space then SkipWhitespace E m (CharNext E m i) else Some i)"
      using rest_cell[of m0 m i i] by (subst SkipWhitespace.simps) (auto simp: rest_def word_neq_0_conv)
  qed simp
  with that show ?thesis by blast
qed

lemma SkipIdentifier_ok:
  assumes E: "env_ok E" and d: "document m0" and r: "rest m0 m i"
  obtains j where "SkipIdentifier E m i = Some j" and "i \<le> j" and "rest m0 m j" and "passes m0 i j"
proof -
  have "\<exists>j. SkipIdentifier E m i = Some j \<and> i \<le> j \<and> rest m0 m j \<and> passes m0 i j \<and>
    (m0 ! j = 0 \<or> \<not> (m0 ! j = 95 \<or> m0 ! j = 58 \<or> istalnum E (m0 ! j)))"
  proof (rule scan_induct[OF E d _ _ r])
    fix i assume "rest m0 m i"
    thus "SkipIdentifier E m i = (if m0 ! i \<noteq> 0 \<and> (m0 ! i = 95 \<or> m0 ! i = 58 \<or> istalnum E (m0 ! i))
        then SkipIdentifier E m (CharNext E m i) else Some i)"
      using rest_cell[of m0 m i i] by (subst SkipIdentifier.simps) (auto simp: rest_def)
  qed (use E in \<open>simp add: env_ok_def\<close>)
  with that show ?thesis by blast
qed

lemma matches_ok:
  assumes d: "document m0"
  shows "rest m0 m t \<Longrightarrow> 0 \<notin> set cs \<Longrightarrow>
    \<exists>b. cells_match m t cs = Some b \<and> (b \<longrightarrow> t + length cs < length m0 \<and> (\<forall>k < length cs. m0 ! (t + k) = cs ! k))"
proof (induction cs arbitrary: t)
  case Nil
  thus ?case by (intro exI[of _ True]) (simp add: rest_def)
next
  case (Cons c cs)
  have cell: "cell m t = Some (m0 ! t)" using Cons.prems(1) by (auto intro: rest_cell simp: rest_def)
  show ?case
  proof (cases "m0 ! t = c")
    case True
    hence "t + 1 < length m0" using document_next[OF d, of t] Cons.prems by (auto simp: rest_def)
    hence "rest m0 m (t + 1)" by (intro rest_later[OF Cons.prems(1)]) auto
    moreover have "0 \<notin> set cs" using Cons.prems(2) by simp
    ultimately obtain b where "cells_match m (t + 1) cs = Some b"
      "b \<longrightarrow> t + 1 + length cs < length m0 \<and> (\<forall>k < length cs. m0 ! (t + 1 + k) = cs ! k)"
      using Cons.IH[of "t + 1"] by blast
    with cell True show ?thesis by (auto simp: nth_Cons split: nat.split)
  qed (use cell in auto)
qed

section \<open>Data and attributes stay in the text\<close>

text \<open>Reading from \<open>t\<close> to \<open>t'\<close> while writing from \<open>d\<close> to \<open>d'\<close>, behind it.\<close>

definition moved :: "tstring \<Rightarrow> nat \<Rightarrow> nat \<Rightarrow> tstring \<Rightarrow> tstring \<Rightarrow> nat \<Rightarrow> nat \<Rightarrow> bool" where
  "moved m0 d t m m' t' d' \<longleftrightarrow> rest m0 m' t' \<and> t \<le> t' \<and> d \<le> d' \<and> d' \<le> t' \<and> same_below d m m'"

lemma moved_refl: "rest m0 m t \<Longrightarrow> d \<le> t \<Longrightarrow> moved m0 d t m m t d"
  by (simp add: moved_def)

lemma moved_trans: "moved m0 d t m m1 t1 d1 \<Longrightarrow> moved m0 d1 t1 m1 m2 t2 d2 \<Longrightarrow> moved m0 d t m m2 t2 d2"
  by (auto simp: moved_def elim: same_below_trans)

lemma moved_poke: "rest m0 m t \<Longrightarrow> d < t' \<Longrightarrow> t \<le> t' \<Longrightarrow> t' < length m0 \<Longrightarrow>
    poke d c m = Some (m[d := c]) \<and> moved m0 d t m (m[d := c]) t' (d + 1)"
  using rest_poke[OF rest_later[of m0 m t t'], of d c] by (auto simp: moved_def)

lemma ParseMetaChar_ok:
  assumes d: "document m0" and r: "rest m0 m t" and dt: "dest < t"
  obtains m' t' where "ParseMetaChar m t dest = Some (m', t', dest + 1)" and "moved m0 dest t m m' t' (dest + 1)"
proof -
  have one: "\<exists>b. cells_match m t cs = Some b \<and> (b \<longrightarrow> (\<forall>c. poke dest c m = Some (m[dest := c]) \<and>
      moved m0 dest t m (m[dest := c]) (t + n) (dest + 1)))" if "0 \<notin> set cs" "length cs = n" for cs n
    using matches_ok[OF d r that(1)] moved_poke[OF r, of dest "t + n"] dt that(2) by auto
  have none: "poke dest c m = Some (m[dest := c]) \<and> moved m0 dest t m (m[dest := c]) t (dest + 1)" for c
    using moved_poke[OF r dt] r by (simp add: rest_def)
  from one[of "[97, 109, 112, 59]" 4] obtain b1 where b1: "cells_match m t [97, 109, 112, 59] = Some b1"
    "b1 \<longrightarrow> (\<forall>c. poke dest c m = Some (m[dest := c]) \<and> moved m0 dest t m (m[dest := c]) (t + 4) (dest + 1))" by (auto simp del: cells_match.simps)
  from one[of "[108, 116, 59]" 3] obtain b2 where b2: "cells_match m t [108, 116, 59] = Some b2"
    "b2 \<longrightarrow> (\<forall>c. poke dest c m = Some (m[dest := c]) \<and> moved m0 dest t m (m[dest := c]) (t + 3) (dest + 1))" by (auto simp del: cells_match.simps)
  from one[of "[103, 116, 59]" 3] obtain b3 where b3: "cells_match m t [103, 116, 59] = Some b3"
    "b3 \<longrightarrow> (\<forall>c. poke dest c m = Some (m[dest := c]) \<and> moved m0 dest t m (m[dest := c]) (t + 3) (dest + 1))" by (auto simp del: cells_match.simps)
  from one[of "[113, 117, 111, 116, 59]" 5] obtain b4 where b4: "cells_match m t [113, 117, 111, 116, 59] = Some b4"
    "b4 \<longrightarrow> (\<forall>c. poke dest c m = Some (m[dest := c]) \<and> moved m0 dest t m (m[dest := c]) (t + 5) (dest + 1))" by (auto simp del: cells_match.simps)
  from one[of "[97, 112, 111, 115, 59]" 5] obtain b5 where b5: "cells_match m t [97, 112, 111, 115, 59] = Some b5"
    "b5 \<longrightarrow> (\<forall>c. poke dest c m = Some (m[dest := c]) \<and> moved m0 dest t m (m[dest := c]) (t + 5) (dest + 1))" by (auto simp del: cells_match.simps)
  note unf = ParseMetaChar_def b1(1) b2(1) b3(1) b4(1) b5(1) bind.bind_lunit
  consider b1 | "\<not> b1" b2 | "\<not> b1" "\<not> b2" b3 | "\<not> b1" "\<not> b2" "\<not> b3" b4 | "\<not> b1" "\<not> b2" "\<not> b3" "\<not> b4" b5
    | "\<not> b1" "\<not> b2" "\<not> b3" "\<not> b4" "\<not> b5" by blast
  thus ?thesis
  proof cases
    case 1
    with b1(2) show ?thesis by (intro that) (simp_all only: unf if_True if_False; simp)+
  next
    case 2
    with b2(2) show ?thesis by (intro that) (simp_all only: unf if_True if_False; simp)+
  next
    case 3
    with b3(2) show ?thesis by (intro that) (simp_all only: unf if_True if_False; simp)+
  next
    case 4
    with b4(2) show ?thesis by (intro that) (simp_all only: unf if_True if_False; simp)+
  next
    case 5
    with b5(2) show ?thesis by (intro that) (simp_all only: unf if_True if_False; simp)+
  next
    case 6
    with none show ?thesis by (intro that) (simp_all only: unf if_True if_False; simp)+
  qed
qed

lemma meta_run_ok:
  assumes d: "document m0"
  shows "rest m0 m t \<Longrightarrow> dest \<le> t \<Longrightarrow>
    \<exists>m' t' d'. meta_run m t dest = Some (m', t', d') \<and> moved m0 dest t m m' t' d' \<and> (m0 ! t = ampersand \<longrightarrow> t < t')"
proof (induction "length m0 - t" arbitrary: m t dest rule: less_induct)
  case less
  have cell: "cell m t = Some (m0 ! t)" using less.prems(1) by (auto intro: rest_cell simp: rest_def)
  show ?case
  proof (cases "m0 ! t = ampersand")
    case True
    hence n: "t + 1 < length m0" using document_next[OF d, of t] less.prems(1) by (auto simp: rest_def)
    hence r: "rest m0 m (t + 1)" by (intro rest_later[OF less.prems(1)]) auto
    from ParseMetaChar_ok[OF d r, of dest] less.prems(2) obtain m1 t1 where
      1: "ParseMetaChar m (t + 1) dest = Some (m1, t1, dest + 1)" "moved m0 dest (t + 1) m m1 t1 (dest + 1)" by auto
    have t1: "t + 1 \<le> t1" "rest m0 m1 t1" "dest + 1 \<le> t1" using 1(2) by (auto simp: moved_def)
    have "length m0 - t1 < length m0 - t" using n t1(1) by linarith
    from less.hyps[OF this t1(2,3)] obtain m' t' d' where
      2: "meta_run m1 t1 (dest + 1) = Some (m', t', d')" "moved m0 (dest + 1) t1 m1 m' t' d'" by blast
    have "moved m0 dest (t + 1) m m' t' d'" using moved_trans[OF 1(2) 2(2)] .
    moreover from this have "moved m0 dest t m m' t' d'" "t < t'" by (auto simp: moved_def)
    ultimately show ?thesis using cell True 1(1) 2(1) by (subst meta_run.simps) simp
  next
    case False
    with cell moved_refl[OF less.prems] show ?thesis by (subst meta_run.simps) simp
  qed
qed

lemma copy_cells_ok:
  "rest m0 m t \<Longrightarrow> d \<le> t \<Longrightarrow> t + n < length m0 \<Longrightarrow>
    \<exists>m'. copy_cells n m t d = Some m' \<and> moved m0 d t m m' (t + n) (d + n)"
proof (induction n arbitrary: m t d)
  case 0
  thus ?case by (simp add: moved_def)
next
  case (Suc n)
  have cell: "cell m t = Some (m0 ! t)" using Suc.prems(3) by (intro rest_cell[OF Suc.prems(1)]) auto
  from moved_poke[OF Suc.prems(1), of d "t + 1" "m0 ! t"] Suc.prems have
    1: "poke d (m0 ! t) m = Some (m[d := m0 ! t])" "moved m0 d t m (m[d := m0 ! t]) (t + 1) (d + 1)" by auto
  with Suc.IH[of "m[d := m0 ! t]" "t + 1" "d + 1"] Suc.prems obtain m' where
    2: "copy_cells n (m[d := m0 ! t]) (t + 1) (d + 1) = Some m'"
    "moved m0 (d + 1) (t + 1) (m[d := m0 ! t]) m' (t + 1 + n) (d + 1 + n)" by (auto simp: moved_def)
  from moved_trans[OF 1(2) 2(2)] cell 1(1) 2(1) show ?case by simp
qed

lemma fill_cells_ok:
  "rest m0 m t \<Longrightarrow> i + n \<le> t \<Longrightarrow> d \<le> i \<Longrightarrow>
    \<exists>m'. fill_cells n i m = Some m' \<and> rest m0 m' t \<and> same_below d m m'"
proof (induction n arbitrary: m i)
  case (Suc n)
  from rest_poke[OF Suc.prems(1), of i space] Suc.prems have
    1: "poke i space m = Some (m[i := space])" "rest m0 (m[i := space]) t" by auto
  with Suc.IH[of "m[i := space]" "i + 1"] Suc.prems obtain m' where
    "fill_cells n (i + 1) (m[i := space]) = Some m'" "rest m0 m' t" "same_below d (m[i := space]) m'" by auto
  with 1(1) Suc.prems(3) same_below_trans[of d m "m[i := space]" d m'] show ?case by simp
qed simp

lemma data_loop_ok:
  assumes E: "env_ok E" and d: "document m0"
  shows "rest m0 m t \<Longrightarrow> dest \<le> t \<Longrightarrow>
    \<exists>m' t' d'. data_loop E pw cEnd m t dest = Some (m', t', d') \<and> moved m0 dest t m m' t' d' \<and>
      (m0 ! t' = 0 \<or> m0 ! t' = cEnd)"
proof (induction "length m0 - t" arbitrary: m t dest rule: less_induct)
  case less
  have cell: "cell m t = Some (m0 ! t)" using less.prems(1) by (auto intro: rest_cell simp: rest_def)
  show ?case
  proof (cases "m0 ! t = 0 \<or> m0 ! t = cEnd")
    case True
    with cell moved_refl[OF less.prems] show ?thesis by (subst data_loop.simps) auto
  next
    case False
    have "\<exists>m1 t1 d1. (if m0 ! t = ampersand then meta_run m t dest else Some (m, t, dest)) = Some (m1, t1, d1) \<and>
        moved m0 dest t m m1 t1 d1 \<and> (m0 ! t = ampersand \<longrightarrow> t < t1) \<and> (m0 ! t \<noteq> ampersand \<longrightarrow> t1 = t)"
      using meta_run_ok[OF d less.prems] moved_refl[OF less.prems] by auto
    then obtain m1 t1 d1 where
      1: "(if m0 ! t = ampersand then meta_run m t dest else Some (m, t, dest)) = Some (m1, t1, d1)"
      "moved m0 dest t m m1 t1 d1" "m0 ! t = ampersand \<longrightarrow> t < t1" "m0 ! t \<noteq> ampersand \<longrightarrow> t1 = t" by blast
    have r1: "rest m0 m1 t1" "t \<le> t1" "d1 \<le> t1" using 1(2) by (auto simp: moved_def)
    have cell1: "cell m1 t1 = Some (m0 ! t1)" using r1(1) by (auto intro: rest_cell simp: rest_def)
    have body: "data_loop E pw cEnd m t dest =
        (if m0 ! t = ampersand \<and> m0 ! t1 = cEnd then Some (m1, t1, d1)
         else if m0 ! t1 = space
         then do {
           m2 \<leftarrow> poke d1 (m0 ! t1) m1;
           t2 \<leftarrow> (if pw then Some (t1 + 1) else SkipWhitespace E m2 (t1 + 1));
           data_loop E pw cEnd m2 t2 (d1 + 1)
         }
         else do {
           m2 \<leftarrow> copy_cells (CharNext E m1 t1 - t1) m1 t1 d1;
           data_loop E pw cEnd m2 (t1 + (CharNext E m1 t1 - t1)) (d1 + (CharNext E m1 t1 - t1))
         })"
      using False by (subst data_loop.simps)
        (simp only: cell bind.bind_lunit if_False 1(1) cell1 Let_def prod.case)
    have go: "\<exists>m' t' d'. data_loop E pw cEnd m t dest = Some (m', t', d') \<and> moved m0 dest t m m' t' d' \<and>
        (m0 ! t' = 0 \<or> m0 ! t' = cEnd)"
      if "data_loop E pw cEnd m t dest = data_loop E pw cEnd m2 t2 d2" "moved m0 d1 t1 m1 m2 t2 d2" "t < t2"
      for m2 t2 d2
    proof -
      have r2: "rest m0 m2 t2" "d2 \<le> t2" using that(2) by (auto simp: moved_def)
      have "length m0 - t2 < length m0 - t" using that(3) r2(1) by (auto simp: rest_def)
      from less.hyps[OF this r2] obtain m' t' d' where
        "data_loop E pw cEnd m2 t2 d2 = Some (m', t', d')" "moved m0 d2 t2 m2 m' t' d'"
        "m0 ! t' = 0 \<or> m0 ! t' = cEnd" by blast
      with that(1) moved_trans[OF moved_trans[OF 1(2) that(2)]] show ?thesis by auto
    qed
    consider (stop) "m0 ! t = ampersand \<and> m0 ! t1 = cEnd"
      | (space) "\<not> (m0 ! t = ampersand \<and> m0 ! t1 = cEnd)" "m0 ! t1 = space"
      | (char) "\<not> (m0 ! t = ampersand \<and> m0 ! t1 = cEnd)" "m0 ! t1 \<noteq> space" "m0 ! t1 \<noteq> 0"
      | (ended) "\<not> (m0 ! t = ampersand \<and> m0 ! t1 = cEnd)" "m0 ! t1 = 0" by blast
    thus ?thesis
    proof cases
      case stop
      with body 1(2) show ?thesis by auto
    next
      case space
      have n: "t1 + 1 < length m0" using document_next[OF d, of t1] space(2) r1(1) by (auto simp: rest_def)
      from moved_poke[OF r1(1), of d1 "t1 + 1" "m0 ! t1"] n r1(3) have
        2: "poke d1 (m0 ! t1) m1 = Some (m1[d1 := m0 ! t1])" "moved m0 d1 t1 m1 (m1[d1 := m0 ! t1]) (t1 + 1) (d1 + 1)"
        by auto
      hence r2: "rest m0 (m1[d1 := m0 ! t1]) (t1 + 1)" by (simp add: moved_def)
      from SkipWhitespace_ok[OF E d r2] obtain j where j: "SkipWhitespace E (m1[d1 := m0 ! t1]) (t1 + 1) = Some j"
        "t1 + 1 \<le> j" "rest m0 (m1[d1 := m0 ! t1]) j" .
      define t2 where "t2 = (if pw then t1 + 1 else j)"
      have "data_loop E pw cEnd m t dest = data_loop E pw cEnd (m1[d1 := m0 ! t1]) t2 (d1 + 1)"
        unfolding body if_not_P[OF space(1)] if_P[OF space(2)] 2(1) bind.bind_lunit
        using j(1) by (simp add: t2_def)
      moreover have "moved m0 d1 t1 m1 (m1[d1 := m0 ! t1]) t2 (d1 + 1)"
        using 2(2) j(2,3) by (auto simp: t2_def moved_def)
      moreover have "t < t2" using r1(2) j(2) by (auto simp: t2_def)
      ultimately show ?thesis by (rule go)
    next
      case char
      note n = char_next[OF E d r1(1) char(3)]
      define k where "k = CharNext E m1 t1 - t1"
      from copy_cells_ok[OF r1(1,3), of k] n(1,2) obtain m2 where
        2: "copy_cells k m1 t1 d1 = Some m2" "moved m0 d1 t1 m1 m2 (t1 + k) (d1 + k)" by (auto simp: k_def)
      have "data_loop E pw cEnd m t dest = data_loop E pw cEnd m2 (t1 + k) (d1 + k)"
        unfolding body if_not_P[OF char(1)] if_not_P[OF char(2)]
        using 2(1) by (simp add: k_def)
      moreover have "t < t1 + k" using r1(2) n(1) by (simp add: k_def)
      ultimately show ?thesis using 2(2) by (intro go)
    next
      case ended
      have "CharNext E m1 t1 = t1" by (rule char_next_end[OF E r1(1) ended(2)])
      hence "data_loop E pw cEnd m t dest = data_loop E pw cEnd m1 t1 d1"
        unfolding body if_not_P[OF ended(1)] using ended(2) by simp
      moreover have "t < t1" using ended(2) False 1(3,4) by metis
      ultimately show ?thesis using moved_refl[OF r1(1,3)] by (intro go)
    qed
  qed
qed

lemma ParseData_ok:
  assumes E: "env_ok E" and d: "document m0" and r: "rest m0 m t"
  obtains m' t' d' where "ParseData E pw cEnd m t t = Some (m', t', d')" and "rest m0 m' t'" and "t \<le> t'"
    and "t \<le> d'" and "d' \<le> t'" and "same_below t m m'" and "m0 ! t' = 0 \<or> m0 ! t' = cEnd"
proof -
  from data_loop_ok[OF E d r order.refl, of pw cEnd] obtain m1 t1 d1 where
    1: "data_loop E pw cEnd m t t = Some (m1, t1, d1)" "moved m0 t t m m1 t1 d1" "m0 ! t1 = 0 \<or> m0 ! t1 = cEnd"
    by blast
  hence m1: "rest m0 m1 t1" "t \<le> t1" "t \<le> d1" "d1 \<le> t1" "same_below t m m1" by (auto simp: moved_def)
  have "\<exists>m2. fill_cells (t1 - (d1 + 1)) (d1 + 1) m1 = Some m2 \<and> rest m0 m2 t1 \<and> same_below t m1 m2"
  proof (cases "d1 + 1 \<le> t1")
    case True
    with m1 show ?thesis by (intro fill_cells_ok) auto
  qed (use m1 in auto)
  then obtain m2 where "fill_cells (t1 - (d1 + 1)) (d1 + 1) m1 = Some m2" "rest m0 m2 t1" "same_below t m1 m2" by blast
  with 1(1,3) m1 same_below_trans[OF m1(5)] show ?thesis
    by (intro that[of m2 t1 d1]) (auto simp: ParseData_def)
qed

section \<open>Error locations\<close>

text \<open>A location in the text, its terminator included, can be copied; the one behind the terminator cannot.\<close>

lemma error_text_ok:
  assumes r: "rest m0 m t" and d: "document m0"
  shows "error_text (drop t m) \<noteq> None"
proof -
  define n where "n = length m0 - 1"
  have n: "t \<le> n" "n < length m" "m ! n = 0" using r d by (auto simp: rest_def document_def n_def)
  show ?thesis
  proof (cases "n - t < 49")
    case True
    have "take 49 (drop t m) ! (n - t) = 0" "n - t < length (take 49 (drop t m))" using n True by auto
    hence "0 \<in> set (take 49 (drop t m))" by (metis nth_mem)
    thus ?thesis by (simp add: error_text_def)
  qed (use n in \<open>simp add: error_text_def\<close>)
qed

lemma fail_at_ok: "rest m0 m t \<Longrightarrow> document m0 \<Longrightarrow> \<exists>x. fail_at m msg t = Some (Failed msg x)"
  using error_text_ok[of m0 m t] by (auto simp: fail_at_def)

text \<open>A document that is empty or ends with \<open>></\<close>: no scan that begins after another sign reaches its end.\<close>

definition ends_well :: "tstring \<Rightarrow> bool" where
  "ends_well m0 \<longleftrightarrow> document m0 \<and> (length m0 = 1 \<or> m0 ! (length m0 - 2) = gt_sign)"

lemma not_at_end:
  assumes w: "ends_well m0" and p: "passes m0 (t + 1) j" and c: "m0 ! t \<noteq> gt_sign" and j: "t < j" "j < length m0"
  shows "j + 1 < length m0"
proof (rule ccontr)
  assume "\<not> j + 1 < length m0"
  hence e: "length m0 - 2 = j - 1" "length m0 \<noteq> 1" using j by auto
  hence "m0 ! (j - 1) = gt_sign" using w by (auto simp: ends_well_def)
  moreover have "m0 ! (j - 1) \<noteq> gt_sign"
  proof (cases "j - 1 = t")
    case False
    with j have "t + 1 \<le> j - 1" "j - 1 < j" by auto
    with p show ?thesis by (simp add: passes_def)
  qed (use c in simp)
  ultimately show False by simp
qed

section \<open>Attributes\<close>

definition outcome_ok :: "tstring \<Rightarrow> nat \<Rightarrow> tstring \<Rightarrow> (tstring \<times> nat) outcome option \<Rightarrow> bool" where
  "outcome_ok m0 t m r \<longleftrightarrow> (\<exists>e x. r = Some (Failed e x)) \<or>
     (\<exists>m' t'. r = Some (Parsed (m', t')) \<and> rest m0 m' t' \<and> t \<le> t' \<and> same_below t m m')"

lemma outcome_failed: "rest m0 m t' \<Longrightarrow> document m0 \<Longrightarrow> outcome_ok m0 t m1 (fail_at m msg t')"
  using fail_at_ok by (fastforce simp: outcome_ok_def)

lemma outcome_step:
  "outcome_ok m0 t' m' r \<Longrightarrow> same_below t m m' \<Longrightarrow> t \<le> t' \<Longrightarrow> outcome_ok m0 t m r"
  unfolding outcome_ok_def by (elim disjE exE conjE) (blast, metis order_trans same_below_trans)

lemma attribute_loop_ok:
  assumes E: "env_ok E" and w: "ends_well m0"
  shows "rest m0 m t \<Longrightarrow> outcome_ok m0 t m (attribute_loop E pw m t)"
proof (induction "length m0 - t" arbitrary: m t rule: less_induct)
  case less
  have d: "document m0" using w by (simp add: ends_well_def)
  have cell: "cell m i = Some (m0 ! i)" if "rest m0 m i" for m i
    using that by (auto intro: rest_cell simp: rest_def)
  show ?case
  proof (cases "m0 ! t = 0 \<or> m0 ! t = gt_sign \<or> m0 ! t = slash")
    case True
    with less.prems cell[OF less.prems] show ?thesis
      by (subst attribute_loop.simps) (auto simp: outcome_ok_def)
  next
    case False
    from SkipIdentifier_ok[OF E d less.prems] obtain ie where
      ie: "SkipIdentifier E m t = Some ie" "t \<le> ie" "rest m0 m ie" "passes m0 t ie" .
    from SkipWhitespace_ok[OF E d ie(3)] obtain t1 where
      t1: "SkipWhitespace E m ie = Some t1" "ie \<le> t1" "rest m0 m t1" "passes m0 ie t1" .
    note body = attribute_loop.simps[of E pw m t, unfolded cell[OF less.prems] bind.bind_lunit if_not_P[OF False]
        ie(1) t1(1) cell[OF t1(3)]]
    show ?thesis
    proof (cases "m0 ! t1 = equals")
      case False
      with outcome_failed[OF t1(3) d] show ?thesis by (simp add: body)
    next
      case eq: True
      have n1: "t1 + 1 < length m0" using document_next[OF d, of t1] eq t1(3) by (auto simp: rest_def)
      from rest_poke_at[OF t1(3) n1, of space] have
        p1: "poke t1 space m = Some (m[t1 := space])" "rest m0 (m[t1 := space]) (t1 + 1)" by auto
      define m2 where "m2 = m[t1 := space, ie := 0]"
      from rest_poke[OF p1(2), of ie 0] t1(2) have
        p2: "poke ie 0 (m[t1 := space]) = Some m2" "rest m0 m2 (t1 + 1)" by (auto simp: m2_def)
      have f2: "same_below t m m2" using ie(2) t1(2) by (simp add: m2_def same_below_def)
      from SkipWhitespace_ok[OF E d p2(2)] obtain t2 where
        t2: "SkipWhitespace E m2 (t1 + 1) = Some t2" "t1 + 1 \<le> t2" "rest m0 m2 t2" "passes m0 (t1 + 1) t2" .
      have n2: "t2 + 1 < length m0"
        by (rule not_at_end[OF w t2(4)]) (use eq t2(2,3) in \<open>auto simp: rest_def\<close>)
      have r2: "rest m0 m2 (t2 + 1)" using t2(3) n2 by (intro rest_later[OF t2(3)]) auto
      note body2 = body[unfolded p1(1) p2(1) bind.bind_lunit t2(1) cell[OF t2(3)]]
      show ?thesis
      proof (cases "m0 ! t2 = quote")
        case False
        with outcome_failed[OF r2 d] eq show ?thesis by (simp add: body2)
      next
        case q: True
        from ParseData_ok[OF E d r2, of pw quote] obtain m3 t3 de where
          3: "ParseData E pw quote m2 (t2 + 1) (t2 + 1) = Some (m3, t3, de)" "rest m0 m3 t3" "t2 + 1 \<le> t3"
          "t2 + 1 \<le> de" "de \<le> t3" "same_below (t2 + 1) m2 m3" .
        note body3 = body2[unfolded 3(1) bind.bind_lunit prod.case cell[OF 3(2)]]
        show ?thesis
        proof (cases "m0 ! t3 = 0")
          case True
          with outcome_failed[OF 3(2) d] eq q show ?thesis by (simp add: body3)
        next
          case False
          have n3: "t3 + 1 < length m0" using document_next[OF d _ False] 3(2) by (auto simp: rest_def)
          have r3: "rest m0 m3 (t3 + 1)" using n3 by (intro rest_later[OF 3(2)]) auto
          define m4 where "m4 = m3[de := 0]"
          from rest_poke[OF r3, of de 0] 3(5) have 4: "poke de 0 m3 = Some m4" "rest m0 m4 (t3 + 1)" by (auto simp: m4_def)
          define m5 where "m5 = (if t3 \<noteq> de then m4[t3 := space] else m4)"
          from rest_poke[OF 4(2), of t3 space] 4(2) have
            5: "(if t3 \<noteq> de then poke t3 space m4 else Some m4) = Some m5" "rest m0 m5 (t3 + 1)"
            by (auto simp: m5_def)
          have f5: "same_below t m m5"
          proof -
            have "same_below (t2 + 1) m3 m5" using 3(3,4) by (simp add: m5_def m4_def same_below_def)
            hence "same_below (t2 + 1) m2 m5" by (rule same_below_trans[OF 3(6)]) simp
            thus ?thesis by (rule same_below_trans[OF f2]) (use ie(2) t1(2) t2(2) in simp)
          qed
          from SkipWhitespace_ok[OF E d 5(2)] obtain t4 where
            t4: "SkipWhitespace E m5 (t3 + 1) = Some t4" "t3 + 1 \<le> t4" "rest m0 m5 t4" .
          have later: "t < t4" using ie(2) t1(2) t2(2) 3(3) t4(2) by simp
          hence "length m0 - t4 < length m0 - t" using t4(3) by (auto simp: rest_def)
          from outcome_step[OF less.hyps[OF this t4(3)] f5] later
          have "outcome_ok m0 t m (attribute_loop E pw m5 t4)" by simp
          moreover have "attribute_loop E pw m t = attribute_loop E pw m5 t4"
            unfolding body3 4(1) 5(1) t4(1) bind.bind_lunit using eq q False by simp
          ultimately show ?thesis by simp
        qed
      qed
    qed
  qed
qed

lemma ParseAttributes_ok:
  assumes E: "env_ok E" and w: "ends_well m0" and r: "rest m0 m t" and c: "m0 ! t \<noteq> 0"
  shows "outcome_ok m0 t m (ParseAttributes E pw m t)"
proof (cases "m0 ! t = gt_sign")
  case True
  with r rest_cell[OF r order.refl] show ?thesis by (auto simp: ParseAttributes_def outcome_ok_def rest_def)
next
  case False
  have d: "document m0" using w by (simp add: ends_well_def)
  have n: "t + 1 < length m0" using document_next[OF d _ c] r by (auto simp: rest_def)
  from rest_poke_at[OF r n, of 0] have p: "poke t 0 m = Some (m[t := 0])" "rest m0 (m[t := 0]) (t + 1)" by auto
  from SkipWhitespace_ok[OF E d p(2)] obtain t1 where
    t1: "SkipWhitespace E (m[t := 0]) (t + 1) = Some t1" "t + 1 \<le> t1" "rest m0 (m[t := 0]) t1" .
  have "ParseAttributes E pw m t = attribute_loop E pw (m[t := 0]) t1"
    using False rest_cell[OF r order.refl] r p(1) t1(1) by (simp add: ParseAttributes_def rest_def)
  with outcome_step[OF attribute_loop_ok[OF E w t1(3), of pw], of t m] t1(2) show ?thesis by simp
qed

end
