(* ===== verification/Dui_Markup_Tree.thy ===== *)
theory Dui_Markup_Tree
  imports Dui_Markup_Safe
begin

text \<open>
  The table of elements is a forest: which list of parents a table describes, and that adding an element and
  setting its data keep this.
\<close>

section \<open>The forest\<close>

text \<open>
  A table stands for the list \<open>ps\<close> of the parents of its elements; entry 0 is not used. The child of an
  element is the first element that has it as parent, its sibling the next one with the same parent. The
  positions in the text are less than \<open>N\<close>.
\<close>

definition first_index :: "(nat \<Rightarrow> bool) \<Rightarrow> nat list \<Rightarrow> nat" where
  "first_index P xs = (case find P xs of None \<Rightarrow> 0 | Some j \<Rightarrow> j)"

definition first_child :: "nat list \<Rightarrow> nat \<Rightarrow> nat" where
  "first_child ps i = first_index (\<lambda>j. ps ! j = i) [1..<length ps]"

definition next_sibling :: "nat list \<Rightarrow> nat \<Rightarrow> nat" where
  "next_sibling ps i = first_index (\<lambda>j. ps ! j = ps ! i) [i + 1..<length ps]"

definition describes :: "nat \<Rightarrow> elements \<Rightarrow> nat list \<Rightarrow> bool" where
  "describes N el ps \<longleftrightarrow> ps \<noteq> [] \<and> m_nElements el = length ps \<and>
     (\<exists>es. m_pElements el = Some es \<and> length es = m_nReservedElements el \<and> length ps \<le> length es) \<and>
     (\<forall>i. 1 \<le> i \<longrightarrow> i < length ps \<longrightarrow> ps ! i < i \<and> (\<exists>e. element_at el i = Some e \<and> iParent e = ps ! i \<and>
        iChild e = first_child ps i \<and> iNext e = next_sibling ps i \<and> iStart e < N \<and> iData e < N))"

text \<open>\<open>k\<close> is the last child of \<open>p\<close>, or 0 when it has none.\<close>

definition last_child :: "nat list \<Rightarrow> nat \<Rightarrow> nat \<Rightarrow> bool" where
  "last_child ps p k \<longleftrightarrow>
     (if k = 0 then \<forall>j. 1 \<le> j \<longrightarrow> j < length ps \<longrightarrow> ps ! j \<noteq> p
      else k < length ps \<and> ps ! k = p \<and> (\<forall>j. k < j \<longrightarrow> j < length ps \<longrightarrow> ps ! j \<noteq> p))"

lemma first_index_append:
  "0 \<notin> set xs \<Longrightarrow> first_index P (xs @ [n]) = (if first_index P xs = 0 \<and> P n then n else first_index P xs)"
  by (induction xs) (auto simp: first_index_def split: option.splits)

lemma first_index_zero: "0 \<notin> set xs \<Longrightarrow> first_index P xs = 0 \<longleftrightarrow> (\<forall>x \<in> set xs. \<not> P x)"
  by (induction xs) (auto simp: first_index_def)

lemma first_index_cong: "(\<And>x. x \<in> set xs \<Longrightarrow> P x = Q x) \<Longrightarrow> first_index P xs = first_index Q xs"
  by (simp add: first_index_def cong: find_cong)

lemma first_child_append:
  "ps \<noteq> [] \<Longrightarrow> first_child (ps @ [p]) i = (if first_child ps i = 0 \<and> p = i then length ps else first_child ps i)"
proof -
  assume ne: "ps \<noteq> []"
  have "first_child (ps @ [p]) i = first_index (\<lambda>j. (ps @ [p]) ! j = i) ([1..<length ps] @ [length ps])"
    using ne by (cases ps) (simp_all add: first_child_def)
  also have "\<dots> = (if first_index (\<lambda>j. (ps @ [p]) ! j = i) [1..<length ps] = 0 \<and> p = i then length ps
      else first_index (\<lambda>j. (ps @ [p]) ! j = i) [1..<length ps])"
    by (subst first_index_append) auto
  also have "first_index (\<lambda>j. (ps @ [p]) ! j = i) [1..<length ps] = first_child ps i"
    unfolding first_child_def by (rule first_index_cong) (simp add: nth_append)
  finally show ?thesis .
qed

lemma next_sibling_append:
  "i < length ps \<Longrightarrow> next_sibling (ps @ [p]) i =
    (if next_sibling ps i = 0 \<and> p = ps ! i then length ps else next_sibling ps i)"
proof -
  assume i: "i < length ps"
  have "next_sibling (ps @ [p]) i = first_index (\<lambda>j. (ps @ [p]) ! j = ps ! i) ([i + 1..<length ps] @ [length ps])"
    using i by (simp add: next_sibling_def nth_append)
  also have "\<dots> = (if first_index (\<lambda>j. (ps @ [p]) ! j = ps ! i) [i + 1..<length ps] = 0 \<and> p = ps ! i then length ps
      else first_index (\<lambda>j. (ps @ [p]) ! j = ps ! i) [i + 1..<length ps])"
    by (subst first_index_append) auto
  also have "first_index (\<lambda>j. (ps @ [p]) ! j = ps ! i) [i + 1..<length ps] = next_sibling ps i"
    unfolding next_sibling_def by (rule first_index_cong) (simp add: nth_append)
  finally show ?thesis .
qed

lemma new_element_links:
  assumes "p < length ps" and "\<forall>i. 1 \<le> i \<longrightarrow> i < length ps \<longrightarrow> ps ! i < i"
  shows "first_child (ps @ [p]) (length ps) = 0" and "next_sibling (ps @ [p]) (length ps) = 0"
proof -
  have "\<forall>j \<in> set [1..<length (ps @ [p])]. (ps @ [p]) ! j \<noteq> length ps"
    using assms by (fastforce simp: nth_append less_Suc_eq)
  thus "first_child (ps @ [p]) (length ps) = 0"
    unfolding first_child_def by (subst first_index_zero) auto
  show "next_sibling (ps @ [p]) (length ps) = 0"
    by (simp add: next_sibling_def first_index_def)
qed

lemma last_child_links:
  assumes l: "last_child ps p k" and i: "1 \<le> i" "i < length ps"
  shows "ps ! i = p \<Longrightarrow> next_sibling ps i = 0 \<longleftrightarrow> i = k"
    and "first_child ps p = 0 \<longleftrightarrow> k = 0"
proof -
  have sib: "next_sibling ps i = 0 \<longleftrightarrow> (\<forall>j. i < j \<longrightarrow> j < length ps \<longrightarrow> ps ! j \<noteq> ps ! i)"
    unfolding next_sibling_def by (subst first_index_zero) (auto simp: Suc_le_eq)
  show "next_sibling ps i = 0 \<longleftrightarrow> i = k" if pi: "ps ! i = p"
  proof (cases "k = 0")
    case True
    with l i pi show ?thesis by (auto simp: last_child_def)
  next
    case False
    with l have lk: "k < length ps" "ps ! k = p" "\<forall>j. k < j \<longrightarrow> j < length ps \<longrightarrow> ps ! j \<noteq> p"
      by (auto simp: last_child_def)
    hence "i \<le> k" using pi i(2) by (meson not_less)
    with lk pi show ?thesis unfolding sib by (metis le_neq_implies_less)
  qed
  have "first_child ps p = 0 \<longleftrightarrow> (\<forall>j. 1 \<le> j \<longrightarrow> j < length ps \<longrightarrow> ps ! j \<noteq> p)"
    unfolding first_child_def by (simp add: first_index_zero Ball_def Suc_le_eq) blast
  moreover have "\<exists>j. 1 \<le> j \<and> j < length ps \<and> ps ! j = p" if "k \<noteq> 0"
    using l that by (intro exI[of _ k]) (simp add: last_child_def)
  moreover have "\<forall>j. 1 \<le> j \<longrightarrow> j < length ps \<longrightarrow> ps ! j \<noteq> p" if "k = 0"
    using l that by (simp add: last_child_def)
  ultimately show "first_child ps p = 0 \<longleftrightarrow> k = 0" by blast
qed

lemma last_child_new: "p < length ps \<Longrightarrow> last_child (ps @ [p]) p (length ps)"
  by (auto simp: last_child_def)

lemma last_child_append:
  assumes l: "last_child ps p k" and ne: "ps \<noteq> []" and q: "p \<notin> set qs"
  shows "last_child (ps @ qs) p k"
proof -
  have "(ps @ qs) ! j \<noteq> p" if "length ps \<le> j" "j < length (ps @ qs)" for j
  proof -
    have "(ps @ qs) ! j \<in> set qs" using that by (simp add: nth_append)
    with q show ?thesis by metis
  qed
  moreover have "(ps @ qs) ! j = ps ! j" if "j < length ps" for j using that by (simp add: nth_append)
  ultimately have eq: "(ps @ qs) ! j = p \<Longrightarrow> j < length (ps @ qs) \<Longrightarrow> j < length ps \<and> ps ! j = p" for j
    by (metis not_less)
  show ?thesis
  proof (cases "k = 0")
    case True
    with l eq show ?thesis by (fastforce simp: last_child_def)
  next
    case False
    with l have "k < length ps" "ps ! k = p" "\<forall>j. k < j \<longrightarrow> j < length ps \<longrightarrow> ps ! j \<noteq> p"
      by (auto simp: last_child_def)
    moreover from this have "(ps @ qs) ! k = p" by (simp add: nth_append)
    moreover have "(ps @ qs) ! j \<noteq> p" if "k < j" "j < length (ps @ qs)" for j
      using eq[of j] that calculation(3) by blast
    ultimately show ?thesis using False by (simp add: last_child_def)
  qed
qed

text \<open>Table operations.\<close>

lemma element_at_put:
  assumes "put_element i e el = Some el'"
  shows "element_at el' j = (if j = i then Some e else element_at el j)"
    and "m_nElements el' = m_nElements el" and "m_nReservedElements el' = m_nReservedElements el"
    and "map_option length (m_pElements el') = map_option length (m_pElements el)"
  using assms by (auto simp: put_element_def element_at_def nth_list_update split: if_splits)

lemma put_element_Some: "m_pElements el = Some es \<Longrightarrow> i < length es \<Longrightarrow> \<exists>el'. put_element i e el = Some el'"
  by (simp add: put_element_def)

lemma element_at_length: "element_at el i = Some e \<Longrightarrow> \<exists>es. m_pElements el = Some es \<and> i < length es"
  by (auto simp: element_at_def split: if_splits)

lemma update_element_ok:
  assumes "element_at el i = Some e"
  obtains el' where "update_element i f el = Some el'"
    and "\<And>j. element_at el' j = (if j = i then Some (f e) else element_at el j)"
    and "m_nElements el' = m_nElements el" and "m_nReservedElements el' = m_nReservedElements el"
    and "map_option length (m_pElements el') = map_option length (m_pElements el)"
proof -
  from element_at_length[OF assms] obtain es where "m_pElements el = Some es" "i < length es" by blast
  from put_element_Some[OF this, of "f e"] obtain el' where el': "put_element i (f e) el = Some el'" by blast
  show ?thesis
    by (rule that[OF _ element_at_put[OF el']]) (simp add: update_element_def assms el')
qed

lemma ReserveElement_ok:
  assumes "describes N el ps"
  obtains el' where "ReserveElement el = (length ps, el')" and "m_nElements el' = length ps + 1"
    and "\<And>j. j < length ps \<Longrightarrow> element_at el' j = element_at el j"
    and "\<exists>es. m_pElements el' = Some es \<and> length es = m_nReservedElements el' \<and> length ps < length es"
proof -
  from assms obtain es where es: "m_pElements el = Some es" "length es = m_nReservedElements el"
    "length ps \<le> length es" and n: "m_nElements el = length ps" "length ps \<noteq> 0"
    by (auto simp: describes_def)
  show ?thesis
  proof (cases "length es \<le> length ps")
    case True
    define r where "r = length es + (length es div 2 + 500)"
    define el' where "el' = el\<lparr>m_nReservedElements := r, m_pElements := Some (take r es @ replicate (r - length es) None),
      m_nElements := length ps + 1\<rparr>"
    have "ReserveElement el = (length ps, el')"
      using True es n by (simp add: ReserveElement_def el'_def r_def)
    moreover have "element_at el' j = element_at el j" if "j < length ps" for j
      using es that by (simp add: element_at_def el'_def r_def nth_append)
    moreover have "m_nElements el' = length ps + 1" by (simp add: el'_def)
    moreover have "\<exists>es. m_pElements el' = Some es \<and> length es = m_nReservedElements el' \<and> length ps < length es"
      using es by (simp add: el'_def r_def)
    ultimately show ?thesis by (intro that)
  next
    case False
    with es n show ?thesis
      by (intro that[of "el\<lparr>m_nElements := length ps + 1\<rparr>"]) (auto simp: ReserveElement_def element_at_def)
  qed
qed

lemma add_element_ok:
  assumes el: "describes N el ps" and p: "p < length ps" and k: "last_child ps p k" and t: "t < N"
  obtains el1 el2 el3 where "ReserveElement el = (length ps, el1)"
    and "put_element (length ps) \<lparr>iStart = t, iChild = 0, iNext = 0, iParent = p, iData = 0\<rparr> el1 = Some el2"
    and "(if k \<noteq> 0 then update_element k (iNext_update (\<lambda>_. length ps)) el2
            else if p > 0 then update_element p (iChild_update (\<lambda>_. length ps)) el2 else Some el2) = Some el3"
    and "describes N el3 (ps @ [p])"
proof -
  from ReserveElement_ok[OF el] obtain el1 where 1: "ReserveElement el = (length ps, el1)"
    "m_nElements el1 = length ps + 1" "\<And>j. j < length ps \<Longrightarrow> element_at el1 j = element_at el j"
    "\<exists>es. m_pElements el1 = Some es \<and> length es = m_nReservedElements el1 \<and> length ps < length es" by blast
  define e0 where "e0 = \<lparr>iStart = t, iChild = 0, iNext = 0, iParent = p, iData = 0\<rparr>"
  from 1(4) put_element_Some obtain el2 where 2: "put_element (length ps) e0 el1 = Some el2" by blast
  note at2 = element_at_put[OF 2]
  have tree: "\<forall>i. 1 \<le> i \<longrightarrow> i < length ps \<longrightarrow> ps ! i < i" and ne: "ps \<noteq> []" using el by (auto simp: describes_def)
  have old: "\<exists>e. element_at el2 i = Some e \<and> iParent e = ps ! i \<and> iChild e = first_child ps i \<and> iNext e = next_sibling ps i \<and>
      iStart e < N \<and> iData e < N"
    if "1 \<le> i" "i < length ps" for i
    using el that 1(3) at2(1) by (auto simp: describes_def)
  define i where "i = (if k \<noteq> 0 then k else p)"
  define f :: "XMLELEMENT \<Rightarrow> XMLELEMENT" where "f = (if k \<noteq> 0 then iNext_update (\<lambda>_. length ps) else iChild_update (\<lambda>_. length ps))"
  have kp: "k \<noteq> 0 \<Longrightarrow> k < length ps \<and> ps ! k = p" using k by (simp add: last_child_def)
  have "\<exists>el3. (if k \<noteq> 0 then update_element k (iNext_update (\<lambda>_. length ps)) el2
            else if p > 0 then update_element p (iChild_update (\<lambda>_. length ps)) el2 else Some el2) = Some el3 \<and>
      (\<forall>j. element_at el3 j = (if j = i \<and> i \<noteq> 0 then map_option f (element_at el2 i) else element_at el2 j)) \<and>
      m_nElements el3 = m_nElements el2 \<and> m_nReservedElements el3 = m_nReservedElements el2 \<and>
      map_option length (m_pElements el3) = map_option length (m_pElements el2)"
  proof (cases "i = 0")
    case True
    hence "k = 0" "p = 0" by (auto simp: i_def split: if_splits)
    with True show ?thesis by simp
  next
    case False
    with p kp have "1 \<le> i" "i < length ps" by (auto simp: i_def split: if_splits)
    from old[OF this] obtain e where e: "element_at el2 i = Some e" by blast
    from update_element_ok[OF e, of f] obtain el3 where "update_element i f el2 = Some el3"
      "\<And>j. element_at el3 j = (if j = i then Some (f e) else element_at el2 j)"
      "m_nElements el3 = m_nElements el2" "m_nReservedElements el3 = m_nReservedElements el2"
      "map_option length (m_pElements el3) = map_option length (m_pElements el2)" by blast
    with e False show ?thesis by (intro exI[of _ el3]) (auto simp: i_def f_def)
  qed
  then obtain el3 where 3: "(if k \<noteq> 0 then update_element k (iNext_update (\<lambda>_. length ps)) el2
            else if p > 0 then update_element p (iChild_update (\<lambda>_. length ps)) el2 else Some el2) = Some el3"
    "\<forall>j. element_at el3 j = (if j = i \<and> i \<noteq> 0 then map_option f (element_at el2 i) else element_at el2 j)"
    "m_nElements el3 = m_nElements el2" "m_nReservedElements el3 = m_nReservedElements el2"
    "map_option length (m_pElements el3) = map_option length (m_pElements el2)" by blast
  have entry: "(ps @ [p]) ! j < j \<and> (\<exists>e. element_at el3 j = Some e \<and> iParent e = (ps @ [p]) ! j \<and>
      iChild e = first_child (ps @ [p]) j \<and> iNext e = next_sibling (ps @ [p]) j \<and> iStart e < N \<and> iData e < N)"
    if j: "1 \<le> j" "j < length (ps @ [p])" for j
  proof (cases "j = length ps")
    case True
    hence "j \<noteq> i" using p kp by (auto simp: i_def)
    with True 3(2) at2(1) p new_element_links[OF p tree] t show ?thesis by (simp add: e0_def)
  next
    case False
    hence jl: "j < length ps" using j by simp
    from old[OF j(1) jl] obtain e where e: "element_at el2 j = Some e" "iParent e = ps ! j"
      "iChild e = first_child ps j" "iNext e = next_sibling ps j" "iStart e < N" "iData e < N" by blast
    have nx: "next_sibling (ps @ [p]) j = (if j = k then length ps else next_sibling ps j)"
      using next_sibling_append[OF jl, of p] last_child_links(1)[OF k j(1) jl] kp j(1) by auto
    have fc: "first_child (ps @ [p]) j = (if k = 0 \<and> p = j then length ps else first_child ps j)"
      using first_child_append[OF ne, of p j] last_child_links(2)[OF k j(1) jl] by auto
    have pj: "(ps @ [p]) ! j = ps ! j" using jl by (simp add: nth_append)
    show ?thesis
    proof (cases "j = i")
      case True
      with 3(2) e(1) j(1) have "element_at el3 j = Some (f e)" by auto
      moreover have "ps ! j < j" using tree j(1) jl by simp
      moreover have "iParent (f e) = ps ! j" "iChild (f e) = first_child (ps @ [p]) j"
        "iNext (f e) = next_sibling (ps @ [p]) j" "iStart (f e) < N" "iData (f e) < N"
        unfolding nx fc using e(2-6) True j(1) kp by (auto simp: f_def i_def split: if_splits)
      ultimately show ?thesis using pj by simp
    next
      case other: False
      with 3(2) e(1) have "element_at el3 j = Some e" by auto
      moreover have "j \<noteq> k" "\<not> (k = 0 \<and> p = j)" using other j(1) by (auto simp: i_def)
      hence "next_sibling (ps @ [p]) j = next_sibling ps j" "first_child (ps @ [p]) j = first_child ps j"
        unfolding nx fc by (simp_all only: if_False)
      ultimately show ?thesis using e(2-6) pj tree j(1) jl by simp
    qed
  qed
  have "describes N el3 (ps @ [p])"
    unfolding describes_def using entry 1(2,4) at2(2-4) 3(3-5) by auto
  with 1(1) 2 3(1) show ?thesis unfolding e0_def by (rule that)
qed

lemma set_data_ok:
  assumes el: "describes N el ps" and i: "1 \<le> i" "i < length ps" and t: "t < N"
  obtains el' where "update_element i (iData_update (\<lambda>_. t)) el = Some el'" and "describes N el' ps"
proof -
  from el i obtain e where e: "element_at el i = Some e" by (auto simp: describes_def)
  from update_element_ok[OF e, of "iData_update (\<lambda>_. t)"] obtain el' where
    u: "update_element i (iData_update (\<lambda>_. t)) el = Some el'"
    "\<And>j. element_at el' j = (if j = i then Some (iData_update (\<lambda>_. t) e) else element_at el j)"
    "m_nElements el' = m_nElements el" "m_nReservedElements el' = m_nReservedElements el"
    "map_option length (m_pElements el') = map_option length (m_pElements el)" by blast
  have "describes N el' ps"
    using el e t u(2-5) unfolding describes_def by auto
  with u(1) show ?thesis by (rule that)
qed

end
