(* ===== verification/Dui_Markup_Tags.thy ===== *)
theory Dui_Markup_Tags
  imports Dui_Markup_Tree
begin

text \<open>
  The tags: directives, start tags and end tags stay inside the text and end, a start tag adds one element to
  the forest; and what a call of \<open>_Parse\<close> promises.
\<close>

section \<open>Tags\<close>

lemma rest_cell_self: "rest m0 m t \<Longrightarrow> cell m t = Some (m0 ! t)"
  by (auto intro: rest_cell simp: rest_def)

lemma rest_doc: "rest m0 m t \<Longrightarrow> t < length m0"
  by (simp add: rest_def)

lemma skip_directive_ok:
  assumes E: "env_ok E" and d: "document m0"
  shows "rest m0 m t \<Longrightarrow> \<exists>j. skip_directive E ch m t = Some j \<and> t \<le> j \<and> rest m0 m j \<and>
    (m0 ! j \<noteq> 0 \<longrightarrow> j + 2 < length m0)"
proof (induction "length m0 - t" arbitrary: t rule: less_induct)
  case less
  have cell: "cell m t = Some (m0 ! t)" by (rule rest_cell_self[OF less.prems])
  show ?case
  proof (cases "m0 ! t = 0")
    case True
    with cell less.prems show ?thesis by (subst skip_directive.simps) auto
  next
    case False
    note n = document_next[OF d rest_doc[OF less.prems] False]
    have next_cell: "cell m (t + 1) = Some (m0 ! (t + 1))" using n by (intro rest_cell[OF less.prems]) auto
    show ?thesis
    proof (cases "m0 ! t = ch \<and> m0 ! (t + 1) = gt_sign")
      case True
      have "t + 2 < length m0" using document_next[OF d n] True by simp
      with cell next_cell False True less.prems show ?thesis by (subst skip_directive.simps) auto
    next
      case go: False
      note c = char_next[OF E d less.prems False]
      have r: "rest m0 m (CharNext E m t)" using c(1,2) by (intro rest_later[OF less.prems]) auto
      have "length m0 - CharNext E m t < length m0 - t" using c(1) rest_doc[OF less.prems] by linarith
      from less.hyps[OF this r] obtain j where j: "skip_directive E ch m (CharNext E m t) = Some j"
        "CharNext E m t \<le> j" "rest m0 m j" "m0 ! j \<noteq> 0 \<longrightarrow> j + 2 < length m0" by blast
      have "skip_directive E ch m t = skip_directive E ch m (CharNext E m t)"
        using cell next_cell False go by (subst skip_directive.simps) auto
      with j c(1) show ?thesis by auto
    qed
  qed
qed

lemma tcsncmp_eq_ok:
  assumes d: "document m0"
  shows "rest m0 m i \<Longrightarrow> j + n < length m0 \<Longrightarrow> \<forall>k < n. m ! (j + k) = m0 ! (j + k) \<Longrightarrow>
    \<exists>b. tcsncmp_eq m i j n = Some b \<and> (b \<longrightarrow> i + n < length m0 \<and> (\<forall>k < n. m0 ! (i + k) = m0 ! (j + k)))"
proof (induction n arbitrary: i j)
  case 0
  thus ?case by (intro exI[of _ True]) (simp add: rest_def)
next
  case (Suc n)
  have ci: "cell m i = Some (m0 ! i)" by (rule rest_cell_self[OF Suc.prems(1)])
  have cj: "cell m j = Some (m0 ! j)" using Suc.prems by (auto simp: cell_def rest_def)
  have nz: "m0 ! j \<noteq> 0" using d Suc.prems(2) by (auto simp: document_def)
  show ?case
  proof (cases "m0 ! i = m0 ! j")
    case True
    have "i + 1 < length m0" using document_next[OF d rest_doc[OF Suc.prems(1)]] True nz by simp
    hence r: "rest m0 m (i + 1)" by (intro rest_later[OF Suc.prems(1)]) auto
    have "j + 1 + n < length m0" using Suc.prems(2) by simp
    moreover have "\<forall>k < n. m ! (j + 1 + k) = m0 ! (j + 1 + k)"
    proof (intro allI impI)
      fix k assume "k < n"
      with Suc.prems(3)[rule_format, of "Suc k"] show "m ! (j + 1 + k) = m0 ! (j + 1 + k)" by simp
    qed
    ultimately obtain b where b: "tcsncmp_eq m (i + 1) (j + 1) n = Some b"
      "b \<longrightarrow> i + 1 + n < length m0 \<and> (\<forall>k < n. m0 ! (i + 1 + k) = m0 ! (j + 1 + k))"
      using Suc.IH[OF r] by blast
    have "\<forall>k < Suc n. m0 ! (i + k) = m0 ! (j + k)" if b
    proof (intro allI impI)
      fix k assume k: "k < Suc n"
      show "m0 ! (i + k) = m0 ! (j + k)" using k b(2) that True by (cases k) auto
    qed
    with ci cj nz True b show ?thesis by auto
  qed (use ci cj in auto)
qed

definition failed :: "'a outcome \<Rightarrow> bool" where
  "failed r \<longleftrightarrow> (case r of Failed e x \<Rightarrow> True | Parsed a \<Rightarrow> False)"

lemma fail_with_ok: "rest m0 m t \<Longrightarrow> document m0 \<Longrightarrow> \<exists>r. fail_with el m msg t = Some (r, el) \<and> failed r"
  using fail_at_ok[of m0 m t msg] by (auto simp: fail_with_def failed_def)

text \<open>Where the name of an element is, and that it still stands there.\<close>

definition name_kept :: "tstring \<Rightarrow> tstring \<Rightarrow> nat \<Rightarrow> nat \<Rightarrow> bool" where
  "name_kept m0 m a b \<longleftrightarrow> a \<le> b \<and> b < length m0 \<and> passes m0 a b \<and> (\<forall>j. a \<le> j \<longrightarrow> j < b \<longrightarrow> m ! j = m0 ! j)"

lemma name_kept_below: "name_kept m0 m a b \<Longrightarrow> same_below t m m' \<Longrightarrow> b \<le> t \<Longrightarrow> name_kept m0 m' a b"
  by (auto simp: name_kept_def same_below_def)

lemma close_element_ok:
  assumes E: "env_ok E" and w: "ends_well m0" and r: "rest m0 m t"
    and tag: "m0 ! t = lt_sign" "m0 ! (t + 1) = slash" "t + 2 < length m0"
    and name: "name_kept m0 m a b" and de: "b \<le> de" "de \<le> t"
  shows "(\<exists>e x. close_element E m t de a b = Some (Failed e x)) \<or>
    (\<exists>m' t'. close_element E m t de a b = Some (Parsed (m', t')) \<and> rest m0 m' t' \<and> t < t' \<and> same_below de m m')"
proof -
  have d: "document m0" using w by (simp add: ends_well_def)
  have r1: "rest m0 m (t + 1)" using tag(3) by (intro rest_later[OF r]) auto
  define m1 where "m1 = m[de := 0]"
  from rest_poke[OF r1, of de 0] de(2) have 1: "poke de 0 m = Some m1" "rest m0 m1 (t + 1)" by (auto simp: m1_def)
  define m2 where "m2 = m1[t := 0]"
  from rest_poke[OF 1(2), of t 0] have 2: "poke t 0 m1 = Some m2" "rest m0 m2 (t + 1)" by (auto simp: m2_def)
  have f2: "same_below de m m2" using de(2) by (simp add: m1_def m2_def same_below_def)
  have r2: "rest m0 m2 (t + 2)" using tag(3) by (intro rest_later[OF 2(2)]) auto
  from SkipWhitespace_ok[OF E d r2] obtain t1 where
    t1: "SkipWhitespace E m2 (t + 2) = Some t1" "t + 2 \<le> t1" "rest m0 m2 t1" "passes m0 (t + 2) t1" .
  define n where "n = b - a"
  have kept: "\<forall>k < n. m2 ! (a + k) = m0 ! (a + k)"
    using name_kept_below[OF name f2 de(1)] by (simp add: name_kept_def n_def)
  have an: "a + n = b" "b < length m0" using name by (auto simp: name_kept_def n_def)
  from tcsncmp_eq_ok[OF d t1(3), of a n] an kept obtain same where
    same: "tcsncmp_eq m2 t1 a n = Some same"
      "same \<longrightarrow> t1 + n < length m0 \<and> (\<forall>k < n. m0 ! (t1 + k) = m0 ! (a + k))" by auto
  note body = close_element_def[of E m t de a b, unfolded 1(1) 2(1) t1(1) bind.bind_lunit n_def[symmetric] Let_def same(1)]
  show ?thesis
  proof (cases same)
    case False
    with fail_at_ok[OF t1(3) d, of "''Unmatched closing tag''"] show ?thesis by (auto simp: body)
  next
    case True
    with same(2) have eq: "t1 + n < length m0" "\<forall>k < n. m0 ! (t1 + k) = m0 ! (a + k)" by auto
    have r3: "rest m0 m2 (t1 + n)" using eq(1) by (intro rest_later[OF t1(3)]) auto
    from SkipWhitespace_ok[OF E d r3] obtain t2 where
      t2: "SkipWhitespace E m2 (t1 + n) = Some t2" "t1 + n \<le> t2" "rest m0 m2 t2" "passes m0 (t1 + n) t2" .
    have n2: "t2 + 1 < length m0"
    proof (cases "n = 0")
      case True
      have "passes m0 (t + 1 + 1) t2" using t1(4) t2(4) True by (auto simp: passes_def not_le)
      thus ?thesis
        by (rule not_at_end[OF w]) (use tag(2) t1(2) t2(2) rest_doc[OF t2(3)] in auto)
    next
      case False
      define k where "k = n - 1"
      have k: "k < n" "t1 + k + 1 = t1 + n" "a \<le> a + k" "a + k < b" using False an(1) by (auto simp: k_def)
      hence "m0 ! (t1 + k) \<noteq> gt_sign" using eq(2) name by (auto simp: name_kept_def passes_def)
      thus ?thesis using not_at_end[OF w, of "t1 + k" t2] t2(2,4) k(2) rest_doc[OF t2(3)] by auto
    qed
    have r4: "rest m0 m2 (t2 + 1)" using n2 by (intro rest_later[OF t2(3)]) auto
    note body2 = body[unfolded t2(1) bind.bind_lunit rest_cell_self[OF t2(3)]]
    show ?thesis
    proof (cases "m0 ! t2 = gt_sign")
      case False
      with True fail_at_ok[OF r4 d, of "''Unmatched closing tag''"] show ?thesis by (auto simp: body2)
    next
      case gt: True
      with True r4 f2 t1(2) t2(2) show ?thesis by (auto simp: body2)
    qed
  qed
qed

lemma open_element_ok:
  assumes E: "env_ok E" and w: "ends_well m0" and r: "rest m0 m t"
    and el: "describes (length m0) el ps" and p: "p < length ps" and k: "last_child ps p k"
  obtains o1 el' where "open_element E pw m el t p k = Some (o1, el')" and "describes (length m0) el' (ps @ [p])"
    and "\<And>m' t' i ne od. o1 = Parsed (m', t', i, ne, od) \<Longrightarrow>
      i = length ps \<and> rest m0 m' t' \<and> ne < t' \<and> name_kept m0 m' t ne \<and> same_below t m m' \<and>
      (\<forall>de. od = Some de \<longrightarrow> ne \<le> de \<and> de \<le> t')"
proof -
  have d: "document m0" using w by (simp add: ends_well_def)
  from add_element_ok[OF el p k rest_doc[OF r]] obtain el1 el2 el3 where add: "ReserveElement el = (length ps, el1)"
    "put_element (length ps) \<lparr>iStart = t, iChild = 0, iNext = 0, iParent = p, iData = 0\<rparr> el1 = Some el2"
    "(if k \<noteq> 0 then update_element k (iNext_update (\<lambda>_. length ps)) el2
      else if p > 0 then update_element p (iChild_update (\<lambda>_. length ps)) el2 else Some el2) = Some el3"
    "describes (length m0) el3 (ps @ [p])" by blast
  from SkipIdentifier_ok[OF E d r] obtain ne where
    ne: "SkipIdentifier E m t = Some ne" "t \<le> ne" "rest m0 m ne" "passes m0 t ne" .
  note body = open_element_def[of E pw m el t p k, unfolded add(1) Let_def prod.case add(2,3) ne(1) bind.bind_lunit
      rest_cell_self[OF ne(3)]]
  show ?thesis
  proof (cases "m0 ! ne = 0")
    case True
    with fail_with_ok[OF ne(3) d, of el3] obtain o1 where
      "open_element E pw m el t p k = Some (o1, el3)" "failed o1" by (auto simp: body)
    with add(4) show ?thesis by (intro that[of o1 el3]) (auto simp: failed_def)
  next
    case False
    have "outcome_ok m0 ne m (ParseAttributes E pw m ne)" by (rule ParseAttributes_ok[OF E w ne(3) False])
    then consider e x where "ParseAttributes E pw m ne = Some (Failed e x)"
      | m1 t1 where "ParseAttributes E pw m ne = Some (Parsed (m1, t1))" "rest m0 m1 t1" "ne \<le> t1" "same_below ne m m1"
      by (auto simp: outcome_ok_def)
    thus ?thesis
    proof cases
      case 1
      with False have "open_element E pw m el t p k = Some (Failed e x, el3)" by (simp add: body)
      with add(4) show ?thesis by (intro that[of "Failed e x" el3]) auto
    next
      case 2
      from SkipWhitespace_ok[OF E d 2(2)] obtain t2 where
        t2: "SkipWhitespace E m1 t1 = Some t2" "t1 \<le> t2" "rest m0 m1 t2" .
      from matches_ok[OF d t2(3), of "[slash, gt_sign]"] obtain c where c: "cells_match m1 t2 [slash, gt_sign] = Some c"
        "c \<longrightarrow> t2 + 2 < length m0 \<and> (\<forall>k < 2. m0 ! (t2 + k) = [slash, gt_sign] ! k)"
        by (auto simp del: cells_match.simps)
      have name: "name_kept m0 m t ne"
        using ne r rest_doc[OF ne(3)] by (auto simp: name_kept_def rest_def)
      note body2 = body[unfolded if_not_P[OF False] 2(1) bind.bind_lunit outcome.case prod.case t2(1) c(1)]
      have i: "1 \<le> length ps" "length ps < length (ps @ [p])" using p by auto
      show ?thesis
      proof (cases c)
        case True
        with c(2) have n: "t2 + 2 < length m0" by simp
        from set_data_ok[OF add(4) i rest_doc[OF t2(3)]] obtain el4 where
          4: "update_element (length ps) (iData_update (\<lambda>_. t2)) el3 = Some el4" "describes (length m0) el4 (ps @ [p])" by blast
        have r2: "rest m0 m1 (t2 + 2)" using n by (intro rest_later[OF t2(3)]) auto
        from rest_poke[OF r2, of t2 0] have 5: "poke t2 0 m1 = Some (m1[t2 := 0])" "rest m0 (m1[t2 := 0]) (t2 + 2)" by auto
        have f: "same_below ne m (m1[t2 := 0])"
          by (rule same_below_trans[OF 2(4) same_below_poke[of ne]]) (use 2(3) t2(2) in auto)
        show ?thesis
        proof (rule that[of "Parsed (m1[t2 := 0], t2 + 2, length ps, ne, None)" el4])
          show "open_element E pw m el t p k = Some (Parsed (m1[t2 := 0], t2 + 2, length ps, ne, None), el4)"
            using True by (simp add: body2 4(1) 5(1))
        qed (use 4(2) 5(2) f ne(2) 2(3) t2(2) name_kept_below[OF name f order.refl]
            same_below_trans[OF f same_below_refl] in \<open>auto simp: same_below_def\<close>)
      next
        case nc: False
        show ?thesis
        proof (cases "m0 ! t2 = gt_sign")
          case False
          with nc fail_with_ok[OF t2(3) d, of el3] rest_cell_self[OF t2(3)] obtain o1 where
            "open_element E pw m el t p k = Some (o1, el3)" "failed o1" by (auto simp: body2)
          with add(4) show ?thesis by (intro that[of o1 el3]) (auto simp: failed_def)
        next
          case gt: True
          have n: "t2 + 1 < length m0" using document_next[OF d rest_doc[OF t2(3)]] gt by simp
          have r2: "rest m0 m1 (t2 + 1)" using n by (intro rest_later[OF t2(3)]) auto
          from ParseData_ok[OF E d r2, of pw lt_sign] obtain m2 t3 de where
            3: "ParseData E pw lt_sign m1 (t2 + 1) (t2 + 1) = Some (m2, t3, de)" "rest m0 m2 t3" "t2 + 1 \<le> t3"
            "t2 + 1 \<le> de" "de \<le> t3" "same_below (t2 + 1) m1 m2" .
          from set_data_ok[OF add(4) i n] obtain el4 where
            4: "update_element (length ps) (iData_update (\<lambda>_. t2 + 1)) el3 = Some el4" "describes (length m0) el4 (ps @ [p])" by blast
          have f: "same_below ne m m2"
            by (rule same_below_trans[OF 2(4) 3(6)]) (use 2(3) t2(2) in simp)
          show ?thesis
          proof (rule that[of "Parsed (m2, t3, length ps, ne, Some de)" el4])
            show "open_element E pw m el t p k = Some (Parsed (m2, t3, length ps, ne, Some de), el4)"
              unfolding body2 rest_cell_self[OF t2(3)] bind.bind_lunit 4(1) 3(1) prod.case using nc gt by simp
          qed (use 4(2) 3 f ne(2) 2(3) t2(2) name_kept_below[OF name f order.refl] in \<open>auto simp: same_below_def\<close>)
        qed
      qed
    qed
  qed
qed

section \<open>The loop over the elements\<close>

text \<open>What a call of \<open>_Parse\<close> promises.\<close>

definition parsed_ok ::
  "tstring \<Rightarrow> nat \<Rightarrow> tstring \<Rightarrow> nat list \<Rightarrow> nat \<Rightarrow> ((tstring \<times> nat) outcome \<times> elements) option \<Rightarrow> bool" where
  "parsed_ok m0 t m ps parent r \<longleftrightarrow>
     (\<exists>o1 el qs. r = Some (o1, el) \<and> describes (length m0) el (ps @ qs) \<and> (\<forall>q \<in> set qs. q = parent \<or> length ps \<le> q) \<and>
       (\<forall>m' t'. o1 = Parsed (m', t') \<longrightarrow> rest m0 m' t' \<and> t \<le> t' \<and> same_below t m m'))"

lemma parsed_ok_stop:
  "describes (length m0) el ps \<Longrightarrow> rest m0 m t' \<Longrightarrow> t \<le> t' \<Longrightarrow> same_below t m1 m \<Longrightarrow>
    parsed_ok m0 t m1 ps parent (Some (Parsed (m, t'), el))"
  unfolding parsed_ok_def by (intro exI[of _ "Parsed (m, t')"] exI[of _ el] exI[of _ "[]"]) simp

lemma parsed_ok_Failed:
  "describes (length m0) el (ps @ qs) \<Longrightarrow> \<forall>q \<in> set qs. q = parent \<or> length ps \<le> q \<Longrightarrow>
    parsed_ok m0 t m ps parent (Some (Failed e x, el))"
  unfolding parsed_ok_def by (intro exI[of _ "Failed e x"] exI[of _ el] exI[of _ qs]) simp

lemma parsed_ok_fail_with:
  assumes "rest m0 m1 t'" and "document m0" and "describes (length m0) el (ps @ qs)" and "\<forall>q \<in> set qs. q = parent \<or> length ps \<le> q"
  shows "parsed_ok m0 t m ps parent (fail_with el m1 msg t')"
proof -
  from error_text_ok[OF assms(1,2)] obtain x where "error_text (drop t' m1) = Some x" by blast
  thus ?thesis using parsed_ok_Failed[OF assms(3,4)] by (simp add: fail_with_def fail_at_def)
qed

text \<open>A later step of the loop, when \<open>qs\<close> are the elements added so far.\<close>

lemma parsed_ok_later:
  assumes r: "parsed_ok m0 t' m' (ps @ qs) parent r" and f: "same_below t m m'" "t \<le> t'"
    and qs: "\<forall>q \<in> set qs. q = parent \<or> length ps \<le> q"
  shows "parsed_ok m0 t m ps parent r"
proof -
  from r obtain o1 el qs' where 1: "r = Some (o1, el)" "describes (length m0) el ((ps @ qs) @ qs')"
    "\<forall>q \<in> set qs'. q = parent \<or> length (ps @ qs) \<le> q"
    "\<And>m1 t1. o1 = Parsed (m1, t1) \<Longrightarrow> rest m0 m1 t1 \<and> t' \<le> t1 \<and> same_below t' m' m1"
    unfolding parsed_ok_def by blast
  have "\<forall>q \<in> set (qs @ qs'). q = parent \<or> length ps \<le> q" using qs 1(3) by auto
  moreover have "rest m0 m1 t1 \<and> t \<le> t1 \<and> same_below t m m1" if "o1 = Parsed (m1, t1)" for m1 t1
    using 1(4)[OF that] same_below_trans[OF f(1) _ f(2)] f(2) by auto
  ultimately show ?thesis
    unfolding parsed_ok_def using 1(1,2)
    by (intro exI[of _ o1] exI[of _ el] exI[of _ "qs @ qs'"]) simp
qed

end
