(* ===== verification/Dui_Markup_Loop.thy ===== *)
theory Dui_Markup_Loop
  imports Dui_Markup_Tags
begin

text \<open>
  The loop over the elements and the loading of a text: for every text that is empty or ends with a closing
  bracket both stay inside the text, end, and leave a forest in the table.
\<close>

section \<open>The loop over the elements\<close>

text \<open>The calls of \<open>_Parse\<close> behind \<open>t\<close>, which the proof for the call at \<open>t\<close> may use.\<close>

definition loop_ok :: "env \<Rightarrow> bool \<Rightarrow> tstring \<Rightarrow> nat \<Rightarrow> bool" where
  "loop_ok E pw m0 t \<longleftrightarrow> (\<forall>m t' el ps parent k. t < t' \<longrightarrow> rest m0 m t' \<longrightarrow> describes (length m0) el ps \<longrightarrow> parent < length ps \<longrightarrow>
     last_child ps parent k \<longrightarrow> parsed_ok m0 t' m ps parent (parse_loop E pw m el t' parent k))"

lemma skip_then_loop:
  assumes E: "env_ok E" and d: "document m0" and ih: "loop_ok E pw m0 t" and r: "rest m0 m t1" "t < t1"
    and el: "describes (length m0) el ps" "parent < length ps" "last_child ps parent k"
  shows "parsed_ok m0 t1 m ps parent (do { t2 \<leftarrow> SkipWhitespace E m t1; parse_loop E pw m el t2 parent k })"
proof -
  from SkipWhitespace_ok[OF E d r(1)] obtain t2 where
    t2: "SkipWhitespace E m t1 = Some t2" "t1 \<le> t2" "rest m0 m t2" "passes m0 t1 t2" .
  have "t < t2" using r(2) t2(2) by simp
  with ih t2(3) el have "parsed_ok m0 t2 m (ps @ []) parent (parse_loop E pw m el t2 parent k)"
    by (simp add: loop_ok_def)
  from parsed_ok_later[OF this same_below_refl t2(2)] show ?thesis by (simp add: t2(1))
qed

text \<open>After an element and its descendants \<open>qs\<close>: its name is terminated and the loop goes on.\<close>

lemma next_element:
  assumes E: "env_ok E" and d: "document m0" and ih: "loop_ok E pw m0 t" and r: "rest m0 m4 t7" "same_below t m m4"
    and t: "t \<le> ne" "ne < t7" and el: "describes (length m0) el (ps @ parent # qs)" "parent < length ps"
    and qs: "\<forall>q \<in> set qs. length ps \<le> q"
  shows "parsed_ok m0 t m ps parent
    (do { m5 \<leftarrow> poke ne 0 m4; t8 \<leftarrow> SkipWhitespace E m5 t7; parse_loop E pw m5 el t8 parent (length ps) })"
proof -
  from rest_poke[OF r(1) t(2), of 0] have p: "poke ne 0 m4 = Some (m4[ne := 0])" "rest m0 (m4[ne := 0]) t7" by auto
  have "last_child ((ps @ [parent]) @ qs) parent (length ps)"
    by (rule last_child_append[OF last_child_new[OF el(2)]]) (use qs el(2) in auto)
  hence k: "last_child (ps @ parent # qs) parent (length ps)" by simp
  have "parsed_ok m0 t7 (m4[ne := 0]) (ps @ parent # qs) parent
      (do { t8 \<leftarrow> SkipWhitespace E (m4[ne := 0]) t7; parse_loop E pw (m4[ne := 0]) el t8 parent (length ps) })"
    by (rule skip_then_loop[OF E d ih p(2) _ el(1) _ k]) (use t el(2) in auto)
  moreover have "same_below t m (m4[ne := 0])" by (rule same_below_trans[OF r(2) same_below_poke[OF t(1)] order.refl])
  ultimately have "parsed_ok m0 t m ps parent
      (do { t8 \<leftarrow> SkipWhitespace E (m4[ne := 0]) t7; parse_loop E pw (m4[ne := 0]) el t8 parent (length ps) })"
    by (rule parsed_ok_later) (use t qs in auto)
  thus ?thesis by (simp add: p(1))
qed

lemma end_tag_ok:
  assumes E: "env_ok E" and w: "ends_well m0" and r: "rest m0 m t"
    and name: "name_kept m0 m a b" and de: "b \<le> de" "de \<le> t"
  obtains ending where "cells_match m t [lt_sign, slash] = Some ending"
    and "(\<exists>e x. (if ending then close_element E m t de a b else Some (Parsed (m, t))) = Some (Failed e x)) \<or>
      (\<exists>m' t'. (if ending then close_element E m t de a b else Some (Parsed (m, t))) = Some (Parsed (m', t')) \<and>
        rest m0 m' t' \<and> t \<le> t' \<and> same_below de m m')"
proof -
  have d: "document m0" using w by (simp add: ends_well_def)
  from matches_ok[OF d r, of "[lt_sign, slash]"] obtain ending where
    e: "cells_match m t [lt_sign, slash] = Some ending"
      "ending \<longrightarrow> t + 2 < length m0 \<and> (\<forall>k < 2. m0 ! (t + k) = [lt_sign, slash] ! k)"
    by (auto simp del: cells_match.simps)
  show ?thesis
  proof (cases ending)
    case True
    with e(2) have n: "t + 2 < length m0" "\<forall>k < 2. m0 ! (t + k) = [lt_sign, slash] ! k" by auto
    from n(2)[rule_format, of 0] n(2)[rule_format, of 1] have "m0 ! t = lt_sign" "m0 ! (t + 1) = slash" by auto
    from close_element_ok[OF E w r this n(1) name de] show ?thesis
      by (intro that[OF e(1)]) (use True in \<open>auto intro: less_imp_le\<close>)
  next
    case False
    with r that[OF e(1)] show ?thesis by auto
  qed
qed

text \<open>The children of the element \<open>length ps\<close>, whose text ends at \<open>t4\<close>.\<close>

lemma children_ok:
  assumes E: "env_ok E" and d: "document m0" and ih: "loop_ok E pw m0 t" and r: "rest m0 m t4" "t < t4"
    and el: "describes (length m0) el (ps @ [parent])" "parent < length ps"
  shows "parsed_ok m0 t4 m (ps @ [parent]) (length ps)
    (if d4 \<noteq> slash then do { t5 \<leftarrow> SkipWhitespace E m t4; parse_loop E pw m el t5 (length ps) 0 }
     else Some (Parsed (m, t4), el))"
proof -
  have "\<forall>i. 1 \<le> i \<longrightarrow> i < length (ps @ [parent]) \<longrightarrow> (ps @ [parent]) ! i < i"
    using el(1) unfolding describes_def by blast
  hence "last_child (ps @ [parent]) (length ps) 0" unfolding last_child_def by fastforce
  from skip_then_loop[OF E d ih r el(1) _ this] parsed_ok_stop[OF el(1) r(1) order.refl same_below_refl]
  show ?thesis by simp
qed

text \<open>An element, from its name to the loop over its siblings.\<close>

lemma element_ok:
  assumes E: "env_ok E" and w: "ends_well m0" and ih: "loop_ok E pw m0 t" and r: "rest m0 m t"
    and el: "describes (length m0) el ps" "parent < length ps" "last_child ps parent k"
  shows "parsed_ok m0 t m ps parent (do {
     (r, el2) \<leftarrow> open_element E pw m el t parent k;
     case r of
       Failed e x \<Rightarrow> Some (Failed e x, el2)
     | Parsed (m2, t4, iPos, pstrNameEnd, end_of_data) \<Rightarrow>
         (case end_of_data of
            None \<Rightarrow> do {
              m3 \<leftarrow> poke pstrNameEnd 0 m2;
              t5 \<leftarrow> SkipWhitespace E m3 t4;
              parse_loop E pw m3 el2 t5 parent iPos
            }
          | Some pstrDest \<Rightarrow> do {
              c4 \<leftarrow> cell m2 t4;
              if c4 = 0 \<and> parent \<le> 1 then Some (Parsed (m2, t4), el2)
              else if c4 \<noteq> lt_sign then fail_with el2 m2 ''Expected end-tag start'' t4
              else do {
                d4 \<leftarrow> cell m2 (t4 + 1);
                (r2, el3) \<leftarrow> (if d4 \<noteq> slash
                      then do { t5 \<leftarrow> SkipWhitespace E m2 t4; parse_loop E pw m2 el2 t5 iPos 0 }
                      else Some (Parsed (m2, t4), el2));
                case r2 of
                  Failed e x \<Rightarrow> Some (Failed e x, el3)
                | Parsed (m3, t6) \<Rightarrow> do {
                    ending \<leftarrow> cells_match m3 t6 [lt_sign, slash];
                    r3 \<leftarrow> (if ending then close_element E m3 t6 pstrDest t pstrNameEnd
                          else Some (Parsed (m3, t6)));
                    case r3 of
                      Failed e x \<Rightarrow> Some (Failed e x, el3)
                    | Parsed (m4, t7) \<Rightarrow> do {
                        m5 \<leftarrow> poke pstrNameEnd 0 m4;
                        t8 \<leftarrow> SkipWhitespace E m5 t7;
                        parse_loop E pw m5 el3 t8 parent iPos
                      }
                  }
              }
            })
   })" (is "parsed_ok m0 t m ps parent ?body")
proof -
  have d: "document m0" using w by (simp add: ends_well_def)
  from open_element_ok[OF E w r el, of pw] obtain o1 el2 where
    o1: "open_element E pw m el t parent k = Some (o1, el2)" "describes (length m0) el2 (ps @ [parent])"
    "\<And>m' t' i ne od. o1 = Parsed (m', t', i, ne, od) \<Longrightarrow>
      i = length ps \<and> rest m0 m' t' \<and> ne < t' \<and> name_kept m0 m' t ne \<and> same_below t m m' \<and>
      (\<forall>de. od = Some de \<longrightarrow> ne \<le> de \<and> de \<le> t')" by blast
  show ?thesis
  proof (cases o1)
    case (Failed e x)
    with o1(1,2) parsed_ok_Failed[of m0 el2 ps "[parent]" parent] show ?thesis by simp
  next
    case (Parsed y)
    obtain m2 t4 i ne od where y: "y = (m2, t4, i, ne, od)" by (cases y)
    from o1(3)[OF Parsed[unfolded y]] have
      2: "i = length ps" "rest m0 m2 t4" "ne < t4" "name_kept m0 m2 t ne" "same_below t m m2"
        "\<And>de. od = Some de \<Longrightarrow> ne \<le> de \<and> de \<le> t4" by auto
    have t: "t \<le> ne" "t < t4" using 2(3,4) by (auto simp: name_kept_def)
    note next_ok = next_element[OF E d ih _ _ t(1) _ _ el(2)]
    show ?thesis
    proof (cases od)
      case None
      with next_ok[OF 2(2,5,3), of el2 "[]"] o1(1,2) Parsed y 2(1) show ?thesis by simp
    next
      case (Some de)
      with 2(6) have de: "ne \<le> de" "de \<le> t4" by auto
      have c4: "cell m2 t4 = Some (m0 ! t4)" by (rule rest_cell_self[OF 2(2)])
      show ?thesis
      proof (cases "m0 ! t4 = 0 \<and> parent \<le> 1")
        case True
        have "parsed_ok m0 t m (ps @ [parent]) parent (Some (Parsed (m2, t4), el2))"
          by (rule parsed_ok_stop[OF o1(2) 2(2) _ 2(5)]) (use t in simp)
        from parsed_ok_later[OF this same_below_refl order.refl] True o1(1) Parsed y Some c4 show ?thesis by auto
      next
        case go: False
        show ?thesis
        proof (cases "m0 ! t4 = lt_sign")
          case False
          with parsed_ok_fail_with[OF 2(2) d o1(2), of parent] go o1(1) Parsed y Some c4 show ?thesis by auto
        next
          case lt: True
          have "t4 + 1 < length m0" using document_next[OF d rest_doc[OF 2(2)]] lt by simp
          hence d4: "cell m2 (t4 + 1) = Some (m0 ! (t4 + 1))" by (intro rest_cell[OF 2(2)]) auto
          from children_ok[OF E d ih 2(2) t(2) o1(2) el(2), of "m0 ! (t4 + 1)"] obtain o2 el3 qs where
            o2: "(if m0 ! (t4 + 1) \<noteq> slash then do { t5 \<leftarrow> SkipWhitespace E m2 t4; parse_loop E pw m2 el2 t5 (length ps) 0 }
               else Some (Parsed (m2, t4), el2)) = Some (o2, el3)" "describes (length m0) el3 ((ps @ [parent]) @ qs)"
            "\<forall>q \<in> set qs. q = length ps \<or> length (ps @ [parent]) \<le> q"
            "\<And>m3 t6. o2 = Parsed (m3, t6) \<Longrightarrow> rest m0 m3 t6 \<and> t4 \<le> t6 \<and> same_below t4 m2 m3"
            unfolding parsed_ok_def by blast
          have el3: "describes (length m0) el3 (ps @ parent # qs)" and qs: "\<forall>q \<in> set qs. length ps \<le> q" using o2(2,3) by auto
          hence qs': "\<forall>q \<in> set (parent # qs). q = parent \<or> length ps \<le> q" by simp
          have body: "?body = (case o2 of
                  Failed e x \<Rightarrow> Some (Failed e x, el3)
                | Parsed (m3, t6) \<Rightarrow> do {
                    ending \<leftarrow> cells_match m3 t6 [lt_sign, slash];
                    r3 \<leftarrow> (if ending then close_element E m3 t6 de t ne else Some (Parsed (m3, t6)));
                    case r3 of
                      Failed e x \<Rightarrow> Some (Failed e x, el3)
                    | Parsed (m4, t7) \<Rightarrow> do {
                        m5 \<leftarrow> poke ne 0 m4;
                        t8 \<leftarrow> SkipWhitespace E m5 t7;
                        parse_loop E pw m5 el3 t8 parent (length ps)
                      }
                  })"
            unfolding o1(1) bind.bind_lunit prod.case Parsed y outcome.case Some option.case c4 2(1) d4 o2(1)
            using lt by simp
          show ?thesis
          proof (cases o2)
            case (Failed e x)
            with parsed_ok_Failed[OF el3 qs'] show ?thesis by (simp add: body)
          next
            case (Parsed z)
            obtain m3 t6 where z: "z = (m3, t6)" by (cases z)
            from o2(4)[OF Parsed[unfolded z]] have 3: "rest m0 m3 t6" "t4 \<le> t6" "same_below t4 m2 m3" by auto
            have name: "name_kept m0 m3 t ne" by (rule name_kept_below[OF 2(4) 3(3)]) (use 2(3) in simp)
            have f3: "same_below t m m3" by (rule same_below_trans[OF 2(5) 3(3)]) (use t in simp)
            obtain ending where e: "cells_match m3 t6 [lt_sign, slash] = Some ending"
              "(\<exists>e x. (if ending then close_element E m3 t6 de t ne else Some (Parsed (m3, t6))) = Some (Failed e x)) \<or>
               (\<exists>m4 t7. (if ending then close_element E m3 t6 de t ne else Some (Parsed (m3, t6))) = Some (Parsed (m4, t7)) \<and>
                 rest m0 m4 t7 \<and> t6 \<le> t7 \<and> same_below de m3 m4)"
              by (rule end_tag_ok[OF E w 3(1) name de(1)]) (use de(2) 3(2) in auto)
            note body2 = body[unfolded Parsed z outcome.case prod.case e(1) bind.bind_lunit]
            from e(2) show ?thesis
            proof (elim disjE exE conjE)
              fix e x assume "(if ending then close_element E m3 t6 de t ne else Some (Parsed (m3, t6))) = Some (Failed e x)"
              with parsed_ok_Failed[OF el3 qs'] show ?thesis by (simp add: body2)
            next
              fix m4 t7 assume 4: "(if ending then close_element E m3 t6 de t ne else Some (Parsed (m3, t6))) = Some (Parsed (m4, t7))"
                "rest m0 m4 t7" "t6 \<le> t7" "same_below de m3 m4"
              have f4: "same_below t m m4" by (rule same_below_trans[OF f3 4(4)]) (use t(1) de(1) in simp)
              have "ne < t7" using 2(3) 3(2) 4(3) by simp
              from next_ok[OF 4(2) f4 this el3 qs] show ?thesis
                unfolding body2 4(1) bind.bind_lunit outcome.case prod.case .
            qed
          qed
        qed
      qed
    qed
  qed
qed

lemma parse_loop_ok:
  assumes E: "env_ok E" and w: "ends_well m0"
  shows "rest m0 m t \<Longrightarrow> describes (length m0) el ps \<Longrightarrow> parent < length ps \<Longrightarrow> last_child ps parent k \<Longrightarrow>
    parsed_ok m0 t m ps parent (parse_loop E pw m el t parent k)"
proof (induction "length m0 - t" arbitrary: m el t ps parent k rule: less_induct)
  case less
  have d: "document m0" using w by (simp add: ends_well_def)
  have ih: "loop_ok E pw m0 t"
    unfolding loop_ok_def
  proof (intro allI impI)
    fix m t' el ps parent k
    assume a: "t < t'" "rest m0 m t'" "describes (length m0) el ps" "parent < length ps" "last_child ps parent k"
    have "length m0 - t' < length m0 - t" using a(1) rest_doc[OF a(2)] by simp
    from less.hyps[OF this a(2-5)] show "parsed_ok m0 t' m ps parent (parse_loop E pw m el t' parent k)" .
  qed
  from SkipWhitespace_ok[OF E d less.prems(1)] obtain t1 where
    t1: "SkipWhitespace E m t = Some t1" "t \<le> t1" "rest m0 m t1" "passes m0 t t1" .
  note body = parse_loop.simps[of E pw m el t parent k, unfolded rest_cell_self[OF less.prems(1)] t1(1)
      rest_cell_self[OF t1(3)] bind.bind_lunit]
  show ?case
  proof (cases "m0 ! t = 0 \<and> parent \<le> 1 \<or> m0 ! t1 \<noteq> lt_sign")
    case True
    with parsed_ok_stop[OF less.prems(2,1) order.refl same_below_refl]
      parsed_ok_fail_with[OF t1(3) d, of el ps "[]" parent] less.prems(2)
    show ?thesis by (auto simp: body)
  next
    case False
    hence go: "\<not> (m0 ! t = 0 \<and> parent \<le> 1)" "m0 ! t1 = lt_sign" by auto
    have n1: "t1 + 1 < length m0" using document_next[OF d rest_doc[OF t1(3)]] go(2) by simp
    hence d1: "cell m (t1 + 1) = Some (m0 ! (t1 + 1))" by (intro rest_cell[OF t1(3)]) auto
    show ?thesis
    proof (cases "m0 ! (t1 + 1) = slash")
      case True
      with parsed_ok_stop[OF less.prems(2) t1(3,2) same_below_refl] go d1 show ?thesis by (auto simp: body)
    next
      case ns: False
      define m1 where "m1 = m[t1 := 0]"
      from rest_poke_at[OF t1(3) n1, of 0] have p1: "poke t1 0 m = Some m1" "rest m0 m1 (t1 + 1)" by (auto simp: m1_def)
      have f1: "same_below t m m1" using t1(2) by (simp add: m1_def)
      from SkipWhitespace_ok[OF E d p1(2)] obtain t2 where
        t2: "SkipWhitespace E m1 (t1 + 1) = Some t2" "t1 + 1 \<le> t2" "rest m0 m1 t2" "passes m0 (t1 + 1) t2" .
      note body2 = body[unfolded if_not_P[OF go(1)] if_not_P[OF not_not[THEN iffD2, OF go(2)]] d1 if_not_P[OF ns]
          p1(1) t2(1) rest_cell_self[OF t2(3)] bind.bind_lunit]
      show ?thesis
      proof (cases "m0 ! t2 = 33 \<or> m0 ! t2 = 63")
        case True
        define ch :: u16 where "ch = (if m0 ! t2 = 33 then 45 else m0 ! t2)"
        from skip_directive_ok[OF E d t2(3), of ch] obtain t3 where
          t3: "skip_directive E ch m1 t2 = Some t3" "t2 \<le> t3" "rest m0 m1 t3" "m0 ! t3 \<noteq> 0 \<longrightarrow> t3 + 2 < length m0"
          by blast
        define t3' where "t3' = (if m0 ! t3 \<noteq> 0 then t3 + 2 else t3)"
        have r3: "rest m0 m1 t3'" "t3 \<le> t3'" unfolding t3'_def using t3(3,4) by (auto intro: rest_later)
        have "parsed_ok m0 t3' m1 (ps @ []) parent
            (do { t4 \<leftarrow> SkipWhitespace E m1 t3'; parse_loop E pw m1 el t4 parent k })"
          by (simp, rule skip_then_loop[OF E d ih r3(1) _ less.prems(2-4)]) (use r3(2) t1(2) t2(2) t3(2) in auto)
        from parsed_ok_later[OF this f1] have "parsed_ok m0 t m ps parent
            (do { t4 \<leftarrow> SkipWhitespace E m1 t3'; parse_loop E pw m1 el t4 parent k })"
          using r3(2) t1(2) t2(2) t3(2) by auto
        with True show ?thesis
          unfolding body2 ch_def[symmetric] t3(1) rest_cell_self[OF t3(3)] bind.bind_lunit t3'_def[symmetric] by simp
      next
        case False
        from SkipWhitespace_ok[OF E d t2(3)] obtain t3 where
          t3: "SkipWhitespace E m1 t2 = Some t3" "t2 \<le> t3" "rest m0 m1 t3" "passes m0 t2 t3" .
        have t: "t \<le> t3" using t1(2) t2(2) t3(2) by simp
        have ih3: "loop_ok E pw m0 t3"
          unfolding loop_ok_def
        proof (intro allI impI)
          fix m t' el ps parent k
          assume a: "t3 < t'" "rest m0 m t'" "describes (length m0) el ps" "parent < length ps" "last_child ps parent k"
          have "t < t'" using a(1) t by simp
          with ih a(2-5) show "parsed_ok m0 t' m ps parent (parse_loop E pw m el t' parent k)" by (simp add: loop_ok_def)
        qed
        from parsed_ok_later[of m0 t3 m1 ps "[]", OF _ f1 t]
          element_ok[OF E w ih3 t3(3) less.prems(2-4)] show ?thesis
          unfolding body2 if_not_P[OF False] t3(1) bind.bind_lunit by simp
      qed
    qed
  qed
qed

end
