(* ===== verification/Dui_Markup_Props.thy ===== *)
theory Dui_Markup_Props
  imports Dui_Markup_Loop
begin

text \<open>
  Loading a text into a markup: a text that is empty or ends with a closing bracket is loaded or refused, and
  the nodes of a loaded one enumerate a forest; a second text, and texts that end otherwise, can fault.
\<close>

section \<open>The walk over the children\<close>

text \<open>\<open>for( node = parent.GetChild(); node.IsValid(); node = node.GetSibling() )\<close>\<close>

partial_function (option) sibling_walk :: "markup \<Rightarrow> nat option \<Rightarrow> nat list option" where
  [code]: "sibling_walk mk node = (case node of None \<Rightarrow> Some []
     | Some i \<Rightarrow> do { nxt \<leftarrow> GetSibling mk node; js \<leftarrow> sibling_walk mk nxt; Some (i # js) })"

definition children :: "markup \<Rightarrow> nat \<Rightarrow> nat list option" where
  "children mk i = do { c \<leftarrow> GetChild mk (Some i); sibling_walk mk c }"

lemma node_of_index: "0 \<notin> set xs \<Longrightarrow> node_of (first_index P xs) = find P xs"
proof (cases "find P xs")
  case (Some j)
  hence "j \<in> set xs" by (auto simp: find_Some_iff)
  moreover assume "0 \<notin> set xs"
  ultimately have "j \<noteq> 0" by metis
  with Some show ?thesis by (simp add: node_of_def first_index_def)
qed (simp add: node_of_def first_index_def)

lemma walk_from:
  assumes d: "describes N (m_table mk) ps"
  shows "1 \<le> i \<Longrightarrow> sibling_walk mk (find (\<lambda>j. ps ! j = p) [i..<length ps]) = Some (filter (\<lambda>j. ps ! j = p) [i..<length ps])"
proof (induction "length ps - i" arbitrary: i)
  case 0
  thus ?case by (subst sibling_walk.simps) simp
next
  case (Suc n)
  hence i: "i < length ps" and up: "[i..<length ps] = i # [i + 1..<length ps]" by (auto simp: upt_conv_Cons)
  have IH: "sibling_walk mk (find (\<lambda>j. ps ! j = p) [i + 1..<length ps]) = Some (filter (\<lambda>j. ps ! j = p) [i + 1..<length ps])"
    by (rule Suc.hyps(1)) (use Suc.hyps(2) in auto)
  show ?case
  proof (cases "ps ! i = p")
    case True
    from d i Suc.prems obtain e where "element_at (m_table mk) i = Some e" "iNext e = next_sibling ps i"
      by (auto simp: describes_def)
    moreover have "node_of (next_sibling ps i) = find (\<lambda>j. ps ! j = p) [i + 1..<length ps]"
      unfolding next_sibling_def True by (rule node_of_index) simp
    ultimately have "GetSibling mk (Some i) = Some (find (\<lambda>j. ps ! j = p) [i + 1..<length ps])"
      by (simp add: GetSibling_def)
    with True IH show ?thesis unfolding up by (subst sibling_walk.simps) simp
  next
    case False
    with IH show ?thesis unfolding up by simp
  qed
qed

lemma children_of:
  assumes d: "describes N (m_table mk) ps" and i: "1 \<le> i" "i < length ps"
  shows "children mk i = Some (filter (\<lambda>j. ps ! j = i) [1..<length ps])"
    and "GetParent mk (Some i) = Some (node_of (ps ! i))" and "ps ! i < i"
proof -
  from d i obtain e where e: "element_at (m_table mk) i = Some e" "iChild e = first_child ps i" "iParent e = ps ! i"
    "ps ! i < i" by (auto simp: describes_def)
  have "node_of (first_child ps i) = find (\<lambda>j. ps ! j = i) [1..<length ps]"
    unfolding first_child_def by (rule node_of_index) simp
  with e(1,2) walk_from[OF d order.refl, of i] show "children mk i = Some (filter (\<lambda>j. ps ! j = i) [1..<length ps])"
    by (simp add: children_def GetChild_def)
  show "GetParent mk (Some i) = Some (node_of (ps ! i))" "ps ! i < i" using e by (auto simp: GetParent_def)
qed

text \<open>A name and a value that are read from inside a text with a terminator.\<close>

lemma texts_of:
  assumes d: "describes (length m) (m_table mk) ps" and m: "m_pstrXML mk = Some m" "m \<noteq> []" "last m = 0"
    and i: "1 \<le> i" "i < length ps"
  shows "\<exists>nm v. GetName mk (Some i) = Some (Some nm) \<and> GetValue mk (Some i) = Some (Some v)"
proof -
  have inside: "\<exists>s. text_from mk j = Some s" if "j < length m" for j
  proof -
    have "last (drop j m) = 0" "drop j m \<noteq> []" using that m(3) by auto
    hence "0 \<in> set (drop j m)" by (metis last_in_set)
    thus ?thesis by (simp add: text_from_def m(1) tcslen_def)
  qed
  from d i obtain e where "element_at (m_table mk) i = Some e" "iStart e < length m" "iData e < length m"
    by (auto simp: describes_def)
  with inside show ?thesis by (fastforce simp: GetName_def GetValue_def name_at_def)
qed

section \<open>Loading\<close>

lemma first_reserve:
  assumes "m_nElements el = 0" and "m_pElements el = None"
  obtains el' where "ReserveElement el = (0, el')" and "describes N el' [0]"
proof -
  define el' where "el' = \<lparr>m_pElements = Some (replicate 500 None), m_nElements = 1, m_nReservedElements = 500\<rparr>"
  have "ReserveElement el = (0, el')"
    using assms by (cases el) (simp add: ReserveElement_def el'_def)
  moreover have "describes N el' [0]" by (simp add: describes_def el'_def)
  ultimately show ?thesis by (rule that)
qed

lemma Load_text: "0 \<notin> set s \<Longrightarrow> Load E (s @ 0 # z) mk = parse_or_release E ((Release mk)\<lparr>m_pstrXML := Some (s @ [0])\<rparr>)"
proof -
  assume s: "0 \<notin> set s"
  hence "takeWhile (\<lambda>c. c \<noteq> 0) (s @ 0 # z) = s" by (subst takeWhile_append2) auto
  hence "tcslen (s @ 0 # z) = Some (length s)" by (simp add: tcslen_def)
  thus ?thesis by (simp add: Load_def)
qed

lemma document_text: "0 \<notin> set s \<Longrightarrow> document (s @ [0])"
  by (auto simp: document_def nth_append dest: nth_mem)

text \<open>The outcome of a load, with the table it leaves.\<close>

lemma Load_outcome:
  assumes E: "env_ok E" and s: "0 \<notin> set s" "s = [] \<or> last s = gt_sign" and fresh: "m_nElements (m_table mk) = 0"
  obtains mk' m ps where "Load E (s @ 0 # z) mk = Some (True, mk')" and "describes (length m) (m_table mk') ps"
    and "m_pstrXML mk' = Some m" and "m \<noteq> []" and "last m = 0"
  | mk' where "Load E (s @ 0 # z) mk = Some (False, mk')" and "m_pElements (m_table mk') = None"
proof -
  define m0 where "m0 = s @ [0]"
  have d: "document m0" unfolding m0_def by (rule document_text[OF s(1)])
  have "m0 ! (length m0 - 2) = gt_sign" if "s \<noteq> []"
    using that s(2) by (auto simp: m0_def nth_append last_conv_nth)
  with d have w: "ends_well m0" by (auto simp: ends_well_def m0_def)
  have "rest m0 m0 0" by (simp add: rest_def m0_def)
  from SkipWhitespace_ok[OF E d this] obtain t where t: "SkipWhitespace E m0 0 = Some t" "0 \<le> t" "rest m0 m0 t" .
  define mk1 where "mk1 = (Release mk)\<lparr>m_pstrXML := Some m0\<rparr>"
  have "m_nElements (m_table mk1) = 0" "m_pElements (m_table mk1) = None"
    using fresh by (simp_all add: mk1_def Release_def)
  from first_reserve[OF this] obtain el where el: "ReserveElement (m_table mk1) = (0, el)" "describes (length m0) el [0]" .
  have "last_child [0] 0 0" by (simp add: last_child_def)
  from parse_loop_ok[OF E w t(3) el(2) _ this, of "m_bPreserveWhitespace mk1"] obtain o1 el1 qs where
    r: "parse_loop E (m_bPreserveWhitespace mk1) m0 el t 0 0 = Some (o1, el1)" "describes (length m0) el1 ([0] @ qs)"
      "\<And>m1 t1. o1 = Parsed (m1, t1) \<Longrightarrow> rest m0 m1 t1"
    unfolding parsed_ok_def by auto
  have load: "Load E (s @ 0 # z) mk = parse_or_release E mk1"
    by (simp add: Load_text[OF s(1)] mk1_def m0_def)
  have xml: "m_pstrXML mk1 = Some m0" by (simp add: mk1_def)
  note parse = load[unfolded parse_or_release_def Parse_def xml el(1) Let_def prod.case bind.bind_lunit t(1) r(1)]
  show ?thesis
  proof (cases o1)
    case (Failed e x)
    define mk2 where "mk2 = Release (mk1\<lparr>m_table := el1, m_szErrorMsg := e, m_szErrorXML := x\<rparr>)"
    have "Load E (s @ 0 # z) mk = Some (False, mk2)" unfolding parse Failed by (simp add: mk2_def)
    moreover have "m_pElements (m_table mk2) = None" by (simp add: mk2_def Release_def)
    ultimately show ?thesis by (rule that(2))
  next
    case (Parsed y)
    obtain m1 t1 where y: "y = (m1, t1)" by (cases y)
    define mk2 where "mk2 = mk1\<lparr>m_pstrXML := Some m1, m_table := el1, m_szErrorMsg := [], m_szErrorXML := []\<rparr>"
    have "Load E (s @ 0 # z) mk = Some (True, mk2)" unfolding parse Parsed y by (simp add: mk2_def)
    moreover have m1: "length m1 = length m0" "\<forall>j. t1 \<le> j \<longrightarrow> j < length m0 \<longrightarrow> m1 ! j = m0 ! j" "t1 < length m0"
      using r(3)[OF Parsed[unfolded y]] by (auto simp: rest_def)
    moreover have "describes (length m1) (m_table mk2) ([0] @ qs)" using r(2) m1(1) by (simp add: mk2_def)
    moreover have "m_pstrXML mk2 = Some m1" by (simp add: mk2_def)
    moreover have ne: "m1 \<noteq> []" using m1(1) by (auto simp: m0_def)
    moreover have "m1 ! length s = 0" using m1(2,3) by (simp add: m0_def)
    hence "last m1 = 0" using m1(1) ne by (simp add: last_conv_nth m0_def)
    ultimately show ?thesis by (intro that(1))
  qed
qed

section \<open>Properties\<close>

text \<open>
  C14: loading into a fresh markup: every text that is empty or ends with \<open>></\<close> is loaded or refused, without a read
  or write outside of the text or the table and without an endless loop. When it is loaded the elements form a
  forest: parents come before their children, and the walk with \<open>GetChild\<close> and \<open>GetSibling\<close> enumerates exactly
  the elements that have the node as parent, in the order of the text. Names and values lie inside the text.
\<close>

theorem Load_builds_forest:
  assumes "env_ok E" and "0 \<notin> set s" and "s = [] \<or> last s = gt_sign" and "m_nElements (m_table mk) = 0"
  shows "\<exists>ok mk'. Load E (s @ 0 # z) mk = Some (ok, mk') \<and>
    (if ok
     then \<exists>ps. m_nElements (m_table mk') = length ps \<and>
       (\<forall>i. 1 \<le> i \<longrightarrow> i < length ps \<longrightarrow> ps ! i < i \<and> GetParent mk' (Some i) = Some (node_of (ps ! i)) \<and>
          children mk' i = Some (filter (\<lambda>j. ps ! j = i) [1..<length ps]) \<and>
          (\<exists>nm v. GetName mk' (Some i) = Some (Some nm) \<and> GetValue mk' (Some i) = Some (Some v)))
     else \<not> IsValid mk')"
proof (rule Load_outcome[OF assms, of z])
  fix mk' m ps assume l: "Load E (s @ 0 # z) mk = Some (True, mk')" and d: "describes (length m) (m_table mk') ps"
    and m: "m_pstrXML mk' = Some m" "m \<noteq> []" "last m = 0"
  from d have "m_nElements (m_table mk') = length ps" by (simp add: describes_def)
  moreover from children_of[OF d] texts_of[OF d m] have "\<forall>i. 1 \<le> i \<longrightarrow> i < length ps \<longrightarrow> ps ! i < i \<and>
      GetParent mk' (Some i) = Some (node_of (ps ! i)) \<and> children mk' i = Some (filter (\<lambda>j. ps ! j = i) [1..<length ps]) \<and>
      (\<exists>nm v. GetName mk' (Some i) = Some (Some nm) \<and> GetValue mk' (Some i) = Some (Some v))"
    by blast
  ultimately show ?thesis by (intro exI[of _ True] exI[of _ mk']) (use l in auto)
next
  fix mk' assume "Load E (s @ 0 # z) mk = Some (False, mk')" "m_pElements (m_table mk') = None"
  thus ?thesis by (intro exI[of _ False] exI[of _ mk']) (simp add: IsValid_def)
qed

text \<open>Characters of one cell, and a markup without text.\<close>

definition plain_env :: env where
  "plain_env = \<lparr>CharNext = \<lambda>m i. if i < length m \<and> m ! i \<noteq> 0 then i + 1 else i,
     istalnum = \<lambda>c. 48 \<le> c \<and> c \<le> 57 \<or> 65 \<le> c \<and> c \<le> 90 \<or> 97 \<le> c \<and> c \<le> 122\<rparr>"

lemma plain_env_ok: "env_ok plain_env"
  by (auto simp: env_ok_def plain_env_def)

definition fresh_markup :: markup where
  "fresh_markup = \<lparr>m_pstrXML = None, m_table = \<lparr>m_pElements = None, m_nElements = 0, m_nReservedElements = 0\<rparr>,
     m_szErrorMsg = [], m_szErrorXML = [], m_bPreserveWhitespace = True\<rparr>"

lemma CMarkup_fresh: "CMarkup E None = Some fresh_markup"
  by (simp add: CMarkup_def fresh_markup_def)

text \<open>\<open><W /></\<close>\<close>

abbreviation (input) one_element :: tstring where
  "one_element \<equiv> [60, 87, 32, 47, 62]"

theorem Load_builds_forest_witness:
  "\<exists>ok mk'. Load plain_env (one_element @ 0 # []) fresh_markup = Some (ok, mk') \<and>
    (if ok
     then \<exists>ps. m_nElements (m_table mk') = length ps \<and>
       (\<forall>i. 1 \<le> i \<longrightarrow> i < length ps \<longrightarrow> ps ! i < i \<and> GetParent mk' (Some i) = Some (node_of (ps ! i)) \<and>
          children mk' i = Some (filter (\<lambda>j. ps ! j = i) [1..<length ps]) \<and>
          (\<exists>nm v. GetName mk' (Some i) = Some (Some nm) \<and> GetValue mk' (Some i) = Some (Some v)))
     else \<not> IsValid mk')"
  by (rule Load_builds_forest) (simp_all add: plain_env_ok fresh_markup_def)

lemma one_element_loads:
  "map_option (\<lambda>(ok, mk'). (ok, m_nElements (m_table mk'), m_nReservedElements (m_table mk')))
    (Load plain_env (one_element @ 0 # []) fresh_markup) = Some (True, 2, 500)"
  by code_simp

lemma skip_nothing: "cell m i = Some c \<Longrightarrow> space < c \<Longrightarrow> SkipWhitespace E m i = Some i"
  by (subst SkipWhitespace.simps) (auto simp: not_le[symmetric] simp del: not_le)

lemma put_element_freed: "m_pElements el = None \<Longrightarrow> put_element i e el = None"
  by (simp add: put_element_def)

lemma ReserveElement_kept:
  "m_nElements el \<noteq> 0 \<Longrightarrow> m_nElements el < m_nReservedElements el \<Longrightarrow>
    ReserveElement el = (m_nElements el, el\<lparr>m_nElements := m_nElements el + 1\<rparr>)"
  by (simp add: ReserveElement_def)

text \<open>The parse of a text that begins with an element, when the table was freed and its counters were kept.\<close>

lemma Parse_freed_table:
  assumes xml: "m_pstrXML mk = Some (lt_sign # c # q)" and table: "m_pElements (m_table mk) = None"
    and n: "m_nElements (m_table mk) \<noteq> 0" "m_nElements (m_table mk) + 1 < m_nReservedElements (m_table mk)"
    and c: "space < c" "c \<notin> {33, slash, 63}"
  shows "Parse E mk = None"
proof -
  define el where "el = (m_table mk)\<lparr>m_nElements := m_nElements (m_table mk) + 1\<rparr>"
  have res: "ReserveElement (m_table mk) = (m_nElements (m_table mk), el)"
    unfolding el_def by (rule ReserveElement_kept) (use n in auto)
  have el: "m_pElements el = None" "m_nElements el \<noteq> 0" "m_nElements el < m_nReservedElements el"
    using n table by (simp_all add: el_def)
  let ?m = "lt_sign # c # q" and ?m1 = "0 # c # q"
  have 0: "SkipWhitespace E ?m 0 = Some 0" by (rule skip_nothing) (auto simp: cell_def)
  have 1: "SkipWhitespace E ?m1 1 = Some 1" by (rule skip_nothing) (use c in \<open>auto simp: cell_def\<close>)
  have "open_element E pw ?m1 el 1 0 0 = None" for pw
    using el by (simp add: open_element_def ReserveElement_kept put_element_freed)
  moreover have "cell ?m 0 = Some lt_sign" "cell ?m (0 + 1) = Some c" "poke 0 0 ?m = Some ?m1" "cell ?m1 1 = Some c"
    by (simp_all add: cell_def poke_def)
  ultimately have "parse_loop E pw ?m el 0 0 0 = None" for pw
    using 0 1 c(2) by (subst parse_loop.simps) simp
  thus ?thesis by (simp add: Parse_def res xml 0)
qed

text \<open>
  C37: a markup is good for one text: \<open>Release\<close> frees the table of elements and keeps the number of elements, so
  the next \<open>Load\<close> of a text that begins with an element writes through the null pointer, as long as the first
  one did not fill the table.
\<close>

theorem Load_again_faults:
  assumes "env_ok E" and "0 \<notin> set s" and "s = [] \<or> last s = gt_sign" and "m_nElements (m_table mk) = 0"
    and l: "Load E (s @ 0 # z) mk = Some (True, mk')"
    and n: "m_nElements (m_table mk') + 1 < m_nReservedElements (m_table mk')"
    and c: "space < c" "c \<notin> {33, slash, 63}"
  shows "Load E (lt_sign # c # q) mk' = None"
proof (cases "tcslen (lt_sign # c # q)")
  case None
  thus ?thesis by (simp add: Load_def)
next
  case (Some k)
  hence "2 \<le> k" using c(1) by (auto simp: tcslen_def split: if_splits)
  then obtain k' where k': "k = k' + 2" by (metis add.commute le_Suc_ex)
  have "\<exists>N ps. describes N (m_table mk') ps" by (rule Load_outcome[OF assms(1-4), of z]) (use l in auto)
  hence "m_nElements (m_table mk') \<noteq> 0" by (auto simp: describes_def)
  with n c Some show ?thesis
    by (simp add: Load_def k' parse_or_release_def, subst Parse_freed_table) (simp_all add: Release_def)
qed

theorem Load_again_faults_witness:
  "\<exists>mk'. Load plain_env (one_element @ 0 # []) fresh_markup = Some (True, mk') \<and>
    Load plain_env (lt_sign # 87 # [32, 47, 62, 0]) mk' = None"
proof -
  from one_element_loads obtain mk' where
    l: "Load plain_env (one_element @ 0 # []) fresh_markup = Some (True, mk')"
      "m_nElements (m_table mk') = 2" "m_nReservedElements (m_table mk') = 500" by auto
  from Load_again_faults[OF plain_env_ok _ _ _ l(1), of 87 "[32, 47, 62, 0]"] l show ?thesis
    by (auto simp: fresh_markup_def)
qed

section \<open>Examples\<close>

text \<open>\<open><W x="&lt;1"><a /><b /></W>\<close> is a root with two children; without the spaces it is refused.\<close>

lemma two_children:
  "map_option (\<lambda>(ok, mk'). (ok, children mk' 1, GetName mk' (Some 3), GetAttributeValue_named plain_env mk' (Some 1) [120]))
    (Load plain_env ([60, 87, 32, 120, 61, 34, 38, 108, 116, 59, 49, 34, 62, 60, 97, 32, 47, 62, 60, 98, 32, 47, 62, 60, 47, 87, 62] @ 0 # []) fresh_markup)
    = Some (True, Some [2, 3], Some (Some [98]), Some (Some [60, 49]))"
  by code_simp

lemma without_spaces:
  "map_option (\<lambda>(ok, mk'). (ok, m_szErrorMsg mk'))
    (Load plain_env ([60, 87, 62, 60, 97, 47, 62, 60, 98, 47, 62, 60, 47, 87, 62] @ 0 # []) fresh_markup)
    = Some (False, ''Unmatched closing tag'')"
  by code_simp

text \<open>\<open><a b=\<close> and \<open><a></a\<close>: the place of the error is behind the terminator.\<close>

lemma ends_in_a_tag:
  "Load plain_env ([60, 97, 32, 98, 61] @ 0 # []) fresh_markup = None"
  "Load plain_env ([60, 97, 62, 60, 47, 97] @ 0 # []) fresh_markup = None"
  by (simp_all add: Option.is_none_def[symmetric]) (code_simp, code_simp)

text \<open>The root of a text without elements is an entry of the table that was not written.\<close>

lemma root_without_elements:
  "map_option (\<lambda>(ok, mk'). (ok, GetRoot mk', GetName mk' (GetRoot mk'))) (Load plain_env ([] @ 0 # []) fresh_markup)
    = Some (True, Some 1, None)"
  by code_simp

end
