(* ===== verification/Dui_ValArray.thy ===== *)
theory Dui_ValArray
  imports Dui_Base
begin

text \<open>
  \<open>CStdValArray\<close> of \<open>DuiLib/Utils/Utils.cpp\<close>: an array of elements of a fixed number of bytes, on its block of
  memory, against lists of elements.

  New memory is a parameter: \<open>new_bytes n\<close> are the bytes of a new block of \<open>n\<close>, \<open>None\<close> when there is none. An
  access outside of the block is \<open>None\<close>. \<open>CopyMemory\<close> on overlapping cells copies as if through a buffer.
\<close>

record val_array =
  m_pVoid :: "u8 list option"
  m_nCount_v :: int
  m_iElementSize :: nat
  m_nAllocated_v :: int

definition CStdValArray :: "(nat \<Rightarrow> u8 list option) \<Rightarrow> nat \<Rightarrow> nat \<Rightarrow> val_array" where
  "CStdValArray new_bytes iElementSize iPreallocSize =
     \<lparr>m_pVoid = (if iPreallocSize > 0 then new_bytes (iPreallocSize * iElementSize) else None), m_nCount_v = 0,
      m_iElementSize = iElementSize, m_nAllocated_v = int iPreallocSize\<rparr>"

definition val_Empty :: "val_array \<Rightarrow> val_array" where
  "val_Empty a = a\<lparr>m_nCount_v := 0\<rparr>"

definition val_IsEmpty :: "val_array \<Rightarrow> bool" where
  "val_IsEmpty a \<longleftrightarrow> m_nCount_v a = 0"

definition val_GetSize :: "val_array \<Rightarrow> int" where
  "val_GetSize a = m_nCount_v a"

definition val_GetData :: "val_array \<Rightarrow> u8 list option" where
  "val_GetData a = m_pVoid a"

definition realloc_bytes :: "(nat \<Rightarrow> u8 list option) \<Rightarrow> u8 list option \<Rightarrow> nat \<Rightarrow> u8 list option" where
  "realloc_bytes new_bytes old n =
     (let bs = (case old of None \<Rightarrow> [] | Some bs \<Rightarrow> bs) in map_option (\<lambda>b. take n bs @ drop (length bs) b) (new_bytes n))"

definition copy_bytes :: "nat \<Rightarrow> u8 list \<Rightarrow> u8 list \<Rightarrow> u8 list option" where
  "copy_bytes i xs b = (if i + length xs \<le> length b then Some (take i b @ xs @ drop (i + length xs) b) else None)"

definition val_Add :: "(nat \<Rightarrow> u8 list option) \<Rightarrow> u8 list \<Rightarrow> val_array \<Rightarrow> (bool \<times> val_array) option" where
  "val_Add new_bytes pData a = do {
     let e = m_iElementSize a;
     let nCount = m_nCount_v a + 1;
     let nAllocated = (if m_nAllocated_v a * 2 = 0 then 11 else m_nAllocated_v a * 2);
     let a1 = (if nCount \<ge> m_nAllocated_v a
               then map_option (\<lambda>b. a\<lparr>m_pVoid := Some b, m_nAllocated_v := nAllocated\<rparr>)
                      (realloc_bytes new_bytes (m_pVoid a) (nat nAllocated * e))
               else Some a);
     case a1 of
       None \<Rightarrow> Some (False, a)
     | Some a2 \<Rightarrow> do {
         b \<leftarrow> m_pVoid a2;
         b1 \<leftarrow> (if e \<le> length pData then copy_bytes (nat (nCount - 1) * e) (take e pData) b else None);
         Some (True, a2\<lparr>m_nCount_v := nCount, m_pVoid := Some b1\<rparr>)
       }
   }"

definition read_bytes :: "nat \<Rightarrow> nat \<Rightarrow> u8 list \<Rightarrow> u8 list option" where
  "read_bytes i n b = (if i + n \<le> length b then Some (take n (drop i b)) else None)"

definition val_Remove :: "int \<Rightarrow> val_array \<Rightarrow> (bool \<times> val_array) option" where
  "val_Remove iIndex a =
     (if iIndex < 0 \<or> iIndex \<ge> m_nCount_v a then Some (False, a)
      else
        let e = m_iElementSize a; nCount = m_nCount_v a - 1; a1 = a\<lparr>m_nCount_v := nCount\<rparr>
        in if iIndex < nCount
           then do {
             b \<leftarrow> m_pVoid a1;
             xs \<leftarrow> read_bytes (nat (iIndex + 1) * e) (nat (nCount - iIndex) * e) b;
             b1 \<leftarrow> copy_bytes (nat iIndex * e) xs b;
             Some (True, a1\<lparr>m_pVoid := Some b1\<rparr>)
           }
           else Some (True, a1))"

text \<open>The element at an index, \<open>Some None\<close> for \<open>NULL\<close>; \<open>operator[]\<close> only asserts that the index is one.\<close>

definition val_GetAt :: "int \<Rightarrow> val_array \<Rightarrow> u8 list option option" where
  "val_GetAt iIndex a =
     (if iIndex < 0 \<or> iIndex \<ge> m_nCount_v a then Some None
      else do {
        b \<leftarrow> m_pVoid a; map_option Some (read_bytes (nat iIndex * m_iElementSize a) (m_iElementSize a) b)
      })"

definition val_subscript :: "int \<Rightarrow> val_array \<Rightarrow> u8 list option" where
  "val_subscript iIndex a =
     (if iIndex \<ge> 0 \<and> iIndex < m_nCount_v a
      then do { b \<leftarrow> m_pVoid a; read_bytes (nat iIndex * m_iElementSize a) (m_iElementSize a) b }
      else None)"

section \<open>Lists of elements\<close>

definition holds_elements :: "val_array \<Rightarrow> u8 list list \<Rightarrow> bool" where
  "holds_elements a xs \<longleftrightarrow> m_nCount_v a = int (length xs) \<and> 0 < m_iElementSize a \<and>
     (\<forall>x \<in> set xs. length x = m_iElementSize a) \<and>
     (case m_pVoid a of
        None \<Rightarrow> xs = [] \<and> m_nAllocated_v a = 0
      | Some b \<Rightarrow> int (length xs) \<le> m_nAllocated_v a \<and> length b = nat (m_nAllocated_v a) * m_iElementSize a \<and>
          take (length xs * m_iElementSize a) b = concat xs)"

lemma length_concat_const: "\<forall>x \<in> set xs. length x = e \<Longrightarrow> length (concat xs) = length xs * e"
  by (induction xs) auto

lemma take_drop_concat:
  "\<forall>x \<in> set xs. length x = e \<Longrightarrow> i + n \<le> length xs \<Longrightarrow>
    take (n * e) (drop (i * e) (concat xs)) = concat (take n (drop i xs))"
proof (induction xs arbitrary: i n)
  case (Cons x xs)
  show ?case
  proof (cases i)
    case 0
    show ?thesis
    proof (cases n)
      case (Suc n')
      with 0 Cons.prems Cons.IH[of 0 n'] show ?thesis by simp
    qed (simp add: 0)
  next
    case (Suc i')
    with Cons.prems Cons.IH[of i' n] show ?thesis by simp
  qed
qed simp

lemma read_holds:
  assumes h: "holds_elements a xs" and b: "m_pVoid a = Some b" and i: "i + n \<le> length xs"
  shows "read_bytes (i * m_iElementSize a) (n * m_iElementSize a) b = Some (concat (take n (drop i xs)))"
proof -
  let ?e = "m_iElementSize a"
  have e: "\<forall>x \<in> set xs. length x = ?e" and t: "take (length xs * ?e) b = concat xs"
    and l: "int (length xs) \<le> m_nAllocated_v a" "length b = nat (m_nAllocated_v a) * ?e"
    using h b by (auto simp: holds_elements_def)
  have "length xs \<le> nat (m_nAllocated_v a)" using l(1) by linarith
  hence "length xs * ?e \<le> length b" unfolding l(2) by (rule mult_le_mono1)
  moreover have m: "(i + n) * ?e \<le> length xs * ?e" using i by (rule mult_le_mono1)
  ultimately have room: "i * ?e + n * ?e \<le> length b" by (simp add: add_mult_distrib)
  have "take (n * ?e) (drop (i * ?e) b) = take (n * ?e) (drop (i * ?e) (take (length xs * ?e) b))"
    using m by (simp add: drop_take add_mult_distrib min_def)
  with room take_drop_concat[OF e i] show ?thesis by (simp add: read_bytes_def t)
qed

lemma Remove_holds:
  assumes h: "holds_elements a xs"
  shows "\<exists>a'. val_Remove i a = Some (0 \<le> i \<and> i < int (length xs), a') \<and> m_iElementSize a' = m_iElementSize a \<and>
    holds_elements a' (if 0 \<le> i \<and> i < int (length xs) then take (nat i) xs @ drop (nat i + 1) xs else xs)"
proof (cases "0 \<le> i \<and> i < int (length xs)")
  case False
  with h show ?thesis by (auto simp: val_Remove_def holds_elements_def)
next
  case True
  define k where "k = nat i"
  have k: "k < length xs" "i = int k" using True by (auto simp: k_def)
  let ?e = "m_iElementSize a"
  obtain b where b: "m_pVoid a = Some b" using h k by (cases "m_pVoid a") (auto simp: holds_elements_def)
  have e: "\<forall>x \<in> set xs. length x = ?e" "0 < ?e" and t: "take (length xs * ?e) b = concat xs" and n: "m_nCount_v a = int (length xs)"
    and l: "int (length xs) \<le> m_nAllocated_v a" "length b = nat (m_nAllocated_v a) * ?e"
    using h b by (auto simp: holds_elements_def)
  have "length xs \<le> nat (m_nAllocated_v a)" using l(1) by linarith
  hence room: "length xs * ?e \<le> length b" unfolding l(2) by (rule mult_le_mono1)
  define ys where "ys = take k xs @ drop (k + 1) xs"
  have ys: "length ys = length xs - 1" "\<forall>y \<in> set ys. length y = ?e"
    using k e(1) by (auto simp: ys_def dest: in_set_takeD in_set_dropD)
  have cys: "concat ys = concat (take k xs) @ concat (drop (k + 1) xs)" by (simp add: ys_def)
  have tk: "take (k * ?e) b = concat (take k xs)"
  proof -
    have "k * ?e \<le> length xs * ?e" using k(1) by (intro mult_le_mono1) simp
    hence "take (k * ?e) b = take (k * ?e) (take (length xs * ?e) b)" by (simp add: min_def)
    also have "\<dots> = concat (take k xs)" using take_drop_concat[OF e(1), of 0 k] k(1) by (simp add: t)
    finally show ?thesis .
  qed
  show ?thesis
  proof (cases "k + 1 = length xs")
    case True
    have "take (length ys * ?e) b = concat ys" using tk True by (simp add: ys(1) ys_def True[symmetric])
    with h b ys k True n l show ?thesis
      by (auto simp: val_Remove_def holds_elements_def ys_def[symmetric] k_def[symmetric] Let_def tk dest: in_set_takeD)
  next
    case False
    hence less: "k + 1 < length xs" using k(1) by simp
    define m where "m = length xs - 1 - k"
    have r: "read_bytes ((k + 1) * ?e) (m * ?e) b = Some (concat (drop (k + 1) xs))"
      using read_holds[OF h b, of "k + 1" m] k(1) by (simp add: m_def)
    have lm: "length (concat (drop (Suc k) xs)) = m * ?e"
      using length_concat_const[of "drop (Suc k) xs" ?e] e(1) by (auto simp: m_def dest: in_set_dropD)
    have "k * ?e + m * ?e = (length xs - 1) * ?e" using k(1) by (simp add: m_def add_mult_distrib[symmetric])
    moreover have "(length xs - 1) * ?e \<le> length b" by (rule le_trans[OF mult_le_mono1 room]) simp
    ultimately have fit: "k * ?e + m * ?e \<le> length b" "k * ?e + m * ?e = length ys * ?e" by (simp_all only: ys(1))
    define b1 where "b1 = take (k * ?e) b @ concat (drop (k + 1) xs) @ drop (k * ?e + m * ?e) b"
    have c: "copy_bytes (k * ?e) (concat (drop (k + 1) xs)) b = Some b1"
      using fit(1) by (simp add: copy_bytes_def lm b1_def)
    have "length (concat ys) = length ys * ?e" by (rule length_concat_const[OF ys(2)])
    hence t1: "take (length ys * ?e) b1 = concat ys" by (simp add: b1_def tk cys)
    have l1: "length b1 = length b" using fit(1) by (simp add: b1_def lm)
    have "val_Remove i a = Some (True, a\<lparr>m_nCount_v := int (length xs) - 1, m_pVoid := Some b1\<rparr>)"
      using less k n b r c by (simp add: val_Remove_def Let_def m_def nat_diff_distrib of_nat_diff nat_add_distrib)
    moreover have "holds_elements (a\<lparr>m_nCount_v := int (length xs) - 1, m_pVoid := Some b1\<rparr>) ys"
      using ys t1 l1 l e(2) k(1) by (auto simp: holds_elements_def of_nat_diff)
    ultimately show ?thesis using k by (simp add: ys_def)
  qed
qed

lemma store_last:
  assumes len: "length b = N * e" and l: "length xs + 1 \<le> N" and t: "take (length xs * e) b = concat xs"
    and x: "length x = e"
  obtains b1 where "copy_bytes (length xs * e) x b = Some b1" and "length b1 = N * e"
    and "take (length (xs @ [x]) * e) b1 = concat (xs @ [x])"
proof -
  have "(length xs + 1) * e \<le> N * e" using l by (rule mult_le_mono1)
  hence fit: "length xs * e + e \<le> length b" by (simp add: len)
  have tl: "length (concat xs) = length xs * e" unfolding t[symmetric] using fit by simp
  define b1 where "b1 = take (length xs * e) b @ x @ drop (length xs * e + e) b"
  show ?thesis
  proof (rule that)
    show "copy_bytes (length xs * e) x b = Some b1" using fit x by (simp add: copy_bytes_def b1_def)
    show "length b1 = N * e" using fit x len by (simp add: b1_def)
    show "take (length (xs @ [x]) * e) b1 = concat (xs @ [x])" using x tl by (simp add: b1_def t)
  qed
qed

lemma Add_holds:
  assumes h: "holds_elements a xs" and x: "length x = m_iElementSize a" and mem: "\<And>n. \<exists>b. new_bytes n = Some b \<and> length b = n"
  shows "\<exists>a'. val_Add new_bytes x a = Some (True, a') \<and> m_iElementSize a' = m_iElementSize a \<and> holds_elements a' (xs @ [x])"
proof -
  let ?e = "m_iElementSize a"
  have e: "\<forall>x \<in> set xs. length x = ?e" "0 < ?e" and n: "m_nCount_v a = int (length xs)" using h by (auto simp: holds_elements_def)
  define grown where "grown = (if m_nAllocated_v a * 2 = 0 then 11 else m_nAllocated_v a * 2)"
  define old where "old = (case m_pVoid a of None \<Rightarrow> [] | Some bs \<Rightarrow> bs)"
  have o: "length old = nat (m_nAllocated_v a) * ?e" "take (length xs * ?e) old = concat xs" "int (length xs) \<le> m_nAllocated_v a"
    using h by (auto simp: holds_elements_def old_def split: option.splits)
  have "\<exists>a2 b. (if int (length xs) + 1 \<ge> m_nAllocated_v a
               then map_option (\<lambda>b. a\<lparr>m_pVoid := Some b, m_nAllocated_v := grown\<rparr>)
                      (realloc_bytes new_bytes (m_pVoid a) (nat grown * ?e))
               else Some a) = Some a2 \<and> m_pVoid a2 = Some b \<and> length b = nat (m_nAllocated_v a2) * ?e \<and>
      int (length xs) + 1 \<le> m_nAllocated_v a2 \<and> take (length xs * ?e) b = concat xs \<and> m_iElementSize a2 = ?e"
  proof (cases "int (length xs) + 1 \<ge> m_nAllocated_v a")
    case True
    from mem[of "nat grown * ?e"] obtain b0 where b0: "new_bytes (nat grown * ?e) = Some b0" "length b0 = nat grown * ?e" by blast
    have g: "int (length xs) + 1 \<le> grown" "m_nAllocated_v a \<le> grown" using o(3) by (auto simp: grown_def)
    have og: "length old \<le> nat grown * ?e" unfolding o(1) by (rule mult_le_mono1) (use g(2) in simp)
    define b where "b = old @ drop (length old) b0"
    have "realloc_bytes new_bytes (m_pVoid a) (nat grown * ?e) = Some b"
      using b0(1) og by (simp add: realloc_bytes_def old_def[symmetric] b_def)
    moreover have "length b = nat grown * ?e" using og b0(2) by (simp add: b_def)
    moreover have "take (length xs * ?e) b = concat xs"
    proof -
      have "length xs \<le> nat (m_nAllocated_v a)" using o(3) by linarith
      hence "length xs * ?e \<le> length old" unfolding o(1) by (rule mult_le_mono1)
      thus ?thesis using o(2) by (simp add: b_def)
    qed
    ultimately show ?thesis using True g(1) by (intro exI[of _ "a\<lparr>m_pVoid := Some b, m_nAllocated_v := grown\<rparr>"] exI[of _ b]) simp
  next
    case False
    then obtain b where "m_pVoid a = Some b" using h by (cases "m_pVoid a") (auto simp: holds_elements_def)
    with False o show ?thesis by (intro exI[of _ a] exI[of _ b]) (simp add: old_def)
  qed
  then obtain a2 b where a2: "(if int (length xs) + 1 \<ge> m_nAllocated_v a
               then map_option (\<lambda>b. a\<lparr>m_pVoid := Some b, m_nAllocated_v := grown\<rparr>)
                      (realloc_bytes new_bytes (m_pVoid a) (nat grown * ?e))
               else Some a) = Some a2" "m_pVoid a2 = Some b" "length b = nat (m_nAllocated_v a2) * ?e"
    "int (length xs) + 1 \<le> m_nAllocated_v a2" "take (length xs * ?e) b = concat xs" "m_iElementSize a2 = ?e" by blast
  have "length xs + 1 \<le> nat (m_nAllocated_v a2)" using a2(4) by linarith
  from store_last[OF a2(3) this a2(5) x] obtain b1 where b1: "copy_bytes (length xs * ?e) x b = Some b1"
    "length b1 = nat (m_nAllocated_v a2) * ?e" "take (length (xs @ [x]) * ?e) b1 = concat (xs @ [x])" .
  have "val_Add new_bytes x a = Some (True, a2\<lparr>m_nCount_v := int (length xs) + 1, m_pVoid := Some b1\<rparr>)"
    unfolding val_Add_def Let_def n grown_def[symmetric] a2(1) using a2(2) b1(1) x by simp
  moreover have "holds_elements (a2\<lparr>m_nCount_v := int (length xs) + 1, m_pVoid := Some b1\<rparr>) (xs @ [x])"
    using e a2(4,6) b1(2,3) x by (auto simp: holds_elements_def)
  ultimately show ?thesis using a2(6) by auto
qed

lemma GetAt_holds:
  assumes h: "holds_elements a xs"
  shows "val_GetAt i a = Some (if 0 \<le> i \<and> i < int (length xs) then Some (xs ! nat i) else None)"
proof (cases "0 \<le> i \<and> i < int (length xs)")
  case True
  then obtain b where b: "m_pVoid a = Some b" using h by (cases "m_pVoid a") (auto simp: holds_elements_def)
  have "nat i < length xs" using True by linarith
  with read_holds[OF h b, of "nat i" 1] have "read_bytes (nat i * m_iElementSize a) (m_iElementSize a) b = Some (xs ! nat i)"
    by (simp add: take_Suc_conv_app_nth hd_drop_conv_nth take_Suc)
  with True b h show ?thesis by (simp add: val_GetAt_def holds_elements_def)
next
  case False
  with h show ?thesis by (auto simp: val_GetAt_def holds_elements_def)
qed

section \<open>Sequences of calls\<close>

datatype val_call = Val_Add "u8 list" | Val_Remove int | Val_GetAt int | Val_GetSize | Val_IsEmpty | Val_Empty

datatype val_result = Val_Flag bool | Val_Element "u8 list option" | Val_Size int

fun do_val_call :: "(nat \<Rightarrow> u8 list option) \<Rightarrow> val_call \<Rightarrow> val_array \<Rightarrow> (val_result \<times> val_array) option" where
  "do_val_call M (Val_Add x) a = do { (r, a1) \<leftarrow> val_Add M x a; Some (Val_Flag r, a1) }"
| "do_val_call M (Val_Remove i) a = do { (r, a1) \<leftarrow> val_Remove i a; Some (Val_Flag r, a1) }"
| "do_val_call M (Val_GetAt i) a = do { r \<leftarrow> val_GetAt i a; Some (Val_Element r, a) }"
| "do_val_call M Val_GetSize a = Some (Val_Size (val_GetSize a), a)"
| "do_val_call M Val_IsEmpty a = Some (Val_Flag (val_IsEmpty a), a)"
| "do_val_call M Val_Empty a = Some (Val_Flag True, val_Empty a)"

fun val_spec :: "val_call \<Rightarrow> u8 list list \<Rightarrow> val_result \<times> u8 list list" where
  "val_spec (Val_Add x) xs = (Val_Flag True, xs @ [x])"
| "val_spec (Val_Remove i) xs =
     (Val_Flag (0 \<le> i \<and> i < int (length xs)),
      if 0 \<le> i \<and> i < int (length xs) then take (nat i) xs @ drop (nat i + 1) xs else xs)"
| "val_spec (Val_GetAt i) xs = (Val_Element (if 0 \<le> i \<and> i < int (length xs) then Some (xs ! nat i) else None), xs)"
| "val_spec Val_GetSize xs = (Val_Size (int (length xs)), xs)"
| "val_spec Val_IsEmpty xs = (Val_Flag (xs = []), xs)"
| "val_spec Val_Empty xs = (Val_Flag True, [])"

fun val_allowed :: "nat \<Rightarrow> val_call \<Rightarrow> bool" where
  "val_allowed e (Val_Add x) \<longleftrightarrow> length x = e"
| "val_allowed e _ \<longleftrightarrow> True"

definition memory_there :: "(nat \<Rightarrow> u8 list option) \<Rightarrow> bool" where
  "memory_there M \<longleftrightarrow> (\<forall>n. \<exists>b. M n = Some b \<and> length b = n)"

definition val_rel :: "(nat \<Rightarrow> u8 list option) \<Rightarrow> nat \<Rightarrow> val_array \<Rightarrow> u8 list list \<Rightarrow> bool" where
  "val_rel M e a xs \<longleftrightarrow> memory_there M \<and> m_iElementSize a = e \<and> holds_elements a xs"

lemma Empty_holds: "holds_elements a xs \<Longrightarrow> holds_elements (val_Empty a) []"
  by (auto simp: holds_elements_def val_Empty_def split: option.splits)

lemma val_call_refines:
  "val_rel M e a xs \<Longrightarrow> val_allowed e op \<Longrightarrow>
    \<exists>a'. do_val_call M op a = Some (fst (val_spec op xs), a') \<and> val_rel M e a' (snd (val_spec op xs))"
proof (cases op)
  case (Val_Add x)
  assume "val_rel M e a xs" "val_allowed e op"
  with Val_Add Add_holds[of a xs x M] show ?thesis by (auto simp: val_rel_def memory_there_def)
next
  case (Val_Remove i)
  assume "val_rel M e a xs"
  with Val_Remove Remove_holds[of a xs i] show ?thesis by (auto simp: val_rel_def)
next
  case (Val_GetAt i)
  assume "val_rel M e a xs"
  with Val_GetAt GetAt_holds[of a xs i] show ?thesis by (auto simp: val_rel_def)
next
  case Val_Empty
  assume "val_rel M e a xs"
  with Val_Empty Empty_holds[of a xs] show ?thesis by (auto simp: val_rel_def val_Empty_def)
qed (auto simp: val_rel_def val_GetSize_def val_IsEmpty_def holds_elements_def)

interpretation val_list: refinement "val_rel M e" "do_val_call M" val_spec "\<lambda>c _. val_allowed e c"
  for M e
  by unfold_locales (rule val_call_refines)

text \<open>
  From a new array, every sequence of calls with elements of its size stays inside the block and answers as a list
  of elements, when memory is there.
\<close>

theorem val_array_refines_list:
  assumes "memory_there M" and "0 < e" and "list_all (val_allowed e) calls"
  shows "\<exists>a. run_calls (do_val_call M) calls (CStdValArray M e n) = Some (fst (spec_calls val_spec calls []), a) \<and>
    holds_elements a (snd (spec_calls val_spec calls []))"
proof -
  have "\<exists>b. M (n * e) = Some b \<and> length b = n * e" using assms(1) by (simp add: memory_there_def)
  hence "val_rel M e (CStdValArray M e n) []"
    using assms(1,2) by (auto simp: val_rel_def holds_elements_def CStdValArray_def)
  from val_list.runs_alike[OF this all_allowed_static[OF assms(3)]] show ?thesis by (auto simp: val_rel_def)
qed

theorem val_array_refines_list_witness:
  "\<exists>a. run_calls (do_val_call (\<lambda>n. Some (replicate n 0))) [Val_Add [1, 2], Val_Add [3, 4], Val_Remove 0, Val_GetAt 0, Val_GetSize]
      (CStdValArray (\<lambda>n. Some (replicate n 0)) 2 0) =
    Some ([Val_Flag True, Val_Flag True, Val_Flag True, Val_Element (Some [3, 4]), Val_Size 1], a) \<and> holds_elements a [[3, 4]]"
  using val_array_refines_list[of "\<lambda>n. Some (replicate n 0)" 2
      "[Val_Add [1, 2], Val_Add [3, 4], Val_Remove 0, Val_GetAt 0, Val_GetSize]" 0]
  by (simp add: memory_there_def)

text \<open>The constructor keeps the number of elements asked for when there is no memory, so that \<open>Add\<close> writes through \<open>NULL\<close>.\<close>

lemma no_memory_then_add: "val_Add (\<lambda>n. None) [1] (CStdValArray (\<lambda>n. None) 1 5) = None"
  by (simp add: val_Add_def CStdValArray_def)

end
