(* ===== verification/Spec2Isabelle.thy ===== *)
theory Spec2Isabelle
  imports Uv_Queue Uv_Heap_Order Uv_Errno Uv_Inet_Roundtrip Uv_Run Uv_Threadpool_Props
    Uv_Process_Props Uv_Search_Props Uv_Environ_Props Pm_Props Pm_Window_Props
    Dui_Map_Props Dui_String_Calls Dui_Markup_Props Dui_ValArray
begin

text \<open>
  A model of \<^emph>\<open>PortMapping\<close>, a Windows program that forwards the connections of local ports to other
  addresses, and of the libraries it is made of, as far as they do not call the operating system.

  \<^bold>\<open>The program.\<close> A window (\<open>PortMapping/MainDlg.cpp\<close>) with a form and two lists, of mappings and of
  connections, sends the wishes of the user to an adapter (\<open>PortMapping/LibuvAdapter.cpp\<close>), which
  runs libuv (\<open>libuv-dll\<close>) on a thread of its own: a wish becomes an item of work of the loop, the work
  and the callbacks of the network change the maps of mappings and connections, and the adapter tells
  the window of each change through \<open>INotifyLoop\<close>. The lists and their lines are controls of DuiLib.

  \<^bold>\<open>Theories and sources.\<close> All paths are under \<open>src/\<close>.

  \<^item> \<open>Uv_Prelude\<close>: pointers, heaps of objects, words and the lemma collections the rest shares.
  \<^item> \<open>Uv_Queue\<close>: the macros of \<open>libuv-dll/src/queue.h\<close> over a store of the two pointer fields; the
    lists they stand for (\<open>is_queue\<close>), and the refinement of list operations.
  \<^item> \<open>Uv_Heap\<close>, \<open>Uv_Heap_Order\<close>: \<open>heap-inl.h\<close>, pointer by pointer; shape, order and contents.
  \<^item> \<open>Uv_Errno\<close>: the constants of \<open>include/uv-errno.h\<close>, the table \<open>UV_ERRNO_MAP\<close>, the functions on them in
    \<open>uv-common.c\<close>, and the translations of \<open>win/error.c\<close>, \<open>win/winsock.c\<close> and \<open>win/getaddrinfo.c\<close>.
  \<^item> \<open>Uv_Inet\<close>, \<open>Uv_Inet_Roundtrip\<close>: \<open>inet.c\<close> and the address functions of \<open>uv-common.c\<close>.
  \<^item> \<open>Uv_Handle\<close>: the handle macros of \<open>uv-common.h\<close> and \<open>uv_walk\<close>, for the flag values of both platforms.
  \<^item> \<open>Uv_Timer\<close>: \<open>unix/timer.c\<close> on the heap and the handles.
  \<^item> \<open>Uv_Watcher\<close>: \<open>unix/loop-watcher.c\<close> and \<open>win/loop-watcher.c\<close>.
  \<^item> \<open>Uv_Io\<close>: the I/O watchers of \<open>unix/core.c\<close> and the start of \<open>uv__io_poll\<close> in \<open>unix/linux-core.c\<close>.
  \<^item> \<open>Uv_Loop\<close>, \<open>Uv_Run\<close>: closing of handles and \<open>uv_run\<close> of \<open>unix/core.c\<close>, \<open>uv_loop_init\<close> and
    \<open>uv__loop_configure\<close> of \<open>unix/loop.c\<close>, composed of the watchers, the timers and the queues.
  \<^item> \<open>Uv_Threadpool\<close>, \<open>Uv_Threadpool_Inv\<close>, \<open>Uv_Threadpool_Props\<close>: \<open>threadpool.c\<close>, whose threads and loops
    interleave in a step relation; the invariant of its queues, histories and sleeping threads.
  \<^item> \<open>Uv_Common\<close>: what else of \<open>uv-common.c\<close> computes.
  \<^item> \<open>Uv_Process\<close>: the texts of \<open>win/process.c\<close>, the command line of a new process and the search for its program.
    \<open>Uv_Process_Props\<close>: a program that reads the command line gets the arguments back; \<open>Uv_Search_Props\<close>: the search
    against the list of its candidates. \<open>Uv_Environ\<close>, \<open>Uv_Environ_Props\<close>: its block of variables, sorted and complete.
  \<^item> \<open>Pm_Map\<close>: \<open>std::map\<close> as the association lists the application uses it for, behind a locale.
  \<^item> \<open>Pm_Types\<close>: the data of \<open>PortMapping/LibuvAdapter.h\<close>; mappings and connections live in a memory, so
    that \<open>delete\<close> is visible and the use of a deleted object is \<open>None\<close>.
  \<^item> \<open>Pm_Adapter\<close>, \<open>Pm_Callbacks\<close>: the methods of \<open>CLibuvAdapter\<close> and of \<open>IOCallBack\<close>.
  \<^item> \<open>Pm_Invariant\<close>, \<open>Pm_Steps\<close>, \<open>Pm_Props\<close>: the events as a step relation, the invariant that every step
    keeps, and what follows from it.
  \<^item> \<open>Dui_Array\<close>: \<open>CStdPtrArray\<close> of \<open>DuiLib/Utils/Utils.cpp\<close> on its block of memory.
  \<^item> \<open>Dui_Base\<close>: components that refine a specification call by call, as a locale.
  \<^item> \<open>Dui_ValArray\<close>: \<open>CStdValArray\<close>, on the bytes of its block, against lists of elements.
  \<^item> \<open>Dui_Map\<close>, \<open>Dui_Map_Props\<close>: the hash table \<open>CStdStringPtrMap\<close> of the same file, with its chains of items in
    a heap, against finite maps.
  \<^item> \<open>Dui_String\<close>, \<open>Dui_String_Props\<close>, \<open>Dui_String_Calls\<close>: its strings \<open>CDuiString\<close>, with their buffer and their
    block, against lists of characters.
  \<^item> \<open>Dui_Markup\<close>: the parser \<open>CMarkup\<close> and its nodes \<open>CMarkupNode\<close> (\<open>DuiLib/Core/UIMarkup.cpp\<close>), which read the
    descriptions of the windows in place. \<open>Dui_Markup_Safe\<close>, \<open>Dui_Markup_Tags\<close> and \<open>Dui_Markup_Loop\<close>: its loops stay
    inside the text and end; \<open>Dui_Markup_Tree\<close>: its table is a forest; \<open>Dui_Markup_Props\<close>: what loading promises.
  \<^item> \<open>Pm_Item\<close>: the lines of the lists, \<open>PortMapping/MyListItem.cpp\<close>, with the memory of their texts.
  \<^item> \<open>Pm_Window\<close>: the window and the checked fields of \<open>PortMapping/EditUIEx.cpp\<close>.
  \<^item> \<open>Pm_Form\<close>, \<open>Pm_Window_Props\<close>: the form against the code that reads it, and the window against the
    adapter.

  \<^bold>\<open>How code becomes a definition.\<close> A C structure is a record and an object of it a value of a function
  from pointers; a pointer is a natural number and \<open>NULL\<close> is 0. What reads through \<open>NULL\<close> or follows a
  deleted object is \<open>None\<close>. Integers keep their width where it shows (\<open>u8\<close> to \<open>u64\<close>); an \<open>int\<close> that
  cannot overflow is an integer. Loops over lists are recursive functions; a loop that may go on for ever
  is a partial function in the option monad, and its theorem says that it returns. Callbacks of the user
  are parameters that may change the state in the ways the documentation allows. What the system
  answers is an argument of the call that asks.

  \<^bold>\<open>What the lemmas show.\<close> For the data structures: they implement lists, multisets and columns, for every
  sequence of operations, and never follow a wild pointer. For the loop: the counts of active handles,
  the tables of watchers and the queues stay consistent; timers fire in order, each once; a closed handle is
  finished once; both platforms call watchers alike; a loop of timers ends. For texts: printing and
  parsing of addresses and codes are inverse, arguments survive quoting, and the parser of window descriptions never leaves a text that ends
  with a tag. For the application: the table of connections
  holds live connections only, and a line never leaks its texts. Several theorems state where the program
  does not do what it means to do; the comments at them say so.

  \<^bold>\<open>Bounds.\<close> No fuel is used for loops of the code: lengths of the lists bound them, or a partial function
  is shown to return. The table of watchers is at most \<open>2 ^ 31\<close> entries long, as its index is an \<open>int\<close>.

  \<^bold>\<open>Not modelled.\<close> The wrappers of system calls of libuv (sockets, files, processes, terminals, DNS, signals,
  threads), since their behaviour is the system's; its tests and benchmarks; the drawing, layout and
  message code of DuiLib, which needs the window system; \<open>CMarkup::LoadFromFile\<close>, which reads files and archives; the decoders \<open>stb_image.c\<close> and \<open>XUnzip.cpp\<close>,
  third-party code; the test server.
\<close>

end
